(* ===== verification/Prelude.thy ===== *)
theory Prelude
  imports Main "HOL-Library.AList" "HOL-Library.Char_ord" "HOL-Library.List_Lexorder"
    "HOL-Library.Monad_Syntax" "HOL-Library.Sublist"
begin

text \<open>
  The shared base of the development: the part of Go and of its standard library that the
  modelled packages use, and the generic facts their proofs share.

  \<^item> A Go \<^verbatim>\<open>string\<close> is its byte sequence, a \<^typ>\<open>string\<close>. Code that works on runes
    (\<^verbatim>\<open>[]rune(s)\<close>, \<^verbatim>\<open>strings.TrimSpace\<close>, \<^verbatim>\<open>strings.Fields\<close>) decodes UTF-8 first: \<open>chunks\<close>
    cuts a string as \<^verbatim>\<open>utf8.DecodeRune\<close> does, an invalid byte being a chunk of its own.
  \<^item> A Go map that is only read and written is a HOL map; one that is ranged over is an
    association list with distinct keys (\<open>HOL-Library.AList\<close>).
  \<^item> A run-time panic is \<^const>\<open>None\<close>, an \<^verbatim>\<open>error\<close> result is the left side of a sum.
\<close>

named_theorems go_simps \<open>characteristic equations of the Go library model\<close>

section \<open>UTF-8\<close>

definition byte :: "char \<Rightarrow> nat" where
  "byte c = of_char c"

definition cont :: "nat \<Rightarrow> bool" where
  "cont b = (128 \<le> b \<and> b \<le> 191)"

definition second_lo :: "nat \<Rightarrow> nat" where
  "second_lo b = (if b = 224 then 160 else if b = 240 then 144 else 128)"

definition second_hi :: "nat \<Rightarrow> nat" where
  "second_hi b = (if b = 237 then 159 else if b = 244 then 143 else 191)"

text \<open>
  \<^verbatim>\<open>utf8.DecodeRuneInString\<close>: the code point and its width in bytes; \<^const>\<open>None\<close> with width 1 is
  \<^verbatim>\<open>RuneError\<close> for an invalid byte (overlong forms, surrogates and truncated sequences).
\<close>

fun decode_rune :: "string \<Rightarrow> nat option \<times> nat" where
  "decode_rune [] = (None, 0)"
| "decode_rune (c0 # cs) =
    (let b0 = byte c0 in
     if b0 < 128 then (Some b0, 1)
     else if b0 < 194 then (None, 1)
     else if b0 < 224 then
       (case cs of
          c1 # _ \<Rightarrow> if cont (byte c1) then (Some ((b0 - 192) * 64 + (byte c1 - 128)), 2) else (None, 1)
        | _ \<Rightarrow> (None, 1))
     else if b0 < 240 then
       (case cs of
          c1 # c2 # _ \<Rightarrow>
            if second_lo b0 \<le> byte c1 \<and> byte c1 \<le> second_hi b0 \<and> cont (byte c2)
            then (Some ((b0 - 224) * 4096 + (byte c1 - 128) * 64 + (byte c2 - 128)), 3)
            else (None, 1)
        | _ \<Rightarrow> (None, 1))
     else if b0 < 245 then
       (case cs of
          c1 # c2 # c3 # _ \<Rightarrow>
            if second_lo b0 \<le> byte c1 \<and> byte c1 \<le> second_hi b0 \<and> cont (byte c2) \<and> cont (byte c3)
            then (Some ((b0 - 240) * 262144 + (byte c1 - 128) * 4096 + (byte c2 - 128) * 64
                        + (byte c3 - 128)), 4)
            else (None, 1)
        | _ \<Rightarrow> (None, 1))
     else (None, 1))"

lemma decode_rune_width: "s \<noteq> [] \<Longrightarrow> 1 \<le> snd (decode_rune s)"
  by (cases s) (auto simp: Let_def split: list.splits)

type_synonym chunk = "nat option \<times> string"

function chunks :: "string \<Rightarrow> chunk list" where
  "chunks s = (if s = [] then []
               else (let d = decode_rune s in (fst d, take (snd d) s) # chunks (drop (snd d) s)))"
  by pat_completeness auto
termination
proof (relation "measure length")
  show "wf (measure (length :: string \<Rightarrow> nat))" by simp
next
  fix s :: string and d
  assume s: "s \<noteq> []" and d: "d = decode_rune s"
  from s have "0 < snd (decode_rune s)" "0 < length s" using decode_rune_width [OF s] by auto
  then show "(drop (snd d) s, s) \<in> measure length" by (simp add: d)
qed

declare chunks.simps [simp del]

lemma chunks_Nil [simp]: "chunks [] = []"
  by (simp add: chunks.simps)

lemma chunks_ascii [go_simps]: "byte c < 128 \<Longrightarrow> chunks (c # s) = (Some (byte c), [c]) # chunks s"
  by (subst chunks.simps) (simp add: Let_def)

lemma concat_chunks [simp]: "concat (map snd (chunks s)) = s"
proof (induction s rule: chunks.induct)
  case (1 s)
  show ?case
  proof (cases "s = []")
    case False
    with "1" have "concat (map snd (chunks (drop (snd (decode_rune s)) s))) = drop (snd (decode_rune s)) s"
      by simp
    with False show ?thesis by (subst chunks.simps) (simp add: Let_def)
  qed simp
qed

lemma chunks_eq_Nil_iff [simp]: "chunks s = [] \<longleftrightarrow> s = []"
  by (subst chunks.simps) (simp add: Let_def)

lemma chunks_nonempty: "x \<in> set (chunks s) \<Longrightarrow> snd x \<noteq> []"
proof (induction s rule: chunks.induct)
  case (1 s)
  show ?case
  proof (cases "s = []")
    case True
    with "1.prems" show ?thesis by simp
  next
    case False
    have "take (snd (decode_rune s)) s \<noteq> []"
      using decode_rune_width [OF False] False by auto
    moreover have "x = (fst (decode_rune s), take (snd (decode_rune s)) s)
        \<or> x \<in> set (chunks (drop (snd (decode_rune s)) s))"
      using "1.prems" False by (subst (asm) chunks.simps) (simp add: Let_def)
    ultimately show ?thesis using "1.IH" [OF False] by auto
  qed
qed

text \<open>\<^verbatim>\<open>unicode.IsSpace\<close>: the Latin-1 blanks and the code points with the White\_Space property.\<close>

definition is_space :: "nat option \<Rightarrow> bool" where
  "is_space r = (case r of None \<Rightarrow> False | Some n \<Rightarrow>
     (9 \<le> n \<and> n \<le> 13) \<or> n = 32 \<or> n = 133 \<or> n = 160 \<or> n = 5760 \<or> (8192 \<le> n \<and> n \<le> 8202)
     \<or> n = 8232 \<or> n = 8233 \<or> n = 8239 \<or> n = 8287 \<or> n = 12288)"

abbreviation space_chunk :: "chunk \<Rightarrow> bool" where
  "space_chunk x \<equiv> is_space (fst x)"


section \<open>String functions\<close>

text \<open>\<^verbatim>\<open>strings.TrimSpace\<close>.\<close>

definition TrimSpace :: "string \<Rightarrow> string" where
  "TrimSpace s =
     concat (map snd (rev (dropWhile space_chunk (rev (dropWhile space_chunk (chunks s))))))"

text \<open>The maximal runs of elements that fail \<open>p\<close>, as \<^verbatim>\<open>strings.FieldsFunc\<close> collects them.\<close>

fun runs :: "('a \<Rightarrow> bool) \<Rightarrow> 'a list \<Rightarrow> 'a list list" where
  "runs p [] = []"
| "runs p [x] = (if p x then [] else [[x]])"
| "runs p (x # y # xs) =
     (if p x then runs p (y # xs)
      else if p y then [x] # runs p (y # xs)
      else (case runs p (y # xs) of [] \<Rightarrow> [[x]] | r # rs \<Rightarrow> (x # r) # rs))"

definition Fields :: "string \<Rightarrow> string list" where
  "Fields s = map (\<lambda>r. concat (map snd r)) (runs space_chunk (chunks s))"

text \<open>\<^verbatim>\<open>strings.Join\<close>.\<close>

fun Join :: "string list \<Rightarrow> string \<Rightarrow> string" where
  "Join [] sep = []"
| "Join [x] sep = x"
| "Join (x # y # xs) sep = x @ sep @ Join (y # xs) sep"

text \<open>\<^verbatim>\<open>utf8.AppendRune\<close>; an invalid byte is written as U+FFFD, as \<^verbatim>\<open>string([]rune(s))\<close> does.\<close>

definition encode_rune :: "nat option \<Rightarrow> string" where
  "encode_rune r = (case r of None \<Rightarrow> map char_of [239, 191, 189 :: nat] | Some n \<Rightarrow>
     if n < 128 then [char_of n]
     else if n < 2048 then map char_of [192 + n div 64, 128 + n mod 64]
     else if n < 65536 then map char_of [224 + n div 4096, 128 + n div 64 mod 64, 128 + n mod 64]
     else map char_of [240 + n div 262144, 128 + n div 4096 mod 64, 128 + n div 64 mod 64, 128 + n mod 64])"

definition runes :: "string \<Rightarrow> nat option list" where
  "runes s = map fst (chunks s)"

definition of_runes :: "nat option list \<Rightarrow> string" where
  "of_runes rs = concat (map encode_rune rs)"

text \<open>\<^verbatim>\<open>strings.ToValidUTF8\<close> with an empty replacement.\<close>

definition ToValidUTF8 :: "string \<Rightarrow> string" where
  "ToValidUTF8 s = concat (map snd (filter (\<lambda>c. fst c \<noteq> None) (chunks s)))"

definition ellipsis :: string where
  "ellipsis = map char_of [226, 128, 166 :: nat]"

text \<open>
  \<^verbatim>\<open>strings.ToLower\<close>: ASCII letters are lowered here, the Unicode table for the rest is the
  argument \<open>ul\<close>.
\<close>

definition lower_rune :: "(nat \<Rightarrow> nat) \<Rightarrow> nat option \<Rightarrow> nat option" where
  "lower_rune ul r = (case r of None \<Rightarrow> None | Some n \<Rightarrow>
     Some (if 65 \<le> n \<and> n \<le> 90 then n + 32 else if n < 128 then n else ul n))"

definition ToLower :: "(nat \<Rightarrow> nat) \<Rightarrow> string \<Rightarrow> string" where
  "ToLower ul s = of_runes (map (lower_rune ul) (runes s))"

text \<open>\<^verbatim>\<open>strconv.FormatInt(n, 10)\<close> for a non-negative \<open>n\<close>.\<close>

fun FormatInt :: "nat \<Rightarrow> string" where
  "FormatInt n = (if n < 10 then [char_of (48 + n)]
                  else FormatInt (n div 10) @ [char_of (48 + n mod 10)])"

declare FormatInt.simps [simp del]

text \<open>The verb \<^verbatim>\<open>%d\<close> on a Go integer.\<close>

definition Decimal :: "int \<Rightarrow> string" where
  "Decimal n = (if n < 0 then CHR ''-'' # FormatInt (nat (- n)) else FormatInt (nat n))"

text \<open>The separators the code puts between the parts of a composite key.\<close>

abbreviation NUL :: string where
  "NUL \<equiv> [CHR 0x00]"

abbreviation UNIT_SEP :: string where
  "UNIT_SEP \<equiv> [CHR 0x1F]"

text \<open>\<^verbatim>\<open>r := []rune(s); if len(r) > n then string(r[:n]) + suffix else s\<close>.\<close>

definition bound_runes :: "nat \<Rightarrow> string \<Rightarrow> string" where
  "bound_runes n s = (if length (runes s) > n then of_runes (take n (runes s)) @ ellipsis else s)"

subsection \<open>Facts about the string functions\<close>

lemma TrimSpace_Nil [simp]: "TrimSpace [] = []"
  by (simp add: TrimSpace_def)

lemma space_chunks_decomp:
  obtains pre suf where "chunks s = pre @ rev (dropWhile space_chunk (rev (dropWhile space_chunk (chunks s)))) @ suf"
    "list_all space_chunk pre" "list_all space_chunk suf"
proof -
  let ?m = "dropWhile space_chunk (chunks s)"
  have "chunks s = takeWhile space_chunk (chunks s) @ ?m" by simp
  moreover have "?m = rev (dropWhile space_chunk (rev ?m)) @ rev (takeWhile space_chunk (rev ?m))"
    by (metis rev_append rev_rev_ident takeWhile_dropWhile_id)
  ultimately have "chunks s = takeWhile space_chunk (chunks s) @ rev (dropWhile space_chunk (rev ?m))
      @ rev (takeWhile space_chunk (rev ?m))" by metis
  moreover have "list_all space_chunk (takeWhile space_chunk (chunks s))"
    by (auto simp: list_all_iff dest: set_takeWhileD)
  moreover have "list_all space_chunk (rev (takeWhile space_chunk (rev ?m)))"
    by (auto simp: list_all_iff dest: set_takeWhileD)
  ultimately show thesis by (rule that)
qed

lemma TrimSpace_eq_Nil_iff: "TrimSpace s = [] \<longleftrightarrow> list_all space_chunk (chunks s)"
proof -
  let ?mid = "rev (dropWhile space_chunk (rev (dropWhile space_chunk (chunks s))))"
  obtain pre suf where eq: "chunks s = pre @ ?mid @ suf"
    and sp: "list_all space_chunk pre" "list_all space_chunk suf"
    by (rule space_chunks_decomp)
  have sub: "set ?mid \<subseteq> set (chunks s)" using eq by (metis Un_commute le_sup_iff set_append sup_ge1)
  show ?thesis
  proof
    assume "TrimSpace s = []"
    then have "\<forall>x \<in> set ?mid. snd x = []" by (simp add: TrimSpace_def)
    with sub have "?mid = []" using chunks_nonempty by (metis list.set_intros(1) neq_Nil_conv subsetD)
    with eq sp show "list_all space_chunk (chunks s)" by (metis append_Nil list_all_append)
  next
    assume "list_all space_chunk (chunks s)"
    then have all: "dropWhile space_chunk (chunks s) = []" by (simp add: list_all_iff)
    show "TrimSpace s = []" unfolding TrimSpace_def all by simp
  qed
qed

lemma TrimSpace_ascii_nonempty [go_simps]:
  "byte c < 128 \<Longrightarrow> \<not> is_space (Some (byte c)) \<Longrightarrow> TrimSpace (c # s) \<noteq> []"
  by (simp add: TrimSpace_eq_Nil_iff chunks_ascii)

lemma length_TrimSpace_le: "length (TrimSpace s) \<le> length s"
proof -
  let ?mid = "rev (dropWhile space_chunk (rev (dropWhile space_chunk (chunks s))))"
  obtain pre suf where eq: "chunks s = pre @ ?mid @ suf" by (rule space_chunks_decomp)
  have "s = concat (map snd (chunks s))" by simp
  also have "\<dots> = concat (map snd pre) @ concat (map snd ?mid) @ concat (map snd suf)"
    by (subst eq) simp
  finally have "s = concat (map snd pre) @ TrimSpace s @ concat (map snd suf)"
    by (simp add: TrimSpace_def)
  then show ?thesis by (metis add.commute le_add2 le_trans length_append)
qed


text \<open>Decimal numerals determine their value, so distinct counters print differently.\<close>

definition decimal_value :: "string \<Rightarrow> nat" where
  "decimal_value s = foldl (\<lambda>a c. a * 10 + (byte c - 48)) 0 s"

lemma decimal_value_FormatInt: "decimal_value (FormatInt n) = n"
proof (induction n rule: FormatInt.induct)
  case (1 n)
  show ?case
  proof (cases "n < 10")
    case True
    then show ?thesis by (subst FormatInt.simps) (simp add: decimal_value_def byte_def)
  next
    case False
    with "1" have "decimal_value (FormatInt (n div 10)) = n div 10" by simp
    with False show ?thesis by (subst FormatInt.simps) (simp add: decimal_value_def byte_def)
  qed
qed

lemma inj_FormatInt: "inj FormatInt"
  by (metis decimal_value_FormatInt injI)

lemma FormatInt_eq_iff [simp]: "FormatInt m = FormatInt n \<longleftrightarrow> m = n"
  by (simp add: inj_FormatInt inj_eq)

section \<open>Maps that are ranged over\<close>

text \<open>
  A Go map as an association list. \<open>AList.update\<close> keeps the place of a key that is present, so
  the list is the map's entries in insertion order; the lemmas below are stated over
  \<^const>\<open>map_of\<close> and the entry set, which no iteration order can change.
\<close>

lemma set_AList_update:
  "set (AList.update k v al) \<subseteq> insert (k, v) (set al)"
  by (induction al) auto

lemma snd_AList_update:
  "x \<in> snd ` set (AList.update k v al) \<Longrightarrow> x = v \<or> x \<in> snd ` set al"
  using set_AList_update [of k v al] by fastforce

lemma distinct_filter_fst: "distinct (map fst al) \<Longrightarrow> distinct (map fst (filter P al))"
  by (induction al) auto

lemma map_of_filter_distinct:
  "distinct (map fst al) \<Longrightarrow> map_of (filter P al) k =
     (case map_of al k of None \<Rightarrow> None | Some v \<Rightarrow> if P (k, v) then Some v else None)"
  by (induction al) (auto split: option.splits dest: map_of_SomeD intro: rev_image_eqI)

section \<open>Loops that stop early\<close>

text \<open>
  A \<^verbatim>\<open>for\<close> loop whose body may return from the enclosing function: \<open>foldm f xs s\<close> threads the
  loop state \<open>s\<close> and stops at the first left result.
\<close>

fun foldm :: "('a \<Rightarrow> 's \<Rightarrow> 'e + 's) \<Rightarrow> 'a list \<Rightarrow> 's \<Rightarrow> 'e + 's" where
  "foldm f [] s = Inr s"
| "foldm f (x # xs) s = (case f x s of Inl e \<Rightarrow> Inl e | Inr s' \<Rightarrow> foldm f xs s')"

lemma foldm_append:
  "foldm f (xs @ ys) s = (case foldm f xs s of Inl e \<Rightarrow> Inl e | Inr s' \<Rightarrow> foldm f ys s')"
  by (induction xs arbitrary: s) (auto split: sum.splits)

lemma foldm_invariant:
  assumes "foldm f xs s = Inr s'" and "I s"
    and "\<And>x t t'. x \<in> set xs \<Longrightarrow> I t \<Longrightarrow> f x t = Inr t' \<Longrightarrow> I t'"
  shows "I s'"
  using assms
proof (induction xs arbitrary: s)
  case Nil
  then show ?case by simp
next
  case (Cons x xs)
  then obtain t where "f x s = Inr t" and "foldm f xs t = Inr s'"
    by (auto split: sum.splits)
  with Cons show ?case by (metis list.set_intros)
qed

text \<open>What a call that may panic and may fail returns, through its continuation.\<close>

lemma bind_sum_conv:
  "(m \<bind> (\<lambda>r. case r of Inl e \<Rightarrow> f e | Inr v \<Rightarrow> g v)) = Some y \<longleftrightarrow>
     (\<exists>e. m = Some (Inl e) \<and> f e = Some y) \<or> (\<exists>v. m = Some (Inr v) \<and> g v = Some y)"
  by (cases m) (auto split: sum.splits)

lemma case_sum_eq_conv:
  "(case s of Inl e \<Rightarrow> f e | Inr v \<Rightarrow> g v) = y \<longleftrightarrow> (\<exists>e. s = Inl e \<and> f e = y) \<or> (\<exists>v. s = Inr v \<and> g v = y)"
  by (cases s) auto

section \<open>Counting\<close>

text \<open>How many of the activities of a system are in a given state.\<close>

definition jcount :: "('a \<Rightarrow> bool) \<Rightarrow> 'a list \<Rightarrow> nat" where
  "jcount P js = length (filter P js)"

lemma jcount_update:
  "i < length js \<Longrightarrow> int (jcount P (js[i := j])) = int (jcount P js) - of_bool (P (js ! i)) + of_bool (P j)"
proof -
  assume i: "i < length js"
  have "filter P js = filter P (take i js) @ filter P [js ! i] @ filter P (drop (Suc i) js)"
    by (subst id_take_nth_drop [OF i]) simp
  moreover have "filter P (js[i := j]) = filter P (take i js) @ filter P [j] @ filter P (drop (Suc i) js)"
    by (simp add: upd_conv_take_nth_drop [OF i])
  ultimately show ?thesis by (simp add: jcount_def)
qed

lemma jcount_pos: "jcount P js > 0 \<longleftrightarrow> (\<exists>i < length js. P (js ! i))"
proof -
  have "jcount P js > 0 \<longleftrightarrow> (\<exists>j \<in> set js. P j)" by (simp add: jcount_def filter_empty_conv)
  then show ?thesis by (metis in_set_conv_nth)
qed

lemma jcount_mono: "(\<And>j. P j \<Longrightarrow> Q j) \<Longrightarrow> jcount P js \<le> jcount Q js"
  unfolding jcount_def by (induction js) auto

lemma jcount_two:
  "i < length js \<Longrightarrow> k < length js \<Longrightarrow> i \<noteq> k \<Longrightarrow> P (js ! i) \<Longrightarrow> P (js ! k) \<Longrightarrow> jcount P js \<ge> 2"
proof (induction js arbitrary: i k)
  case (Cons j js)
  show ?case
  proof (cases "i = 0 \<or> k = 0")
    case True
    with Cons.prems have "P j" "\<exists>m < length js. P (js ! m)" by (cases i; cases k; auto)+
    with jcount_pos [of P js] have "P j" "jcount P js > 0" by blast+
    then show ?thesis by (simp add: jcount_def Suc_le_eq)
  next
    case False
    with Cons.IH [of "i - 1" "k - 1"] Cons.prems have "jcount P js \<ge> 2" by (auto simp: nth_Cons')
    then show ?thesis by (simp add: jcount_def)
  qed
qed simp

section \<open>Tables\<close>

text \<open>
  The contract of a statement that updates rows in place: each row it names takes a step that the life of a row
  allows. It is shared by the tables of requests, questions and inbound messages.
\<close>

locale row_statement =
  fixes evolves :: "'row \<Rightarrow> 'row \<Rightarrow> bool" and guard :: "'row \<Rightarrow> bool" and effect :: "'row \<Rightarrow> 'row"
  assumes stays: "evolves r r" and steps: "guard r \<Longrightarrow> evolves r (effect r)"
begin

lemma rows_evolve: "list_all2 evolves rows (map (\<lambda>r. if guard r then effect r else r) rows)"
  using stays steps by (simp add: list_all2_map2 list.rel_refl_strong)

end

end
