(* ===== verification/Paths.thy ===== *)
theory Paths
  imports Prelude
begin

text \<open>
  The lexical part of \<^verbatim>\<open>path/filepath\<close> on Unix that the evidence and scheduling code calls
  (\<^verbatim>\<open>IsAbs\<close>, \<^verbatim>\<open>Clean\<close>, \<^verbatim>\<open>Rel\<close>, \<^verbatim>\<open>Join\<close>, \<^verbatim>\<open>Dir\<close>, \<^verbatim>\<open>Base\<close>), and what \<^verbatim>\<open>Rel\<close> decides about two absolute
  paths: \<open>Rel_escapes_iff\<close> reduces the containment test of the callers to a prefix of
  components.
\<close>

abbreviation slash :: char where
  "slash \<equiv> CHR ''/''"

section \<open>Components\<close>

text \<open>The pieces between separators, empty ones included.\<close>

fun split_slash :: "string \<Rightarrow> string list" where
  "split_slash [] = [[]]"
| "split_slash (c # s) =
     (if c = slash then [] # split_slash s
      else (case split_slash s of [] \<Rightarrow> [[c]] | w # ws \<Rightarrow> (c # w) # ws))"

definition IsAbs :: "string \<Rightarrow> bool" where
  "IsAbs p = (case p of [] \<Rightarrow> False | c # _ \<Rightarrow> c = slash)"

text \<open>
  The element stack of \<^verbatim>\<open>filepath.Clean\<close>, last element first: an empty or dot element is
  dropped; a dot-dot element removes the element before it, is dropped at the root, and is
  kept at the front of a relative path.
\<close>

fun clean_step :: "bool \<Rightarrow> string list \<Rightarrow> string \<Rightarrow> string list" where
  "clean_step rooted stack w =
     (if w = [] \<or> w = ''.'' then stack
      else if w = ''..'' then
        (case stack of
           [] \<Rightarrow> if rooted then [] else [''..'']
         | t # ts \<Rightarrow> if t = ''..'' then ''..'' # stack else ts)
      else w # stack)"

definition clean_comps :: "string \<Rightarrow> string list" where
  "clean_comps p = rev (foldl (clean_step (IsAbs p)) [] (split_slash p))"

definition render :: "bool \<Rightarrow> string list \<Rightarrow> string" where
  "render rooted ws =
     (if rooted then slash # Join ws ''/'' else if ws = [] then ''.'' else Join ws ''/'')"

definition Clean :: "string \<Rightarrow> string" where
  "Clean p = render (IsAbs p) (clean_comps p)"

section \<open>Rel\<close>

fun strip_common :: "string list \<Rightarrow> string list \<Rightarrow> string list \<times> string list" where
  "strip_common (b # bs) (t # ts) = (if b = t then strip_common bs ts else (b # bs, t # ts))"
| "strip_common bs ts = (bs, ts)"

text \<open>
  \<^verbatim>\<open>filepath.Rel\<close>, over the elements of the cleaned paths (a relative dot target is the one
  element it is written as). \<^const>\<open>None\<close> is the error result: one path absolute and the other not,
  or a base element dot-dot where the paths part.
\<close>

definition Rel :: "string \<Rightarrow> string \<Rightarrow> string option" where
  "Rel base targ =
     (if Clean targ = Clean base then Some ''.''
      else if IsAbs base \<noteq> IsAbs targ then None
      else (let bs = clean_comps base;
                ts = (if \<not> IsAbs targ \<and> clean_comps targ = [] then [''.''] else clean_comps targ);
                (bs', ts') = strip_common bs ts
            in if bs' \<noteq> [] \<and> ts' \<noteq> [] \<and> hd bs' = ''..'' then None
               else Some (Join (replicate (length bs') ''..'' @ ts') ''/'')))"

text \<open>The test of the callers: the relative path does not climb out of its base.\<close>

definition escapes :: "string \<Rightarrow> bool" where
  "escapes rel = (rel = ''..'' \<or> prefix ''../'' rel)"

text \<open>\<^verbatim>\<open>filepath.Base\<close>, \<^verbatim>\<open>filepath.Dir\<close> and \<^verbatim>\<open>filepath.Join\<close> of two elements.\<close>

fun strip_slashes :: "string \<Rightarrow> string" where
  "strip_slashes p = rev (dropWhile (\<lambda>c. c = slash) (rev p))"

definition Base :: "string \<Rightarrow> string" where
  "Base p = (if p = [] then ''.''
             else if strip_slashes p = [] then ''/''
             else rev (takeWhile (\<lambda>c. c \<noteq> slash) (rev (strip_slashes p))))"

definition Dir :: "string \<Rightarrow> string" where
  "Dir p = Clean (rev (dropWhile (\<lambda>c. c \<noteq> slash) (rev p)))"

definition JoinPath :: "string \<Rightarrow> string \<Rightarrow> string" where
  "JoinPath a b = (if a = [] \<and> b = [] then []
                   else if a = [] then Clean b
                   else Clean (a @ ''/'' @ b))"

section \<open>Clean components of an absolute path\<close>

definition proper :: "string \<Rightarrow> bool" where
  "proper w = (w \<noteq> [] \<and> w \<noteq> ''.'' \<and> w \<noteq> ''..'' \<and> slash \<notin> set w)"

lemma split_slash_no_slash: "w \<in> set (split_slash s) \<Longrightarrow> slash \<notin> set w"
  by (induction s arbitrary: w) (auto split: if_splits list.splits)

lemma clean_step_proper:
  assumes "list_all proper st" and "slash \<notin> set w"
  shows "list_all proper (clean_step True st w)"
  using assms by (cases st) (auto simp: proper_def)

lemma foldl_clean_step_proper:
  "list_all proper st \<Longrightarrow> \<forall>w \<in> set ws. slash \<notin> set w \<Longrightarrow>
   list_all proper (foldl (clean_step True) st ws)"
proof (induction ws arbitrary: st)
  case Nil
  then show ?case by simp
next
  case (Cons w ws)
  from Cons.prems have "list_all proper (clean_step True st w)"
    by (intro clean_step_proper) auto
  with Cons show ?case by simp
qed

lemma clean_comps_proper: "IsAbs p \<Longrightarrow> list_all proper (clean_comps p)"
  using foldl_clean_step_proper [of "[]" "split_slash p"] split_slash_no_slash
  by (auto simp: clean_comps_def list_all_iff)

text \<open>Joining elements without separators loses nothing.\<close>

lemma split_slash_no: "slash \<notin> set w \<Longrightarrow> split_slash w = [w]"
  by (induction w) auto

lemma split_slash_word: "slash \<notin> set w \<Longrightarrow> split_slash (w @ slash # s) = w # split_slash s"
  by (induction w) auto

lemma split_slash_Join:
  "ws \<noteq> [] \<Longrightarrow> \<forall>w \<in> set ws. slash \<notin> set w \<Longrightarrow> split_slash (Join ws ''/'') = ws"
  by (induction ws "''/''" rule: Join.induct) (auto simp: split_slash_no split_slash_word)

lemma Join_proper_inj:
  assumes "list_all proper us" and "list_all proper ws" and "Join us ''/'' = Join ws ''/''"
  shows "us = ws"
proof -
  have nonempty: "Join vs ''/'' \<noteq> []" if "list_all proper vs" "vs \<noteq> []" for vs
    using that by (cases "(vs, ''/'')" rule: Join.cases) (auto simp: proper_def)
  have split: "split_slash (Join vs ''/'') = vs" if "list_all proper vs" "vs \<noteq> []" for vs
    using that by (intro split_slash_Join) (auto simp: list_all_iff proper_def)
  show ?thesis
  proof (cases "us = [] \<or> ws = []")
    case True
    with assms nonempty show ?thesis by (metis Join.simps(1))
  next
    case False
    with assms split show ?thesis by metis
  qed
qed

lemma Clean_eq_iff:
  assumes "IsAbs a" and "IsAbs b"
  shows "Clean a = Clean b \<longleftrightarrow> clean_comps a = clean_comps b"
  using assms Join_proper_inj [OF clean_comps_proper clean_comps_proper]
  by (auto simp: Clean_def render_def)

section \<open>What Rel decides\<close>

lemma strip_common_prefix_iff: "fst (strip_common bs ts) = [] \<longleftrightarrow> prefix bs ts"
  by (induction bs ts rule: strip_common.induct) auto

lemma strip_common_suffix:
  "strip_common bs ts = (bs', ts') \<Longrightarrow> \<exists>cs. bs = cs @ bs' \<and> ts = cs @ ts'"
proof (induction bs ts rule: strip_common.induct)
  case (1 b bs t ts)
  show ?case
  proof (cases "b = t")
    case True
    with "1" obtain cs where "bs = cs @ bs'" "ts = cs @ ts'" by auto
    with True have "b # bs = (b # cs) @ bs' \<and> t # ts = (b # cs) @ ts'" by simp
    then show ?thesis by blast
  next
    case False
    with "1.prems" show ?thesis by auto
  qed
qed auto

lemma escapes_replicate: "escapes (Join (replicate (Suc n) ''..'' @ ts) ''/'')"
  by (cases n; cases ts) (auto simp: escapes_def)

lemma not_escapes_proper: "list_all proper ws \<Longrightarrow> \<not> escapes (Join ws ''/'')"
proof (cases ws)
  case Nil
  then show ?thesis by (simp add: escapes_def)
next
  case (Cons w vs)
  assume p: "list_all proper ws"
  have sl: "\<forall>v \<in> set ws. slash \<notin> set v" using p by (auto simp: list_all_iff proper_def)
  have "Join ws ''/'' \<noteq> ''..''"
  proof
    assume "Join ws ''/'' = ''..''"
    then have "split_slash (Join ws ''/'') = [''..'']" by simp
    with sl Cons have "ws = [''..'']" by (subst (asm) split_slash_Join) auto
    with p show False by (simp add: proper_def)
  qed
  moreover have "\<not> prefix ''../'' (Join ws ''/'')"
  proof
    assume "prefix ''../'' (Join ws ''/'')"
    then obtain r where "Join ws ''/'' = ''..'' @ slash # r" by (auto simp: prefix_def)
    then have "split_slash (Join ws ''/'') = ''..'' # split_slash r" by (simp add: split_slash_word)
    with sl Cons have "w = ''..''" by (subst (asm) split_slash_Join) auto
    with p Cons show False by (simp add: proper_def)
  qed
  ultimately show ?thesis by (simp add: escapes_def)
qed

theorem Rel_escapes_iff:
  assumes "IsAbs a" and "IsAbs b"
  shows "\<exists>r. Rel a b = Some r \<and> (escapes r \<longleftrightarrow> \<not> prefix (clean_comps a) (clean_comps b))"
proof (cases "clean_comps a = clean_comps b")
  case True
  with assms have "Rel a b = Some ''.''" by (simp add: Rel_def Clean_eq_iff)
  with True show ?thesis by (simp add: escapes_def)
next
  case False
  obtain as' bs' where st: "strip_common (clean_comps a) (clean_comps b) = (as', bs')"
    by (cases "strip_common (clean_comps a) (clean_comps b)")
  from strip_common_suffix [OF st] have pr: "list_all proper as'" "list_all proper bs'"
    using clean_comps_proper [OF assms(1)] clean_comps_proper [OF assms(2)] by auto
  then have hd: "as' \<noteq> [] \<Longrightarrow> hd as' \<noteq> ''..''" by (cases as') (auto simp: proper_def)
  have rel: "Rel a b = Some (Join (replicate (length as') ''..'' @ bs') ''/'')"
    using assms False hd by (auto simp: Rel_def Clean_eq_iff st)
  have pre: "prefix (clean_comps a) (clean_comps b) \<longleftrightarrow> as' = []"
    using strip_common_prefix_iff [of "clean_comps a" "clean_comps b"] st by simp
  show ?thesis
  proof (cases as')
    case Nil
    with rel pre pr(2) show ?thesis by (simp add: not_escapes_proper)
  next
    case (Cons x xs)
    have "escapes (Join (replicate (length as') ''..'' @ bs') ''/'')"
      unfolding Cons by (simp only: length_Cons escapes_replicate)
    with rel pre Cons show ?thesis by simp
  qed
qed

section \<open>Clean paths and their ancestors\<close>

text \<open>The element stacks \<^const>\<open>Clean\<close> produces, last element first: dot-dot elements only at the front
  of a relative path.\<close>

primrec clean_stack :: "bool \<Rightarrow> string list \<Rightarrow> bool" where
  "clean_stack rooted [] = True"
| "clean_stack rooted (t # ts) =
     (clean_stack rooted ts \<and> (proper t \<or> (t = ''..'' \<and> \<not> rooted \<and> (\<forall>u \<in> set ts. u = ''..''))))"

declare clean_step.simps [simp del]

lemma clean_step_stack: "clean_stack r st \<Longrightarrow> slash \<notin> set w \<Longrightarrow> clean_stack r (clean_step r st w)"
  by (cases st) (auto simp: proper_def clean_step.simps)

lemma proper_no_slash: "proper w \<or> w = ''..'' \<Longrightarrow> slash \<notin> set w \<and> w \<noteq> []"
  by (auto simp: proper_def)

lemma clean_stack_elem: "clean_stack r st \<Longrightarrow> w \<in> set st \<Longrightarrow> proper w \<or> w = ''..''"
  by (induction st) auto

lemma clean_stack_no_slash: "clean_stack r st \<Longrightarrow> w \<in> set st \<Longrightarrow> slash \<notin> set w \<and> w \<noteq> []"
  using clean_stack_elem proper_no_slash by blast

lemma clean_comps_stack: "clean_stack (IsAbs p) (rev (clean_comps p))"
proof -
  have "clean_stack r (foldl (clean_step r) st ws)" if "clean_stack r st" "\<forall>w \<in> set ws. slash \<notin> set w" for r st ws
    using that by (induction ws arbitrary: st) (simp_all add: clean_step_stack)
  from this [of "IsAbs p" "[]" "split_slash p"] split_slash_no_slash show ?thesis
    by (auto simp: clean_comps_def)
qed

lemma clean_step_push: "clean_stack r (w # st) \<Longrightarrow> clean_step r st w = w # st"
  by (cases st) (auto simp: proper_def clean_step.simps)

lemma foldl_clean_stack: "clean_stack r st \<Longrightarrow> foldl (clean_step r) [] (rev st) = st"
proof (induction st)
  case (Cons w st)
  then have "foldl (clean_step r) [] (rev st) = st" by simp
  with clean_step_push [OF Cons.prems] show ?case by simp
qed simp

lemma Join_snoc: "ws \<noteq> [] \<Longrightarrow> Join (ws @ [w]) sep = Join ws sep @ sep @ w"
proof (induction ws sep rule: Join.induct)
  case (3 x y ys sep)
  then show ?case by (cases ys) auto
qed auto

lemma IsAbs_Join:
  assumes "clean_stack r st" shows "\<not> IsAbs (Join (rev st) ''/'')"
proof (cases "rev st")
  case (Cons w ws)
  then have "w \<in> set st" by (metis list.set_intros(1) set_rev)
  then have w: "slash \<notin> set w" "w \<noteq> []" using clean_stack_no_slash [OF assms] by auto
  have "\<exists>s. Join (w # ws) ''/'' = w @ s" by (cases ws) auto
  with w Cons show ?thesis by (cases w) (auto simp: IsAbs_def)
qed (simp add: IsAbs_def)

lemma IsAbs_render: "clean_stack r st \<Longrightarrow> IsAbs (render r (rev st)) = r"
  using IsAbs_Join [of r st] by (auto simp: render_def IsAbs_def split: if_splits)

lemma split_slash_rev: "clean_stack r st \<Longrightarrow> st \<noteq> [] \<Longrightarrow> split_slash (Join (rev st) ''/'') = rev st"
  using clean_stack_no_slash by (intro split_slash_Join) auto

lemma clean_comps_render: "clean_stack r st \<Longrightarrow> clean_comps (render r (rev st)) = rev st"
proof (cases "st = []")
  case False
  assume st: "clean_stack r st"
  have "foldl (clean_step r) [] (split_slash (render r (rev st))) = st"
    using foldl_clean_stack [OF st] split_slash_rev [OF st False] False
    by (cases r) (simp_all add: render_def clean_step.simps(1) [of _ _ "[]"])
  with IsAbs_render [OF st] show ?thesis by (simp add: clean_comps_def)
qed (auto simp: render_def clean_comps_def IsAbs_def clean_step.simps)

lemma Clean_Clean [simp]: "Clean (Clean p) = Clean p"
  using clean_comps_render [OF clean_comps_stack, of p] IsAbs_render [OF clean_comps_stack, of p]
  by (simp add: Clean_def)

lemma clean_comps_Clean [simp]: "clean_comps (Clean p) = clean_comps p"
  using clean_comps_render [OF clean_comps_stack, of p] by (simp add: Clean_def)

lemma IsAbs_Clean [simp]: "IsAbs (Clean p) = IsAbs p"
  using IsAbs_render [OF clean_comps_stack, of p] by (simp add: Clean_def)

lemma Clean_Dir [simp]: "Clean (Dir p) = Dir p"
  by (simp add: Dir_def)

text \<open>The parent directory of a clean path drops its last element.\<close>

lemma dropWhile_snoc_slash: "slash \<notin> set w \<Longrightarrow> dropWhile (\<lambda>c. c \<noteq> slash) (rev (q @ slash # w)) = slash # rev q"
  by (induction w rule: rev_induct) auto

lemma split_slash_ne: "split_slash s \<noteq> []"
  by (induction s) (auto split: list.splits)

lemma split_slash_snoc: "split_slash (s @ [slash]) = split_slash s @ [[]]"
proof (induction s)
  case (Cons a s)
  with split_slash_ne [of s] show ?case by (cases "split_slash s") auto
qed simp

lemma Clean_trailing: "s \<noteq> [] \<Longrightarrow> Clean (s @ [slash]) = Clean s"
proof -
  assume "s \<noteq> []"
  then have "IsAbs (s @ [slash]) = IsAbs s" by (cases s) (auto simp: IsAbs_def)
  then show ?thesis by (simp add: Clean_def clean_comps_def split_slash_snoc clean_step.simps(1) [of _ _ "[]"])
qed

lemma Dir_render:
  assumes st: "clean_stack r (w # st)"
  shows "Dir (render r (rev (w # st))) = render r (rev st)"
proof -
  have w: "slash \<notin> set w" "w \<noteq> []" using clean_stack_no_slash [OF st] by auto
  have st': "clean_stack r st" using st by simp
  have cr: "Clean (render r (rev st)) = render r (rev st)"
    using clean_comps_render [OF st'] IsAbs_render [OF st'] by (simp add: Clean_def)
  show ?thesis
  proof (cases "st = []")
    case True
    have nil: "dropWhile (\<lambda>c. c \<noteq> slash) (rev w) = []" using w(1) by (auto simp: dropWhile_eq_Nil_conv)
    have "dropWhile (\<lambda>c. c \<noteq> slash) (rev (slash # w)) = [slash]"
      using dropWhile_snoc_slash [OF w(1), of "[]"] by simp
    moreover have "Clean [] = ''.''" "Clean [slash] = [slash]"
      by (simp_all add: render_def Clean_def clean_comps_def IsAbs_def clean_step.simps)
    ultimately show ?thesis using True by (simp add: Dir_def render_def nil)
  next
    case False
    have "render r (rev (w # st)) = render r (rev st) @ slash # w"
      using Join_snoc [of "rev st" w "''/''"] False by (simp add: render_def)
    then have "Dir (render r (rev (w # st))) = Clean (render r (rev st) @ [slash])"
      unfolding Dir_def by (simp add: dropWhile_snoc_slash [OF w(1), simplified])
    moreover have "render r (rev st) \<noteq> []"
    proof
      assume e: "render r (rev st) = []"
      with False have "split_slash (Join (rev st) ''/'') = [[]]" by (auto simp: render_def split: if_splits)
      with split_slash_rev [OF st' False] have "[] \<in> set st" by (metis list.set_intros(1) set_rev)
      with clean_stack_no_slash [OF st'] show False by blast
    qed
    ultimately show ?thesis using cr Clean_trailing by simp
  qed
qed

lemma clean_comps_Dir:
  assumes "Clean p = p" and "Dir p \<noteq> p"
  shows "length (clean_comps (Dir p)) < length (clean_comps p)"
proof (cases "rev (clean_comps p)")
  case Nil
  then have "p = render (IsAbs p) []" using assms(1) by (simp add: Clean_def)
  then have "p = ''/'' \<or> p = ''.''" by (auto simp: render_def split: if_splits)
  with assms(2) show ?thesis by (auto simp: Dir_def Clean_def render_def clean_comps_def IsAbs_def clean_step.simps)
next
  case (Cons w st)
  then have c: "clean_comps p = rev (w # st)" by (metis rev_rev_ident)
  have st: "clean_stack (IsAbs p) (w # st)" using clean_comps_stack [of p] Cons by simp
  have "Dir p = render (IsAbs p) (rev st)"
    using Dir_render [OF st] assms(1) c by (simp add: Clean_def)
  with clean_comps_render [of "IsAbs p" st] st c show ?thesis by simp
qed

end
