(* ===== verification/Evidence.thy ===== *)
theory Evidence
  imports Paths
begin

text \<open>
  The evidence projection of \<^verbatim>\<open>internal/verification\<close> (\<^verbatim>\<open>evidence.go\<close>, \<^verbatim>\<open>dependencies.go\<close>,
  \<^verbatim>\<open>evidence_issues.go\<close>, \<^verbatim>\<open>blockers.go\<close>, \<^verbatim>\<open>observation.go\<close>): which recorded checks are effective
  (\<open>Latest\<close>), which file changes make a check stale (\<open>RelevantMutationAt\<close>), and the verification
  state reported for a run (\<open>state\<close>, \<open>StateWithMutations\<close>, \<open>Blockers\<close>).

  A nil pointer is \<^const>\<open>None\<close>. The dereference of a nil \<^verbatim>\<open>*Binding\<close> that \<^verbatim>\<open>Latest\<close> can perform is the
  result \<^const>\<open>None\<close> of the functions below, which all call it. Rendered sentences are values of
  \<open>summary\<close>, \<open>mismatch\<close> and \<open>gap\<close> that carry what the source formats into the text.
\<close>

section \<open>Data\<close>

record binding =
  b_Version :: int
  b_Criterion :: string
  b_Target :: string
  b_Replaces :: string
  b_Reason :: string
  b_StepID :: string
  b_LocalDependencies :: "string list option"
  b_ResolvedLocalDependencies :: "string list"
  b_UnresolvedLocalDependencies :: "string list"

record observation =
  o_Kind :: string
  o_Target :: string
  o_CWD :: string
  o_LocalDependencies :: "string list option"
  o_ResolvedLocalDependencies :: "string list"
  o_UnresolvedLocalDependencies :: "string list"
  o_Offset :: int
  o_Limit :: int

record check_source =
  s_RunID :: string
  s_StepID :: string
  s_PlanVersion :: int
  s_Reason :: string

record check =
  c_Observation :: "observation option"
  c_ToolCallID :: string
  c_Kind :: string
  c_Command :: string
  c_CWD :: string
  c_Status :: string
  c_ExitCode :: int
  c_StartedAt :: int
  c_FinishedAt :: int
  c_Binding :: "binding option"
  c_ProcessStarted :: "bool option"
  c_Invoked :: "bool option"
  c_EffectState :: string
  c_NetworkDecision :: string
  c_NetworkPermission :: string
  c_NetworkMayFetch :: bool
  c_Source :: "check_source option"

record mutation =
  m_Path :: string
  m_FinishedAt :: int

text \<open>The zero value \<^verbatim>\<open>Check{}\<close>.\<close>

definition zero_check :: check where
  "zero_check = \<lparr>c_Observation = None, c_ToolCallID = [], c_Kind = [], c_Command = [], c_CWD = [],
     c_Status = [], c_ExitCode = 0, c_StartedAt = 0, c_FinishedAt = 0, c_Binding = None,
     c_ProcessStarted = None, c_Invoked = None, c_EffectState = [], c_NetworkDecision = [],
     c_NetworkPermission = [], c_NetworkMayFetch = False, c_Source = None\<rparr>"

text \<open>The binding of a check that has one; every use below stands under a test for it.\<close>

abbreviation bnd :: "check \<Rightarrow> binding" where
  "bnd c \<equiv> the (c_Binding c)"

section \<open>Single checks\<close>

definition WithDispatchFacts :: "check \<Rightarrow> int option \<Rightarrow> check" where
  "WithDispatchFacts check processExit =
     (let check = (case c_ProcessStarted check of
            None \<Rightarrow> check
          | Some started \<Rightarrow>
              (case processExit of
                 None \<Rightarrow> check\<lparr>c_Status := ''blocked''\<rparr>
               | Some code \<Rightarrow>
                   if \<not> started then check\<lparr>c_Status := ''blocked''\<rparr>
                   else (let check = check\<lparr>c_ExitCode := code\<rparr>
                         in if code \<noteq> 0 then check\<lparr>c_Status := ''failed''\<rparr> else check)))
      in if c_Invoked check = Some False \<or> c_EffectState check = ''not_dispatched''
            \<or> (c_ProcessStarted check = None \<and> (c_Invoked check \<noteq> None \<or> c_EffectState check \<noteq> []))
         then check\<lparr>c_Status := ''blocked''\<rparr> else check)"

definition NetworkWithheldNotBound :: string where
  "NetworkWithheldNotBound = ''withheld: not network-bound by policy''"

definition NetworkPermissionGrant :: string where
  "NetworkPermissionGrant = ''grant''"

definition NetworkOfflineDespiteGrant :: "string \<Rightarrow> string \<Rightarrow> bool" where
  "NetworkOfflineDespiteGrant decision permission =
     (decision = NetworkWithheldNotBound \<and> permission = NetworkPermissionGrant)"

definition offlineCoverageLost :: "check \<Rightarrow> bool" where
  "offlineCoverageLost c =
     (c_NetworkMayFetch c \<and> NetworkOfflineDespiteGrant (c_NetworkDecision c) (c_NetworkPermission c))"

definition ValidBinding :: "binding option \<Rightarrow> bool" where
  "ValidBinding b = (case b of None \<Rightarrow> False | Some b \<Rightarrow>
     (b_Version b = 1 \<or> (b_Version b = 2 \<and> b_LocalDependencies b \<noteq> None)
        \<or> (b_Version b = 3 \<and> b_StepID b \<noteq> []))
     \<and> TrimSpace (b_Criterion b) \<noteq> [] \<and> TrimSpace (b_Target b) \<noteq> [])"

text \<open>The reasons of \<^verbatim>\<open>ReplacementMismatch\<close>, with the values the text quotes.\<close>

datatype mismatch =
    OldHasNoObligation
  | NewHasNoObligation
  | WrongReference
  | EmptyReason
  | CriterionChanged string string
  | TargetChanged string string
  | CWDChanged string string
  | StartedTooEarly
  | ReusedID

definition ReplacementMismatch :: "check \<Rightarrow> check \<Rightarrow> mismatch option" where
  "ReplacementMismatch old next =
     (if \<not> ValidBinding (c_Binding old) then Some OldHasNoObligation
      else if \<not> ValidBinding (c_Binding next) then Some NewHasNoObligation
      else if c_ToolCallID old = [] \<or> b_Replaces (bnd next) \<noteq> c_ToolCallID old then Some WrongReference
      else if TrimSpace (b_Reason (bnd next)) = [] then Some EmptyReason
      else if b_Criterion (bnd old) \<noteq> b_Criterion (bnd next)
        then Some (CriterionChanged (b_Criterion (bnd old)) (b_Criterion (bnd next)))
      else if b_Target (bnd old) \<noteq> b_Target (bnd next)
        then Some (TargetChanged (b_Target (bnd old)) (b_Target (bnd next)))
      else if c_CWD old \<noteq> c_CWD next then Some (CWDChanged (c_CWD old) (c_CWD next))
      else if c_FinishedAt old > c_StartedAt next then Some StartedTooEarly
      else if c_ToolCallID old = c_ToolCallID next then Some ReusedID
      else None)"

definition CanReplace :: "check \<Rightarrow> check \<Rightarrow> bool" where
  "CanReplace old next = (ReplacementMismatch old next = None)"

definition checkReference :: "check \<Rightarrow> string \<Rightarrow> string" where
  "checkReference check ident =
     (case c_Source check of Some s \<Rightarrow> s_RunID s @ NUL @ ident | None \<Rightarrow> NUL @ ident)"

abbreviation ownReference :: "check \<Rightarrow> string" where
  "ownReference c \<equiv> checkReference c (c_ToolCallID c)"

definition sameAssessmentSource :: "check_source option \<Rightarrow> check_source option \<Rightarrow> bool" where
  "sameAssessmentSource a b = (case (a, b) of
     (Some x, Some y) \<Rightarrow> s_RunID x = s_RunID y \<and> s_StepID x = s_StepID y \<and> s_PlanVersion x = s_PlanVersion y
   | (None, None) \<Rightarrow> True
   | _ \<Rightarrow> False)"

section \<open>The effective checks\<close>

text \<open>The first loop of \<^verbatim>\<open>Latest\<close>: the references that a later check replaces.\<close>

fun mark_replaced :: "check list \<Rightarrow> (string \<rightharpoonup> check) \<Rightarrow> string set \<Rightarrow> string set" where
  "mark_replaced [] byID replaced = replaced"
| "mark_replaced (c # cs) byID replaced =
     (let replaced' = (case c_Binding c of
            None \<Rightarrow> replaced
          | Some b \<Rightarrow> if b_Replaces b = [] then replaced else
              (case byID (checkReference c (b_Replaces b)) of
                 None \<Rightarrow> replaced
               | Some old \<Rightarrow> if CanReplace old c then insert (ownReference old) replaced else replaced));
          byID' = (if c_ToolCallID c \<noteq> [] then byID(ownReference c \<mapsto> c) else byID)
      in mark_replaced cs byID' replaced')"

definition command_key :: "check \<Rightarrow> string" where
  "command_key c = TrimSpace (c_Kind c) @ NUL @ TrimSpace (c_Command c) @ NUL @ TrimSpace (c_CWD c)"

definition dependencies_key :: "binding \<Rightarrow> string" where
  "dependencies_key b =
     (case b_LocalDependencies b of None \<Rightarrow> ''<all-local-inputs>'' | Some ds \<Rightarrow> Join ds UNIT_SEP)"

definition step_bound :: "check \<Rightarrow> bool" where
  "step_bound c = (ValidBinding (c_Binding c) \<and> b_Version (bnd c) = 3)"

text \<open>The key a check is kept under.\<close>

definition latest_key :: "check \<Rightarrow> string" where
  "latest_key c =
     (if step_bound c
      then ''plan-step'' @ NUL @ b_StepID (bnd c) @ NUL @ b_Criterion (bnd c) @ NUL @ b_Target (bnd c)
           @ NUL @ TrimSpace (c_CWD c) @ NUL @ dependencies_key (bnd c)
      else (case c_Binding c of
              Some b \<Rightarrow> command_key c @ NUL @ Decimal (b_Version b) @ NUL @ b_Criterion b @ NUL
                @ b_Target b @ NUL @ c_ToolCallID c @ NUL @ Decimal (c_StartedAt c)
            | None \<Rightarrow> command_key c))"

text \<open>A passing check of a plan step retires an earlier entry of the same step.\<close>

definition retires :: "check \<Rightarrow> string \<Rightarrow> string \<times> check \<Rightarrow> bool" where
  "retires c key entry = (case entry of (existingKey, existing) \<Rightarrow>
     (let unresolvedFixed =
            (b_StepID (bnd c) \<noteq> [] \<and> b_UnresolvedLocalDependencies (bnd existing) \<noteq> []
             \<and> b_UnresolvedLocalDependencies (bnd c) = []
             \<and> (b_Target (bnd existing) = b_Target (bnd c) \<or> b_Target (bnd existing) = b_StepID (bnd existing)
                \<or> b_Target (bnd c) = b_StepID (bnd c)))
      in existingKey \<noteq> key \<and> step_bound existing \<and> b_StepID (bnd existing) = b_StepID (bnd c)
         \<and> sameAssessmentSource (c_Source existing) (c_Source c)
         \<and> c_FinishedAt existing > 0 \<and> c_FinishedAt existing \<le> c_StartedAt c
         \<and> (unresolvedFixed
            \<or> (b_Criterion (bnd existing) = b_Criterion (bnd c) \<and> b_Target (bnd existing) = b_Target (bnd c)
               \<and> (c_Status existing \<noteq> ''succeeded''
                  \<or> (b_StepID (bnd c) \<noteq> [] \<and> dependencies_key (bnd existing) = dependencies_key (bnd c)))))))"

text \<open>
  The body of the second loop. The entries of the map \<^verbatim>\<open>latest\<close> are an association list, \<^verbatim>\<open>keys\<close> is
  the insertion order (\<^verbatim>\<open>seenKeys\<close> holds exactly its members). Ranging over \<^verbatim>\<open>latest\<close> reads
  \<^verbatim>\<open>existing.Binding.UnresolvedLocalDependencies\<close> of every entry: \<^const>\<open>None\<close> is the panic when an
  entry has no binding.
\<close>

fun latest_step :: "check \<Rightarrow> (string \<times> check) list \<times> string list
    \<Rightarrow> ((string \<times> check) list \<times> string list) option" where
  "latest_step c (latest, keys) =
     (let key = latest_key c;
          pruned = (if step_bound c \<and> c_Status c = ''succeeded'' then
                      (if b_StepID (bnd c) \<noteq> [] \<and> (\<exists>e \<in> set latest. c_Binding (snd e) = None) then None
                       else Some (filter (\<lambda>e. \<not> retires c key e) latest))
                    else Some latest)
      in case pruned of None \<Rightarrow> None | Some latest \<Rightarrow>
        (let keys = (if key \<in> set keys then keys else keys @ [key]);
             latest = (case map_of latest key of
                 None \<Rightarrow> AList.update key c latest
               | Some old \<Rightarrow> if c_FinishedAt c \<ge> c_FinishedAt old then AList.update key c latest else latest)
         in Some (latest, keys)))"

fun latest_loop :: "string set \<Rightarrow> check list \<Rightarrow> (string \<times> check) list \<times> string list
    \<Rightarrow> ((string \<times> check) list \<times> string list) option" where
  "latest_loop replaced [] st = Some st"
| "latest_loop replaced (c # cs) st =
     (if ownReference c \<in> replaced then latest_loop replaced cs st
      else (case latest_step c st of None \<Rightarrow> None | Some st' \<Rightarrow> latest_loop replaced cs st'))"

definition Latest :: "check list \<Rightarrow> check list option" where
  "Latest checks =
     (let ordered = sort_key c_StartedAt checks;
          replaced = mark_replaced ordered Map.empty {}
      in case latest_loop replaced ordered ([], []) of
           None \<Rightarrow> None
         | Some (latest, keys) \<Rightarrow> Some (List.map_filter (map_of latest) keys))"

definition OfflineDespiteGrant :: "check list \<Rightarrow> nat option" where
  "OfflineDespiteGrant checks = do {
     latest \<leftarrow> Latest checks;
     Some (length (filter (\<lambda>c. c_Status c = ''succeeded'' \<and> offlineCoverageLost c) latest))
   }"


section \<open>Which changes affect a check\<close>

definition overlapsPath :: "string \<Rightarrow> string \<Rightarrow> bool" where
  "overlapsPath a b =
     (let contains = (\<lambda>root target. case Rel root target of None \<Rightarrow> False | Some r \<Rightarrow> \<not> escapes r)
      in contains a b \<or> contains b a)"

text \<open>The condition under which a change is compared with declared inputs at all.\<close>

definition declares_inputs :: "check \<Rightarrow> mutation \<Rightarrow> bool" where
  "declares_inputs check m =
     (ValidBinding (c_Binding check) \<and> b_Version (bnd check) \<ge> 2 \<and> b_LocalDependencies (bnd check) \<noteq> None
      \<and> b_UnresolvedLocalDependencies (bnd check) = [] \<and> IsAbs (m_Path m))"

definition affects :: "mutation \<Rightarrow> check \<Rightarrow> bool" where
  "affects m check =
     (if declares_inputs check m
      then (\<exists>dependency \<in> set (the (b_LocalDependencies (bnd check)) @ b_ResolvedLocalDependencies (bnd check)).
              \<not> IsAbs dependency \<or> overlapsPath dependency (m_Path m))
      else True)"

fun relevant_loop :: "check \<Rightarrow> mutation list \<Rightarrow> int \<Rightarrow> int" where
  "relevant_loop check [] latest = latest"
| "relevant_loop check (m # ms) latest =
     relevant_loop check ms (if affects m check \<and> m_FinishedAt m > latest then m_FinishedAt m else latest)"

definition RelevantMutationAt :: "check \<Rightarrow> mutation list \<Rightarrow> int" where
  "RelevantMutationAt check mutations = relevant_loop check mutations 0"

section \<open>The verification state\<close>

definition stepCheckSupersededByFreshPass :: "check \<Rightarrow> check list \<Rightarrow> (check \<Rightarrow> int) \<Rightarrow> bool" where
  "stepCheckSupersededByFreshPass c latest affectedAt =
     (if \<not> ValidBinding (c_Binding c) \<or> b_Version (bnd c) \<noteq> 3 \<or> b_StepID (bnd c) = [] \<or> c_FinishedAt c \<le> 0
      then False
      else (\<exists>other \<in> set latest.
              c_ToolCallID other \<noteq> c_ToolCallID c \<and> ValidBinding (c_Binding other) \<and> b_Version (bnd other) = 3
              \<and> b_StepID (bnd other) = b_StepID (bnd c) \<and> sameAssessmentSource (c_Source other) (c_Source c)
              \<and> c_Status other = ''succeeded'' \<and> c_StartedAt other \<ge> c_FinishedAt c
              \<and> c_StartedAt other \<ge> affectedAt other))"

text \<open>The second result of \<^verbatim>\<open>state\<close>: the sentence, with the counts it is formatted from.\<close>

datatype summary =
    NothingRecorded
  | ChangedWithoutCheck
  | RanBeforeChange
  | CurrentFailed nat
  | NeedReview nat
  | CurrentPassed nat nat
  | AllBlocked nat
  | PassedAndBlocked nat nat nat

text \<open>The switch at the end of \<^verbatim>\<open>state\<close>, over the counts of the current effective checks.\<close>

definition verdict :: "nat \<Rightarrow> check list \<Rightarrow> string \<times> summary" where
  "verdict stale eff =
     (let passed = length (filter (\<lambda>c. c_Status c = ''succeeded'') eff);
          blocked = length (filter (\<lambda>c. c_Status c = ''blocked'') eff);
          failed = length (filter (\<lambda>c. c_Status c \<noteq> ''succeeded'' \<and> c_Status c \<noteq> ''blocked'') eff);
          offline = length (filter (\<lambda>c. c_Status c = ''succeeded'' \<and> offlineCoverageLost c) eff)
      in if failed > 0 then (''failed'', CurrentFailed failed)
         else if stale > 0 then (''stale'', NeedReview stale)
         else if passed > 0 \<and> blocked = 0 then (''passed'', CurrentPassed passed offline)
         else if passed = 0 \<and> blocked > 0 then (''blocked'', AllBlocked blocked)
         else (''partial'', PassedAndBlocked passed blocked offline))"

definition state :: "int \<Rightarrow> check list \<Rightarrow> (check \<Rightarrow> int) \<Rightarrow> (string \<times> summary) option" where
  "state latestMutation checks affectedAt =
     (if checks = [] then
        (if latestMutation = 0 then Some (''not_applicable'', NothingRecorded)
         else Some (''not_run'', ChangedWithoutCheck))
      else do {
        latest \<leftarrow> Latest checks;
        let current = filter (\<lambda>c. c_StartedAt c \<ge> affectedAt c) latest;
        let stale = length (filter (\<lambda>c. \<not> c_StartedAt c \<ge> affectedAt c
                      \<and> \<not> stepCheckSupersededByFreshPass c latest affectedAt) latest);
        (if current = [] then Some (''stale'', RanBeforeChange)
         else do {
           eff \<leftarrow> Latest current;
           Some (verdict stale eff)
         })
      })"

definition State :: "int \<Rightarrow> check list \<Rightarrow> (string \<times> summary) option" where
  "State latestMutation checks = state latestMutation checks (\<lambda>_. latestMutation)"

section \<open>Blocking evidence\<close>

record gap =
  g_ID :: string
  g_State :: string
  g_Criterion :: string
  g_Target :: string
  g_CWD :: string

definition check_gap :: "check list \<Rightarrow> (check \<Rightarrow> int) \<Rightarrow> check \<Rightarrow> gap option" where
  "check_gap latestChecks affectedAt check =
     (let stale = (c_StartedAt check < affectedAt check);
          status = (if stale then ''stale'' else c_Status check)
      in if stale \<and> stepCheckSupersededByFreshPass check latestChecks affectedAt then None
         else if status = ''succeeded'' then None
         else Some \<lparr>g_ID = c_ToolCallID check, g_State = status,
                    g_Criterion = (case c_Binding check of None \<Rightarrow> [] | Some b \<Rightarrow> bound_runes 300 (b_Criterion b)),
                    g_Target = (case c_Binding check of None \<Rightarrow> [] | Some b \<Rightarrow> bound_runes 300 (b_Target b)),
                    g_CWD = bound_runes 300 (c_CWD check)\<rparr>)"

definition Blockers :: "mutation list \<Rightarrow> check list \<Rightarrow> gap list option" where
  "Blockers mutations checks = do {
     latestChecks \<leftarrow> Latest checks;
     Some (take 4 (List.map_filter (check_gap latestChecks (\<lambda>c. RelevantMutationAt c mutations)) latestChecks))
   }"

text \<open>
  \<^verbatim>\<open>StateWithMutations\<close>: the state, and the three parts its summary is joined from: the sentence of
  \<^verbatim>\<open>state\<close>, the checks to repeat (call id and bounded target) and the blocking evidence.
\<close>

definition is_file_observation :: "check \<Rightarrow> bool" where
  "is_file_observation check =
     (case c_Observation check of None \<Rightarrow> False | Some ob \<Rightarrow> o_Kind ob = ''file'')"

definition recheck_gap :: "check \<Rightarrow> string \<times> string" where
  "recheck_gap check =
     (c_ToolCallID check,
      bound_runes 200 (case c_Binding check of None \<Rightarrow> ''undeclared inputs'' | Some b \<Rightarrow> b_Target b))"

record state_report =
  r_Status :: string
  r_Summary :: summary
  r_Recheck :: "(string \<times> string) list"
  r_Blockers :: "gap list"

definition StateWithMutations :: "mutation list \<Rightarrow> check list \<Rightarrow> state_report option" where
  "StateWithMutations mutations checks =
     (let checks = filter (\<lambda>c. \<not> is_file_observation c) checks;
          affectedAt = (\<lambda>c. RelevantMutationAt c mutations);
          latest = RelevantMutationAt zero_check mutations
      in do {
        (status, summary) \<leftarrow> state latest checks affectedAt;
        recheck \<leftarrow> (if status = ''stale'' then do {
             latestChecks \<leftarrow> Latest checks;
             Some (take 4 (map recheck_gap (filter (\<lambda>c. \<not> (c_StartedAt c \<ge> affectedAt c
                     \<or> stepCheckSupersededByFreshPass c latestChecks affectedAt)) latestChecks)))
           } else Some []);
        blockers \<leftarrow> (if status \<noteq> ''passed'' then Blockers mutations checks else Some []);
        Some \<lparr>r_Status = status, r_Summary = summary, r_Recheck = recheck, r_Blockers = blockers\<rparr>
      })"

section \<open>Issues with cited observations\<close>

record issue =
  i_Ref :: string
  i_StepID :: string
  i_Kind :: string
  i_Criterion :: string
  i_Target :: string
  i_CWD :: string

record issues =
  is_Issues :: "issue list"
  is_Omitted :: nat

definition add_issue :: "issues \<Rightarrow> issue \<Rightarrow> issues" where
  "add_issue e issue =
     (if issue \<in> set (is_Issues e) then e
      else if length (is_Issues e) \<ge> 8 then e\<lparr>is_Omitted := Suc (is_Omitted e)\<rparr>
      else e\<lparr>is_Issues := is_Issues e @ [issue]\<rparr>)"

definition observationIssue :: "string \<Rightarrow> check \<Rightarrow> mutation list \<Rightarrow> issue option" where
  "observationIssue ref check mutations =
     (let static = (is_file_observation check \<and> c_Status check = ''succeeded'');
          kind = (if c_Invoked check \<noteq> Some True
                     \<or> (\<not> static \<and> (c_ProcessStarted check \<noteq> Some True \<or> c_ExitCode check < 0))
                     \<or> c_Status check = ''blocked'' \<or> c_EffectState check = ''unknown''
                     \<or> c_EffectState check = ''not_dispatched''
                  then ''unconfirmed''
                  else if c_StartedAt check < RelevantMutationAt check mutations then ''stale'' else [])
      in if kind = [] then None
         else Some \<lparr>i_Ref = ref,
                    i_StepID = (case c_Binding check of None \<Rightarrow> [] | Some b \<Rightarrow> b_StepID b),
                    i_Kind = kind,
                    i_Criterion = (case c_Binding check of None \<Rightarrow> [] | Some b \<Rightarrow> b_Criterion b),
                    i_Target = (case c_Binding check of None \<Rightarrow> [] | Some b \<Rightarrow> b_Target b),
                    i_CWD = c_CWD check\<rparr>)"

text \<open>
  \<^verbatim>\<open>sameObservedFact\<close> compares JSON texts. A JSON text determines every exported field up to the
  replacement of invalid UTF-8 by one escape, which \<open>json_string\<close> keeps apart from U+FFFD itself.
  (A nil slice behind a non-nil \<^verbatim>\<open>LocalDependencies\<close> pointer is not distinguished from an empty one.)
\<close>

definition json_string :: "string \<Rightarrow> nat option list" where
  "json_string s = runes s"

definition json_observation :: "observation \<Rightarrow> nat option list list \<times> nat option list list option
    \<times> nat option list list \<times> nat option list list \<times> int \<times> int" where
  "json_observation ob =
     (map json_string [o_Kind ob, o_Target ob, o_CWD ob],
      map_option (map json_string) (o_LocalDependencies ob),
      map json_string (o_ResolvedLocalDependencies ob),
      map json_string (o_UnresolvedLocalDependencies ob),
      o_Offset ob, o_Limit ob)"

definition sameObservedFact :: "check \<Rightarrow> check \<Rightarrow> bool" where
  "sameObservedFact a b =
     (if c_Source a \<noteq> None \<or> c_Source b \<noteq> None \<or> c_Observation a = None \<or> c_Observation b = None then False
      else map_option json_observation (c_Observation a) = map_option json_observation (c_Observation b)
        \<and> map json_string [c_ToolCallID a, c_Kind a, c_Command a, c_CWD a, c_Status a, c_EffectState a,
              c_NetworkDecision a, c_NetworkPermission a]
          = map json_string [c_ToolCallID b, c_Kind b, c_Command b, c_CWD b, c_Status b, c_EffectState b,
              c_NetworkDecision b, c_NetworkPermission b]
        \<and> c_ExitCode a = c_ExitCode b \<and> c_StartedAt a = c_StartedAt b \<and> c_FinishedAt a = c_FinishedAt b
        \<and> c_ProcessStarted a = c_ProcessStarted b \<and> c_Invoked a = c_Invoked b
        \<and> c_NetworkMayFetch a = c_NetworkMayFetch b)"


section \<open>Facts about the effective checks\<close>

named_theorems evidence_simps \<open>definitions unfolded by the proofs about checks\<close>

lemmas [evidence_simps] = CanReplace_def ReplacementMismatch_def step_bound_def

lemma ValidBinding_SomeD: "ValidBinding b \<Longrightarrow> \<exists>x. b = Some x"
  by (cases b) (auto simp: ValidBinding_def)

lemma step_bound_StepID: "step_bound c \<Longrightarrow> b_StepID (bnd c) \<noteq> []"
  by (cases "c_Binding c") (auto simp: step_bound_def ValidBinding_def)

text \<open>
  The invariant of the second loop: entries and keys are without repetition, every entry stands
  under its own key, comes from the input and was not replaced.
\<close>

definition latest_inv :: "string set \<Rightarrow> check set \<Rightarrow> (string \<times> check) list \<times> string list \<Rightarrow> bool" where
  "latest_inv replaced S st = (case st of (latest, keys) \<Rightarrow>
     distinct (map fst latest) \<and> distinct keys
     \<and> (\<forall>k c. (k, c) \<in> set latest \<longrightarrow>
            k \<in> set keys \<and> k = latest_key c \<and> c \<in> S \<and> ownReference c \<notin> replaced))"

lemma latest_inv_update:
  assumes "latest_inv replaced S (latest, keys)" and "c \<in> S" and "ownReference c \<notin> replaced"
  shows "latest_inv replaced S (AList.update (latest_key c) c latest,
           if latest_key c \<in> set keys then keys else keys @ [latest_key c])"
  using assms set_AList_update [of "latest_key c" c latest]
  by (fastforce simp: latest_inv_def distinct_update)

lemma latest_inv_filter:
  "latest_inv replaced S (latest, keys) \<Longrightarrow> latest_inv replaced S (filter P latest, keys)"
  by (auto simp: latest_inv_def distinct_filter_fst)

lemma latest_inv_keys:
  "latest_inv replaced S (latest, keys) \<Longrightarrow>
   latest_inv replaced S (latest, if k \<in> set keys then keys else keys @ [k])"
  by (auto simp: latest_inv_def)

lemma latest_step_inv:
  assumes "latest_step c st = Some st'" and "latest_inv replaced S st" and "c \<in> S"
    and "ownReference c \<notin> replaced"
  shows "latest_inv replaced S st'"
proof (cases st)
  case (Pair latest keys)
  let ?pruned = "if step_bound c \<and> c_Status c = ''succeeded'' then filter (\<lambda>e. \<not> retires c (latest_key c) e) latest
    else latest"
  let ?keys = "if latest_key c \<in> set keys then keys else keys @ [latest_key c]"
  have inv: "latest_inv replaced S (?pruned, keys)"
    using assms(2) by (simp add: Pair latest_inv_filter)
  from assms(1) have "st' = (AList.update (latest_key c) c ?pruned, ?keys) \<or> st' = (?pruned, ?keys)"
    by (auto simp: Pair Let_def split: if_splits option.splits)
  then show ?thesis
    using latest_inv_update [OF inv assms(3,4)] latest_inv_keys [OF inv] by blast
qed

lemma latest_loop_inv:
  "latest_loop replaced cs st = Some st' \<Longrightarrow> latest_inv replaced S st \<Longrightarrow> set cs \<subseteq> S \<Longrightarrow>
   latest_inv replaced S st'"
proof (induction cs arbitrary: st)
  case Nil
  then show ?case by simp
next
  case (Cons c cs)
  show ?case
  proof (cases "ownReference c \<in> replaced")
    case True
    with Cons show ?thesis by simp
  next
    case False
    with Cons.prems obtain t where t: "latest_step c st = Some t" "latest_loop replaced cs t = Some st'"
      by (auto split: option.splits)
    have "latest_inv replaced S t"
      using latest_step_inv [OF t(1) Cons.prems(2) _ False] Cons.prems(3) by simp
    with Cons t show ?thesis by simp
  qed
qed

lemma Latest_SomeD:
  assumes "Latest checks = Some out"
  obtains latest keys where
    "latest_inv (mark_replaced (sort_key c_StartedAt checks) Map.empty {}) (set checks) (latest, keys)"
    "out = List.map_filter (map_of latest) keys"
proof -
  let ?r = "mark_replaced (sort_key c_StartedAt checks) Map.empty {}"
  from assms obtain latest keys where
    l: "latest_loop ?r (sort_key c_StartedAt checks) ([], []) = Some (latest, keys)"
    and out: "out = List.map_filter (map_of latest) keys"
    by (auto simp: Latest_def Let_def split: option.splits prod.splits)
  have "latest_inv ?r (set checks) ([], [])" by (simp add: latest_inv_def)
  from latest_loop_inv [OF l this] have "latest_inv ?r (set checks) (latest, keys)" by simp
  from that [OF this out] show thesis .
qed

lemma latest_inv_memberD:
  assumes "latest_inv r S (latest, keys)" and "c \<in> set (List.map_filter (map_of latest) keys)"
  shows "c \<in> S" and "ownReference c \<notin> r"
proof -
  from assms(2) obtain k where "map_of latest k = Some c"
    by (auto simp: List.map_filter_def)
  then have "(k, c) \<in> set latest" by (rule map_of_SomeD)
  with assms(1) show "c \<in> S" and "ownReference c \<notin> r" by (auto simp: latest_inv_def)
qed

lemma Latest_subset: "Latest checks = Some out \<Longrightarrow> set out \<subseteq> set checks"
  by (erule Latest_SomeD) (auto dest: latest_inv_memberD(1))

lemma Latest_not_replaced:
  "Latest checks = Some out \<Longrightarrow> c \<in> set out \<Longrightarrow>
   ownReference c \<notin> mark_replaced (sort_key c_StartedAt checks) Map.empty {}"
  by (erule Latest_SomeD) (auto dest: latest_inv_memberD(2))

lemma Latest_distinct_keys:
  assumes "Latest checks = Some out"
  shows "distinct (map latest_key out)"
proof -
  obtain latest keys where inv:
    "latest_inv (mark_replaced (sort_key c_StartedAt checks) Map.empty {}) (set checks) (latest, keys)"
    and out: "out = List.map_filter (map_of latest) keys"
    using assms by (rule Latest_SomeD)
  have key: "map_of latest k = Some c \<Longrightarrow> latest_key c = k" for k c
    using inv by (fastforce simp: latest_inv_def dest: map_of_SomeD)
  then have "map latest_key out = filter (\<lambda>k. map_of latest k \<noteq> None) keys"
    unfolding out by (induction keys) (auto simp: map_filter_simps split: option.splits)
  with inv show ?thesis by (simp add: latest_inv_def)
qed

text \<open>When \<open>Latest\<close> returns: it panics only on a passing step check that meets an unbound entry.\<close>

lemma latest_step_total:
  assumes "\<forall>e \<in> set (fst st). c_Binding (snd e) \<noteq> None"
  shows "\<exists>st'. latest_step c st = Some st'"
  using assms by (cases st) (auto simp: Let_def split: option.splits)

lemma latest_step_bindings:
  assumes "latest_step c st = Some st'" and "P c" and "\<forall>e \<in> set (fst st). P (snd e)"
  shows "\<forall>e \<in> set (fst st'). P (snd e)"
  using assms set_AList_update [of "latest_key c" c]
  by (cases st) (fastforce simp: Let_def split: if_splits option.splits)

lemma latest_loop_total:
  "\<forall>c \<in> set cs. c_Binding c \<noteq> None \<Longrightarrow> \<forall>e \<in> set (fst st). c_Binding (snd e) \<noteq> None \<Longrightarrow>
   \<exists>st'. latest_loop replaced cs st = Some st'"
proof (induction cs arbitrary: st)
  case Nil
  then show ?case by simp
next
  case (Cons c cs)
  obtain t where t: "latest_step c st = Some t" using latest_step_total [OF Cons.prems(2)] by blast
  have "\<forall>e \<in> set (fst t). c_Binding (snd e) \<noteq> None"
    using latest_step_bindings [OF t, of "\<lambda>c. c_Binding c \<noteq> None"] Cons.prems by auto
  with Cons t show ?case by simp
qed

lemma Latest_total:
  assumes "\<forall>c \<in> set checks. c_Binding c \<noteq> None"
  shows "\<exists>out. Latest checks = Some out"
proof -
  let ?o = "sort_key c_StartedAt checks"
  have "\<exists>st'. latest_loop (mark_replaced ?o Map.empty {}) ?o ([], []) = Some st'"
    using assms by (intro latest_loop_total) auto
  then show ?thesis by (auto simp: Latest_def Let_def)
qed

subsection \<open>Replaced checks\<close>

text \<open>The map \<^verbatim>\<open>byID\<close> after a prefix of the checks.\<close>

definition byID_after :: "check list \<Rightarrow> (string \<rightharpoonup> check) \<Rightarrow> (string \<rightharpoonup> check)" where
  "byID_after cs m = foldl (\<lambda>m c. if c_ToolCallID c \<noteq> [] then m(ownReference c \<mapsto> c) else m) m cs"

lemma mark_replaced_append:
  "mark_replaced (xs @ ys) m r = mark_replaced ys (byID_after xs m) (mark_replaced xs m r)"
  by (induction xs arbitrary: m r) (simp_all add: Let_def byID_after_def)

lemma mark_replaced_mono: "r \<subseteq> mark_replaced cs m r"
proof (induction cs arbitrary: m r)
  case Nil
  then show ?case by simp
next
  case (Cons c cs)
  then show ?case by (fastforce simp: Let_def split: option.splits)
qed

lemma byID_after_other:
  "ref \<notin> ownReference ` set cs \<Longrightarrow> byID_after cs m ref = m ref"
  by (induction cs arbitrary: m) (auto simp: byID_after_def)

lemma CanReplaceD:
  assumes "CanReplace old new"
  shows "c_ToolCallID old \<noteq> []" and "c_Binding new \<noteq> None" and "b_Replaces (bnd new) = c_ToolCallID old"
    and "c_FinishedAt old \<le> c_StartedAt new" and "c_ToolCallID old \<noteq> c_ToolCallID new"
    and "b_Criterion (bnd old) = b_Criterion (bnd new)" and "b_Target (bnd old) = b_Target (bnd new)"
    and "c_CWD old = c_CWD new" and "ValidBinding (c_Binding old)" and "ValidBinding (c_Binding new)"
  using assms by (auto simp: evidence_simps ValidBinding_def split: if_splits option.splits)

lemma mark_replaced_hit:
  assumes "m (checkReference new (b_Replaces (bnd new))) = Some old" and "CanReplace old new"
  shows "ownReference old \<in> mark_replaced (new # cs) m r"
proof -
  obtain b where b: "c_Binding new = Some b" and "b_Replaces b \<noteq> []"
    using CanReplaceD(1-3) [OF assms(2)] by auto
  then have "mark_replaced (new # cs) m r =
      mark_replaced cs (if c_ToolCallID new \<noteq> [] then m(ownReference new \<mapsto> new) else m)
        (insert (ownReference old) r)"
    using assms by (simp add: Let_def)
  then show ?thesis using mark_replaced_mono by fastforce
qed

lemma sorted_split_two:
  assumes "sorted (map f xs)" and "a \<in> set xs" and "b \<in> set xs" and "f a < (f b :: int)"
  obtains us vs ws where "xs = us @ a # vs @ b # ws"
proof -
  from assms(2) obtain us rest where xs: "xs = us @ a # rest" by (meson split_list)
  with assms have "b \<in> set rest" by (fastforce simp: sorted_append)
  then obtain vs ws where "rest = vs @ b # ws" by (meson split_list)
  with xs that show thesis by blast
qed

text \<open>A check that a later check of the same source replaces, with the criterion, target and
  working directory unchanged, is not effective: \<^verbatim>\<open>Latest\<close> never returns it.\<close>

theorem replaced_check_not_effective:
  assumes "Latest checks = Some out" and "distinct (map ownReference checks)"
    and "old \<in> set checks" and "new \<in> set checks" and "c_StartedAt old < c_StartedAt new"
    and "CanReplace old new" and "checkReference new (b_Replaces (bnd new)) = ownReference old"
  shows "old \<notin> set out"
proof
  assume "old \<in> set out"
  let ?o = "sort_key c_StartedAt checks"
  have "distinct (map ownReference ?o)"
    using assms(2) by (simp add: distinct_map)
  moreover obtain us vs ws where o: "?o = us @ old # vs @ new # ws"
    using sorted_split_two [of c_StartedAt ?o old new] assms by auto
  ultimately have fresh: "ownReference old \<notin> ownReference ` set vs" by auto
  have "byID_after (us @ [old]) Map.empty (ownReference old) = Some old"
    using CanReplaceD(1) [OF assms(6)] by (simp add: byID_after_def)
  then have "byID_after (us @ old # vs) Map.empty (ownReference old) = Some old"
    using byID_after_other [OF fresh, of "byID_after (us @ [old]) Map.empty"]
    by (simp add: byID_after_def)
  then have "ownReference old \<in> mark_replaced ?o Map.empty {}"
    unfolding o using assms(6,7) mark_replaced_append [of "us @ old # vs" "new # ws"]
    by (simp add: mark_replaced_hit del: mark_replaced.simps)
  with Latest_not_replaced [OF assms(1) \<open>old \<in> set out\<close>] show False by simp
qed

subsection \<open>Freshness\<close>

lemma overlapsPath_abs_iff:
  assumes "IsAbs a" and "IsAbs b"
  shows "overlapsPath a b \<longleftrightarrow> prefix (clean_comps a) (clean_comps b) \<or> prefix (clean_comps b) (clean_comps a)"
  using Rel_escapes_iff [OF assms] Rel_escapes_iff [OF assms(2,1)]
  by (auto simp: overlapsPath_def)

lemma relevant_loop_spec:
  "t \<le> relevant_loop c ms t \<and> (\<forall>m \<in> set ms. affects m c \<longrightarrow> m_FinishedAt m \<le> relevant_loop c ms t)
   \<and> (relevant_loop c ms t = t \<or> (\<exists>m \<in> set ms. affects m c \<and> relevant_loop c ms t = m_FinishedAt m))"
proof (induction ms arbitrary: t)
  case Nil
  then show ?case by simp
next
  case (Cons m ms)
  show ?case using Cons [of t] Cons [of "m_FinishedAt m"] by auto
qed

lemma RelevantMutationAt_Max:
  "RelevantMutationAt c ms = Max (insert 0 (m_FinishedAt ` {m \<in> set ms. affects m c}))"
  using relevant_loop_spec [of 0 c ms]
  by (intro Max_eqI [symmetric]) (auto simp: RelevantMutationAt_def)

lemma RelevantMutationAt_nonneg: "0 \<le> RelevantMutationAt c ms"
  by (simp add: RelevantMutationAt_Max)

lemma affects_unbound: "c_Binding c = None \<Longrightarrow> affects m c"
  by (simp add: affects_def declares_inputs_def ValidBinding_def)

subsection \<open>The reported state\<close>

lemma verdict_passedD:
  assumes "verdict stale eff = (''passed'', sm)"
  shows "stale = 0" and "eff \<noteq> []" and "\<forall>c \<in> set eff. c_Status c = ''succeeded''"
  using assms by (auto simp: verdict_def Let_def filter_empty_conv split: if_splits)

lemma verdict_failed:
  "c \<in> set eff \<Longrightarrow> c_Status c \<noteq> ''succeeded'' \<Longrightarrow> c_Status c \<noteq> ''blocked'' \<Longrightarrow>
   fst (verdict stale eff) = ''failed''"
  by (auto simp: verdict_def Let_def filter_empty_conv)

lemma state_SomeD:
  assumes "state lm checks aff = Some (st, sm)" and "checks \<noteq> []"
  obtains latest where "Latest checks = Some latest"
    and "(filter (\<lambda>c. aff c \<le> c_StartedAt c) latest = [] \<and> st = ''stale'')
       \<or> (\<exists>eff. Latest (filter (\<lambda>c. aff c \<le> c_StartedAt c) latest) = Some eff
            \<and> (st, sm) = verdict (length (filter (\<lambda>c. \<not> aff c \<le> c_StartedAt c
                     \<and> \<not> stepCheckSupersededByFreshPass c latest aff) latest)) eff)"
  using assms by (auto simp: state_def Let_def bind_eq_Some_conv split: if_splits)

lemma state_passedD:
  assumes "state lm checks aff = Some (''passed'', sm)"
  obtains latest eff where "Latest checks = Some latest"
    and "Latest (filter (\<lambda>c. aff c \<le> c_StartedAt c) latest) = Some eff" and "eff \<noteq> []"
    and "\<forall>c \<in> set eff. c_Status c = ''succeeded''"
    and "\<forall>c \<in> set latest. aff c \<le> c_StartedAt c \<or> stepCheckSupersededByFreshPass c latest aff"
proof -
  have "checks \<noteq> []" using assms by (auto simp: state_def split: if_splits)
  then obtain latest where l: "Latest checks = Some latest"
    and "(filter (\<lambda>c. aff c \<le> c_StartedAt c) latest = [] \<and> ''passed'' = ''stale'')
       \<or> (\<exists>eff. Latest (filter (\<lambda>c. aff c \<le> c_StartedAt c) latest) = Some eff
            \<and> (''passed'', sm) = verdict (length (filter (\<lambda>c. \<not> aff c \<le> c_StartedAt c
                     \<and> \<not> stepCheckSupersededByFreshPass c latest aff) latest)) eff)"
    by (rule state_SomeD [OF assms])
  then obtain eff where e: "Latest (filter (\<lambda>c. aff c \<le> c_StartedAt c) latest) = Some eff"
    and v: "verdict (length (filter (\<lambda>c. \<not> aff c \<le> c_StartedAt c
              \<and> \<not> stepCheckSupersededByFreshPass c latest aff) latest)) eff = (''passed'', sm)"
    by auto
  from verdict_passedD(1) [OF v]
  have "\<forall>c \<in> set latest. aff c \<le> c_StartedAt c \<or> stepCheckSupersededByFreshPass c latest aff"
    by (auto simp: filter_empty_conv)
  with that l e verdict_passedD(2,3) [OF v] show thesis by blast
qed

lemma StateWithMutations_state:
  "StateWithMutations ms checks = Some r \<Longrightarrow>
   state (RelevantMutationAt zero_check ms) (filter (\<lambda>c. \<not> is_file_observation c) checks)
     (\<lambda>c. RelevantMutationAt c ms) = Some (r_Status r, r_Summary r)"
  by (auto simp: StateWithMutations_def Let_def bind_eq_Some_conv split: if_splits)

lemma RelevantMutationAt_le_iff:
  "0 \<le> t \<Longrightarrow> RelevantMutationAt c ms \<le> t \<longleftrightarrow> (\<forall>m \<in> set ms. affects m c \<longrightarrow> m_FinishedAt m \<le> t)"
  by (auto simp: RelevantMutationAt_Max)

lemma RelevantMutationAt_leD:
  "RelevantMutationAt c ms \<le> t \<Longrightarrow> m \<in> set ms \<Longrightarrow> affects m c \<Longrightarrow> m_FinishedAt m \<le> t"
  using RelevantMutationAt_le_iff [of t c ms] RelevantMutationAt_nonneg [of c ms] by auto

text \<open>A check for the witnesses: bound to a plan step, with a declared input.\<close>

definition sample_check :: "string \<Rightarrow> string \<Rightarrow> string \<Rightarrow> int \<Rightarrow> int \<Rightarrow> check" where
  "sample_check call step status start finish = zero_check\<lparr>c_ToolCallID := call, c_Status := status,
     c_StartedAt := start, c_FinishedAt := finish,
     c_Binding := Some \<lparr>b_Version = 3, b_Criterion = ''t'', b_Target = ''p'', b_Replaces = [], b_Reason = [],
       b_StepID = step, b_LocalDependencies = Some [''/w/a''], b_ResolvedLocalDependencies = [],
       b_UnresolvedLocalDependencies = []\<rparr>\<rparr>"

lemmas sample_simps = sample_check_def zero_check_def Latest_def Let_def step_bound_def ValidBinding_def
  latest_key_def checkReference_def TrimSpace_def chunks.simps byte_def is_space_def
  sameAssessmentSource_def dependencies_key_def map_filter_simps

lemma Latest_sample:
  "Latest [sample_check call ''s'' st a b] = Some [sample_check call ''s'' st a b]"
  by (simp add: sample_simps)

lemma RelevantMutationAt_sample:
  "RelevantMutationAt (sample_check call step st a b) [\<lparr>m_Path = ''/w/a'', m_FinishedAt = 5\<rparr>] = 5"
  by (simp add: RelevantMutationAt_def affects_def declares_inputs_def IsAbs_def overlapsPath_def
      Rel_def escapes_def sample_simps)

lemma sample_fields:
  "c_Status (sample_check call step st a b) = st" "c_StartedAt (sample_check call step st a b) = a"
  "c_FinishedAt (sample_check call step st a b) = b" "c_ToolCallID (sample_check call step st a b) = call"
  "c_CWD (sample_check call step st a b) = []" "c_Source (sample_check call step st a b) = None"
  "c_Invoked (sample_check call step st a b) = None" "c_Binding (sample_check call step st a b) \<noteq> None"
  "\<not> offlineCoverageLost (sample_check call step st a b)"
  "\<not> is_file_observation (sample_check call step st a b)"
  by (simp_all add: sample_check_def zero_check_def offlineCoverageLost_def is_file_observation_def)

lemmas sample_facts = Latest_sample RelevantMutationAt_sample sample_fields

text \<open>C1. A run is reported as passed only on effective checks that succeeded and that started no
  earlier than every file change affecting them; file observations never count, and every other
  effective check that ran before a change is superseded by a fresh pass of its plan step.\<close>

theorem passed_means_fresh_success:
  assumes "StateWithMutations ms checks = Some r" and "r_Status r = ''passed''"
  shows "\<exists>latest eff. Latest (filter (\<lambda>c. \<not> is_file_observation c) checks) = Some latest
     \<and> Latest (filter (\<lambda>c. RelevantMutationAt c ms \<le> c_StartedAt c) latest) = Some eff \<and> eff \<noteq> []
     \<and> (\<forall>c \<in> set eff. c \<in> set checks \<and> \<not> is_file_observation c \<and> c_Status c = ''succeeded''
          \<and> (\<forall>m \<in> set ms. affects m c \<longrightarrow> m_FinishedAt m \<le> c_StartedAt c))
     \<and> (\<forall>c \<in> set latest. RelevantMutationAt c ms \<le> c_StartedAt c
          \<or> stepCheckSupersededByFreshPass c latest (\<lambda>c. RelevantMutationAt c ms))"
proof -
  let ?cs = "filter (\<lambda>c. \<not> is_file_observation c) checks"
  have "state (RelevantMutationAt zero_check ms) ?cs (\<lambda>c. RelevantMutationAt c ms) = Some (''passed'', r_Summary r)"
    using StateWithMutations_state [OF assms(1)] assms(2) by simp
  then obtain latest eff where l: "Latest ?cs = Some latest"
    and e: "Latest (filter (\<lambda>c. RelevantMutationAt c ms \<le> c_StartedAt c) latest) = Some eff" "eff \<noteq> []"
    and s: "\<forall>c \<in> set eff. c_Status c = ''succeeded''"
    and st: "\<forall>c \<in> set latest. RelevantMutationAt c ms \<le> c_StartedAt c
          \<or> stepCheckSupersededByFreshPass c latest (\<lambda>c. RelevantMutationAt c ms)"
    by (rule state_passedD)
  have "c \<in> set ?cs \<and> RelevantMutationAt c ms \<le> c_StartedAt c" if "c \<in> set eff" for c
    using Latest_subset [OF e(1)] Latest_subset [OF l] that by auto
  with l e s st RelevantMutationAt_leD show ?thesis by fastforce
qed

theorem passed_means_fresh_success_witness:
  "\<exists>latest eff. Latest (filter (\<lambda>c. \<not> is_file_observation c) [sample_check ''k1'' ''s'' ''succeeded'' 9 12])
     = Some latest
     \<and> Latest (filter (\<lambda>c. RelevantMutationAt c [\<lparr>m_Path = ''/w/a'', m_FinishedAt = 5\<rparr>] \<le> c_StartedAt c) latest)
         = Some eff \<and> eff \<noteq> []"
proof -
  let ?ms = "[\<lparr>m_Path = ''/w/a'', m_FinishedAt = 5\<rparr>]"
  let ?cs = "[sample_check ''k1'' ''s'' ''succeeded'' 9 12]"
  have "StateWithMutations ?ms ?cs
      = Some \<lparr>r_Status = ''passed'', r_Summary = CurrentPassed 1 0, r_Recheck = [], r_Blockers = []\<rparr>"
    by (simp add: StateWithMutations_def state_def verdict_def Let_def sample_facts)
  from passed_means_fresh_success [OF this] show ?thesis by auto
qed

text \<open>A current effective check that neither succeeded nor was blocked decides the state: the
  run is reported as failed, whatever else passed, is blocked or is stale.\<close>

theorem failing_check_reported:
  assumes "StateWithMutations ms checks = Some r"
    and "Latest (filter (\<lambda>c. \<not> is_file_observation c) checks) = Some latest"
    and "Latest (filter (\<lambda>c. RelevantMutationAt c ms \<le> c_StartedAt c) latest) = Some eff"
    and "c \<in> set eff" and "c_Status c \<noteq> ''succeeded''" and "c_Status c \<noteq> ''blocked''"
  shows "r_Status r = ''failed''"
proof -
  let ?cs = "filter (\<lambda>c. \<not> is_file_observation c) checks"
  let ?cur = "filter (\<lambda>c. RelevantMutationAt c ms \<le> c_StartedAt c) latest"
  have cur: "c \<in> set ?cur" using Latest_subset [OF assms(3)] assms(4) by blast
  then have "?cs \<noteq> []" using Latest_subset [OF assms(2)] by (auto simp: filter_empty_conv)
  then obtain l' where l': "Latest ?cs = Some l'"
    and "(filter (\<lambda>c. RelevantMutationAt c ms \<le> c_StartedAt c) l' = [] \<and> r_Status r = ''stale'')
       \<or> (\<exists>eff. Latest (filter (\<lambda>c. RelevantMutationAt c ms \<le> c_StartedAt c) l') = Some eff
            \<and> (r_Status r, r_Summary r) = verdict (length (filter (\<lambda>c. \<not> RelevantMutationAt c ms \<le> c_StartedAt c
                     \<and> \<not> stepCheckSupersededByFreshPass c l' (\<lambda>c. RelevantMutationAt c ms)) l')) eff)"
    by (rule state_SomeD [OF StateWithMutations_state [OF assms(1)]])
  moreover have "?cur \<noteq> []" using cur by (metis empty_iff empty_set)
  ultimately obtain n where "(r_Status r, r_Summary r) = verdict n eff" using assms(2,3) by auto
  with verdict_failed [OF assms(4-6)] show ?thesis by (metis fst_conv)
qed

theorem failing_check_reported_witness:
  "\<exists>r. StateWithMutations [\<lparr>m_Path = ''/w/a'', m_FinishedAt = 5\<rparr>] [sample_check ''k1'' ''s'' ''failed'' 9 12] = Some r
     \<and> r_Status r = ''failed''"
proof -
  let ?c = "sample_check ''k1'' ''s'' ''failed'' 9 12"
  let ?ms = "[\<lparr>m_Path = ''/w/a'', m_FinishedAt = 5\<rparr>]"
  obtain r where r: "StateWithMutations ?ms [?c] = Some r"
    by (simp add: StateWithMutations_def state_def verdict_def Blockers_def Let_def sample_facts)
  have "r_Status r = ''failed''"
    by (rule failing_check_reported [OF r, of "[?c]" "[?c]" ?c]) (simp_all add: sample_facts)
  with r show ?thesis by blast
qed

definition state_names :: "string list" where
  "state_names = [''not_applicable'', ''not_run'', ''stale'', ''failed'', ''passed'', ''blocked'', ''partial'']"

lemma verdict_name: "fst (verdict stale eff) \<in> set state_names"
  by (auto simp: verdict_def state_names_def Let_def)

lemma state_total:
  assumes "\<forall>c \<in> set checks. c_Binding c \<noteq> None"
  shows "\<exists>st sm. state lm checks aff = Some (st, sm) \<and> st \<in> set state_names"
proof (cases "checks = []")
  case True
  then show ?thesis by (simp add: state_def state_names_def)
next
  case False
  obtain latest where l: "Latest checks = Some latest" using Latest_total [OF assms] by blast
  have "\<forall>c \<in> set (filter (\<lambda>c. aff c \<le> c_StartedAt c) latest). c_Binding c \<noteq> None"
    using Latest_subset [OF l] assms by auto
  then obtain eff where e: "Latest (filter (\<lambda>c. aff c \<le> c_StartedAt c) latest) = Some eff"
    using Latest_total by blast
  let ?n = "length (filter (\<lambda>c. \<not> aff c \<le> c_StartedAt c
              \<and> \<not> stepCheckSupersededByFreshPass c latest aff) latest)"
  have "state lm checks aff =
      (if filter (\<lambda>c. aff c \<le> c_StartedAt c) latest = [] then Some (''stale'', RanBeforeChange)
       else Some (verdict ?n eff))"
    using False l e by (simp add: state_def Let_def)
  then show ?thesis
    using verdict_name [of ?n eff] by (cases "verdict ?n eff") (auto simp: state_names_def)
qed


text \<open>Whenever every recorded check carries a binding, \<^verbatim>\<open>StateWithMutations\<close> returns, with one of
  its seven states.\<close>

theorem state_total_when_bound:
  assumes "\<forall>c \<in> set checks. c_Binding c \<noteq> None"
  shows "\<exists>r. StateWithMutations ms checks = Some r \<and> r_Status r \<in> set state_names"
proof -
  let ?cs = "filter (\<lambda>c. \<not> is_file_observation c) checks"
  have b: "\<forall>c \<in> set ?cs. c_Binding c \<noteq> None" using assms by auto
  obtain st sm where s: "state (RelevantMutationAt zero_check ms) ?cs (\<lambda>c. RelevantMutationAt c ms) = Some (st, sm)"
    and "st \<in> set state_names" using state_total [OF b] by blast
  moreover obtain latest where "Latest ?cs = Some latest" using Latest_total [OF b] by blast
  ultimately show ?thesis by (auto simp: StateWithMutations_def Blockers_def Let_def)
qed

theorem state_total_when_bound_witness:
  "\<exists>r. StateWithMutations [] [sample_check ''k1'' ''s'' ''blocked'' 1 2] = Some r \<and> r_Status r \<in> set state_names"
  by (rule state_total_when_bound) (simp add: sample_facts)

text \<open>C40. A passing plan-step check recorded after a check without a binding makes \<^verbatim>\<open>Latest\<close>
  dereference the nil binding: the call panics instead of returning the effective checks.\<close>

theorem Latest_panics_on_unbound:
  assumes "c_Binding u = None" and "step_bound p" and "c_Status p = ''succeeded''"
    and "c_StartedAt u \<le> c_StartedAt p"
  shows "Latest [u, p] = None"
proof -
  have o: "sort_key c_StartedAt [u, p] = [u, p]" using assms(4) by simp
  have "\<not> CanReplace u x" for x using CanReplaceD(9) [of u x] assms(1) by (auto simp: ValidBinding_def)
  then have r: "mark_replaced [u, p] Map.empty {} = {}"
    using assms(1) by (auto simp: Let_def split: option.splits)
  have u: "latest_step u ([], []) = Some ([(latest_key u, u)], [latest_key u])"
    using assms(1) by (simp add: Let_def step_bound_def ValidBinding_def)
  have "latest_step p ([(latest_key u, u)], [latest_key u]) = None"
    using assms step_bound_StepID by (simp add: Let_def)
  with u show ?thesis unfolding Latest_def o Let_def r by simp
qed

theorem Latest_panics_on_unbound_witness:
  "Latest [zero_check\<lparr>c_ToolCallID := ''k0'', c_Status := ''succeeded''\<rparr>, sample_check ''k1'' ''s'' ''succeeded'' 9 12] = None"
  by (rule Latest_panics_on_unbound) (simp_all add: sample_simps)

text \<open>Which changes make a check stale: \<^verbatim>\<open>RelevantMutationAt\<close> is the time of the last change that
  affects it, 0 without one. Every change affects a check with no valid version 2 or 3 binding; a
  check that declares its inputs, all absolute, is affected exactly by the changes whose path is an
  ancestor or a descendant of a declared or resolved input.\<close>

theorem relevant_mutation_exact:
  "RelevantMutationAt c ms = Max (insert 0 (m_FinishedAt ` {m \<in> set ms. affects m c}))
   \<and> (\<not> declares_inputs c m \<longrightarrow> affects m c)
   \<and> (declares_inputs c m
        \<and> (\<forall>d \<in> set (the (b_LocalDependencies (bnd c)) @ b_ResolvedLocalDependencies (bnd c)). IsAbs d) \<longrightarrow>
      (affects m c \<longleftrightarrow>
        (\<exists>d \<in> set (the (b_LocalDependencies (bnd c)) @ b_ResolvedLocalDependencies (bnd c)).
           prefix (clean_comps d) (clean_comps (m_Path m)) \<or> prefix (clean_comps (m_Path m)) (clean_comps d))))"
  using overlapsPath_abs_iff [of _ "m_Path m"]
  by (auto simp: RelevantMutationAt_Max affects_def declares_inputs_def)

theorem relevant_mutation_exact_witness:
  "affects \<lparr>m_Path = ''/w/a/x'', m_FinishedAt = 5\<rparr> (sample_check ''k1'' ''s'' ''succeeded'' 9 12)"
proof -
  let ?c = "sample_check ''k1'' ''s'' ''succeeded'' 9 12" and ?m = "\<lparr>m_Path = ''/w/a/x'', m_FinishedAt = 5\<rparr>"
  have "declares_inputs ?c ?m \<and> (\<forall>d \<in> set (the (b_LocalDependencies (bnd ?c)) @ b_ResolvedLocalDependencies (bnd ?c)). IsAbs d)"
    by (simp add: declares_inputs_def IsAbs_def sample_simps)
  moreover have "prefix (clean_comps ''/w/a'') (clean_comps (m_Path ?m))"
    by (simp add: clean_comps_def clean_step.simps IsAbs_def)
  ultimately show ?thesis
    using relevant_mutation_exact [of ?c "[]" ?m] by (simp add: sample_check_def zero_check_def)
qed

text \<open>The blocking evidence is complete and bounded: at most four gaps are listed, each names an
  effective check, and none is listed exactly when every effective check is a fresh success or a
  stale check that a fresh pass of its plan step supersedes.\<close>

theorem blockers_complete:
  assumes "Blockers ms checks = Some gs" and "Latest checks = Some latest"
  shows "length gs \<le> 4 \<and> (\<forall>g \<in> set gs. \<exists>c \<in> set latest. g_ID g = c_ToolCallID c)
     \<and> (gs = [] \<longleftrightarrow> (\<forall>c \<in> set latest.
           (RelevantMutationAt c ms \<le> c_StartedAt c \<and> c_Status c = ''succeeded'')
           \<or> (\<not> RelevantMutationAt c ms \<le> c_StartedAt c
               \<and> stepCheckSupersededByFreshPass c latest (\<lambda>c. RelevantMutationAt c ms))))"
proof -
  let ?f = "check_gap latest (\<lambda>c. RelevantMutationAt c ms)"
  have gs: "gs = take 4 (List.map_filter ?f latest)"
    using assms by (simp add: Blockers_def)
  have "\<forall>g \<in> set gs. \<exists>c \<in> set latest. ?f c = Some g"
    unfolding gs by (fastforce simp: List.map_filter_def dest!: in_set_takeD)
  then have ids: "\<forall>g \<in> set gs. \<exists>c \<in> set latest. g_ID g = c_ToolCallID c"
    by (fastforce simp: check_gap_def Let_def split: if_splits)
  have "gs = [] \<longleftrightarrow> (\<forall>c \<in> set latest. ?f c = None)"
    unfolding gs by (auto simp: List.map_filter_def filter_empty_conv)
  also have "\<dots> \<longleftrightarrow> (\<forall>c \<in> set latest.
           (RelevantMutationAt c ms \<le> c_StartedAt c \<and> c_Status c = ''succeeded'')
           \<or> (\<not> RelevantMutationAt c ms \<le> c_StartedAt c
               \<and> stepCheckSupersededByFreshPass c latest (\<lambda>c. RelevantMutationAt c ms)))"
    by (intro ball_cong refl) (auto simp: check_gap_def Let_def)
  finally show ?thesis using ids gs by simp
qed

theorem blockers_complete_witness:
  "\<exists>gs. Blockers [] [sample_check ''k1'' ''s'' ''blocked'' 1 2] = Some gs \<and> length gs \<le> 4 \<and> gs \<noteq> []"
proof -
  obtain gs where g: "Blockers [] [sample_check ''k1'' ''s'' ''blocked'' 1 2] = Some gs"
    by (simp add: Blockers_def sample_facts)
  from blockers_complete [OF g Latest_sample] have "length gs \<le> 4 \<and> gs \<noteq> []"
    by (auto simp: sample_facts RelevantMutationAt_def)
  with g show ?thesis by blast
qed

text \<open>Static file observations carry no weight in the verification state: with or without them
  \<^verbatim>\<open>StateWithMutations\<close> returns the same report, and on their own they verify nothing.\<close>

theorem file_observations_never_verify:
  assumes "\<forall>c \<in> set obs. is_file_observation c"
  shows "StateWithMutations ms (obs @ checks) = StateWithMutations ms checks
     \<and> (\<forall>r. StateWithMutations ms obs = Some r \<longrightarrow> r_Status r \<in> {''not_applicable'', ''not_run''})"
proof -
  have none: "filter (\<lambda>c. \<not> is_file_observation c) obs = []" using assms by simp
  have "StateWithMutations ms (obs @ checks) = StateWithMutations ms checks"
    using none by (simp add: StateWithMutations_def del: filter_False)
  moreover have "r_Status r \<in> {''not_applicable'', ''not_run''}" if "StateWithMutations ms obs = Some r" for r
    using StateWithMutations_state [OF that] unfolding none by (auto simp: state_def split: if_splits)
  ultimately show ?thesis by blast
qed

definition sample_file_check :: check where
  "sample_file_check = (sample_check ''f1'' ''s'' ''succeeded'' 9 12)\<lparr>c_Observation :=
     Some \<lparr>o_Kind = ''file'', o_Target = ''a'', o_CWD = [], o_LocalDependencies = None,
       o_ResolvedLocalDependencies = [], o_UnresolvedLocalDependencies = [], o_Offset = 0, o_Limit = 0\<rparr>\<rparr>"

theorem file_observations_never_verify_witness:
  "\<exists>r. StateWithMutations [] [sample_file_check] = Some r \<and> r_Status r \<in> {''not_applicable'', ''not_run''}"
proof -
  have f: "\<forall>c \<in> set [sample_file_check]. is_file_observation c"
    by (simp add: sample_file_check_def is_file_observation_def)
  have "\<exists>r. StateWithMutations [] [sample_file_check] = Some r"
    using f by (simp add: StateWithMutations_def state_def Blockers_def RelevantMutationAt_def Latest_def Let_def)
  with file_observations_never_verify [OF f, of "[]" "[]"] show ?thesis by blast
qed

section \<open>Dispatch facts and issues\<close>

text \<open>A check counts as succeeded after its dispatch facts are applied exactly when the tool
  reported success, nothing says it was not dispatched, and, where a process fact exists, the
  process started and exited with 0.\<close>

theorem dispatch_facts_success_iff:
  "c_Status (WithDispatchFacts c e) = ''succeeded'' \<longleftrightarrow>
      c_Status c = ''succeeded'' \<and> c_Invoked c \<noteq> Some False \<and> c_EffectState c \<noteq> ''not_dispatched''
      \<and> (case c_ProcessStarted c of None \<Rightarrow> c_Invoked c = None \<and> c_EffectState c = []
          | Some started \<Rightarrow> started \<and> e = Some 0)"
  by (cases "c_ProcessStarted c"; cases e) (auto simp: WithDispatchFacts_def Let_def)

lemma observationIssue_None_iff:
  "observationIssue ref c ms = None \<longleftrightarrow>
     c_Invoked c = Some True
     \<and> ((is_file_observation c \<and> c_Status c = ''succeeded'')
         \<or> (c_ProcessStarted c = Some True \<and> 0 \<le> c_ExitCode c))
     \<and> c_Status c \<noteq> ''blocked'' \<and> c_EffectState c \<noteq> ''unknown'' \<and> c_EffectState c \<noteq> ''not_dispatched''
     \<and> RelevantMutationAt c ms \<le> c_StartedAt c"
  by (auto simp: observationIssue_def Let_def not_less)

text \<open>The issues a list of findings leaves: the first eight distinct ones, the rest counted.\<close>

definition distinct_first :: "'a list \<Rightarrow> 'a list" where
  "distinct_first xs = rev (remdups (rev xs))"

lemma distinct_first_snoc:
  "distinct_first (xs @ [x]) = (if x \<in> set xs then distinct_first xs else distinct_first xs @ [x])"
  by (simp add: distinct_first_def)

lemma set_distinct_first [simp]: "set (distinct_first xs) = set xs"
  by (simp add: distinct_first_def)

lemma in_take_or_long: "x \<in> set xs \<Longrightarrow> x \<notin> set (take n xs) \<Longrightarrow> n < length xs"
  by (metis not_le take_all)

text \<open>Collected issues are bounded and lose nothing silently: after any sequence of findings the
  error lists the first eight distinct issues in order, and counts every finding it does not list.\<close>

theorem issues_bounded_and_counted:
  "is_Issues (foldl add_issue \<lparr>is_Issues = [], is_Omitted = 0\<rparr> xs) = take 8 (distinct_first xs)
   \<and> is_Omitted (foldl add_issue \<lparr>is_Issues = [], is_Omitted = 0\<rparr> xs)
       = length (filter (\<lambda>x. x \<notin> set (take 8 (distinct_first xs))) xs)"
proof (induction xs rule: rev_induct)
  case Nil
  then show ?case by (simp add: distinct_first_def)
next
  case (snoc x xs)
  let ?e = "foldl add_issue \<lparr>is_Issues = [], is_Omitted = 0\<rparr> xs"
  let ?k = "take 8 (distinct_first xs)"
  consider (listed) "x \<in> set ?k" | (dropped) "x \<notin> set ?k" "8 \<le> length (distinct_first xs)"
    | (new) "x \<notin> set xs" "length (distinct_first xs) < 8"
    using in_take_or_long [of x "distinct_first xs" 8] by fastforce
  then show ?case
  proof cases
    case listed
    then have "x \<in> set xs" using in_set_takeD by fastforce
    with listed snoc show ?thesis by (simp add: add_issue_def distinct_first_snoc)
  next
    case dropped
    then show ?thesis using snoc by (auto simp: add_issue_def distinct_first_snoc)
  next
    case new
    then have "distinct_first (xs @ [x]) = distinct_first xs @ [x]" by (simp add: distinct_first_snoc)
    with new snoc show ?thesis by (auto simp: add_issue_def filter_empty_conv)
  qed
qed

theorem replaced_check_not_effective_witness:
  "sample_check ''k1'' ''s'' ''failed'' 1 2 \<notin> set (the (Latest [sample_check ''k1'' ''s'' ''failed'' 1 2,
     (sample_check ''k2'' ''s'' ''succeeded'' 5 6)\<lparr>c_Binding := Some ((bnd (sample_check ''k2'' ''s'' ''succeeded'' 5 6))
        \<lparr>b_Replaces := ''k1'', b_Reason := ''r''\<rparr>)\<rparr>]))"
proof -
  let ?old = "sample_check ''k1'' ''s'' ''failed'' 1 2"
  let ?new = "(sample_check ''k2'' ''s'' ''succeeded'' 5 6)\<lparr>c_Binding := Some ((bnd (sample_check ''k2'' ''s'' ''succeeded'' 5 6))
        \<lparr>b_Replaces := ''k1'', b_Reason := ''r''\<rparr>)\<rparr>"
  have can: "CanReplace ?old ?new"
    by (simp add: CanReplace_def ReplacementMismatch_def sample_simps)
  obtain out where out: "Latest [?old, ?new] = Some out"
    using Latest_total [of "[?old, ?new]"] by (auto simp: sample_check_def)
  have "?old \<notin> set out"
    by (rule replaced_check_not_effective [OF out _ _ _ _ can]) (simp_all add: sample_simps)
  with out show ?thesis by simp
qed

end
