(* ===== verification/Assessment.thy ===== *)
theory Assessment
  imports Evidence
begin

text \<open>
  Condition assessments of \<^verbatim>\<open>internal/verification\<close> (\<^verbatim>\<open>assessment.go\<close>, \<^verbatim>\<open>assessment_binding.go\<close>): the
  findings the main agent submits are resolved to the checks they stand on (\<open>assessmentChecks\<close>) and
  projected to recorded conditions, blockers and a review verdict (\<open>ProjectAssessments\<close>).

  The outer \<^typ>\<open>'a option\<close> is the panic of \<^const>\<open>Latest\<close> or of a nil check; an \<^verbatim>\<open>error\<close> result is the
  left side of the sum, an \<open>assess_error\<close> that carries what the message quotes.
\<close>

section \<open>Data\<close>

record assessment =
  a_Result :: string
  a_EvidenceRefs :: "string list"
  a_Reason :: string
  a_Version :: int
  a_RunID :: string
  a_StepID :: string
  a_Criterion :: string
  a_Target :: string
  a_CWD :: string
  a_PlanCriterion :: string
  a_Source :: "check_source option"

record citeable =
  ce_ID :: string
  ce_StepID :: string
  ce_Target :: string

record requirement =
  rq_Criterion :: string
  rq_PositiveRequired :: bool

datatype blocker = Undetermined string | RequiredNotMet string

record projection =
  p_State :: string
  p_Conditions :: "assessment list"
  p_Blockers :: "blocker list"
  p_ReviewComplete :: bool

datatype assess_error =
    HistoryTooLong
  | BadResult nat
  | BadReason nat
  | UnsupportedVersion int
  | RuntimeOwnedSource
  | StepHasNoObservation string
  | TooManyObservations string
  | StepOrRefsNotBoth
  | NeedsStepOrRefs
  | AdoptedWithoutSource
  | UnsupportedSource
  | AdoptedAmbiguous string
  | AdoptedGone string string
  | RecordedAmbiguous string string
  | EvidenceUnavailable string string "citeable list"
  | IDAmbiguous string
  | NoBoundIdentity
  | MixesConditions nat
  | MoreThanOneAssessment string
  | StaticCannotProve string
  | RepeatsCondition nat
  | StepNotInPlan string
  | RecordedMismatch
  | UnusableEvidence issues

type_synonym evidence_map = "(string \<times> check) list"
type_synonym requirements = "string \<rightharpoonup> requirement"

section \<open>Current evidence\<close>

text \<open>\<^verbatim>\<open>unusableEvidence\<close> is empty exactly when \<^const>\<open>observationIssue\<close> finds none.\<close>

definition citeableEvidence :: "evidence_map \<Rightarrow> mutation list \<Rightarrow> citeable list" where
  "citeableEvidence byID mutations =
     sort_key ce_ID (map (\<lambda>(ident, check). \<lparr>ce_ID = ident, ce_StepID = b_StepID (bnd check), ce_Target = b_Target (bnd check)\<rparr>)
       (filter (\<lambda>(ident, check). ValidBinding (c_Binding check) \<and> observationIssue ident check mutations = None) byID))"

record evidence_scan =
  e_byID :: evidence_map
  e_sources :: "string \<rightharpoonup> check"
  e_ambiguous :: "string set"

definition scan_evidence :: "check \<Rightarrow> evidence_scan \<Rightarrow> assess_error + evidence_scan" where
  "scan_evidence check st =
     (if c_Source check \<noteq> None \<or> c_ToolCallID check = [] then Inr st
      else (let ident = c_ToolCallID check;
                marked = (case e_sources st ident of
                    Some prior \<Rightarrow>
                      if \<not> sameObservedFact prior check then Inl (IDAmbiguous ident)
                      else Inr (st\<lparr>e_ambiguous := insert ident (e_ambiguous st), e_byID := AList.delete ident (e_byID st)\<rparr>)
                  | None \<Rightarrow> Inr (st\<lparr>e_sources := (e_sources st)(ident \<mapsto> check)\<rparr>))
            in case marked of Inl e \<Rightarrow> Inl e | Inr st \<Rightarrow>
                 Inr (if ident \<notin> e_ambiguous st then st\<lparr>e_byID := AList.update ident check (e_byID st)\<rparr> else st)))"

definition currentEvidenceByID :: "check list \<Rightarrow> (assess_error + evidence_map) option" where
  "currentEvidenceByID checks = do {
     latest \<leftarrow> Latest checks;
     Some (case foldm scan_evidence latest \<lparr>e_byID = [], e_sources = Map.empty, e_ambiguous = {}\<rparr> of
             Inl e \<Rightarrow> Inl e | Inr st \<Rightarrow> Inr (e_byID st))
   }"

definition CiteableChecks :: "check list \<Rightarrow> mutation list \<Rightarrow> (assess_error + citeable list) option" where
  "CiteableChecks checks mutations = do {
     r \<leftarrow> currentEvidenceByID checks;
     Some (case r of Inl e \<Rightarrow> Inl e | Inr byID \<Rightarrow> Inr (citeableEvidence byID mutations))
   }"

definition filterSupersededStaleStepChecks :: "check list \<Rightarrow> mutation list \<Rightarrow> check list option" where
  "filterSupersededStaleStepChecks checks mutations = do {
     latest \<leftarrow> Latest checks;
     let affectedAt = (\<lambda>c. RelevantMutationAt c mutations);
     let superseded = ownReference ` {c \<in> set latest. c_StartedAt c < affectedAt c
                         \<and> stepCheckSupersededByFreshPass c latest affectedAt};
     Some (filter (\<lambda>c. ownReference c \<notin> superseded) checks)
   }"

definition sameStepAssessmentObligation :: "check \<Rightarrow> check \<Rightarrow> bool \<Rightarrow> bool" where
  "sameStepAssessmentObligation first check explicitRefs =
     (if b_StepID (bnd check) \<noteq> b_StepID (bnd first) \<or> \<not> sameAssessmentSource (c_Source check) (c_Source first)
      then False
      else if b_StepID (bnd first) = [] \<and> c_CWD check \<noteq> c_CWD first then False
      else if b_Criterion (bnd check) = b_Criterion (bnd first) \<and> b_Target (bnd check) = b_Target (bnd first) then True
      else if b_StepID (bnd first) = [] then False
      else if explicitRefs \<or> b_Target (bnd check) = b_Target (bnd first) then True
      else b_Target (bnd first) = b_StepID (bnd first) \<or> b_Target (bnd check) = b_StepID (bnd check))"

definition assessmentReference :: "check \<Rightarrow> string \<Rightarrow> string" where
  "assessmentReference check ident =
     (let key = checkReference check ident in
      case (c_Observation check, c_Binding check) of
        (Some _, Some b) \<Rightarrow> key @ NUL @ b_StepID b
      | _ \<Rightarrow> key)"

section \<open>Resolving references\<close>

definition narrowStepChecksToCitedSubset ::
  "check list \<Rightarrow> string \<Rightarrow> string list \<Rightarrow> assessment list \<Rightarrow> check list" where
  "narrowStepChecksToCitedSubset selected result refs input =
     (if length selected \<le> 1 \<or> refs = [] then selected
      else (let subset = filter (\<lambda>c. c_ToolCallID c \<noteq> [] \<and> c_ToolCallID c \<in> set refs) selected in
        if subset = [] \<or> length subset = length selected then selected
        else (let cited = (\<lambda>ref. \<exists>peer \<in> set input. a_Result peer = result \<and> ref \<in> set (a_EvidenceRefs peer))
              in if \<exists>c \<in> set selected. c_ToolCallID c = [] \<or> \<not> cited (c_ToolCallID c) then selected else subset)))"

definition isEarlierSameStepAttempt :: "string \<Rightarrow> check \<Rightarrow> check list \<Rightarrow> bool" where
  "isEarlierSameStepAttempt ref active checks =
     (if ref = [] \<or> \<not> ValidBinding (c_Binding active) \<or> b_Version (bnd active) \<noteq> 3 \<or> c_Source active \<noteq> None then False
      else (\<exists>c \<in> set checks. c_ToolCallID c = ref \<and> c_Source c = None \<and> ValidBinding (c_Binding c)
              \<and> b_Version (bnd c) = 3 \<and> b_StepID (bnd c) = b_StepID (bnd active)
              \<and> (b_Target (bnd c) = b_Target (bnd active)
                 \<or> (b_StepID (bnd active) \<noteq> [] \<and> (b_Target (bnd c) = b_StepID (bnd c)
                                              \<or> b_Target (bnd active) = b_StepID (bnd active))))
              \<and> (b_StepID (bnd active) \<noteq> []
                 \<or> (b_Criterion (bnd c) = b_Criterion (bnd active) \<and> c_CWD c = c_CWD active))))"

text \<open>The check a reference names in the current evidence, if its binding is valid.\<close>

definition current_check :: "evidence_map \<Rightarrow> string \<Rightarrow> check option" where
  "current_check current ref =
     (case map_of current ref of Some c \<Rightarrow> if ValidBinding (c_Binding c) then Some c else None | None \<Rightarrow> None)"

text \<open>The resolved checks, one per call id, and the references without one.\<close>

fun split_refs :: "evidence_map \<Rightarrow> string list \<Rightarrow> string set \<Rightarrow> check list \<times> string list" where
  "split_refs current [] seen = ([], [])"
| "split_refs current (ref # refs) seen =
     (case current_check current ref of
        Some c \<Rightarrow>
          (if c_ToolCallID c \<in> seen then split_refs current refs seen
           else (let (res, mis) = split_refs current refs (insert (c_ToolCallID c) seen) in (c # res, mis)))
      | None \<Rightarrow> (let (res, mis) = split_refs current refs seen in (res, ref # mis)))"

definition resolveCurrentStepEvidenceRefs ::
  "string list \<Rightarrow> check list \<Rightarrow> evidence_map \<Rightarrow> check list option" where
  "resolveCurrentStepEvidenceRefs refs checks current =
     (if refs = [] \<or> length refs > 8 then None
      else (let (resolved, missing) = split_refs current refs {} in
        case resolved of [] \<Rightarrow> None | first # rest \<Rightarrow>
          if \<exists>c \<in> set rest. b_StepID (bnd c) \<noteq> b_StepID (bnd first) \<or> \<not> sameAssessmentSource (c_Source c) (c_Source first)
               \<or> (b_StepID (bnd first) = [] \<and> (c_CWD c \<noteq> c_CWD first \<or> b_Criterion (bnd c) \<noteq> b_Criterion (bnd first)
                                            \<or> b_Target (bnd c) \<noteq> b_Target (bnd first)))
          then None
          else if \<exists>ref \<in> set missing. \<not> isEarlierSameStepAttempt ref first checks then None
          else Some resolved))"

definition compatibleStepEvidenceRefs ::
  "check list \<Rightarrow> string list \<Rightarrow> check list \<Rightarrow> evidence_map \<Rightarrow> bool" where
  "compatibleStepEvidenceRefs selected refs checks current =
     (if selected = [] \<or> refs = [] \<or> length refs > 8 then False
      else (let first = hd selected in
        if \<not> ValidBinding (c_Binding first) then False
        else if \<exists>c \<in> set selected. \<not> ValidBinding (c_Binding c) \<or> b_StepID (bnd c) \<noteq> b_StepID (bnd first)
                  \<or> (b_StepID (bnd first) = [] \<and> c_CWD c \<noteq> c_CWD first)
                  \<or> \<not> sameAssessmentSource (c_Source c) (c_Source first)
        then False
        else (let uniform = (\<forall>c \<in> set selected. sameStepAssessmentObligation c first False);
                  byCallID = c_ToolCallID ` {c \<in> set selected. c_ToolCallID c \<noteq> []};
                  known = (\<lambda>ref. ref \<in> byCallID \<or> isEarlierSameStepAttempt ref first checks)
              in (\<forall>ref \<in> set refs. known ref \<or> current_check current ref \<noteq> None)
                 \<and> (\<exists>ref \<in> set refs. known ref \<or> (current_check current ref \<noteq> None \<and> c_Source first \<noteq> None))
                 \<and> (uniform \<or> byCallID \<subseteq> set refs))))"

fun split_mixed :: "evidence_map \<Rightarrow> string list \<Rightarrow> string set \<Rightarrow> (check list \<times> string list) option" where
  "split_mixed current [] seen = Some ([], [])"
| "split_mixed current (ref # refs) seen =
     (if ref \<in> seen then None
      else (case split_mixed current refs (insert ref seen) of
              None \<Rightarrow> None
            | Some (kept, missing) \<Rightarrow>
                (case current_check current ref of
                   Some c \<Rightarrow> Some (c # kept, missing)
                 | None \<Rightarrow> Some (kept, ref # missing))))"

definition resolveUnsteppedMixedEvidenceRefs ::
  "string list \<Rightarrow> check list \<Rightarrow> evidence_map \<Rightarrow> check list option" where
  "resolveUnsteppedMixedEvidenceRefs refs allChecks current =
     (case split_mixed current refs {} of
        None \<Rightarrow> None
      | Some (kept, missing) \<Rightarrow>
          (case kept of
             [] \<Rightarrow> None
           | first # rest \<Rightarrow>
               if missing = [] \<or> b_StepID (bnd first) = [] then None
               else if \<exists>c \<in> set rest. b_StepID (bnd c) \<noteq> b_StepID (bnd first) \<or> \<not> sameAssessmentSource (c_Source c) (c_Source first)
               then None
               else if \<exists>ref \<in> set missing. \<not> isEarlierSameStepAttempt ref first allChecks
                         \<and> (\<exists>c \<in> set allChecks. c_Source c = None \<and> c_ToolCallID c = ref)
               then None
               else Some kept))"


text \<open>One reference of a recorded finding among the effective checks: absent, unique or ambiguous.\<close>

definition unique_check :: "(check \<Rightarrow> bool) \<Rightarrow> check list \<Rightarrow> assess_error \<Rightarrow> assess_error \<Rightarrow> assess_error + check" where
  "unique_check P latest absent ambiguous =
     (case filter P latest of [] \<Rightarrow> Inl absent | [c] \<Rightarrow> Inr c | _ \<Rightarrow> Inl ambiguous)"

definition resolve_ref :: "assessment \<Rightarrow> check list \<Rightarrow> evidence_map \<Rightarrow> string \<Rightarrow> (assess_error + check) option" where
  "resolve_ref a checks current ref =
     (if a_Version a = 2 then
        do { latest \<leftarrow> Latest checks;
             Some (unique_check (\<lambda>c. c_ToolCallID c = ref \<and> c_Binding c \<noteq> None \<and> b_StepID (bnd c) = a_StepID a
                                    \<and> sameAssessmentSource (c_Source c) (a_Source a))
                     latest (AdoptedGone ref (a_StepID a)) (AdoptedAmbiguous ref)) }
      else if a_Version a = 1 \<and> a_StepID a \<noteq> [] then
        do { latest \<leftarrow> Latest checks;
             Some (unique_check (\<lambda>c. c_Source c = None \<and> c_ToolCallID c = ref \<and> ValidBinding (c_Binding c)
                                    \<and> b_StepID (bnd c) = a_StepID a)
                     latest (EvidenceUnavailable ref [] []) (RecordedAmbiguous ref (a_StepID a))) }
      else Some (case current_check current ref of
                   None \<Rightarrow> Inl (EvidenceUnavailable ref [] []) | Some c \<Rightarrow> Inr c))"

fun resolve_refs :: "assessment \<Rightarrow> check list \<Rightarrow> evidence_map \<Rightarrow> string list \<Rightarrow> (assess_error + check list) option" where
  "resolve_refs a checks current [] = Some (Inr [])"
| "resolve_refs a checks current (ref # refs) = do {
     r \<leftarrow> resolve_ref a checks current ref;
     (case r of Inl e \<Rightarrow> Some (Inl e)
      | Inr c \<Rightarrow> do {
          rest \<leftarrow> resolve_refs a checks current refs;
          Some (case rest of Inl e \<Rightarrow> Inl e | Inr cs \<Rightarrow> Inr (c # cs)) })
   }"

text \<open>The branch for a new finding that names a plan step.\<close>

definition select_checks :: "assessment \<Rightarrow> check list \<Rightarrow> check list \<Rightarrow> evidence_map \<Rightarrow> requirements \<Rightarrow> check list" where
  "select_checks a latest allChecks current requirements =
     (let bound = filter (\<lambda>c. ValidBinding (c_Binding c) \<and> b_StepID (bnd c) = a_StepID a) latest in
      if bound = [] \<and> a_EvidenceRefs a \<noteq> [] \<and> length (a_EvidenceRefs a) \<le> 8 \<and> requirements (a_StepID a) \<noteq> None
      then (case resolveCurrentStepEvidenceRefs (a_EvidenceRefs a) allChecks current of
              Some resolved \<Rightarrow> resolved | None \<Rightarrow> [])
      else bound)"

definition step_checks :: "assessment \<Rightarrow> assessment list \<Rightarrow> check list \<Rightarrow> check list \<Rightarrow> evidence_map
    \<Rightarrow> requirements \<Rightarrow> (assess_error + check list) option" where
  "step_checks a input checks allChecks current requirements = do {
     latest \<leftarrow> Latest checks;
     let selected = select_checks a latest allChecks current requirements;
     (if selected = [] then Some (Inl (StepHasNoObservation (a_StepID a)))
      else (let selected = narrowStepChecksToCitedSubset selected (a_Result a) (a_EvidenceRefs a) input in
        if length selected > 8 then Some (Inl (TooManyObservations (a_StepID a)))
        else if a_EvidenceRefs a \<noteq> [] \<and> \<not> compatibleStepEvidenceRefs selected (a_EvidenceRefs a) allChecks current
        then Some (Inl StepOrRefsNotBoth)
        else Some (Inr (sort_key ownReference selected))))
   }"

definition assessmentChecks :: "assessment \<Rightarrow> assessment list \<Rightarrow> check list \<Rightarrow> check list \<Rightarrow> evidence_map
    \<Rightarrow> requirements \<Rightarrow> (assess_error + check list) option" where
  "assessmentChecks a input checks allChecks current requirements =
     (if a_Version a < 0 \<or> a_Version a > 2 then Some (Inl (UnsupportedVersion (a_Version a)))
      else if a_Version a = 0 \<and> a_Source a \<noteq> None then Some (Inl RuntimeOwnedSource)
      else if a_Version a = 0 \<and> a_StepID a \<noteq> [] then step_checks a input checks allChecks current requirements
      else if a_EvidenceRefs a = [] \<or> length (a_EvidenceRefs a) > 8 then Some (Inl NeedsStepOrRefs)
      else (case (if a_Version a = 0 \<and> a_StepID a = [] \<and> length (a_EvidenceRefs a) > 1
                  then resolveUnsteppedMixedEvidenceRefs (a_EvidenceRefs a) allChecks current else None) of
              Some resolved \<Rightarrow> Some (Inr resolved)
            | None \<Rightarrow>
                if a_Version a = 2 \<and> (case a_Source a of None \<Rightarrow> True | Some s \<Rightarrow>
                     a_StepID a = [] \<or> s_RunID s = [] \<or> s_StepID s = [] \<or> s_PlanVersion s < 1)
                then Some (Inl AdoptedWithoutSource)
                else if a_Version a \<noteq> 2 \<and> a_Source a \<noteq> None then Some (Inl UnsupportedSource)
                else resolve_refs a checks current (a_EvidenceRefs a)))"

section \<open>Redundant findings\<close>

definition resolveRefStepID :: "string \<Rightarrow> check list \<Rightarrow> evidence_map \<Rightarrow> string" where
  "resolveRefStepID ref checks current =
     (case current_check current ref of
        Some c \<Rightarrow> b_StepID (bnd c)
      | None \<Rightarrow>
          (case find (\<lambda>c. c_ToolCallID c = ref \<and> ValidBinding (c_Binding c) \<and> b_StepID (bnd c) \<noteq> []) checks of
             Some c \<Rightarrow> b_StepID (bnd c) | None \<Rightarrow> []))"

definition peerResolvesToAnyStep :: "assessment \<Rightarrow> check list \<Rightarrow> evidence_map \<Rightarrow> bool" where
  "peerResolvesToAnyStep peer checks current =
     (\<exists>ref \<in> set (a_EvidenceRefs peer). resolveRefStepID ref checks current \<noteq> [])"

definition peerResolvesToStep :: "assessment \<Rightarrow> string \<Rightarrow> check list \<Rightarrow> evidence_map \<Rightarrow> bool" where
  "peerResolvesToStep peer stepID checks current =
     (stepID \<noteq> [] \<and> (let steps = filter (\<lambda>s. s \<noteq> []) (map (\<lambda>ref. resolveRefStepID ref checks current) (a_EvidenceRefs peer))
        in steps \<noteq> [] \<and> (\<forall>s \<in> set steps. s = stepID)))"

definition isSecondaryNoteOnAssessedStep ::
  "nat \<Rightarrow> assessment \<Rightarrow> assessment list \<Rightarrow> check list \<Rightarrow> evidence_map \<Rightarrow> bool" where
  "isSecondaryNoteOnAssessedStep index a input checks current =
     (if length input \<le> 1 \<or> a_Version a \<noteq> 0 \<or> a_StepID a \<noteq> [] \<or> length (a_EvidenceRefs a) > 8 then False
      else if a_EvidenceRefs a = [] then
        (if a_Result a \<noteq> ''met'' \<and> a_Result a \<noteq> ''unknown'' \<and> a_Result a \<noteq> ''not_met'' then False
         else (\<exists>(j, peer) \<in> set (enumerate 0 input). j \<noteq> index \<and> a_Result peer = ''met''
                 \<and> (a_StepID peer \<noteq> [] \<or> peerResolvesToAnyStep peer checks current)))
      else (\<forall>ref \<in> set (a_EvidenceRefs a).
             (let stepID = resolveRefStepID ref checks current in
              stepID \<noteq> [] \<and> (\<exists>(j, peer) \<in> set (enumerate 0 input). j \<noteq> index \<and> a_Result peer = ''met''
                 \<and> (a_StepID peer = stepID
                    \<or> (j < index \<and> a_StepID peer = [] \<and> peerResolvesToStep peer stepID checks current))))))"

definition isSubsetStringSlice :: "string list \<Rightarrow> string list \<Rightarrow> bool" where
  "isSubsetStringSlice sub super = (sub \<noteq> [] \<and> length sub \<le> length super \<and> set sub \<subseteq> set super)"

definition isRedundantSubsetOfRecordedCondition ::
  "string \<Rightarrow> check_source option \<Rightarrow> string list \<Rightarrow> assessment list \<Rightarrow> bool" where
  "isRedundantSubsetOfRecordedCondition result source refs recorded =
     (refs \<noteq> [] \<and> (\<exists>prev \<in> set recorded. a_Result prev = result \<and> sameAssessmentSource (a_Source prev) source
        \<and> isSubsetStringSlice refs (a_EvidenceRefs prev)))"

definition peerCoversCheckOrRef :: "nat \<Rightarrow> string \<Rightarrow> check \<Rightarrow> assessment list \<Rightarrow> bool" where
  "peerCoversCheckOrRef index ref c input =
     (\<exists>(j, peer) \<in> set (enumerate 0 input). j \<noteq> index \<and> a_Result peer = ''met''
        \<and> ((a_StepID peer \<noteq> [] \<and> ValidBinding (c_Binding c) \<and> a_StepID peer = b_StepID (bnd c))
           \<or> ref \<in> set (a_EvidenceRefs peer)))"

text \<open>The loop over the references of a summary; the effective checks are read only for a reference
  that the current evidence does not hold.\<close>

fun summary_refs :: "nat \<Rightarrow> assessment list \<Rightarrow> check list \<Rightarrow> evidence_map \<Rightarrow> string list \<Rightarrow> bool option" where
  "summary_refs index input checks current [] = Some True"
| "summary_refs index input checks current (ref # refs) =
     (let covered = (\<lambda>c. if peerCoversCheckOrRef index ref c input \<or> peerCoversCheckOrRef index (c_ToolCallID c) c input
                        then summary_refs index input checks current refs else Some False)
      in case current_check current ref of
           Some c \<Rightarrow> covered c
         | None \<Rightarrow> do {
             latest \<leftarrow> Latest checks;
             (case find (\<lambda>latestCheck. isEarlierSameStepAttempt ref latestCheck checks) latest of
                None \<Rightarrow> Some False | Some c \<Rightarrow> covered c)
           })"

definition isRedundantStepSummary :: "nat \<Rightarrow> assessment \<Rightarrow> assessment list \<Rightarrow> check list \<Rightarrow> evidence_map
    \<Rightarrow> requirements \<Rightarrow> bool option" where
  "isRedundantStepSummary index a input checks current requirements =
     (if length input \<le> 1 \<or> a_Version a \<noteq> 0 \<or> a_Result a \<noteq> ''met'' \<or> length (a_EvidenceRefs a) > 8 then Some False
      else if a_StepID a = [] \<and> a_EvidenceRefs a = [] then
        Some (current \<noteq> [] \<and> (\<forall>(ident, c) \<in> set current. ValidBinding (c_Binding c) \<and> peerCoversCheckOrRef index ident c input))
      else if a_EvidenceRefs a = [] then Some False
      else if a_StepID a = [] then summary_refs index input checks current (a_EvidenceRefs a)
      else if requirements (a_StepID a) = None then Some False
      else do {
        latest \<leftarrow> Latest checks;
        (if \<exists>c \<in> set latest. ValidBinding (c_Binding c) \<and> b_StepID (bnd c) = a_StepID a then Some False
         else summary_refs index input checks current (a_EvidenceRefs a))
      })"

section \<open>The projection\<close>

text \<open>What one call of \<^verbatim>\<open>ProjectAssessments\<close> reads, and the variables its main loop updates.\<close>

record actx =
  x_runID :: string
  x_input :: "assessment list"
  x_checks :: "check list"
  x_allChecks :: "check list"
  x_byID :: evidence_map
  x_mutations :: "mutation list"
  x_requirements :: requirements

type_synonym condition_identity = "string \<times> string \<times> string \<times> string"

record pstate =
  ps_out :: projection
  ps_covered :: "string \<Rightarrow> bool"
  ps_seen :: "string set"
  ps_conditions :: "condition_identity \<rightharpoonup> assessment"
  ps_issues :: issues

text \<open>The inner loop over the checks a finding stands on.\<close>

record bstate =
  bs_first :: "check option"
  bs_refs :: "string list"
  bs_localSeen :: "string list"
  bs_duplicateRef :: string
  bs_invalid :: bool
  bs_issues :: issues

definition bound_step :: "nat \<Rightarrow> bool \<Rightarrow> mutation list \<Rightarrow> string set \<Rightarrow> check \<Rightarrow> bstate \<Rightarrow> assess_error + bstate" where
  "bound_step i explicitRefs mutations seen check bs =
     (let ref = c_ToolCallID check in
      if ref = [] \<or> \<not> ValidBinding (c_Binding check) then Inl NoBoundIdentity
      else (case observationIssue ref check mutations of
        Some issue \<Rightarrow> Inr (bs\<lparr>bs_issues := add_issue (bs_issues bs) issue, bs_invalid := True\<rparr>)
      | None \<Rightarrow>
          if (case bs_first bs of None \<Rightarrow> False | Some first \<Rightarrow> \<not> sameStepAssessmentObligation first check explicitRefs)
          then Inl (MixesConditions i)
          else (let key = assessmentReference check ref in
            if key \<in> set (bs_localSeen bs) then Inl (MoreThanOneAssessment ref)
            else Inr (bs\<lparr>bs_first := (case bs_first bs of None \<Rightarrow> Some check | f \<Rightarrow> f),
                         bs_localSeen := bs_localSeen bs @ [key],
                         bs_duplicateRef := (if key \<in> seen \<and> bs_duplicateRef bs = [] then ref else bs_duplicateRef bs),
                         bs_refs := bs_refs bs @ [ref]\<rparr>))))"

text \<open>\<^verbatim>\<open>out.State\<close> after a result: not met dominates unknown, which dominates met.\<close>

definition next_state :: "string \<Rightarrow> string \<Rightarrow> string" where
  "next_state st result =
     (if st = ''unassessed'' \<or> result = ''not_met'' \<or> (result = ''unknown'' \<and> st \<noteq> ''not_met'') then result else st)"

text \<open>The first recorded condition that the merged finding belongs to gets the merged references.\<close>

fun merge_condition :: "assessment \<Rightarrow> string list \<Rightarrow> assessment list \<Rightarrow> assessment list" where
  "merge_condition prev refs [] = []"
| "merge_condition prev refs (c # cs) =
     (if a_StepID c = a_StepID prev \<and> a_Criterion c = a_Criterion prev \<and> a_Target c = a_Target prev
         \<and> a_CWD c = a_CWD prev \<and> sameAssessmentSource (a_Source c) (a_Source prev)
      then c\<lparr>a_EvidenceRefs := refs\<rparr> # cs else c # merge_condition prev refs cs)"

definition cover_keys :: "string list \<Rightarrow> string \<Rightarrow> pstate \<Rightarrow> pstate" where
  "cover_keys keys result ps =
     ps\<lparr>ps_seen := ps_seen ps \<union> set keys,
        ps_covered := (\<lambda>k. if k \<in> set keys then result \<noteq> ''unknown'' else ps_covered ps k)\<rparr>"

text \<open>The unavailable reference of an error, completed with what can be cited instead.\<close>

fun select_step :: "check list \<Rightarrow> string \<Rightarrow> string \<Rightarrow> bool \<Rightarrow> string \<times> bool" where
  "select_step [] ref selected ambiguous = (selected, ambiguous)"
| "select_step (c # cs) ref selected ambiguous =
     (if c_Source c = None \<and> c_ToolCallID c = ref \<and> ValidBinding (c_Binding c)
      then select_step cs ref (b_StepID (bnd c))
             (ambiguous \<or> (selected \<noteq> [] \<and> selected \<noteq> b_StepID (bnd c)))
      else select_step cs ref selected ambiguous)"

definition complete_error :: "actx \<Rightarrow> assessment \<Rightarrow> assess_error \<Rightarrow> assess_error" where
  "complete_error x a e = (case e of
     EvidenceUnavailable ref _ _ \<Rightarrow>
       EvidenceUnavailable ref
         (if a_StepID a \<noteq> [] then a_StepID a
          else (case select_step (x_checks x) ref [] False of (selected, ambiguous) \<Rightarrow>
                  if ambiguous then [] else selected))
         (citeableEvidence (x_byID x) (x_mutations x))
   | _ \<Rightarrow> e)"

text \<open>
  The end of the main loop's body: the finding as a recorded condition. \<^verbatim>\<open>b := first.Binding\<close> of a
  finding without checks is the panic \<^const>\<open>None\<close>.
\<close>

definition bind_finding :: "actx \<Rightarrow> assessment \<Rightarrow> check \<Rightarrow> string list \<Rightarrow> assessment" where
  "bind_finding x a first refs =
     (let b = bnd first;
          a = (if a_Version a = 0 then
                 (case c_Source first of
                    Some s \<Rightarrow> a\<lparr>a_Version := 2, a_Source := Some s\<rparr>
                  | None \<Rightarrow> a\<lparr>a_Version := 1\<rparr>)
               else a)
      in a\<lparr>a_RunID := x_runID x, a_StepID := b_StepID b, a_Criterion := b_Criterion b, a_Target := b_Target b,
          a_CWD := c_CWD first,
          a_PlanCriterion := (case x_requirements x (b_StepID b) of Some r \<Rightarrow> rq_Criterion r | None \<Rightarrow> []),
          a_EvidenceRefs := refs\<rparr>)"

definition positive_required :: "actx \<Rightarrow> string \<Rightarrow> bool" where
  "positive_required x step = (case x_requirements x step of Some r \<Rightarrow> rq_PositiveRequired r | None \<Rightarrow> False)"

definition append_condition :: "actx \<Rightarrow> assessment \<Rightarrow> projection \<Rightarrow> projection" where
  "append_condition x a out = out\<lparr>
     p_Conditions := p_Conditions out @ [a],
     p_Blockers := p_Blockers out @
       (if a_Result a = ''unknown'' then [Undetermined (a_Target a)]
        else if positive_required x (a_StepID a) \<and> a_Result a \<noteq> ''met'' then [RequiredNotMet (a_StepID a)] else []),
     p_State := next_state (p_State out) (a_Result a)\<rparr>"

definition recorded_mismatch :: "actx \<Rightarrow> assessment \<Rightarrow> check \<Rightarrow> bool" where
  "recorded_mismatch x a first =
     (let b = bnd first in
      a_Version a \<noteq> 0 \<and> ((a_Version a \<noteq> 1 \<and> a_Version a \<noteq> 2) \<or> a_RunID a \<noteq> x_runID x \<or> a_StepID a \<noteq> b_StepID b
        \<or> a_Criterion a \<noteq> b_Criterion b \<or> a_Target a \<noteq> b_Target b \<or> a_CWD a \<noteq> c_CWD first
        \<or> a_PlanCriterion a \<noteq> (case x_requirements x (b_StepID b) of Some r \<Rightarrow> rq_Criterion r | None \<Rightarrow> [])))"

definition record_finding :: "actx \<Rightarrow> nat \<Rightarrow> assessment \<Rightarrow> check list \<Rightarrow> bstate \<Rightarrow> pstate
    \<Rightarrow> (assess_error \<times> projection + pstate) option" where
  "record_finding x i a bound bs ps =
     (case bs_first bs of None \<Rightarrow> None | Some first \<Rightarrow>
       (let b = bnd first; refs = bs_refs bs; out = ps_out ps;
            identity = (b_StepID b, b_Criterion b, b_Target b, c_CWD first)
        in if positive_required x (b_StepID b) \<and> a_Result a = ''met'' \<and> (\<exists>c \<in> set bound. is_file_observation c)
           then Some (Inl (StaticCannotProve (b_StepID b), out))
           else (case ps_conditions ps identity of
             Some prev \<Rightarrow>
               if a_Result prev = a_Result a \<and> isSubsetStringSlice refs (a_EvidenceRefs prev)
                  \<and> sameAssessmentSource (a_Source prev) (c_Source first)
               then Some (Inr ps)
               else if a_Result prev = a_Result a \<and> bs_duplicateRef bs = []
                  \<and> sameAssessmentSource (a_Source prev) (c_Source first)
                  \<and> length (a_EvidenceRefs prev) + length refs \<le> 8
               then (let merged = a_EvidenceRefs prev @ refs; ps = cover_keys (bs_localSeen bs) (a_Result a) ps
                     in Some (Inr (ps\<lparr>
                          ps_conditions := (ps_conditions ps)(identity \<mapsto> prev\<lparr>a_EvidenceRefs := merged\<rparr>),
                          ps_out := out\<lparr>p_Conditions := merge_condition prev merged (p_Conditions out)\<rparr>\<rparr>)))
               else if bs_duplicateRef bs \<noteq> [] then Some (Inl (MoreThanOneAssessment (bs_duplicateRef bs), out))
               else Some (Inl (RepeatsCondition i, out))
           | None \<Rightarrow>
               if bs_duplicateRef bs \<noteq> [] then
                 (if isRedundantSubsetOfRecordedCondition (a_Result a) (c_Source first) refs (p_Conditions out)
                  then Some (Inr ps) else Some (Inl (MoreThanOneAssessment (bs_duplicateRef bs), out)))
               else if b_StepID b \<noteq> [] \<and> x_requirements x (b_StepID b) = None
               then Some (Inl (StepNotInPlan (b_StepID b), out))
               else if recorded_mismatch x a first then Some (Inl (RecordedMismatch, out))
               else (let a = bind_finding x a first refs; ps = cover_keys (bs_localSeen bs) (a_Result a) ps
                     in Some (Inr (ps\<lparr>ps_conditions := (ps_conditions ps)(identity \<mapsto> a),
                                      ps_out := append_condition x a out\<rparr>))))))"

text \<open>A new finding about a planned step that cites nothing and does not claim success.\<close>

definition open_step_finding :: "actx \<Rightarrow> assessment \<Rightarrow> bool" where
  "open_step_finding x a =
     (a_Version a = 0 \<and> a_StepID a \<noteq> [] \<and> a_EvidenceRefs a = []
      \<and> (a_Result a = ''unknown'' \<or> a_Result a = ''not_met'') \<and> x_requirements x (a_StepID a) \<noteq> None)"

definition note_open_step :: "actx \<Rightarrow> assessment \<Rightarrow> projection \<Rightarrow> projection" where
  "note_open_step x a out = out\<lparr>
     p_Blockers := p_Blockers out @
       (if a_Result a = ''unknown'' then [Undetermined (a_StepID a)]
        else if positive_required x (a_StepID a) then [RequiredNotMet (a_StepID a)] else []),
     p_State := next_state (p_State out) (a_Result a)\<rparr>"

definition assess_one :: "actx \<Rightarrow> nat \<times> assessment \<Rightarrow> pstate \<Rightarrow> (assess_error \<times> projection + pstate) option" where
  "assess_one x ia ps =
     (let i = fst ia; out = ps_out ps; a = (snd ia)\<lparr>a_Reason := TrimSpace (a_Reason (snd ia))\<rparr> in
      if a_Result a \<noteq> ''met'' \<and> a_Result a \<noteq> ''not_met'' \<and> a_Result a \<noteq> ''unknown''
      then Some (Inl (BadResult i, out))
      else if a_Reason a = [] \<or> length (a_Reason a) > 1000 then Some (Inl (BadReason i, out))
      else if isSecondaryNoteOnAssessedStep i a (x_input x) (x_allChecks x) (x_byID x) then Some (Inr ps)
      else do {
        r \<leftarrow> assessmentChecks a (x_input x) (x_checks x) (x_allChecks x) (x_byID x) (x_requirements x);
        (case r of
           Inl e \<Rightarrow>
             if open_step_finding x a then Some (Inr (ps\<lparr>ps_out := note_open_step x a out\<rparr>))
             else do {
               redundant \<leftarrow> isRedundantStepSummary i a (x_input x) (x_allChecks x) (x_byID x) (x_requirements x);
               (if redundant then Some (Inr ps) else Some (Inl (complete_error x a e, out)))
             }
         | Inr bound \<Rightarrow>
             (case foldm (bound_step i (a_EvidenceRefs a \<noteq> []) (x_mutations x) (ps_seen ps)) bound
                     \<lparr>bs_first = None, bs_refs = [], bs_localSeen = [], bs_duplicateRef = [], bs_invalid = False,
                      bs_issues = ps_issues ps\<rparr> of
                Inl e \<Rightarrow> Some (Inl (e, out))
              | Inr bs \<Rightarrow>
                  if bs_invalid bs then Some (Inr (ps\<lparr>ps_issues := bs_issues bs\<rparr>))
                  else record_finding x i a bound bs ps))
      })"

fun assess_loop :: "actx \<Rightarrow> (nat \<times> assessment) list \<Rightarrow> pstate \<Rightarrow> (assess_error \<times> projection + pstate) option" where
  "assess_loop x [] ps = Some (Inr ps)"
| "assess_loop x (ia # ias) ps = do {
     r \<leftarrow> assess_one x ia ps;
     (case r of Inl e \<Rightarrow> Some (Inl e) | Inr ps' \<Rightarrow> assess_loop x ias ps')
   }"

definition empty_projection :: projection where
  "empty_projection = \<lparr>p_State = ''unassessed'', p_Conditions = [], p_Blockers = [], p_ReviewComplete = False\<rparr>"

definition initial_pstate :: pstate where
  "initial_pstate = \<lparr>ps_out = empty_projection, ps_covered = (\<lambda>_. False), ps_seen = {},
     ps_conditions = Map.empty, ps_issues = \<lparr>is_Issues = [], is_Omitted = 0\<rparr>\<rparr>"

definition ProjectAssessments :: "string \<Rightarrow> assessment list \<Rightarrow> check list \<Rightarrow> mutation list \<Rightarrow> requirements
    \<Rightarrow> (assess_error \<times> projection + projection) option" where
  "ProjectAssessments runID input checks mutations requirements =
     (if input = [] then Some (Inr empty_projection)
      else if length input > 128 then Some (Inl (HistoryTooLong, empty_projection))
      else do {
        effective \<leftarrow> filterSupersededStaleStepChecks checks mutations;
        r \<leftarrow> currentEvidenceByID effective;
        (case r of
           Inl e \<Rightarrow> Some (Inl (e, empty_projection))
         | Inr byID \<Rightarrow> do {
             r \<leftarrow> assess_loop \<lparr>x_runID = runID, x_input = input, x_checks = effective, x_allChecks = checks,
                    x_byID = byID, x_mutations = mutations, x_requirements = requirements\<rparr>
                    (enumerate 0 input) initial_pstate;
             (case r of
                Inl e \<Rightarrow> Some (Inl e)
              | Inr ps \<Rightarrow>
                  if is_Issues (ps_issues ps) \<noteq> [] then Some (Inl (UnusableEvidence (ps_issues ps), ps_out ps))
                  else do {
                    latest \<leftarrow> Latest effective;
                    Some (Inr ((ps_out ps)\<lparr>p_ReviewComplete :=
                      p_Blockers (ps_out ps) = [] \<and>
                      (\<forall>check \<in> set latest. c_Status check \<noteq> ''succeeded'' \<longrightarrow>
                         ps_covered ps (assessmentReference check (c_ToolCallID check)))\<rparr>))
                  })
           })
      })"

section \<open>Facts about resolution\<close>

definition pool :: "actx \<Rightarrow> check set" where
  "pool x = set (x_checks x) \<union> set (x_allChecks x) \<union> snd ` set (x_byID x)"

lemma current_checkD: "current_check current ref = Some c \<Longrightarrow> c \<in> snd ` set current \<and> ValidBinding (c_Binding c)"
  by (force simp: current_check_def split: option.splits if_splits dest: map_of_SomeD)

lemma split_refs_pool: "split_refs current refs seen = (res, mis) \<Longrightarrow> set res \<subseteq> snd ` set current \<and> length res \<le> length refs"
proof (induction current refs seen arbitrary: res mis rule: split_refs.induct)
  case (1 current seen)
  then show ?case by simp
next
  case (2 current ref refs seen)
  then show ?case
    by (fastforce split: option.splits if_splits prod.splits dest: current_checkD)
qed

lemma resolveCurrent_pool:
  assumes "resolveCurrentStepEvidenceRefs refs checks current = Some cs"
  shows "set cs \<subseteq> snd ` set current" and "cs \<noteq> []" and "length cs \<le> 8"
proof -
  obtain mis where s: "split_refs current refs {} = (cs, mis)" and l: "length refs \<le> 8" and "cs \<noteq> []"
    using assms by (auto simp: resolveCurrentStepEvidenceRefs_def split: if_splits prod.splits list.splits)
  from split_refs_pool [OF s] l \<open>cs \<noteq> []\<close> show "set cs \<subseteq> snd ` set current" "cs \<noteq> []" "length cs \<le> 8"
    by auto
qed

lemma split_mixed_pool:
  "split_mixed current refs seen = Some (kept, mis) \<Longrightarrow> set kept \<subseteq> snd ` set current \<and> length kept \<le> length refs"
proof (induction current refs seen arbitrary: kept mis rule: split_mixed.induct)
  case (1 current seen)
  then show ?case by simp
next
  case (2 current ref refs seen)
  then show ?case
    by (fastforce split: option.splits if_splits prod.splits dest: current_checkD)
qed

lemma resolveMixed_pool:
  assumes "resolveUnsteppedMixedEvidenceRefs refs checks current = Some cs"
  shows "set cs \<subseteq> snd ` set current" and "cs \<noteq> []" and "length cs \<le> length refs"
proof -
  obtain mis where s: "split_mixed current refs {} = Some (cs, mis)" and "cs \<noteq> []"
    using assms by (auto simp: resolveUnsteppedMixedEvidenceRefs_def split: if_splits prod.splits list.splits option.splits)
  from split_mixed_pool [OF s] \<open>cs \<noteq> []\<close>
  show "set cs \<subseteq> snd ` set current" "cs \<noteq> []" "length cs \<le> length refs" by auto
qed

lemma narrow_subset: "set (narrowStepChecksToCitedSubset cs r refs input) \<subseteq> set cs"
  by (auto simp: narrowStepChecksToCitedSubset_def Let_def)

lemma narrow_Nil_iff: "narrowStepChecksToCitedSubset cs r refs input = [] \<longleftrightarrow> cs = []"
  by (auto simp: narrowStepChecksToCitedSubset_def Let_def)

lemma unique_checkD: "unique_check P latest e1 e2 = Inr c \<Longrightarrow> c \<in> set latest \<and> P c"
proof -
  assume "unique_check P latest e1 e2 = Inr c"
  then have "filter P latest = [c]" by (auto simp: unique_check_def split: list.splits)
  then have "c \<in> set (filter P latest)" by simp
  then show ?thesis by simp
qed

lemma resolve_ref_pool:
  "resolve_ref a checks current ref = Some (Inr c) \<Longrightarrow> c \<in> set checks \<union> snd ` set current"
  by (auto simp: resolve_ref_def bind_eq_Some_conv split: if_splits option.splits
      dest!: unique_checkD current_checkD dest: Latest_subset)

lemma resolve_refs_pool:
  "resolve_refs a checks current refs = Some (Inr cs) \<Longrightarrow>
   set cs \<subseteq> set checks \<union> snd ` set current \<and> length cs = length refs"
proof (induction refs arbitrary: cs)
  case Nil
  then show ?case by simp
next
  case (Cons ref refs)
  from Cons.prems obtain c rest where c: "resolve_ref a checks current ref = Some (Inr c)" and cs: "cs = c # rest"
    and rest: "resolve_refs a checks current refs = Some (Inr rest)"
    by (cases "resolve_ref a checks current ref"; cases "resolve_refs a checks current refs")
      (auto split: sum.split_asm)
  note resolve_ref_pool [OF c]
  with Cons.IH [OF rest] cs show ?case by auto
qed

lemma select_checks_pool:
  "set (select_checks a latest allChecks current req) \<subseteq> set latest \<union> snd ` set current"
  by (auto simp: select_checks_def Let_def split: if_splits option.splits dest: resolveCurrent_pool(1) [OF sym, THEN subsetD])

lemma step_checks_pool:
  assumes "step_checks a input checks allChecks current req = Some (Inr cs)"
  shows "set cs \<subseteq> set checks \<union> snd ` set current" and "cs \<noteq> []" and "length cs \<le> 8"
proof -
  from assms obtain latest where l: "Latest checks = Some latest"
    unfolding step_checks_def bind_eq_Some_conv by blast
  define sel where "sel = select_checks a latest allChecks current req"
  have ne: "sel \<noteq> []" and len: "length (narrowStepChecksToCitedSubset sel (a_Result a) (a_EvidenceRefs a) input) \<le> 8"
    and cs: "cs = sort_key ownReference (narrowStepChecksToCitedSubset sel (a_Result a) (a_EvidenceRefs a) input)"
    using assms l unfolding step_checks_def by (simp_all add: sel_def [symmetric] Let_def split: if_splits)
  have "set sel \<subseteq> set checks \<union> snd ` set current"
    using select_checks_pool [of a latest] Latest_subset [OF l] unfolding sel_def by blast
  then show "set cs \<subseteq> set checks \<union> snd ` set current"
    unfolding cs using narrow_subset by fastforce
  show "cs \<noteq> []" unfolding cs using ne narrow_Nil_iff by (metis set_empty set_sort)
  show "length cs \<le> 8" unfolding cs using len by simp
qed

lemma assessmentChecks_pool:
  assumes "assessmentChecks a input checks allChecks current req = Some (Inr cs)"
  shows "set cs \<subseteq> set checks \<union> snd ` set current \<and> cs \<noteq> [] \<and> length cs \<le> 8"
proof -
  from assms consider (step) "step_checks a input checks allChecks current req = Some (Inr cs)"
    | (mixed) "length (a_EvidenceRefs a) \<le> 8" "resolveUnsteppedMixedEvidenceRefs (a_EvidenceRefs a) allChecks current = Some cs"
    | (refs) "a_EvidenceRefs a \<noteq> []" "length (a_EvidenceRefs a) \<le> 8" "resolve_refs a checks current (a_EvidenceRefs a) = Some (Inr cs)"
    by (auto simp: assessmentChecks_def split: if_splits option.splits)
  then show ?thesis
  proof cases
    case step
    from step_checks_pool [OF step] show ?thesis by simp
  next
    case mixed
    with resolveMixed_pool [OF mixed(2)] show ?thesis by auto
  next
    case refs
    with resolve_refs_pool [OF refs(3)] show ?thesis by auto
  qed
qed

section \<open>The checks a finding stands on\<close>

definition usable :: "mutation list \<Rightarrow> check \<Rightarrow> bool" where
  "usable ms c \<longleftrightarrow> c_ToolCallID c \<noteq> [] \<and> ValidBinding (c_Binding c) \<and> observationIssue (c_ToolCallID c) c ms = None"

abbreviation ref_key :: "check \<Rightarrow> string" where
  "ref_key c \<equiv> assessmentReference c (c_ToolCallID c)"

text \<open>The inner loop, as long as no check was refused: it has read the checks \<open>done\<close>.\<close>

definition bound_inv :: "mutation list \<Rightarrow> string set \<Rightarrow> check list \<Rightarrow> bstate \<Rightarrow> bool" where
  "bound_inv ms seen cs bs \<longleftrightarrow>
     bs_refs bs = map c_ToolCallID cs \<and> bs_localSeen bs = map ref_key cs \<and> distinct (map ref_key cs)
     \<and> bs_first bs = (case cs of [] \<Rightarrow> None | c # _ \<Rightarrow> Some c)
     \<and> (\<forall>c \<in> set cs. usable ms c \<and> b_StepID (bnd c) = b_StepID (bnd (hd cs))
          \<and> sameAssessmentSource (c_Source c) (c_Source (hd cs)))
     \<and> (bs_duplicateRef bs = [] \<longrightarrow> set (map ref_key cs) \<inter> seen = {})"

lemma sameAssessmentSource_refl [simp]: "sameAssessmentSource s s"
  by (cases s) (simp_all add: sameAssessmentSource_def)

lemma bound_step_valid:
  assumes step: "bound_step i e ms seen c bs = Inr bs'" and inv: "bound_inv ms seen cs bs" and ok: "\<not> bs_invalid bs'"
  shows "bound_inv ms seen (cs @ [c]) bs' \<and> bs_issues bs' = bs_issues bs \<and> \<not> bs_invalid bs"
proof -
  have u: "usable ms c" and k: "ref_key c \<notin> set (bs_localSeen bs)"
    and same: "\<And>f. bs_first bs = Some f \<Longrightarrow> sameStepAssessmentObligation f c e"
    and bs': "bs' = bs\<lparr>bs_first := (case bs_first bs of None \<Rightarrow> Some c | f \<Rightarrow> f),
                 bs_localSeen := bs_localSeen bs @ [ref_key c],
                 bs_duplicateRef := (if ref_key c \<in> seen \<and> bs_duplicateRef bs = [] then c_ToolCallID c else bs_duplicateRef bs),
                 bs_refs := bs_refs bs @ [c_ToolCallID c]\<rparr>"
    using step ok by (auto simp: bound_step_def usable_def Let_def split: if_splits option.splits)
  have "b_StepID (bnd c) = b_StepID (bnd f) \<and> sameAssessmentSource (c_Source c) (c_Source f)" if "bs_first bs = Some f" for f
    using same [OF that] by (auto simp: sameStepAssessmentObligation_def split: if_splits)
  with u k inv ok show ?thesis
    unfolding bs' bound_inv_def by (cases cs) (auto simp: usable_def)
qed

lemma bound_fold:
  assumes "foldm (bound_step i e ms seen) cs bs = Inr bs'" and "bound_inv ms seen done bs" and "\<not> bs_invalid bs'"
  shows "bound_inv ms seen (done @ cs) bs' \<and> bs_issues bs' = bs_issues bs"
  using assms
proof (induction cs arbitrary: "done" bs)
  case Nil
  then show ?case by simp
next
  case (Cons c cs)
  then obtain t where t: "bound_step i e ms seen c bs = Inr t" and r: "foldm (bound_step i e ms seen) cs t = Inr bs'"
    by (auto split: sum.splits)
  have "\<not> bs_invalid t"
  proof
    assume "bs_invalid t"
    then have "bs_invalid bs'"
      by (rule foldm_invariant [OF r, of bs_invalid])
        (auto simp: bound_step_def Let_def split: if_splits option.splits)
    with Cons.prems show False by simp
  qed
  note step = bound_step_valid [OF t Cons.prems(2) this]
  from Cons.IH [OF r conjunct1 [OF step] Cons.prems(3)] step show ?case by simp
qed

lemma bound_loop:
  assumes "foldm (bound_step i e ms seen) cs \<lparr>bs_first = None, bs_refs = [], bs_localSeen = [], bs_duplicateRef = [],
             bs_invalid = False, bs_issues = js\<rparr> = Inr bs" and "\<not> bs_invalid bs"
  shows "bound_inv ms seen cs bs" and "bs_issues bs = js"
  using bound_fold [OF assms(1), of "[]"] assms(2) by (simp_all add: bound_inv_def)

section \<open>The recorded conditions\<close>

definition cident :: "assessment \<Rightarrow> condition_identity" where
  "cident a = (a_StepID a, a_Criterion a, a_Target a, a_CWD a)"

text \<open>A recorded condition stands on usable checks of its own plan step, at most eight; a success
  that the plan requires never stands on file inspection.\<close>

definition backed :: "actx \<Rightarrow> assessment \<Rightarrow> bool" where
  "backed x a \<longleftrightarrow> a_EvidenceRefs a \<noteq> [] \<and> length (a_EvidenceRefs a) \<le> 8
     \<and> (\<forall>ref \<in> set (a_EvidenceRefs a). \<exists>c \<in> pool x. c_ToolCallID c = ref \<and> usable (x_mutations x) c
          \<and> b_StepID (bnd c) = a_StepID a
          \<and> (positive_required x (a_StepID a) \<and> a_Result a = ''met'' \<longrightarrow> \<not> is_file_observation c))"

definition rank :: "string \<Rightarrow> nat" where
  "rank s = (if s = ''met'' then 1 else if s = ''unknown'' then 2 else if s = ''not_met'' then 3 else 0)"

definition recorded_ok :: "actx \<Rightarrow> projection \<Rightarrow> assessment \<Rightarrow> bool" where
  "recorded_ok x out a \<longleftrightarrow> backed x a \<and> a_Result a \<in> {''met'', ''not_met'', ''unknown''}
     \<and> rank (a_Result a) \<le> rank (p_State out)
     \<and> (a_Result a = ''unknown'' \<longrightarrow> Undetermined (a_Target a) \<in> set (p_Blockers out))
     \<and> (a_Result a = ''not_met'' \<and> positive_required x (a_StepID a) \<longrightarrow> RequiredNotMet (a_StepID a) \<in> set (p_Blockers out))"

definition conclusive :: "actx \<Rightarrow> assessment list \<Rightarrow> string \<Rightarrow> bool" where
  "conclusive x conds k \<longleftrightarrow> (\<exists>a \<in> set conds. a_Result a \<noteq> ''unknown''
     \<and> (\<exists>c \<in> pool x. ref_key c = k \<and> c_ToolCallID c \<in> set (a_EvidenceRefs a) \<and> usable (x_mutations x) c))"

definition project_inv :: "actx \<Rightarrow> pstate \<Rightarrow> bool" where
  "project_inv x ps \<longleftrightarrow>
     (let out = ps_out ps; conds = p_Conditions out in
      distinct (map cident conds) \<and> ps_conditions ps = map_of (map (\<lambda>a. (cident a, a)) conds)
      \<and> p_State out \<in> {''unassessed'', ''met'', ''not_met'', ''unknown''}
      \<and> (\<forall>a \<in> set conds. recorded_ok x out a)
      \<and> (\<forall>k. ps_covered ps k \<longrightarrow> conclusive x conds k))"

lemma project_invI:
  assumes "distinct (map cident (p_Conditions (ps_out ps)))"
    and "ps_conditions ps = map_of (map (\<lambda>a. (cident a, a)) (p_Conditions (ps_out ps)))"
    and "p_State (ps_out ps) \<in> {''unassessed'', ''met'', ''not_met'', ''unknown''}"
    and "\<And>a. a \<in> set (p_Conditions (ps_out ps)) \<Longrightarrow> recorded_ok x (ps_out ps) a"
    and "\<And>k. ps_covered ps k \<Longrightarrow> conclusive x (p_Conditions (ps_out ps)) k"
  shows "project_inv x ps"
  using assms by (simp add: project_inv_def Let_def)

lemma project_invD:
  assumes "project_inv x ps"
  shows "distinct (map cident (p_Conditions (ps_out ps)))"
    and "ps_conditions ps = map_of (map (\<lambda>a. (cident a, a)) (p_Conditions (ps_out ps)))"
    and "p_State (ps_out ps) \<in> {''unassessed'', ''met'', ''not_met'', ''unknown''}"
    and "a \<in> set (p_Conditions (ps_out ps)) \<Longrightarrow> recorded_ok x (ps_out ps) a"
    and "ps_covered ps k \<Longrightarrow> conclusive x (p_Conditions (ps_out ps)) k"
  using assms by (auto simp: project_inv_def Let_def)

lemma merge_condition_map:
  "distinct (map cident conds) \<Longrightarrow> prev \<in> set conds \<Longrightarrow>
   merge_condition prev refs conds = map (\<lambda>c. if cident c = cident prev then c\<lparr>a_EvidenceRefs := refs\<rparr> else c) conds"
proof (induction conds)
  case (Cons c cs)
  show ?case
  proof (cases "c = prev")
    case True
    then have "\<forall>d \<in> set cs. cident d \<noteq> cident prev" using Cons.prems by (metis distinct.simps(2) image_eqI list.simps(9) set_map)
    with True show ?thesis by (simp add: map_idI)
  next
    case False
    with Cons.prems have "cident c \<noteq> cident prev" "prev \<in> set cs" by (auto simp: image_iff)
    with Cons show ?thesis by (auto simp: cident_def)
  qed
qed simp

lemma cident_refs [simp]: "cident (a\<lparr>a_EvidenceRefs := refs\<rparr>) = cident a"
  by (simp add: cident_def)

lemma map_of_replace:
  "distinct (map f xs) \<Longrightarrow> p \<in> set xs \<Longrightarrow> f q = f p \<Longrightarrow>
   map_of (map (\<lambda>a. (f a, a)) (map (\<lambda>c. if f c = f p then q else c) xs)) = (map_of (map (\<lambda>a. (f a, a)) xs))(f p \<mapsto> q)"
proof (induction xs)
  case (Cons y ys)
  have *: "map (\<lambda>c. if f c = f p then q else c) ys = ys" if "f p \<notin> f ` set ys"
    using that by (intro map_idI) (auto simp: image_iff)
  show ?case
  proof (cases "p \<in> set ys")
    case True
    with Cons.prems have "f y \<noteq> f p" by auto
    with Cons True show ?thesis by (auto simp: fun_upd_twist)
  next
    case False
    with Cons.prems have "y = p" by simp
    with Cons.prems * show ?thesis by auto
  qed
qed simp

lemma map_of_ident:
  assumes "map_of (map (\<lambda>a. (f a, a)) xs) k = Some a"
  shows "a \<in> set xs" and "f a = k"
  using assms by (auto dest!: map_of_SomeD)

lemma conclusive_append: "conclusive x conds k \<Longrightarrow> conclusive x (conds @ [a]) k"
  by (auto simp: conclusive_def)

text \<open>The recorded conditions with the one of \<open>prev\<close>'s identity replaced.\<close>

abbreviation put_condition :: "assessment \<Rightarrow> assessment \<Rightarrow> assessment list \<Rightarrow> assessment list" where
  "put_condition prev new conds \<equiv> map (\<lambda>c. if cident c = cident prev then new else c) conds"

lemma put_condition_idents: "cident new = cident prev \<Longrightarrow> map cident (put_condition prev new conds) = map cident conds"
  by simp

lemma conclusive_put:
  assumes old: "conclusive x conds k" and d: "distinct (map cident conds)" and mem: "prev \<in> set conds"
    and new: "a_Result new = a_Result prev" "set (a_EvidenceRefs prev) \<subseteq> set (a_EvidenceRefs new)"
  shows "conclusive x (put_condition prev new conds) k"
proof -
  obtain a c where a: "a \<in> set conds" "a_Result a \<noteq> ''unknown''"
    and c: "c \<in> pool x" "ref_key c = k" "c_ToolCallID c \<in> set (a_EvidenceRefs a)" "usable (x_mutations x) c"
    using old by (auto simp: conclusive_def)
  show ?thesis
  proof (cases "cident a = cident prev")
    case True
    then have "a = prev" using a(1) mem d by (auto simp: distinct_map inj_on_def)
    then have "c_ToolCallID c \<in> set (a_EvidenceRefs new)" "a_Result new \<noteq> ''unknown''"
      using a(2) c(3) new by auto
    moreover have "new \<in> set (put_condition prev new conds)" using mem by force
    ultimately show ?thesis using c(1,2,4) unfolding conclusive_def by blast
  next
    case False
    with a(1) have "a \<in> set (put_condition prev new conds)" by force
    with a(2) c show ?thesis unfolding conclusive_def by blast
  qed
qed

lemma merge_condition_preserves:
  fixes prev refs defines "new \<equiv> prev\<lparr>a_EvidenceRefs := a_EvidenceRefs prev @ refs\<rparr>"
  assumes inv: "project_inv x ps" and prev: "ps_conditions ps (cident prev) = Some prev" and backed: "backed x new"
    and keys: "\<And>k. k \<in> set keys \<Longrightarrow> \<exists>c \<in> pool x. ref_key c = k \<and> c_ToolCallID c \<in> set refs \<and> usable (x_mutations x) c"
  shows "project_inv x ((cover_keys keys (a_Result prev) ps)\<lparr>
           ps_conditions := (ps_conditions ps)(cident prev \<mapsto> new),
           ps_out := (ps_out ps)\<lparr>p_Conditions := merge_condition prev (a_EvidenceRefs prev @ refs) (p_Conditions (ps_out ps))\<rparr>\<rparr>)"
proof -
  let ?conds = "p_Conditions (ps_out ps)"
  note d = project_invD [OF inv]
  have new: "cident new = cident prev" "a_Result new = a_Result prev" "a_EvidenceRefs new = a_EvidenceRefs prev @ refs"
    "a_StepID new = a_StepID prev" "a_Target new = a_Target prev"
    by (simp_all add: new_def cident_def)
  have mem: "prev \<in> set ?conds" using prev unfolding d(2) by (rule map_of_ident)
  have upd: "merge_condition prev (a_EvidenceRefs prev @ refs) ?conds = put_condition prev new ?conds"
    unfolding merge_condition_map [OF d(1) mem] using d(1) mem by (auto simp: distinct_map inj_on_def new_def)
  have newmem: "new \<in> set (put_condition prev new ?conds)" using mem by force
  show ?thesis
  proof (rule project_invI, goal_cases)
    case 1
    then show ?case using d(1) put_condition_idents [OF new(1)] by (simp add: upd del: map_map)
  next
    case 2
    then show ?case using map_of_replace [OF d(1) mem new(1)] by (simp add: upd d(2))
  next
    case 3
    then show ?case using d(3) by (simp add: cover_keys_def)
  next
    case (4 a)
    then have "a = new \<or> a \<in> set ?conds" by (auto simp: upd split: if_splits)
    then show ?case using d(4) [OF mem] d(4) [of a] backed new by (auto simp: recorded_ok_def)
  next
    case (5 k)
    then consider "k \<in> set keys" "a_Result prev \<noteq> ''unknown''" | "ps_covered ps k"
      by (auto simp: cover_keys_def split: if_splits)
    then have "conclusive x (put_condition prev new ?conds) k"
    proof cases
      case 1
      from keys [OF 1(1)] newmem new 1(2) show ?thesis
        unfolding conclusive_def by (intro bexI [of _ new]) auto
    next
      case 2
      show ?thesis by (rule conclusive_put [OF d(5) [OF 2] d(1) mem]) (simp_all add: new)
    qed
    then show ?case by (simp add: upd)
  qed
qed

lemma rank_next_state:
  "r \<in> {''met'', ''not_met'', ''unknown''} \<Longrightarrow> s \<in> {''unassessed'', ''met'', ''not_met'', ''unknown''} \<Longrightarrow>
   rank s \<le> rank (next_state s r) \<and> rank r \<le> rank (next_state s r)
   \<and> next_state s r \<in> {''unassessed'', ''met'', ''not_met'', ''unknown''}"
  by (auto simp: rank_def next_state_def)

text \<open>A projection that keeps the blockers and does not lower the state keeps what is recorded.\<close>

lemma recorded_ok_mono:
  "recorded_ok x out a \<Longrightarrow> rank (p_State out) \<le> rank (p_State out') \<Longrightarrow> set (p_Blockers out) \<subseteq> set (p_Blockers out')
   \<Longrightarrow> recorded_ok x out' a"
  by (auto simp: recorded_ok_def)

lemma append_condition_preserves:
  assumes inv: "project_inv x ps" and fresh: "ps_conditions ps (cident a) = None" and backed: "backed x a"
    and result: "a_Result a \<in> {''met'', ''not_met'', ''unknown''}"
    and keys: "\<And>k. k \<in> set keys \<Longrightarrow> \<exists>c \<in> pool x. ref_key c = k \<and> c_ToolCallID c \<in> set (a_EvidenceRefs a) \<and> usable (x_mutations x) c"
  shows "project_inv x ((cover_keys keys (a_Result a) ps)\<lparr>ps_conditions := (ps_conditions ps)(cident a \<mapsto> a),
           ps_out := append_condition x a (ps_out ps)\<rparr>)"
proof -
  let ?conds = "p_Conditions (ps_out ps)" and ?out = "append_condition x a (ps_out ps)"
  note d = project_invD [OF inv]
  note rk = rank_next_state [OF result d(3)]
  have out: "p_Conditions ?out = ?conds @ [a]" "p_State ?out = next_state (p_State (ps_out ps)) (a_Result a)"
    "set (p_Blockers (ps_out ps)) \<subseteq> set (p_Blockers ?out)"
    by (auto simp: append_condition_def)
  have notin: "cident a \<notin> cident ` set ?conds" using fresh unfolding d(2) by (auto simp: map_of_eq_None_iff image_image)
  show ?thesis
  proof (rule project_invI, goal_cases)
    case 1
    then show ?case using d(1) notin by (simp add: out)
  next
    case 2
    then show ?case using fresh by (auto simp: out d(2) map_add_def fun_eq_iff split: option.splits)
  next
    case 3
    then show ?case using rk by (simp add: out)
  next
    case (4 b)
    then consider "b = a" | "b \<in> set ?conds" by (auto simp: out)
    then show ?case
    proof cases
      case 1
      with backed result rk show ?thesis by (auto simp: recorded_ok_def append_condition_def)
    next
      case 2
      from recorded_ok_mono [OF d(4) [OF 2], of ?out] rk out show ?thesis by simp
    qed
  next
    case (5 k)
    then consider "k \<in> set keys" "a_Result a \<noteq> ''unknown''" | "ps_covered ps k"
      by (auto simp: cover_keys_def split: if_splits)
    then have "conclusive x (?conds @ [a]) k"
    proof cases
      case 1
      from keys [OF 1(1)] 1(2) show ?thesis by (auto simp: conclusive_def)
    next
      case 2
      from conclusive_append [OF d(5) [OF 2]] show ?thesis .
    qed
    then show ?case by (simp add: out)
  qed
qed

lemma bind_finding_simps [simp]:
  "a_StepID (bind_finding x a c refs) = b_StepID (bnd c)" "a_Result (bind_finding x a c refs) = a_Result a"
  "a_EvidenceRefs (bind_finding x a c refs) = refs"
  "cident (bind_finding x a c refs) = (b_StepID (bnd c), b_Criterion (bnd c), b_Target (bnd c), c_CWD c)"
  by (cases "a_Version a = 0"; cases "c_Source c"; simp add: bind_finding_def cident_def Let_def)+

lemma cover_keys_conditions [simp]: "ps_conditions (cover_keys keys r ps) = ps_conditions ps"
  by (simp add: cover_keys_def)

lemma bound_evidence:
  assumes "bound_inv ms seen cs bs" and "cs \<noteq> []" and "bs_first bs = Some first"
  shows "first = hd cs" and "bs_refs bs = map c_ToolCallID cs" and "bs_localSeen bs = map ref_key cs"
    and "\<And>c. c \<in> set cs \<Longrightarrow> usable ms c \<and> b_StepID (bnd c) = b_StepID (bnd first)"
proof -
  from assms(1) have first: "bs_first bs = (case cs of [] \<Rightarrow> None | c # _ \<Rightarrow> Some c)"
    and props: "\<forall>c \<in> set cs. usable ms c \<and> b_StepID (bnd c) = b_StepID (bnd (hd cs))
       \<and> sameAssessmentSource (c_Source c) (c_Source (hd cs))"
    and refs: "bs_refs bs = map c_ToolCallID cs" "bs_localSeen bs = map ref_key cs"
    unfolding bound_inv_def by blast+
  show f: "first = hd cs" using first assms(2,3) by (cases cs) simp_all
  show "bs_refs bs = map c_ToolCallID cs" "bs_localSeen bs = map ref_key cs" by (fact refs)+
  show "usable ms c \<and> b_StepID (bnd c) = b_StepID (bnd first)" if "c \<in> set cs" for c
    using props that unfolding f by blast
qed

lemma record_finding_preserves:
  assumes inv: "project_inv x ps" and rec: "record_finding x i a cs bs ps = Some (Inr ps')"
    and binv: "bound_inv (x_mutations x) (ps_seen ps) cs bs" and cs: "set cs \<subseteq> pool x" "cs \<noteq> []" "length cs \<le> 8"
    and result: "a_Result a \<in> {''met'', ''not_met'', ''unknown''}"
  shows "project_inv x ps'"
proof -
  obtain first where f: "bs_first bs = Some first" using rec by (auto simp: record_finding_def split: option.splits)
  note be = bound_evidence [OF binv cs(2) f]
  let ?b = "bnd first" and ?keys = "bs_localSeen bs" and ?refs = "bs_refs bs"
  let ?ident = "(b_StepID ?b, b_Criterion ?b, b_Target ?b, c_CWD first)"
  have keys: "\<exists>c \<in> pool x. ref_key c = k \<and> c_ToolCallID c \<in> set ?refs \<and> usable (x_mutations x) c" if "k \<in> set ?keys" for k
    using that be cs(1) by auto
  have static: "\<not> (positive_required x (b_StepID ?b) \<and> a_Result a = ''met'' \<and> (\<exists>c \<in> set cs. is_file_observation c))"
    using rec f by (auto simp: record_finding_def Let_def split: if_splits)
  have cite: "\<exists>c \<in> pool x. c_ToolCallID c = ref \<and> usable (x_mutations x) c \<and> b_StepID (bnd c) = b_StepID ?b
      \<and> (positive_required x (b_StepID ?b) \<and> a_Result a = ''met'' \<longrightarrow> \<not> is_file_observation c)" if "ref \<in> set ?refs" for ref
    using that be cs(1) static by fastforce
  consider (same) "ps' = ps"
    | (merge) prev where "ps_conditions ps ?ident = Some prev" "a_Result prev = a_Result a"
        "length (a_EvidenceRefs prev) + length ?refs \<le> 8"
        "ps' = (cover_keys ?keys (a_Result a) ps)\<lparr>ps_conditions := (ps_conditions ps)(?ident \<mapsto> prev\<lparr>a_EvidenceRefs := a_EvidenceRefs prev @ ?refs\<rparr>),
           ps_out := (ps_out ps)\<lparr>p_Conditions := merge_condition prev (a_EvidenceRefs prev @ ?refs) (p_Conditions (ps_out ps))\<rparr>\<rparr>"
    | (new) "ps_conditions ps ?ident = None"
        "ps' = (cover_keys ?keys (a_Result a) ps)\<lparr>ps_conditions := (ps_conditions ps)(?ident \<mapsto> bind_finding x a first ?refs),
           ps_out := append_condition x (bind_finding x a first ?refs) (ps_out ps)\<rparr>"
    using rec f by (auto simp: record_finding_def Let_def split: option.splits if_splits)
  then show ?thesis
  proof cases
    case same
    with inv show ?thesis by simp
  next
    case merge
    note prev = map_of_ident [OF merge(1) [unfolded project_invD(2) [OF inv]]]
    have "backed x prev" using project_invD(4) [OF inv prev(1)] by (simp add: recorded_ok_def)
    then have "backed x (prev\<lparr>a_EvidenceRefs := a_EvidenceRefs prev @ ?refs\<rparr>)"
      using cite merge(2,3) prev(2) by (auto simp: backed_def cident_def)
    from merge_condition_preserves [OF inv _ this keys] merge prev(2) show ?thesis by simp
  next
    case new
    have "backed x (bind_finding x a first ?refs)"
      using cite be(2) cs by (auto simp: backed_def)
    from append_condition_preserves [OF inv _ this, of ?keys] keys new result show ?thesis by simp
  qed
qed

lemma assess_one_preserves:
  assumes inv: "project_inv x ps" and one: "assess_one x ia ps = Some (Inr ps')"
  shows "project_inv x ps'"
proof -
  let ?a = "(snd ia)\<lparr>a_Reason := TrimSpace (a_Reason (snd ia))\<rparr>"
  have result: "a_Result ?a \<in> {''met'', ''not_met'', ''unknown''}"
    using one by (auto simp: assess_one_def Let_def split: if_splits)
  consider (same) "ps' = ps" | (note_open) "ps' = ps\<lparr>ps_out := note_open_step x ?a (ps_out ps)\<rparr>"
    | (issues) js where "ps' = ps\<lparr>ps_issues := js\<rparr>"
    | (rec) cs bs where "assessmentChecks ?a (x_input x) (x_checks x) (x_allChecks x) (x_byID x) (x_requirements x) = Some (Inr cs)"
        "foldm (bound_step (fst ia) (a_EvidenceRefs ?a \<noteq> []) (x_mutations x) (ps_seen ps)) cs
           \<lparr>bs_first = None, bs_refs = [], bs_localSeen = [], bs_duplicateRef = [], bs_invalid = False,
            bs_issues = ps_issues ps\<rparr> = Inr bs" "\<not> bs_invalid bs" "record_finding x (fst ia) ?a cs bs ps = Some (Inr ps')"
    using one by (auto simp: assess_one_def Let_def bind_sum_conv case_sum_eq_conv bind_eq_Some_conv split: if_splits)
  then show ?thesis
  proof cases
    case same
    with inv show ?thesis by simp
  next
    case note_open
    note d = project_invD [OF inv]
    let ?out = "note_open_step x ?a (ps_out ps)"
    have "recorded_ok x ?out a" if "a \<in> set (p_Conditions (ps_out ps))" for a
      by (rule recorded_ok_mono [OF d(4) [OF that]])
        (use rank_next_state [OF result d(3)] in \<open>auto simp: note_open_step_def\<close>)
    moreover have "p_Conditions ?out = p_Conditions (ps_out ps)" "p_State ?out = next_state (p_State (ps_out ps)) (a_Result ?a)"
      by (simp_all add: note_open_step_def)
    ultimately show ?thesis unfolding note_open
      using d rank_next_state [OF result d(3)] by (intro project_invI) simp_all
  next
    case issues
    with inv show ?thesis by (simp add: project_inv_def)
  next
    case rec
    from record_finding_preserves [OF inv rec(4) bound_loop(1) [OF rec(2,3)]] assessmentChecks_pool [OF rec(1)] result
    show ?thesis by (auto simp: pool_def)
  qed
qed

lemma assess_loop_preserves:
  "assess_loop x ias ps = Some (Inr ps') \<Longrightarrow> project_inv x ps \<Longrightarrow> project_inv x ps'"
  by (induction ias arbitrary: ps) (auto simp: bind_sum_conv dest: assess_one_preserves)

lemma initial_inv: "project_inv x initial_pstate"
  by (simp add: project_inv_def initial_pstate_def empty_projection_def Let_def)

section \<open>No nil dereference\<close>

abbreviation all_bound :: "check list \<Rightarrow> bool" where
  "all_bound cs \<equiv> \<forall>c \<in> set cs. c_Binding c \<noteq> None"

lemma unbound_total:
  assumes "all_bound cs"
  shows "Latest cs \<noteq> None" and "resolve_refs a cs current refs \<noteq> None"
    and "step_checks a input cs allChecks current req \<noteq> None"
    and "summary_refs i input cs current refs \<noteq> None"
proof -
  obtain latest where l: "Latest cs = Some latest" using Latest_total [OF assms] by blast
  show "Latest cs \<noteq> None" using l by simp
  have ref: "\<exists>r. resolve_ref a cs current ref = Some r" for ref
    using l by (simp add: resolve_ref_def)
  have "\<exists>r. resolve_refs a cs current refs = Some r"
  proof (induction refs)
    case (Cons r rs)
    from ref [of r] obtain v where "resolve_ref a cs current r = Some v" ..
    with Cons show ?case by (cases v) auto
  qed simp
  then show "resolve_refs a cs current refs \<noteq> None" by auto
  show "step_checks a input cs allChecks current req \<noteq> None"
    using l by (auto simp: step_checks_def Let_def)
  show "summary_refs i input cs current refs \<noteq> None"
    using l by (induction refs) (auto simp: Let_def split: option.splits)
qed

lemma assessmentChecks_total:
  "all_bound checks \<Longrightarrow> assessmentChecks a input checks allChecks current req \<noteq> None"
  using unbound_total by (auto simp: assessmentChecks_def split: option.splits)

lemma isRedundantStepSummary_total:
  "all_bound checks \<Longrightarrow> isRedundantStepSummary i a input checks current req \<noteq> None"
  using unbound_total(1,4) [of checks] by (auto simp: isRedundantStepSummary_def)

lemma record_finding_total:
  "bound_inv ms seen cs bs \<Longrightarrow> cs \<noteq> [] \<Longrightarrow> record_finding x i a cs bs ps \<noteq> None"
  by (cases cs) (auto simp: record_finding_def bound_inv_def Let_def split: option.splits if_splits)

lemma assess_one_total:
  assumes "all_bound (x_checks x)" and "all_bound (x_allChecks x)"
  shows "assess_one x ia ps \<noteq> None"
proof -
  let ?a = "(snd ia)\<lparr>a_Reason := TrimSpace (a_Reason (snd ia))\<rparr>"
  obtain r where r: "assessmentChecks ?a (x_input x) (x_checks x) (x_allChecks x) (x_byID x) (x_requirements x) = Some r"
    using assessmentChecks_total [OF assms(1)] by blast
  obtain red where red: "isRedundantStepSummary (fst ia) ?a (x_input x) (x_allChecks x) (x_byID x) (x_requirements x) = Some red"
    using isRedundantStepSummary_total [OF assms(2)] by blast
  show ?thesis
  proof (cases r)
    case (Inl e)
    with r red show ?thesis by (simp add: assess_one_def Let_def)
  next
    case (Inr cs)
    note ne = assessmentChecks_pool [OF r [unfolded Inr]]
    show ?thesis
    proof (cases "foldm (bound_step (fst ia) (a_EvidenceRefs ?a \<noteq> []) (x_mutations x) (ps_seen ps)) cs
           \<lparr>bs_first = None, bs_refs = [], bs_localSeen = [], bs_duplicateRef = [], bs_invalid = False,
            bs_issues = ps_issues ps\<rparr>")
      case (Inl e)
      with r \<open>r = Inr cs\<close> show ?thesis by (simp add: assess_one_def Let_def)
    next
      case bs: (Inr bs)
      have "\<not> bs_invalid bs \<Longrightarrow> record_finding x (fst ia) ?a cs bs ps \<noteq> None"
        using record_finding_total bound_loop(1) [OF bs] ne by blast
      with r bs \<open>r = Inr cs\<close> show ?thesis by (simp add: assess_one_def Let_def)
    qed
  qed
qed

lemma assess_loop_total:
  "all_bound (x_checks x) \<Longrightarrow> all_bound (x_allChecks x) \<Longrightarrow> assess_loop x ias ps \<noteq> None"
proof (induction ias arbitrary: ps)
  case (Cons ia ias)
  obtain r where "assess_one x ia ps = Some r" using assess_one_total [OF Cons.prems] by blast
  with Cons show ?case by (cases r) auto
qed simp

lemma effective_subset: "filterSupersededStaleStepChecks checks ms = Some eff \<Longrightarrow> set eff \<subseteq> set checks"
  by (auto simp: filterSupersededStaleStepChecks_def bind_eq_Some_conv Let_def)

lemma effective_total: "all_bound checks \<Longrightarrow> filterSupersededStaleStepChecks checks ms \<noteq> None"
  using unbound_total(1) [of checks] by (auto simp: filterSupersededStaleStepChecks_def Let_def)

lemma currentEvidenceByID_total: "all_bound checks \<Longrightarrow> currentEvidenceByID checks \<noteq> None"
  using unbound_total(1) [of checks] by (auto simp: currentEvidenceByID_def)

text \<open>C38. The projection of assessments always returns, with a verdict or with an error, when every
  check carries a binding: resolving references, recording conditions and reviewing the effective
  checks never dereference nil.\<close>

theorem ProjectAssessments_returns:
  assumes "\<forall>c \<in> set checks. c_Binding c \<noteq> None"
  shows "\<exists>r. ProjectAssessments runID input checks ms reqs = Some r"
proof -
  obtain eff where eff: "filterSupersededStaleStepChecks checks ms = Some eff"
    using effective_total [OF assms] by blast
  then have bound: "all_bound eff" using effective_subset assms by blast
  obtain r where r: "currentEvidenceByID eff = Some r" using currentEvidenceByID_total [OF bound] by blast
  obtain latest where latest: "Latest eff = Some latest" using unbound_total(1) [OF bound] by blast
  show ?thesis
  proof (cases r)
    case (Inl e)
    with eff r show ?thesis by (simp add: ProjectAssessments_def)
  next
    case (Inr byID)
    let ?x = "\<lparr>x_runID = runID, x_input = input, x_checks = eff, x_allChecks = checks,
                    x_byID = byID, x_mutations = ms, x_requirements = reqs\<rparr>"
    obtain v where "assess_loop ?x (enumerate 0 input) initial_pstate = Some v"
      using assess_loop_total [of ?x "enumerate 0 input" initial_pstate] bound assms by auto
    with eff r Inr latest show ?thesis by (cases v) (simp_all add: ProjectAssessments_def)
  qed
qed

section \<open>What a projection shows\<close>

lemma scan_evidence_byID:
  assumes "scan_evidence c t = Inr t'"
  shows "e_byID t' \<in> {e_byID t, AList.delete (c_ToolCallID c) (e_byID t), AList.update (c_ToolCallID c) c (e_byID t),
     AList.update (c_ToolCallID c) c (AList.delete (c_ToolCallID c) (e_byID t))}"
  using assms by (auto simp: scan_evidence_def Let_def split: if_splits option.splits)

lemma currentEvidence_subset:
  assumes "currentEvidenceByID checks = Some (Inr byID)"
  shows "snd ` set byID \<subseteq> set checks"
proof -
  obtain latest st where l: "Latest checks = Some latest"
    and f: "foldm scan_evidence latest \<lparr>e_byID = [], e_sources = Map.empty, e_ambiguous = {}\<rparr> = Inr st" and b: "byID = e_byID st"
    using assms by (auto simp: currentEvidenceByID_def bind_eq_Some_conv case_sum_eq_conv)
  have "snd ` set (e_byID st) \<subseteq> set latest"
  proof (rule foldm_invariant [OF f, of "\<lambda>st. snd ` set (e_byID st) \<subseteq> set latest"])
    fix c t t' assume c: "c \<in> set latest" and t: "snd ` set (e_byID t) \<subseteq> set latest" and s: "scan_evidence c t = Inr t'"
    have del: "snd ` set (AList.delete k al) \<subseteq> snd ` set al" for k and al :: evidence_map
      by (auto simp: AList.delete_eq)
    have upd: "snd ` set (AList.update k v al) \<subseteq> insert v (snd ` set al)" for k v and al :: evidence_map
      using snd_AList_update by fast
    have dt: "snd ` set (AList.delete (c_ToolCallID c) (e_byID t)) \<subseteq> set latest" using del t by (rule subset_trans)
    have ut: "snd ` set (AList.update (c_ToolCallID c) c al) \<subseteq> set latest" if "snd ` set al \<subseteq> set latest" for al
      using upd [of "c_ToolCallID c" c al] c that by blast
    show "snd ` set (e_byID t') \<subseteq> set latest"
      using scan_evidence_byID [OF s] t dt ut [OF t] ut [OF dt] by (elim insertE emptyE) simp_all
  qed simp
  with b Latest_subset [OF l] show ?thesis by blast
qed

lemma ProjectAssessments_inv:
  assumes "ProjectAssessments runID input checks ms reqs = Some (Inr p)" and "input \<noteq> []"
  obtains x ps eff latest where "project_inv x ps" "pool x \<subseteq> set checks" "x_mutations x = ms" "x_requirements x = reqs"
    "filterSupersededStaleStepChecks checks ms = Some eff" "Latest eff = Some latest"
    "p = (ps_out ps)\<lparr>p_ReviewComplete := p_Blockers (ps_out ps) = [] \<and>
       (\<forall>check \<in> set latest. c_Status check \<noteq> ''succeeded'' \<longrightarrow> ps_covered ps (ref_key check))\<rparr>"
proof -
  from assms obtain eff byID ps latest where eff: "filterSupersededStaleStepChecks checks ms = Some eff"
    and byID: "currentEvidenceByID eff = Some (Inr byID)"
    and loop: "assess_loop \<lparr>x_runID = runID, x_input = input, x_checks = eff, x_allChecks = checks,
                    x_byID = byID, x_mutations = ms, x_requirements = reqs\<rparr> (enumerate 0 input) initial_pstate = Some (Inr ps)"
    and latest: "Latest eff = Some latest"
    and p: "p = (ps_out ps)\<lparr>p_ReviewComplete := p_Blockers (ps_out ps) = [] \<and>
       (\<forall>check \<in> set latest. c_Status check \<noteq> ''succeeded'' \<longrightarrow> ps_covered ps (ref_key check))\<rparr>"
    by (auto simp: ProjectAssessments_def bind_sum_conv case_sum_eq_conv bind_eq_Some_conv split: if_splits)
  show thesis
    by (rule that [OF assess_loop_preserves [OF loop initial_inv] _ _ _ eff latest p])
      (use effective_subset [OF eff] currentEvidence_subset [OF byID] in \<open>auto simp: pool_def\<close>)
qed

text \<open>Every recorded condition is backed by evidence: it cites between one and eight calls, each of
  which is a check of the run that is bound to the same plan step, was invoked and confirmed, and ran
  no earlier than every change affecting it; where the plan requires success, a condition reported as
  met cites no file inspection. No two recorded conditions are about the same condition.\<close>

theorem recorded_conditions_backed:
  assumes "ProjectAssessments runID input checks ms reqs = Some (Inr p)"
  shows "distinct (map cident (p_Conditions p)) \<and>
    (\<forall>a \<in> set (p_Conditions p). 1 \<le> length (a_EvidenceRefs a) \<and> length (a_EvidenceRefs a) \<le> 8 \<and>
      (\<forall>ref \<in> set (a_EvidenceRefs a). \<exists>c \<in> set checks. c_ToolCallID c = ref \<and> ValidBinding (c_Binding c)
         \<and> b_StepID (bnd c) = a_StepID a \<and> c_Invoked c = Some True \<and> c_Status c \<noteq> ''blocked''
         \<and> (\<forall>m \<in> set ms. affects m c \<longrightarrow> m_FinishedAt m \<le> c_StartedAt c)
         \<and> (\<forall>r. reqs (a_StepID a) = Some r \<and> rq_PositiveRequired r \<and> a_Result a = ''met'' \<longrightarrow> \<not> is_file_observation c)))"
proof (cases "input = []")
  case True
  with assms show ?thesis by (auto simp: ProjectAssessments_def empty_projection_def)
next
  case False
  obtain x ps eff latest where x: "project_inv x ps" "pool x \<subseteq> set checks" "x_mutations x = ms" "x_requirements x = reqs"
    and p: "p_Conditions p = p_Conditions (ps_out ps)"
    by (rule ProjectAssessments_inv [OF assms False]) simp
  have cite: "c_ToolCallID c = ref \<and> ValidBinding (c_Binding c) \<and> c_Invoked c = Some True \<and> c_Status c \<noteq> ''blocked''
      \<and> (\<forall>m \<in> set ms. affects m c \<longrightarrow> m_FinishedAt m \<le> c_StartedAt c)" if "usable ms c" "c_ToolCallID c = ref" for c ref
    using that RelevantMutationAt_leD [of c ms "c_StartedAt c"] by (auto simp: usable_def observationIssue_None_iff)
  have "backed x a" if "a \<in> set (p_Conditions p)" for a
    using project_invD(4) [OF x(1)] that p by (auto simp: recorded_ok_def)
  then show ?thesis
    using project_invD(1) [OF x(1)] x(2-4) cite unfolding p backed_def
    by (fastforce simp: positive_required_def Suc_le_eq)
qed

text \<open>The state of a projection dominates its conditions: one condition that is not met makes the
  projection not met, one that is unknown keeps it from being met, so a projection is met only when
  every recorded condition is.\<close>

theorem projection_state_dominates:
  assumes "ProjectAssessments runID input checks ms reqs = Some (Inr p)" and "a \<in> set (p_Conditions p)"
  shows "(a_Result a = ''not_met'' \<longrightarrow> p_State p = ''not_met'')
    \<and> (a_Result a = ''unknown'' \<longrightarrow> p_State p \<in> {''unknown'', ''not_met''})
    \<and> (p_State p = ''met'' \<longrightarrow> a_Result a = ''met'')"
proof -
  have "input \<noteq> []" using assms by (auto simp: ProjectAssessments_def empty_projection_def)
  then obtain x ps where x: "project_inv x ps" and p: "p_Conditions p = p_Conditions (ps_out ps)" "p_State p = p_State (ps_out ps)"
    by (rule ProjectAssessments_inv [OF assms(1)]) simp
  from project_invD(4) [OF x] project_invD(3) [OF x] assms(2) p show ?thesis
    by (fastforce simp: recorded_ok_def rank_def)
qed


section \<open>A concrete review\<close>

definition sample_run_check :: "string \<Rightarrow> check" where
  "sample_run_check status = (sample_check ''k1'' ''s'' status 9 12)\<lparr>c_Invoked := Some True, c_ProcessStarted := Some True\<rparr>"

definition sample_finding :: "string \<Rightarrow> assessment" where
  "sample_finding result = \<lparr>a_Result = result, a_EvidenceRefs = [''k1''], a_Reason = ''r'', a_Version = 0, a_RunID = [],
     a_StepID = [], a_Criterion = [], a_Target = [], a_CWD = [], a_PlanCriterion = [], a_Source = None\<rparr>"

definition sample_plan :: requirements where
  "sample_plan = [''s'' \<mapsto> \<lparr>rq_Criterion = ''t'', rq_PositiveRequired = False\<rparr>]"

definition sample_condition :: "string \<Rightarrow> assessment" where
  "sample_condition result = (sample_finding result)\<lparr>a_Version := 1, a_RunID := ''run'', a_StepID := ''s'', a_Criterion := ''t'',
     a_Target := ''p'', a_PlanCriterion := ''t''\<rparr>"

lemma TrimSpace_sample: "TrimSpace ''r'' = ''r''"
  by (simp add: TrimSpace_def chunks.simps byte_def is_space_def)

lemma sample_run_check_latest: "Latest [sample_run_check st] = Some [sample_run_check st]"
  by (simp add: sample_run_check_def sample_simps)

lemma sample_run_check_fields:
  "c_ToolCallID (sample_run_check st) = ''k1''" "c_Status (sample_run_check st) = st" "c_StartedAt (sample_run_check st) = 9"
  "c_Source (sample_run_check st) = None" "c_CWD (sample_run_check st) = []" "ValidBinding (c_Binding (sample_run_check st))"
  "b_StepID (bnd (sample_run_check st)) = ''s''" "b_Criterion (bnd (sample_run_check st)) = ''t''"
  "b_Target (bnd (sample_run_check st)) = ''p''" "c_Observation (sample_run_check st) = None"
  "\<not> is_file_observation (sample_run_check st)"
  "st \<noteq> ''blocked'' \<Longrightarrow> observationIssue ''k1'' (sample_run_check st) [] = None"
  by (simp_all add: sample_run_check_def sample_simps is_file_observation_def observationIssue_def RelevantMutationAt_def)

lemma sample_review:
  assumes "result \<in> {''met'', ''not_met''}" and "st \<noteq> ''blocked''"
  shows "ProjectAssessments ''run'' [sample_finding result] [sample_run_check st] [] sample_plan
    = Some (Inr \<lparr>p_State = result, p_Conditions = [sample_condition result], p_Blockers = [], p_ReviewComplete = True\<rparr>)"
proof -
  have eff: "filterSupersededStaleStepChecks [sample_run_check st] [] = Some [sample_run_check st]"
    by (auto simp: filterSupersededStaleStepChecks_def sample_run_check_latest Let_def RelevantMutationAt_def sample_run_check_fields)
  have cur: "currentEvidenceByID [sample_run_check st] = Some (Inr [(''k1'', sample_run_check st)])"
    by (simp add: currentEvidenceByID_def sample_run_check_latest scan_evidence_def Let_def sample_run_check_fields)
  show ?thesis
    using assms by (auto simp: ProjectAssessments_def eff cur assess_one_def sample_finding_def Let_def TrimSpace_sample
      isSecondaryNoteOnAssessedStep_def assessmentChecks_def resolve_ref_def current_check_def sample_run_check_fields
      bound_step_def initial_pstate_def empty_projection_def record_finding_def positive_required_def sample_plan_def
      recorded_mismatch_def bind_finding_def append_condition_def next_state_def cover_keys_def sample_condition_def sample_run_check_latest)
qed

theorem ProjectAssessments_returns_witness:
  "\<exists>r. ProjectAssessments ''run'' [sample_finding ''met''] [sample_run_check ''failed''] [] sample_plan = Some r"
  by (rule ProjectAssessments_returns) (simp add: sample_run_check_def sample_check_def)

theorem recorded_conditions_backed_witness:
  "distinct (map cident [sample_condition ''met'']) \<and> 1 \<le> length (a_EvidenceRefs (sample_condition ''met''))"
  using recorded_conditions_backed [OF sample_review [of "''met''" "''succeeded''"]] by simp

theorem projection_state_dominates_witness: "a_Result (sample_condition ''met'') = ''met''"
  using projection_state_dominates [OF sample_review [of "''met''" "''succeeded''"], of "sample_condition ''met''"] by simp


end
