(* ===== verification/ClaimPaths.thy ===== *)
theory ClaimPaths
  imports Paths
begin

text \<open>
  The path claims of \<^verbatim>\<open>internal/runpool\<close> (\<^verbatim>\<open>pool.go\<close> from \<^verbatim>\<open>normalizePaths\<close> to \<^verbatim>\<open>pathWithin\<close>, and
  \<^verbatim>\<open>physical_path.go\<close>): the roots a writer claims are normalised to physical paths and two claims
  conflict when one root lies within another, by spelling or by file identity.

  The file system is a parameter: what \<^verbatim>\<open>filepath.Abs\<close>, \<^verbatim>\<open>filepath.EvalSymlinks\<close> and \<^verbatim>\<open>os.Stat\<close> answer
  (\<^const>\<open>None\<close> for an error) and \<^verbatim>\<open>os.SameFile\<close>.
\<close>

record 'i fs =
  Abs :: "string \<Rightarrow> string option"
  EvalSymlinks :: "string \<Rightarrow> string option"
  Stat :: "string \<Rightarrow> 'i option"
  SameFile :: "'i \<Rightarrow> 'i \<Rightarrow> bool"

section \<open>Walking up\<close>

text \<open>A loop from a path to its parent directory ends: the parent is clean, and has fewer elements
  when the path was clean already.\<close>

definition ancestor_rel :: "(string \<times> string) set" where
  "ancestor_rel = measures [\<lambda>p. if Clean p = p then 0 else 1, \<lambda>p. length (clean_comps p)]"

lemma wf_ancestor_rel: "wf ancestor_rel"
  by (simp add: ancestor_rel_def)

lemma Dir_ancestor [simp]: "Dir p \<noteq> p \<Longrightarrow> (Dir p, p) \<in> ancestor_rel"
  using clean_comps_Dir [of p] by (auto simp: ancestor_rel_def)

text \<open>The loop of \<^verbatim>\<open>canonicalClaimPath\<close>; the elements cut off so far are a stack, last cut first.\<close>

function canonical_loop :: "'i fs \<Rightarrow> string \<Rightarrow> string \<Rightarrow> string list \<Rightarrow> string" where
  "canonical_loop F path parent tail =
     (case EvalSymlinks F parent of
        Some resolved \<Rightarrow> Clean (foldl JoinPath resolved tail)
      | None \<Rightarrow> if Dir parent = parent then path
                 else canonical_loop F path (Dir parent) (Base parent # tail))"
  by pat_completeness auto
termination
  by (relation "inv_image ancestor_rel (\<lambda>(F, path, parent, tail). parent)") (auto simp: wf_ancestor_rel)

declare canonical_loop.simps [simp del]

definition canonicalClaimPath :: "'i fs \<Rightarrow> string \<Rightarrow> string" where
  "canonicalClaimPath F path = canonical_loop F path path []"

function anchor_loop :: "'i fs \<Rightarrow> string \<Rightarrow> string \<Rightarrow> string \<times> string \<times> 'i option" where
  "anchor_loop F path tail =
     (case Stat F path of
        Some info \<Rightarrow> (path, tail, Some info)
      | None \<Rightarrow> if Dir path = path then (path, tail, None)
                 else anchor_loop F (Dir path) (JoinPath (Base path) tail))"
  by pat_completeness auto
termination
  by (relation "inv_image ancestor_rel (\<lambda>(F, path, tail). path)") (auto simp: wf_ancestor_rel)

declare anchor_loop.simps [simp del]

definition existingPathAnchor :: "'i fs \<Rightarrow> string \<Rightarrow> string \<times> string \<times> 'i option" where
  "existingPathAnchor F path = anchor_loop F path ''.''"

section \<open>Containment and conflicts\<close>

definition pathWithin :: "string \<Rightarrow> string \<Rightarrow> bool" where
  "pathWithin root targ =
     (case Rel root targ of None \<Rightarrow> False | Some rel \<Rightarrow> rel = ''.'' \<or> \<not> escapes rel)"

text \<open>The loop of \<^verbatim>\<open>physicalPathWithin\<close> over the ancestors of the target.\<close>

function within_loop :: "'i fs \<Rightarrow> 'i \<Rightarrow> string \<Rightarrow> string \<Rightarrow> string \<Rightarrow> 'i option \<Rightarrow> bool" where
  "within_loop F rootInfo rootTail parent tail info =
     (case info of
        None \<Rightarrow> False
      | Some i \<Rightarrow>
          if SameFile F rootInfo i then pathWithin rootTail tail
          else if Dir parent = parent then False
          else within_loop F rootInfo rootTail (Dir parent) (JoinPath (Base parent) tail) (Stat F (Dir parent)))"
  by pat_completeness auto
termination
  by (relation "inv_image ancestor_rel (\<lambda>(F, rootInfo, rootTail, parent, tail, info). parent)")
    (auto simp: wf_ancestor_rel)

declare within_loop.simps [simp del]

definition physicalPathWithin :: "'i fs \<Rightarrow> string \<Rightarrow> string \<Rightarrow> bool" where
  "physicalPathWithin F root targ =
     (case existingPathAnchor F root of
        (_, _, None) \<Rightarrow> False
      | (_, rootTail, Some rootInfo) \<Rightarrow>
          (case existingPathAnchor F targ of (parent, tail, info) \<Rightarrow>
             within_loop F rootInfo rootTail parent tail info))"

definition pathsOverlap :: "'i fs \<Rightarrow> string \<Rightarrow> string \<Rightarrow> bool" where
  "pathsOverlap F a b =
     (pathWithin a b \<or> pathWithin b a \<or> physicalPathWithin F a b \<or> physicalPathWithin F b a)"

section \<open>Normalised claims\<close>

definition claim_root :: "'i fs \<Rightarrow> string \<Rightarrow> string" where
  "claim_root F path =
     (let path = (case Abs F path of Some absolute \<Rightarrow> absolute | None \<Rightarrow> path)
      in canonicalClaimPath F (Clean path))"

fun collect_roots :: "'i fs \<Rightarrow> string list \<Rightarrow> string list \<Rightarrow> string list" where
  "collect_roots F [] out = out"
| "collect_roots F (path # paths) out =
     (let path = TrimSpace path in
      if path = [] then collect_roots F paths out
      else (let root = claim_root F path in
            if root \<in> set out then collect_roots F paths out else collect_roots F paths (out @ [root])))"

definition normalizePaths :: "'i fs \<Rightarrow> string list \<Rightarrow> string list" where
  "normalizePaths F paths = sort (collect_roots F paths [])"

definition paths_conflict :: "'i fs \<Rightarrow> string list \<Rightarrow> string list \<Rightarrow> bool" where
  "paths_conflict F a b = (\<exists>left \<in> set a. \<exists>right \<in> set b. pathsOverlap F left right)"

definition PathsConflict :: "'i fs \<Rightarrow> string list \<Rightarrow> string list \<Rightarrow> bool" where
  "PathsConflict F a b = paths_conflict F (normalizePaths F a) (normalizePaths F b)"
section \<open>Resolving through the deepest existing ancestor\<close>

lemma proper_stack: "list_all proper ws \<Longrightarrow> clean_stack True (rev ws)"
  by (induction ws rule: rev_induct) auto

lemma takeWhile_to_slash: "slash \<notin> set w \<Longrightarrow> takeWhile (\<lambda>c. c \<noteq> slash) (rev w @ slash # s) = rev w"
  by (induction w rule: rev_induct) auto

lemma Base_render:
  assumes "list_all proper (ws @ [w])"
  shows "Base (render True (ws @ [w])) = w"
proof -
  have w: "slash \<notin> set w" "w \<noteq> []" using assms by (auto simp: proper_def)
  have "\<exists>q. render True (ws @ [w]) = q @ slash # w"
    using Join_snoc [of ws w "''/''"] by (cases "ws = []") (auto simp: render_def)
  then obtain q where q: "render True (ws @ [w]) = q @ slash # w" ..
  have "dropWhile (\<lambda>c. c = slash) (rev w @ slash # rev q) = rev w @ slash # rev q"
    using w by (cases w rule: rev_cases) auto
  then have "strip_slashes (q @ slash # w) = q @ slash # w" by simp
  with q takeWhile_to_slash [OF w(1), of "rev q"] show ?thesis
    by (simp add: Base_def del: strip_slashes.simps)
qed

lemma Dir_render_snoc: "list_all proper (ws @ [w]) \<Longrightarrow> Dir (render True (ws @ [w])) = render True ws"
  using Dir_render [of True w "rev ws"] proper_stack [of "ws @ [w]"] by simp

lemma clean_comps_render_abs: "list_all proper ws \<Longrightarrow> clean_comps (render True ws) = ws"
  using clean_comps_render [OF proper_stack] by fastforce

lemma render_snoc_ne:
  assumes "list_all proper (ws @ [w])"
  shows "render True ws \<noteq> render True (ws @ [w])"
  using clean_comps_render_abs [of ws] clean_comps_render_abs [OF assms] assms by force

text \<open>Where no longer ancestor resolves, the loop reaches \<open>us\<close> with the rest on its stack.\<close>

lemma canonical_loop_climb:
  "list_all proper (us @ vs) \<Longrightarrow>
   (\<And>k. length us < k \<Longrightarrow> k \<le> length (us @ vs) \<Longrightarrow> EvalSymlinks F (render True (take k (us @ vs))) = None) \<Longrightarrow>
   canonical_loop F path (render True (us @ vs)) tail = canonical_loop F path (render True us) (vs @ tail)"
proof (induction vs arbitrary: tail rule: rev_induct)
  case (snoc v vs)
  have p: "list_all proper ((us @ vs) @ [v])" using snoc.prems(1) by simp
  have none: "EvalSymlinks F (render True ((us @ vs) @ [v])) = None"
    using snoc.prems(2) [of "length (us @ vs @ [v])"] by simp
  have "canonical_loop F path (render True ((us @ vs) @ [v])) tail
      = canonical_loop F path (render True (us @ vs)) (v # tail)"
    by (subst canonical_loop.simps)
      (use none render_snoc_ne [OF p] Dir_render_snoc [OF p] Base_render [OF p] in simp)
  also have "\<dots> = canonical_loop F path (render True us) (vs @ v # tail)"
  proof (rule snoc.IH)
    show "list_all proper (us @ vs)" using snoc.prems(1) by simp
    show "EvalSymlinks F (render True (take k (us @ vs))) = None" if "length us < k" "k \<le> length (us @ vs)" for k
      using snoc.prems(2) [of k] that by simp
  qed
  finally show ?case by simp
qed simp

lemma split_slash_append: "split_slash (a @ slash # b) = split_slash a @ split_slash b"
proof (induction a)
  case (Cons c a)
  with split_slash_ne [of a] show ?case by (cases "split_slash a") auto
qed simp

lemma clean_comps_JoinPath:
  assumes "IsAbs a" and "proper w"
  shows "clean_comps (JoinPath a w) = clean_comps a @ [w] \<and> IsAbs (JoinPath a w)"
proof -
  have ne: "a \<noteq> []" using assms(1) by (auto simp: IsAbs_def)
  have abs: "IsAbs (a @ ''/'' @ w)" using assms(1) ne by (cases a) (auto simp: IsAbs_def)
  have "clean_comps (a @ ''/'' @ w) = clean_comps a @ [w]"
    using assms abs by (auto simp: clean_comps_def split_slash_append split_slash_no proper_def clean_step.simps)
  with abs ne show ?thesis by (simp add: JoinPath_def)
qed

lemma clean_comps_foldl_JoinPath:
  "IsAbs q \<Longrightarrow> list_all proper vs \<Longrightarrow> clean_comps (foldl JoinPath q vs) = clean_comps q @ vs \<and> IsAbs (foldl JoinPath q vs)"
  by (induction vs arbitrary: q) (simp_all add: clean_comps_JoinPath)

text \<open>A claimed path is resolved through its deepest existing ancestor: when the first elements
  \<open>us\<close> of a clean absolute path resolve to the physical directory \<open>q\<close> and no longer ancestor exists,
  the claim is the path with elements of \<open>q\<close> followed by the elements that do not exist yet.\<close>

theorem canonicalClaimPath_resolves:
  assumes "list_all proper (us @ vs)" and "EvalSymlinks F (render True us) = Some q" and "IsAbs q"
    and "\<And>k. length us < k \<Longrightarrow> k \<le> length (us @ vs) \<Longrightarrow> EvalSymlinks F (render True (take k (us @ vs))) = None"
  shows "canonicalClaimPath F (render True (us @ vs)) = render True (clean_comps q @ vs)"
proof -
  have "canonicalClaimPath F (render True (us @ vs)) = canonical_loop F (render True (us @ vs)) (render True us) vs"
    unfolding canonicalClaimPath_def using canonical_loop_climb [OF assms(1,4)] by simp
  also have "\<dots> = Clean (foldl JoinPath q vs)"
    by (subst canonical_loop.simps) (simp add: assms(2))
  also have "\<dots> = render True (clean_comps q @ vs)"
    using clean_comps_foldl_JoinPath [OF assms(3), of vs] assms(1) by (simp add: Clean_def)
  finally show ?thesis .
qed

section \<open>Claims\<close>

lemma collect_roots_spec:
  "distinct out \<Longrightarrow> distinct (collect_roots F paths out) \<and>
   set (collect_roots F paths out) = set out \<union> claim_root F ` {p \<in> TrimSpace ` set paths. p \<noteq> []}"
  by (induction F paths out rule: collect_roots.induct) (auto simp: Let_def)

text \<open>Normalised claims are sorted and free of duplicates, and hold exactly the physical roots of
  the non-blank paths given.\<close>

theorem normalizePaths_spec:
  "sorted (normalizePaths F paths) \<and> distinct (normalizePaths F paths) \<and>
   set (normalizePaths F paths) = claim_root F ` {p \<in> TrimSpace ` set paths. p \<noteq> []}"
  using collect_roots_spec [of "[]" F paths] by (simp add: normalizePaths_def)

lemma pathWithin_abs_iff: "IsAbs a \<Longrightarrow> IsAbs b \<Longrightarrow> pathWithin a b \<longleftrightarrow> prefix (clean_comps a) (clean_comps b)"
  using Rel_escapes_iff [of a b] by (auto simp: pathWithin_def escapes_def)

lemma anchor_loop_nothing: "(\<And>p. Stat F p = None) \<Longrightarrow> \<exists>p t. anchor_loop F path tail = (p, t, None)"
  by (induction F path tail rule: anchor_loop.induct) (subst anchor_loop.simps, auto)

lemma physicalPathWithin_nothing: "(\<And>p. Stat F p = None) \<Longrightarrow> \<not> physicalPathWithin F a b"
  using anchor_loop_nothing [of F a "''.''"] by (auto simp: physicalPathWithin_def existingPathAnchor_def)

lemma paths_conflict_sym: "paths_conflict F a b = paths_conflict F b a"
  by (auto simp: paths_conflict_def pathsOverlap_def)

text \<open>The conflict test decides ancestry: it is symmetric, and two sets of absolute roots conflict
  when a root of one is an ancestor of, or equal to, a root of the other, or when file identity says
  so; on a file system where no path exists yet, they conflict in no other case.\<close>

theorem PathsConflict_ancestry:
  assumes "\<forall>r \<in> set (normalizePaths F a) \<union> set (normalizePaths F b). IsAbs r"
  shows "PathsConflict F a b = PathsConflict F b a
    \<and> (PathsConflict F a b \<longleftrightarrow> (\<exists>r \<in> set (normalizePaths F a). \<exists>t \<in> set (normalizePaths F b).
         prefix (clean_comps r) (clean_comps t) \<or> prefix (clean_comps t) (clean_comps r)
         \<or> physicalPathWithin F r t \<or> physicalPathWithin F t r))
    \<and> ((\<forall>p. Stat F p = None) \<longrightarrow> (PathsConflict F a b \<longleftrightarrow> (\<exists>r \<in> set (normalizePaths F a). \<exists>t \<in> set (normalizePaths F b).
         prefix (clean_comps r) (clean_comps t) \<or> prefix (clean_comps t) (clean_comps r))))"
proof -
  have iff: "PathsConflict F a b \<longleftrightarrow> (\<exists>r \<in> set (normalizePaths F a). \<exists>t \<in> set (normalizePaths F b).
       prefix (clean_comps r) (clean_comps t) \<or> prefix (clean_comps t) (clean_comps r)
       \<or> physicalPathWithin F r t \<or> physicalPathWithin F t r)"
    using assms by (simp add: PathsConflict_def paths_conflict_def pathsOverlap_def pathWithin_abs_iff)
  show ?thesis
    using iff physicalPathWithin_nothing [of F] paths_conflict_sym [of F]
    by (simp add: PathsConflict_def)
qed

section \<open>Sample file systems\<close>

text \<open>Every path exists and is its own physical path; a second one in which only \<^verbatim>\<open>/link\<close> exists, a
  symbolic link to \<^verbatim>\<open>/data\<close>.\<close>

definition sample_fs :: "nat fs" where
  "sample_fs = \<lparr>Abs = Some, EvalSymlinks = Some, Stat = (\<lambda>p. None), SameFile = (=)\<rparr>"

definition sample_link_fs :: "nat fs" where
  "sample_link_fs = \<lparr>Abs = Some, EvalSymlinks = (\<lambda>p. if p = ''/link'' then Some ''/data'' else None),
     Stat = (\<lambda>p. None), SameFile = (=)\<rparr>"

lemma sample_roots: "set (normalizePaths sample_fs [''/w'']) = {''/w''}" "set (normalizePaths sample_fs [''/w/x'']) = {''/w/x''}"
  by (simp_all add: normalizePaths_def Let_def claim_root_def sample_fs_def canonicalClaimPath_def
      canonical_loop.simps TrimSpace_def chunks.simps byte_def is_space_def Clean_def clean_comps_def IsAbs_def
      clean_step.simps render_def)

theorem PathsConflict_ancestry_witness: "PathsConflict sample_fs [''/w''] [''/w/x'']"
proof -
  have "prefix (clean_comps ''/w'') (clean_comps ''/w/x'')"
    by (simp add: clean_comps_def IsAbs_def clean_step.simps)
  moreover have "\<forall>r \<in> set (normalizePaths sample_fs [''/w'']) \<union> set (normalizePaths sample_fs [''/w/x'']). IsAbs r"
    by (simp add: sample_roots IsAbs_def)
  ultimately show ?thesis using PathsConflict_ancestry [of sample_fs "[''/w'']" "[''/w/x'']"] sample_roots by blast
qed

theorem canonicalClaimPath_resolves_witness: "canonicalClaimPath sample_link_fs ''/link/new'' = ''/data/new''"
proof -
  have "canonicalClaimPath sample_link_fs (render True ([''link''] @ [''new''])) = render True (clean_comps ''/data'' @ [''new''])"
  proof (rule canonicalClaimPath_resolves)
    show "EvalSymlinks sample_link_fs (render True (take k ([''link''] @ [''new'']))) = None"
      if "length [''link''] < k" "k \<le> length ([''link''] @ [''new''])" for k
    proof -
      from that have "k = 2" by simp
      then show ?thesis by (simp add: sample_link_fs_def render_def)
    qed
  qed (simp_all add: sample_link_fs_def render_def proper_def IsAbs_def)
  then show ?thesis by (simp add: render_def clean_comps_def IsAbs_def clean_step.simps)
qed

end
