(* ===== verification/Watchdog.thy ===== *)
theory Watchdog
  imports Prelude
begin

text \<open>
  The idle watchdog of \<^verbatim>\<open>internal/runpool/watchdog.go\<close>: a controller whose phase says why a run may be
  quiet, and the goroutine of \<^verbatim>\<open>WithWatchdog\<close> that cancels the run with \<^verbatim>\<open>ErrStalled\<close> when the timer
  fires outside a pause.

  The goroutine is a step relation: every receive, every read of the phase under the mutex and every
  timer operation is a step of its own, interleaved with the calls of the run (\<^verbatim>\<open>activity\<close>, \<^verbatim>\<open>set\<close>,
  \<^verbatim>\<open>beginWait\<close> and the closure it returns, whose signal comes after the mutex is released). Time is
  discrete; a channel of capacity one is a flag.
\<close>

section \<open>The controller\<close>

datatype phase = PhaseNone | PhaseRunning | PhaseWaitingApproval | PhaseWaitingClarify | PhaseWaitingAdmission
  | PhaseOther string

record controller =
  phase :: phase
  waitDepth :: int
  changed :: bool

fun phasePausesWatchdog :: "phase \<Rightarrow> bool" where
  "phasePausesWatchdog PhaseWaitingApproval = True"
| "phasePausesWatchdog PhaseWaitingClarify = True"
| "phasePausesWatchdog PhaseWaitingAdmission = True"
| "phasePausesWatchdog _ = False"

definition signalChanged :: "controller \<Rightarrow> controller" where
  "signalChanged c = c\<lparr>changed := True\<rparr>"

text \<open>The locked part of \<^verbatim>\<open>set\<close>; \<^verbatim>\<open>None\<close> when the call returns without effect.\<close>

definition set_phase :: "phase \<Rightarrow> controller \<Rightarrow> controller option" where
  "set_phase ph c = (if ph = PhaseNone then None else Some (c\<lparr>phase := ph\<rparr>))"

text \<open>The locked part of \<^verbatim>\<open>beginWait\<close>; without a pausing phase the returned closure does nothing.\<close>

definition beginWait :: "phase \<Rightarrow> controller \<Rightarrow> controller option" where
  "beginWait ph c =
     (if \<not> phasePausesWatchdog ph then None else Some (c\<lparr>waitDepth := waitDepth c + 1, phase := ph\<rparr>))"

text \<open>The locked part of the closure, run at most once.\<close>

definition endWait :: "controller \<Rightarrow> controller" where
  "endWait c =
     (let c = (if waitDepth c > 0 then c\<lparr>waitDepth := waitDepth c - 1\<rparr> else c)
      in if waitDepth c = 0 then c\<lparr>phase := PhaseRunning\<rparr> else c)"

section \<open>The timer goroutine\<close>

datatype cause = ErrStalled | Stopped | ParentDone

text \<open>Where the goroutine is: at the \<^verbatim>\<open>select\<close>, between a receive and the read of the phase, or about to
  apply the timer operation it decided on; \<open>Cancelled\<close> after \<^verbatim>\<open>cancel\<close>.\<close>

datatype loop_pc = Select | GotTimer | GotReset | GotChanged | Arm | Pause | Cancelled cause

record watchdog =
  control :: controller
  reset :: bool
  stopCh :: bool
  parentDone :: bool
  armed :: bool
  deadline :: "int option"
  fired :: bool
  pc :: loop_pc
  now :: int
  owed :: nat
  handles :: nat
  armedAt :: int

text \<open>
  \<open>deadline\<close> is the expiry of a running timer, \<open>fired\<close> a value in its channel; \<open>owed\<close> counts calls that
  have changed the phase and not yet signalled, \<open>handles\<close> the closures of \<^verbatim>\<open>beginWait\<close> not yet run;
  \<open>armedAt\<close>, which nothing reads, is when the timer was last started.
\<close>

definition start :: "int \<Rightarrow> int \<Rightarrow> watchdog" where
  "start idle t = \<lparr>control = \<lparr>phase = PhaseRunning, waitDepth = 0, changed = False\<rparr>, reset = False, stopCh = False,
     parentDone = False, armed = True, deadline = Some (t + idle), fired = False, pc = Select, now = t,
     owed = 0, handles = 0, armedAt = t\<rparr>"

abbreviation paused :: "watchdog \<Rightarrow> bool" where
  "paused w \<equiv> phasePausesWatchdog (phase (control w))"

text \<open>\<^verbatim>\<open>timer.Stop\<close> and the drain of the channel when it was not running; \<^verbatim>\<open>resetTimer\<close>, \<^verbatim>\<open>pauseTimer\<close>.\<close>

definition stop_and_drain :: "watchdog \<Rightarrow> watchdog" where
  "stop_and_drain w = (if deadline w \<noteq> None then w\<lparr>deadline := None\<rparr> else w\<lparr>fired := False\<rparr>)"

definition resetTimer :: "int \<Rightarrow> watchdog \<Rightarrow> watchdog" where
  "resetTimer idle w = (stop_and_drain w)\<lparr>deadline := Some (now w + idle), armed := True, armedAt := now w\<rparr>"

definition pauseTimer :: "watchdog \<Rightarrow> watchdog" where
  "pauseTimer w = (if armed w then stop_and_drain w else w)\<lparr>armed := False\<rparr>"

text \<open>Steps of the goroutine (and of the clock and the runtime timer), enabled where they return a state.\<close>

datatype wstep = Tick | Fire | RecvTimer | RecvReset | RecvChanged | RecvStop | RecvParent | ReadPhase | Apply

fun loop_step :: "int \<Rightarrow> wstep \<Rightarrow> watchdog \<Rightarrow> watchdog option" where
  "loop_step idle Tick w = Some (w\<lparr>now := now w + 1\<rparr>)"
| "loop_step idle Fire w = (case deadline w of
     Some d \<Rightarrow> if d \<le> now w then Some (w\<lparr>deadline := None, fired := True\<rparr>) else None | None \<Rightarrow> None)"
| "loop_step idle RecvTimer w =
     (if pc w = Select \<and> fired w then Some (w\<lparr>fired := False, armed := False, pc := GotTimer\<rparr>) else None)"
| "loop_step idle RecvReset w =
     (if pc w = Select \<and> reset w then Some (w\<lparr>reset := False, pc := GotReset\<rparr>) else None)"
| "loop_step idle RecvChanged w =
     (if pc w = Select \<and> changed (control w)
      then Some (w\<lparr>control := (control w)\<lparr>changed := False\<rparr>, pc := GotChanged\<rparr>) else None)"
| "loop_step idle RecvStop w = (if pc w = Select \<and> stopCh w then Some (w\<lparr>pc := Cancelled Stopped\<rparr>) else None)"
| "loop_step idle RecvParent w = (if pc w = Select \<and> parentDone w then Some (w\<lparr>pc := Cancelled ParentDone\<rparr>) else None)"
| "loop_step idle ReadPhase w = (case pc w of
       GotTimer \<Rightarrow> Some (w\<lparr>pc := (if paused w then Select else Cancelled ErrStalled)\<rparr>)
     | GotReset \<Rightarrow> Some (w\<lparr>pc := (if paused w then Select else Arm)\<rparr>)
     | GotChanged \<Rightarrow> Some (w\<lparr>pc := (if paused w then Pause else Arm)\<rparr>)
     | _ \<Rightarrow> None)"
| "loop_step idle Apply w = (case pc w of
       Arm \<Rightarrow> Some ((resetTimer idle w)\<lparr>pc := Select\<rparr>)
     | Pause \<Rightarrow> Some ((pauseTimer w)\<lparr>pc := Select\<rparr>)
     | _ \<Rightarrow> None)"

text \<open>Calls of the run: a change of phase and its signal are two steps.\<close>

datatype call = Activity | SetPhase phase | BeginWait phase | EndWait | Signal | StopCall | ParentCancel

fun call_step :: "call \<Rightarrow> watchdog \<Rightarrow> watchdog option" where
  "call_step Activity w = Some (w\<lparr>reset := True\<rparr>)"
| "call_step (SetPhase ph) w =
     map_option (\<lambda>c. w\<lparr>control := c, owed := Suc (owed w)\<rparr>) (set_phase ph (control w))"
| "call_step (BeginWait ph) w =
     map_option (\<lambda>c. w\<lparr>control := c, owed := Suc (owed w), handles := Suc (handles w)\<rparr>) (beginWait ph (control w))"
| "call_step EndWait w =
     (if handles w = 0 then None
      else Some (w\<lparr>control := endWait (control w), owed := Suc (owed w), handles := handles w - 1\<rparr>))"
| "call_step Signal w =
     (if owed w = 0 then None else Some (w\<lparr>control := signalChanged (control w), owed := owed w - 1\<rparr>))"
| "call_step StopCall w = Some (w\<lparr>stopCh := True\<rparr>)"
| "call_step ParentCancel w = Some (w\<lparr>parentDone := True\<rparr>)"

text \<open>The reachable states of a run that makes only calls in \<open>A\<close>.\<close>

inductive reaches :: "call set \<Rightarrow> int \<Rightarrow> int \<Rightarrow> watchdog \<Rightarrow> bool" for A idle t0 where
  init: "reaches A idle t0 (start idle t0)"
| loop: "reaches A idle t0 w \<Longrightarrow> loop_step idle a w = Some w' \<Longrightarrow> reaches A idle t0 w'"
| call: "reaches A idle t0 w \<Longrightarrow> c \<in> A \<Longrightarrow> call_step c w = Some w' \<Longrightarrow> reaches A idle t0 w'"

section \<open>Invariants\<close>

definition expired :: "int \<Rightarrow> watchdog \<Rightarrow> bool" where
  "expired idle w \<longleftrightarrow> armedAt w + idle \<le> now w"

definition timer_inv :: "int \<Rightarrow> watchdog \<Rightarrow> bool" where
  "timer_inv idle w \<longleftrightarrow> (armed w \<longleftrightarrow> deadline w \<noteq> None \<or> fired w) \<and> \<not> (deadline w \<noteq> None \<and> fired w)
     \<and> (\<forall>d. deadline w = Some d \<longrightarrow> d = armedAt w + idle)
     \<and> (fired w \<or> pc w = GotTimer \<or> pc w = Cancelled ErrStalled \<longrightarrow> expired idle w)
     \<and> (pc w = GotTimer \<longrightarrow> \<not> armed w)"

text \<open>A watchdog that is not armed although the run is not paused will be told so: a signal is in the
  channel, is owed, or has just been received.\<close>

definition wakeup_inv :: "watchdog \<Rightarrow> bool" where
  "wakeup_inv w \<longleftrightarrow>
     (\<not> paused w \<and> \<not> armed w \<longrightarrow> changed (control w) \<or> owed w > 0
        \<or> pc w \<in> {GotTimer, GotChanged, Arm} \<union> range Cancelled)
     \<and> (pc w = Pause \<longrightarrow> paused w \<or> changed (control w) \<or> owed w > 0)"

lemmas timer_defs = stop_and_drain_def resetTimer_def pauseTimer_def start_def signalChanged_def set_phase_def
  beginWait_def endWait_def Let_def

lemma expired_simps [simp]:
  "expired idle w \<Longrightarrow> expired idle (w\<lparr>now := now w + 1\<rparr>)"
  "expired idle (w\<lparr>pc := p\<rparr>) = expired idle w" "expired idle (w\<lparr>fired := b\<rparr>) = expired idle w"
  "expired idle (w\<lparr>armed := b\<rparr>) = expired idle w" "expired idle (w\<lparr>deadline := d\<rparr>) = expired idle w"
  "expired idle (w\<lparr>reset := b\<rparr>) = expired idle w" "expired idle (w\<lparr>control := c\<rparr>) = expired idle w"
  by (simp_all add: expired_def)

lemma timer_inv_pc: "timer_inv idle w \<Longrightarrow> p \<noteq> GotTimer \<Longrightarrow> (p = Cancelled ErrStalled \<Longrightarrow> expired idle w) \<Longrightarrow>
   timer_inv idle (w\<lparr>pc := p\<rparr>)"
  unfolding timer_inv_def by simp

lemma timer_inv_tick: "timer_inv idle w \<Longrightarrow> timer_inv idle (w\<lparr>now := now w + 1\<rparr>)"
  unfolding timer_inv_def by (cases "deadline w") auto

lemma timer_inv_loop: "timer_inv idle w \<Longrightarrow> loop_step idle a w = Some w' \<Longrightarrow> timer_inv idle w'"
proof (cases a)
  case Apply
  assume "timer_inv idle w" and "loop_step idle a w = Some w'"
  with Apply show ?thesis
    by (cases "deadline w"; cases "armed w")
      (auto simp: timer_inv_def resetTimer_def pauseTimer_def stop_and_drain_def split: loop_pc.splits)
next
  case Tick
  assume "timer_inv idle w" and "loop_step idle a w = Some w'"
  with Tick timer_inv_tick [of idle w] show ?thesis by auto
next
  case Fire
  assume "timer_inv idle w" and "loop_step idle a w = Some w'"
  with Fire show ?thesis by (cases "deadline w") (auto simp: timer_inv_def expired_def split: if_splits)
next
  case ReadPhase
  assume "timer_inv idle w" and "loop_step idle a w = Some w'"
  moreover have "pc w = GotTimer \<Longrightarrow> timer_inv idle w \<Longrightarrow> expired idle w" by (simp add: timer_inv_def)
  ultimately show ?thesis using ReadPhase timer_inv_pc [of idle w] by (cases "pc w") (auto split: if_splits)
qed (auto simp: timer_inv_def split: if_splits)

text \<open>A call of the run never touches the timer or the goroutine.\<close>

lemma call_frame:
  "call_step c w = Some w' \<Longrightarrow> armed w' = armed w \<and> deadline w' = deadline w \<and> fired w' = fired w
     \<and> expired idle w' = expired idle w \<and> armedAt w' = armedAt w \<and> pc w' = pc w"
  by (cases c) (auto simp: expired_def split: if_splits)

lemma timer_inv_call: "timer_inv idle w \<Longrightarrow> call_step c w = Some w' \<Longrightarrow> timer_inv idle w'"
  using call_frame [of c w w' idle] unfolding timer_inv_def by auto

lemma wakeup_inv_loop: "wakeup_inv w \<Longrightarrow> loop_step idle a w = Some w' \<Longrightarrow> wakeup_inv w'"
  unfolding wakeup_inv_def
  by (cases a) (auto simp: timer_defs split: if_splits option.splits loop_pc.splits)

lemma wakeup_inv_call: "wakeup_inv w \<Longrightarrow> call_step c w = Some w' \<Longrightarrow> wakeup_inv w'"
  by (cases c) (auto simp: wakeup_inv_def signalChanged_def split: if_splits)

lemma reaches_inv: "reaches A idle t0 w \<Longrightarrow> timer_inv idle w \<and> wakeup_inv w"
proof (induction rule: reaches.induct)
  case init
  then show ?case by (simp add: timer_inv_def wakeup_inv_def start_def)
next
  case (loop w a w')
  then show ?case using timer_inv_loop wakeup_inv_loop by blast
next
  case (call w c w')
  then show ?case using timer_inv_call wakeup_inv_call by blast
qed

section \<open>What the watchdog guarantees\<close>

text \<open>A run is cancelled as stalled only when it is: at the moment the goroutine decides, the run is
  not in a pause, and the timer has run for the full idle window since it was last started.\<close>

theorem stall_is_justified:
  assumes "reaches A idle t0 w" and "loop_step idle a w = Some w'"
    and "pc w' = Cancelled ErrStalled" and "pc w \<noteq> Cancelled ErrStalled"
  shows "\<not> paused w \<and> armedAt w + idle \<le> now w"
proof -
  have "pc w = GotTimer \<and> \<not> paused w"
    using assms(2-4) by (cases a) (auto simp: timer_defs split: if_splits option.splits loop_pc.splits)
  with reaches_inv [OF assms(1)] show ?thesis by (simp add: timer_inv_def expired_def)
qed

text \<open>Overlapping waits are counted: as long as the run only begins and ends waits, the depth is the
  number of waits still open, and the watchdog is paused exactly while one of them is.\<close>

theorem waits_are_counted:
  assumes "reaches A idle t0 w" and "\<And>ph. SetPhase ph \<notin> A"
  shows "waitDepth (control w) = int (handles w) \<and> (paused w \<longleftrightarrow> handles w > 0)"
  using assms(1)
proof (induction rule: reaches.induct)
  case init
  then show ?case by (simp add: start_def)
next
  case (loop w a w')
  from loop.hyps(2) have "phase (control w') = phase (control w) \<and> waitDepth (control w') = waitDepth (control w) \<and> handles w' = handles w"
    by (cases a) (auto simp: timer_defs split: if_splits option.splits loop_pc.splits)
  with loop.IH show ?case by simp
next
  case (call w c w')
  with assms(2) show ?case
    by (cases c) (auto simp: timer_defs split: if_splits)
qed












section \<open>Sample runs\<close>

lemma sample_timeout: "reaches {} 1 0 ((start 1 0)\<lparr>now := 1, deadline := None, armed := False, pc := GotTimer\<rparr>)"
proof -
  have 1: "reaches {} 1 0 ((start 1 0)\<lparr>now := 1\<rparr>)"
    by (rule reaches.loop [OF reaches.init, where a = Tick]) (simp add: start_def)
  have 2: "reaches {} 1 0 ((start 1 0)\<lparr>now := 1, deadline := None, fired := True\<rparr>)"
    by (rule reaches.loop [OF 1, of Fire]) (simp add: start_def)
  show ?thesis
    by (rule reaches.loop [OF 2, of RecvTimer]) (simp add: start_def)
qed

theorem stall_is_justified_witness:
  "\<not> paused (start 1 0) \<and> armedAt (start 1 0) + 1 \<le> (1::int)"
proof -
  let ?w = "(start 1 0)\<lparr>now := 1, deadline := None, armed := False, pc := GotTimer\<rparr>"
  have "\<not> paused ?w \<and> armedAt ?w + 1 \<le> now ?w"
    by (rule stall_is_justified [OF sample_timeout, of ReadPhase "?w\<lparr>pc := Cancelled ErrStalled\<rparr>"])
      (simp_all add: start_def)
  then show ?thesis by simp
qed

theorem waits_are_counted_witness:
  "\<exists>w. call_step (BeginWait PhaseWaitingApproval) (start 5 0) = Some w \<and> waitDepth (control w) = int (handles w) \<and> paused w"
proof -
  obtain w where w: "call_step (BeginWait PhaseWaitingApproval) (start 5 0) = Some w" and h: "handles w = 1"
    by (simp add: start_def beginWait_def)
  have "reaches {BeginWait PhaseWaitingApproval} 5 0 w"
    by (rule reaches.call [OF reaches.init _ w]) simp
  from waits_are_counted [OF this] w h show ?thesis by auto
qed


end
