(* ===== verification/RunPool.thy ===== *)
theory RunPool
  imports ClaimPaths Watchdog
begin

text \<open>
  The worker pool of \<^verbatim>\<open>internal/runpool/pool.go\<close>: jobs are admitted by a per-key mutex or by a claim on
  file-system roots, then by a worker slot, and release both when their function returns.

  A job is the activation record of \<^verbatim>\<open>RunObserved\<close> or \<^verbatim>\<open>RunObservedPaths\<close>; \<open>job_step\<close> is one atomic action
  of it on the shared pool: a section under \<^verbatim>\<open>p.mu\<close>, one channel operation, or a local step. Blocking is
  \<^const>\<open>None\<close>. Jobs interleave without restriction (\<open>pool_step\<close>). Key locks are objects with an identity,
  because a waiter holds the pointer it found in the map. Claim ids are not bounded here (\<^verbatim>\<open>uint64\<close> in
  the code, one id per claim); a panic inside the job's function is not modelled.
\<close>

section \<open>State\<close>

datatype pstate_name = StateWaitingResource | StateWaitingWorker | StateRunning

record keyLock =
  lock_full :: bool
  lock_refs :: int

record pool =
  workers :: nat
  sem :: nat
  keyLocks :: "string \<rightharpoonup> nat"
  locks :: "nat \<Rightarrow> keyLock"
  nextLock :: nat
  pathClaims :: "(nat \<times> string list) list"
  pathChanged :: nat
  nextPathClaim :: nat

text \<open>
  \<open>keyLocks\<close> maps a key to the address of its lock, \<open>locks\<close> is the heap of lock objects. The channel
  \<^verbatim>\<open>pathChanged\<close> is the number of channels closed before it: a receive from an older one succeeds. The map
  of path claims is a list of its entries, since it is only ranged over.
\<close>

definition New :: "int \<Rightarrow> pool" where
  "New n = \<lparr>workers = nat (if n < 1 then 1 else n), sem = 0, keyLocks = Map.empty,
     locks = (\<lambda>_. \<lparr>lock_full = False, lock_refs = 0\<rparr>), nextLock = 0,
     pathClaims = [], pathChanged = 0, nextPathClaim = 0\<rparr>"

definition Workers :: "pool \<Rightarrow> nat" where
  "Workers p = workers p"

datatype outcome = FnReturned "string option" | CtxErr

datatype job_pc = Start | KeyTry nat | KeyWait nat | KeyCancel nat | PathTry | PathWait nat
  | SemTry | SemWait | Running | Leaving outcome | Finished outcome

datatype request = ByKey string | ByPaths "string list"

record job =
  request :: request
  observes :: bool
  job_pc :: job_pc
  lock_at :: "nat option"
  roots :: "string list"
  claimID :: nat
  notified :: bool
  waited :: bool
  resume :: bool
  watch :: "controller option"
  observed :: "pstate_name list"

definition new_job :: "request \<Rightarrow> bool \<Rightarrow> controller option \<Rightarrow> job" where
  "new_job r obs wd = \<lparr>request = r, observes = obs, job_pc = Start, lock_at = None, roots = [], claimID = 0, notified = False,
     waited = False, resume = False, watch = wd, observed = []\<rparr>"

section \<open>Notifications\<close>

text \<open>\<^verbatim>\<open>beginAdmissionWait\<close> stores the closure that ends the wait; calling it twice ends it once.\<close>

definition beginAdmissionWait :: "job \<Rightarrow> job" where
  "beginAdmissionWait j = (case watch j of
     None \<Rightarrow> j
   | Some c \<Rightarrow> (case beginWait PhaseWaitingAdmission c of
       None \<Rightarrow> j | Some c' \<Rightarrow> j\<lparr>watch := Some (signalChanged c'), resume := True\<rparr>))"

definition call_resume :: "job \<Rightarrow> job" where
  "call_resume j = (if resume j
     then j\<lparr>watch := map_option (\<lambda>c. signalChanged (endWait c)) (watch j), resume := False\<rparr> else j)"

definition notify :: "pstate_name \<Rightarrow> job \<Rightarrow> job" where
  "notify st j =
     (let j = (if st = StateWaitingResource \<or> st = StateWaitingWorker
               then (if \<not> waited j then beginAdmissionWait j else j)\<lparr>waited := True\<rparr>
               else call_resume j)
      in if observes j then j\<lparr>observed := observed j @ [st]\<rparr> else j)"

text \<open>The deferred \<^verbatim>\<open>resume()\<close> of both entry points.\<close>

definition finish :: "outcome \<Rightarrow> job \<Rightarrow> job" where
  "finish r j = (call_resume j)\<lparr>job_pc := Finished r\<rparr>"

section \<open>Key locks\<close>

definition lockKey_enter :: "string \<Rightarrow> pool \<Rightarrow> nat \<times> pool" where
  "lockKey_enter key p = (case keyLocks p key of
     Some a \<Rightarrow> (a, p\<lparr>locks := (locks p)(a := (locks p a)\<lparr>lock_refs := lock_refs (locks p a) + 1\<rparr>)\<rparr>)
   | None \<Rightarrow> (nextLock p, p\<lparr>keyLocks := (keyLocks p)(key \<mapsto> nextLock p),
                          locks := (locks p)(nextLock p := \<lparr>lock_full = False, lock_refs = 1\<rparr>),
                          nextLock := Suc (nextLock p)\<rparr>))"

definition take_lock :: "nat \<Rightarrow> pool \<Rightarrow> pool option" where
  "take_lock a p = (if lock_full (locks p a) then None
     else Some (p\<lparr>locks := (locks p)(a := (locks p a)\<lparr>lock_full := True\<rparr>)\<rparr>))"

definition drop_ref :: "string \<Rightarrow> nat \<Rightarrow> pool \<Rightarrow> pool" where
  "drop_ref key a p =
     (let p = p\<lparr>locks := (locks p)(a := (locks p a)\<lparr>lock_refs := lock_refs (locks p a) - 1\<rparr>)\<rparr>
      in if lock_refs (locks p a) = 0 then p\<lparr>keyLocks := (keyLocks p)(key := None)\<rparr> else p)"

definition releaseRef :: "string \<Rightarrow> pool \<Rightarrow> pool" where
  "releaseRef key p = (case keyLocks p key of None \<Rightarrow> p | Some a \<Rightarrow> drop_ref key a p)"

text \<open>\<^verbatim>\<open>unlockKey\<close> receives from the lock's channel under \<^verbatim>\<open>p.mu\<close>: on an empty channel it blocks.\<close>

definition unlockKey :: "string \<Rightarrow> pool \<Rightarrow> pool option" where
  "unlockKey key p = (case keyLocks p key of
     None \<Rightarrow> Some p
   | Some a \<Rightarrow> if \<not> lock_full (locks p a) then None
       else Some (drop_ref key a (p\<lparr>locks := (locks p)(a := (locks p a)\<lparr>lock_full := False\<rparr>)\<rparr>)))"

section \<open>Path claims\<close>

definition pathsConflictLocked :: "'i fs \<Rightarrow> pool \<Rightarrow> string list \<Rightarrow> bool" where
  "pathsConflictLocked F p candidate = (\<exists>(ident, held) \<in> set (pathClaims p). paths_conflict F candidate held)"

definition add_claim :: "string list \<Rightarrow> pool \<Rightarrow> nat \<times> pool" where
  "add_claim paths p = (Suc (nextPathClaim p),
     p\<lparr>nextPathClaim := Suc (nextPathClaim p), pathClaims := (Suc (nextPathClaim p), paths) # pathClaims p\<rparr>)"

definition unlockPaths :: "nat \<Rightarrow> pool \<Rightarrow> pool" where
  "unlockPaths ident p = (if ident = 0 then p
     else p\<lparr>pathClaims := filter (\<lambda>(i, _). i \<noteq> ident) (pathClaims p), pathChanged := Suc (pathChanged p)\<rparr>)"

section \<open>Steps of a job\<close>

definition enter :: "'i fs \<Rightarrow> pool \<Rightarrow> job \<Rightarrow> pool \<times> job" where
  "enter F p j = (case request j of
     ByKey key \<Rightarrow>
       if key = [] then (p, j\<lparr>job_pc := SemTry\<rparr>)
       else (case lockKey_enter key p of (a, p') \<Rightarrow> (p', j\<lparr>job_pc := KeyTry a\<rparr>))
   | ByPaths paths \<Rightarrow>
       (let rs = normalizePaths F paths in
        if rs = [] then (p, j\<lparr>roots := rs, job_pc := SemTry\<rparr>) else (p, j\<lparr>roots := rs, job_pc := PathTry\<rparr>)))"

definition key_taken :: "nat \<Rightarrow> job \<Rightarrow> job" where
  "key_taken a j = j\<lparr>lock_at := Some a, job_pc := SemTry\<rparr>"

definition try_paths :: "'i fs \<Rightarrow> pool \<Rightarrow> job \<Rightarrow> pool \<times> job" where
  "try_paths F p j =
     (if \<not> pathsConflictLocked F p (roots j)
      then (case add_claim (roots j) p of (ident, p') \<Rightarrow> (p', j\<lparr>claimID := ident, job_pc := SemTry\<rparr>))
      else (p, (if notified j then j else (notify StateWaitingResource j)\<lparr>notified := True\<rparr>)\<lparr>job_pc := PathWait (pathChanged p)\<rparr>))"

definition take_slot :: "pool \<Rightarrow> job \<Rightarrow> (pool \<times> job) option" where
  "take_slot p j = (if sem p < workers p
     then Some (p\<lparr>sem := Suc (sem p)\<rparr>, (if waited j then notify StateRunning j else j)\<lparr>job_pc := Running\<rparr>) else None)"

definition leave :: "pool \<Rightarrow> job \<Rightarrow> outcome \<Rightarrow> (pool \<times> job) option" where
  "leave p j r = (case request j of
     ByKey key \<Rightarrow> if key = [] then Some (p, finish r j) else map_option (\<lambda>p'. (p', finish r j)) (unlockKey key p)
   | ByPaths _ \<Rightarrow> if claimID j = 0 then Some (p, finish r j) else Some (unlockPaths (claimID j) p, finish r j))"

definition request_key :: "job \<Rightarrow> string" where
  "request_key j = (case request j of ByKey key \<Rightarrow> key | ByPaths _ \<Rightarrow> [])"

text \<open>\<open>Go\<close> is the job's next action, \<open>CtxDone\<close> the branch of a \<^verbatim>\<open>select\<close> on a cancelled context, \<open>Return\<close>
  the return of the job's function.\<close>

datatype event = Go | CtxDone | Return "string option"

fun job_step :: "'i fs \<Rightarrow> event \<Rightarrow> pool \<Rightarrow> job \<Rightarrow> (pool \<times> job) option" where
  "job_step F Go p j = (case job_pc j of
     Start \<Rightarrow> Some (enter F p j)
   | KeyTry a \<Rightarrow> (case take_lock a p of
       Some p' \<Rightarrow> Some (p', key_taken a j)
     | None \<Rightarrow> Some (p, (notify StateWaitingResource j)\<lparr>job_pc := KeyWait a\<rparr>))
   | KeyWait a \<Rightarrow> map_option (\<lambda>p'. (p', key_taken a j)) (take_lock a p)
   | KeyCancel a \<Rightarrow> Some (releaseRef (request_key j) p, finish CtxErr j)
   | PathTry \<Rightarrow> Some (try_paths F p j)
   | PathWait g \<Rightarrow> if g < pathChanged p then Some (p, j\<lparr>job_pc := PathTry\<rparr>) else None
   | SemTry \<Rightarrow> (case take_slot p j of
       Some r \<Rightarrow> Some r
     | None \<Rightarrow> Some (p, (notify StateWaitingWorker j)\<lparr>job_pc := SemWait\<rparr>))
   | SemWait \<Rightarrow> take_slot p j
   | Leaving r \<Rightarrow> leave p j r
   | Running \<Rightarrow> None
   | Finished r \<Rightarrow> None)"
| "job_step F CtxDone p j = (case job_pc j of
     KeyWait a \<Rightarrow> Some (p, j\<lparr>job_pc := KeyCancel a\<rparr>)
   | PathWait g \<Rightarrow> Some (p, finish CtxErr j)
   | SemWait \<Rightarrow> Some (p, j\<lparr>job_pc := Leaving CtxErr\<rparr>)
   | _ \<Rightarrow> None)"
| "job_step F (Return r) p j =
     (if job_pc j = Running \<and> sem p > 0 then Some (p\<lparr>sem := sem p - 1\<rparr>, j\<lparr>job_pc := Leaving (FnReturned r)\<rparr>) else None)"

inductive pool_step :: "'i fs \<Rightarrow> pool \<times> job list \<Rightarrow> pool \<times> job list \<Rightarrow> bool" for F where
  "i < length js \<Longrightarrow> job_step F ev p (js ! i) = Some (p', j') \<Longrightarrow> pool_step F (p, js) (p', js[i := j'])"

inductive_cases pool_stepE: "pool_step F s s'"

text \<open>Any number of jobs, each of which may start at any time, on a new pool.\<close>

definition initial_job :: "job \<Rightarrow> bool" where
  "initial_job j \<longleftrightarrow> (\<exists>r obs. j = new_job r obs None
     \<or> j = new_job r obs (Some \<lparr>phase = PhaseRunning, waitDepth = 0, changed = False\<rparr>))"

inductive reachable :: "'i fs \<Rightarrow> int \<Rightarrow> pool \<times> job list \<Rightarrow> bool" for F n where
  init: "\<forall>j \<in> set js. initial_job j \<Longrightarrow> reachable F n (New n, js)"
| step: "reachable F n s \<Longrightarrow> pool_step F s s' \<Longrightarrow> reachable F n s'"

section \<open>The claim table\<close>

text \<open>What the pool needs of the conflict test to keep claims apart: symmetry. The test that admits a new
  claim is made in one direction only.\<close>

locale claim_table =
  fixes conflict :: "'c \<Rightarrow> 'c \<Rightarrow> bool"
  assumes conflict_sym: "conflict a b \<Longrightarrow> conflict b a"
begin

definition apart :: "('k \<times> 'c) list \<Rightarrow> bool" where
  "apart m \<longleftrightarrow> (\<forall>(i, x) \<in> set m. \<forall>(j, y) \<in> set m. i \<noteq> j \<longrightarrow> \<not> conflict x y)"

lemma apart_Cons: "apart m \<Longrightarrow> \<not> (\<exists>(i, y) \<in> set m. conflict x y) \<Longrightarrow> apart ((k, x) # m)"
  unfolding apart_def using conflict_sym by fastforce

lemma apart_filter: "apart m \<Longrightarrow> apart (filter P m)"
  by (auto simp: apart_def)

lemma apartD: "apart m \<Longrightarrow> (i, x) \<in> set m \<Longrightarrow> (j, y) \<in> set m \<Longrightarrow> i \<noteq> j \<Longrightarrow> \<not> conflict x y"
  by (auto simp: apart_def)

lemma apart_Nil: "apart []"
  by (simp add: apart_def)

end

interpretation claims: claim_table "paths_conflict F" for F
  by unfold_locales (simp add: paths_conflict_sym)

section \<open>One job\<close>

text \<open>A job holds its resource from its acquisition to the last deferred call.\<close>

fun live :: "job_pc \<Rightarrow> bool" where
  "live SemTry = True" | "live SemWait = True" | "live Running = True" | "live (Leaving r) = True"
| "live _ = False"

fun key_pc :: "job_pc \<Rightarrow> nat option" where
  "key_pc (KeyTry a) = Some a" | "key_pc (KeyWait a) = Some a" | "key_pc (KeyCancel a) = Some a" | "key_pc _ = None"

definition holds :: "job \<Rightarrow> nat option" where
  "holds j = (if live (job_pc j) then lock_at j else None)"

definition refers :: "job \<Rightarrow> nat option" where
  "refers j = (case key_pc (job_pc j) of Some a \<Rightarrow> Some a | None \<Rightarrow> holds j)"

definition claim_of :: "job \<Rightarrow> nat" where
  "claim_of j = (if live (job_pc j) then claimID j else 0)"

fun path_pc :: "job_pc \<Rightarrow> bool" where
  "path_pc PathTry = True" | "path_pc (PathWait g) = True" | "path_pc _ = False"

definition job_ok :: "job \<Rightarrow> bool" where
  "job_ok j \<longleftrightarrow> (case request j of
     ByKey key \<Rightarrow> claimID j = 0 \<and> roots j = [] \<and> \<not> path_pc (job_pc j) \<and> (key_pc (job_pc j) \<noteq> None \<longrightarrow> key \<noteq> [])
       \<and> (live (job_pc j) \<longrightarrow> (lock_at j = None \<longleftrightarrow> key = [])) \<and> (job_pc j = Start \<longrightarrow> lock_at j = None)
   | ByPaths ps \<Rightarrow> lock_at j = None \<and> key_pc (job_pc j) = None
       \<and> (job_pc j = Start \<or> path_pc (job_pc j) \<longrightarrow> claimID j = 0)
       \<and> (live (job_pc j) \<longrightarrow> (claimID j = 0 \<longleftrightarrow> roots j = []))
       \<and> (path_pc (job_pc j) \<longrightarrow> roots j \<noteq> []))"

lemma notify_fields [simp]:
  "request (notify st j) = request j" "job_pc (notify st j) = job_pc j" "lock_at (notify st j) = lock_at j"
  "roots (notify st j) = roots j" "claimID (notify st j) = claimID j" "notified (notify st j) = notified j"
  by (simp_all add: notify_def beginAdmissionWait_def call_resume_def Let_def split: option.splits)

lemma finish_fields [simp]:
  "request (finish r j) = request j" "job_pc (finish r j) = Finished r" "lock_at (finish r j) = lock_at j"
  "roots (finish r j) = roots j" "claimID (finish r j) = claimID j"
  by (simp_all add: finish_def call_resume_def)

lemmas step_defs = enter_def key_taken_def try_paths_def take_slot_def leave_def add_claim_def Let_def

text \<open>The cases of a step, by what it does to the shared pool.\<close>

lemma job_step_ok:
  assumes "job_step F ev p j = Some (p', j')" and "job_ok j"
  shows "job_ok j' \<and> request j' = request j"
  using assms by (cases ev; cases "job_pc j"; cases "request j")
    (auto simp: job_ok_def step_defs lockKey_enter_def split: if_splits option.splits)

section \<open>Key locks\<close>

lemma holds_refers: "job_ok j \<Longrightarrow> holds j = Some a \<Longrightarrow> refers j = Some a"
  by (cases "job_pc j") (auto simp: holds_def refers_def)

lemma refers_key: "job_ok j \<Longrightarrow> refers j = Some a \<Longrightarrow> request_key j \<noteq> []"
  by (cases "job_pc j"; cases "request j") (auto simp: job_ok_def refers_def holds_def request_key_def)

lemma step_keys:
  assumes "job_step F ev p j = Some (p', j')" and "job_ok j"
  obtains (same) "keyLocks p' = keyLocks p" "locks p' = locks p" "nextLock p' = nextLock p"
      "refers j' = refers j" "holds j' = holds j"
    | (enter) a where "lockKey_enter (request_key j) p = (a, p')" "refers j = None" "holds j = None"
      "refers j' = Some a" "holds j' = None" "request_key j \<noteq> []"
    | (take) a where "take_lock a p = Some p'" "refers j = Some a" "holds j = None"
      "refers j' = Some a" "holds j' = Some a"
    | (drop) a where "releaseRef (request_key j) p = p'" "refers j = Some a" "holds j = None"
      "refers j' = None" "holds j' = None"
    | (unlock) a where "unlockKey (request_key j) p = Some p'" "refers j = Some a" "holds j = Some a"
      "refers j' = None" "holds j' = None"
proof (cases ev)
  case Go
  show thesis
  proof (cases "job_pc j")
    case (KeyTry a)
    with Go assms take show thesis
      by (cases "take_lock a p") (auto simp: refers_def holds_def key_taken_def job_ok_def intro: same split: request.splits)
  next
    case (KeyWait a)
    with Go assms take show thesis
      by (auto simp: refers_def holds_def key_taken_def job_ok_def intro: same)
  next
    case (KeyCancel a)
    with Go assms drop show thesis by (auto simp: refers_def holds_def)
  next
    case (Leaving r)
    with Go assms same unlock show thesis
      by (cases "request j")
        (auto simp: refers_def holds_def leave_def job_ok_def request_key_def unlockPaths_def split: if_splits)
  next
    case Start
    with Go assms same enter show thesis
      by (cases "request j")
        (auto simp: refers_def holds_def enter_def job_ok_def request_key_def Let_def split: if_splits prod.splits)
  qed (use Go assms same in \<open>auto simp: refers_def holds_def step_defs job_ok_def split: if_splits option.splits request.splits\<close>)
next
  case CtxDone
  with assms same show thesis
    by (cases "job_pc j") (auto simp: refers_def holds_def job_ok_def split: request.splits)
next
  case (Return r)
  with assms same show thesis by (auto simp: refers_def holds_def split: if_splits)
qed

text \<open>Every job that uses a lock uses the one the map holds for its key; a lock in the map is referenced,
  its count is the number of jobs that refer to it, and its channel is full exactly when one holds it.\<close>

definition lock_ok :: "pool \<Rightarrow> job list \<Rightarrow> nat \<Rightarrow> bool" where
  "lock_ok p js a \<longleftrightarrow> a < nextLock p \<and> lock_refs (locks p a) > 0
     \<and> lock_refs (locks p a) = int (jcount (\<lambda>j. refers j = Some a) js)
     \<and> int (jcount (\<lambda>j. holds j = Some a) js) = of_bool (lock_full (locks p a))"

definition key_inv :: "pool \<times> job list \<Rightarrow> bool" where
  "key_inv s \<longleftrightarrow> (case s of (p, js) \<Rightarrow>
     (\<forall>j \<in> set js. \<forall>a. refers j = Some a \<longrightarrow> keyLocks p (request_key j) = Some a)
     \<and> (\<forall>k a. keyLocks p k = Some a \<longrightarrow> lock_ok p js a)
     \<and> (\<forall>k k' a. keyLocks p k = Some a \<longrightarrow> keyLocks p k' = Some a \<longrightarrow> k = k'))"

lemma key_invD:
  assumes "key_inv (p, js)"
  shows "j \<in> set js \<Longrightarrow> refers j = Some a \<Longrightarrow> keyLocks p (request_key j) = Some a"
    and "keyLocks p k = Some a \<Longrightarrow> lock_ok p js a"
    and "keyLocks p k = Some a \<Longrightarrow> keyLocks p k' = Some a \<Longrightarrow> k = k'"
  using assms unfolding key_inv_def by blast+

lemma key_invI:
  assumes "\<And>j a. j \<in> set js \<Longrightarrow> refers j = Some a \<Longrightarrow> keyLocks p (request_key j) = Some a"
    and "\<And>k a. keyLocks p k = Some a \<Longrightarrow> lock_ok p js a"
    and "\<And>k k' a. keyLocks p k = Some a \<Longrightarrow> keyLocks p k' = Some a \<Longrightarrow> k = k'"
  shows "key_inv (p, js)"
  using assms unfolding key_inv_def by blast

text \<open>The lock at \<open>a\<close> after job \<open>i\<close> changed what it refers to and holds.\<close>

lemma lock_ok_update:
  assumes "lock_ok p js a" and "i < length js" and "nextLock p \<le> nextLock p'"
    and "lock_refs (locks p' a) = lock_refs (locks p a) - of_bool (refers (js ! i) = Some a) + of_bool (refers j' = Some a)"
    and "lock_refs (locks p' a) > 0"
    and "of_bool (lock_full (locks p' a)) = (of_bool (lock_full (locks p a)) :: int)
           - of_bool (holds (js ! i) = Some a) + of_bool (holds j' = Some a)"
  shows "lock_ok p' (js[i := j']) a"
  using assms unfolding lock_ok_def by (simp add: jcount_update)

lemma lock_ok_absent:
  assumes "key_inv (p, js)" and "\<forall>j \<in> set js. job_ok j" and "\<not> a < nextLock p"
  shows "jcount (\<lambda>j. refers j = Some a) js = 0" and "jcount (\<lambda>j. holds j = Some a) js = 0"
proof -
  have "refers j \<noteq> Some a" if "j \<in> set js" for j
    using key_invD(1) [OF assms(1) that] key_invD(2) [OF assms(1)] assms(3) by (auto simp: lock_ok_def)
  then show "jcount (\<lambda>j. refers j = Some a) js = 0" "jcount (\<lambda>j. holds j = Some a) js = 0"
    using holds_refers assms(2) by (auto simp: jcount_def filter_empty_conv)
qed

lemma set_update_cases: "j \<in> set (js[i := j']) \<Longrightarrow> j = j' \<or> (\<exists>k < length js. k \<noteq> i \<and> j = js ! k)"
proof -
  assume "j \<in> set (js[i := j'])"
  then obtain m where m: "m < length js" "j = js[i := j'] ! m" by (auto simp: in_set_conv_nth)
  then show ?thesis by (cases "m = i") auto
qed

lemma key_inv_enter:
  assumes inv: "key_inv (p, js)" and ok: "\<forall>j \<in> set js. job_ok j" and i: "i < length js"
    and key: "request_key j' = request_key (js ! i)"
    and e: "lockKey_enter (request_key (js ! i)) p = (a, p')" "refers (js ! i) = None" "holds (js ! i) = None"
      "refers j' = Some a" "holds j' = None"
  shows "key_inv (p', js[i := j'])"
proof (cases "keyLocks p (request_key (js ! i))")
  case None
  then have p': "a = nextLock p" "keyLocks p' = (keyLocks p)(request_key (js ! i) \<mapsto> a)" "nextLock p' = Suc (nextLock p)"
    "locks p' = (locks p)(a := \<lparr>lock_full = False, lock_refs = 1\<rparr>)"
    using e(1) by (auto simp: lockKey_enter_def)
  have fresh: "keyLocks p k \<noteq> Some a" for k using key_invD(2) [OF inv] p'(1) by (auto simp: lock_ok_def)
  show ?thesis
  proof (rule key_invI)
    fix j b assume "j \<in> set (js[i := j'])" "refers j = Some b"
    then consider "j = j'" "b = a" | "keyLocks p (request_key j) = Some b"
      using set_update_cases [of j js i j'] e(4) key_invD(1) [OF inv] nth_mem by fastforce
    then show "keyLocks p' (request_key j) = Some b" using key None by cases (auto simp: p'(2))
  next
    fix k b assume "keyLocks p' k = Some b"
    then consider "b = a" | "b \<noteq> a" "keyLocks p k = Some b" by (auto simp: p'(2) split: if_splits)
    then show "lock_ok p' (js[i := j']) b"
    proof cases
      case 1
      with lock_ok_absent [OF inv ok, of a] p' e i show ?thesis by (simp add: lock_ok_def jcount_update)
    next
      case 2
      then have l: "lock_ok p js b" using key_invD(2) [OF inv] by simp
      then have "lock_refs (locks p b) > 0" by (simp add: lock_ok_def)
      with 2(1) p' e show ?thesis by (intro lock_ok_update [OF l i]) auto
    qed
  next
    fix k k' b assume "keyLocks p' k = Some b" "keyLocks p' k' = Some b"
    then show "k = k'" using key_invD(3) [OF inv] fresh by (auto simp: p'(2) split: if_splits)
  qed
next
  case (Some b)
  then have p': "b = a" "keyLocks p' = keyLocks p" "nextLock p' = nextLock p"
    "locks p' = (locks p)(a := (locks p a)\<lparr>lock_refs := lock_refs (locks p a) + 1\<rparr>)"
    using e(1) by (auto simp: lockKey_enter_def)
  show ?thesis
  proof (rule key_invI)
    fix j c assume "j \<in> set (js[i := j'])" "refers j = Some c"
    then show "keyLocks p' (request_key j) = Some c"
      using set_update_cases [of j js i j'] key e(4) key_invD(1) [OF inv] Some p' by auto
  next
    fix k c assume "keyLocks p' k = Some c"
    then have l: "lock_ok p js c" using key_invD(2) [OF inv] p'(2) by simp
    then have "lock_refs (locks p c) > 0" by (simp add: lock_ok_def)
    with p' e show "lock_ok p' (js[i := j']) c" by (intro lock_ok_update [OF l i]) auto
  next
    fix k k' c assume "keyLocks p' k = Some c" "keyLocks p' k' = Some c"
    then show "k = k'" using key_invD(3) [OF inv] by (simp add: p'(2))
  qed
qed

lemma key_inv_same_map:
  assumes inv: "key_inv (p, js)" and i: "i < length js" and key: "request_key j' = request_key (js ! i)"
    and p': "keyLocks p' = keyLocks p" "nextLock p' = nextLock p" and r: "refers j' = refers (js ! i)"
    and l: "\<And>a. lock_ok p js a \<Longrightarrow> lock_ok p' (js[i := j']) a"
  shows "key_inv (p', js[i := j'])"
proof (rule key_invI)
  fix j a assume j: "j \<in> set (js[i := j'])" "refers j = Some a"
  then consider "j = j'" | "j \<in> set js" using set_update_cases [of j js i j'] nth_mem by blast
  then show "keyLocks p' (request_key j) = Some a"
    using key_invD(1) [OF inv] j(2) key r p' i by cases (metis nth_mem)+
next
  fix k a assume "keyLocks p' k = Some a"
  with l key_invD(2) [OF inv] p' show "lock_ok p' (js[i := j']) a" by simp
next
  fix k k' a assume "keyLocks p' k = Some a" "keyLocks p' k' = Some a"
  with key_invD(3) [OF inv] p' show "k = k'" by simp
qed

text \<open>Giving a reference back, with or without the token: \<open>p1\<close> is the pool before the count is lowered.\<close>

lemma key_inv_drop:
  assumes inv: "key_inv (p, js)" and i: "i < length js"
    and a: "refers (js ! i) = Some a" "refers j' = None" "holds j' = None"
    and p1: "keyLocks p1 = keyLocks p" "nextLock p1 = nextLock p" "\<And>b. lock_refs (locks p1 b) = lock_refs (locks p b)"
      "\<And>b. of_bool (lock_full (locks p1 b)) = (of_bool (lock_full (locks p b)) :: int) - of_bool (holds (js ! i) = Some b)"
  shows "key_inv (drop_ref (request_key (js ! i)) a p1, js[i := j'])"
proof -
  let ?k = "request_key (js ! i)" and ?p = "drop_ref (request_key (js ! i)) a p1"
  let ?gone = "lock_refs (locks p a) = 1"
  have ka: "keyLocks p ?k = Some a" using key_invD(1) [OF inv nth_mem [OF i] a(1)] .
  have la: "lock_ok p js a" using key_invD(2) [OF inv ka] .
  have d: "nextLock ?p = nextLock p" "locks ?p = (locks p1)(a := (locks p1 a)\<lparr>lock_refs := lock_refs (locks p1 a) - 1\<rparr>)"
    "keyLocks ?p = (if ?gone then (keyLocks p)(?k := None) else keyLocks p)"
    using p1 by (auto simp: drop_ref_def Let_def)
  have others: "refers (js ! k) \<noteq> Some a" if "k < length js" "k \<noteq> i" ?gone for k
  proof
    assume "refers (js ! k) = Some a"
    with jcount_two [of i js k "\<lambda>j. refers j = Some a"] that i a(1) la show False by (simp add: lock_ok_def)
  qed
  show ?thesis
  proof (rule key_invI)
    fix j b assume j: "j \<in> set (js[i := j'])" "refers j = Some b"
    then obtain k where k: "k < length js" "k \<noteq> i" "j = js ! k" using set_update_cases [of j js i j'] a(2) by auto
    then have kb: "keyLocks p (request_key j) = Some b" using key_invD(1) [OF inv] j(2) by simp
    moreover have "request_key j \<noteq> ?k" if ?gone using others [OF k(1,2) that] kb ka j(2) k(3) by auto
    ultimately show "keyLocks ?p (request_key j) = Some b" by (simp add: d(3))
  next
    fix k b assume "keyLocks ?p k = Some b"
    then have kb: "keyLocks p k = Some b" "?gone \<longrightarrow> k \<noteq> ?k" by (auto simp: d(3) split: if_splits)
    then have lb: "lock_ok p js b" using key_invD(2) [OF inv] by simp
    have ne: "b = a \<Longrightarrow> \<not> ?gone" using kb ka key_invD(3) [OF inv] by blast
    have pos: "lock_refs (locks p b) > 0" using lb by (simp add: lock_ok_def)
    show "lock_ok ?p (js[i := j']) b"
      using ne pos d p1 a by (intro lock_ok_update [OF lb i]) (auto simp: fun_upd_apply)
  next
    fix k k' b assume "keyLocks ?p k = Some b" "keyLocks ?p k' = Some b"
    then show "k = k'" using key_invD(3) [OF inv] by (auto simp: d(3) split: if_splits)
  qed
qed

lemma key_inv_step:
  assumes inv: "key_inv (p, js)" and ok: "\<forall>j \<in> set js. job_ok j" and i: "i < length js"
    and st: "job_step F ev p (js ! i) = Some (p', j')"
  shows "key_inv (p', js[i := j'])"
proof -
  have oki: "job_ok (js ! i)" using ok i by simp
  have key: "request_key j' = request_key (js ! i)"
    using job_step_ok [OF st oki] by (simp add: request_key_def)
  from st oki show ?thesis
  proof (cases rule: step_keys)
    case same
    have "lock_ok p' (js[i := j']) a" if l: "lock_ok p js a" for a
    proof -
      have "lock_refs (locks p a) > 0" using l by (simp add: lock_ok_def)
      with same show ?thesis by (intro lock_ok_update [OF l i]) simp_all
    qed
    with key_inv_same_map [OF inv i key] same show ?thesis by blast
  next
    case (enter a)
    with key_inv_enter [OF inv ok i key] show ?thesis by blast
  next
    case (take a)
    then have p': "keyLocks p' = keyLocks p" "nextLock p' = nextLock p" "\<not> lock_full (locks p a)"
      "locks p' = (locks p)(a := (locks p a)\<lparr>lock_full := True\<rparr>)"
      by (auto simp: take_lock_def split: if_splits)
    have "lock_ok p' (js[i := j']) b" if l: "lock_ok p js b" for b
    proof -
      have "lock_refs (locks p b) > 0" using l by (simp add: lock_ok_def)
      with take p' show ?thesis by (intro lock_ok_update [OF l i]) auto
    qed
    with key_inv_same_map [OF inv i key] p' take show ?thesis by simp
  next
    case (drop a)
    have "keyLocks p (request_key (js ! i)) = Some a" using key_invD(1) [OF inv nth_mem [OF i] drop(2)] .
    with drop(1) have "p' = drop_ref (request_key (js ! i)) a p" by (simp add: releaseRef_def)
    with key_inv_drop [OF inv i drop(2,4,5), of p] drop(3) show ?thesis by simp
  next
    case (unlock a)
    let ?p1 = "p\<lparr>locks := (locks p)(a := (locks p a)\<lparr>lock_full := False\<rparr>)\<rparr>"
    have "keyLocks p (request_key (js ! i)) = Some a" using key_invD(1) [OF inv nth_mem [OF i] unlock(2)] .
    with unlock(1) have p': "p' = drop_ref (request_key (js ! i)) a ?p1" and full: "lock_full (locks p a)"
      by (auto simp: unlockKey_def split: if_splits)
    show ?thesis unfolding p'
      by (rule key_inv_drop [OF inv i unlock(2,4,5)]) (use unlock(3) full in auto)
  qed
qed

section \<open>Path claims\<close>

lemma step_paths:
  assumes "job_step F ev p j = Some (p', j')" and "job_ok j"
  obtains (same) "pathClaims p' = pathClaims p" "pathChanged p' = pathChanged p" "nextPathClaim p' = nextPathClaim p"
      "claim_of j' = claim_of j" "claim_of j \<noteq> 0 \<longrightarrow> roots j' = roots j"
      "\<And>g. job_pc j' = PathWait g \<Longrightarrow> g = pathChanged p \<and> pathsConflictLocked F p (roots j')"
    | (claim) "\<not> pathsConflictLocked F p (roots j)" "claim_of j = 0" "claim_of j' = Suc (nextPathClaim p)"
      "roots j' = roots j" "job_pc j' = SemTry" "pathChanged p' = pathChanged p"
      "pathClaims p' = (Suc (nextPathClaim p), roots j) # pathClaims p" "nextPathClaim p' = Suc (nextPathClaim p)"
    | (release) r where "claim_of j \<noteq> 0" "claim_of j' = 0" "job_pc j' = Finished r" "pathChanged p' = Suc (pathChanged p)"
      "pathClaims p' = filter (\<lambda>(i, _). i \<noteq> claim_of j) (pathClaims p)" "nextPathClaim p' = nextPathClaim p"
proof (cases ev)
  case Go
  show thesis
  proof (cases "job_pc j")
    case PathTry
    with Go assms show thesis
      by (cases "pathsConflictLocked F p (roots j)")
        (auto simp: claim_of_def try_paths_def add_claim_def job_ok_def intro: same claim split: request.splits if_splits)
  next
    case (Leaving r)
    with Go assms same release show thesis
      by (cases "request j") (auto simp: claim_of_def leave_def job_ok_def unlockPaths_def unlockKey_def drop_ref_def Let_def
          split: if_splits option.splits)
  next
    case Start
    with Go assms same show thesis
      by (cases "request j") (auto simp: claim_of_def enter_def job_ok_def lockKey_enter_def Let_def split: if_splits option.splits)
  next
    case (KeyCancel a)
    with Go assms same show thesis
      by (auto simp: claim_of_def releaseRef_def drop_ref_def Let_def split: option.splits if_splits)
  next
    case (KeyTry a)
    with Go assms same show thesis
      by (auto simp: claim_of_def take_lock_def key_taken_def job_ok_def split: option.splits if_splits request.splits)
  next
    case (KeyWait a)
    with Go assms same show thesis
      by (auto simp: claim_of_def take_lock_def key_taken_def job_ok_def split: option.splits if_splits request.splits)
  qed (use Go assms same in \<open>auto simp: claim_of_def take_slot_def job_ok_def split: if_splits option.splits request.splits\<close>)
next
  case CtxDone
  with assms same show thesis
    by (cases "job_pc j") (auto simp: claim_of_def job_ok_def split: request.splits)
next
  case (Return r)
  with assms same show thesis by (auto simp: claim_of_def split: if_splits)
qed

text \<open>Every claim in the table belongs to one job, and claims of different jobs do not conflict; a job that
  waits on the current channel still conflicts with a claim, so the release of that claim will wake it.\<close>

definition path_inv :: "'i fs \<Rightarrow> pool \<times> job list \<Rightarrow> bool" where
  "path_inv F s \<longleftrightarrow> (case s of (p, js) \<Rightarrow>
     claim_table.apart (paths_conflict F) (pathClaims p)
     \<and> (\<forall>(i, c) \<in> set (pathClaims p). 0 < i \<and> i \<le> nextPathClaim p \<and> (\<exists>k < length js. claim_of (js ! k) = i))
     \<and> (\<forall>k < length js. claim_of (js ! k) \<noteq> 0 \<longrightarrow> (claim_of (js ! k), roots (js ! k)) \<in> set (pathClaims p))
     \<and> (\<forall>k < length js. \<forall>m < length js. k \<noteq> m \<longrightarrow> claim_of (js ! k) \<noteq> 0 \<longrightarrow> claim_of (js ! k) \<noteq> claim_of (js ! m))
     \<and> (\<forall>k < length js. \<forall>g. job_pc (js ! k) = PathWait g \<longrightarrow>
          g \<le> pathChanged p \<and> (g = pathChanged p \<longrightarrow> pathsConflictLocked F p (roots (js ! k)))))"

lemma path_invD:
  assumes "path_inv F (p, js)"
  shows "claim_table.apart (paths_conflict F) (pathClaims p)"
    and "(i, c) \<in> set (pathClaims p) \<Longrightarrow> 0 < i \<and> i \<le> nextPathClaim p \<and> (\<exists>k < length js. claim_of (js ! k) = i)"
    and "k < length js \<Longrightarrow> claim_of (js ! k) \<noteq> 0 \<Longrightarrow> (claim_of (js ! k), roots (js ! k)) \<in> set (pathClaims p)"
    and "k < length js \<Longrightarrow> m < length js \<Longrightarrow> k \<noteq> m \<Longrightarrow> claim_of (js ! k) \<noteq> 0 \<Longrightarrow> claim_of (js ! k) \<noteq> claim_of (js ! m)"
    and "k < length js \<Longrightarrow> job_pc (js ! k) = PathWait g \<Longrightarrow>
          g \<le> pathChanged p \<and> (g = pathChanged p \<longrightarrow> pathsConflictLocked F p (roots (js ! k)))"
  using assms unfolding path_inv_def by blast+

lemma path_invI:
  assumes "claim_table.apart (paths_conflict F) (pathClaims p)"
    and "\<And>i c. (i, c) \<in> set (pathClaims p) \<Longrightarrow> 0 < i \<and> i \<le> nextPathClaim p \<and> (\<exists>k < length js. claim_of (js ! k) = i)"
    and "\<And>k. k < length js \<Longrightarrow> claim_of (js ! k) \<noteq> 0 \<Longrightarrow> (claim_of (js ! k), roots (js ! k)) \<in> set (pathClaims p)"
    and "\<And>k m. k < length js \<Longrightarrow> m < length js \<Longrightarrow> k \<noteq> m \<Longrightarrow> claim_of (js ! k) \<noteq> 0 \<Longrightarrow> claim_of (js ! k) \<noteq> claim_of (js ! m)"
    and "\<And>k g. k < length js \<Longrightarrow> job_pc (js ! k) = PathWait g \<Longrightarrow>
          g \<le> pathChanged p \<and> (g = pathChanged p \<longrightarrow> pathsConflictLocked F p (roots (js ! k)))"
  shows "path_inv F (p, js)"
  using assms unfolding path_inv_def by blast

lemma path_inv_same:
  assumes inv: "path_inv F (p, js)" and i: "i < length js"
    and p': "pathClaims p' = pathClaims p" "pathChanged p' = pathChanged p" "nextPathClaim p' = nextPathClaim p"
    and j': "claim_of j' = claim_of (js ! i)" "claim_of (js ! i) \<noteq> 0 \<longrightarrow> roots j' = roots (js ! i)"
      "\<And>g. job_pc j' = PathWait g \<Longrightarrow> g = pathChanged p \<and> pathsConflictLocked F p (roots j')"
  shows "path_inv F (p', js[i := j'])"
proof -
  have cl: "claim_of (js[i := j'] ! k) = claim_of (js ! k)" for k
    using j'(1) i by (cases "k = i") auto
  have conf: "pathsConflictLocked F p' rs = pathsConflictLocked F p rs" for rs
    by (simp add: pathsConflictLocked_def p')
  show ?thesis
  proof (rule path_invI, goal_cases)
    case 1 then show ?case using path_invD(1) [OF inv] p' by simp
  next
    case (2 n c) then show ?case using path_invD(2) [OF inv] p' cl by simp
  next
    case (3 k) then show ?case using path_invD(3) [OF inv, of k] p' j'(1,2) i by (cases "k = i") auto
  next
    case (4 k m) then show ?case using path_invD(4) [OF inv, of k m] cl by simp
  next
    case (5 k g) then show ?case
      using path_invD(5) [OF inv, of k g] p'(2) j'(3) [of g] conf i by (cases "k = i") auto
  qed
qed

lemma path_inv_claim:
  assumes inv: "path_inv F (p, js)" and i: "i < length js"
    and c: "\<not> pathsConflictLocked F p (roots (js ! i))" "claim_of (js ! i) = 0" "claim_of j' = Suc (nextPathClaim p)"
      "roots j' = roots (js ! i)" "job_pc j' = SemTry" "pathChanged p' = pathChanged p"
      "pathClaims p' = (Suc (nextPathClaim p), roots (js ! i)) # pathClaims p" "nextPathClaim p' = Suc (nextPathClaim p)"
  shows "path_inv F (p', js[i := j'])"
proof -
  have old: "claim_of (js ! k) \<noteq> Suc (nextPathClaim p)" if "k < length js" for k
    using path_invD(2,3) [OF inv] that by fastforce
  have mono: "pathsConflictLocked F p rs \<Longrightarrow> pathsConflictLocked F p' rs" for rs
    by (auto simp: pathsConflictLocked_def c(7))
  have keep: "claim_of (js ! k) = n \<Longrightarrow> 0 < n \<Longrightarrow> k \<noteq> i" for k n using c(2) by auto
  show ?thesis
  proof (rule path_invI, goal_cases)
    case 1 then show ?case
      using claims.apart_Cons [OF path_invD(1) [OF inv], of "roots (js ! i)"] c(1) by (simp add: c(7) pathsConflictLocked_def)
  next
    case (2 n d)
    then consider "n = Suc (nextPathClaim p)" | "(n, d) \<in> set (pathClaims p)" by (auto simp: c(7))
    then show ?case
    proof cases
      case 1 then show ?thesis using i c(3,8) by (auto intro!: exI [of _ i])
    next
      case 2
      then obtain k where k: "0 < n" "n \<le> nextPathClaim p" "k < length js" "claim_of (js ! k) = n"
        using path_invD(2) [OF inv] by blast
      with keep have "k \<noteq> i" by blast
      then have "js[i := j'] ! k = js ! k" by simp
      with k show ?thesis by (auto simp: c(8) intro!: exI [of _ k])
    qed
  next
    case (3 k) then show ?case using path_invD(3) [OF inv, of k] i c by (cases "k = i") auto
  next
    case (4 k m) then show ?case
      using path_invD(4) [OF inv, of k m] old [of k] old [of m] i c(3) by (cases "k = i"; cases "m = i") auto
  next
    case (5 k g) then show ?case
      using path_invD(5) [OF inv, of k g] mono c(5,6) i by (cases "k = i") auto
  qed
qed

lemma path_inv_release:
  assumes inv: "path_inv F (p, js)" and i: "i < length js"
    and c: "claim_of (js ! i) \<noteq> 0" "claim_of j' = 0" "job_pc j' = Finished r" "pathChanged p' = Suc (pathChanged p)"
      "pathClaims p' = filter (\<lambda>(n, _). n \<noteq> claim_of (js ! i)) (pathClaims p)" "nextPathClaim p' = nextPathClaim p"
  shows "path_inv F (p', js[i := j'])"
proof (rule path_invI, goal_cases)
  case 1 then show ?case using claims.apart_filter [OF path_invD(1) [OF inv]] by (simp add: c(5))
next
  case (2 n d)
  then have n: "(n, d) \<in> set (pathClaims p)" "n \<noteq> claim_of (js ! i)" by (auto simp: c(5))
  then obtain k where "0 < n" "n \<le> nextPathClaim p" "k < length js" "claim_of (js ! k) = n"
    using path_invD(2) [OF inv] by blast
  moreover from this n(2) have "k \<noteq> i" by blast
  ultimately show ?case by (auto simp: c(6) intro!: exI [of _ k])
next
  case (3 k)
  then have "k \<noteq> i" using c(2) i by auto
  with 3 path_invD(3) [OF inv, of k] path_invD(4) [OF inv, of k i] i show ?case by (auto simp: c(5))
next
  case (4 k m) then show ?case
    using path_invD(4) [OF inv, of k m] i c(2) by (cases "k = i"; cases "m = i") auto
next
  case (5 k g) then show ?case
    using path_invD(5) [OF inv, of k g] c(3,4) i by (cases "k = i") auto
qed

lemma path_inv_step:
  assumes inv: "path_inv F (p, js)" and ok: "\<forall>j \<in> set js. job_ok j" and i: "i < length js"
    and st: "job_step F ev p (js ! i) = Some (p', j')"
  shows "path_inv F (p', js[i := j'])"
  using st nth_mem [OF i] ok
  by (elim step_paths) (use path_inv_same [OF inv i] path_inv_claim [OF inv i] path_inv_release [OF inv i] in blast)+

section \<open>Worker slots and admission waits\<close>

definition slot_inv :: "pool \<times> job list \<Rightarrow> bool" where
  "slot_inv s \<longleftrightarrow> (case s of (p, js) \<Rightarrow>
     int (sem p) = int (jcount (\<lambda>j. job_pc j = Running) js) \<and> sem p \<le> workers p)"

lemma step_slots:
  assumes "job_step F ev p j = Some (p', j')" and "job_ok j" and "sem p \<le> workers p"
  shows "workers p' = workers p \<and> sem p' \<le> workers p
     \<and> int (sem p') = int (sem p) - of_bool (job_pc j = Running) + of_bool (job_pc j' = Running)"
proof (cases ev)
  case Go
  with assms show ?thesis
    by (cases "job_pc j"; cases "request j")
      (auto simp: step_defs lockKey_enter_def take_lock_def releaseRef_def drop_ref_def unlockKey_def unlockPaths_def
        split: if_splits option.splits)
next
  case CtxDone
  with assms show ?thesis by (cases "job_pc j") auto
next
  case (Return r)
  with assms show ?thesis by (auto split: if_splits)
qed

lemma slot_inv_step:
  assumes "slot_inv (p, js)" and "\<forall>j \<in> set js. job_ok j" and "i < length js"
    and "job_step F ev p (js ! i) = Some (p', j')"
  shows "slot_inv (p', js[i := j']) \<and> workers p' = workers p"
proof -
  have s: "int (sem p) = int (jcount (\<lambda>j. job_pc j = Running) js)" "sem p \<le> workers p" "job_ok (js ! i)"
    using assms(1-3) by (simp_all add: slot_inv_def)
  from step_slots [OF assms(4) s(3,2)] s jcount_update [OF assms(3), of "\<lambda>j. job_pc j = Running" j']
  show ?thesis unfolding slot_inv_def by simp
qed

fun wait_pc :: "job_pc \<Rightarrow> bool" where
  "wait_pc (KeyWait a) = True" | "wait_pc (KeyCancel a) = True" | "wait_pc (PathWait g) = True" | "wait_pc SemWait = True"
| "wait_pc _ = False"

fun past_admission :: "job_pc \<Rightarrow> bool" where
  "past_admission Running = True" | "past_admission (Leaving r) = True" | "past_admission (Finished r) = True"
| "past_admission _ = False"

text \<open>The admission wait of a job is open exactly from its first wait to the start of its function.\<close>

definition wait_ok :: "controller option \<Rightarrow> bool \<Rightarrow> bool" where
  "wait_ok w r \<longleftrightarrow> (case w of
       None \<Rightarrow> \<not> r
     | Some c \<Rightarrow> waitDepth c = of_bool r \<and> phase c = (if r then PhaseWaitingAdmission else PhaseRunning))"

definition watch_ok :: "job \<Rightarrow> bool" where
  "watch_ok j \<longleftrightarrow> wait_ok (watch j) (resume j)
     \<and> (resume j \<longrightarrow> waited j) \<and> (notified j \<longrightarrow> waited j) \<and> (wait_pc (job_pc j) \<longrightarrow> waited j)
     \<and> (\<not> past_admission (job_pc j) \<and> waited j \<and> watch j \<noteq> None \<longrightarrow> resume j)
     \<and> (job_pc j = Running \<or> (\<exists>r. job_pc j = Finished r) \<longrightarrow> \<not> resume j)"

lemma wait_ok_end: "wait_ok (Some c) True \<Longrightarrow> wait_ok (Some (signalChanged (endWait c))) False"
  by (simp add: wait_ok_def endWait_def signalChanged_def Let_def)

lemma wait_ok_begin: "wait_ok (Some c) False \<Longrightarrow> beginWait PhaseWaitingAdmission c = Some c' \<Longrightarrow> wait_ok (Some (signalChanged c')) True"
  by (auto simp: wait_ok_def beginWait_def signalChanged_def)

lemma wait_ok_None [simp]: "wait_ok None r \<longleftrightarrow> \<not> r"
  by (simp add: wait_ok_def)

lemma call_resume_ok:
  assumes "wait_ok (watch j) (resume j)"
  shows "wait_ok (watch (call_resume j)) False" and "\<not> resume (call_resume j)" and "waited (call_resume j) = waited j"
    and "notified (call_resume j) = notified j"
proof -
  show "\<not> resume (call_resume j)" "waited (call_resume j) = waited j" "notified (call_resume j) = notified j"
    by (simp_all add: call_resume_def)
  show "wait_ok (watch (call_resume j)) False"
  proof (cases "resume j")
    case True
    with assms obtain c where "watch j = Some c" by (cases "watch j") simp_all
    with True assms wait_ok_end [of c] show ?thesis by (simp add: call_resume_def)
  next
    case False
    with assms show ?thesis by (simp add: call_resume_def)
  qed
qed

lemma notify_waiting_fields:
  "st \<noteq> StateRunning \<Longrightarrow> waited (notify st j) \<and> watch (notify st j) = watch (if waited j then j else beginAdmissionWait j)
   \<and> resume (notify st j) = resume (if waited j then j else beginAdmissionWait j)"
  by (cases st) (simp_all add: notify_def Let_def)

lemma beginAdmissionWait_ok:
  "wait_ok (watch j) (resume j) \<Longrightarrow> \<not> resume j \<Longrightarrow>
   wait_ok (watch (beginAdmissionWait j)) (resume (beginAdmissionWait j))
   \<and> resume (beginAdmissionWait j) = (watch (beginAdmissionWait j) \<noteq> None)"
  using wait_ok_begin by (cases "watch j") (simp_all add: beginAdmissionWait_def beginWait_def)

lemma notify_waiting_ok:
  assumes "watch_ok j" and "\<not> past_admission (job_pc j)" and "st \<noteq> StateRunning"
  shows "waited (notify st j)" and "resume (notify st j) \<longleftrightarrow> watch (notify st j) \<noteq> None"
    and "wait_ok (watch (notify st j)) (resume (notify st j))"
proof -
  have j: "wait_ok (watch j) (resume j)" "resume j \<longrightarrow> waited j" "waited j \<and> watch j \<noteq> None \<longrightarrow> resume j"
    using assms(1,2) by (auto simp: watch_ok_def)
  let ?b = "if waited j then j else beginAdmissionWait j"
  note n = notify_waiting_fields [OF assms(3), of j]
  have b: "wait_ok (watch ?b) (resume ?b) \<and> (resume ?b \<longleftrightarrow> watch ?b \<noteq> None)"
  proof (cases "waited j")
    case True
    with j show ?thesis by (cases "watch j") simp_all
  next
    case False
    with j(2) have "\<not> resume j" by blast
    from beginAdmissionWait_ok [OF j(1) this] show ?thesis unfolding if_not_P [OF False] .
  qed
  show "waited (notify st j)" using n by blast
  have eq: "watch (notify st j) = watch ?b" "resume (notify st j) = resume ?b" using n by blast+
  show "wait_ok (watch (notify st j)) (resume (notify st j))" unfolding eq using b by blast
  show "resume (notify st j) \<longleftrightarrow> watch (notify st j) \<noteq> None" unfolding eq using b by blast
qed

lemma notify_running_ok:
  assumes "wait_ok (watch j) (resume j)"
  shows "\<not> resume (notify StateRunning j)" and "waited (notify StateRunning j) = waited j"
    and "wait_ok (watch (notify StateRunning j)) False"
  using call_resume_ok [OF assms] by (simp_all add: notify_def Let_def)

lemma watch_ok_finish: "watch_ok j \<Longrightarrow> watch_ok (finish r j)"
  using call_resume_ok [of j] unfolding watch_ok_def finish_def by simp

lemma watch_ok_waiting:
  assumes "watch_ok j" and "\<not> past_admission (job_pc j)" and "st \<noteq> StateRunning" and "\<not> past_admission pc'"
  shows "watch_ok ((notify st j)\<lparr>job_pc := pc'\<rparr>)" and "watch_ok ((notify st j)\<lparr>notified := True, job_pc := pc'\<rparr>)"
  using notify_waiting_ok [OF assms(1-3)] assms(4) unfolding watch_ok_def by auto

lemma watch_ok_running: "watch_ok j \<Longrightarrow> watch_ok ((if waited j then notify StateRunning j else j)\<lparr>job_pc := Running\<rparr>)"
  using notify_running_ok [of j] unfolding watch_ok_def by (cases "waited j") auto

text \<open>A step that leaves the notifications alone.\<close>

lemma watch_ok_move:
  assumes "watch_ok j" and "watch j' = watch j" "resume j' = resume j" "waited j' = waited j" "notified j' = notified j"
    and "wait_pc (job_pc j') \<longrightarrow> waited j" and "past_admission (job_pc j) \<longrightarrow> past_admission (job_pc j')"
    and "job_pc j' \<noteq> Running" and "\<And>r. job_pc j' \<noteq> Finished r"
  shows "watch_ok j'"
  using assms unfolding watch_ok_def by auto

lemma watch_ok_step:
  assumes st: "job_step F ev p j = Some (p', j')" and ok: "watch_ok j"
  shows "watch_ok j'"
proof (cases ev)
  case Go
  show ?thesis
  proof (cases "job_pc j")
    case Start
    then have "watch j' = watch j" "resume j' = resume j" "waited j' = waited j" "notified j' = notified j"
      "job_pc j' = SemTry \<or> job_pc j' = PathTry \<or> (\<exists>a. job_pc j' = KeyTry a)"
      using Go st by (auto simp: enter_def Let_def split: if_splits request.splits prod.splits)
    then show ?thesis using Start by (intro watch_ok_move [OF ok]) auto
  next
    case (KeyTry a)
    show ?thesis
    proof (cases "take_lock a p")
      case None
      with Go KeyTry st watch_ok_waiting(1) [OF ok, of StateWaitingResource "KeyWait a"] show ?thesis by simp
    next
      case (Some q)
      with Go KeyTry st show ?thesis by (intro watch_ok_move [OF ok]) (auto simp: key_taken_def)
    qed
  next
    case (KeyWait a)
    with Go st show ?thesis by (intro watch_ok_move [OF ok]) (auto simp: key_taken_def)
  next
    case PathTry
    show ?thesis
    proof (cases "pathsConflictLocked F p (roots j)")
      case True
      with Go PathTry st ok watch_ok_waiting(2) [OF ok, of StateWaitingResource "PathWait (pathChanged p)"]
      show ?thesis by (cases "notified j") (auto simp: try_paths_def watch_ok_def)
    next
      case False
      with Go PathTry st show ?thesis by (intro watch_ok_move [OF ok]) (auto simp: try_paths_def add_claim_def)
    qed
  next
    case (PathWait g)
    with Go st show ?thesis by (intro watch_ok_move [OF ok]) (auto split: if_splits)
  next
    case SemTry
    with Go st watch_ok_waiting(1) [OF ok, of StateWaitingWorker SemWait] watch_ok_running [OF ok] show ?thesis
      by (cases "sem p < workers p") (auto simp: take_slot_def)
  next
    case SemWait
    with Go st watch_ok_running [OF ok] show ?thesis by (cases "sem p < workers p") (auto simp: take_slot_def)
  next
    case (Leaving r)
    with Go st watch_ok_finish [OF ok, of r] show ?thesis by (auto simp: leave_def split: if_splits request.splits)
  next
    case (KeyCancel a)
    with Go st watch_ok_finish [OF ok, of CtxErr] show ?thesis by auto
  qed (use Go st in simp_all)
next
  case CtxDone
  show ?thesis
  proof (cases "job_pc j")
    case (KeyWait a)
    with CtxDone st ok show ?thesis by (intro watch_ok_move [OF ok]) (auto simp: watch_ok_def)
  next
    case (PathWait g)
    with CtxDone st watch_ok_finish [OF ok, of CtxErr] show ?thesis by auto
  next
    case SemWait
    with CtxDone st show ?thesis by (intro watch_ok_move [OF ok]) auto
  qed (use CtxDone st in simp_all)
next
  case (Return r)
  with st show ?thesis by (intro watch_ok_move [OF ok]) (auto split: if_splits)
qed

section \<open>Reachable states\<close>

lemma initial_job_simps: "initial_job j \<Longrightarrow> job_pc j = Start \<and> job_ok j \<and> watch_ok j \<and> claim_of j = 0 \<and> refers j = None \<and> holds j = None"
  by (auto simp: initial_job_def new_job_def job_ok_def watch_ok_def wait_ok_def claim_of_def refers_def holds_def split: request.splits)

lemma initial_invariants:
  assumes "\<forall>j \<in> set js. initial_job j"
  shows "key_inv (New n, js)" and "path_inv F (New n, js)" and "slot_inv (New n, js)"
proof -
  have nth: "initial_job (js ! k)" if "k < length js" for k using assms that by simp
  show "key_inv (New n, js)" using initial_job_simps assms by (intro key_invI) (auto simp: New_def)
  show "path_inv F (New n, js)"
    using initial_job_simps [OF nth] by (intro path_invI) (auto simp: New_def claims.apart_Nil)
  have "filter (\<lambda>j. job_pc j = Running) js = []" using initial_job_simps assms by (auto simp: filter_empty_conv)
  then show "slot_inv (New n, js)" by (simp add: slot_inv_def New_def jcount_def)
qed

definition pool_inv :: "'i fs \<Rightarrow> int \<Rightarrow> pool \<times> job list \<Rightarrow> bool" where
  "pool_inv F n s \<longleftrightarrow> key_inv s \<and> path_inv F s \<and> slot_inv s \<and> (\<forall>j \<in> set (snd s). job_ok j \<and> watch_ok j)
     \<and> workers (fst s) = nat (if n < 1 then 1 else n)"

theorem reachable_inv: "reachable F n s \<Longrightarrow> pool_inv F n s"
proof (induction rule: reachable.induct)
  case (init js)
  have "workers (New n) = nat (if n < 1 then 1 else n)" by (simp add: New_def)
  with init initial_invariants [OF init] initial_job_simps show ?case unfolding pool_inv_def by simp
next
  case (step s s')
  obtain i js ev p p' j' where s: "s = (p, js)" "s' = (p', js[i := j'])" "i < length js"
    and st: "job_step F ev p (js ! i) = Some (p', j')"
    using step.hyps(2) by (auto elim: pool_stepE)
  have inv: "key_inv (p, js)" "path_inv F (p, js)" "slot_inv (p, js)" "\<forall>j \<in> set js. job_ok j" "\<forall>j \<in> set js. watch_ok j"
    "workers p = nat (if n < 1 then 1 else n)"
    using step.IH s(1) by (auto simp: pool_inv_def)
  have new: "job_ok j' \<and> watch_ok j'"
    using job_step_ok [OF st] watch_ok_step [OF st] inv(4,5) s(3) by simp
  then have "\<forall>j \<in> set (js[i := j']). job_ok j \<and> watch_ok j"
    using set_update_cases [of _ js i j'] inv(4,5) nth_mem by blast
  then show ?case
    using key_inv_step [OF inv(1,4) s(3) st] path_inv_step [OF inv(2,4) s(3) st] slot_inv_step [OF inv(3,4) s(3) st] inv(6)
    by (simp add: pool_inv_def s(2))
qed

section \<open>What the pool guarantees\<close>

text \<open>At most as many jobs run at the same time as the pool has workers, in every interleaving.\<close>

theorem workers_bounded:
  assumes "reachable F n (p, js)"
  shows "length (filter (\<lambda>j. job_pc j = Running) js) \<le> (if n < 1 then 1 else nat n)"
  using reachable_inv [OF assms] by (auto simp: pool_inv_def slot_inv_def jcount_def split: if_splits)

lemma live_holds:
  assumes "job_ok j" and "request j = ByKey key" and "key \<noteq> []" and "live (job_pc j)"
  obtains a where "holds j = Some a" and "refers j = Some a"
proof -
  have "\<exists>a. lock_at j = Some a" using assms by (simp add: job_ok_def)
  then obtain a where "holds j = Some a" using assms(4) by (auto simp: holds_def)
  with holds_refers [OF assms(1)] show thesis using that by blast
qed

text \<open>Jobs with the same non-empty key never run at the same time; a lock that is dropped from the map
  when its last reference goes and created again does not let a second one in.\<close>

theorem same_key_excluded:
  assumes "reachable F n (p, js)" and "i < length js" and "k < length js" and "i \<noteq> k"
    and "request (js ! i) = ByKey key" and "request (js ! k) = ByKey key" and "key \<noteq> []" and "job_pc (js ! i) = Running"
  shows "job_pc (js ! k) \<noteq> Running"
proof
  assume run: "job_pc (js ! k) = Running"
  have inv: "key_inv (p, js)" "job_ok (js ! i)" "job_ok (js ! k)"
    using reachable_inv [OF assms(1)] assms(2,3) by (auto simp: pool_inv_def)
  have lv: "live (job_pc (js ! i))" "live (job_pc (js ! k))" using assms(8) run by simp_all
  obtain a where a: "holds (js ! i) = Some a" "refers (js ! i) = Some a"
    by (rule live_holds [OF inv(2) assms(5,7) lv(1)])
  obtain b where b: "holds (js ! k) = Some b" "refers (js ! k) = Some b"
    by (rule live_holds [OF inv(3) assms(6,7) lv(2)])
  have "keyLocks p key = Some a" "keyLocks p key = Some b"
    using key_invD(1) [OF inv(1) nth_mem [OF assms(2)] a(2)] key_invD(1) [OF inv(1) nth_mem [OF assms(3)] b(2)] assms(5,6)
    by (simp_all add: request_key_def)
  then have "a = b" and "lock_ok p js a" using key_invD(2) [OF inv(1)] by auto
  with jcount_two [OF assms(2-4), of "\<lambda>j. holds j = Some a"] a b show False
    by (cases "lock_full (locks p a)") (auto simp: lock_ok_def)
qed

text \<open>C18. Jobs admitted by path never run at the same time on overlapping roots: no root of one lies in, or
  is the same file as an ancestor of, a root of the other.\<close>

theorem overlapping_roots_excluded:
  assumes "reachable F n (p, js)" and "i < length js" and "k < length js" and "i \<noteq> k"
    and "job_pc (js ! i) = Running" and "job_pc (js ! k) = Running"
    and "a \<in> set (roots (js ! i))" and "b \<in> set (roots (js ! k))"
  shows "\<not> pathsOverlap F a b"
proof -
  have inv: "path_inv F (p, js)" "job_ok (js ! i)" "job_ok (js ! k)"
    using reachable_inv [OF assms(1)] assms(2,3) by (auto simp: pool_inv_def)
  have c: "claim_of (js ! i) \<noteq> 0" "claim_of (js ! k) \<noteq> 0"
    using inv(2,3) assms(5-8) by (auto simp: job_ok_def claim_of_def split: request.splits)
  have "\<not> paths_conflict F (roots (js ! i)) (roots (js ! k))"
    by (rule claims.apartD [OF path_invD(1) [OF inv(1)] path_invD(3) [OF inv(1) assms(2) c(1)]
          path_invD(3) [OF inv(1) assms(3) c(2)] path_invD(4) [OF inv(1) assms(2-4) c(1)]])
  with assms(7,8) show ?thesis by (auto simp: paths_conflict_def)
qed

text \<open>A job can take its next step, without the help of a cancelled context.\<close>

abbreviation can_go :: "'i fs \<Rightarrow> pool \<Rightarrow> job \<Rightarrow> bool" where
  "can_go F p j \<equiv> job_step F Go p j \<noteq> None"

lemma live_can_go:
  assumes inv: "key_inv (p, js)" and i: "i < length js" and ok: "job_ok (js ! i)"
    and live: "live (job_pc (js ! i))" "job_pc (js ! i) \<noteq> Running" and slots: "sem p < workers p"
  shows "can_go F p (js ! i)"
proof (cases "job_pc (js ! i)")
  case (Leaving r)
  have "unlockKey key p \<noteq> None" if key: "request (js ! i) = ByKey key" "key \<noteq> []" for key
  proof -
    obtain a where a: "holds (js ! i) = Some a" "refers (js ! i) = Some a"
      by (rule live_holds [OF ok key live(1)])
    have ka: "keyLocks p key = Some a"
      using key_invD(1) [OF inv nth_mem [OF i] a(2)] key(1) by (simp add: request_key_def)
    have "jcount (\<lambda>j. holds j = Some a) js > 0" using a(1) i by (auto simp: jcount_pos)
    then have "lock_full (locks p a)" using key_invD(2) [OF inv ka] by (auto simp: lock_ok_def of_bool_def split: if_splits)
    with ka show ?thesis by (simp add: unlockKey_def)
  qed
  with Leaving show ?thesis by (auto simp: leave_def split: request.splits)
qed (use live slots in \<open>auto simp: take_slot_def split: option.splits\<close>)

text \<open>C28. The pool does not deadlock: whenever a job has entered and not finished and no job's function is
  running, some entered job can take its next step. A waiter on a key or a claim is always matched by a
  holder that can proceed, and a wake-up is never missed.\<close>

theorem pool_not_stuck:
  assumes "reachable F n (p, js)" and "\<forall>j \<in> set js. job_pc j \<noteq> Running"
    and "i < length js" and "job_pc (js ! i) \<noteq> Start" and "\<And>r. job_pc (js ! i) \<noteq> Finished r"
  shows "\<exists>k < length js. job_pc (js ! k) \<noteq> Start \<and> job_step F Go p (js ! k) \<noteq> None"
proof -
  have inv: "key_inv (p, js)" "path_inv F (p, js)" "slot_inv (p, js)" "\<forall>j \<in> set js. job_ok j"
    "workers p = nat (if n < 1 then 1 else n)"
    using reachable_inv [OF assms(1)] by (auto simp: pool_inv_def)
  have "filter (\<lambda>j. job_pc j = Running) js = []" using assms(2) by (simp add: filter_empty_conv)
  then have slots: "sem p < workers p" using inv(3,5) by (simp add: slot_inv_def jcount_def)
  have holder: ?thesis if "k < length js" "live (job_pc (js ! k))" for k
    using live_can_go [OF inv(1) that(1) _ that(2) _ slots] inv(4) assms(2) that by (metis live.simps(5) nth_mem)
  have oki: "job_ok (js ! i)" using inv(4) assms(3) by simp
  show ?thesis
  proof (cases "job_pc (js ! i)")
    case (KeyWait a)
    show ?thesis
    proof (cases "lock_full (locks p a)")
      case True
      have "keyLocks p (request_key (js ! i)) = Some a"
        using key_invD(1) [OF inv(1) nth_mem [OF assms(3)]] KeyWait by (simp add: refers_def)
      then have "jcount (\<lambda>j. holds j = Some a) js > 0" using key_invD(2) [OF inv(1)] True by (force simp: lock_ok_def)
      then obtain k where "k < length js" "holds (js ! k) = Some a" by (auto simp: jcount_pos)
      with holder show ?thesis by (metis holds_def option.distinct(1))
    next
      case False
      with KeyWait assms(3) show ?thesis by (intro exI [of _ i]) (simp add: take_lock_def)
    qed
  next
    case (PathWait g)
    show ?thesis
    proof (cases "g < pathChanged p")
      case True
      with PathWait assms(3) show ?thesis by (intro exI [of _ i]) simp
    next
      case False
      with path_invD(5) [OF inv(2) assms(3) PathWait] have "pathsConflictLocked F p (roots (js ! i))" by simp
      then obtain m c where "(m, c) \<in> set (pathClaims p)" by (auto simp: pathsConflictLocked_def)
      with path_invD(2) [OF inv(2)] obtain k where "k < length js" "claim_of (js ! k) = m" "0 < m" by blast
      with holder show ?thesis by (metis claim_of_def less_irrefl)
    qed
  next
    case (KeyTry a)
    with assms(3) show ?thesis by (intro exI [of _ i]) (simp split: option.splits)
  next
    case Running
    with assms(2,3) show ?thesis by simp
  next
    case SemTry
    with holder [OF assms(3)] show ?thesis by simp
  next
    case SemWait
    with holder [OF assms(3)] show ?thesis by simp
  next
    case (Leaving r)
    with holder [OF assms(3)] show ?thesis by simp
  qed (use assms(3-5) in \<open>auto intro!: exI [of _ i]\<close>)
qed

text \<open>Nothing leaks: when every job has finished, all worker slots are free, no key lock is left in the
  map and no path is claimed.\<close>

theorem finished_pool_empty:
  assumes "reachable F n (p, js)" and "\<forall>j \<in> set js. \<exists>r. job_pc j = Finished r"
  shows "sem p = 0 \<and> keyLocks p = Map.empty \<and> pathClaims p = []"
proof -
  have inv: "key_inv (p, js)" "path_inv F (p, js)" "slot_inv (p, js)"
    using reachable_inv [OF assms(1)] by (auto simp: pool_inv_def)
  have fin: "refers j = None \<and> claim_of j = 0 \<and> job_pc j \<noteq> Running" if "j \<in> set js" for j
    using assms(2) that by (auto simp: refers_def holds_def claim_of_def)
  have none: "jcount (\<lambda>j. refers j = Some a) js = 0" "jcount (\<lambda>j. job_pc j = Running) js = 0" for a
    using fin by (auto simp: jcount_def filter_empty_conv)
  have "keyLocks p k = None" for k
    using key_invD(2) [OF inv(1), of k] none(1) by (cases "keyLocks p k") (auto simp: lock_ok_def)
  moreover have "set (pathClaims p) = {}"
    using path_invD(2) [OF inv(2)] fin by (metis all_not_in_conv less_irrefl nth_mem surj_pair)
  ultimately show ?thesis using inv(3) none(2) by (auto simp: slot_inv_def)
qed

text \<open>Waiting for admission pauses the idle watchdog and nothing else does: while a job waits for its key,
  its roots or a worker, the wait is open on its watchdog; once its function runs or the call has
  returned, the wait is closed and the watchdog is in the running phase again.\<close>

theorem admission_pauses_watchdog:
  assumes "reachable F n (p, js)" and "j \<in> set js" and "watch j = Some c"
  shows "(wait_pc (job_pc j) \<longrightarrow> waitDepth c = 1 \<and> phasePausesWatchdog (phase c))
     \<and> (job_pc j = Running \<or> (\<exists>r. job_pc j = Finished r) \<longrightarrow> waitDepth c = 0 \<and> phase c = PhaseRunning)"
proof -
  have ok: "watch_ok j" using reachable_inv [OF assms(1)] assms(2) by (simp add: pool_inv_def)
  have "\<not> past_admission (job_pc j)" if "wait_pc (job_pc j)" using that by (cases "job_pc j") auto
  with ok assms(3) show ?thesis by (auto simp: watch_ok_def wait_ok_def)
qed

section \<open>Sample schedules\<close>

text \<open>A schedule executes one action after the other; its states are reachable.\<close>

fun run_schedule :: "'i fs \<Rightarrow> (nat \<times> event) list \<Rightarrow> pool \<times> job list \<Rightarrow> (pool \<times> job list) option" where
  "run_schedule F [] s = Some s"
| "run_schedule F ((i, ev) # evs) (p, js) =
     (if i < length js then (case job_step F ev p (js ! i) of
        Some (p', j') \<Rightarrow> run_schedule F evs (p', js[i := j']) | None \<Rightarrow> None) else None)"

lemma run_schedule_reachable:
  "run_schedule F evs s = Some s' \<Longrightarrow> reachable F n s \<Longrightarrow> reachable F n s'"
proof (induction F evs s rule: run_schedule.induct)
  case (2 F i ev evs p js)
  then obtain p' j' where i: "i < length js" and st: "job_step F ev p (js ! i) = Some (p', j')"
    and rest: "run_schedule F evs (p', js[i := j']) = Some s'"
    by (auto split: if_splits option.splits prod.splits)
  have "reachable F n (p', js[i := j'])"
    by (rule reachable.step [OF "2.prems"(2) pool_step.intros [OF i st]])
  with "2.IH" [OF i st refl] rest show ?case by blast
qed simp

definition sample_jobs :: "request \<Rightarrow> request \<Rightarrow> job list" where
  "sample_jobs r1 r2 = [new_job r1 True (Some \<lparr>phase = PhaseRunning, waitDepth = 0, changed = False\<rparr>),
     new_job r2 True (Some \<lparr>phase = PhaseRunning, waitDepth = 0, changed = False\<rparr>)]"

lemma sample_jobs_reachable:
  "run_schedule F evs (New n, sample_jobs r1 r2) = Some s \<Longrightarrow> reachable F n s"
proof -
  have "initial_job (new_job r True (Some \<lparr>phase = PhaseRunning, waitDepth = 0, changed = False\<rparr>))" for r
    unfolding initial_job_def by blast
  then have "reachable F n (New n, sample_jobs r1 r2)" by (intro reachable.init) (simp add: sample_jobs_def)
  then show "run_schedule F evs (New n, sample_jobs r1 r2) = Some s \<Longrightarrow> ?thesis" by (rule run_schedule_reachable [rotated])
qed

lemmas schedule_simps = sample_jobs_def new_job_def New_def step_defs lockKey_enter_def take_lock_def unlockKey_def
  unlockPaths_def drop_ref_def pathsConflictLocked_def notify_def beginAdmissionWait_def beginWait_def endWait_def
  signalChanged_def call_resume_def finish_def

lemma sample_contention:
  "\<exists>p j0 j1. reachable sample_fs 1 (p, [j0, j1]) \<and> job_pc j0 = Running \<and> job_pc j1 = KeyWait 0
     \<and> request j0 = ByKey ''k'' \<and> request j1 = ByKey ''k'' \<and> watch j1 \<noteq> None"
proof -
  obtain p j0 j1 where s: "run_schedule sample_fs [(0, Go), (0, Go), (0, Go), (1, Go), (1, Go)]
      (New 1, sample_jobs (ByKey ''k'') (ByKey ''k'')) = Some (p, [j0, j1])"
    and f: "job_pc j0 = Running" "job_pc j1 = KeyWait 0" "request j0 = ByKey ''k''" "request j1 = ByKey ''k''" "watch j1 \<noteq> None"
    by (simp add: schedule_simps)
  from sample_jobs_reachable [OF s] f show ?thesis by blast
qed

theorem workers_bounded_witness:
  "\<exists>p j0 j1. job_pc j0 = Running \<and> length (filter (\<lambda>j. job_pc j = Running) [j0, j1]) \<le> 1 \<and> reachable sample_fs 1 (p, [j0, j1])"
proof -
  obtain p j0 j1 where s: "reachable sample_fs 1 (p, [j0, j1])" "job_pc j0 = Running" using sample_contention by blast
  from workers_bounded [OF s(1)] have "length (filter (\<lambda>j. job_pc j = Running) [j0, j1]) \<le> 1" by simp
  with s show ?thesis by blast
qed

theorem same_key_excluded_witness:
  "\<exists>p j0 j1. reachable sample_fs 1 (p, [j0, j1]) \<and> job_pc j0 = Running \<and> job_pc j1 \<noteq> Running"
proof -
  obtain p j0 j1 where s: "reachable sample_fs 1 (p, [j0, j1])" "job_pc j0 = Running"
    "request j0 = ByKey ''k''" "request j1 = ByKey ''k''"
    using sample_contention by blast
  have "job_pc ([j0, j1] ! 1) \<noteq> Running"
    by (rule same_key_excluded [OF s(1), of 0 1 "''k''"]) (simp_all add: s)
  with s show ?thesis by auto
qed

theorem admission_pauses_watchdog_witness:
  "\<exists>p j0 j1 c. reachable sample_fs 1 (p, [j0, j1]) \<and> watch j1 = Some c \<and> waitDepth c = 1 \<and> phasePausesWatchdog (phase c)"
proof -
  obtain p j0 j1 c where s: "reachable sample_fs 1 (p, [j0, j1])" "job_pc j1 = KeyWait 0" "watch j1 = Some c"
    using sample_contention by blast
  with admission_pauses_watchdog [OF s(1), of j1 c] show ?thesis by auto
qed

theorem pool_not_stuck_witness:
  "\<exists>s k. run_schedule sample_fs [(0, Go)] (New 1, sample_jobs (ByKey ''k'') (ByKey ''k'')) = Some s
     \<and> job_step sample_fs Go (fst s) (snd s ! k) \<noteq> None \<and> job_pc (snd s ! k) \<noteq> Start"
proof -
  obtain p js where s: "run_schedule sample_fs [(0, Go)] (New 1, sample_jobs (ByKey ''k'') (ByKey ''k'')) = Some (p, js)"
    and f: "\<forall>j \<in> set js. job_pc j \<noteq> Running" "length js = 2" "job_pc (js ! 0) = KeyTry 0"
    by (simp add: schedule_simps)
  have "\<exists>k < length js. job_pc (js ! k) \<noteq> Start \<and> job_step sample_fs Go p (js ! k) \<noteq> None"
    by (rule pool_not_stuck [OF sample_jobs_reachable [OF s] f(1), of 0]) (simp_all add: f)
  with s show ?thesis by (metis fst_conv snd_conv)
qed

theorem finished_pool_empty_witness:
  "\<exists>s. run_schedule sample_fs [(0, Go), (0, Go), (0, Go), (0, Return None), (0, Go), (1, Go), (1, Go), (1, Return None), (1, Go)]
      (New 1, sample_jobs (ByKey ''k'') (ByKey [])) = Some s \<and> keyLocks (fst s) = Map.empty \<and> sem (fst s) = 0"
proof -
  obtain p js where s: "run_schedule sample_fs [(0, Go), (0, Go), (0, Go), (0, Return None), (0, Go), (1, Go), (1, Go), (1, Return None), (1, Go)]
      (New 1, sample_jobs (ByKey ''k'') (ByKey [])) = Some (p, js)"
    and f: "\<forall>j \<in> set js. \<exists>r. job_pc j = Finished r"
    by (simp add: schedule_simps)
  from finished_pool_empty [OF sample_jobs_reachable [OF s] f] s show ?thesis by (metis fst_conv)
qed

lemma sample_normal: "normalizePaths sample_fs [''/w''] = [''/w'']" "normalizePaths sample_fs [''/x''] = [''/x'']"
  by (simp_all add: normalizePaths_def Let_def claim_root_def sample_fs_def canonicalClaimPath_def
      canonical_loop.simps TrimSpace_def chunks.simps byte_def is_space_def Clean_def clean_comps_def IsAbs_def
      clean_step.simps render_def)

lemma sample_apart: "\<not> paths_conflict sample_fs [''/x''] [''/w'']"
proof -
  have "\<not> physicalPathWithin sample_fs a b" for a b
    by (rule physicalPathWithin_nothing) (simp add: sample_fs_def)
  then show ?thesis
    by (simp add: paths_conflict_def pathsOverlap_def pathWithin_def Rel_def Clean_def clean_comps_def IsAbs_def
        clean_step.simps render_def escapes_def)
qed

theorem overlapping_roots_excluded_witness:
  "\<exists>s. run_schedule sample_fs [(0, Go), (0, Go), (0, Go), (1, Go), (1, Go), (1, Go)]
      (New 2, sample_jobs (ByPaths [''/w'']) (ByPaths [''/x''])) = Some s
     \<and> (\<forall>j \<in> set (snd s). job_pc j = Running) \<and> \<not> pathsOverlap sample_fs ''/w'' ''/x''"
proof -
  obtain p js where s: "run_schedule sample_fs [(0, Go), (0, Go), (0, Go), (1, Go), (1, Go), (1, Go)]
      (New 2, sample_jobs (ByPaths [''/w'']) (ByPaths [''/x''])) = Some (p, js)"
    and f: "length js = 2" "\<forall>j \<in> set js. job_pc j = Running" "roots (js ! 0) = [''/w'']" "roots (js ! 1) = [''/x'']"
    by (simp add: schedule_simps sample_normal sample_apart)
  have "\<not> pathsOverlap sample_fs ''/w'' ''/x''"
    by (rule overlapping_roots_excluded [OF sample_jobs_reachable [OF s], of 0 1]) (use f in auto)
  with s f show ?thesis by (metis snd_conv)
qed

end
