(* ===== verification/TaskQueue.thy ===== *)
theory TaskQueue
  imports Prelude "HOL-Library.Product_Lexorder"
begin

text \<open>
  The durable task queue of \<^verbatim>\<open>internal/control/queue.go\<close>. The table \<^verbatim>\<open>task_queue\<close> is a list of rows in
  rowid order. A statement \<^verbatim>\<open>UPDATE ... WHERE\<close> is \<open>update_where\<close>, which also gives the number of rows
  affected; a \<^verbatim>\<open>SELECT\<close> is a filter, \<^verbatim>\<open>ORDER BY\<close> a stable sort. A failing database call is not modelled,
  apart from the two uniqueness constraints an insert can violate.

  Times are nanoseconds since the epoch; \<^verbatim>\<open>Unix()\<close> rounds down to seconds, which is what rows store. The
  columns that hold JSON texts (roots, attachments, admission snapshot) are kept as texts, which the
  functions below only copy; whether a stored admission snapshot can be read is the argument
  \<open>readable\<close>. New identifiers are the argument \<open>uuid\<close>. A row returned to a caller is the row itself.
\<close>

section \<open>Rows\<close>

definition QueueStatusQueued :: string where "QueueStatusQueued = ''queued''"
definition QueueStatusStarted :: string where "QueueStatusStarted = ''started''"
definition QueueStatusDone :: string where "QueueStatusDone = ''done''"
definition QueueStatusFailed :: string where "QueueStatusFailed = ''failed''"
definition QueueStatusCancelled :: string where "QueueStatusCancelled = ''cancelled''"

lemmas status_defs = QueueStatusQueued_def QueueStatusStarted_def QueueStatusDone_def QueueStatusFailed_def
  QueueStatusCancelled_def

record task_row =
  t_id :: string
  t_tenant :: string
  t_person :: string
  t_channel :: string
  t_platform :: string
  t_user :: string
  t_content :: string
  t_approval_mode :: string
  t_workspace :: string
  t_roots :: string
  t_thread :: string
  t_run :: string
  t_reply_to :: string
  t_approval :: string
  t_clarify :: string
  t_key :: string
  t_class :: string
  t_priority :: int
  t_not_before :: int
  t_status :: string
  t_restarts :: int
  t_token :: string
  t_lease :: int
  t_generation :: int
  t_created :: int
  t_attachments :: string
  t_admission :: string

text \<open>The argument of \<^verbatim>\<open>EnqueueQueued\<close>: \<open>n_not_before\<close> is \<^const>\<open>None\<close> for the zero time, \<open>n_admission\<close> is
  \<^const>\<open>None\<close> when the snapshot does not encode.\<close>

record new_task =
  n_id :: string
  n_tenant :: string
  n_person :: string
  n_channel :: string
  n_platform :: string
  n_user :: string
  n_content :: string
  n_approval_mode :: string
  n_workspace :: string
  n_roots :: string
  n_thread :: string
  n_reply_to :: string
  n_approval :: string
  n_clarify :: string
  n_key :: string
  n_class :: string
  n_priority :: int
  n_not_before :: "int option"
  n_attachments :: string
  n_admission :: "string option"

datatype queue_error = PersonRequired | ContentRequired | IDRequired | IDAndTokenRequired | IDAndRunRequired
  | IDRunAndTokenRequired | AdmissionNotEncoded | DuplicateID | NotStartedOrBound | StaleOrBound

type_synonym table = "task_row list"

section \<open>Names and classes\<close>

definition DefaultTenantID :: string where
  "DefaultTenantID = ''default''"

definition normalizeName :: "string \<Rightarrow> string \<Rightarrow> string" where
  "normalizeName v fallback = (let v = TrimSpace v in if v = [] then fallback else v)"

definition normalizeTenant :: "string \<Rightarrow> string" where
  "normalizeTenant tenantID = normalizeName tenantID DefaultTenantID"

definition QueueClassForeground :: string where "QueueClassForeground = ''foreground''"
definition QueueClassFinalization :: string where "QueueClassFinalization = ''finalization''"
definition QueueClassRecovery :: string where "QueueClassRecovery = ''recovery''"
definition QueueClassBackground :: string where "QueueClassBackground = ''background''"
definition QueueClassCron :: string where "QueueClassCron = ''cron''"

definition normalizeQueueClass :: "(nat \<Rightarrow> nat) \<Rightarrow> string \<Rightarrow> string" where
  "normalizeQueueClass ul cls =
     (let c = ToLower ul (TrimSpace cls) in
      if c = QueueClassFinalization then QueueClassFinalization
      else if c = QueueClassRecovery then QueueClassRecovery
      else if c = QueueClassBackground then QueueClassBackground
      else if c = QueueClassCron then QueueClassCron
      else QueueClassForeground)"

definition queuePriorityForClass :: "(nat \<Rightarrow> nat) \<Rightarrow> string \<Rightarrow> int" where
  "queuePriorityForClass ul cls =
     (let c = normalizeQueueClass ul cls in
      if c = QueueClassFinalization then 80
      else if c = QueueClassRecovery then 60
      else if c = QueueClassBackground then 50
      else if c = QueueClassCron then 20
      else 100)"

section \<open>Time and SQL\<close>

definition second :: int where
  "second = 1000000000"

definition Unix :: "int \<Rightarrow> int" where
  "Unix t = t div second"

definition update_where :: "(task_row \<Rightarrow> bool) \<Rightarrow> (task_row \<Rightarrow> task_row) \<Rightarrow> table \<Rightarrow> table \<times> nat" where
  "update_where guard effect t = (map (\<lambda>r. if guard r then effect r else r) t, length (filter guard t))"

text \<open>\<^verbatim>\<open>ORDER BY priority DESC, created_at ASC, rowid ASC\<close>.\<close>

definition scheduler_order :: "table \<Rightarrow> table" where
  "scheduler_order t = sort_key (\<lambda>r. (- t_priority r, t_created r)) t"

definition queueSourceKey :: "task_row \<Rightarrow> string" where
  "queueSourceKey q = t_platform q @ NUL @ t_user q @ NUL @ t_channel q"

section \<open>Queries\<close>

definition HasPendingQueuedSource :: "int \<Rightarrow> string \<Rightarrow> string \<Rightarrow> string \<Rightarrow> string \<Rightarrow> string \<Rightarrow> table \<Rightarrow> bool" where
  "HasPendingQueuedSource now tenantID personID platform platformUserID channel t =
     (\<exists>r \<in> set t. t_tenant r = normalizeTenant tenantID \<and> t_person r = personID \<and> t_platform r = platform
        \<and> t_user r = platformUserID \<and> t_channel r = channel
        \<and> (t_status r = QueueStatusQueued \<or> t_status r = QueueStatusStarted) \<and> t_run r = []
        \<and> t_not_before r \<le> Unix now)"

definition HasDueQueuedWork :: "int \<Rightarrow> string \<Rightarrow> string \<Rightarrow> table \<Rightarrow> queue_error + bool" where
  "HasDueQueuedWork now tenantID personID t =
     (if TrimSpace personID = [] then Inl PersonRequired
      else Inr (\<exists>r \<in> set t. t_tenant r = normalizeTenant tenantID \<and> t_person r = personID
        \<and> (t_status r = QueueStatusQueued \<or> t_status r = QueueStatusStarted) \<and> t_run r = []
        \<and> t_not_before r \<le> Unix now))"

text \<open>The first row of each person among the due rows, \<^verbatim>\<open>GROUP BY tenant_id, person_id\<close>.\<close>

fun first_per_person :: "(string \<times> string) set \<Rightarrow> table \<Rightarrow> table" where
  "first_per_person seen [] = []"
| "first_per_person seen (r # rs) =
     (if (t_tenant r, t_person r) \<in> seen then first_per_person seen rs
      else r # first_per_person (insert (t_tenant r, t_person r) seen) rs)"

definition ListDueQueuedRoutes :: "int \<Rightarrow> int \<Rightarrow> table \<Rightarrow> (string \<times> string \<times> string \<times> string) list" where
  "ListDueQueuedRoutes now limit t =
     (let due = filter (\<lambda>r. t_status r = QueueStatusQueued \<and> t_not_before r \<le> Unix now) t;
          routes = map (\<lambda>r. (t_tenant r, t_person r, t_channel r, t_platform r))
                     (sort_key t_created (first_per_person {} due))
      in if limit < 1 then routes else take (nat limit) routes)"

definition ListQueued :: "string \<Rightarrow> string \<Rightarrow> string \<Rightarrow> table \<Rightarrow> queue_error + table" where
  "ListQueued tenantID personID status t =
     (if TrimSpace personID = [] then Inl PersonRequired
      else Inr (scheduler_order (filter (\<lambda>r. t_tenant r = normalizeTenant tenantID \<and> t_person r = personID
             \<and> t_status r = normalizeName status QueueStatusQueued) t)))"

definition ListAllQueued :: "int \<Rightarrow> string \<Rightarrow> table \<Rightarrow> table" where
  "ListAllQueued now status t =
     scheduler_order (filter (\<lambda>r. t_status r = normalizeName status QueueStatusQueued \<and> t_not_before r \<le> Unix now) t)"

definition CountQueued :: "string \<Rightarrow> string \<Rightarrow> string \<Rightarrow> table \<Rightarrow> queue_error + nat" where
  "CountQueued tenantID personID status t =
     (if TrimSpace personID = [] then Inl PersonRequired
      else Inr (length (filter (\<lambda>r. t_tenant r = normalizeTenant tenantID \<and> t_person r = personID
             \<and> t_status r = normalizeName status QueueStatusQueued) t)))"

definition ListDueQueuedContinuations :: "int \<Rightarrow> string \<Rightarrow> string \<Rightarrow> table \<Rightarrow> queue_error + table" where
  "ListDueQueuedContinuations now tenantID personID t =
     (if TrimSpace personID = [] then Inl PersonRequired
      else Inr (filter (\<lambda>r. t_tenant r = normalizeTenant tenantID \<and> t_person r = personID
             \<and> t_status r = QueueStatusQueued \<and> t_run r = [] \<and> t_reply_to r \<noteq> [] \<and> t_not_before r \<le> Unix now) t))"

text \<open>The sources an unbound claim holds, and the due rows of the others.\<close>

definition held_source :: "table \<Rightarrow> task_row \<Rightarrow> bool" where
  "held_source t r = (\<exists>h \<in> set t. t_tenant h = t_tenant r \<and> t_person h = t_person r \<and> t_platform h = t_platform r
     \<and> t_user h = t_user r \<and> t_channel h = t_channel r \<and> t_status h = ''started'' \<and> t_run h = [])"

definition due_row :: "int \<Rightarrow> string \<Rightarrow> string \<Rightarrow> table \<Rightarrow> task_row \<Rightarrow> bool" where
  "due_row now tenantID personID t r = (t_tenant r = normalizeTenant tenantID \<and> t_person r = personID
     \<and> t_status r = QueueStatusQueued \<and> t_run r = [] \<and> t_not_before r \<le> Unix now \<and> \<not> held_source t r)"

fun pick_row :: "(string \<Rightarrow> bool) \<Rightarrow> (task_row \<Rightarrow> bool) \<Rightarrow> string set \<Rightarrow> table \<Rightarrow> task_row option" where
  "pick_row readable eligible held [] = None"
| "pick_row readable eligible held (q # qs) =
     (if queueSourceKey q \<in> held then pick_row readable eligible held qs
      else if \<not> readable (t_admission q) then pick_row readable eligible (insert (queueSourceKey q) held) qs
      else if eligible q then Some q
      else pick_row readable eligible held qs)"

definition NextQueuedWhere :: "(string \<Rightarrow> bool) \<Rightarrow> int \<Rightarrow> string \<Rightarrow> string \<Rightarrow> (task_row \<Rightarrow> bool) \<Rightarrow> table
    \<Rightarrow> queue_error + task_row option" where
  "NextQueuedWhere readable now tenantID personID eligible t =
     (if TrimSpace personID = [] then Inl PersonRequired
      else Inr (pick_row readable eligible {} (scheduler_order (filter (due_row now tenantID personID t) t))))"

definition NextQueued :: "(string \<Rightarrow> bool) \<Rightarrow> int \<Rightarrow> string \<Rightarrow> string \<Rightarrow> table \<Rightarrow> queue_error + task_row option" where
  "NextQueued readable now tenantID personID t = NextQueuedWhere readable now tenantID personID (\<lambda>_. True) t"

definition GetQueued :: "string \<Rightarrow> string \<Rightarrow> table \<Rightarrow> task_row option" where
  "GetQueued tenantID ident t = find (\<lambda>r. t_tenant r = normalizeTenant tenantID \<and> t_id r = ident) t"

definition GetQueuedByIdempotencyKey :: "string \<Rightarrow> string \<Rightarrow> table \<Rightarrow> task_row option" where
  "GetQueuedByIdempotencyKey tenantID key t =
     (let key = TrimSpace key in
      if key = [] then None else find (\<lambda>r. t_tenant r = normalizeTenant tenantID \<and> t_key r = key) t)"

definition RunHasSuccessfulTerminalEvent :: "(string \<times> string) list \<Rightarrow> string \<Rightarrow> bool" where
  "RunHasSuccessfulTerminalEvent events runID =
     (let runID = TrimSpace runID in runID \<noteq> [] \<and> (runID, ''run.finished'') \<in> set events)"

section \<open>Enqueueing\<close>

definition stored_not_before :: "int option \<Rightarrow> int" where
  "stored_not_before nb = (case nb of None \<Rightarrow> 0 | Some t \<Rightarrow> if t mod second \<noteq> 0 then Unix t + 1 else Unix t)"

definition new_row :: "(nat \<Rightarrow> nat) \<Rightarrow> string \<Rightarrow> int \<Rightarrow> new_task \<Rightarrow> string \<Rightarrow> task_row" where
  "new_row ul uuid now q admission =
     (let platform = normalizeName (n_platform q) ''cli''; cls = normalizeQueueClass ul (n_class q) in
      \<lparr>t_id = (if n_id q = [] then ''queue_'' @ uuid else n_id q), t_tenant = normalizeTenant (n_tenant q),
       t_person = n_person q, t_channel = normalizeName (n_channel q) platform, t_platform = platform, t_user = n_user q,
       t_content = n_content q, t_approval_mode = n_approval_mode q, t_workspace = n_workspace q, t_roots = n_roots q,
       t_thread = n_thread q, t_run = [], t_reply_to = n_reply_to q, t_approval = n_approval q, t_clarify = n_clarify q,
       t_key = TrimSpace (n_key q), t_class = cls,
       t_priority = (if n_priority q = 0 then queuePriorityForClass ul cls else n_priority q),
       t_not_before = stored_not_before (n_not_before q), t_status = QueueStatusQueued, t_restarts = 0, t_token = [],
       t_lease = 0, t_generation = 0, t_created = Unix now, t_attachments = n_attachments q, t_admission = admission\<rparr>)"

text \<open>
  The insert. The clause \<^verbatim>\<open>ON CONFLICT(tenant_id, idempotency_key)\<close> is tested before the primary key; a
  row it finds is returned instead.
\<close>

definition EnqueueQueued :: "(nat \<Rightarrow> nat) \<Rightarrow> string \<Rightarrow> int \<Rightarrow> new_task \<Rightarrow> table \<Rightarrow> (queue_error + task_row) \<times> table" where
  "EnqueueQueued ul uuid now q t =
     (if TrimSpace (n_person q) = [] then (Inl PersonRequired, t)
      else if TrimSpace (n_content q) = [] then (Inl ContentRequired, t)
      else (case n_admission q of
        None \<Rightarrow> (Inl AdmissionNotEncoded, t)
      | Some admission \<Rightarrow>
          (let row = new_row ul uuid now q admission in
           case (if t_key row = [] then None
                 else find (\<lambda>r. t_tenant r = t_tenant row \<and> t_key r = t_key row) t) of
             Some existing \<Rightarrow> (Inr existing, t)
           | None \<Rightarrow> if \<exists>r \<in> set t. t_id r = t_id row then (Inl DuplicateID, t) else (Inr row, t @ [row]))))"
section \<open>Claims\<close>

definition defaultQueueClaimLease :: int where
  "defaultQueueClaimLease = 120 * second"

definition lease_for :: "int \<Rightarrow> int" where
  "lease_for leaseFor = (if leaseFor \<le> 0 then defaultQueueClaimLease else leaseFor)"

text \<open>The row a statement addresses.\<close>

definition keyed :: "string \<Rightarrow> string \<Rightarrow> task_row \<Rightarrow> bool" where
  "keyed tenantID ident r = (t_tenant r = normalizeTenant tenantID \<and> t_id r = ident)"

definition claim_guard :: "int \<Rightarrow> string \<Rightarrow> string \<Rightarrow> task_row \<Rightarrow> bool" where
  "claim_guard now tenantID ident r = (keyed tenantID ident r \<and> t_status r = QueueStatusQueued \<and> t_run r = []
     \<and> t_not_before r \<le> Unix now)"

definition claim_effect :: "string \<Rightarrow> int \<Rightarrow> task_row \<Rightarrow> task_row" where
  "claim_effect token lease r = r\<lparr>t_status := QueueStatusStarted, t_token := token, t_lease := lease,
     t_generation := t_generation r + 1\<rparr>"

definition ClaimQueued :: "string \<Rightarrow> int \<Rightarrow> string \<Rightarrow> string \<Rightarrow> int \<Rightarrow> table \<Rightarrow> (queue_error + string \<times> bool) \<times> table" where
  "ClaimQueued uuid now tenantID ident leaseFor t =
     (if TrimSpace ident = [] then (Inl IDRequired, t)
      else (let token = ''claim_'' @ uuid;
                (t', n) = update_where (claim_guard now tenantID ident)
                            (claim_effect token (Unix (now + lease_for leaseFor))) t
            in (Inr (if n \<noteq> 1 then ([], False) else (token, True)), t')))"

definition token_guard :: "string \<Rightarrow> string \<Rightarrow> string \<Rightarrow> task_row \<Rightarrow> bool" where
  "token_guard tenantID ident token r = (keyed tenantID ident r \<and> t_status r = QueueStatusStarted \<and> t_token r = token)"

definition RenewQueuedClaim :: "int \<Rightarrow> string \<Rightarrow> string \<Rightarrow> string \<Rightarrow> int \<Rightarrow> table \<Rightarrow> bool \<times> table" where
  "RenewQueuedClaim now tenantID ident token leaseFor t =
     (if TrimSpace ident = [] \<or> TrimSpace token = [] then (False, t)
      else (let (t', n) = update_where (token_guard tenantID ident token)
                            (\<lambda>r. r\<lparr>t_lease := Unix (now + lease_for leaseFor)\<rparr>) t
            in (n = 1, t')))"

definition unclaim :: "string \<Rightarrow> task_row \<Rightarrow> task_row" where
  "unclaim status r = r\<lparr>t_status := status, t_token := [], t_lease := 0\<rparr>"

definition RequeueUnboundClaim :: "string \<Rightarrow> string \<Rightarrow> string \<Rightarrow> table \<Rightarrow> (queue_error + bool) \<times> table" where
  "RequeueUnboundClaim tenantID ident token t =
     (if TrimSpace ident = [] \<or> TrimSpace token = [] then (Inl IDAndTokenRequired, t)
      else (let (t', n) = update_where (\<lambda>r. token_guard tenantID ident token r \<and> t_run r = []) (unclaim QueueStatusQueued) t
            in (Inr (n = 1), t')))"

definition fail_guard :: "string \<Rightarrow> string \<Rightarrow> string \<Rightarrow> task_row \<Rightarrow> bool" where
  "fail_guard tenantID ident token r = (keyed tenantID ident r
     \<and> t_status r = (if token \<noteq> [] then QueueStatusStarted else QueueStatusQueued) \<and> t_token r = token \<and> t_run r = [])"

definition FailUnboundQueued :: "string \<Rightarrow> string \<Rightarrow> string \<Rightarrow> table \<Rightarrow> (queue_error + bool) \<times> table" where
  "FailUnboundQueued tenantID ident token t =
     (if TrimSpace ident = [] then (Inl IDRequired, t)
      else (let (t', n) = update_where (fail_guard tenantID ident token) (unclaim QueueStatusFailed) t in (Inr (n = 1), t')))"

definition FinishQueuedClaim :: "string \<Rightarrow> string \<Rightarrow> string \<Rightarrow> string \<Rightarrow> table \<Rightarrow> (queue_error + bool) \<times> table" where
  "FinishQueuedClaim tenantID ident token status t =
     (if TrimSpace ident = [] \<or> TrimSpace token = [] then (Inl IDAndTokenRequired, t)
      else (let (t', n) = update_where (token_guard tenantID ident token) (\<lambda>r. r\<lparr>t_status := status\<rparr>) t in (Inr (n = 1), t')))"

definition content_guard :: "string \<Rightarrow> string \<Rightarrow> task_row \<Rightarrow> bool" where
  "content_guard tenantID ident r = (keyed tenantID ident r \<and> t_key r \<noteq> [] \<and> t_status r \<noteq> QueueStatusCancelled)"

definition UpdateSystemQueuedContent :: "string \<Rightarrow> string \<Rightarrow> string \<Rightarrow> table \<Rightarrow> (queue_error + bool) \<times> table" where
  "UpdateSystemQueuedContent tenantID ident content t =
     (if TrimSpace ident = [] then (Inl IDRequired, t)
      else (let (t', n) = update_where (content_guard tenantID ident) (\<lambda>r. r\<lparr>t_content := content\<rparr>) t in (Inr (n = 1), t')))"

definition requeue_effect :: "task_row \<Rightarrow> task_row" where
  "requeue_effect r = r\<lparr>t_status := QueueStatusQueued, t_run := [], t_restarts := t_restarts r + 1, t_token := [], t_lease := 0\<rparr>"

definition system_guard :: "int \<Rightarrow> string \<Rightarrow> string \<Rightarrow> int \<Rightarrow> task_row \<Rightarrow> bool" where
  "system_guard now tenantID ident maxRestarts r = (keyed tenantID ident r \<and> t_key r \<noteq> [] \<and> t_run r = []
     \<and> (t_status r = QueueStatusFailed \<or> (t_status r = QueueStatusStarted \<and> t_lease r \<le> Unix now))
     \<and> t_restarts r < maxRestarts)"

definition RequeueSystemQueued :: "int \<Rightarrow> string \<Rightarrow> string \<Rightarrow> int \<Rightarrow> table \<Rightarrow> (queue_error + bool) \<times> table" where
  "RequeueSystemQueued now tenantID ident maxRestarts t =
     (if TrimSpace ident = [] then (Inl IDRequired, t)
      else (let m = (if maxRestarts < 1 then 1 else maxRestarts);
                (t', n) = update_where (system_guard now tenantID ident m) requeue_effect t in (Inr (n = 1), t')))"

definition bind_guard :: "string \<Rightarrow> string \<Rightarrow> string \<Rightarrow> task_row \<Rightarrow> bool" where
  "bind_guard tenantID ident runID r = (keyed tenantID ident r \<and> t_status r = QueueStatusStarted
     \<and> (t_run r = [] \<or> t_run r = runID))"

definition BindQueuedRun :: "string \<Rightarrow> string \<Rightarrow> string \<Rightarrow> table \<Rightarrow> (queue_error + unit) \<times> table" where
  "BindQueuedRun tenantID ident runID t =
     (if TrimSpace ident = [] \<or> TrimSpace runID = [] then (Inl IDAndRunRequired, t)
      else (let (t', n) = update_where (bind_guard tenantID ident runID) (\<lambda>r. r\<lparr>t_run := runID\<rparr>) t
            in (if n \<noteq> 1 then Inl NotStartedOrBound else Inr (), t')))"

definition BindQueuedRunClaimed :: "string \<Rightarrow> string \<Rightarrow> string \<Rightarrow> string \<Rightarrow> table \<Rightarrow> (queue_error + unit) \<times> table" where
  "BindQueuedRunClaimed tenantID ident runID token t =
     (if TrimSpace ident = [] \<or> TrimSpace runID = [] \<or> TrimSpace token = [] then (Inl IDRunAndTokenRequired, t)
      else (let (t', n) = update_where (\<lambda>r. bind_guard tenantID ident runID r \<and> t_token r = token) (\<lambda>r. r\<lparr>t_run := runID\<rparr>) t
            in (if n \<noteq> 1 then Inl StaleOrBound else Inr (), t')))"

definition MarkQueued :: "string \<Rightarrow> string \<Rightarrow> string \<Rightarrow> table \<Rightarrow> (queue_error + unit) \<times> table" where
  "MarkQueued tenantID ident status t =
     (if TrimSpace ident = [] then (Inl IDRequired, t)
      else (Inr (), fst (update_where (keyed tenantID ident) (unclaim (normalizeName status QueueStatusQueued)) t)))"

definition mark_guard :: "string \<Rightarrow> string \<Rightarrow> string \<Rightarrow> task_row \<Rightarrow> bool" where
  "mark_guard tenantID ident fromStatus r = (keyed tenantID ident r \<and> t_status r = normalizeName fromStatus QueueStatusQueued)"

definition MarkQueuedIfStatus :: "string \<Rightarrow> string \<Rightarrow> string \<Rightarrow> string \<Rightarrow> table \<Rightarrow> (queue_error + bool) \<times> table" where
  "MarkQueuedIfStatus tenantID ident fromStatus toStatus t =
     (if TrimSpace ident = [] then (Inl IDRequired, t)
      else (let (t', n) = update_where (mark_guard tenantID ident fromStatus) (unclaim (normalizeName toStatus QueueStatusQueued)) t
            in (Inr (n = 1), t')))"

section \<open>Boot recovery\<close>

definition maxQueueRestarts :: int where
  "maxQueueRestarts = 1"

text \<open>
  The transaction of \<^verbatim>\<open>RequeueStartedQueued\<close>: three updates in order, and the counts of the last two. The
  tables it reads beside the queue are the arguments \<open>finished\<close> (a run has a \<^verbatim>\<open>run.finished\<close> event) and
  \<open>running\<close> (a run of a tenant has status \<^verbatim>\<open>running\<close>).
\<close>

definition settle_guard :: "(string \<Rightarrow> bool) \<Rightarrow> task_row \<Rightarrow> bool" where
  "settle_guard finished r = ((t_status r = QueueStatusStarted \<or> t_status r = QueueStatusQueued) \<and> t_run r \<noteq> []
     \<and> finished (t_run r))"

text \<open>SQLite's \<^verbatim>\<open>LIKE\<close> ignores the case of ASCII letters.\<close>

definition like_prefix :: "string \<Rightarrow> string \<Rightarrow> bool" where
  "like_prefix pat s = (let low = map (\<lambda>c. if 65 \<le> byte c \<and> byte c \<le> 90 then char_of (byte c + 32) else c)
     in prefix (low pat) (low s))"

definition replay_guard :: "task_row \<Rightarrow> bool" where
  "replay_guard r = (t_status r = QueueStatusStarted \<and> t_restarts r < maxQueueRestarts
     \<and> \<not> like_prefix ''run-recovery:'' (t_key r) \<and> t_run r = [])"

definition drop_guard :: "(string \<Rightarrow> string \<Rightarrow> bool) \<Rightarrow> task_row \<Rightarrow> bool" where
  "drop_guard running r = ((t_status r = QueueStatusStarted \<or> (t_status r = QueueStatusQueued \<and> t_run r \<noteq> []))
     \<and> \<not> running (t_tenant r) (t_run r))"

definition RequeueStartedQueued :: "(string \<Rightarrow> bool) \<Rightarrow> (string \<Rightarrow> string \<Rightarrow> bool) \<Rightarrow> table \<Rightarrow> (nat \<times> nat) \<times> table" where
  "RequeueStartedQueued finished running t =
     (let (t1, _) = update_where (settle_guard finished) (\<lambda>r. r\<lparr>t_status := QueueStatusDone\<rparr>) t;
          (t2, requeued) = update_where replay_guard requeue_effect t1;
          (t3, dropped) = update_where (drop_guard running) (\<lambda>r. r\<lparr>t_status := QueueStatusFailed\<rparr>) t2
      in ((requeued, dropped), t3))"

section \<open>The queue as a state machine\<close>

inductive queue_step :: "table \<Rightarrow> table \<Rightarrow> bool" where
  enqueue: "queue_step t (snd (EnqueueQueued ul uuid now q t))"
| claim: "queue_step t (snd (ClaimQueued uuid now tenantID ident leaseFor t))"
| renew: "queue_step t (snd (RenewQueuedClaim now tenantID ident token leaseFor t))"
| requeue_unbound: "queue_step t (snd (RequeueUnboundClaim tenantID ident token t))"
| fail_unbound: "queue_step t (snd (FailUnboundQueued tenantID ident token t))"
| finish: "queue_step t (snd (FinishQueuedClaim tenantID ident token status t))"
| content: "queue_step t (snd (UpdateSystemQueuedContent tenantID ident content t))"
| requeue_system: "queue_step t (snd (RequeueSystemQueued now tenantID ident maxRestarts t))"
| bind: "queue_step t (snd (BindQueuedRun tenantID ident runID t))"
| bind_claimed: "queue_step t (snd (BindQueuedRunClaimed tenantID ident runID token t))"
| mark: "queue_step t (snd (MarkQueued tenantID ident status t))"
| mark_if: "queue_step t (snd (MarkQueuedIfStatus tenantID ident fromStatus toStatus t))"
| boot: "queue_step t (snd (RequeueStartedQueued finished running t))"

inductive queue_steps :: "table \<Rightarrow> table \<Rightarrow> bool" where
  refl: "queue_steps t t"
| step: "queue_steps t t' \<Longrightarrow> queue_step t' t'' \<Longrightarrow> queue_steps t t''"
section \<open>The table\<close>

text \<open>The constraints of the schema: the primary key, and one row per tenant and idempotency key.\<close>

definition table_ok :: "table \<Rightarrow> bool" where
  "table_ok t \<longleftrightarrow> distinct (map t_id t)
     \<and> distinct (map (\<lambda>r. (t_tenant r, t_key r)) (filter (\<lambda>r. t_key r \<noteq> []) t))"

text \<open>What no statement of the queue changes in a row, and what it may only change before a run is bound.\<close>

definition evolves :: "task_row \<Rightarrow> task_row \<Rightarrow> bool" where
  "evolves r r' \<longleftrightarrow> t_id r' = t_id r \<and> t_tenant r' = t_tenant r \<and> t_key r' = t_key r \<and> t_not_before r' = t_not_before r
     \<and> t_generation r \<le> t_generation r'
     \<and> (t_run r \<noteq> [] \<longrightarrow> t_run r' = t_run r \<and> t_generation r' = t_generation r)"

lemma evolves_refl [simp]: "evolves r r"
  by (simp add: evolves_def)

lemma evolves_trans: "evolves r s \<Longrightarrow> evolves s u \<Longrightarrow> evolves r u"
  by (auto simp: evolves_def)

lemma table_ok_map:
  assumes "\<And>r. r \<in> set t \<Longrightarrow> evolves r (f r)"
  shows "table_ok (map f t) = table_ok t"
proof -
  have "map t_id (map f t) = map t_id t" using assms by (auto simp: evolves_def)
  moreover have "map (\<lambda>r. (t_tenant r, t_key r)) (filter (\<lambda>r. t_key r \<noteq> []) (map f t))
      = map (\<lambda>r. (t_tenant r, t_key r)) (filter (\<lambda>r. t_key r \<noteq> []) t)"
    using assms by (induction t) (auto simp: evolves_def)
  ultimately show ?thesis unfolding table_ok_def by (simp only:)
qed

lemma table_ok_id: "table_ok t \<Longrightarrow> r \<in> set t \<Longrightarrow> s \<in> set t \<Longrightarrow> t_id r = t_id s \<Longrightarrow> r = s"
  by (auto simp: table_ok_def distinct_map inj_on_def)

lemma table_ok_key:
  "table_ok t \<Longrightarrow> r \<in> set t \<Longrightarrow> s \<in> set t \<Longrightarrow> t_tenant r = t_tenant s \<Longrightarrow> t_key r = t_key s \<Longrightarrow> t_key r \<noteq> [] \<Longrightarrow> r = s"
  by (auto simp: table_ok_def distinct_map inj_on_def)

lemma distinct_filter_one:
  "distinct (map f xs) \<Longrightarrow> \<forall>x \<in> set xs. P x \<longrightarrow> f x = k \<Longrightarrow> length (filter P xs) \<le> 1"
proof (induction xs)
  case (Cons x xs)
  show ?case
  proof (cases "P x")
    case True
    with Cons.prems have "filter P xs = []" by (auto simp: filter_empty_conv) (metis image_eqI)
    then show ?thesis by simp
  next
    case False
    with Cons show ?thesis by simp
  qed
qed simp

text \<open>The table after any statement: the old rows, each evolved, and new ones behind them.\<close>

definition advances :: "table \<Rightarrow> table \<Rightarrow> bool" where
  "advances t t' \<longleftrightarrow> (\<exists>u new. t' = u @ new \<and> list_all2 evolves t u) \<and> (table_ok t \<longrightarrow> table_ok t')"

lemma advancesI: "t' = u @ new \<Longrightarrow> list_all2 evolves t u \<Longrightarrow> (table_ok t \<Longrightarrow> table_ok t') \<Longrightarrow> advances t t'"
  by (auto simp: advances_def)

lemma advances_refl [simp]: "advances t t"
  by (rule advancesI [of _ t "[]"]) (simp_all add: list.rel_refl)

lemma advances_map: "(\<And>r. r \<in> set t \<Longrightarrow> evolves r (f r)) \<Longrightarrow> advances t (map f t)"
  using table_ok_map [of t f] by (intro advancesI [of _ "map f t" "[]"]) (simp_all add: list_all2_map2 list.rel_refl_strong)

lemma advances_trans:
  assumes "advances t t'" and "advances t' t''"
  shows "advances t t''"
proof -
  obtain u new where u: "t' = u @ new" "list_all2 evolves t u" using assms(1) by (auto simp: advances_def)
  obtain v more where v: "t'' = v @ more" "list_all2 evolves t' v" using assms(2) by (auto simp: advances_def)
  then obtain v1 v2 where w: "v = v1 @ v2" "list_all2 evolves u v1"
    using u(1) by (auto simp: list_all2_append1)
  have "list_all2 evolves t v1" by (rule list_all2_trans [OF evolves_trans u(2) w(2)])
  with v(1) w(1) have "\<exists>u new. t'' = u @ new \<and> list_all2 evolves t u" by auto
  with assms show ?thesis by (auto simp: advances_def)
qed

lemma advances_row:
  assumes "advances t t'" and "r \<in> set t"
  obtains r' where "r' \<in> set t'" and "evolves r r'"
proof -
  obtain u new where u: "t' = u @ new" "list_all2 evolves t u" using assms(1) by (auto simp: advances_def)
  obtain i where i: "i < length t" "r = t ! i" using assms(2) by (auto simp: in_set_conv_nth)
  with u(2) have "i < length u" "evolves r (u ! i)" by (auto simp: list_all2_conv_all_nth)
  with u(1) that [of "u ! i"] show thesis by auto
qed

section \<open>Compare-and-swap statements\<close>

text \<open>
  The contract of the statements that address one row: the guard names the row by tenant and id, and the
  effect keeps its identity and never rewrites the run it is bound to. Each such statement then changes
  at most one row, reports exactly whether it did, and leaves the table alone otherwise.
\<close>

locale keyed_update =
  fixes guard :: "task_row \<Rightarrow> bool" and effect :: "task_row \<Rightarrow> task_row" and tenantID ident :: string
  assumes guard_keyed: "guard r \<Longrightarrow> keyed tenantID ident r"
    and effect_evolves: "guard r \<Longrightarrow> evolves r (effect r)"
begin

lemma affected_le: "table_ok t \<Longrightarrow> length (filter guard t) \<le> 1"
  using guard_keyed by (intro distinct_filter_one [of t_id _ _ ident]) (auto simp: table_ok_def keyed_def)

lemma affected_iff: "table_ok t \<Longrightarrow> snd (update_where guard effect t) = 1 \<longleftrightarrow> (\<exists>r \<in> set t. guard r)"
proof -
  assume "table_ok t"
  then have "length (filter guard t) = 1 \<longleftrightarrow> filter guard t \<noteq> []"
    using affected_le [of t] by (cases "filter guard t") auto
  then show ?thesis by (simp add: update_where_def filter_empty_conv)
qed

lemma unaffected: "\<not> (\<exists>r \<in> set t. guard r) \<Longrightarrow> update_where guard effect t = (t, 0)"
  by (auto simp: update_where_def filter_empty_conv map_idI)

lemma swapped:
  assumes "table_ok t" and "r \<in> set t" and "guard r"
  shows "effect r \<in> set (fst (update_where guard effect t))"
    and "s \<in> set t \<Longrightarrow> s \<noteq> r \<Longrightarrow> s \<in> set (fst (update_where guard effect t))"
proof -
  show "effect r \<in> set (fst (update_where guard effect t))"
    using assms(2,3) by (force simp: update_where_def)
  assume s: "s \<in> set t" "s \<noteq> r"
  then have "\<not> guard s" using guard_keyed assms table_ok_id [OF assms(1)] by (metis keyed_def)
  with s(1) show "s \<in> set (fst (update_where guard effect t))" by (force simp: update_where_def)
qed

lemma advance: "advances t (fst (update_where guard effect t))"
  using effect_evolves by (simp add: update_where_def advances_map)

end

lemma keyed_updateI:
  "(\<And>r. guard r \<Longrightarrow> keyed tenantID ident r) \<Longrightarrow> (\<And>r. guard r \<Longrightarrow> evolves r (effect r)) \<Longrightarrow>
   keyed_update guard effect tenantID ident"
  by (simp add: keyed_update_def)

interpretation claim: keyed_update "claim_guard now tenantID ident" "claim_effect token lease" tenantID ident
  for now tenantID ident token lease
  by (rule keyed_updateI) (auto simp: claim_guard_def claim_effect_def evolves_def)

interpretation renew: keyed_update "token_guard tenantID ident token" "\<lambda>r. r\<lparr>t_lease := lease\<rparr>" tenantID ident
  for tenantID ident token lease
  by (rule keyed_updateI) (auto simp: token_guard_def evolves_def)

interpretation requeue: keyed_update "\<lambda>r. token_guard tenantID ident token r \<and> t_run r = []" "unclaim status" tenantID ident
  for tenantID ident token status
  by (rule keyed_updateI) (auto simp: token_guard_def unclaim_def evolves_def)

interpretation fail: keyed_update "fail_guard tenantID ident token" "unclaim status" tenantID ident
  for tenantID ident token status
  by (rule keyed_updateI) (auto simp: fail_guard_def unclaim_def evolves_def)

interpretation settle: keyed_update "token_guard tenantID ident token" "\<lambda>r. r\<lparr>t_status := status\<rparr>" tenantID ident
  for tenantID ident token status
  by (rule keyed_updateI) (auto simp: token_guard_def evolves_def)

interpretation refresh: keyed_update "content_guard tenantID ident" "\<lambda>r. r\<lparr>t_content := body\<rparr>" tenantID ident
  for tenantID ident body
  by (rule keyed_updateI) (auto simp: content_guard_def evolves_def)

interpretation reopen: keyed_update "system_guard now tenantID ident m" requeue_effect tenantID ident
  for now tenantID ident m
  by (rule keyed_updateI) (auto simp: system_guard_def requeue_effect_def evolves_def)

interpretation bind: keyed_update "bind_guard tenantID ident runID" "\<lambda>r. r\<lparr>t_run := runID\<rparr>" tenantID ident
  for tenantID ident runID
  by (rule keyed_updateI) (auto simp: bind_guard_def evolves_def)

interpretation bind_claimed: keyed_update "\<lambda>r. bind_guard tenantID ident runID r \<and> t_token r = token"
    "\<lambda>r. r\<lparr>t_run := runID\<rparr>" tenantID ident for tenantID ident runID token
  by (rule keyed_updateI) (auto simp: bind_guard_def evolves_def)

interpretation mark: keyed_update "keyed tenantID ident" "unclaim status" tenantID ident for tenantID ident status
  by (rule keyed_updateI) (auto simp: unclaim_def evolves_def)

interpretation mark_if: keyed_update "mark_guard tenantID ident fromStatus" "unclaim status" tenantID ident
  for tenantID ident fromStatus status
  by (rule keyed_updateI) (auto simp: mark_guard_def unclaim_def evolves_def)

section \<open>Boot recovery, row by row\<close>

definition boot_row :: "(string \<Rightarrow> bool) \<Rightarrow> (string \<Rightarrow> string \<Rightarrow> bool) \<Rightarrow> task_row \<Rightarrow> task_row" where
  "boot_row finished running r =
     (if settle_guard finished r then r\<lparr>t_status := QueueStatusDone\<rparr>
      else if replay_guard r then requeue_effect r
      else if drop_guard running r then r\<lparr>t_status := QueueStatusFailed\<rparr>
      else r)"

lemma boot_sweeps:
  "snd (RequeueStartedQueued finished running t) = map (boot_row finished running) t"
proof -
  let ?one = "\<lambda>r. if settle_guard finished r then r\<lparr>t_status := QueueStatusDone\<rparr> else r"
  let ?two = "\<lambda>r. if replay_guard r then requeue_effect r else r"
  let ?three = "\<lambda>r. if drop_guard running r then r\<lparr>t_status := QueueStatusFailed\<rparr> else r"
  have "?three (?two (?one r)) = boot_row finished running r" for r
  proof (cases "settle_guard finished r")
    case True
    then show ?thesis by (simp add: boot_row_def replay_guard_def drop_guard_def status_defs)
  next
    case False
    then show ?thesis
      by (cases "replay_guard r") (simp_all add: boot_row_def requeue_effect_def drop_guard_def status_defs)
  qed
  then show ?thesis by (simp add: RequeueStartedQueued_def update_where_def)
qed

lemma boot_row_evolves: "evolves r (boot_row finished running r)"
  by (auto simp: boot_row_def evolves_def requeue_effect_def replay_guard_def)

section \<open>Every step\<close>

lemma find_table: "find P t = Some r \<Longrightarrow> r \<in> set t \<and> P r"
  by (auto simp: find_Some_iff)

lemma enqueue_cases:
  "snd (EnqueueQueued ul uuid now q t) = t \<or> (\<exists>row. snd (EnqueueQueued ul uuid now q t) = t @ [row]
     \<and> row \<in> {new_row ul uuid now q a | a. True} \<and> (\<forall>r \<in> set t. t_id r \<noteq> t_id row)
     \<and> (\<forall>r \<in> set t. t_key row \<noteq> [] \<longrightarrow> (t_tenant r, t_key r) \<noteq> (t_tenant row, t_key row)))"
  by (auto simp: EnqueueQueued_def Let_def find_None_iff split: option.splits if_splits)

lemma table_ok_append:
  "table_ok t \<Longrightarrow> \<forall>r \<in> set t. t_id r \<noteq> t_id row \<Longrightarrow>
   \<forall>r \<in> set t. t_key row \<noteq> [] \<longrightarrow> (t_tenant r, t_key r) \<noteq> (t_tenant row, t_key row) \<Longrightarrow> table_ok (t @ [row])"
  by (auto simp: table_ok_def)

lemma advances_append:
  "\<forall>r \<in> set t. t_id r \<noteq> t_id row \<Longrightarrow>
   \<forall>r \<in> set t. t_key row \<noteq> [] \<longrightarrow> (t_tenant r, t_key r) \<noteq> (t_tenant row, t_key row) \<Longrightarrow> advances t (t @ [row])"
  using table_ok_append [of t row] by (intro advancesI [of _ t "[row]"]) (simp_all add: list.rel_refl)

lemmas statement_defs = ClaimQueued_def RenewQueuedClaim_def RequeueUnboundClaim_def FailUnboundQueued_def
  FinishQueuedClaim_def UpdateSystemQueuedContent_def RequeueSystemQueued_def BindQueuedRun_def BindQueuedRunClaimed_def
  MarkQueued_def MarkQueuedIfStatus_def Let_def case_prod_beta

lemmas statements_advance = claim.advance renew.advance requeue.advance fail.advance settle.advance refresh.advance
  reopen.advance bind.advance bind_claimed.advance mark.advance mark_if.advance

lemma queue_step_advances: "queue_step t t' \<Longrightarrow> advances t t'"
proof (induction rule: queue_step.induct)
  case (enqueue t ul uuid now q)
  from enqueue_cases [of ul uuid now q t] show ?case by (auto intro!: advances_append)
next
  case (boot t finished running)
  show ?case unfolding boot_sweeps by (intro advances_map boot_row_evolves)
qed (simp_all add: statement_defs statements_advance)

lemma queue_steps_advances: "queue_steps t t' \<Longrightarrow> advances t t'"
  by (induction rule: queue_steps.induct) (auto intro: advances_trans queue_step_advances)
section \<open>What the queue guarantees\<close>

text \<open>C3. A claim is exclusive: a successful claim turns one due, unbound, queued row into a started row that
  carries the new token and the next attempt generation, and leaves every other row as it was; a second
  claim of the same row then fails and changes nothing, whoever makes it and whenever.\<close>

theorem claim_exclusive:
  assumes "table_ok t" and "ClaimQueued uuid now tenantID ident leaseFor t = (Inr (token, True), t')"
  shows "\<exists>r \<in> set t. claim_guard now tenantID ident r \<and> token = ''claim_'' @ uuid
      \<and> claim_effect token (Unix (now + lease_for leaseFor)) r \<in> set t' \<and> (\<forall>s \<in> set t. s \<noteq> r \<longrightarrow> s \<in> set t')
      \<and> (\<forall>uuid2 now2 lease2. ClaimQueued uuid2 now2 tenantID ident lease2 t' = (Inr ([], False), t'))"
proof -
  let ?g = "claim_guard now tenantID ident" and ?e = "claim_effect (''claim_'' @ uuid) (Unix (now + lease_for leaseFor))"
  have id: "TrimSpace ident \<noteq> []" and n: "snd (update_where ?g ?e t) = 1"
    and t': "t' = fst (update_where ?g ?e t)" and tok: "token = ''claim_'' @ uuid"
    using assms(2) by (auto simp: ClaimQueued_def Let_def case_prod_beta split: if_splits)
  from n obtain r where r: "r \<in> set t" "?g r" using claim.affected_iff [OF assms(1)] by blast
  note sw = claim.swapped [OF assms(1) r]
  have ok': "table_ok t'" using assms(1) claim.advance [of t] by (simp add: t' advances_def)
  have "\<not> (\<exists>s \<in> set t'. claim_guard now2 tenantID ident s)" for now2
  proof
    assume "\<exists>s \<in> set t'. claim_guard now2 tenantID ident s"
    then obtain s where s: "s \<in> set t'" "claim_guard now2 tenantID ident s" ..
    have er: "?e r \<in> set t'" using sw(1) by (simp add: t')
    have "s = ?e r"
      by (rule table_ok_id [OF ok' s(1) er]) (use s(2) r(2) in \<open>simp add: claim_guard_def keyed_def claim_effect_def\<close>)
    with s(2) show False by (simp add: claim_guard_def claim_effect_def status_defs)
  qed
  then have "ClaimQueued uuid2 now2 tenantID ident lease2 t' = (Inr ([], False), t')" for uuid2 now2 lease2
    using id claim.unaffected by (simp add: ClaimQueued_def)
  with r sw tok show ?thesis by (auto simp: t')
qed

text \<open>A stale worker is powerless: an operation that presents a claim token which is not the one on the row
  renews nothing, requeues nothing, fails nothing, settles nothing and binds nothing; the table stays as it
  is and the caller is told.\<close>

theorem stale_token_powerless:
  assumes "table_ok t" and "r \<in> set t" and "keyed tenantID ident r" and "t_token r \<noteq> token"
    and "TrimSpace ident \<noteq> []" and "TrimSpace token \<noteq> []" and "TrimSpace runID \<noteq> []"
  shows "RenewQueuedClaim now tenantID ident token leaseFor t = (False, t)
    \<and> RequeueUnboundClaim tenantID ident token t = (Inr False, t)
    \<and> FailUnboundQueued tenantID ident token t = (Inr False, t)
    \<and> FinishQueuedClaim tenantID ident token status t = (Inr False, t)
    \<and> BindQueuedRunClaimed tenantID ident runID token t = (Inl StaleOrBound, t)"
proof -
  have "s = r" if "s \<in> set t" "keyed tenantID ident s" for s
    using table_ok_id [OF assms(1) that(1) assms(2)] that(2) assms(3) by (simp add: keyed_def)
  then have none: "\<not> (\<exists>s \<in> set t. keyed tenantID ident s \<and> t_token s = token)" using assms(4) by blast
  have g: "\<not> (\<exists>s \<in> set t. token_guard tenantID ident token s)" "\<not> (\<exists>s \<in> set t. fail_guard tenantID ident token s)"
    "\<not> (\<exists>s \<in> set t. token_guard tenantID ident token s \<and> t_run s = [])"
    "\<not> (\<exists>s \<in> set t. bind_guard tenantID ident runID s \<and> t_token s = token)"
    using none by (auto simp: token_guard_def fail_guard_def bind_guard_def)
  show ?thesis
    using assms(5-7) renew.unaffected [OF g(1)] requeue.unaffected [OF g(3)] fail.unaffected [OF g(2)]
      settle.unaffected [OF g(1)] bind_claimed.unaffected [OF g(4)]
    by (simp add: RenewQueuedClaim_def RequeueUnboundClaim_def FailUnboundQueued_def FinishQueuedClaim_def
        BindQueuedRunClaimed_def)
qed

text \<open>C24. A run binding is written once: whatever sequence of queue operations follows, restarts included, a
  row that is bound to a run stays in the table, stays bound to that run and is never claimed again.\<close>

theorem binding_write_once:
  assumes "queue_steps t t'" and "table_ok t" and "r \<in> set t" and "t_run r \<noteq> []"
  shows "\<exists>r' \<in> set t'. t_id r' = t_id r \<and> t_run r' = t_run r \<and> t_generation r' = t_generation r
    \<and> (\<forall>s \<in> set t'. t_id s = t_id r \<longrightarrow> s = r')"
proof -
  have adv: "advances t t'" by (rule queue_steps_advances [OF assms(1)])
  obtain r' where r': "r' \<in> set t'" "evolves r r'" by (rule advances_row [OF adv assms(3)])
  have ok': "table_ok t'" using adv assms(2) by (simp add: advances_def)
  have same: "t_id r' = t_id r" "t_run r' = t_run r" "t_generation r' = t_generation r"
    using r'(2) assms(4) by (simp_all add: evolves_def)
  have "s = r'" if "s \<in> set t'" "t_id s = t_id r" for s
    using table_ok_id [OF ok' that(1) r'(1)] that(2) same(1) by simp
  with r'(1) same show ?thesis by blast
qed

text \<open>The constraints of the table hold for ever and no row is lost: after any sequence of operations ids
  and idempotency keys are unique, and the rows there were are still there, in order, with their identity,
  tenant, key and earliest start time.\<close>

theorem queue_keeps_rows:
  assumes "queue_steps t t'" and "table_ok t"
  shows "table_ok t' \<and> prefix (map (\<lambda>r. (t_id r, t_tenant r, t_key r, t_not_before r)) t)
                              (map (\<lambda>r. (t_id r, t_tenant r, t_key r, t_not_before r)) t')"
proof -
  have adv: "advances t t'" by (rule queue_steps_advances [OF assms(1)])
  then obtain u new where u: "t' = u @ new" "list_all2 evolves t u" by (auto simp: advances_def)
  let ?f = "\<lambda>r. (t_id r, t_tenant r, t_key r, t_not_before r)"
  have "map ?f t = map ?f u"
    using u(2) by (auto simp: list_all2_conv_all_nth evolves_def intro!: nth_equalityI)
  with u(1) adv assms(2) show ?thesis by (simp add: advances_def)
qed

text \<open>C27. Boot recovery is one decision per row: a bound row whose run finished is done; an unbound started row
  is queued again, once and never for run recovery; a started row, or a bound queued row, whose run is not
  running is failed with its binding intact; every other row is untouched. Afterwards a started row has a
  running run, and a queued row has none that ended.\<close>

theorem boot_recovery_rows:
  "snd (RequeueStartedQueued finished running t) = map (\<lambda>r.
     if (t_status r = QueueStatusStarted \<or> t_status r = QueueStatusQueued) \<and> t_run r \<noteq> [] \<and> finished (t_run r)
     then r\<lparr>t_status := QueueStatusDone\<rparr>
     else if t_status r = QueueStatusStarted \<and> t_run r = [] \<and> t_restarts r < 1 \<and> \<not> like_prefix ''run-recovery:'' (t_key r)
     then r\<lparr>t_status := QueueStatusQueued, t_restarts := t_restarts r + 1, t_token := [], t_lease := 0\<rparr>
     else if (t_status r = QueueStatusStarted \<or> (t_status r = QueueStatusQueued \<and> t_run r \<noteq> []))
          \<and> \<not> running (t_tenant r) (t_run r)
     then r\<lparr>t_status := QueueStatusFailed\<rparr> else r) t
   \<and> (\<forall>r' \<in> set (snd (RequeueStartedQueued finished running t)).
        (t_status r' = QueueStatusStarted \<longrightarrow> running (t_tenant r') (t_run r'))
        \<and> (t_status r' = QueueStatusQueued \<longrightarrow> t_run r' = [] \<or> running (t_tenant r') (t_run r') \<and> \<not> finished (t_run r')))"
proof -
  have eq: "boot_row finished running r =
    (if (t_status r = QueueStatusStarted \<or> t_status r = QueueStatusQueued) \<and> t_run r \<noteq> [] \<and> finished (t_run r)
     then r\<lparr>t_status := QueueStatusDone\<rparr>
     else if t_status r = QueueStatusStarted \<and> t_run r = [] \<and> t_restarts r < 1 \<and> \<not> like_prefix ''run-recovery:'' (t_key r)
     then r\<lparr>t_status := QueueStatusQueued, t_restarts := t_restarts r + 1, t_token := [], t_lease := 0\<rparr>
     else if (t_status r = QueueStatusStarted \<or> (t_status r = QueueStatusQueued \<and> t_run r \<noteq> []))
          \<and> \<not> running (t_tenant r) (t_run r)
     then r\<lparr>t_status := QueueStatusFailed\<rparr> else r)" for r
    by (simp add: boot_row_def settle_guard_def replay_guard_def drop_guard_def requeue_effect_def maxQueueRestarts_def)
  have fate: "(t_status (boot_row finished running r) = QueueStatusStarted \<longrightarrow> running (t_tenant r) (t_run r))
     \<and> (t_status (boot_row finished running r) = QueueStatusQueued \<longrightarrow>
          t_run r = [] \<or> running (t_tenant r) (t_run r) \<and> \<not> finished (t_run r))" for r
    unfolding eq by (simp add: status_defs)
  have keep: "t_tenant (boot_row finished running r) = t_tenant r" "t_run (boot_row finished running r) = t_run r" for r
    unfolding eq by simp_all
  have "snd (RequeueStartedQueued finished running t) = map (boot_row finished running) t" by (rule boot_sweeps)
  then have "\<forall>r' \<in> set (snd (RequeueStartedQueued finished running t)).
        (t_status r' = QueueStatusStarted \<longrightarrow> running (t_tenant r') (t_run r'))
        \<and> (t_status r' = QueueStatusQueued \<longrightarrow> t_run r' = [] \<or> running (t_tenant r') (t_run r') \<and> \<not> finished (t_run r'))"
    using fate by (simp add: keep)
  then show ?thesis by (rule conjI [rotated]) (subst boot_sweeps, rule map_cong [OF HOL.refl], rule eq)
qed

section \<open>Scheduling\<close>

text \<open>The place of a row in the scheduler's order.\<close>

definition rank :: "task_row \<Rightarrow> int \<times> int" where
  "rank r = (- t_priority r, t_created r)"

lemma scheduler_order_set [simp]: "set (scheduler_order t) = set t"
  by (simp add: scheduler_order_def)

lemma scheduler_order_sorted: "sorted (map rank (scheduler_order t))"
  by (simp add: scheduler_order_def rank_def [abs_def])

text \<open>A row is shut out when an unreadable row of its source stands at or before it.\<close>

definition shut_out :: "(string \<Rightarrow> bool) \<Rightarrow> task_row list \<Rightarrow> task_row \<Rightarrow> bool" where
  "shut_out readable before r \<longleftrightarrow> (\<exists>u \<in> set before. queueSourceKey u = queueSourceKey r \<and> \<not> readable (t_admission u))"

lemma shut_out_simps [simp]:
  "\<not> shut_out readable [] r"
  "shut_out readable (u # us) r \<longleftrightarrow> (queueSourceKey u = queueSourceKey r \<and> \<not> readable (t_admission u)) \<or> shut_out readable us r"
  by (auto simp: shut_out_def)

lemma pick_row_None:
  "pick_row readable eligible held qs = None \<Longrightarrow> r \<in> set qs \<Longrightarrow> eligible r \<Longrightarrow> queueSourceKey r \<notin> held \<Longrightarrow>
   \<exists>before after. qs = before @ r # after \<and> shut_out readable (before @ [r]) r"
proof (induction qs arbitrary: held)
  case (Cons q qs)
  have skip: ?case if "\<exists>before after. qs = before @ r # after \<and> shut_out readable (before @ [r]) r"
  proof -
    from that obtain before after where "qs = before @ r # after" "shut_out readable (before @ [r]) r" by blast
    then have "q # qs = (q # before) @ r # after \<and> shut_out readable ((q # before) @ [r]) r" by simp
    then show ?thesis by blast
  qed
  have here: ?case if "queueSourceKey q = queueSourceKey r" "\<not> readable (t_admission q)"
  proof (cases "r = q")
    case True
    with that have "q # qs = [] @ r # qs \<and> shut_out readable ([] @ [r]) r" by simp
    then show ?thesis by blast
  next
    case False
    with Cons.prems(2) obtain before after where "qs = before @ r # after" by (auto dest: split_list)
    with that have "q # qs = (q # before) @ r # after \<and> shut_out readable ((q # before) @ [r]) r" by simp
    then show ?thesis by blast
  qed
  show ?case
  proof (cases "queueSourceKey q \<in> held \<or> (readable (t_admission q) \<and> \<not> eligible q)")
    case True
    with Cons.prems have "r \<noteq> q" "pick_row readable eligible held qs = None" by (auto split: if_splits)
    with Cons.IH [of held] Cons.prems show ?thesis by (intro skip) simp
  next
    case False
    with Cons.prems(1) have bad: "\<not> readable (t_admission q)"
      and rest: "pick_row readable eligible (insert (queueSourceKey q) held) qs = None" by (auto split: if_splits)
    show ?thesis
    proof (cases "queueSourceKey q = queueSourceKey r")
      case True
      then show ?thesis using bad by (rule here)
    next
      case False
      with Cons.IH [OF rest] Cons.prems show ?thesis by (intro skip) auto
    qed
  qed
qed simp

lemma pick_row_append:
  "pick_row readable eligible held qs = Some q \<Longrightarrow>
   \<exists>before after. qs = before @ q # after \<and> pick_row readable eligible held before = None
     \<and> readable (t_admission q) \<and> eligible q"
proof (induction qs arbitrary: held)
  case (Cons p qs)
  show ?case
  proof (cases "queueSourceKey p \<notin> held \<and> readable (t_admission p) \<and> eligible p")
    case True
    with Cons.prems have "p # qs = [] @ q # qs \<and> pick_row readable eligible held [] = None
      \<and> readable (t_admission q) \<and> eligible q" by simp
    then show ?thesis by blast
  next
    case False
    define held' where "held' = (if queueSourceKey p \<notin> held \<and> \<not> readable (t_admission p) then insert (queueSourceKey p) held else held)"
    have step: "pick_row readable eligible held (p # us) = pick_row readable eligible held' us" for us
      using False by (auto simp: held'_def)
    obtain before after where "qs = before @ q # after" "pick_row readable eligible held' before = None"
      "readable (t_admission q)" "eligible q" using Cons.IH [of held'] Cons.prems step by metis
    then have "p # qs = (p # before) @ q # after \<and> pick_row readable eligible held (p # before) = None
      \<and> readable (t_admission q) \<and> eligible q" by (simp only: step append_Cons)
    then show ?thesis by blast
  qed
qed simp

text \<open>In a sorted list, a row shut out is shut out by a row of no later rank.\<close>

lemma shut_out_rank:
  assumes "sorted (map rank (before @ r # after))" and "shut_out readable (before @ [r]) r"
  shows "\<exists>u \<in> set (before @ [r]). queueSourceKey u = queueSourceKey r \<and> \<not> readable (t_admission u) \<and> rank u \<le> rank r"
proof -
  from assms(2) obtain u where u: "u \<in> set (before @ [r])" "queueSourceKey u = queueSourceKey r" "\<not> readable (t_admission u)"
    by (auto simp only: shut_out_def)
  moreover from assms(1) u(1) have "rank u \<le> rank r" by (auto simp: sorted_append)
  ultimately show ?thesis by blast
qed

lemma pick_row_None_rank:
  assumes "pick_row readable eligible {} qs = None" and "r \<in> set qs" and "eligible r" and "sorted (map rank qs)"
  shows "\<exists>u \<in> set qs. queueSourceKey u = queueSourceKey r \<and> \<not> readable (t_admission u) \<and> rank u \<le> rank r"
proof -
  obtain before after where "qs = before @ r # after" "shut_out readable (before @ [r]) r"
    using pick_row_None [OF assms(1-3)] by auto
  with shut_out_rank [of before r after readable] assms(4) show ?thesis by auto
qed

text \<open>The next task is the right one: for a named person the scheduler returns a due queued row of that
  person and tenant, readable and acceptable to the caller, whose source holds no unbound claim, and every
  such row of strictly higher priority, or of the same priority and older, was passed over because the
  caller refuses it or because an unreadable row of its own source stands before it; when it returns
  nothing, that is the reason for every due row.\<close>

theorem NextQueuedWhere_spec:
  assumes "TrimSpace personID \<noteq> []"
  shows "\<exists>found. NextQueuedWhere readable now tenantID personID eligible t = Inr found
    \<and> (\<forall>q. found = Some q \<longrightarrow> q \<in> set t \<and> due_row now tenantID personID t q \<and> readable (t_admission q) \<and> eligible q)
    \<and> (\<forall>r \<in> set t. due_row now tenantID personID t r \<and> (\<forall>q. found = Some q \<longrightarrow> rank r < rank q) \<and> eligible r \<longrightarrow>
        (\<exists>u \<in> set t. due_row now tenantID personID t u \<and> queueSourceKey u = queueSourceKey r
           \<and> \<not> readable (t_admission u) \<and> rank u \<le> rank r))"
proof -
  define L where "L = scheduler_order (filter (due_row now tenantID personID t) t)"
  have L: "set L = {r \<in> set t. due_row now tenantID personID t r}" by (auto simp: L_def)
  have srt: "sorted (map rank L)" unfolding L_def by (rule scheduler_order_sorted)
  have eq: "NextQueuedWhere readable now tenantID personID eligible t = Inr (pick_row readable eligible {} L)"
    using assms by (simp add: NextQueuedWhere_def L_def)
  show ?thesis
  proof (cases "pick_row readable eligible {} L")
    case None
    have "\<exists>u \<in> set L. queueSourceKey u = queueSourceKey r \<and> \<not> readable (t_admission u) \<and> rank u \<le> rank r"
      if "r \<in> set L" "eligible r" for r by (rule pick_row_None_rank [OF None that srt])
    then show ?thesis unfolding eq None L by auto
  next
    case (Some q)
    obtain before after where b: "L = before @ q # after" "pick_row readable eligible {} before = None"
      and q: "readable (t_admission q)" "eligible q" using pick_row_append [OF Some] by blast
    have srt': "sorted (map rank before)" using srt by (simp add: b(1) sorted_append)
    have early: "r \<in> set before" if "r \<in> set L" "rank r < rank q" for r
      using that srt by (auto simp: b(1) sorted_append dest: leD)
    have "\<exists>u \<in> set L. queueSourceKey u = queueSourceKey r \<and> \<not> readable (t_admission u) \<and> rank u \<le> rank r"
      if "r \<in> set L" "rank r < rank q" "eligible r" for r
      using pick_row_None_rank [OF b(2) early [OF that(1,2)] that(3) srt'] by (auto simp: b(1))
    moreover have "q \<in> set L" by (simp add: b(1))
    ultimately show ?thesis using q unfolding eq Some L by auto
  qed
qed

section \<open>Enqueueing, again and again\<close>

lemma enqueue_ok: "table_ok t \<Longrightarrow> table_ok (snd (EnqueueQueued ul uuid now q t))"
  using queue_step_advances [OF queue_step.enqueue [of t ul uuid now q]] by (simp add: advances_def)

lemma enqueue_fresh:
  "EnqueueQueued ul uuid now q t = (Inr row, t') \<Longrightarrow> TrimSpace (n_person q) \<noteq> [] \<and> TrimSpace (n_content q) \<noteq> []
     \<and> row \<in> set t' \<and> (\<exists>admission. n_admission q = Some admission)
     \<and> (t_key row = TrimSpace (n_key q) \<and> t_tenant row = normalizeTenant (n_tenant q))"
  by (auto simp: EnqueueQueued_def Let_def new_row_def split: if_splits option.splits dest!: find_table)

text \<open>Enqueueing is idempotent: once a task with an idempotency key is in the queue, enqueueing again with
  that tenant and key, however the rest of the task differs and whatever happened to the row since, adds
  nothing and returns that row as it is now.\<close>

theorem enqueue_idempotent:
  assumes "table_ok t" and "EnqueueQueued ul uuid now q t = (Inr row, t1)" and "TrimSpace (n_key q) \<noteq> []"
    and "queue_steps t1 t2"
    and "normalizeTenant (n_tenant q2) = normalizeTenant (n_tenant q)" and "TrimSpace (n_key q2) = TrimSpace (n_key q)"
    and "TrimSpace (n_person q2) \<noteq> []" and "TrimSpace (n_content q2) \<noteq> []" and "n_admission q2 = Some admission2"
  shows "\<exists>row2. EnqueueQueued ul2 uuid2 now2 q2 t2 = (Inr row2, t2) \<and> t_id row2 = t_id row \<and> evolves row row2"
proof -
  have row: "row \<in> set t1" "t_key row = TrimSpace (n_key q)" "t_tenant row = normalizeTenant (n_tenant q)"
    using enqueue_fresh [OF assms(2)] by simp_all
  have adv: "advances t1 t2" by (rule queue_steps_advances [OF assms(4)])
  have "table_ok t1" using enqueue_ok [OF assms(1), of ul uuid now q] assms(2) by simp
  with adv have ok2: "table_ok t2" by (simp add: advances_def)
  obtain row2 where row2: "row2 \<in> set t2" "evolves row row2" by (rule advances_row [OF adv row(1)])
  let ?P = "\<lambda>r. t_tenant r = normalizeTenant (n_tenant q) \<and> t_key r = TrimSpace (n_key q)"
  have P2: "?P row2" using row2(2) row(2,3) by (simp add: evolves_def)
  have "find ?P t2 = Some row2"
  proof (cases "find ?P t2")
    case None
    with row2(1) P2 have False unfolding find_None_iff by blast
    then show ?thesis ..
  next
    case (Some s)
    from find_table [OF Some] have s: "s \<in> set t2" "?P s" by simp_all
    have "s = row2" by (rule table_ok_key [OF ok2 s(1) row2(1)]) (use s(2) P2 assms(3) in simp_all)
    with Some show ?thesis by simp
  qed
  moreover have "t_key (new_row ul2 uuid2 now2 q2 admission2) = TrimSpace (n_key q)"
    "t_tenant (new_row ul2 uuid2 now2 q2 admission2) = normalizeTenant (n_tenant q)"
    using assms(5,6) by (simp_all add: new_row_def Let_def)
  ultimately have "EnqueueQueued ul2 uuid2 now2 q2 t2 = (Inr row2, t2)"
    using assms(3,7-9) by (simp add: EnqueueQueued_def Let_def)
  moreover have "t_id row2 = t_id row" using row2(2) by (simp add: evolves_def)
  ultimately show ?thesis using row2(2) by blast
qed

lemma stored_not_before_le:
  assumes "stored_not_before (Some nb) \<le> Unix now"
  shows "nb \<le> now"
proof -
  define k :: int where "k = (if nb mod second \<noteq> 0 then 1 else 0)"
  have "nb div second + k \<le> now div second"
    using assms by (simp add: k_def stored_not_before_def Unix_def split: if_splits)
  then have "second * (nb div second) + second * k \<le> second * (now div second)"
    unfolding distrib_left [symmetric] by (rule mult_left_mono) (simp add: second_def)
  moreover have "nb mod second \<le> second * k" by (simp add: k_def second_def less_imp_le)
  moreover have "0 \<le> now mod second" by (simp add: second_def)
  ultimately show ?thesis using mult_div_mod_eq [of second nb] mult_div_mod_eq [of second now] by linarith
qed

text \<open>A task never starts early: a task enqueued with an earliest start time, to the nanosecond, is claimed
  at no earlier time, whatever statements ran in between (retries and restarts included).\<close>

theorem claim_respects_not_before:
  assumes "table_ok t" and "EnqueueQueued ul uuid now q t = (Inr row, t @ [row])" and "n_not_before q = Some nb"
    and "queue_steps (t @ [row]) t2"
    and "ClaimQueued uuid2 now2 tenantID (t_id row) leaseFor t2 = (Inr (token, True), t3)"
  shows "nb \<le> now2"
proof -
  have nb: "t_not_before row = stored_not_before (Some nb)"
    using assms(2,3) by (auto simp: EnqueueQueued_def Let_def new_row_def split: if_splits option.splits)
  have adv: "advances (t @ [row]) t2" by (rule queue_steps_advances [OF assms(4)])
  have "table_ok (t @ [row])" using enqueue_ok [OF assms(1), of ul uuid now q] assms(2) by simp
  with adv have ok2: "table_ok t2" by (simp add: advances_def)
  have "row \<in> set (t @ [row])" by simp
  then obtain r where r: "r \<in> set t2" "evolves row r" by (rule advances_row [OF adv])
  have "snd (update_where (claim_guard now2 tenantID (t_id row)) (claim_effect (''claim_'' @ uuid2) (Unix (now2 + lease_for leaseFor))) t2) = 1"
    using assms(5) by (auto simp: ClaimQueued_def Let_def case_prod_beta split: if_splits)
  then obtain s where s: "s \<in> set t2" "claim_guard now2 tenantID (t_id row) s" using claim.affected_iff [OF ok2] by blast
  then have "t_id s = t_id r" using r(2) by (simp add: claim_guard_def keyed_def evolves_def)
  then have "s = r" by (rule table_ok_id [OF ok2 s(1) r(1)])
  with s(2) r(2) nb have "stored_not_before (Some nb) \<le> Unix now2" by (simp add: claim_guard_def evolves_def)
  then show ?thesis by (rule stored_not_before_le)
qed

section \<open>A queue at work\<close>

definition sample_task :: new_task where
  "sample_task = \<lparr>n_id = ''q'', n_tenant = [], n_person = ''p'', n_channel = [], n_platform = [], n_user = ''u'', n_content = ''c'',
     n_approval_mode = [], n_workspace = [], n_roots = [], n_thread = [], n_reply_to = [], n_approval = [], n_clarify = [],
     n_key = ''k'', n_class = ''cron'', n_priority = 0, n_not_before = Some 1, n_attachments = [], n_admission = Some ''a''\<rparr>"

definition sample_row :: task_row where
  "sample_row = \<lparr>t_id = ''q'', t_tenant = ''default'', t_person = ''p'', t_channel = ''cli'', t_platform = ''cli'', t_user = ''u'',
     t_content = ''c'', t_approval_mode = [], t_workspace = [], t_roots = [], t_thread = [], t_run = [], t_reply_to = [],
     t_approval = [], t_clarify = [], t_key = ''k'', t_class = ''cron'', t_priority = 20, t_not_before = 1,
     t_status = ''queued'', t_restarts = 0, t_token = [], t_lease = 0, t_generation = 0, t_created = 0, t_attachments = [],
     t_admission = ''a''\<rparr>"

definition sample_started :: task_row where
  "sample_started = sample_row\<lparr>t_status := ''started'', t_token := ''claim_1'', t_lease := 122, t_generation := 1\<rparr>"

lemma trim_samples [simp]:
  "TrimSpace ''q'' = ''q''" "TrimSpace ''p'' = ''p''" "TrimSpace ''c'' = ''c''" "TrimSpace ''k'' = ''k''"
  "TrimSpace ''x'' = ''x''" "TrimSpace ''r'' = ''r''" "TrimSpace ''cron'' = ''cron''" "ToLower id ''cron'' = ''cron''"
  "normalizeTenant [] = ''default''"
  by (simp_all add: TrimSpace_def chunks.simps byte_def is_space_def ToLower_def runes_def of_runes_def lower_rune_def
      encode_rune_def char_of_def bit_0 normalizeTenant_def normalizeName_def DefaultTenantID_def)

lemma sample_enqueue: "EnqueueQueued id ''1'' 0 sample_task [] = (Inr sample_row, [sample_row])"
  by (simp add: EnqueueQueued_def Let_def new_row_def sample_task_def sample_row_def normalizeName_def normalizeQueueClass_def
      queuePriorityForClass_def QueueClassFinalization_def QueueClassRecovery_def QueueClassBackground_def QueueClassCron_def
      stored_not_before_def second_def Unix_def status_defs)

lemma sample_claim: "ClaimQueued ''1'' (2 * second) [] ''q'' 0 [sample_row] = (Inr (''claim_1'', True), [sample_started])"
  by (simp add: ClaimQueued_def Let_def update_where_def claim_guard_def claim_effect_def keyed_def sample_row_def
      sample_started_def status_defs Unix_def second_def lease_for_def defaultQueueClaimLease_def)

lemma sample_tables [simp]: "table_ok [sample_row]" "table_ok [sample_started]" "table_ok []"
  by (simp_all add: table_ok_def)

lemma sample_bind: "BindQueuedRun [] ''q'' ''r'' [sample_started] = (Inr (), [sample_started\<lparr>t_run := ''r''\<rparr>])"
  by (simp add: BindQueuedRun_def Let_def update_where_def bind_guard_def keyed_def sample_row_def sample_started_def status_defs)

lemma sample_steps: "queue_steps [sample_row] [sample_started\<lparr>t_run := ''r''\<rparr>]"
proof -
  have a: "queue_step [sample_row] [sample_started]"
    using queue_step.claim [of "[sample_row]" "''1''" "2 * second" "[]" "''q''" 0] by (simp add: sample_claim)
  have b: "queue_step [sample_started] [sample_started\<lparr>t_run := ''r''\<rparr>]"
    using queue_step.bind [of "[sample_started]" "[]" "''q''" "''r''"] by (simp add: sample_bind)
  show ?thesis by (rule queue_steps.step [OF queue_steps.step [OF queue_steps.refl a] b])
qed

theorem claim_exclusive_witness:
  "ClaimQueued ''1'' (2 * second) [] ''q'' 0 [sample_row] = (Inr (''claim_1'', True), [sample_started])
   \<and> (\<forall>now. ClaimQueued ''2'' now [] ''q'' 0 [sample_started] = (Inr ([], False), [sample_started]))"
  using claim_exclusive [OF sample_tables(1) sample_claim] sample_claim by blast

theorem stale_token_powerless_witness:
  "RenewQueuedClaim 0 [] ''q'' ''x'' 0 [sample_started] = (False, [sample_started])
   \<and> BindQueuedRunClaimed [] ''q'' ''r'' ''x'' [sample_started] = (Inl StaleOrBound, [sample_started])"
proof -
  have "keyed [] ''q'' sample_started" "t_token sample_started \<noteq> ''x''"
    by (simp_all add: keyed_def sample_started_def sample_row_def)
  with stale_token_powerless [OF sample_tables(2), of sample_started "[]" "''q''" "''x''" "''r''" 0 0 "[]"] show ?thesis by simp
qed

theorem binding_write_once_witness:
  "\<exists>t. queue_steps [sample_started\<lparr>t_run := ''r''\<rparr>] t \<and> t \<noteq> [sample_started\<lparr>t_run := ''r''\<rparr>] \<and> (\<exists>r' \<in> set t. t_run r' = ''r'')"
proof -
  let ?b = "sample_started\<lparr>t_run := ''r''\<rparr>" and ?t = "[sample_started\<lparr>t_run := ''r'', t_status := QueueStatusDone\<rparr>]"
  have "snd (RequeueStartedQueued (\<lambda>_. True) (\<lambda>_ _. False) [?b]) = ?t"
    by (simp add: boot_sweeps boot_row_def settle_guard_def sample_started_def status_defs)
  then have s: "queue_steps [?b] ?t"
    using queue_steps.step [OF queue_steps.refl queue_step.boot [of "[?b]" "\<lambda>_. True" "\<lambda>_ _. False"]] by simp
  have "table_ok [?b]" by (simp add: table_ok_def)
  from binding_write_once [OF s this, of ?b] have "\<exists>r' \<in> set ?t. t_run r' = ''r''" by simp
  moreover have "t_status (sample_started\<lparr>t_run := ''r'', t_status := QueueStatusDone\<rparr>) \<noteq> t_status ?b"
    by (simp add: sample_started_def status_defs)
  then have "?t \<noteq> [?b]" by (metis list.inject)
  ultimately show ?thesis using s by blast
qed

theorem queue_keeps_rows_witness:
  "queue_steps [sample_row] [sample_started\<lparr>t_run := ''r''\<rparr>] \<and> table_ok [sample_started\<lparr>t_run := ''r''\<rparr>]
   \<and> t_not_before sample_started = 1"
  using queue_keeps_rows [OF sample_steps sample_tables(1)] sample_steps by (simp add: sample_row_def sample_started_def)

theorem NextQueuedWhere_spec_witness:
  "\<exists>q. NextQueuedWhere (\<lambda>_. True) (2 * second) [] ''p'' (\<lambda>_. True) [sample_row] = Inr (Some q) \<and> t_id q = ''q''"
proof -
  have p: "TrimSpace ''p'' \<noteq> []" by simp
  have due: "due_row (2 * second) [] ''p'' [sample_row] sample_row"
    by (simp add: due_row_def held_source_def sample_row_def status_defs Unix_def second_def)
  obtain found where f: "NextQueuedWhere (\<lambda>_. True) (2 * second) [] ''p'' (\<lambda>_. True) [sample_row] = Inr found"
      "\<forall>q. found = Some q \<longrightarrow> q = sample_row" "found \<noteq> None"
    using NextQueuedWhere_spec [OF p, of "\<lambda>_. True" "2 * second" "[]" "\<lambda>_. True" "[sample_row]"] due by auto
  then have "found = Some sample_row" by blast
  with f(1) show ?thesis by (simp add: sample_row_def)
qed

theorem enqueue_idempotent_witness:
  "\<exists>row2. EnqueueQueued id ''2'' 9 (sample_task\<lparr>n_id := ''x''\<rparr>) [sample_started\<lparr>t_run := ''r''\<rparr>]
      = (Inr row2, [sample_started\<lparr>t_run := ''r''\<rparr>]) \<and> t_id row2 = ''q''"
proof -
  have "\<exists>row2. EnqueueQueued id ''2'' 9 (sample_task\<lparr>n_id := ''x''\<rparr>) [sample_started\<lparr>t_run := ''r''\<rparr>]
      = (Inr row2, [sample_started\<lparr>t_run := ''r''\<rparr>]) \<and> t_id row2 = t_id sample_row \<and> evolves sample_row row2"
    by (rule enqueue_idempotent [OF sample_tables(3) sample_enqueue _ sample_steps, where ?admission2.0 = "''a''"])
      (simp_all add: sample_task_def)
  then show ?thesis by (auto simp: sample_row_def)
qed

theorem claim_respects_not_before_witness:
  "n_not_before sample_task = Some 1 \<and> ClaimQueued ''1'' (2 * second) [] ''q'' 0 [sample_row] = (Inr (''claim_1'', True), [sample_started])
   \<and> 1 \<le> 2 * second"
proof -
  have e: "EnqueueQueued id ''1'' 0 sample_task [] = (Inr sample_row, [] @ [sample_row])" using sample_enqueue by simp
  have c: "ClaimQueued ''1'' (2 * second) [] (t_id sample_row) 0 [sample_row] = (Inr (''claim_1'', True), [sample_started])"
    using sample_claim by (simp add: sample_row_def)
  have n: "n_not_before sample_task = Some 1" by (simp add: sample_task_def)
  have "1 \<le> 2 * second"
    by (rule claim_respects_not_before [OF sample_tables(3) e n _ c]) (simp add: queue_steps.refl)
  with n sample_claim show ?thesis by simp
qed
theorem boot_recovery_rows_witness:
  "map t_status (snd (RequeueStartedQueued (\<lambda>_. False) (\<lambda>_ _. False) [sample_started, sample_started\<lparr>t_id := ''x'', t_run := ''r''\<rparr>]))
     = [QueueStatusQueued, QueueStatusFailed]"
proof -
  have "\<not> like_prefix ''run-recovery:'' ''k''" by (simp add: like_prefix_def byte_def char_of_def bit_0)
  then show ?thesis
    using boot_recovery_rows [of "\<lambda>_. False" "\<lambda>_ _. False" "[sample_started, sample_started\<lparr>t_id := ''x'', t_run := ''r''\<rparr>]"]
    by (simp add: sample_started_def sample_row_def status_defs)
qed

end
