(* ===== verification/RunPlan.thy ===== *)
theory RunPlan
  imports Prelude
begin

text \<open>
  The plan of a run: \<^verbatim>\<open>internal/control/run_plan.go\<close>. A model submits complete snapshots of its plan; the
  store resolves the identity of every step against the previous snapshot, keeps the obligations the
  previous snapshot established, opens again what cannot be complete, and cuts the plan into work units.
  This theory models those computations. The statements that read and write the plan tables are not
  modelled; what they read (the step ids a run has ever used, the steps of all versions) is an argument.

  \<^verbatim>\<open>RunPlanStep\<close> embeds \<^verbatim>\<open>RunPlanStepInput\<close>, so \<open>plan_step\<close> extends the record \<open>plan_input\<close>. A nil plan is
  \<^const>\<open>None\<close>, an empty string in Go is the empty list. The argument \<open>ul\<close> is the table
  of \<^verbatim>\<open>strings.ToLower\<close> beyond ASCII, \<open>idPrefix\<close> the text that the code derives from the SHA-256 of the run
  id. The counter of new step ids is a natural number: it would take $2^{63}$ steps to wrap the code's.
\<close>

section \<open>Data\<close>

record plan_input =
  CancellationDisposition :: string
  CancellationReason :: string
  UserTakeoverQuote :: string
  ReplacementStepID :: string
  ScopeChangeQuote :: string
  StepID :: string
  Step :: string
  Status :: string
  SuccessCriteria :: string
  VerificationRequired :: bool
  ReusePriorVerification :: bool
  ReuseReason :: string
  RelatedTaskID :: string
  WorkUnitID :: string
  WorkUnit :: bool
  implicitPriorReuse :: bool

record plan_step = plan_input +
  verificationDeferralReason :: string
  Sequence :: nat
  SourceStepID :: string
  SourcePlanVersion :: int
  CancellationQuoteSource :: string

record run_plan =
  plan_RunID :: string
  plan_Version :: int
  plan_Explanation :: string
  plan_ContentHash :: string
  plan_Steps :: "plan_step list"
  plan_CreatedAt :: int

record criteria_change =
  cc_StepID :: string
  cc_Step :: string
  cc_From :: string
  cc_To :: string

text \<open>\<^verbatim>\<open>StalePlanStepReferenceError\<close> carries the offending id, the run, the legal ids, the index and the steps.\<close>

datatype plan_error =
    StatusInvalid nat
  | StalePlanStepReference string string "string list" nat "(string \<times> string \<times> string) list"
  | PlanStepTextRequired nat bool
  | SuccessCriteriaRequired nat
  | StepAppearsTwice string

section \<open>Texts\<close>

definition normalizeRunPlanText :: "(nat \<Rightarrow> nat) \<Rightarrow> string \<Rightarrow> string" where
  "normalizeRunPlanText ul v = Join (Fields (ToLower ul (TrimSpace v))) '' ''"

definition validRunPlanStatus :: "string \<Rightarrow> bool" where
  "validRunPlanStatus s = (s = ''pending'' \<or> s = ''in_progress'' \<or> s = ''completed'' \<or> s = ''cancelled'')"

definition boundedPlanErrorText :: "string \<Rightarrow> nat \<Rightarrow> string" where
  "boundedPlanErrorText v maxRunes =
     (let rs = runes (TrimSpace v) in
      if length rs \<le> maxRunes then of_runes rs else of_runes (take maxRunes rs) @ ellipsis)"

section \<open>Identity of steps\<close>

definition sameRunPlanBoundary :: "plan_step \<Rightarrow> 'a plan_input_scheme \<Rightarrow> bool \<Rightarrow> bool" where
  "sameRunPlanBoundary previous next first =
     (let nextBoundary = (first \<or> WorkUnit next \<or> WorkUnitID next \<noteq> [] \<or> RelatedTaskID next \<noteq> []) in
      RelatedTaskID previous = RelatedTaskID next \<and> WorkUnit previous = nextBoundary)"

definition sameRunPlanIdentity :: "(nat \<Rightarrow> nat) \<Rightarrow> plan_step \<Rightarrow> 'a plan_input_scheme \<Rightarrow> bool \<Rightarrow> bool" where
  "sameRunPlanIdentity ul previous next first =
     (normalizeRunPlanText ul (Step previous) = normalizeRunPlanText ul (Step next) \<and> sameRunPlanBoundary previous next first)"

fun unique_match :: "(nat \<Rightarrow> nat) \<Rightarrow> plan_step list \<Rightarrow> plan_input \<Rightarrow> string set \<Rightarrow> bool \<Rightarrow> string \<Rightarrow> string" where
  "unique_match ul [] next used first m = m"
| "unique_match ul (c # cs) next used first m =
     (if StepID c \<in> used \<or> \<not> sameRunPlanIdentity ul c next first then unique_match ul cs next used first m
      else if m \<noteq> [] then []
      else unique_match ul cs next used first (StepID c))"

definition uniqueRunPlanStepMatch :: "(nat \<Rightarrow> nat) \<Rightarrow> plan_step list \<Rightarrow> plan_input \<Rightarrow> string set \<Rightarrow> bool \<Rightarrow> string" where
  "uniqueRunPlanStepMatch ul previous next used first = unique_match ul previous next used first []"

text \<open>The map \<^verbatim>\<open>byID\<close>: a later step with the same id overwrites an earlier one.\<close>

definition by_id :: "plan_step list \<Rightarrow> string \<Rightarrow> plan_step option" where
  "by_id steps = map_of (rev (map (\<lambda>s. (StepID s, s)) steps))"

definition old_steps :: "run_plan option \<Rightarrow> plan_step list" where
  "old_steps previous = (case previous of None \<Rightarrow> [] | Some p \<Rightarrow> plan_Steps p)"

definition trim_item :: "bool \<Rightarrow> plan_input \<Rightarrow> plan_input" where
  "trim_item firstPlan item = item\<lparr>StepID := (if firstPlan then [] else TrimSpace (StepID item)), Step := TrimSpace (Step item),
     Status := TrimSpace (Status item), SuccessCriteria := TrimSpace (SuccessCriteria item),
     RelatedTaskID := TrimSpace (RelatedTaskID item),
     WorkUnitID := (if firstPlan then [] else TrimSpace (WorkUnitID item))\<rparr>"

definition stale_reference :: "string \<Rightarrow> string \<Rightarrow> nat \<Rightarrow> plan_step list \<Rightarrow> plan_error" where
  "stale_reference staleID runID i old =
     StalePlanStepReference staleID runID (map StepID old) i (map (\<lambda>s. (StepID s, Status s, Step s)) old)"

definition claim_item :: "(nat \<Rightarrow> nat) \<Rightarrow> string \<Rightarrow> run_plan option \<Rightarrow> nat \<Rightarrow> string set \<Rightarrow> plan_input \<Rightarrow> plan_error + plan_input" where
  "claim_item ul runID previous i claimed raw =
     (let item = trim_item (previous = None) raw; old = old_steps previous in
      if \<not> validRunPlanStatus (Status item) then Inl (StatusInvalid i)
      else if StepID item \<noteq> [] then
        (if by_id old (StepID item) \<noteq> None then Inr item
         else (let m = uniqueRunPlanStepMatch ul old item claimed (i = 0) in
               if m = [] then Inl (stale_reference (StepID item) runID i old) else Inr (item\<lparr>StepID := m\<rparr>)))
      else Inr (case find (\<lambda>c. \<not> (StepID c \<in> claimed \<or> \<not> sameRunPlanIdentity ul c item (i = 0))) old of
                  None \<Rightarrow> item
                | Some c \<Rightarrow> item\<lparr>StepID := StepID c\<rparr>))"

definition claim_id :: "string \<Rightarrow> string set \<Rightarrow> string set" where
  "claim_id ident claimed = (if ident \<noteq> [] then insert ident claimed else claimed)"

fun claim_items :: "(nat \<Rightarrow> nat) \<Rightarrow> string \<Rightarrow> run_plan option \<Rightarrow> nat \<Rightarrow> string set \<Rightarrow> plan_input list
    \<Rightarrow> plan_error + plan_input list \<times> string set" where
  "claim_items ul runID previous i claimed [] = Inr ([], claimed)"
| "claim_items ul runID previous i claimed (x # xs) =
     (case claim_item ul runID previous i claimed x of
        Inl e \<Rightarrow> Inl e
      | Inr item \<Rightarrow>
          (case claim_items ul runID previous (Suc i) (claim_id (StepID item) claimed) xs of
             Inl e \<Rightarrow> Inl e
           | Inr (items, claimed') \<Rightarrow> Inr (item # items, claimed')))"

text \<open>The second pass: a reworded step keeps the id of the open step at its position.\<close>

fun place_items :: "bool \<Rightarrow> string set \<Rightarrow> plan_step list \<Rightarrow> plan_input list \<Rightarrow> plan_input list" where
  "place_items first claimed [] items = items"
| "place_items first claimed old [] = []"
| "place_items first claimed (candidate # old) (item # items) =
     (if StepID item \<noteq> [] \<or> Step item = []
        \<or> StepID candidate \<in> claimed \<or> Status candidate = ''completed'' \<or> Status candidate = ''cancelled''
        \<or> \<not> sameRunPlanBoundary candidate item first
      then item # place_items False claimed old items
      else item\<lparr>StepID := StepID candidate\<rparr> # place_items False (insert (StepID candidate) claimed) old items)"

definition position_items :: "run_plan option \<Rightarrow> string set \<Rightarrow> plan_input list \<Rightarrow> plan_input list" where
  "position_items previous claimed items =
     (case previous of
        None \<Rightarrow> items
      | Some p \<Rightarrow> if length items \<noteq> length (plan_Steps p) then items else place_items True claimed (plan_Steps p) items)"

definition step_change :: "run_plan option \<Rightarrow> plan_input list \<Rightarrow> bool" where
  "step_change previous items =
     (case previous of
        None \<Rightarrow> False
      | Some p \<Rightarrow> length (plan_Steps p) \<noteq> length items
          \<or> (\<exists>it \<in> set items. case by_id (plan_Steps p) (StepID it) of None \<Rightarrow> True | Some old \<Rightarrow> Status old \<noteq> Status it))"

section \<open>New ids\<close>

text \<open>The loop that counts up to the first id not yet reserved.\<close>

lemma mint_measure:
  fixes reserved :: "string list"
  assumes "idPrefix @ FormatInt n \<in> set reserved"
  shows "card {m. n < m \<and> idPrefix @ FormatInt m \<in> set reserved} < card {m. n \<le> m \<and> idPrefix @ FormatInt m \<in> set reserved}"
proof (rule psubset_card_mono)
  have "finite ((\<lambda>m. idPrefix @ FormatInt m) -` set reserved)"
    by (rule finite_vimageI) (auto simp: inj_def)
  then show "finite {m. n \<le> m \<and> idPrefix @ FormatInt m \<in> set reserved}"
    by (rule rev_finite_subset) auto
  show "{m. n < m \<and> idPrefix @ FormatInt m \<in> set reserved} \<subset> {m. n \<le> m \<and> idPrefix @ FormatInt m \<in> set reserved}"
    using assms by auto
qed

function mint :: "string \<Rightarrow> string list \<Rightarrow> nat \<Rightarrow> nat" where
  "mint idPrefix reserved n = (if idPrefix @ FormatInt n \<in> set reserved then mint idPrefix reserved (Suc n) else n)"
  by pat_completeness auto

termination mint
  by (relation "measure (\<lambda>(p, r, n). card {m. n \<le> m \<and> p @ FormatInt m \<in> set r})") (auto dest: mint_measure simp: Suc_le_eq)

declare mint.simps [simp del]

section \<open>What a step keeps\<close>

definition keep_text :: "plan_step \<Rightarrow> plan_input \<Rightarrow> plan_input" where
  "keep_text old item = (if Step item = [] then item\<lparr>Step := Step old\<rparr> else item)"

definition keep_obligation :: "plan_step \<Rightarrow> plan_input \<Rightarrow> plan_input" where
  "keep_obligation old item =
     (let item = (if SuccessCriteria item = [] then item\<lparr>SuccessCriteria := SuccessCriteria old\<rparr> else item);
          item = item\<lparr>VerificationRequired := VerificationRequired item \<or> VerificationRequired old\<rparr>
      in if (Status item = ''cancelled'' \<and> Status old = ''cancelled'' \<or> Status item = ''pending'' \<and> Status old = ''pending'')
            \<and> CancellationDisposition item = [] \<and> CancellationReason item = [] \<and> UserTakeoverQuote item = []
            \<and> ReplacementStepID item = [] \<and> ScopeChangeQuote item = []
         then item\<lparr>CancellationDisposition := CancellationDisposition old, CancellationReason := CancellationReason old,
                UserTakeoverQuote := UserTakeoverQuote old, ReplacementStepID := ReplacementStepID old,
                ScopeChangeQuote := ScopeChangeQuote old\<rparr>
         else item)"

definition keep_unit :: "plan_step \<Rightarrow> plan_input \<Rightarrow> plan_input" where
  "keep_unit old item =
     (if WorkUnitID item = [] then item\<lparr>WorkUnitID := WorkUnitID old, WorkUnit := WorkUnit item \<or> WorkUnit old\<rparr> else item)"

definition keep_reuse :: "(nat \<Rightarrow> nat) \<Rightarrow> bool \<Rightarrow> plan_step \<Rightarrow> plan_input \<Rightarrow> plan_input" where
  "keep_reuse ul hasStepChange old item =
     (if ReusePriorVerification old \<and> Status item = ''completed''
         \<and> normalizeRunPlanText ul (SuccessCriteria item) = normalizeRunPlanText ul (SuccessCriteria old)
      then (if \<not> ReusePriorVerification item
            then (let item = item\<lparr>ReusePriorVerification := True, ReuseReason := ReuseReason old\<rparr> in
                  if Status old = ''completed'' \<and> hasStepChange then item\<lparr>implicitPriorReuse := True\<rparr> else item)
            else if Status old = ''completed'' \<and> hasStepChange
                 \<and> normalizeRunPlanText ul (ReuseReason item) = normalizeRunPlanText ul (ReuseReason old)
            then item\<lparr>implicitPriorReuse := True\<rparr> else item)
      else item)"

text \<open>A step of the new snapshot from its item, in the order of the code.\<close>

definition settle_item :: "(nat \<Rightarrow> nat) \<Rightarrow> bool \<Rightarrow> bool \<Rightarrow> plan_step option \<Rightarrow> nat \<Rightarrow> string set \<Rightarrow> plan_input
    \<Rightarrow> plan_error + plan_input" where
  "settle_item ul firstPlan hasStepChange old i used item =
     (let item = (case old of None \<Rightarrow> item | Some o' \<Rightarrow> keep_text o' item) in
      if Step item = [] then Inl (PlanStepTextRequired i firstPlan)
      else (let item = (case old of None \<Rightarrow> item
                        | Some o' \<Rightarrow> keep_reuse ul hasStepChange o' (keep_unit o' (keep_obligation o' item))) in
            if VerificationRequired item \<and> SuccessCriteria item = [] then Inl (SuccessCriteriaRequired i)
            else if StepID item \<in> used then Inl (StepAppearsTwice (StepID item))
            else Inr item))"

definition new_step :: "plan_input \<Rightarrow> nat \<Rightarrow> plan_step option \<Rightarrow> plan_step" where
  "new_step item i old = plan_input.extend item
     \<lparr>verificationDeferralReason = [], Sequence = i + 1,
      SourceStepID = (case old of None \<Rightarrow> [] | Some o' \<Rightarrow> SourceStepID o'),
      SourcePlanVersion = (case old of None \<Rightarrow> 0 | Some o' \<Rightarrow> SourcePlanVersion o'), CancellationQuoteSource = []\<rparr>"

definition identify_item :: "string \<Rightarrow> nat \<Rightarrow> string list \<Rightarrow> plan_input \<Rightarrow> plan_input \<times> nat \<times> string list" where
  "identify_item idPrefix nextID reserved item =
     (if StepID item = []
      then (let n = mint idPrefix reserved nextID; ident = idPrefix @ FormatInt n in (item\<lparr>StepID := ident\<rparr>, Suc n, ident # reserved))
      else (item, nextID, reserved))"

fun resolve_items :: "(nat \<Rightarrow> nat) \<Rightarrow> string \<Rightarrow> bool \<Rightarrow> bool \<Rightarrow> (string \<Rightarrow> plan_step option)
    \<Rightarrow> nat \<Rightarrow> string set \<Rightarrow> nat \<Rightarrow> string list \<Rightarrow> plan_input list \<Rightarrow> plan_error + plan_step list" where
  "resolve_items ul idPrefix firstPlan hasStepChange byID i used nextID reserved [] = Inr []"
| "resolve_items ul idPrefix firstPlan hasStepChange byID i used nextID reserved (item # items) =
     (case identify_item idPrefix nextID reserved item of (item, nextID, reserved) \<Rightarrow>
        (case settle_item ul firstPlan hasStepChange (byID (StepID item)) i used item of
           Inl e \<Rightarrow> Inl e
         | Inr item' \<Rightarrow>
             (case resolve_items ul idPrefix firstPlan hasStepChange byID (Suc i) (insert (StepID item') used) nextID reserved items of
                Inl e \<Rightarrow> Inl e
              | Inr steps \<Rightarrow> Inr (new_step item' i (byID (StepID item)) # steps))))"

section \<open>Work units\<close>

definition boundary :: "plan_step \<Rightarrow> bool" where
  "boundary step = (WorkUnit step \<or> WorkUnitID step \<noteq> [] \<or> RelatedTaskID step \<noteq> [])"

definition isRunPlanBoundary :: "plan_step list \<Rightarrow> nat \<Rightarrow> bool" where
  "isRunPlanBoundary steps i = (i = 0 \<or> boundary (steps ! i))"

text \<open>The last pass: a step that repeats the id of the unit it is in stops being a boundary.\<close>

fun merge_units :: "bool \<Rightarrow> string \<Rightarrow> plan_step list \<Rightarrow> plan_step list" where
  "merge_units first unitID [] = []"
| "merge_units first unitID (s # ss) =
     (let s = (if \<not> first \<and> WorkUnitID s \<noteq> [] \<and> WorkUnitID s = unitID \<and> \<not> WorkUnit s then s\<lparr>WorkUnitID := []\<rparr> else s)
      in s # merge_units False (if first \<or> boundary s then WorkUnitID s else unitID) ss)"

definition resolveRunPlanSteps :: "(nat \<Rightarrow> nat) \<Rightarrow> string \<Rightarrow> string \<Rightarrow> plan_input list \<Rightarrow> run_plan option \<Rightarrow> string list
    \<Rightarrow> plan_error + plan_step list" where
  "resolveRunPlanSteps ul idPrefix runID input previous reservedIDs =
     (case claim_items ul runID previous 0 {} input of
        Inl e \<Rightarrow> Inl e
      | Inr (items, claimed) \<Rightarrow>
          (let items = position_items previous claimed items;
               reserved = map StepID (old_steps previous) @ reservedIDs
           in case resolve_items ul idPrefix (previous = None) (step_change previous items) (by_id (old_steps previous))
                     0 {} 1 reserved items of
                Inl e \<Rightarrow> Inl e
              | Inr out \<Rightarrow> Inr (merge_units True [] out)))"

fun aggregate :: "bool \<Rightarrow> bool \<Rightarrow> 'a plan_input_scheme list \<Rightarrow> string" where
  "aggregate hasPending hasCompleted [] = (if hasPending then ''pending'' else if hasCompleted then ''completed'' else ''cancelled'')"
| "aggregate hasPending hasCompleted (s # ss) =
     (if Status s = ''in_progress'' then ''in_progress''
      else aggregate (hasPending \<or> Status s = ''pending'') (hasCompleted \<or> Status s = ''completed'') ss)"

definition aggregateRunPlanStatus :: "'a plan_input_scheme list \<Rightarrow> string" where
  "aggregateRunPlanStatus steps = aggregate False False steps"

record unit_input =
  u_WorkUnitID :: string
  u_GoalDigest :: string
  u_PlanStatus :: string
  u_RelatedTaskID :: string

text \<open>\<^verbatim>\<open>steps[start:end]\<close>.\<close>

definition slice :: "'a list \<Rightarrow> nat \<Rightarrow> nat \<Rightarrow> 'a list" where
  "slice xs i j = take (j - i) (drop i xs)"

definition plan_boundaries :: "plan_step list \<Rightarrow> nat list" where
  "plan_boundaries steps = (if steps = [] then [] else 0 # filter (isRunPlanBoundary steps) [1..<length steps])"

fun project_units :: "plan_step list \<Rightarrow> nat list \<Rightarrow> unit_input list" where
  "project_units steps [] = []"
| "project_units steps (start # rest) =
     (let stop = (case rest of [] \<Rightarrow> length steps | b # _ \<Rightarrow> b); s = steps ! start in
      \<lparr>u_WorkUnitID = WorkUnitID s, u_GoalDigest = Step s, u_PlanStatus = aggregateRunPlanStatus (slice steps start stop),
       u_RelatedTaskID = RelatedTaskID s\<rparr> # project_units steps rest)"

definition projectRunPlanWorkUnits :: "plan_step list \<Rightarrow> unit_input list \<times> nat list" where
  "projectRunPlanWorkUnits steps = (let bs = plan_boundaries steps in (project_units steps bs, bs))"

section \<open>Verification\<close>

definition claims_verified :: "'a plan_input_scheme \<Rightarrow> bool" where
  "claims_verified s = (Status s = ''completed'' \<and> VerificationRequired s)"

definition is_active :: "'a plan_input_scheme \<Rightarrow> bool" where
  "is_active s = (Status s = ''in_progress'')"

fun index_where :: "('a \<Rightarrow> bool) \<Rightarrow> 'a list \<Rightarrow> nat option" where
  "index_where p [] = None"
| "index_where p (x # xs) = (if p x then Some 0 else map_option Suc (index_where p xs))"

text \<open>The first snapshot: a completed step that needs verification has none yet. The result is the steps
  the code changes in place and the list it returns.\<close>

definition normalizeFirstPlanVerification :: "plan_step list \<Rightarrow> run_plan option \<Rightarrow> bool \<Rightarrow> plan_step list \<times> plan_step list" where
  "normalizeFirstPlanVerification steps previous independent =
     (if previous \<noteq> None then (steps, [])
      else (case index_where claims_verified steps of
        None \<Rightarrow> (steps, [])
      | Some selected \<Rightarrow>
          if independent
          then (let opened = map (\<lambda>s. if claims_verified s then s\<lparr>Status := ''pending''\<rparr> else s) steps
                in (if \<exists>s \<in> set steps. is_active s then opened
                    else opened[selected := (opened ! selected)\<lparr>Status := ''in_progress''\<rparr>],
                    filter claims_verified steps))
          else (let opened = map (\<lambda>s. if is_active s \<or> claims_verified s then s\<lparr>Status := ''pending''\<rparr> else s) steps
                in (opened[selected := (opened ! selected)\<lparr>Status := ''in_progress''\<rparr>],
                    filter (\<lambda>s. is_active s \<or> claims_verified s) steps))))"

definition carriedVerificationReason :: string where
  "carriedVerificationReason = ''Carried across an exact continuation; the source observation still validates.''"

text \<open>\<open>validate\<close> is the outcome of \<^verbatim>\<open>validatePriorVerificationReuseTx\<close> on the database at this moment.\<close>

definition carry_candidate :: "plan_step \<Rightarrow> plan_step" where
  "carry_candidate s = s\<lparr>ReusePriorVerification := True, ReuseReason := carriedVerificationReason\<rparr>"

definition carry_step :: "(plan_step \<Rightarrow> bool) \<Rightarrow> plan_step \<Rightarrow> plan_step" where
  "carry_step validate s =
     (if \<not> claims_verified s then s
      else if validate (carry_candidate s) then carry_candidate s
      else s\<lparr>Status := ''pending''\<rparr>)"

definition reopens :: "(plan_step \<Rightarrow> bool) \<Rightarrow> plan_step \<Rightarrow> bool" where
  "reopens validate s = (claims_verified s \<and> \<not> validate (carry_candidate s))"

definition carryInheritedVerification :: "(plan_step \<Rightarrow> bool) \<Rightarrow> plan_step list \<Rightarrow> plan_step list \<times> plan_step list" where
  "carryInheritedVerification validate steps =
     (let active = (\<exists>s \<in> set steps. is_active s); steps' = map (carry_step validate) steps in
      (case index_where (reopens validate) steps of
         Some i \<Rightarrow> if active then steps' else steps'[i := (steps' ! i)\<lparr>Status := ''in_progress''\<rparr>]
       | None \<Rightarrow> steps', filter (reopens validate) steps))"

section \<open>Acceptance criteria\<close>

text \<open>The rows are the step ids and criteria of a run, ordered by plan version and sequence.\<close>

fun firstPlanCriteria :: "bool \<Rightarrow> (string \<times> string) list \<Rightarrow> (string \<Rightarrow> string option) \<Rightarrow> string \<Rightarrow> string option" where
  "firstPlanCriteria declaredOnly [] first = first"
| "firstPlanCriteria declaredOnly ((stepID, criteria) # rows) first =
     (if declaredOnly \<and> TrimSpace criteria = [] then firstPlanCriteria declaredOnly rows first
      else firstPlanCriteria declaredOnly rows (if first stepID = None then first(stepID \<mapsto> criteria) else first))"

definition originalPlanCriteria :: "(string \<times> string) list \<Rightarrow> string \<Rightarrow> string option" where
  "originalPlanCriteria rows = firstPlanCriteria False rows Map.empty"

definition establishedPlanCriteria :: "(string \<times> string) list \<Rightarrow> string \<Rightarrow> string option" where
  "establishedPlanCriteria rows = firstPlanCriteria True rows Map.empty"

definition restated_step :: "(nat \<Rightarrow> nat) \<Rightarrow> (string \<Rightarrow> string option) \<Rightarrow> (string \<Rightarrow> plan_step option) \<Rightarrow> plan_step
    \<Rightarrow> criteria_change option" where
  "restated_step ul original before step =
     (case original (StepID step) of
        None \<Rightarrow> None
      | Some first \<Rightarrow>
          if Status step \<noteq> ''completed'' then None
          else if normalizeRunPlanText ul first = normalizeRunPlanText ul (SuccessCriteria step) then None
          else if (case before (StepID step) of None \<Rightarrow> False | Some prior \<Rightarrow> Status prior = ''completed''
                 \<and> normalizeRunPlanText ul (SuccessCriteria prior) = normalizeRunPlanText ul (SuccessCriteria step)) then None
          else Some \<lparr>cc_StepID = StepID step, cc_Step = Step step, cc_From = first, cc_To = SuccessCriteria step\<rparr>)"

definition restatedCompletedCriteria :: "(nat \<Rightarrow> nat) \<Rightarrow> (string \<Rightarrow> string option) \<Rightarrow> run_plan option \<Rightarrow> plan_step list
    \<Rightarrow> criteria_change list" where
  "restatedCompletedCriteria ul original previous steps =
     List.map_filter (restated_step ul original (by_id (old_steps previous))) steps"
section \<open>New ids are fresh\<close>

lemma mint_spec: "idPrefix @ FormatInt (mint idPrefix reserved n) \<notin> set reserved \<and> n \<le> mint idPrefix reserved n"
proof (induction idPrefix reserved n rule: mint.induct)
  case (1 idPrefix reserved n)
  then show ?case by (subst (1 2) mint.simps) auto
qed

section \<open>What resolution keeps of an item\<close>

text \<open>The promises of the part that settles one item against the step it continues.\<close>

definition settles :: "plan_step option \<Rightarrow> plan_input \<Rightarrow> plan_input \<Rightarrow> bool" where
  "settles old item item' \<longleftrightarrow> StepID item' = StepID item \<and> Status item' = Status item \<and> Step item' \<noteq> []
     \<and> (VerificationRequired item \<longrightarrow> VerificationRequired item')
     \<and> (VerificationRequired item' \<longrightarrow> SuccessCriteria item' \<noteq> [])
     \<and> (SuccessCriteria item \<noteq> [] \<longrightarrow> SuccessCriteria item' = SuccessCriteria item)
     \<and> (Step item \<noteq> [] \<longrightarrow> Step item' = Step item)
     \<and> (\<forall>s. old = Some s \<longrightarrow> (VerificationRequired s \<longrightarrow> VerificationRequired item')
          \<and> (SuccessCriteria item = [] \<longrightarrow> SuccessCriteria item' = SuccessCriteria s)
          \<and> (Step item = [] \<longrightarrow> Step item' = Step s))"

lemma keep_fields [simp]:
  "StepID (keep_text s item) = StepID item" "Status (keep_text s item) = Status item"
  "SuccessCriteria (keep_text s item) = SuccessCriteria item" "VerificationRequired (keep_text s item) = VerificationRequired item"
  "Step (keep_text s item) = (if Step item = [] then Step s else Step item)"
  "StepID (keep_unit s item) = StepID item" "Status (keep_unit s item) = Status item" "Step (keep_unit s item) = Step item"
  "SuccessCriteria (keep_unit s item) = SuccessCriteria item" "VerificationRequired (keep_unit s item) = VerificationRequired item"
  "StepID (keep_reuse ul c s item) = StepID item" "Status (keep_reuse ul c s item) = Status item"
  "Step (keep_reuse ul c s item) = Step item" "SuccessCriteria (keep_reuse ul c s item) = SuccessCriteria item"
  "VerificationRequired (keep_reuse ul c s item) = VerificationRequired item"
  "StepID (keep_obligation s item) = StepID item" "Status (keep_obligation s item) = Status item"
  "Step (keep_obligation s item) = Step item"
  "SuccessCriteria (keep_obligation s item) = (if SuccessCriteria item = [] then SuccessCriteria s else SuccessCriteria item)"
  "VerificationRequired (keep_obligation s item) = (VerificationRequired item \<or> VerificationRequired s)"
  by (simp_all add: keep_text_def keep_unit_def keep_reuse_def keep_obligation_def Let_def)

lemma settle_item_settles:
  "settle_item ul firstPlan c old i used item = Inr item' \<Longrightarrow> settles old item item' \<and> StepID item' \<notin> used"
  by (cases old) (auto simp: settle_item_def settles_def Let_def split: if_splits)

lemma new_step_fields [simp]:
  "StepID (new_step item i old) = StepID item" "Status (new_step item i old) = Status item"
  "Step (new_step item i old) = Step item" "SuccessCriteria (new_step item i old) = SuccessCriteria item"
  "VerificationRequired (new_step item i old) = VerificationRequired item" "Sequence (new_step item i old) = i + 1"
  "SourceStepID (new_step item i (Some s)) = SourceStepID s" "SourcePlanVersion (new_step item i (Some s)) = SourcePlanVersion s"
  "WorkUnit (new_step item i old) = WorkUnit item" "WorkUnitID (new_step item i old) = WorkUnitID item"
  "RelatedTaskID (new_step item i old) = RelatedTaskID item"
  by (simp_all add: new_step_def plan_input.defs)

lemma resolve_ConsE:
  assumes "resolve_items ul idPrefix firstPlan c byID i used nextID reserved (item # items) = Inr steps"
  obtains item1 nextID1 reserved1 item2 rest where
    "identify_item idPrefix nextID reserved item = (item1, nextID1, reserved1)"
    "settles (byID (StepID item1)) item1 item2" "StepID item2 \<notin> used"
    "resolve_items ul idPrefix firstPlan c byID (Suc i) (insert (StepID item2) used) nextID1 reserved1 items = Inr rest"
    "steps = new_step item2 i (byID (StepID item1)) # rest"
  using assms by (auto split: prod.splits sum.splits dest!: settle_item_settles)

text \<open>One step of the result, from its item.\<close>

definition continues :: "string \<Rightarrow> string list \<Rightarrow> (string \<Rightarrow> plan_step option) \<Rightarrow> plan_input \<Rightarrow> plan_step \<Rightarrow> bool" where
  "continues idPrefix reserved byID item step \<longleftrightarrow>
     (if StepID item = [] then StepID step \<notin> set reserved \<and> (\<exists>n. StepID step = idPrefix @ FormatInt n)
      else StepID step = StepID item)
     \<and> Status step = Status item \<and> Step step \<noteq> []
     \<and> (VerificationRequired step \<longrightarrow> SuccessCriteria step \<noteq> [])
     \<and> (SuccessCriteria item \<noteq> [] \<longrightarrow> SuccessCriteria step = SuccessCriteria item)
     \<and> (\<forall>s. byID (StepID step) = Some s \<longrightarrow> (VerificationRequired s \<longrightarrow> VerificationRequired step)
          \<and> (SuccessCriteria item = [] \<longrightarrow> SuccessCriteria step = SuccessCriteria s)
          \<and> SourceStepID step = SourceStepID s \<and> SourcePlanVersion step = SourcePlanVersion s)"

lemma continues_mono: "continues idPrefix (x # reserved) byID item step \<Longrightarrow> continues idPrefix reserved byID item step"
  by (auto simp: continues_def)

lemma identify_continues:
  assumes "identify_item idPrefix nextID reserved item = (item1, nextID1, reserved1)" and "settles (byID (StepID item1)) item1 item2"
  shows "continues idPrefix reserved byID item (new_step item2 i (byID (StepID item1)))"
proof -
  have item1: "Status item1 = Status item" "SuccessCriteria item1 = SuccessCriteria item"
    "StepID item \<noteq> [] \<Longrightarrow> StepID item1 = StepID item"
    "StepID item = [] \<Longrightarrow> StepID item1 \<notin> set reserved \<and> (\<exists>n. StepID item1 = idPrefix @ FormatInt n)"
    using assms(1) mint_spec by (auto simp: identify_item_def Let_def split: if_splits)
  show "continues idPrefix reserved byID item (new_step item2 i (byID (StepID item1)))"
    using assms(2) item1 by (auto simp: continues_def settles_def)
qed

lemma identify_reserved:
  "identify_item idPrefix nextID reserved item = (item1, nextID1, reserved1) \<Longrightarrow> reserved1 = reserved \<or> (\<exists>x. reserved1 = x # reserved)"
  by (auto simp: identify_item_def Let_def split: if_splits)

lemma resolve_items_continue:
  "resolve_items ul idPrefix firstPlan c byID i used nextID reserved items = Inr steps \<Longrightarrow>
   list_all2 (continues idPrefix reserved byID) items steps \<and> distinct (map StepID steps) \<and> set (map StepID steps) \<inter> used = {}
   \<and> map Sequence steps = [Suc i..<Suc i + length steps]"
proof (induction items arbitrary: i used nextID reserved steps)
  case (Cons item items)
  from Cons.prems obtain item1 nextID1 reserved1 item2 rest where
    id: "identify_item idPrefix nextID reserved item = (item1, nextID1, reserved1)"
    and set: "settles (byID (StepID item1)) item1 item2" "StepID item2 \<notin> used"
    and rest: "resolve_items ul idPrefix firstPlan c byID (Suc i) (insert (StepID item2) used) nextID1 reserved1 items = Inr rest"
    and steps: "steps = new_step item2 i (byID (StepID item1)) # rest"
    by (rule resolve_ConsE)
  note IH = Cons.IH [OF rest]
  have "list_all2 (continues idPrefix reserved byID) items rest"
    using IH identify_reserved [OF id] by (auto intro: list_all2_mono continues_mono)
  with IH identify_continues [where byID = byID, OF id set(1)] set(2) show ?case by (auto simp: steps upt_conv_Cons)
qed simp

section \<open>Merging units\<close>

definition unit_changed :: "plan_step \<Rightarrow> plan_step \<Rightarrow> bool" where
  "unit_changed s s' \<longleftrightarrow> (\<exists>u. s' = s\<lparr>WorkUnitID := u\<rparr>)"

lemma unit_changed_fields:
  "unit_changed s s' \<Longrightarrow> StepID s' = StepID s \<and> Status s' = Status s \<and> Step s' = Step s \<and> SuccessCriteria s' = SuccessCriteria s
     \<and> VerificationRequired s' = VerificationRequired s \<and> Sequence s' = Sequence s \<and> SourceStepID s' = SourceStepID s
     \<and> SourcePlanVersion s' = SourcePlanVersion s"
  by (auto simp: unit_changed_def)

lemma merge_units_changed: "list_all2 unit_changed steps (merge_units first unitID steps)"
proof (induction first unitID steps rule: merge_units.induct)
  case (2 first unitID s ss)
  have "unit_changed s (if c then s\<lparr>WorkUnitID := []\<rparr> else s)" for c
    unfolding unit_changed_def by (cases c) (auto intro: exI [of _ "WorkUnitID s"])
  with "2" show ?case by (simp add: Let_def)
qed simp

lemma map_merge_units:
  assumes "\<And>s s'. unit_changed s s' \<Longrightarrow> f s' = f s"
  shows "map f (merge_units first unitID steps) = map f steps"
proof -
  have "list_all2 (\<lambda>s s'. f s' = f s) steps (merge_units first unitID steps)"
    by (rule list_all2_mono [OF merge_units_changed]) (rule assms)
  then show ?thesis by (induction rule: list_all2_induct) auto
qed

section \<open>Identities come from the previous plan\<close>

lemma by_id_dom: "by_id steps ident \<noteq> None \<longleftrightarrow> ident \<in> StepID ` set steps"
  by (auto simp: by_id_def map_of_eq_None_iff image_iff)

lemma by_id_Some: "by_id steps ident = Some s \<Longrightarrow> s \<in> set steps \<and> StepID s = ident"
  by (auto simp: by_id_def dest!: map_of_SomeD)

lemma by_id_distinct: "distinct (map StepID steps) \<Longrightarrow> s \<in> set steps \<Longrightarrow> by_id steps (StepID s) = Some s"
  by (auto simp: by_id_def rev_map [symmetric] o_def intro!: map_of_is_SomeI)

lemma unique_match_id: "unique_match ul cs item used first m \<noteq> [] \<Longrightarrow> unique_match ul cs item used first m \<in> insert m (StepID ` set cs)"
  by (induction ul cs item used first m rule: unique_match.induct) (auto split: if_splits)

definition known :: "plan_step list \<Rightarrow> plan_input \<Rightarrow> bool" where
  "known old item \<longleftrightarrow> StepID item \<noteq> [] \<longrightarrow> StepID item \<in> StepID ` set old"

text \<open>What the first two passes keep of an item: all but its id.\<close>

definition identified :: "plan_step list \<Rightarrow> plan_input \<Rightarrow> plan_input \<Rightarrow> bool" where
  "identified old item item' \<longleftrightarrow> (\<exists>u. item' = item\<lparr>StepID := u\<rparr>) \<and> known old item'
     \<and> (StepID item \<in> StepID ` set old \<and> StepID item \<noteq> [] \<longrightarrow> StepID item' = StepID item)"

lemma claim_item_identified:
  assumes "claim_item ul runID previous i claimed raw = Inr item"
  shows "identified (old_steps previous) (trim_item (previous = None) raw) item \<and> validRunPlanStatus (Status item)"
proof -
  define t where "t = trim_item (previous = None) raw"
  define m where "m = uniqueRunPlanStepMatch ul (old_steps previous) t claimed (i = 0)"
  have m: "m \<noteq> [] \<Longrightarrow> m \<in> StepID ` set (old_steps previous)"
    using unique_match_id [of ul "old_steps previous" t claimed "i = 0" "[]"] by (simp add: m_def uniqueRunPlanStepMatch_def)
  have same: "t = t\<lparr>StepID := StepID t\<rparr>" by simp
  have ok: "validRunPlanStatus (Status t)" using assms by (auto simp: claim_item_def Let_def t_def split: if_splits)
  show ?thesis
  proof (cases "StepID t = []")
    case False
    then have "(by_id (old_steps previous) (StepID t) \<noteq> None \<and> item = t) \<or>
        (by_id (old_steps previous) (StepID t) = None \<and> m \<noteq> [] \<and> item = t\<lparr>StepID := m\<rparr>)"
      using assms by (auto simp: claim_item_def Let_def t_def [symmetric] m_def [symmetric] split: if_splits)
    then show ?thesis
      using m same ok by_id_dom [of "old_steps previous" "StepID t"]
      unfolding t_def [symmetric] identified_def known_def by fastforce
  next
    case True
    then have "item = t \<or> (\<exists>c \<in> set (old_steps previous). item = t\<lparr>StepID := StepID c\<rparr>)"
      using assms by (auto simp: claim_item_def Let_def t_def [symmetric] find_Some_iff split: if_splits option.splits)
    then show ?thesis
      using same ok True unfolding t_def [symmetric] identified_def known_def by fastforce
  qed
qed
lemma identified_refl: "known old item \<Longrightarrow> identified old item item"
  unfolding identified_def by (auto intro: exI [of _ "StepID item"])

lemma identified_trans:
  assumes "identified old a b" and "identified old b c"
  shows "identified old a c"
proof -
  obtain u v where "b = a\<lparr>StepID := u\<rparr>" "c = b\<lparr>StepID := v\<rparr>" using assms unfolding identified_def by blast
  then have "c = a\<lparr>StepID := v\<rparr>" by simp
  then have "\<exists>v. c = a\<lparr>StepID := v\<rparr>" by blast
  moreover have "StepID c = StepID a" if "StepID a \<in> StepID ` set old" "StepID a \<noteq> []"
    using assms that by (simp add: identified_def)
  ultimately show ?thesis using assms(2) by (simp add: identified_def)
qed

lemma identified_known: "identified old a b \<Longrightarrow> known old b"
  by (simp add: identified_def)

lemma identified_fields:
  "identified old a b \<Longrightarrow> Status b = Status a \<and> Step b = Step a \<and> SuccessCriteria b = SuccessCriteria a
     \<and> VerificationRequired b = VerificationRequired a"
  by (auto simp: identified_def)

lemma claim_items_identified:
  "claim_items ul runID previous i claimed input = Inr (items, claimed') \<Longrightarrow>
   list_all2 (\<lambda>raw item. identified (old_steps previous) (trim_item (previous = None) raw) item \<and> validRunPlanStatus (Status item))
     input items"
  by (induction ul runID previous i claimed input arbitrary: items claimed' rule: claim_items.induct)
    (auto split: sum.splits prod.splits dest: claim_item_identified)

lemma place_items_identified:
  "set cs \<subseteq> set old \<Longrightarrow> list_all (known old) items \<Longrightarrow> list_all2 (identified old) items (place_items first claimed cs items)"
proof (induction first claimed cs items rule: place_items.induct)
  case (1 first claimed items)
  then show ?case by (auto simp: list_all_iff intro!: list.rel_refl_strong identified_refl)
next
  case (3 first claimed c cs item items)
  have "identified old item (item\<lparr>StepID := StepID c\<rparr>)" if "StepID item = []"
    using that "3.prems"(1) by (auto simp: identified_def known_def)
  with "3" show ?case by (auto intro: identified_refl)
qed simp

lemma position_items_identified:
  "list_all (known (old_steps previous)) items \<Longrightarrow>
   list_all2 (identified (old_steps previous)) items (position_items previous claimed items)"
  by (auto simp: position_items_def old_steps_def list_all_iff place_items_identified
      intro!: list.rel_refl_strong identified_refl split: option.splits)

text \<open>What resolution makes of a snapshot, step by step.\<close>

lemma continues_unit_changed: "continues idPrefix reserved byID item s \<Longrightarrow> unit_changed s s' \<Longrightarrow> continues idPrefix reserved byID item s'"
  using unit_changed_fields [of s s'] by (auto simp: continues_def)

lemma resolved_snapshot:
  assumes "resolveRunPlanSteps ul idPrefix runID input previous reservedIDs = Inr steps"
  obtains items where
    "list_all2 (\<lambda>raw item. identified (old_steps previous) (trim_item (previous = None) raw) item \<and> validRunPlanStatus (Status item))
       input items"
    "list_all2 (continues idPrefix (map StepID (old_steps previous) @ reservedIDs) (by_id (old_steps previous))) items steps"
    "distinct (map StepID steps)" "map Sequence steps = [1..<Suc (length steps)]"
proof -
  let ?old = "old_steps previous" and ?res = "map StepID (old_steps previous) @ reservedIDs"
  obtain items0 claimed items out where c: "claim_items ul runID previous 0 {} input = Inr (items0, claimed)"
    and items: "items = position_items previous claimed items0"
    and r: "resolve_items ul idPrefix (previous = None) (step_change previous items) (by_id ?old) 0 {} 1 ?res items = Inr out"
    and steps: "steps = merge_units True [] out"
    using assms by (auto simp: resolveRunPlanSteps_def Let_def split: sum.splits prod.splits)
  note c' = claim_items_identified [OF c] and r' = resolve_items_continue [OF r]
  have "list_all (known ?old) items0"
    using c' by (auto simp: list_all_length list_all2_conv_all_nth identified_known)
  then have p: "list_all2 (identified ?old) items0 items" unfolding items by (rule position_items_identified)
  have "list_all2 (\<lambda>raw item. identified ?old (trim_item (previous = None) raw) item \<and> validRunPlanStatus (Status item)) input items"
    by (rule list_all2_trans [OF _ c' p]) (auto dest: identified_trans identified_fields)
  moreover have "list_all2 (continues idPrefix ?res (by_id ?old)) items steps"
    unfolding steps by (rule list_all2_trans [OF continues_unit_changed _ merge_units_changed]) (use r' in auto)
  moreover have "map StepID steps = map StepID out" "map Sequence steps = map Sequence out"
    unfolding steps by (rule map_merge_units; simp add: unit_changed_fields)+
  moreover from arg_cong [OF this(1), of length] have "length steps = length out" by simp
  ultimately show thesis using that r' by simp
qed

lemma resolved_step:
  assumes "resolveRunPlanSteps ul idPrefix runID input previous reservedIDs = Inr steps" and "k < length steps"
  obtains item where "identified (old_steps previous) (trim_item (previous = None) (input ! k)) item" "validRunPlanStatus (Status item)"
    "continues idPrefix (map StepID (old_steps previous) @ reservedIDs) (by_id (old_steps previous)) item (steps ! k)"
proof -
  obtain items where i: "list_all2 (\<lambda>raw item. identified (old_steps previous) (trim_item (previous = None) raw) item
       \<and> validRunPlanStatus (Status item)) input items"
    and c: "list_all2 (continues idPrefix (map StepID (old_steps previous) @ reservedIDs) (by_id (old_steps previous))) items steps"
    by (rule resolved_snapshot [OF assms(1)])
  have "k < length input" using assms(2) list_all2_lengthD [OF i] list_all2_lengthD [OF c] by simp
  with list_all2_nthD [OF i] list_all2_nthD2 [OF c assms(2)] that show thesis by blast
qed

lemma resolved_length:
  "resolveRunPlanSteps ul idPrefix runID input previous reservedIDs = Inr steps \<Longrightarrow> length steps = length input"
  by (erule resolved_snapshot) (simp add: list_all2_lengthD [symmetric])

text \<open>C37. A plan snapshot that is accepted is well formed: one step per submitted entry, in order and numbered from
  one, all ids different, every step with a text and one of the four statuses, the one submitted, and
  no step that requires verification without a criterion to verify.\<close>

theorem resolved_plan_well_formed:
  assumes "resolveRunPlanSteps ul idPrefix runID input previous reservedIDs = Inr steps"
  shows "length steps = length input \<and> distinct (map StepID steps) \<and> map Sequence steps = [1..<Suc (length steps)]
    \<and> (\<forall>k < length steps. Step (steps ! k) \<noteq> [] \<and> validRunPlanStatus (Status (steps ! k))
         \<and> Status (steps ! k) = TrimSpace (Status (input ! k))
         \<and> (VerificationRequired (steps ! k) \<longrightarrow> SuccessCriteria (steps ! k) \<noteq> []))"
proof -
  have "Step (steps ! k) \<noteq> [] \<and> validRunPlanStatus (Status (steps ! k)) \<and> Status (steps ! k) = TrimSpace (Status (input ! k))
      \<and> (VerificationRequired (steps ! k) \<longrightarrow> SuccessCriteria (steps ! k) \<noteq> [])" if k: "k < length steps" for k
  proof -
    obtain item where i: "identified (old_steps previous) (trim_item (previous = None) (input ! k)) item" "validRunPlanStatus (Status item)"
      and c: "continues idPrefix (map StepID (old_steps previous) @ reservedIDs) (by_id (old_steps previous)) item (steps ! k)"
      by (rule resolved_step [OF assms k])
    have "Status item = TrimSpace (Status (input ! k))" using identified_fields [OF i(1)] by (simp add: trim_item_def)
    with i(2) c show ?thesis by (simp add: continues_def)
  qed
  moreover have "distinct (map StepID steps) \<and> map Sequence steps = [1..<Suc (length steps)]"
    by (rule resolved_snapshot [OF assms]) simp
  ultimately show ?thesis using resolved_length [OF assms] by blast
qed

text \<open>Step identities are stable: the id of a step is either one of the previous plan or new, and a new id is one
  that neither the previous plan nor any earlier snapshot of the run ever used, so no evidence recorded
  for an old step can come to stand for a new one. An entry that names an id of the previous plan gets it.\<close>

theorem step_ids_stable:
  assumes "resolveRunPlanSteps ul idPrefix runID input previous reservedIDs = Inr steps" and "k < length steps"
  shows "(StepID (steps ! k) \<in> StepID ` set (old_steps previous)
      \<or> (StepID (steps ! k) \<notin> set reservedIDs \<and> (\<exists>n. StepID (steps ! k) = idPrefix @ FormatInt n)))
    \<and> (previous \<noteq> None \<and> TrimSpace (StepID (input ! k)) \<noteq> [] \<and> TrimSpace (StepID (input ! k)) \<in> StepID ` set (old_steps previous)
       \<longrightarrow> StepID (steps ! k) = TrimSpace (StepID (input ! k)))"
proof -
  obtain item where i: "identified (old_steps previous) (trim_item (previous = None) (input ! k)) item"
    and c: "continues idPrefix (map StepID (old_steps previous) @ reservedIDs) (by_id (old_steps previous)) item (steps ! k)"
    by (rule resolved_step [OF assms])
  have "StepID item = TrimSpace (StepID (input ! k))"
    if "previous \<noteq> None" "TrimSpace (StepID (input ! k)) \<noteq> []" "TrimSpace (StepID (input ! k)) \<in> StepID ` set (old_steps previous)"
    using i that by (auto simp: identified_def trim_item_def)
  moreover have "known (old_steps previous) item" using i by (rule identified_known)
  ultimately show ?thesis using c by (auto simp: continues_def known_def split: if_splits)
qed

text \<open>Progress cannot lower the bar: a step that continues a step of the previous plan still requires the
  verification that step required, still has a criterion if that step had one (the same one, when the
  entry states none), and keeps the record of where it came from.\<close>

theorem obligations_kept:
  assumes "resolveRunPlanSteps ul idPrefix runID input previous reservedIDs = Inr steps" and "k < length steps"
    and "by_id (old_steps previous) (StepID (steps ! k)) = Some old"
  shows "(VerificationRequired old \<longrightarrow> VerificationRequired (steps ! k))
    \<and> (SuccessCriteria old \<noteq> [] \<longrightarrow> SuccessCriteria (steps ! k) \<noteq> [])
    \<and> (TrimSpace (SuccessCriteria (input ! k)) = [] \<longrightarrow> SuccessCriteria (steps ! k) = SuccessCriteria old)
    \<and> SourceStepID (steps ! k) = SourceStepID old \<and> SourcePlanVersion (steps ! k) = SourcePlanVersion old"
proof -
  obtain item where i: "identified (old_steps previous) (trim_item (previous = None) (input ! k)) item"
    and c: "continues idPrefix (map StepID (old_steps previous) @ reservedIDs) (by_id (old_steps previous)) item (steps ! k)"
    by (rule resolved_step [OF assms(1,2)])
  have "SuccessCriteria item = TrimSpace (SuccessCriteria (input ! k))" using identified_fields [OF i] by (simp add: trim_item_def)
  with c assms(3) show ?thesis by (cases "SuccessCriteria item = []") (simp_all add: continues_def)
qed
section \<open>Work units partition the plan\<close>

text \<open>The status of a work unit summarises its steps: in progress when one is, else pending when one is, else
  completed when one is, else cancelled.\<close>

theorem aggregateRunPlanStatus_spec:
  "aggregateRunPlanStatus steps =
     (if \<exists>s \<in> set steps. Status s = ''in_progress'' then ''in_progress''
      else if \<exists>s \<in> set steps. Status s = ''pending'' then ''pending''
      else if \<exists>s \<in> set steps. Status s = ''completed'' then ''completed''
      else ''cancelled'')"
proof -
  have "aggregate p c steps =
     (if \<exists>s \<in> set steps. Status s = ''in_progress'' then ''in_progress''
      else if p \<or> (\<exists>s \<in> set steps. Status s = ''pending'') then ''pending''
      else if c \<or> (\<exists>s \<in> set steps. Status s = ''completed'') then ''completed''
      else ''cancelled'')" for p c
    by (induction p c steps rule: aggregate.induct) auto
  then show ?thesis by (simp add: aggregateRunPlanStatus_def)
qed

lemma plan_boundaries_filter: "plan_boundaries steps = filter (isRunPlanBoundary steps) [0..<length steps]"
  by (cases steps) (simp_all add: plan_boundaries_def isRunPlanBoundary_def upt_conv_Cons del: upt_Suc)

definition unit_stop :: "plan_step list \<Rightarrow> nat list \<Rightarrow> nat \<Rightarrow> nat" where
  "unit_stop steps bs i = (if Suc i < length bs then bs ! Suc i else length steps)"

lemma project_units_nth:
  "length (project_units steps bs) = length bs
   \<and> (\<forall>i < length bs. project_units steps bs ! i =
        \<lparr>u_WorkUnitID = WorkUnitID (steps ! (bs ! i)), u_GoalDigest = Step (steps ! (bs ! i)),
         u_PlanStatus = aggregateRunPlanStatus (slice steps (bs ! i) (unit_stop steps bs i)),
         u_RelatedTaskID = RelatedTaskID (steps ! (bs ! i))\<rparr>)"
proof (induction steps bs rule: project_units.induct)
  case (2 steps start rest)
  have "unit_stop steps (start # rest) (Suc i) = unit_stop steps rest i" for i by (simp add: unit_stop_def)
  moreover have "(case rest of [] \<Rightarrow> length steps | b # _ \<Rightarrow> b) = unit_stop steps (start # rest) 0"
    by (cases rest) (simp_all add: unit_stop_def)
  ultimately show ?case using "2" by (auto simp: less_Suc_eq_0_disj Let_def)
qed simp

lemma strict_sorted_gap:
  assumes "sorted_wrt (<) bs" and "i < length bs" and "bs ! i < j" and "Suc i < length bs \<longrightarrow> j < bs ! Suc i"
  shows "j \<notin> set (bs :: nat list)"
proof
  assume "j \<in> set bs"
  then obtain m where m: "m < length bs" "bs ! m = j" by (auto simp: in_set_conv_nth)
  have "i < m" using assms(1-3) m by (metis linorder_neqE_nat not_less_iff_gr_or_eq sorted_wrt_nth_less)
  moreover have "m \<noteq> Suc i" using assms(4) m by auto
  ultimately have "Suc i < m" by simp
  with assms(1,4) m sorted_wrt_nth_less [OF assms(1) \<open>Suc i < m\<close> m(1)] show False by simp
qed

lemma strict_sorted_cover:
  assumes "bs \<noteq> []" and "hd bs \<le> (j :: nat)"
  shows "\<exists>i < length bs. bs ! i \<le> j \<and> (Suc i < length bs \<longrightarrow> j < bs ! Suc i)"
  using assms
proof (induction bs)
  case (Cons b bs)
  show ?case
  proof (cases "bs \<noteq> [] \<and> hd bs \<le> j")
    case True
    with Cons.IH obtain i where "i < length bs" "bs ! i \<le> j" "Suc i < length bs \<longrightarrow> j < bs ! Suc i" by blast
    then show ?thesis by (intro exI [of _ "Suc i"]) simp
  next
    case False
    with Cons.prems show ?thesis by (intro exI [of _ 0]) (cases bs; auto)
  qed
qed simp

text \<open>Work units partition the plan: every unit starts where a boundary is and carries that step's goal and the
  aggregated status of its own steps, only its first step is a boundary, and every step of the plan is
  in exactly one unit.\<close>

theorem work_units_partition:
  assumes "projectRunPlanWorkUnits steps = (units, bs)"
  shows "length units = length bs \<and> sorted_wrt (<) bs
    \<and> (\<forall>i < length bs. bs ! i < length steps
         \<and> u_WorkUnitID (units ! i) = WorkUnitID (steps ! (bs ! i)) \<and> u_GoalDigest (units ! i) = Step (steps ! (bs ! i))
         \<and> u_PlanStatus (units ! i) = aggregateRunPlanStatus (slice steps (bs ! i) (unit_stop steps bs i))
         \<and> (\<forall>j. bs ! i < j \<and> j < unit_stop steps bs i \<longrightarrow> \<not> boundary (steps ! j)))
    \<and> (\<forall>j < length steps. \<exists>!i. i < length bs \<and> bs ! i \<le> j \<and> j < unit_stop steps bs i)"
proof -
  have bs: "bs = filter (isRunPlanBoundary steps) [0..<length steps]" and units: "units = project_units steps bs"
    using assms plan_boundaries_filter by (auto simp: projectRunPlanWorkUnits_def Let_def)
  have srt: "sorted_wrt (<) bs" unfolding bs by (simp add: sorted_wrt_filter)
  have below: "bs ! i < length steps" if "i < length bs" for i
    using nth_mem [OF that] by (auto simp: bs)
  have gap: "\<not> boundary (steps ! j)" if "i < length bs" "bs ! i < j" "j < unit_stop steps bs i" for i j
  proof
    assume "boundary (steps ! j)"
    moreover have "j < length steps"
      using that below [of "Suc i"] by (auto simp: unit_stop_def split: if_splits)
    ultimately have "j \<in> set bs" by (simp add: bs isRunPlanBoundary_def)
    with strict_sorted_gap [OF srt that(1,2)] that(3) show False by (simp add: unit_stop_def split: if_splits)
  qed
  have "\<exists>!i. i < length bs \<and> bs ! i \<le> j \<and> j < unit_stop steps bs i" if j: "j < length steps" for j
  proof -
    have "0 \<in> set bs" using j by (auto simp: bs isRunPlanBoundary_def)
    then have ne: "bs \<noteq> []" "hd bs = 0" using srt by (cases bs; fastforce)+
    obtain i where i: "i < length bs" "bs ! i \<le> j" "Suc i < length bs \<longrightarrow> j < bs ! Suc i"
      using strict_sorted_cover [OF ne(1), of j] ne(2) by auto
    show ?thesis
    proof (rule ex1I [of _ i])
      show "i < length bs \<and> bs ! i \<le> j \<and> j < unit_stop steps bs i" using i j by (simp add: unit_stop_def)
    next
      fix m
      assume m: "m < length bs \<and> bs ! m \<le> j \<and> j < unit_stop steps bs m"
      have less: "\<not> (a < b)" if "b < length bs" "bs ! b \<le> j" "Suc a < length bs \<longrightarrow> j < bs ! Suc a" for a b
      proof
        assume ab: "a < b"
        then have "bs ! Suc a \<le> bs ! b" using sorted_wrt_nth_less [OF srt _ that(1)] by (cases "Suc a = b") (auto intro: less_imp_le)
        with ab that show False by simp
      qed
      have "Suc m < length bs \<longrightarrow> j < bs ! Suc m" using m by (simp add: unit_stop_def split: if_splits)
      then show "m = i" using less [of i m] less [of m i] i m by auto
    qed
  qed
  with srt below gap project_units_nth [of steps bs] show ?thesis by (simp add: units)
qed

section \<open>Opening what is not verified\<close>

lemma index_where_Some: "index_where p xs = Some i \<Longrightarrow> i < length xs \<and> p (xs ! i)"
  by (induction p xs arbitrary: i rule: index_where.induct) (auto split: if_splits)

lemma index_where_None: "index_where p xs = None \<longleftrightarrow> (\<forall>x \<in> set xs. \<not> p x)"
  by (induction p xs rule: index_where.induct) auto

lemma opened_status [simp]:
  "\<not> claims_verified (s\<lparr>Status := ''pending''\<rparr>)" "\<not> claims_verified (s\<lparr>Status := ''in_progress''\<rparr>)"
  "is_active (s\<lparr>Status := ''in_progress''\<rparr>)" "\<not> (is_active s \<and> claims_verified s)"
  by (simp_all add: claims_verified_def is_active_def)

definition opens :: "bool \<Rightarrow> plan_step \<Rightarrow> bool" where
  "opens independent s \<longleftrightarrow> (\<not> independent \<and> is_active s) \<or> claims_verified s"

definition open_step :: "bool \<Rightarrow> plan_step \<Rightarrow> plan_step" where
  "open_step independent s = (if opens independent s then s\<lparr>Status := ''pending''\<rparr> else s)"

definition activate :: "nat \<Rightarrow> plan_step list \<Rightarrow> plan_step list" where
  "activate i steps = steps[i := (steps ! i)\<lparr>Status := ''in_progress''\<rparr>]"

lemma normalize_first_eq:
  "index_where claims_verified steps = Some i \<Longrightarrow> normalizeFirstPlanVerification steps None independent =
     (if independent \<and> (\<exists>s \<in> set steps. is_active s) then map (open_step independent) steps
      else activate i (map (open_step independent) steps), filter (opens independent) steps)"
  by (cases independent) (simp_all add: normalizeFirstPlanVerification_def Let_def open_step_def [abs_def] opens_def [abs_def] activate_def)

lemma activate_facts:
  "length (activate i steps) = length steps" "k \<noteq> i \<Longrightarrow> activate i steps ! k = steps ! k"
  "i < length steps \<Longrightarrow> \<exists>s \<in> set (activate i steps). is_active s"
  "s \<in> set (activate i steps) \<Longrightarrow> s \<in> set steps \<or> \<not> claims_verified s"
proof -
  show "i < length steps \<Longrightarrow> \<exists>s \<in> set (activate i steps). is_active s"
    by (intro bexI [of _ "(steps ! i)\<lparr>Status := ''in_progress''\<rparr>"]) (simp_all add: activate_def set_update_memI)
  show "s \<in> set (activate i steps) \<Longrightarrow> s \<in> set steps \<or> \<not> claims_verified s"
    using set_update_subset_insert [of steps i "(steps ! i)\<lparr>Status := ''in_progress''\<rparr>"]
    unfolding activate_def by auto
qed (simp_all add: activate_def)

text \<open>A first plan claims no verified completion: whatever the first snapshot says, no step of the stored plan is
  both completed and in need of verification; the steps that said so are open again and reported, a step is
  in progress whenever one was opened, and under the current contract every other step is stored as submitted.\<close>

theorem first_plan_opens_unverified:
  assumes "normalizeFirstPlanVerification steps None independent = (steps', deferred)"
  shows "length steps' = length steps \<and> (\<forall>s \<in> set steps'. \<not> claims_verified s)
    \<and> (deferred \<noteq> [] \<longrightarrow> (\<exists>s \<in> set steps'. is_active s)) \<and> filter claims_verified deferred = filter claims_verified steps
    \<and> (\<forall>k < length steps. independent \<and> \<not> claims_verified (steps ! k) \<longrightarrow> steps' ! k = steps ! k)"
proof (cases "index_where claims_verified steps")
  case None
  with assms show ?thesis by (auto simp: normalizeFirstPlanVerification_def index_where_None)
next
  case (Some i)
  then have i: "i < length steps" "claims_verified (steps ! i)" by (auto dest: index_where_Some)
  define opened where "opened = map (open_step independent) steps"
  define keeps where "keeps \<longleftrightarrow> independent \<and> (\<exists>s \<in> set steps. is_active s)"
  have eq: "steps' = (if keeps then opened else activate i opened)" "deferred = filter (opens independent) steps"
    using assms unfolding normalize_first_eq [OF Some] opened_def keeps_def by simp_all
  have len: "length opened = length steps" by (simp add: opened_def)
  have clean: "\<not> claims_verified s" if "s \<in> set opened" for s using that by (auto simp: opened_def open_step_def opens_def)
  have "\<exists>s \<in> set steps'. is_active s"
  proof (cases keeps)
    case True
    then obtain s where s: "s \<in> set steps" "is_active s" "independent" by (auto simp: keeps_def)
    then have "open_step independent s = s" using opened_status(4) [of s] by (simp add: open_step_def opens_def)
    with s(1) have "s \<in> set opened" using image_eqI [of s "open_step independent" s "set steps"] by (simp add: opened_def)
    with s(2) True show ?thesis by (auto simp: eq(1))
  next
    case False
    with i(1) len show ?thesis unfolding eq(1) by (simp add: activate_facts(3))
  qed
  moreover have "\<forall>s \<in> set steps'. \<not> claims_verified s"
    using clean activate_facts(4) [of _ i opened] by (auto simp: eq(1) split: if_splits)
  moreover have "filter claims_verified deferred = filter claims_verified steps"
    unfolding eq(2) by (auto simp: opens_def intro!: filter_cong)
  moreover have "steps' ! k = steps ! k" if "k < length steps" "independent" "\<not> claims_verified (steps ! k)" for k
  proof -
    have "k \<noteq> i" using that i by auto
    then show ?thesis using that by (simp add: eq(1) activate_facts(2) opened_def open_step_def opens_def)
  qed
  moreover have "length steps' = length steps" by (simp add: eq(1) activate_facts(1) len)
  ultimately show ?thesis by blast
qed

lemma carry_eq:
  "index_where (reopens validate) steps = Some i \<Longrightarrow> carryInheritedVerification validate steps =
     (if \<exists>s \<in> set steps. is_active s then map (carry_step validate) steps else activate i (map (carry_step validate) steps),
      filter (reopens validate) steps)"
  by (simp add: carryInheritedVerification_def Let_def activate_def)

text \<open>Continuing a run never claims more than was validated: after the plan of a parent run is carried over,
  a completed step that needs verification is one whose source observation has been validated again, and
  says so; every other one is open and reported, and a step is in progress whenever one was reopened.\<close>

theorem carried_steps_validated:
  assumes "carryInheritedVerification validate steps = (steps', reopened)"
  shows "length steps' = length steps \<and> reopened = filter (reopens validate) steps
    \<and> (\<forall>s \<in> set steps'. claims_verified s \<longrightarrow> validate s \<and> ReusePriorVerification s \<and> ReuseReason s = carriedVerificationReason)
    \<and> (reopened \<noteq> [] \<longrightarrow> (\<exists>s \<in> set steps'. is_active s))
    \<and> (\<forall>k < length steps. \<not> claims_verified (steps ! k) \<longrightarrow> steps' ! k = steps ! k)"
proof -
  define c where "c = map (carry_step validate) steps"
  have cc: "carry_candidate (carry_candidate s) = carry_candidate s" "claims_verified (carry_candidate s) = claims_verified s"
    "ReusePriorVerification (carry_candidate s)" "ReuseReason (carry_candidate s) = carriedVerificationReason" for s
    by (simp_all add: carry_candidate_def claims_verified_def)
  have good: "claims_verified s \<Longrightarrow> validate s \<and> ReusePriorVerification s \<and> ReuseReason s = carriedVerificationReason"
    if "s \<in> set c" for s using that by (auto simp: c_def carry_step_def cc split: if_splits)
  show ?thesis
  proof (cases "index_where (reopens validate) steps")
    case None
    with assms have eq: "steps' = c" "reopened = filter (reopens validate) steps"
      by (simp_all add: carryInheritedVerification_def c_def)
    moreover have "reopened = []" using None by (simp add: eq(2) index_where_None filter_empty_conv)
    moreover have "c ! k = steps ! k" if "k < length steps" "\<not> claims_verified (steps ! k)" for k
      using that by (simp add: c_def carry_step_def)
    moreover have "length c = length steps" by (simp add: c_def)
    ultimately show ?thesis using good by blast
  next
    case (Some i)
    then have i: "i < length steps" "claims_verified (steps ! i)" by (auto dest!: index_where_Some simp: reopens_def)
    define active where "active \<longleftrightarrow> (\<exists>s \<in> set steps. is_active s)"
    have eq: "steps' = (if active then c else activate i c)" "reopened = filter (reopens validate) steps"
      using assms unfolding carry_eq [OF Some] active_def c_def by simp_all
    have "\<exists>s \<in> set steps'. is_active s"
    proof (cases active)
      case True
      then obtain s where "s \<in> set steps" "is_active s" by (auto simp: active_def)
      moreover from this have "carry_step validate s = s" using opened_status(4) [of s] by (simp add: carry_step_def)
      ultimately have "s \<in> set steps'" using True image_eqI [of s "carry_step validate" s "set steps"] by (simp add: eq(1) c_def)
      with \<open>is_active s\<close> show ?thesis by blast
    next
      case False
      with i show ?thesis unfolding eq(1) by (simp add: activate_facts(3) c_def)
    qed
    moreover have "\<forall>s \<in> set steps'. claims_verified s \<longrightarrow> validate s \<and> ReusePriorVerification s \<and> ReuseReason s = carriedVerificationReason"
    proof (intro ballI impI)
      fix s
      assume s: "s \<in> set steps'" "claims_verified s"
      with activate_facts(4) [of s i c] have "s \<in> set c" by (cases active) (simp_all add: eq(1))
      then show "validate s \<and> ReusePriorVerification s \<and> ReuseReason s = carriedVerificationReason" using s(2) by (rule good)
    qed
    moreover have "steps' ! k = steps ! k" if "k < length steps" "\<not> claims_verified (steps ! k)" for k
    proof -
      have "k \<noteq> i" using that i by auto
      then show ?thesis using that by (simp add: eq(1) activate_facts(2) c_def carry_step_def)
    qed
    moreover have "length steps' = length steps" by (simp add: eq(1) activate_facts(1) c_def)
    ultimately show ?thesis using eq(2) by blast
  qed
qed
section \<open>Acceptance bars\<close>

text \<open>The bar a step is held to is the first one: the original criterion of a step is that of its first row
  over all versions of the plan, and the established one that of its first row with a criterion.\<close>

theorem plan_criteria_first_declared:
  "originalPlanCriteria rows stepID = map_option snd (find (\<lambda>r. fst r = stepID) rows)
   \<and> establishedPlanCriteria rows stepID = map_option snd (find (\<lambda>r. fst r = stepID \<and> TrimSpace (snd r) \<noteq> []) rows)"
proof -
  have "firstPlanCriteria d rows first stepID = (case first stepID of Some c \<Rightarrow> Some c
      | None \<Rightarrow> map_option snd (find (\<lambda>r. fst r = stepID \<and> (d \<longrightarrow> TrimSpace (snd r) \<noteq> [])) rows))" for d first
    by (induction d rows first rule: firstPlanCriteria.induct) (auto split: option.splits)
  then show ?thesis by (simp add: originalPlanCriteria_def establishedPlanCriteria_def)
qed

text \<open>A moved bar is reported, once: a step that arrives completed under a criterion different from its original
  one is reported with both texts, unless the previous snapshot already had it completed under that same
  criterion; a snapshot that repeats the previous plan reports nothing.\<close>

theorem moved_bar_reported:
  assumes "s \<in> set steps" and "Status s = ''completed''" and "original (StepID s) = Some first"
    and "normalizeRunPlanText ul first \<noteq> normalizeRunPlanText ul (SuccessCriteria s)"
    and "distinct (map StepID (plan_Steps p))"
  shows "(\<lparr>cc_StepID = StepID s, cc_Step = Step s, cc_From = first, cc_To = SuccessCriteria s\<rparr>
           \<in> set (restatedCompletedCriteria ul original previous steps)
      \<or> (\<exists>prior. by_id (old_steps previous) (StepID s) = Some prior \<and> Status prior = ''completed''
           \<and> normalizeRunPlanText ul (SuccessCriteria prior) = normalizeRunPlanText ul (SuccessCriteria s)))
    \<and> restatedCompletedCriteria ul original (Some p) (plan_Steps p) = []"
proof
  show "\<lparr>cc_StepID = StepID s, cc_Step = Step s, cc_From = first, cc_To = SuccessCriteria s\<rparr>
           \<in> set (restatedCompletedCriteria ul original previous steps)
      \<or> (\<exists>prior. by_id (old_steps previous) (StepID s) = Some prior \<and> Status prior = ''completed''
           \<and> normalizeRunPlanText ul (SuccessCriteria prior) = normalizeRunPlanText ul (SuccessCriteria s))"
  proof (cases "restated_step ul original (by_id (old_steps previous)) s")
    case None
    with assms(2-4) show ?thesis by (auto simp: restated_step_def split: option.splits if_splits)
  next
    case (Some c)
    then have "c = \<lparr>cc_StepID = StepID s, cc_Step = Step s, cc_From = first, cc_To = SuccessCriteria s\<rparr>"
      using assms(2-4) by (auto simp: restated_step_def split: option.splits if_splits)
    moreover have "c \<in> set (restatedCompletedCriteria ul original previous steps)"
      using assms(1) Some by (force simp: restatedCompletedCriteria_def List.map_filter_def)
    ultimately show ?thesis by simp
  qed
next
  have "restated_step ul original (by_id (plan_Steps p)) s = None" if "s \<in> set (plan_Steps p)" for s
    using by_id_distinct [OF assms(5) that] by (auto simp: restated_step_def split: option.splits)
  then show "restatedCompletedCriteria ul original (Some p) (plan_Steps p) = []"
    by (simp add: restatedCompletedCriteria_def old_steps_def List.map_filter_def filter_empty_conv)
qed

section \<open>Repeating a plan\<close>



definition echo :: "plan_step \<Rightarrow> plan_input" where
  "echo s = plan_input.truncate s"

lemma echo_fields [simp]:
  "StepID (echo s) = StepID s" "Step (echo s) = Step s" "Status (echo s) = Status s" "SuccessCriteria (echo s) = SuccessCriteria s"
  "VerificationRequired (echo s) = VerificationRequired s" "RelatedTaskID (echo s) = RelatedTaskID s"
  "WorkUnitID (echo s) = WorkUnitID s" "WorkUnit (echo s) = WorkUnit s" "ReusePriorVerification (echo s) = ReusePriorVerification s"
  "ReuseReason (echo s) = ReuseReason s" "CancellationDisposition (echo s) = CancellationDisposition s"
  "CancellationReason (echo s) = CancellationReason s" "UserTakeoverQuote (echo s) = UserTakeoverQuote s"
  "ReplacementStepID (echo s) = ReplacementStepID s" "ScopeChangeQuote (echo s) = ScopeChangeQuote s"
  by (simp_all add: echo_def plan_input.defs)








section \<open>A plan at work\<close>

definition sample_item :: "string \<Rightarrow> string \<Rightarrow> plan_input" where
  "sample_item ident status = \<lparr>CancellationDisposition = [], CancellationReason = [], UserTakeoverQuote = [], ReplacementStepID = [],
     ScopeChangeQuote = [], StepID = ident, Step = ''x'', Status = status, SuccessCriteria = [], VerificationRequired = False,
     ReusePriorVerification = False, ReuseReason = [], RelatedTaskID = [], WorkUnitID = [], WorkUnit = False, implicitPriorReuse = False\<rparr>"

definition sample_step :: "string \<Rightarrow> string \<Rightarrow> nat \<Rightarrow> plan_step" where
  "sample_step ident status n = plan_input.extend
     ((sample_item ident status)\<lparr>SuccessCriteria := ''c'', VerificationRequired := True\<rparr>)
     \<lparr>verificationDeferralReason = [], Sequence = n, SourceStepID = [], SourcePlanVersion = 0, CancellationQuoteSource = []\<rparr>"

definition sample_run_plan :: run_plan where
  "sample_run_plan = \<lparr>plan_RunID = ''r'', plan_Version = 1, plan_Explanation = [], plan_ContentHash = [],
     plan_Steps = [sample_step ''a'' ''pending'' 1], plan_CreatedAt = 0\<rparr>"

lemma sample_trims [simp]:
  "TrimSpace ''x'' = ''x''" "TrimSpace ''a'' = ''a''" "TrimSpace ''c'' = ''c''" "TrimSpace ''pending'' = ''pending''"
  "TrimSpace ''completed'' = ''completed''"
  by (simp_all add: TrimSpace_def chunks.simps byte_def is_space_def)

lemma sample_step_fields [simp]:
  "StepID (sample_step ident status n) = ident" "Step (sample_step ident status n) = ''x''" "Status (sample_step ident status n) = status"
  "SuccessCriteria (sample_step ident status n) = ''c''" "VerificationRequired (sample_step ident status n)"
  "RelatedTaskID (sample_step ident status n) = []" "WorkUnitID (sample_step ident status n) = []"
  "\<not> WorkUnit (sample_step ident status n)" "Sequence (sample_step ident status n) = n"
  "verificationDeferralReason (sample_step ident status n) = []" "CancellationQuoteSource (sample_step ident status n) = []"
  "\<not> ReusePriorVerification (sample_step ident status n)"
  by (simp_all add: sample_step_def sample_item_def plan_input.defs)

text \<open>A progress report on step \<^verbatim>\<open>a\<close> that omits its criterion, and a new step.\<close>

lemma sample_item_fields [simp]:
  "StepID (sample_item ident status) = ident" "Step (sample_item ident status) = ''x''" "Status (sample_item ident status) = status"
  "SuccessCriteria (sample_item ident status) = []" "\<not> VerificationRequired (sample_item ident status)"
  "RelatedTaskID (sample_item ident status) = []" "WorkUnitID (sample_item ident status) = []" "\<not> WorkUnit (sample_item ident status)"
  "(sample_item ident status)\<lparr>StepID := u\<rparr> = sample_item u status"
  by (simp_all add: sample_item_def)

lemma sample_plan_steps [simp]: "plan_Steps sample_run_plan = [sample_step ''a'' ''pending'' 1]" "old_steps (Some sample_run_plan) = [sample_step ''a'' ''pending'' 1]"
  by (simp_all add: sample_run_plan_def old_steps_def)

lemma sample_by_id [simp]: "by_id [sample_step ''a'' ''pending'' n] = [''a'' \<mapsto> sample_step ''a'' ''pending'' n]"
  by (simp add: by_id_def)

lemma sample_trim_item: "TrimSpace ident = ident \<Longrightarrow> TrimSpace status = status \<Longrightarrow> trim_item False (sample_item ident status) = sample_item ident status"
  by (simp add: trim_item_def sample_item_def)

lemma sample_settle_old:
  "settle_item id False True (Some (sample_step ''a'' ''pending'' 1)) 0 {} (sample_item ''a'' ''completed'') =
   Inr ((sample_item ''a'' ''completed'')\<lparr>SuccessCriteria := ''c'', VerificationRequired := True\<rparr>)"
  by (simp add: settle_item_def Let_def keep_text_def keep_obligation_def keep_unit_def keep_reuse_def)

lemma sample_settle_new:
  "settle_item id False True None 1 {''a''} (sample_item ''s_2'' ''pending'') = Inr (sample_item ''s_2'' ''pending'')"
  by (simp add: settle_item_def Let_def)

lemma sample_new_steps:
  "new_step ((sample_item ''a'' ''completed'')\<lparr>SuccessCriteria := ''c'', VerificationRequired := True\<rparr>) 0 (Some (sample_step ''a'' ''pending'' 1))
     = sample_step ''a'' ''completed'' 1"
  "new_step (sample_item ''s_2'' ''pending'') 1 None = (sample_step ''s_2'' ''pending'' 2)\<lparr>SuccessCriteria := [], VerificationRequired := False\<rparr>"
  by (simp_all add: new_step_def sample_step_def sample_item_def plan_input.defs)

lemma sample_resolved:
  "resolveRunPlanSteps id ''s_'' ''r'' [sample_item ''a'' ''completed'', sample_item [] ''pending''] (Some sample_run_plan) [''s_1''] =
   Inr [sample_step ''a'' ''completed'' 1,
        (sample_step ''s_2'' ''pending'' 2)\<lparr>SuccessCriteria := [], VerificationRequired := False\<rparr>]"
proof -
  have m: "mint ''s_'' [''a'', ''s_1''] (Suc 0) = 2" by (simp add: mint.simps FormatInt.simps char_of_def bit_0)
  have f: "FormatInt 2 = ''2''" by (simp add: FormatInt.simps char_of_def bit_0)
  have "claim_items id ''r'' (Some sample_run_plan) 0 {} [sample_item ''a'' ''completed'', sample_item [] ''pending'']
      = Inr ([sample_item ''a'' ''completed'', sample_item [] ''pending''], {''a''})"
    by (simp add: claim_item_def Let_def sample_trim_item validRunPlanStatus_def claim_id_def)
  moreover have "resolve_items id ''s_'' False True [''a'' \<mapsto> sample_step ''a'' ''pending'' 1] 0 {} 1 [''a'', ''s_1'']
      [sample_item ''a'' ''completed'', sample_item [] ''pending''] =
    Inr [sample_step ''a'' ''completed'' 1, (sample_step ''s_2'' ''pending'' 2)\<lparr>SuccessCriteria := [], VerificationRequired := False\<rparr>]"
    using sample_settle_old sample_settle_new sample_new_steps by (simp add: identify_item_def Let_def m f)
  ultimately show ?thesis
    by (simp add: resolveRunPlanSteps_def position_items_def step_change_def boundary_def)
qed

theorem resolved_plan_well_formed_witness:
  "\<exists>steps. resolveRunPlanSteps id ''s_'' ''r'' [sample_item ''a'' ''completed'', sample_item [] ''pending''] (Some sample_run_plan) [''s_1'']
      = Inr steps \<and> length steps = 2 \<and> distinct (map StepID steps)"
  using resolved_plan_well_formed [OF sample_resolved] sample_resolved by simp

theorem step_ids_stable_witness:
  "\<exists>steps. resolveRunPlanSteps id ''s_'' ''r'' [sample_item ''a'' ''completed'', sample_item [] ''pending''] (Some sample_run_plan) [''s_1'']
      = Inr steps \<and> StepID (steps ! 0) = ''a'' \<and> (\<exists>n. StepID (steps ! 1) = ''s_'' @ FormatInt n)"
  using step_ids_stable [OF sample_resolved, of 0] step_ids_stable [OF sample_resolved, of 1] sample_resolved by auto

theorem obligations_kept_witness:
  "\<exists>steps. resolveRunPlanSteps id ''s_'' ''r'' [sample_item ''a'' ''completed'', sample_item [] ''pending''] (Some sample_run_plan) [''s_1'']
      = Inr steps \<and> VerificationRequired (steps ! 0) \<and> SuccessCriteria (steps ! 0) = ''c''"
  using obligations_kept [OF sample_resolved, of 0 "sample_step ''a'' ''pending'' 1"] sample_resolved by simp

theorem work_units_partition_witness:
  "\<exists>units bs. projectRunPlanWorkUnits (plan_Steps sample_run_plan) = (units, bs) \<and> length units = length bs
     \<and> (\<exists>!i. i < length bs \<and> bs ! i \<le> 0 \<and> 0 < unit_stop (plan_Steps sample_run_plan) bs i)"
proof -
  obtain units bs where e: "projectRunPlanWorkUnits (plan_Steps sample_run_plan) = (units, bs)" by fastforce
  have "length units = length bs \<and> (\<forall>j < length (plan_Steps sample_run_plan).
      \<exists>!i. i < length bs \<and> bs ! i \<le> j \<and> j < unit_stop (plan_Steps sample_run_plan) bs i)"
    using work_units_partition [OF e] by blast
  with e show ?thesis by (intro exI [of _ units] exI [of _ bs]) simp
qed

theorem first_plan_opens_unverified_witness:
  "\<exists>steps' deferred. normalizeFirstPlanVerification [sample_step ''a'' ''completed'' 1] None True = (steps', deferred)
     \<and> (\<forall>s \<in> set steps'. \<not> claims_verified s) \<and> (\<exists>s \<in> set steps'. is_active s)"
proof -
  obtain steps' deferred where e: "normalizeFirstPlanVerification [sample_step ''a'' ''completed'' 1] None True = (steps', deferred)"
    by fastforce
  have "filter claims_verified deferred = [sample_step ''a'' ''completed'' 1]" "(\<forall>s \<in> set steps'. \<not> claims_verified s)"
    "deferred \<noteq> [] \<longrightarrow> (\<exists>s \<in> set steps'. is_active s)"
    using first_plan_opens_unverified [OF e] by (simp_all add: claims_verified_def)
  moreover from this(1) have "deferred \<noteq> []" by auto
  ultimately show ?thesis using e by blast
qed

theorem carried_steps_validated_witness:
  "\<exists>steps' reopened. carryInheritedVerification (\<lambda>_. False) [sample_step ''a'' ''completed'' 1] = (steps', reopened)
     \<and> (\<forall>s \<in> set steps'. \<not> claims_verified s) \<and> (\<exists>s \<in> set steps'. is_active s)"
proof -
  obtain steps' reopened where e: "carryInheritedVerification (\<lambda>_. False) [sample_step ''a'' ''completed'' 1] = (steps', reopened)"
    by fastforce
  have "reopened = [sample_step ''a'' ''completed'' 1]" "\<forall>s \<in> set steps'. \<not> claims_verified s"
    "reopened \<noteq> [] \<longrightarrow> (\<exists>s \<in> set steps'. is_active s)"
    using carried_steps_validated [OF e] by (simp_all add: claims_verified_def reopens_def)
  with e show ?thesis by blast
qed

theorem moved_bar_reported_witness:
  "\<lparr>cc_StepID = ''a'', cc_Step = ''x'', cc_From = [], cc_To = ''c''\<rparr>
     \<in> set (restatedCompletedCriteria id [''a'' \<mapsto> []] (Some sample_run_plan) [sample_step ''a'' ''completed'' 1])"
proof -
  have "normalizeRunPlanText id [] = []" "normalizeRunPlanText id ''c'' \<noteq> []"
    by (simp_all add: normalizeRunPlanText_def Fields_def ToLower_def runes_def of_runes_def lower_rune_def chunks.simps byte_def
        encode_rune_def char_of_def bit_0 is_space_def)
  then show ?thesis
    using moved_bar_reported [of "sample_step ''a'' ''completed'' 1" "[sample_step ''a'' ''completed'' 1]" "[''a'' \<mapsto> []]" "[]" id
        sample_run_plan "Some sample_run_plan"] by simp
qed


end
