(* ===== verification/PlanCancellation.thy ===== *)
theory PlanCancellation
  imports RunPlan
begin

text \<open>
  When a step of a plan may be cancelled: \<^verbatim>\<open>internal/control/run_plan_cancellation.go\<close> and
  \<^verbatim>\<open>run_plan_quote_source.go\<close>. A requested cancellation stands only on a completed replacement that keeps
  the bar, or on words a person wrote in the work this run continues; everything else stays pending, and
  an open step that a snapshot omits is kept.

  The rows of the lineage query (kind, id, content, incomplete) are the argument \<open>inputs\<close>, in the order the
  query gives them. The Unicode tables behind \<^verbatim>\<open>unicode.IsLetter\<close>, \<^verbatim>\<open>IsDigit\<close>, \<^verbatim>\<open>IsMark\<close> and the scripts Han,
  Hiragana, Katakana and Hangul are the record \<open>uni\<close>. A rune is its code point; an invalid byte is U+FFFD,
  as a \<^verbatim>\<open>range\<close> loop reads it.
\<close>

section \<open>Runes\<close>

record uni =
  letter :: "nat \<Rightarrow> bool"
  digit :: "nat \<Rightarrow> bool"
  mark :: "nat \<Rightarrow> bool"
  cjkRune :: "nat \<Rightarrow> bool"

definition rune_value :: "nat option \<Rightarrow> nat" where
  "rune_value r = (case r of None \<Rightarrow> 65533 | Some n \<Rightarrow> n)"

definition rune_list :: "string \<Rightarrow> nat list" where
  "rune_list s = map (rune_value \<circ> fst) (chunks s)"

abbreviation IsSpace :: "nat \<Rightarrow> bool" where
  "IsSpace n \<equiv> is_space (Some n)"

definition DecodeRune :: "string \<Rightarrow> nat" where
  "DecodeRune s = (if s = [] then 65533 else rune_value (fst (decode_rune s)))"

definition DecodeLastRune :: "string \<Rightarrow> nat" where
  "DecodeLastRune s = (if s = [] then 65533 else last (rune_list s))"

definition closingPunctuation :: "nat list" where
  "closingPunctuation = [46, 33, 63, 59, 12290, 65281, 65311, 65307, 8230, 126, 65374, 34, 39, 8220, 8221, 8216, 8217,
     12300, 12301, 12302, 12303]"

definition closing :: "nat option \<Rightarrow> bool" where
  "closing r = (IsSpace (rune_value r) \<or> rune_value r \<in> set closingPunctuation)"

definition trimClosing :: "string \<Rightarrow> string" where
  "trimClosing text = concat (map snd (rev (dropWhile (closing \<circ> fst) (rev (dropWhile (closing \<circ> fst) (chunks text))))))"

section \<open>Sentences\<close>

definition closingMarks :: "nat list" where
  "closingMarks = [41, 93, 125, 34, 39, 42, 95, 96, 62, 8230, 8221, 8217, 12301, 12303, 12299, 65289, 12305]"

definition contains :: "'a list \<Rightarrow> 'a list \<Rightarrow> bool" where
  "contains xs p = (\<exists>s \<in> set (suffixes xs). prefix p s)"

text \<open>The word that ends where the list ends.\<close>

definition last_word :: "nat list \<Rightarrow> nat list" where
  "last_word rs = rev (takeWhile (\<lambda>r. \<not> IsSpace r) (rev rs))"

definition queryMark :: "uni \<Rightarrow> nat list \<Rightarrow> nat \<Rightarrow> bool" where
  "queryMark U rs i =
     (if i = 0 \<or> IsSpace (rs ! (i - 1)) \<or> i + 1 = length rs then False
      else (let word = last_word (take i rs); nxt = rs ! (i + 1) in
        if (contains word (map byte ''://'') \<or> prefix (map byte ''www.'') word) \<and> (letter U nxt \<or> digit U nxt) then True
        else (let key = i + 1 + length (takeWhile (\<lambda>r. letter U r \<or> digit U r \<or> r \<in> set (map byte ''_.-%[]'')) (drop (i + 1) rs))
              in key > i + 1 \<and> key < length rs \<and> rs ! key = byte (CHR ''=''))))"

definition sentenceAbbreviations :: "string list" where
  "sentenceAbbreviations = [''etc'', ''vs'', ''mr'', ''mrs'', ''ms'', ''dr'', ''st'', ''jr'', ''sr'', ''cf'', ''approx'']"

definition abbreviationBefore :: "(nat \<Rightarrow> nat) \<Rightarrow> uni \<Rightarrow> nat list \<Rightarrow> bool" where
  "abbreviationBefore ul U rs =
     (let word = map (\<lambda>r. the (lower_rune ul (Some r))) (last_word rs) in
      if word = [] then False
      else if byte (CHR ''.'') \<in> set word \<or> length word = 1 \<or> word \<in> set (map (map byte) sentenceAbbreviations) then True
      else list_all (digit U) word)"

definition sentenceEnd :: "(nat \<Rightarrow> nat) \<Rightarrow> uni \<Rightarrow> nat list \<Rightarrow> nat \<Rightarrow> nat option" where
  "sentenceEnd ul U rs i =
     (let stop = i + 1 + length (takeWhile (\<lambda>r. r \<in> set closingMarks) (drop (i + 1) rs));
          free = (stop = length rs \<or> IsSpace (rs ! stop));
          r = rs ! i;
          ends = (if r = 12290 \<or> r = 65281 \<or> r = 65311 \<or> r = 65307 then True
                  else if r = byte (CHR ''!'') \<or> r = byte (CHR '';'') then free
                  else if r = byte (CHR ''?'') then free \<or> (cjkRune U (rs ! stop) \<and> \<not> queryMark U rs i)
                  else if r = byte (CHR ''.'') then free \<and> \<not> abbreviationBefore ul U (take i rs)
                  else False)
      in if ends then Some stop else None)"

record segment =
  seg_start :: nat
  seg_end :: nat
  seg_code :: bool

text \<open>The runes of a line are its chunks; \<open>offset cs k\<close> is the byte offset of the rune with index \<open>k\<close>.\<close>

definition offset :: "chunk list \<Rightarrow> nat \<Rightarrow> nat" where
  "offset cs k = length (concat (map snd (take k cs)))"

definition sentence :: "nat \<Rightarrow> chunk list \<Rightarrow> nat \<Rightarrow> nat \<Rightarrow> segment list" where
  "sentence start cs from to =
     (if trimClosing (concat (map snd (drop from (take to cs)))) \<noteq> []
      then [\<lparr>seg_start = start + offset cs from, seg_end = start + offset cs to, seg_code = False\<rparr>] else [])"

text \<open>The loop of \<^verbatim>\<open>appendLineSentences\<close>, with its variables \<^verbatim>\<open>from\<close> and \<^verbatim>\<open>i\<close>, and the final \<^verbatim>\<open>add(len(runes))\<close>.\<close>

lemma sentenceEnd_after: "sentenceEnd ul U rs i = Some stop \<Longrightarrow> i < stop"
  by (auto simp: sentenceEnd_def Let_def split: if_splits)

function line_sentences :: "(nat \<Rightarrow> nat) \<Rightarrow> uni \<Rightarrow> nat \<Rightarrow> chunk list \<Rightarrow> nat \<Rightarrow> nat \<Rightarrow> segment list" where
  "line_sentences ul U start cs from i =
     (let rs = map (rune_value \<circ> fst) cs in
      if i < length cs
      then (case sentenceEnd ul U rs i of
              Some stop \<Rightarrow> sentence start cs from stop @ line_sentences ul U start cs stop stop
            | None \<Rightarrow> line_sentences ul U start cs from (Suc i))
      else sentence start cs from (length cs))"
  by pat_completeness auto

termination line_sentences
  by (relation "measure (\<lambda>(ul, U, start, cs, from, i). length cs - i)") (auto dest: sentenceEnd_after)

declare line_sentences.simps [simp del]

definition appendLineSentences :: "(nat \<Rightarrow> nat) \<Rightarrow> uni \<Rightarrow> nat \<Rightarrow> string \<Rightarrow> segment list" where
  "appendLineSentences ul U start line = line_sentences ul U start (chunks line) 0 0"

definition line_segments :: "(nat \<Rightarrow> nat) \<Rightarrow> uni \<Rightarrow> bool \<Rightarrow> nat \<Rightarrow> string \<Rightarrow> segment list \<times> bool" where
  "line_segments ul U fenced start line =
     (let trimmed = TrimSpace line;
          fence = (prefix ''```'' trimmed \<or> prefix ''~~~'' trimmed);
          indented = (prefix ''    '' line \<or> prefix [CHR 0x09] line)
      in (if trimmed = [] then []
          else if fence \<or> fenced \<or> indented then [\<lparr>seg_start = start, seg_end = start + length line, seg_code = True\<rparr>]
          else appendLineSentences ul U start line,
          if fence then \<not> fenced else fenced))"

abbreviation line_break :: "char \<Rightarrow> bool" where
  "line_break c \<equiv> c = CHR 0x0D \<or> c = CHR 0x0A"

function segments_from :: "(nat \<Rightarrow> nat) \<Rightarrow> uni \<Rightarrow> bool \<Rightarrow> nat \<Rightarrow> string \<Rightarrow> segment list" where
  "segments_from ul U fenced start [] = []"
| "segments_from ul U fenced start (c # rest) =
     (let line = takeWhile (\<lambda>c. \<not> line_break c) (c # rest);
          (segs, fenced') = line_segments ul U fenced start line
      in segs @ segments_from ul U fenced' (start + length line + 1) (drop (length line + 1) (c # rest)))"
  by pat_completeness auto

termination segments_from
  by (relation "measure (\<lambda>(ul, U, fenced, start, rest). length rest)") auto

declare segments_from.simps [simp del]

definition segmentInput :: "(nat \<Rightarrow> nat) \<Rightarrow> uni \<Rightarrow> string \<Rightarrow> segment list" where
  "segmentInput ul U content = segments_from ul U False 0 content"

section \<open>Quotes\<close>

definition minQuoteWeight :: nat where
  "minQuoteWeight = 8"

definition quote_rune :: "uni \<Rightarrow> nat \<Rightarrow> nat \<times> nat \<times> bool \<Rightarrow> nat \<times> nat \<times> bool" where
  "quote_rune U r st = (case st of (ws, weight, inWord) \<Rightarrow>
     if cjkRune U r then (ws + 1, weight + 2, False)
     else if letter U r \<or> digit U r then (if inWord then ws else ws + 1, weight + 1, True)
     else (ws, weight, False))"

definition meaningfulQuote :: "uni \<Rightarrow> string \<Rightarrow> bool" where
  "meaningfulQuote U quote = (case fold (quote_rune U) (rune_list quote) (0, 0, False) of
     (ws, weight, _) \<Rightarrow> ws \<ge> 2 \<and> weight \<ge> minQuoteWeight)"

definition wordRune :: "uni \<Rightarrow> nat \<Rightarrow> bool" where
  "wordRune U r = (\<not> cjkRune U r \<and> (letter U r \<or> digit U r \<or> mark U r \<or> r = byte (CHR ''_'')))"

text \<open>\<^verbatim>\<open>strings.Index\<close>.\<close>

fun index_of :: "string \<Rightarrow> string \<Rightarrow> nat option" where
  "index_of q [] = (if q = [] then Some 0 else None)"
| "index_of q (c # s) = (if prefix q (c # s) then Some 0 else map_option Suc (index_of q s))"

lemma index_of_bound: "s \<noteq> [] \<Longrightarrow> index_of q s = Some k \<Longrightarrow> k < length s"
proof (induction q s arbitrary: k rule: index_of.induct)
  case (2 q c s)
  then show ?case by (cases "s = []") (auto split: if_splits)
qed simp

function span_from :: "uni \<Rightarrow> string \<Rightarrow> string \<Rightarrow> bool \<Rightarrow> nat \<Rightarrow> bool" where
  "span_from U content quote isCut off =
     (if off < length content
      then (case index_of quote (drop off content) of
              None \<Rightarrow> False
            | Some index \<Rightarrow>
                (let start = off + index; stop = off + index + length quote;
                     before = DecodeLastRune (take start content); after = DecodeRune (drop stop content);
                     aligned = (\<not> (wordRune U (DecodeRune quote) \<and> wordRune U before)
                                \<and> \<not> (wordRune U (DecodeLastRune quote) \<and> wordRune U after))
                 in if aligned \<and> \<not> (isCut \<and> stop = length content) then True
                    else span_from U content quote isCut (start + snd (decode_rune (drop start content)))))
      else False)"
  by pat_completeness auto

termination span_from
proof (relation "measure (\<lambda>(U, content, quote, isCut, off). length content - off)", goal_cases)
  case (2 U content quote isCut off index start stop before after aligned)
  then have "start < length content" using index_of_bound [of "drop off content" quote index] by auto
  with decode_rune_width [of "drop start content"] "2" show ?case by auto
qed simp

declare span_from.simps [simp del]

definition quotedSpan :: "uni \<Rightarrow> string \<Rightarrow> string \<Rightarrow> bool \<Rightarrow> bool" where
  "quotedSpan U content quote isCut = span_from U content quote isCut 0"

definition segment_text :: "string \<Rightarrow> segment \<Rightarrow> string" where
  "segment_text content s = slice content (seg_start s) (seg_end s)"

definition wholeQuotable :: "string \<Rightarrow> segment list \<Rightarrow> string \<times> bool" where
  "wholeQuotable content segments =
     (let prose = (\<exists>s \<in> set segments. \<not> seg_code s); trimmed = trimClosing content in (trimmed, prose \<and> trimmed \<noteq> []))"

definition quotedInput :: "(nat \<Rightarrow> nat) \<Rightarrow> uni \<Rightarrow> string \<Rightarrow> string \<Rightarrow> bool \<Rightarrow> bool" where
  "quotedInput ul U content quote isCut =
     (let segments = segmentInput ul U content; whole = trimClosing quote; (candidate, ok) = wholeQuotable content segments in
      (whole \<noteq> [] \<and> ((\<exists>i < length segments. \<not> (seg_code (segments ! i) \<or> (isCut \<and> i = length segments - 1))
                          \<and> trimClosing (segment_text content (segments ! i)) = whole)
                       \<or> (ok \<and> \<not> isCut \<and> candidate = whole)))
      \<or> (meaningfulQuote U quote \<and> quotedSpan U content quote isCut))"

section \<open>Where a quote comes from\<close>

type_synonym input_row = "string \<times> string \<times> string \<times> bool"

text \<open>A run summary that ends in three dots was cut there.\<close>

definition input_text :: "input_row \<Rightarrow> string \<times> bool" where
  "input_text row = (case row of (kind, ident, content, incomplete) \<Rightarrow>
     if kind = ''run_input'' \<and> suffix ''...'' content then (take (length content - 3) content, True) else (content, incomplete))"

definition quotes :: "(nat \<Rightarrow> nat) \<Rightarrow> uni \<Rightarrow> string \<Rightarrow> input_row \<Rightarrow> bool" where
  "quotes ul U quote row = (case input_text row of (content, isCut) \<Rightarrow> quotedInput ul U content quote isCut)"

definition lineageInputQuotes :: "(nat \<Rightarrow> nat) \<Rightarrow> uni \<Rightarrow> input_row list \<Rightarrow> string \<Rightarrow> string" where
  "lineageInputQuotes ul U inputs quote =
     (case find (quotes ul U quote) inputs of None \<Rightarrow> [] | Some (kind, ident, _) \<Rightarrow> kind @ '':'' @ ident)"

datatype cancel_error = ReasonOrQuoteRequired string | InvalidDisposition string | QuoteNotFound string string
  | InvalidQuoteSource string

definition requireLineageQuote :: "(nat \<Rightarrow> nat) \<Rightarrow> uni \<Rightarrow> input_row list \<Rightarrow> string \<Rightarrow> string \<Rightarrow> string \<Rightarrow> cancel_error + string" where
  "requireLineageQuote ul U inputs stepID field quote =
     (let source = lineageInputQuotes ul U inputs quote in
      if source = [] then Inl (QuoteNotFound stepID field) else Inr source)"

section \<open>Cancellations\<close>

definition assessedPlanCancellationContractVersion :: int where "assessedPlanCancellationContractVersion = 2"
definition scopeEvidencePlanContractVersion :: int where "scopeEvidencePlanContractVersion = 3"

record deferral =
  d_Step :: "plan_step option"
  d_Reason :: string
  d_Criterion :: string
  d_ReplacementStepID :: string
  d_Replacement :: "plan_step option"

definition no_deferral :: deferral where
  "no_deferral = \<lparr>d_Step = None, d_Reason = [], d_Criterion = [], d_ReplacementStepID = [], d_Replacement = None\<rparr>"

definition assessedCancellation :: "'a plan_input_scheme \<Rightarrow> bool" where
  "assessedCancellation s = (TrimSpace (CancellationReason s) \<noteq> [] \<and> (CancellationDisposition s = ''not_required''
     \<or> (CancellationDisposition s = ''user_takeover'' \<and> TrimSpace (UserTakeoverQuote s) \<noteq> [])))"

definition assessedCancellationForContract :: "'a plan_input_scheme \<Rightarrow> int \<Rightarrow> bool" where
  "assessedCancellationForContract s version =
     (if \<not> assessedCancellation s then False
      else version < scopeEvidencePlanContractVersion \<or> CancellationDisposition s \<noteq> ''not_required''
           \<or> ReplacementStepID s \<noteq> [] \<or> ScopeChangeQuote s \<noteq> [])"

text \<open>Each retained step is numbered by the length the list has when it is appended.\<close>

fun retain_steps :: "string set \<Rightarrow> plan_step list \<Rightarrow> plan_step list \<Rightarrow> plan_step list" where
  "retain_steps seen steps [] = []"
| "retain_steps seen steps (old # rest) =
     (if StepID old \<in> seen \<or> Status old = ''completed'' \<or> Status old = ''cancelled'' then retain_steps seen steps rest
      else (let kept = old\<lparr>Status := ''pending'', Sequence := length steps + 1, WorkUnitID := [], WorkUnit := False\<rparr>
            in kept # retain_steps seen (steps @ [kept]) rest))"

definition retainOmittedOpenSteps :: "plan_step list \<Rightarrow> run_plan option \<Rightarrow> plan_step list \<times> plan_step list" where
  "retainOmittedOpenSteps steps previous =
     (case previous of
        None \<Rightarrow> (steps, [])
      | Some p \<Rightarrow> (let retained = retain_steps (StepID ` set steps) steps (plan_Steps p) in (steps @ retained, retained)))"

definition establishedCriterion :: "plan_step \<Rightarrow> (string \<Rightarrow> string option) \<Rightarrow> string" where
  "establishedCriterion step established =
     (case established (StepID step) of
        Some criterion \<Rightarrow> if criterion \<noteq> [] then criterion else TrimSpace (SuccessCriteria step)
      | None \<Rightarrow> TrimSpace (SuccessCriteria step))"

definition coverage_gap :: "(nat \<Rightarrow> nat) \<Rightarrow> plan_step \<Rightarrow> string \<Rightarrow> plan_step option \<Rightarrow> string" where
  "coverage_gap ul step criterion replacement =
     (case replacement of
        None \<Rightarrow> ''replacement_unknown''
      | Some r \<Rightarrow>
          if Status r \<noteq> ''completed'' then ''replacement_open''
          else if criterion = [] \<and> TrimSpace (SuccessCriteria r) = [] then ''criterion_unstated''
          else if criterion \<noteq> [] \<and> normalizeRunPlanText ul criterion \<noteq> normalizeRunPlanText ul (SuccessCriteria r) then ''criterion_changed''
          else if VerificationRequired step \<and> \<not> VerificationRequired r then ''verification_dropped''
          else [])"

definition cancellationCoverage :: "(nat \<Rightarrow> nat) \<Rightarrow> uni \<Rightarrow> input_row list \<Rightarrow> plan_step \<Rightarrow> plan_step list \<Rightarrow> (string \<Rightarrow> string option)
    \<Rightarrow> cancel_error + deferral \<times> string" where
  "cancellationCoverage ul U inputs step steps established =
     (if ScopeChangeQuote step \<noteq> []
      then (case requireLineageQuote ul U inputs (StepID step) ''scope_change_quote'' (ScopeChangeQuote step) of
              Inl e \<Rightarrow> Inl e
            | Inr source \<Rightarrow> Inr (no_deferral, source))
      else (let gap = no_deferral\<lparr>d_Criterion := establishedCriterion step established, d_ReplacementStepID := ReplacementStepID step\<rparr> in
        if ReplacementStepID step = [] then Inr (gap\<lparr>d_Reason := ''no_coverage''\<rparr>, [])
        else (let replacement = find (\<lambda>s. StepID s = ReplacementStepID step \<and> StepID s \<noteq> StepID step) steps
              in Inr (gap\<lparr>d_Replacement := replacement, d_Reason := coverage_gap ul step (d_Criterion gap) replacement\<rparr>, []))))"

definition trim_cancellation :: "plan_step \<Rightarrow> plan_step" where
  "trim_cancellation s = s\<lparr>CancellationDisposition := TrimSpace (CancellationDisposition s), CancellationReason := TrimSpace (CancellationReason s),
     UserTakeoverQuote := TrimSpace (UserTakeoverQuote s), ReplacementStepID := TrimSpace (ReplacementStepID s),
     ScopeChangeQuote := TrimSpace (ScopeChangeQuote s)\<rparr>"

definition clear_cancellation :: "plan_step \<Rightarrow> plan_step" where
  "clear_cancellation s =
     (let s = (if Status s \<noteq> ''pending'' \<or> CancellationDisposition s \<noteq> ''unfinished''
               then s\<lparr>CancellationDisposition := [], CancellationReason := []\<rparr> else s)
      in s\<lparr>UserTakeoverQuote := [], ReplacementStepID := [], ScopeChangeQuote := []\<rparr>)"

text \<open>The branch of a cancelled step that names a disposition; the result is the step and what it defers.\<close>

definition assess_named :: "(nat \<Rightarrow> nat) \<Rightarrow> uni \<Rightarrow> input_row list \<Rightarrow> int \<Rightarrow> (string \<Rightarrow> string option) \<Rightarrow> plan_step list \<Rightarrow> plan_step
    \<Rightarrow> cancel_error + plan_step \<times> deferral list" where
  "assess_named ul U inputs version established steps s =
     (if \<not> assessedCancellation s then Inl (ReasonOrQuoteRequired (StepID s))
      else (case (if CancellationDisposition s = ''not_required'' \<and> version \<ge> scopeEvidencePlanContractVersion
                  then (case cancellationCoverage ul U inputs s steps established of
                          Inl e \<Rightarrow> Inl e
                        | Inr (gap, source) \<Rightarrow>
                            (let s = s\<lparr>CancellationQuoteSource := source\<rparr> in
                             if d_Reason gap \<noteq> []
                             then (let s = s\<lparr>Status := ''pending'', CancellationDisposition := ''unfinished'', ReplacementStepID := [],
                                        ScopeChangeQuote := []\<rparr> in Inr (s, [gap\<lparr>d_Step := Some s\<rparr>]))
                             else Inr (s, [])))
                  else Inr (s, [])) of
        Inl e \<Rightarrow> Inl e
      | Inr (s, ds) \<Rightarrow>
          if CancellationDisposition s = ''user_takeover''
          then (case requireLineageQuote ul U inputs (StepID s) ''user_takeover_quote'' (UserTakeoverQuote s) of
                  Inl e \<Rightarrow> Inl e
                | Inr source \<Rightarrow> Inr (s\<lparr>CancellationQuoteSource := source\<rparr>, ds))
          else Inr (s, ds)))"

definition assess_step :: "(nat \<Rightarrow> nat) \<Rightarrow> uni \<Rightarrow> input_row list \<Rightarrow> int \<Rightarrow> (string \<Rightarrow> string option) \<Rightarrow> plan_step list \<Rightarrow> plan_step
    \<Rightarrow> cancel_error + plan_step \<times> deferral list" where
  "assess_step ul U inputs version established steps s =
     (if Status s \<noteq> ''cancelled'' then Inr (clear_cancellation s, [])
      else if CancellationDisposition s = [] \<or> CancellationDisposition s = ''unfinished''
      then (let reason = (if CancellationDisposition s = [] then ''no_disposition'' else ''unfinished'');
                s = s\<lparr>Status := ''pending'', CancellationDisposition := ''unfinished''\<rparr>
            in Inr (s, [no_deferral\<lparr>d_Step := Some s, d_Reason := reason, d_Criterion := establishedCriterion s established\<rparr>]))
      else if CancellationDisposition s = ''not_required'' \<or> CancellationDisposition s = ''user_takeover''
      then assess_named ul U inputs version established steps s
      else Inl (InvalidDisposition (StepID s)))"

text \<open>One round of the loop, on the list it updates in place.\<close>

definition assess_at :: "(nat \<Rightarrow> nat) \<Rightarrow> uni \<Rightarrow> input_row list \<Rightarrow> int \<Rightarrow> (string \<Rightarrow> string option) \<Rightarrow> nat
    \<Rightarrow> plan_step list \<times> deferral list \<Rightarrow> cancel_error + plan_step list \<times> deferral list" where
  "assess_at ul U inputs version established i st = (case st of (steps, deferred) \<Rightarrow>
     (let s = trim_cancellation (steps ! i) in
      case assess_step ul U inputs version established (steps[i := s]) s of
        Inl e \<Rightarrow> Inl e
      | Inr (s', ds) \<Rightarrow> Inr (steps[i := s'], deferred @ ds)))"

definition assessRunPlanCancellations :: "(nat \<Rightarrow> nat) \<Rightarrow> uni \<Rightarrow> input_row list \<Rightarrow> int \<Rightarrow> (string \<Rightarrow> string option) \<Rightarrow> plan_step list
    \<Rightarrow> cancel_error + plan_step list \<times> deferral list" where
  "assessRunPlanCancellations ul U inputs version established steps =
     (if version < assessedPlanCancellationContractVersion then Inr (steps, [])
      else foldm (assess_at ul U inputs version established) [0..<length steps] (steps, []))"

section \<open>Recorded sources\<close>

definition cancellationQuoteSourceMaxBytes :: nat where
  "cancellationQuoteSourceMaxBytes = 256"

definition IsControl :: "nat \<Rightarrow> bool" where
  "IsControl n = (n < 32 \<or> (127 \<le> n \<and> n < 160))"

definition source_of_kind :: "string \<Rightarrow> string \<Rightarrow> bool" where
  "source_of_kind source kind =
     (prefix kind source \<and> drop (length kind) source \<noteq> []
      \<and> \<not> (\<exists>r \<in> set (rune_list (drop (length kind) source)). IsSpace r \<or> IsControl r))"

definition normalizeCancellationQuoteSource :: "string \<Rightarrow> string option" where
  "normalizeCancellationQuoteSource raw =
     (let source = TrimSpace raw in
      if source = [] then Some []
      else if length source \<le> cancellationQuoteSourceMaxBytes \<and> None \<notin> set (runes source)
              \<and> (\<exists>kind \<in> set [''steering:'', ''run_input:'', ''run_started:'']. source_of_kind source kind)
      then Some source else None)"

definition validatedCancellationQuote :: "plan_step \<Rightarrow> (string \<times> string) option" where
  "validatedCancellationQuote s =
     (if Status s \<noteq> ''cancelled'' then None
      else if CancellationDisposition s = ''user_takeover''
      then (let text = TrimSpace (UserTakeoverQuote s) in if text \<noteq> [] then Some (''user_takeover_quote'', text) else None)
      else if CancellationDisposition s = ''not_required''
      then (let text = TrimSpace (ScopeChangeQuote s) in if text \<noteq> [] then Some (''scope_change_quote'', text) else None)
      else None)"

definition keep_source :: "(string \<Rightarrow> plan_step option) \<Rightarrow> plan_step \<Rightarrow> cancel_error + plan_step" where
  "keep_source recorded s =
     (case normalizeCancellationQuoteSource (CancellationQuoteSource s) of
        None \<Rightarrow> Inl (InvalidQuoteSource (StepID s))
      | Some source \<Rightarrow>
          (case validatedCancellationQuote s of
             None \<Rightarrow> Inr (s\<lparr>CancellationQuoteSource := []\<rparr>)
           | Some quote \<Rightarrow>
               if source = [] then Inr (s\<lparr>CancellationQuoteSource := []\<rparr>)
               else (case recorded (StepID s) of
                       None \<Rightarrow> Inr (s\<lparr>CancellationQuoteSource := source\<rparr>)
                     | Some old \<Rightarrow>
                         if validatedCancellationQuote old = Some quote
                         then (case normalizeCancellationQuoteSource (CancellationQuoteSource old) of
                                 None \<Rightarrow> Inl (InvalidQuoteSource (StepID s))
                               | Some kept \<Rightarrow> Inr (s\<lparr>CancellationQuoteSource := kept\<rparr>))
                         else Inr (s\<lparr>CancellationQuoteSource := source\<rparr>))))"

fun keep_sources :: "(string \<Rightarrow> plan_step option) \<Rightarrow> plan_step list \<Rightarrow> cancel_error + plan_step list" where
  "keep_sources recorded [] = Inr []"
| "keep_sources recorded (s # ss) =
     (case keep_source recorded s of
        Inl e \<Rightarrow> Inl e
      | Inr s' \<Rightarrow> (case keep_sources recorded ss of Inl e \<Rightarrow> Inl e | Inr ss' \<Rightarrow> Inr (s' # ss')))"

definition keepCancellationQuoteSources :: "plan_step list \<Rightarrow> run_plan option \<Rightarrow> cancel_error + plan_step list" where
  "keepCancellationQuoteSources steps previous = keep_sources (by_id (old_steps previous)) steps"
section \<open>A cancellation stands on evidence\<close>

text \<open>An indexed loop: the invariant may mention how far the loop has come.\<close>

lemma foldm_upt:
  assumes "foldm f [0..<n] s = Inr s'" and "I 0 s" and "\<And>i t t'. i < n \<Longrightarrow> I i t \<Longrightarrow> f i t = Inr t' \<Longrightarrow> I (Suc i) t'"
  shows "I n s'"
  using assms
proof (induction n arbitrary: s')
  case (Suc n)
  then obtain t where "foldm f [0..<n] s = Inr t" "f n t = Inr s'" by (auto simp: foldm_append split: sum.splits)
  with Suc show ?case by (metis less_Suc_eq)
qed simp

text \<open>What the passes over the plan never change in a step, nor in its being completed.\<close>

definition holds_step :: "plan_step \<Rightarrow> plan_step \<Rightarrow> bool" where
  "holds_step s s' \<longleftrightarrow> StepID s' = StepID s \<and> Step s' = Step s \<and> SuccessCriteria s' = SuccessCriteria s
     \<and> VerificationRequired s' = VerificationRequired s \<and> (Status s' = ''completed'' \<longleftrightarrow> Status s = ''completed'')
     \<and> (Status s' = ''cancelled'' \<longrightarrow> Status s = ''cancelled'')"

lemma holds_step_refl [simp]: "holds_step s s"
  by (simp add: holds_step_def)

lemma holds_step_trans: "holds_step a b \<Longrightarrow> holds_step b c \<Longrightarrow> holds_step a c"
  by (simp add: holds_step_def)

text \<open>The evidence a cancelled step stands on, in the plan it is part of.\<close>

definition kept_bar :: "(nat \<Rightarrow> nat) \<Rightarrow> string \<Rightarrow> plan_step \<Rightarrow> plan_step \<Rightarrow> bool" where
  "kept_bar ul criterion s r \<longleftrightarrow> Status r = ''completed'' \<and> (VerificationRequired s \<longrightarrow> VerificationRequired r)
     \<and> (if criterion = [] then TrimSpace (SuccessCriteria r) \<noteq> []
        else normalizeRunPlanText ul criterion = normalizeRunPlanText ul (SuccessCriteria r))"

definition covered :: "(nat \<Rightarrow> nat) \<Rightarrow> uni \<Rightarrow> input_row list \<Rightarrow> (string \<Rightarrow> string option) \<Rightarrow> plan_step list \<Rightarrow> plan_step \<Rightarrow> bool" where
  "covered ul U inputs established steps s \<longleftrightarrow> TrimSpace (CancellationReason s) \<noteq> [] \<and>
     (CancellationDisposition s = ''user_takeover'' \<and> (\<exists>row \<in> set inputs. quotes ul U (UserTakeoverQuote s) row)
      \<or> CancellationDisposition s = ''not_required'' \<and> ScopeChangeQuote s \<noteq> [] \<and> (\<exists>row \<in> set inputs. quotes ul U (ScopeChangeQuote s) row)
      \<or> CancellationDisposition s = ''not_required'' \<and>
        (\<exists>r \<in> set steps. StepID r = ReplacementStepID s \<and> StepID r \<noteq> StepID s \<and> kept_bar ul (establishedCriterion s established) s r))"

lemma kept_bar_holds: "holds_step r r' \<Longrightarrow> kept_bar ul criterion s r \<Longrightarrow> kept_bar ul criterion s r'"
  by (simp add: kept_bar_def holds_step_def)

lemma covered_mono:
  assumes "list_all2 holds_step steps steps'" and "covered ul U inputs established steps s"
  shows "covered ul U inputs established steps' s"
proof -
  have "\<exists>r' \<in> set steps'. StepID r' = u \<and> StepID r' \<noteq> v \<and> kept_bar ul c s r'"
    if r: "r \<in> set steps" "StepID r = u" "StepID r \<noteq> v" "kept_bar ul c s r" for r u v c
  proof -
    obtain i where i: "i < length steps" "r = steps ! i" using r(1) by (auto simp: in_set_conv_nth)
    with assms(1) have "i < length steps'" "holds_step r (steps' ! i)" by (auto simp: list_all2_conv_all_nth)
    then show ?thesis using r kept_bar_holds [of r "steps' ! i" ul c s] by (intro bexI [of _ "steps' ! i"]) (auto simp: holds_step_def)
  qed
  with assms(2) show ?thesis unfolding covered_def by blast
qed

lemma lineage_quote:
  "requireLineageQuote ul U inputs stepID field quote = Inr source \<Longrightarrow> \<exists>row \<in> set inputs. quotes ul U quote row"
  by (auto simp: requireLineageQuote_def lineageInputQuotes_def Let_def find_Some_iff split: option.splits if_splits)

lemma coverage_gap_none:
  "coverage_gap ul s criterion replacement = [] \<Longrightarrow> \<exists>r. replacement = Some r \<and> kept_bar ul criterion s r"
  by (auto simp: coverage_gap_def kept_bar_def split: option.splits if_splits)

lemma cancellationCoverage_covered:
  assumes "cancellationCoverage ul U inputs s steps established = Inr (gap, source)" and "d_Reason gap = []"
    and "CancellationDisposition s = ''not_required''" and "TrimSpace (CancellationReason s) \<noteq> []"
  shows "covered ul U inputs established steps s"
proof (cases "ScopeChangeQuote s = []")
  case False
  with assms(1) have "\<exists>row \<in> set inputs. quotes ul U (ScopeChangeQuote s) row"
    by (auto simp: cancellationCoverage_def split: sum.splits dest: lineage_quote)
  with False assms(3,4) show ?thesis by (simp add: covered_def)
next
  case True
  let ?r = "find (\<lambda>x. StepID x = ReplacementStepID s \<and> StepID x \<noteq> StepID s) steps"
  have "coverage_gap ul s (establishedCriterion s established) ?r = []"
    using assms(1,2) True by (auto simp: cancellationCoverage_def Let_def split: if_splits)
  then obtain r where r: "?r = Some r" "kept_bar ul (establishedCriterion s established) s r" using coverage_gap_none by blast
  from r(1) have "r \<in> set steps" "StepID r = ReplacementStepID s" "StepID r \<noteq> StepID s" by (auto simp: find_Some_iff)
  with r(2) assms(3,4) show ?thesis unfolding covered_def by blast
qed

lemma covered_source [simp]: "covered ul U inputs established steps (s\<lparr>CancellationQuoteSource := x\<rparr>) = covered ul U inputs established steps s"
proof -
  have "establishedCriterion (s\<lparr>CancellationQuoteSource := x\<rparr>) established = establishedCriterion s established"
    by (simp add: establishedCriterion_def split: option.splits)
  moreover have "kept_bar ul c (s\<lparr>CancellationQuoteSource := x\<rparr>) r = kept_bar ul c s r" for c r by (simp add: kept_bar_def)
  ultimately show ?thesis by (simp add: covered_def)
qed

text \<open>One step: what changes in it, why it stays cancelled, and that an opened one is reported.\<close>

definition assessed :: "plan_step \<Rightarrow> plan_step \<Rightarrow> deferral list \<Rightarrow> bool" where
  "assessed s s' ds \<longleftrightarrow> holds_step s s' \<and> (Status s = ''cancelled'' \<and> Status s' \<noteq> ''cancelled'' \<longrightarrow>
     Status s' = ''pending'' \<and> (\<exists>d \<in> set ds. d_Step d = Some s' \<and> d_Reason d \<noteq> []))"

lemma assess_named_sound:
  assumes "assess_named ul U inputs version established steps s = Inr (s', ds)" and "Status s = ''cancelled''"
    and "scopeEvidencePlanContractVersion \<le> version"
  shows "assessed s s' ds \<and> (Status s' = ''cancelled'' \<longrightarrow> covered ul U inputs established steps s')"
proof -
  have a: "assessedCancellation s" using assms(1) by (simp add: assess_named_def split: if_splits)
  then have reason: "TrimSpace (CancellationReason s) \<noteq> []" by (simp add: assessedCancellation_def)
  show ?thesis
  proof (cases "CancellationDisposition s = ''not_required''")
    case True
    obtain gap source where g: "cancellationCoverage ul U inputs s steps established = Inr (gap, source)"
      using assms True a by (auto simp: assess_named_def split: sum.splits)
    show ?thesis
    proof (cases "d_Reason gap = []")
      case no: True
      have "s' = s\<lparr>CancellationQuoteSource := source\<rparr>"
        using assms True a no by (simp add: assess_named_def g)
      with cancellationCoverage_covered [OF g no True reason] assms(2) show ?thesis by (simp add: assessed_def holds_step_def)
    next
      case False
      have s': "s' = s\<lparr>CancellationQuoteSource := source, Status := ''pending'', CancellationDisposition := ''unfinished'', ReplacementStepID := [], ScopeChangeQuote := []\<rparr>"
          "ds = [gap\<lparr>d_Step := Some s'\<rparr>]"
        using assms(1,3) True a False by (auto simp: assess_named_def g Let_def)
      have "Status s' = ''pending''" "holds_step s s'" unfolding s'(1) using assms(2) by (simp_all add: holds_step_def)
      with False show ?thesis by (simp add: assessed_def s'(2))
    qed
  next
    case False
    with a have d: "CancellationDisposition s = ''user_takeover''" by (simp add: assessedCancellation_def)
    then obtain source where q: "requireLineageQuote ul U inputs (StepID s) ''user_takeover_quote'' (UserTakeoverQuote s) = Inr source"
      and s': "s' = s\<lparr>CancellationQuoteSource := source\<rparr>"
      using assms(1) a by (auto simp: assess_named_def split: sum.splits)
    with lineage_quote [OF q] d reason assms(2) show ?thesis by (simp add: assessed_def holds_step_def covered_def)
  qed
qed

lemma clear_cancellation_holds: "holds_step s (clear_cancellation s)" "Status (clear_cancellation s) = Status s"
  by (simp_all add: clear_cancellation_def Let_def holds_step_def)

lemma assess_step_sound:
  assumes "assess_step ul U inputs version established steps s = Inr (s', ds)" and "scopeEvidencePlanContractVersion \<le> version"
  shows "assessed s s' ds \<and> (Status s' = ''cancelled'' \<longrightarrow> covered ul U inputs established steps s')"
proof (cases "Status s = ''cancelled''")
  case False
  with assms(1) have "s' = clear_cancellation s" by (simp add: assess_step_def)
  with False clear_cancellation_holds show ?thesis by (simp add: assessed_def)
next
  case True
  show ?thesis
  proof (cases "CancellationDisposition s = [] \<or> CancellationDisposition s = ''unfinished''")
    case open': True
    then have "s' = s\<lparr>Status := ''pending'', CancellationDisposition := ''unfinished''\<rparr>"
      "\<exists>d \<in> set ds. d_Step d = Some s' \<and> d_Reason d \<noteq> []"
      using assms(1) True by (auto simp: assess_step_def Let_def)
    then show ?thesis using True by (simp add: assessed_def holds_step_def)
  next
    case False
    then have "assess_named ul U inputs version established steps s = Inr (s', ds)"
      using assms(1) True by (simp add: assess_step_def split: if_splits)
    then show ?thesis using True assms(2) by (rule assess_named_sound)
  qed
qed
lemma list_all2_holds_update:
  "holds_step a b \<Longrightarrow> list_all2 holds_step (steps[k := a]) (steps[k := b])"
  by (cases "k < length steps") (auto simp: list_all2_conv_all_nth nth_list_update list.rel_refl)

lemma assessed_more: "assessed s s' ds \<Longrightarrow> assessed s s' (ds @ es)" "assessed s s' es \<Longrightarrow> assessed s s' (ds @ es)"
  by (auto simp: assessed_def)

lemma trim_cancellation_holds: "holds_step s (trim_cancellation s)" "Status (trim_cancellation s) = Status s"
  by (simp_all add: trim_cancellation_def holds_step_def)

lemma assessed_trim: "assessed (trim_cancellation s) s' ds \<Longrightarrow> assessed s s' ds"
  using trim_cancellation_holds [of s] unfolding assessed_def by (auto intro: holds_step_trans)

text \<open>How far the loop over the plan has come: the first \<open>k\<close> steps are assessed, the rest is as it was.\<close>

definition assessed_upto :: "(nat \<Rightarrow> nat) \<Rightarrow> uni \<Rightarrow> input_row list \<Rightarrow> (string \<Rightarrow> string option) \<Rightarrow> plan_step list \<Rightarrow> nat
    \<Rightarrow> plan_step list \<times> deferral list \<Rightarrow> bool" where
  "assessed_upto ul U inputs established S k st \<longleftrightarrow> length (fst st) = length S
     \<and> (\<forall>j < length S. j < k \<longrightarrow> assessed (S ! j) (fst st ! j) (snd st)
            \<and> (Status (fst st ! j) = ''cancelled'' \<longrightarrow> covered ul U inputs established (fst st) (fst st ! j)))
     \<and> (\<forall>j < length S. k \<le> j \<longrightarrow> fst st ! j = S ! j)"

lemma assess_at_upto:
  assumes "k < length S" and "assessed_upto ul U inputs established S k st"
    and "assess_at ul U inputs version established k st = Inr st'" and "scopeEvidencePlanContractVersion \<le> version"
  shows "assessed_upto ul U inputs established S (Suc k) st'"
proof -
  obtain steps ds where st: "st = (steps, ds)" by (cases st)
  have inv: "length steps = length S" "steps ! k = S ! k"
    "\<And>j. j < k \<Longrightarrow> assessed (S ! j) (steps ! j) ds \<and> (Status (steps ! j) = ''cancelled'' \<longrightarrow> covered ul U inputs established steps (steps ! j))"
    "\<And>j. k \<le> j \<Longrightarrow> j < length S \<Longrightarrow> steps ! j = S ! j"
    using assms(1,2) by (auto simp: assessed_upto_def st)
  define s where "s = trim_cancellation (S ! k)"
  obtain s' es where a: "assess_step ul U inputs version established (steps[k := s]) s = Inr (s', es)"
    and st': "st' = (steps[k := s'], ds @ es)"
    using assms(3) inv(2) by (auto simp: assess_at_def st s_def Let_def split: sum.splits)
  note a' = assess_step_sound [OF a assms(4)]
  have hold: "holds_step s s'" using a' by (simp add: assessed_def)
  have here: "assessed (S ! k) s' (ds @ es)" using a' assessed_trim assessed_more(2) by (simp add: s_def)
  have old: "list_all2 holds_step steps (steps[k := s'])"
  proof -
    have "holds_step (steps ! k) s'" using here inv(2) by (simp add: assessed_def)
    from list_all2_holds_update [OF this, of steps k] show ?thesis by (simp only: list_update_id)
  qed
  have "covered ul U inputs established (steps[k := s']) s'" if "Status s' = ''cancelled''"
    using covered_mono [OF list_all2_holds_update [OF hold]] a' that by blast
  moreover have "covered ul U inputs established (steps[k := s']) (steps ! j)" if "j < k" "Status (steps ! j) = ''cancelled''" for j
    using covered_mono [OF old] inv(3) that by blast
  ultimately show ?thesis
    using here inv assms(1) assessed_more(1) by (auto simp: assessed_upto_def st' less_Suc_eq nth_list_update)
qed

lemma assessed_all:
  assumes "assessRunPlanCancellations ul U inputs version established S = Inr (steps, ds)" and "scopeEvidencePlanContractVersion \<le> version"
  shows "assessed_upto ul U inputs established S (length S) (steps, ds)"
proof -
  have f: "foldm (assess_at ul U inputs version established) [0..<length S] (S, []) = Inr (steps, ds)"
    using assms by (simp add: assessRunPlanCancellations_def assessedPlanCancellationContractVersion_def scopeEvidencePlanContractVersion_def)
  show ?thesis
    by (rule foldm_upt [OF f, of "assessed_upto ul U inputs established S"])
      (auto simp: assessed_upto_def [of _ _ _ _ _ 0] intro: assess_at_upto [OF _ _ _ assms(2)])
qed

text \<open>C21. A cancellation stands on evidence: under the current contract, a step that is cancelled after the assessment
  has a stated reason and either quotes words a person wrote in this line of work (a takeover or a
  change of scope) or names another step of the same plan that is completed, keeps the step's
  established criterion and keeps the verification it required. Every other requested cancellation is
  pending again and reported with the fact that is missing, and no step changes its identity or its bar.\<close>

theorem cancelled_steps_covered:
  assumes "assessRunPlanCancellations ul U inputs version established steps = Inr (steps', deferred)" and "3 \<le> version"
  shows "length steps' = length steps
    \<and> (\<forall>k < length steps. holds_step (steps ! k) (steps' ! k)
         \<and> (Status (steps' ! k) = ''cancelled'' \<longrightarrow> covered ul U inputs established steps' (steps' ! k))
         \<and> (Status (steps ! k) = ''cancelled'' \<and> Status (steps' ! k) \<noteq> ''cancelled'' \<longrightarrow> Status (steps' ! k) = ''pending''
              \<and> (\<exists>d \<in> set deferred. d_Step d = Some (steps' ! k) \<and> d_Reason d \<noteq> [])))"
proof -
  have "assessed_upto ul U inputs established steps (length steps) (steps', deferred)"
    using assms by (intro assessed_all) (simp_all add: scopeEvidencePlanContractVersion_def)
  then show ?thesis unfolding assessed_upto_def assessed_def by simp
qed

section \<open>Omitted steps are kept\<close>

lemma retain_steps_keep:
  "old \<in> set prev \<Longrightarrow> StepID old \<notin> seen \<Longrightarrow> Status old \<noteq> ''completed'' \<Longrightarrow> Status old \<noteq> ''cancelled'' \<Longrightarrow>
   \<exists>s \<in> set (retain_steps seen steps prev). StepID s = StepID old \<and> Status s = ''pending'' \<and> Step s = Step old
     \<and> SuccessCriteria s = SuccessCriteria old \<and> VerificationRequired s = VerificationRequired old"
  by (induction seen steps prev rule: retain_steps.induct) (auto simp: Let_def)

lemma retain_steps_new: "s \<in> set (retain_steps seen steps prev) \<Longrightarrow> StepID s \<in> StepID ` set prev - seen"
  by (induction seen steps prev rule: retain_steps.induct) (auto simp: Let_def split: if_splits)

lemma retain_steps_distinct: "distinct (map StepID prev) \<Longrightarrow> distinct (map StepID (retain_steps seen steps prev))"
proof (induction seen steps prev rule: retain_steps.induct)
  case (2 seen steps old rest)
  have "StepID old \<notin> StepID ` set (retain_steps seen xs rest)" for xs
    using "2.prems" retain_steps_new [of _ seen xs rest] by auto
  with "2" show ?case by (auto simp: Let_def)
qed simp

text \<open>C2. No obligation is lost: whatever a model submits as the next snapshot of a run with a plan, every step that
  was open (neither completed nor cancelled) is still in the plan that results, under its id and with
  the verification it required; it is cancelled only if the cancellation stands on evidence. All ids
  of the result are different.\<close>

theorem no_obligation_lost:
  assumes "resolveRunPlanSteps ul idPrefix runID input (Some p) reservedIDs = Inr resolved"
    and "retainOmittedOpenSteps resolved (Some p) = (kept, retained)"
    and "assessRunPlanCancellations ul U inputs version established kept = Inr (final, deferred)" and "3 \<le> version"
    and "distinct (map StepID (plan_Steps p))" and "old \<in> set (plan_Steps p)"
    and "Status old \<noteq> ''completed''" and "Status old \<noteq> ''cancelled''"
  shows "distinct (map StepID final)
    \<and> (\<exists>s \<in> set final. StepID s = StepID old \<and> (VerificationRequired old \<longrightarrow> VerificationRequired s)
         \<and> (Status s = ''cancelled'' \<longrightarrow> covered ul U inputs established final s))"
proof -
  have kept: "kept = resolved @ retain_steps (StepID ` set resolved) resolved (plan_Steps p)"
    using assms(2) by (auto simp: retainOmittedOpenSteps_def Let_def)
  have up: "assessed_upto ul U inputs established kept (length kept) (final, deferred)"
    using assms(3,4) by (intro assessed_all) (simp_all add: scopeEvidencePlanContractVersion_def)
  then have len: "length final = length kept"
    and at: "\<And>k. k < length kept \<Longrightarrow> holds_step (kept ! k) (final ! k)
      \<and> (Status (final ! k) = ''cancelled'' \<longrightarrow> covered ul U inputs established final (final ! k))"
    by (simp_all add: assessed_upto_def assessed_def)
  have ids: "map StepID final = map StepID kept"
    using len at by (intro nth_equalityI) (simp_all add: holds_step_def)
  have "distinct (map StepID resolved)" by (rule resolved_snapshot [OF assms(1)])
  then have "distinct (map StepID final)"
    unfolding ids kept using retain_steps_distinct [OF assms(5)] retain_steps_new [of _ "StepID ` set resolved" resolved "plan_Steps p"]
    by (simp add: disjoint_iff) blast
  moreover have "\<exists>s \<in> set kept. StepID s = StepID old \<and> (VerificationRequired old \<longrightarrow> VerificationRequired s)"
  proof (cases "StepID old \<in> StepID ` set resolved")
    case True
    then obtain k where k: "k < length resolved" "StepID (resolved ! k) = StepID old" by (auto simp: in_set_conv_nth)
    obtain item where c: "continues idPrefix (map StepID (old_steps (Some p)) @ reservedIDs) (by_id (old_steps (Some p))) item (resolved ! k)"
      by (rule resolved_step [OF assms(1) k(1)])
    have "by_id (old_steps (Some p)) (StepID (resolved ! k)) = Some old"
      using by_id_distinct [OF assms(5,6)] k(2) by (simp add: old_steps_def)
    with c have "VerificationRequired old \<longrightarrow> VerificationRequired (resolved ! k)" by (simp add: continues_def)
    with k show ?thesis unfolding kept by (intro bexI [of _ "resolved ! k"]) simp_all
  next
    case False
    with retain_steps_keep [OF assms(6) False assms(7,8), of resolved] show ?thesis unfolding kept by auto
  qed
  then obtain k where k: "k < length kept" "StepID (kept ! k) = StepID old" "VerificationRequired old \<longrightarrow> VerificationRequired (kept ! k)"
    by (auto simp: in_set_conv_nth)
  have "\<exists>s \<in> set final. StepID s = StepID old \<and> (VerificationRequired old \<longrightarrow> VerificationRequired s)
      \<and> (Status s = ''cancelled'' \<longrightarrow> covered ul U inputs established final s)"
    using k at [OF k(1)] len by (intro bexI [of _ "final ! k"]) (simp_all add: holds_step_def)
  ultimately show ?thesis by blast
qed
section \<open>Quotes are found in what was said\<close>

lemma trim_decomp:
  obtains pre suf where "xs = pre @ rev (dropWhile p (rev (dropWhile p xs))) @ suf"
proof -
  let ?d = "dropWhile p xs"
  have "xs = takeWhile p xs @ ?d" by simp
  moreover have "?d = rev (takeWhile p (rev ?d) @ dropWhile p (rev ?d))" by simp
  then have "?d = rev (dropWhile p (rev ?d)) @ rev (takeWhile p (rev ?d))" by (simp only: rev_append)
  ultimately have "xs = takeWhile p xs @ rev (dropWhile p (rev ?d)) @ rev (takeWhile p (rev ?d))" by metis
  then show thesis by (rule that)
qed

lemma trimClosing_sublist: "sublist (trimClosing text) text"
proof -
  obtain pre suf where d: "chunks text = pre @ rev (dropWhile (closing \<circ> fst) (rev (dropWhile (closing \<circ> fst) (chunks text)))) @ suf"
    by (rule trim_decomp)
  have "text = concat (map snd (chunks text))" by simp
  also have "\<dots> = concat (map snd pre) @ trimClosing text @ concat (map snd suf)"
    by (subst d) (simp only: map_append concat_append trimClosing_def)
  finally show ?thesis unfolding sublist_def by blast
qed

lemma trimClosing_Nil [simp]: "trimClosing [] = []"
  by (simp add: trimClosing_def)

lemma trimClosing_pos: "trimClosing x \<noteq> [] \<Longrightarrow> 0 < length x"
  by (cases x) auto

lemma slice_sublist: "sublist (slice xs i j) xs"
  unfolding slice_def by (metis append_take_drop_id sublist_def)

lemma index_of_Some: "index_of q s = Some k \<Longrightarrow> s = take k s @ q @ drop (k + length q) s"
proof (induction q s arbitrary: k rule: index_of.induct)
  case (2 q c s)
  show ?case
  proof (cases "prefix q (c # s)")
    case True
    with "2.prems" show ?thesis by (auto elim!: prefixE)
  next
    case False
    with "2.prems" obtain m where "index_of q s = Some m" "k = Suc m" by auto
    with "2.IH" False show ?thesis by simp
  qed
qed (auto split: if_splits)

text \<open>A span of the text that does not cut a word at either end, nor ends where the text was cut.\<close>

definition aligned_span :: "uni \<Rightarrow> string \<Rightarrow> string \<Rightarrow> bool \<Rightarrow> bool" where
  "aligned_span U content quote isCut \<longleftrightarrow> (\<exists>before after. content = before @ quote @ after
     \<and> \<not> (wordRune U (DecodeRune quote) \<and> wordRune U (DecodeLastRune before))
     \<and> \<not> (wordRune U (DecodeLastRune quote) \<and> wordRune U (DecodeRune after)) \<and> \<not> (isCut \<and> after = []))"

lemma span_from_sound: "span_from U content quote isCut off \<Longrightarrow> aligned_span U content quote isCut"
proof (induction U content quote isCut off rule: span_from.induct)
  case (1 U content quote isCut off)
  from "1.prems" have off: "off < length content" by (subst (asm) span_from.simps) (simp split: if_splits)
  obtain index where i: "index_of quote (drop off content) = Some index"
    using "1.prems" off by (subst (asm) span_from.simps) (auto split: option.splits)
  let ?start = "off + index" and ?stop = "off + index + length quote"
  define found where "found \<longleftrightarrow> (\<not> (wordRune U (DecodeRune quote) \<and> wordRune U (DecodeLastRune (take ?start content)))
      \<and> \<not> (wordRune U (DecodeLastRune quote) \<and> wordRune U (DecodeRune (drop ?stop content)))) \<and> \<not> (isCut \<and> ?stop = length content)"
  have content: "content = take ?start content @ quote @ drop ?stop content"
    using index_of_Some [OF i] by (metis add.commute append.assoc append_take_drop_id drop_drop take_add)
  show ?case
  proof (cases found)
    case True
    have "drop ?stop content = [] \<longrightarrow> ?stop = length content"
      using arg_cong [OF content, of length] off index_of_bound [OF _ i] by auto
    with True content show ?thesis unfolding aligned_span_def found_def by blast
  next
    case False
    with "1.prems" off i have "span_from U content quote isCut (?start + snd (decode_rune (drop ?start content)))"
      by (subst (asm) span_from.simps) (simp add: Let_def found_def)
    with "1.IH" [OF off i refl refl refl refl refl] False show ?thesis by (simp add: found_def)
  qed
qed

text \<open>A quote is evidence of what was said: a quote that is accepted from one input occurs in that input, as a whole
  sentence of its prose or the whole message (the closing punctuation aside), or as a span long enough
  not to occur by chance that breaks no word at its ends and does not run into a cut.\<close>

theorem quoted_input_occurs:
  assumes "quotedInput ul U content quote isCut"
  shows "(trimClosing quote \<noteq> [] \<and> sublist (trimClosing quote) content \<and>
           (\<not> isCut \<and> trimClosing content = trimClosing quote
            \<or> (\<exists>s \<in> set (segmentInput ul U content). \<not> seg_code s \<and> trimClosing (segment_text content s) = trimClosing quote)))
    \<or> (meaningfulQuote U quote \<and> aligned_span U content quote isCut)"
proof (cases "meaningfulQuote U quote \<and> quotedSpan U content quote isCut")
  case True
  then show ?thesis by (auto simp: quotedSpan_def dest: span_from_sound)
next
  case False
  let ?segs = "segmentInput ul U content"
  have ne: "trimClosing quote \<noteq> []"
    and or: "(\<exists>i < length ?segs. \<not> seg_code (?segs ! i) \<and> trimClosing (segment_text content (?segs ! i)) = trimClosing quote)
      \<or> \<not> isCut \<and> trimClosing content = trimClosing quote"
    using assms False by (auto simp: quotedInput_def Let_def wholeQuotable_def)
  have "sublist (trimClosing (segment_text content s)) content" for s
    unfolding segment_text_def using sublist_order.order_trans [OF trimClosing_sublist slice_sublist] .
  then have "sublist (trimClosing quote) content" using or trimClosing_sublist by metis
  moreover have "(\<exists>s \<in> set ?segs. \<not> seg_code s \<and> trimClosing (segment_text content s) = trimClosing quote)
      \<or> \<not> isCut \<and> trimClosing content = trimClosing quote" using or nth_mem by blast
  ultimately show ?thesis using ne by blast
qed

section \<open>Sentences in order\<close>

definition within :: "nat \<Rightarrow> nat \<Rightarrow> segment list \<Rightarrow> bool" where
  "within lo hi segs \<longleftrightarrow> sorted_wrt (\<lambda>a b. seg_end a \<le> seg_start b) segs
     \<and> (\<forall>s \<in> set segs. lo \<le> seg_start s \<and> seg_start s < seg_end s \<and> seg_end s \<le> hi)"

lemma within_Nil [simp]: "within lo hi []"
  by (simp add: within_def)

lemma within_append: "within lo mid a \<Longrightarrow> within mid hi b \<Longrightarrow> lo \<le> mid \<Longrightarrow> mid \<le> hi \<Longrightarrow> within lo hi (a @ b)"
  unfolding within_def sorted_wrt_append by fastforce

lemma within_weaken: "within lo hi segs \<Longrightarrow> hi \<le> hi' \<Longrightarrow> within lo hi' segs"
  unfolding within_def by fastforce

lemma offset_split: "m \<le> n \<Longrightarrow> offset cs n = offset cs m + length (concat (map snd (drop m (take n cs))))"
proof -
  assume "m \<le> n"
  then have "take n cs = take m cs @ drop m (take n cs)" using append_take_drop_id [of m "take n cs"] by (simp add: min_absorb1)
  then show ?thesis unfolding offset_def by (metis concat_append length_append map_append)
qed

lemma offset_all: "length cs \<le> k \<Longrightarrow> offset cs k = offset cs (length cs)"
  by (simp add: offset_def)

lemma offset_le_all: "offset cs k \<le> offset cs (length cs)"
  using offset_split [of k "length cs" cs] offset_all [of cs k] by (cases "k \<le> length cs") auto

lemma sentence_within: "m \<le> n \<Longrightarrow> within (start + offset cs m) (start + offset cs n) (sentence start cs m n)"
  using offset_split [of m n cs] trimClosing_pos [of "concat (map snd (drop m (take n cs)))"]
  by (simp add: within_def sentence_def del: length_concat)

lemma line_sentences_within:
  "m \<le> i \<Longrightarrow> within (start + offset cs m) (start + offset cs (length cs)) (line_sentences ul U start cs m i)"
proof (induction ul U start cs m i rule: line_sentences.induct)
  case (1 ul U start cs m i)
  show ?case
  proof (cases "i < length cs")
    case False
    then show ?thesis
      using sentence_within [of m "length cs" start cs] "1.prems" offset_all [of cs m]
      by (subst line_sentences.simps) (cases "m \<le> length cs"; auto simp: sentence_def)
  next
    case True
    show ?thesis
    proof (cases "sentenceEnd ul U (map (rune_value \<circ> fst) cs) i")
      case None
      with True "1.IH"(1) [OF HOL.refl True None] "1.prems" show ?thesis by (subst line_sentences.simps) simp
    next
      case (Some stop)
      have "m \<le> stop" using sentenceEnd_after [OF Some] "1.prems" by simp
      with within_append [OF sentence_within "1.IH"(2) [OF HOL.refl True Some]] offset_le_all [of cs stop] offset_split [of m stop cs]
      show ?thesis using True Some by (subst line_sentences.simps) simp
    qed
  qed
qed

lemma line_segments_within: "within start (start + length line) (fst (line_segments ul U fenced start line))"
proof -
  have "offset (chunks line) (length (chunks line)) = length line" by (simp add: offset_def)
  with line_sentences_within [of 0 0 start "chunks line" ul U]
  have "within start (start + length line) (appendLineSentences ul U start line)"
    by (simp add: appendLineSentences_def offset_def)
  moreover have "within start (start + length line) [\<lparr>seg_start = start, seg_end = start + length line, seg_code = True\<rparr>]" if "TrimSpace line \<noteq> []"
    using that by (cases line) (auto simp: within_def)
  ultimately show ?thesis by (simp add: line_segments_def Let_def)
qed

lemma segments_from_within: "within start (start + length rest) (segments_from ul U fenced start rest)"
proof (induction ul U fenced start rest rule: segments_from.induct)
  case (2 ul U fenced start c rest)
  define line where "line = takeWhile (\<lambda>c. \<not> line_break c) (c # rest)"
  obtain segs fenced' where l: "line_segments ul U fenced start line = (segs, fenced')" by fastforce
  let ?tail = "drop (length line + 1) (c # rest)"
  have le: "length line \<le> length (c # rest)" unfolding line_def by (rule length_takeWhile_le)
  note IH = "2.IH" [OF line_def l [symmetric] HOL.refl]
  have a: "within start (start + length line) segs" using line_segments_within [of start line ul U fenced] by (simp add: l)
  have "within start (start + length (c # rest)) (segs @ segments_from ul U fenced' (start + length line + 1) ?tail)"
  proof (cases "length line < length (c # rest)")
    case True
    then have "start + length line + 1 + length ?tail = start + length (c # rest)" by simp
    with IH have "within (start + length line + 1) (start + length (c # rest)) (segments_from ul U fenced' (start + length line + 1) ?tail)"
      by metis
    with within_weaken [OF a, of "start + length line + 1"] True show ?thesis by (intro within_append) auto
  next
    case False
    then have "?tail = []" by simp
    then show ?thesis using within_weaken [OF a, of "start + length (c # rest)"] le by (simp add: segments_from.simps)
  qed
  then show ?case unfolding segments_from.simps line_def [symmetric] Let_def l by simp
qed (simp add: segments_from.simps)

text \<open>The segments of an input are disjoint, non-empty pieces of it in reading order.\<close>

theorem segments_in_order: "within 0 (length content) (segmentInput ul U content)"
  using segments_from_within [of 0 content ul U False] by (simp add: segmentInput_def)

section \<open>Sources stay where they were\<close>

lemma keep_sources_nth:
  "keep_sources recorded steps = Inr steps' \<Longrightarrow> length steps' = length steps
     \<and> (\<forall>k < length steps. keep_source recorded (steps ! k) = Inr (steps' ! k))"
  by (induction recorded steps arbitrary: steps' rule: keep_sources.induct) (auto simp: less_Suc_eq_0_disj split: sum.splits)

lemma normalize_source:
  "normalizeCancellationQuoteSource raw = Some source \<Longrightarrow> source \<noteq> [] \<Longrightarrow> length source \<le> 256
     \<and> (\<exists>kind \<in> {''steering:'', ''run_input:'', ''run_started:''}. prefix kind source)"
  by (auto simp: normalizeCancellationQuoteSource_def Let_def cancellationQuoteSourceMaxBytes_def source_of_kind_def split: if_splits)

lemma keep_source_cases:
  assumes "keep_source recorded s = Inr s'" and "CancellationQuoteSource s' \<noteq> []"
  obtains quote where "validatedCancellationQuote s = Some quote" "StepID s' = StepID s"
    "\<exists>raw. normalizeCancellationQuoteSource raw = Some (CancellationQuoteSource s')"
    "\<And>old. recorded (StepID s) = Some old \<Longrightarrow> validatedCancellationQuote old = Some quote \<Longrightarrow>
       normalizeCancellationQuoteSource (CancellationQuoteSource old) = Some (CancellationQuoteSource s')"
proof -
  obtain source where n: "normalizeCancellationQuoteSource (CancellationQuoteSource s) = Some source"
    using assms(1) by (auto simp: keep_source_def split: option.splits)
  obtain quote where q: "validatedCancellationQuote s = Some quote" "source \<noteq> []"
    using assms by (auto simp: keep_source_def n split: option.splits if_splits)
  show thesis
  proof (cases "\<exists>old. recorded (StepID s) = Some old \<and> validatedCancellationQuote old = Some quote")
    case True
    then obtain old where old: "recorded (StepID s) = Some old" "validatedCancellationQuote old = Some quote" by blast
    then obtain kept where "normalizeCancellationQuoteSource (CancellationQuoteSource old) = Some kept"
      "s' = s\<lparr>CancellationQuoteSource := kept\<rparr>" using assms(1) q by (auto simp: keep_source_def n split: option.splits)
    with old q(1) that show thesis by auto
  next
    case False
    then have "s' = s\<lparr>CancellationQuoteSource := source\<rparr>"
      using assms(1) q by (auto simp: keep_source_def n split: option.splits if_splits)
    with False n q(1) that show thesis by auto
  qed
qed

text \<open>A recorded source is never re-pointed: a plan that is stored names the source of a quote only on a cancelled
  step that rests on that quote, as one of the three kinds of input and in at most 256 bytes; and when
  the previous record of the step rests on the same quote, the source is the one recorded then.\<close>

theorem quote_source_stable:
  assumes "keepCancellationQuoteSources steps previous = Inr steps'" and "k < length steps" and "CancellationQuoteSource (steps' ! k) \<noteq> []"
  shows "\<exists>quote. validatedCancellationQuote (steps ! k) = Some quote \<and> StepID (steps' ! k) = StepID (steps ! k)
    \<and> length (CancellationQuoteSource (steps' ! k)) \<le> 256
    \<and> (\<exists>kind \<in> {''steering:'', ''run_input:'', ''run_started:''}. prefix kind (CancellationQuoteSource (steps' ! k)))
    \<and> (\<forall>old. by_id (old_steps previous) (StepID (steps ! k)) = Some old \<and> validatedCancellationQuote old = Some quote \<longrightarrow>
          normalizeCancellationQuoteSource (CancellationQuoteSource old) = Some (CancellationQuoteSource (steps' ! k)))"
proof -
  have k: "keep_source (by_id (old_steps previous)) (steps ! k) = Inr (steps' ! k)"
    using assms(1,2) keep_sources_nth by (simp add: keepCancellationQuoteSources_def)
  obtain quote raw where "validatedCancellationQuote (steps ! k) = Some quote" "StepID (steps' ! k) = StepID (steps ! k)"
    "normalizeCancellationQuoteSource raw = Some (CancellationQuoteSource (steps' ! k))"
    "\<And>old. by_id (old_steps previous) (StepID (steps ! k)) = Some old \<Longrightarrow> validatedCancellationQuote old = Some quote \<Longrightarrow>
       normalizeCancellationQuoteSource (CancellationQuoteSource old) = Some (CancellationQuoteSource (steps' ! k))"
    by (rule keep_source_cases [OF k assms(3)]) blast
  with normalize_source [OF this(3) assms(3)] show ?thesis by blast
qed
section \<open>A cancellation at work\<close>

definition sample_uni :: uni where
  "sample_uni = \<lparr>letter = (\<lambda>n. 97 \<le> n \<and> n \<le> 122), digit = (\<lambda>n. 48 \<le> n \<and> n \<le> 57), mark = (\<lambda>_. False), cjkRune = (\<lambda>_. False)\<rparr>"

definition sample_replaced :: plan_step where
  "sample_replaced = (sample_step ''b'' ''cancelled'' 2)\<lparr>CancellationDisposition := ''not_required'', CancellationReason := ''a'', ReplacementStepID := ''a''\<rparr>"

lemma sample_trims2 [simp]:
  "TrimSpace ''not_required'' = ''not_required''" "TrimSpace ''steering:1'' = ''steering:1''" "TrimSpace ''b'' = ''b''"
  by (simp_all add: TrimSpace_def chunks.simps byte_def is_space_def)

lemma sample_cancellation_fields [simp]:
  "CancellationDisposition (sample_step ident status n) = []" "CancellationReason (sample_step ident status n) = []"
  "UserTakeoverQuote (sample_step ident status n) = []" "ReplacementStepID (sample_step ident status n) = []"
  "ScopeChangeQuote (sample_step ident status n) = []"
  by (simp_all add: sample_step_def sample_item_def plan_input.defs)

lemma sample_untouched:
  assumes "CancellationDisposition s = []" and "CancellationReason s = []" and "UserTakeoverQuote s = []"
    and "ReplacementStepID s = []" and "ScopeChangeQuote s = []"
  shows "trim_cancellation s = s" "clear_cancellation s = s"
proof -
  show "trim_cancellation s = s" by (rule plan_step.equality) (simp_all add: trim_cancellation_def assms)
  show "clear_cancellation s = s" by (rule plan_step.equality) (simp_all add: clear_cancellation_def Let_def assms)
qed

lemma sample_assess_replaced:
  "assessRunPlanCancellations id sample_uni [] 3 Map.empty [sample_step ''a'' ''completed'' 1, sample_replaced]
   = Inr ([sample_step ''a'' ''completed'' 1, sample_replaced\<lparr>CancellationQuoteSource := []\<rparr>], [])"
proof -
  have t: "trim_cancellation sample_replaced = sample_replaced"
    by (simp add: trim_cancellation_def sample_replaced_def)
  have g: "coverage_gap id sample_replaced ''c'' (Some (sample_step ''a'' ''completed'' 1)) = []"
    by (simp add: coverage_gap_def sample_replaced_def)
  have "assess_step id sample_uni [] 3 Map.empty [sample_step ''a'' ''completed'' 1, sample_replaced] sample_replaced
      = Inr (sample_replaced\<lparr>CancellationQuoteSource := []\<rparr>, [])"
  proof -
    have f: "Status sample_replaced = ''cancelled''" "CancellationDisposition sample_replaced = ''not_required''"
      "CancellationReason sample_replaced = ''a''" "ScopeChangeQuote sample_replaced = []" "ReplacementStepID sample_replaced = ''a''"
      "StepID sample_replaced = ''b''" "SuccessCriteria sample_replaced = ''c''"
      by (simp_all add: sample_replaced_def)
    have c: "cancellationCoverage id sample_uni [] sample_replaced [sample_step ''a'' ''completed'' 1, sample_replaced] Map.empty
        = Inr (no_deferral\<lparr>d_Criterion := ''c'', d_ReplacementStepID := ''a'', d_Replacement := Some (sample_step ''a'' ''completed'' 1)\<rparr>, [])"
      using g by (simp add: cancellationCoverage_def Let_def f establishedCriterion_def no_deferral_def)
    show ?thesis
      using c by (simp add: assess_step_def f assess_named_def assessedCancellation_def scopeEvidencePlanContractVersion_def no_deferral_def)
  qed
  with t show ?thesis
    by (simp add: assessRunPlanCancellations_def assessedPlanCancellationContractVersion_def assess_at_def Let_def sample_untouched
        assess_step_def [of _ _ _ _ _ _ "sample_step ''a'' ''completed'' (Suc 0)"])
qed

theorem cancelled_steps_covered_witness:
  "\<exists>steps' deferred. assessRunPlanCancellations id sample_uni [] 3 Map.empty [sample_step ''a'' ''completed'' 1, sample_replaced] = Inr (steps', deferred)
     \<and> Status (steps' ! 1) = ''cancelled'' \<and> covered id sample_uni [] Map.empty steps' (steps' ! 1)"
proof -
  have "Status (sample_replaced\<lparr>CancellationQuoteSource := []\<rparr>) = ''cancelled''" by (simp add: sample_replaced_def)
  moreover have "\<forall>k < 2. Status ([sample_step ''a'' ''completed'' 1, sample_replaced\<lparr>CancellationQuoteSource := []\<rparr>] ! k) = ''cancelled'' \<longrightarrow>
      covered id sample_uni [] Map.empty [sample_step ''a'' ''completed'' 1, sample_replaced\<lparr>CancellationQuoteSource := []\<rparr>]
        ([sample_step ''a'' ''completed'' 1, sample_replaced\<lparr>CancellationQuoteSource := []\<rparr>] ! k)"
    using cancelled_steps_covered [OF sample_assess_replaced] by simp
  ultimately show ?thesis unfolding sample_assess_replaced by (auto dest: spec [of _ 1])
qed

definition sample_snapshot :: "plan_step list" where
  "sample_snapshot = [sample_step ''a'' ''completed'' 1, (sample_step ''s_2'' ''pending'' 2)\<lparr>SuccessCriteria := [], VerificationRequired := False\<rparr>]"

lemma sample_snapshot_kept:
  "retainOmittedOpenSteps sample_snapshot (Some sample_run_plan) = (sample_snapshot, [])"
  "assessRunPlanCancellations id sample_uni [] 3 Map.empty sample_snapshot = Inr (sample_snapshot, [])"
  by (simp_all add: retainOmittedOpenSteps_def sample_snapshot_def assessRunPlanCancellations_def assessedPlanCancellationContractVersion_def
      assess_at_def Let_def sample_untouched assess_step_def)

theorem no_obligation_lost_witness:
  "\<exists>final. assessRunPlanCancellations id sample_uni [] 3 Map.empty sample_snapshot = Inr (final, []) \<and> distinct (map StepID final)
     \<and> (\<exists>s \<in> set final. StepID s = ''a'' \<and> VerificationRequired s)"
proof -
  have r: "resolveRunPlanSteps id ''s_'' ''r'' [sample_item ''a'' ''completed'', sample_item [] ''pending''] (Some sample_run_plan) [''s_1''] = Inr sample_snapshot"
    using sample_resolved by (simp add: sample_snapshot_def)
  have "distinct (map StepID sample_snapshot) \<and> (\<exists>s \<in> set sample_snapshot. StepID s = StepID (sample_step ''a'' ''pending'' 1)
      \<and> (VerificationRequired (sample_step ''a'' ''pending'' 1) \<longrightarrow> VerificationRequired s)
      \<and> (Status s = ''cancelled'' \<longrightarrow> covered id sample_uni [] Map.empty sample_snapshot s))"
    by (rule no_obligation_lost [OF r sample_snapshot_kept]) simp_all
  then show ?thesis using sample_snapshot_kept(2) by auto
qed

lemma sample_segments: "segmentInput id sample_uni ''no'' = [\<lparr>seg_start = 0, seg_end = 2, seg_code = False\<rparr>]"
  by (simp add: segmentInput_def segments_from.simps line_segments_def TrimSpace_def chunks.simps byte_def is_space_def appendLineSentences_def
      line_sentences.simps sentenceEnd_def rune_value_def sentence_def offset_def trimClosing_def closing_def closingPunctuation_def Let_def)

theorem quoted_input_occurs_witness: "quotedInput id sample_uni ''no'' ''no'' False \<and> sublist ''no'' ''no''"
proof -
  have t: "trimClosing ''no'' = ''no''"
    by (simp add: trimClosing_def chunks.simps byte_def closing_def rune_value_def is_space_def closingPunctuation_def)
  have q: "quotedInput id sample_uni ''no'' ''no'' False"
    by (simp add: quotedInput_def Let_def sample_segments t segment_text_def slice_def wholeQuotable_def)
  have "\<not> meaningfulQuote sample_uni ''no''"
    by (simp add: meaningfulQuote_def rune_list_def chunks.simps byte_def rune_value_def quote_rune_def sample_uni_def minQuoteWeight_def)
  with quoted_input_occurs [OF q] have "sublist (trimClosing ''no'') ''no''" by blast
  with q show ?thesis by (simp only: t)
qed

theorem quote_source_stable_witness:
  "\<exists>s. keepCancellationQuoteSources [s] None = Inr [s] \<and> CancellationQuoteSource s = ''steering:1'' \<and> (\<exists>q. validatedCancellationQuote s = Some q)"
proof -
  define s where "s = (sample_step ''a'' ''cancelled'' 1)\<lparr>CancellationDisposition := ''user_takeover'', UserTakeoverQuote := ''a'',
    CancellationQuoteSource := ''steering:1''\<rparr>"
  have f: "CancellationQuoteSource s = ''steering:1''" "Status s = ''cancelled''" "CancellationDisposition s = ''user_takeover''"
    "UserTakeoverQuote s = ''a''" "s\<lparr>CancellationQuoteSource := ''steering:1''\<rparr> = s" by (simp_all add: s_def)
  have "normalizeCancellationQuoteSource ''steering:1'' = Some ''steering:1''"
    by (simp add: normalizeCancellationQuoteSource_def Let_def cancellationQuoteSourceMaxBytes_def runes_def chunks.simps byte_def source_of_kind_def
        rune_list_def rune_value_def is_space_def IsControl_def)
  then have k: "keepCancellationQuoteSources [s] None = Inr [s]"
    by (simp add: keepCancellationQuoteSources_def keep_source_def f validatedCancellationQuote_def by_id_def old_steps_def)
  from quote_source_stable [OF k, of 0] f(1) have "\<exists>q. validatedCancellationQuote s = Some q" by auto
  with k f(1) show ?thesis by blast
qed

end
