(* ===== verification/EnvSplit.thy ===== *)
theory EnvSplit
  imports GoStrings
begin

text \<open>
  \<^verbatim>\<open>env_split_string.go\<close>: the splitting of an \<^verbatim>\<open>env -S\<close> string into the arguments that env reads in its place.
  \<open>env_loop\<close> is the loop of \<^verbatim>\<open>splitEnvString\<close> over the bytes that are left, with the loop's variables as
  the record \<open>env_state\<close>; \<^const>\<open>None\<close> is \<^verbatim>\<open>ok = false\<close>.

  The lemmas give a reference quoting that the splitter inverts, the shape of the reported variable
  references, and that a string without quotes, escapes and references splits at its blanks.
\<close>

section \<open>The splitter\<close>

record env_state =
  es_words :: "string list"
  es_substituted :: "string list"
  es_word :: string
  es_inWord :: bool
  es_quote :: char

definition env_start :: env_state where
  "env_start = \<lparr>es_words = [], es_substituted = [], es_word = [], es_inWord = False, es_quote = NO_BYTE\<rparr>"

text \<open>The escapes that stand for a control character; \<^const>\<open>None\<close> is the zero value of a missing key.\<close>

definition envSplitEscapes :: "char \<Rightarrow> char option" where
  "envSplitEscapes = map_of [(CHR ''f'', CHR 0x0C), (CHR ''n'', CHR 0x0A), (CHR ''r'', CHR 0x0D),
     (CHR ''t'', CHR 0x09), (CHR ''v'', CHR 0x0B)]"

definition flush :: "env_state \<Rightarrow> env_state" where
  "flush st = (if es_inWord st
     then st\<lparr>es_words := es_words st @ [es_word st], es_word := [], es_inWord := False\<rparr> else st)"

definition write_byte :: "char \<Rightarrow> env_state \<Rightarrow> env_state" where
  "write_byte c st = st\<lparr>es_word := es_word st @ [c]\<rparr>"

definition env_blank :: "char \<Rightarrow> bool" where
  "env_blank c = (c \<in> {SPACE, CHR 0x09, CHR 0x0A, CHR 0x0B, CHR 0x0C, CHR 0x0D})"

definition name_letter :: "char \<Rightarrow> bool" where
  "name_letter c = (c = CHR ''_'' \<or> (65 \<le> byte c \<and> byte c \<le> 90) \<or> (97 \<le> byte c \<and> byte c \<le> 122))"

definition name_digit :: "char \<Rightarrow> bool" where
  "name_digit c = (48 \<le> byte c \<and> byte c \<le> 57)"

text \<open>
  The test of a variable name: a letter or underscore first, then digits too. The code ranges over runes;
  a byte outside ASCII belongs to a rune that is no letter here, so the test can go byte by byte.
\<close>

definition valid_name :: "string \<Rightarrow> bool" where
  "valid_name s = (case s of [] \<Rightarrow> True | c # cs \<Rightarrow> name_letter c \<and> list_all (\<lambda>d. name_letter d \<or> name_digit d) cs)"

definition envVariableReference :: "string \<Rightarrow> string option" where
  "envVariableReference s = (case IndexByte s (CHR ''}'') of
       None \<Rightarrow> None
     | Some end \<Rightarrow> if \<not> HasPrefix s ''${'' \<or> end < 3 then None
                  else if valid_name (drop 2 (take end s)) then Some (take (Suc end) s) else None)"

function env_loop :: "string \<Rightarrow> env_state \<Rightarrow> (string list \<times> string list) option" where
  "env_loop [] st = (if es_quote st \<noteq> NO_BYTE then None
                     else Some (es_words (flush st), es_substituted st))"
| "env_loop (c # s) st =
     (if es_quote st = SQUOTE then
        (if c = SQUOTE then env_loop s (st\<lparr>es_quote := NO_BYTE\<rparr>)
         else if c = BACKSLASH \<and> s \<noteq> [] \<and> (hd s = SQUOTE \<or> hd s = BACKSLASH)
           then env_loop (tl s) (write_byte (hd s) st)
         else env_loop s (write_byte c st))
      else if env_blank c then
        (if es_quote st = NO_BYTE then env_loop s (flush st) else env_loop s (write_byte c st))
      else if c = CHR ''#'' then
        (if es_quote st = NO_BYTE \<and> \<not> es_inWord st then Some (es_words st, es_substituted st)
         else env_loop s (write_byte c st))
      else if c = SQUOTE then
        (if es_quote st = NO_BYTE then env_loop s (st\<lparr>es_quote := SQUOTE, es_inWord := True\<rparr>)
         else env_loop s (write_byte c st))
      else if c = DQUOTE then
        (if es_quote st = DQUOTE then env_loop s (st\<lparr>es_quote := NO_BYTE\<rparr>)
         else env_loop s (st\<lparr>es_quote := DQUOTE, es_inWord := True\<rparr>))
      else if c = BACKSLASH then
        (case s of
           [] \<Rightarrow> None
         | e # s' \<Rightarrow>
             if e = CHR ''c'' \<and> es_quote st = NO_BYTE
               then Some (es_words (flush st), es_substituted (flush st))
             else if e = CHR ''_'' \<and> es_quote st = NO_BYTE then env_loop s' (flush st)
             else if e = CHR ''_'' then env_loop s' (write_byte SPACE st)
             else (case envSplitEscapes e of
                 Some b \<Rightarrow> env_loop s' ((write_byte b st)\<lparr>es_inWord := True\<rparr>)
               | None \<Rightarrow>
                   if e \<in> {CHR ''#'', CHR ''$'', DQUOTE, SQUOTE, BACKSLASH}
                   then env_loop s' ((write_byte e st)\<lparr>es_inWord := True\<rparr>)
                   else None))
      else if c = CHR ''$'' then
        (case envVariableReference (c # s) of
           None \<Rightarrow> None
         | Some reference \<Rightarrow>
             env_loop (drop (length reference - 1) s)
               (st\<lparr>es_word := es_word st @ reference, es_substituted := es_substituted st @ [reference],
                   es_inWord := True\<rparr>))
      else env_loop s ((write_byte c st)\<lparr>es_inWord := True\<rparr>))"
  by pat_completeness auto
termination
  by (relation "measure (\<lambda>(s, st). length s)") auto

declare env_loop.simps [simp del]

definition splitEnvString :: "string \<Rightarrow> (string list \<times> string list) option" where
  "splitEnvString s = env_loop s env_start"

section \<open>Quoting and splitting\<close>

text \<open>A quoting that env accepts: the word in single quotes, a quote or backslash in it escaped.\<close>

definition env_escape :: "char \<Rightarrow> string" where
  "env_escape c = (if c = SQUOTE \<or> c = BACKSLASH then [BACKSLASH, c] else [c])"

definition env_quote :: "string \<Rightarrow> string" where
  "env_quote w = SQUOTE # concat (map env_escape w) @ [SQUOTE]"

lemma env_loop_quoted:
  "es_quote st = SQUOTE \<Longrightarrow>
   env_loop (concat (map env_escape w) @ SQUOTE # s) st
     = env_loop s (st\<lparr>es_word := es_word st @ w, es_quote := NO_BYTE\<rparr>)"
proof (induction w arbitrary: st)
  case Nil
  then show ?case by (simp add: env_loop.simps)
next
  case (Cons c w)
  have "env_loop (concat (map env_escape (c # w)) @ SQUOTE # s) st
      = env_loop (concat (map env_escape w) @ SQUOTE # s) (write_byte c st)"
    using Cons.prems by (simp add: env_escape_def env_loop.simps)
  also have "\<dots> = env_loop s ((write_byte c st)\<lparr>es_word := es_word (write_byte c st) @ w, es_quote := NO_BYTE\<rparr>)"
    by (rule Cons.IH) (simp add: write_byte_def Cons.prems)
  finally show ?case by (simp add: write_byte_def)
qed

lemma env_loop_quote:
  "es_quote st = NO_BYTE \<Longrightarrow>
   env_loop (env_quote w @ s) st = env_loop s (st\<lparr>es_word := es_word st @ w, es_inWord := True\<rparr>)"
  by (cases st) (simp add: env_quote_def env_loop.simps(2) [of SQUOTE] env_blank_def env_loop_quoted)

lemma env_loop_space:
  "es_quote st = NO_BYTE \<Longrightarrow> env_loop (SPACE # s) st = env_loop s (flush st)"
  by (simp add: env_loop.simps env_blank_def)

lemma env_loop_quotes:
  assumes "es_quote st = NO_BYTE" "es_word st = []" "\<not> es_inWord st"
  shows "env_loop (Join (map env_quote ws) '' '') st = Some (es_words st @ ws, es_substituted st)"
  using assms
proof (induction ws arbitrary: st)
  case Nil
  then show ?case by (simp add: env_loop.simps flush_def)
next
  case (Cons w ws)
  let ?st = "st\<lparr>es_word := w, es_inWord := True\<rparr>"
  show ?case
  proof (cases "ws = []")
    case True
    with env_loop_quote [of st w "[]"] Cons.prems show ?thesis
      by (simp add: env_loop.simps flush_def)
  next
    case False
    with Cons.prems have "env_loop (Join (map env_quote (w # ws)) '' '') st
        = env_loop (Join (map env_quote ws) '' '') (flush ?st)"
      by (simp add: Join_Cons env_loop_quote env_loop_space del: Join.simps)
    also have "\<dots> = Some (es_words (flush ?st) @ ws, es_substituted (flush ?st))"
      using Cons.prems by (intro Cons.IH) (simp_all add: flush_def)
    finally show ?thesis by (simp add: flush_def)
  qed
qed

text \<open>C35. Words written with single quotes and separated by blanks are split back into exactly those words,
  whatever bytes they hold, and nothing is reported as substituted.\<close>

theorem splitEnvString_quotes: "splitEnvString (Join (map env_quote ws) '' '') = Some (ws, [])"
  unfolding splitEnvString_def by (subst env_loop_quotes) (simp_all add: env_start_def)

section \<open>Plain strings\<close>

text \<open>On a string with no quote, escape, reference or comment the splitter is the splitting at blanks.\<close>

definition plain_byte :: "char \<Rightarrow> bool" where
  "plain_byte c = (c \<notin> {SQUOTE, DQUOTE, BACKSLASH, CHR ''$'', CHR ''#''})"

lemma env_loop_plain_byte:
  assumes "es_quote st = NO_BYTE" "plain_byte c"
  shows "env_loop (c # s) st = env_loop s (if env_blank c then flush st else (write_byte c st)\<lparr>es_inWord := True\<rparr>)"
  using assms by (simp add: env_loop.simps(2) plain_byte_def)

fun blank_words :: "string \<Rightarrow> string \<Rightarrow> bool \<Rightarrow> string list" where
  "blank_words [] w inw = (if inw then [w] else [])"
| "blank_words (c # s) w inw =
     (if env_blank c then (if inw then w # blank_words s [] False else blank_words s w False)
      else blank_words s (w @ [c]) True)"

lemma env_loop_plain:
  "es_quote st = NO_BYTE \<Longrightarrow> list_all plain_byte s \<Longrightarrow>
   env_loop s st = Some (es_words st @ blank_words s (es_word st) (es_inWord st), es_substituted st)"
proof (induction s arbitrary: st)
  case Nil
  then show ?case by (simp add: env_loop.simps flush_def)
next
  case (Cons c s)
  then show ?case by (simp add: env_loop_plain_byte flush_def write_byte_def)
qed

lemma blank_words_prepend:
  "blank_words s (v @ w) True = (case blank_words s w True of [] \<Rightarrow> [v] | r # rs \<Rightarrow> (v @ r) # rs)"
  by (induction s arbitrary: w) auto

lemma blank_words_runs: "blank_words s [] False = runs env_blank s"
proof (induction env_blank s rule: runs.induct)
  case (3 x y xs)
  have "blank_words (y # xs) [x] True = (case blank_words (y # xs) [] True of [] \<Rightarrow> [[x]] | r # rs \<Rightarrow> ([x] @ r) # rs)"
    using blank_words_prepend [of "y # xs" "[x]" "[]"] by simp
  with "3" show ?case by (auto split: list.splits)
qed auto

text \<open>On a string without quotes, escapes, references and comment signs the splitter is the
  splitting at blanks: the maximal runs of other bytes, in order.\<close>

theorem splitEnvString_plain:
  assumes "list_all plain_byte s"
  shows "splitEnvString s = Some (runs env_blank s, [])"
  using env_loop_plain [of env_start s] assms
  by (simp add: splitEnvString_def env_start_def blank_words_runs)

theorem splitEnvString_plain_witness: "splitEnvString ''-i  ls'' = Some (runs env_blank ''-i  ls'', [])"
  by (rule splitEnvString_plain) (simp add: plain_byte_def)

section \<open>Variable references\<close>

text \<open>What is reported as substituted is a reference to a variable with a proper name.\<close>

definition env_reference :: "string \<Rightarrow> bool" where
  "env_reference r = (\<exists>name. r = ''${'' @ name @ ''}'' \<and> name \<noteq> [] \<and> valid_name name)"

lemma envVariableReference_SomeD:
  assumes "envVariableReference s = Some r"
  shows "env_reference r \<and> prefix r s"
proof -
  from assms obtain i where i: "IndexByte s (CHR ''}'') = Some i" and pre: "HasPrefix s ''${''"
    and three: "\<not> i < 3" and name: "valid_name (drop 2 (take i s))" and r: "r = take (Suc i) s"
    by (auto simp: envVariableReference_def split: option.splits if_splits)
  from IndexByte_Some [OF i] have len: "i < length s" and brace: "s ! i = CHR ''}''" by auto
  from pre have "take 2 s = ''${''" by (simp add: HasPrefix_def numeral_2_eq_2)
  moreover have "take i s = take 2 (take i s) @ drop 2 (take i s)" by (rule append_take_drop_id [symmetric])
  ultimately have "take i s = ''${'' @ drop 2 (take i s)" using three by (simp add: min_def)
  with len brace have "r = ''${'' @ drop 2 (take i s) @ ''}''"
    by (simp add: r take_Suc_conv_app_nth)
  moreover have "drop 2 (take i s) \<noteq> []" using len three by simp
  ultimately have "env_reference r" using name unfolding env_reference_def by blast
  then show ?thesis by (simp add: r take_is_prefix)
qed

end
