(* ===== verification/Launchers.thy ===== *)
theory Launchers
  imports EnvSplit
begin

text \<open>
  \<^verbatim>\<open>command_launchers.go\<close> and \<^verbatim>\<open>parallel_arguments.go\<close>: how the option grammar of a launcher (\<^verbatim>\<open>sudo\<close>, \<^verbatim>\<open>env\<close>, \<^verbatim>\<open>xargs\<close>,
  \<^verbatim>\<open>parallel\<close>, \<^verbatim>\<open>find\<close>) is read to find the command it runs. A \<^verbatim>\<open>map[string]struct{}\<close> is the list of its keys;
  \<open>longOption_perm\<close> shows that the one place that ranges over such a map does not depend on the order. A slice of
  words and the slice of their positions are two lists, as in the code.

  \<open>shell_syntax\<close> stands for the shell parser \<^verbatim>\<open>mvdan.cc/sh\<close> and for the case table of Unicode, which the
  repository only calls.

  The lemmas show that the words after the options are positioned in the arguments they came from, that option
  reading consumes a prefix, that abbreviations are resolved only when they are unique, that the commands
  of find are non-empty segments of its arguments and that argument combinations are the product of the
  sources, within their bound.
\<close>

section \<open>What the code calls\<close>

text \<open>
  One statement as the walk over the parsed file visits it: the words of its command with whether the shell
  expands them at run time, and the files it writes.
\<close>

record shell_stmt =
  stmt_words :: "(string \<times> bool) list"
  stmt_writes :: "string list"

record shell_syntax =
  lower_table :: "nat \<Rightarrow> nat"
  Quote :: "string \<Rightarrow> string option"
  Parse :: "string \<Rightarrow> shell_stmt list option"

section \<open>Wrapper grammars\<close>

record prefixWrapper =
  valueFlags :: "string list"
  optionalFlags :: "string list"
  optionalTakesNext :: bool
  longFlags :: "string list"
  duration :: bool
  operands :: nat
  scriptFlags :: "string list"
  splitFlags :: "string list"
  pathFlags :: "string list"
  joinsScript :: bool
  terminators :: "string list"
  argumentTerminators :: "string list"
  separatorFlags :: "(string \<times> string) list"
  replaceFlags :: "string list"
  replacesBraces :: bool
  targetFlags :: "string list"
  assignFlags :: "string list"
  wholeWords :: bool
  ownOptionsRunNothing :: bool
  bareRunsNothing :: bool

text \<open>The zero value, which a composite literal starts from.\<close>

definition zeroWrapper :: prefixWrapper where
  "zeroWrapper = \<lparr>valueFlags = [], optionalFlags = [], optionalTakesNext = False, longFlags = [],
     duration = False, operands = 0, scriptFlags = [], splitFlags = [], pathFlags = [],
     joinsScript = False, terminators = [], argumentTerminators = [], separatorFlags = [],
     replaceFlags = [], replacesBraces = False, targetFlags = [], assignFlags = [],
     wholeWords = False, ownOptionsRunNothing = False, bareRunsNothing = False\<rparr>"

definition parallelValueOptions :: "string list" where
  "parallelValueOptions =
    [''-a'', ''--arg-file'', ''-C'', ''--colsep'', ''--col-sep'', ''-d'', ''--delimiter'', ''-E'', ''-I'',
     ''-j'', ''--jobs'', ''-J'', ''--profile'', ''-L'', ''-n'', ''--max-args'', ''--maxargs'', ''-N'',
     ''--max-replace-args'', ''--maxreplaceargs'', ''-P'', ''--max-procs'', ''-S'', ''--sshlogin'', ''-s'',
     ''--max-chars'', ''-D'', ''--debug'', ''-U'', ''-W'', ''-B'', ''-H'', ''--joblog'', ''--jl'',
     ''--results'', ''--result'', ''--res'', ''--parens'', ''--rpl'', ''--extensionreplace'', ''--er'',
     ''--basenamereplace'', ''--bnr'', ''--dirnamereplace'', ''--dnr'', ''--basenameextensionreplace'',
     ''--bner'', ''--seqreplace'', ''--slotreplace'', ''--delay'', ''--ssh-delay'', ''--sshdelay'',
     ''--load'', ''--nice'', ''--tag-string'', ''--tagstring'', ''--ctag-string'', ''--ctagstring'',
     ''--sshloginfile'', ''--slf'', ''--ssh'', ''--transfer-file'', ''--transferfile'',
     ''--transfer-files'', ''--transferfiles'', ''--tf'', ''--return'', ''--trc'', ''--basefile'',
     ''--bf'', ''--template'', ''--tmpl'', ''--workdir'', ''--work-dir'', ''--wd'', ''--rsync-opts'',
     ''--rsyncopts'', ''--tmpdir'', ''--tempdir'', ''--use-compress-program'', ''--compress-program'',
     ''--usecompressprogram'', ''--compressprogram'', ''--use-decompress-program'',
     ''--decompress-program'', ''--usedecompressprogram'', ''--decompressprogram'', ''--total-jobs'',
     ''--totaljobs'', ''--total'', ''--arg-sep'', ''--argsep'', ''--arg-file-sep'', ''--argfilesep'',
     ''--trim'', ''--env'', ''--linkinputsource'', ''--xapplyinputsource'', ''--halt-on-error'',
     ''--haltonerror'', ''--halt'', ''--limit'', ''--memfree'', ''--memsuspend'', ''--retries'',
     ''--timeout'', ''--term-seq'', ''--termseq'', ''--minversion'', ''--min-version'',
     ''--semaphore-timeout'', ''--semaphoretimeout'', ''--st'', ''--semaphore-name'', ''--semaphorename'',
     ''--id'', ''--header'', ''--shard'', ''--bin'', ''--group-by'', ''--groupby'', ''--filter'',
     ''--combineexec'', ''--combine-exec'', ''--combineexecutable'', ''--combine-executable'',
     ''--recstart'', ''--recend'', ''--block-size'', ''--blocksize'', ''--block'', ''--block-timeout'',
     ''--blocktimeout'', ''--bt'', ''--process-slot-var'', ''--sql'', ''--sqlmaster'', ''--sqlworker'',
     ''--sqlandworker'', ''--shellcompletion'']"

definition parallelLongFlags :: "string list" where
  "parallelLongFlags =
    [''--xargs'', ''--silent'', ''--keep-order'', ''--keeporder'', ''--no-keep-order'', ''--nokeeporder'',
     ''--nok'', ''--no-k'', ''--group'', ''--ungroup'', ''--latest-line'', ''--latestline'', ''--ll'',
     ''--linebuffer'', ''--linebuffered'', ''--line-buffer'', ''--line-buffered'', ''--lb'', ''--tmux'',
     ''--tmuxpane'', ''--null'', ''--quote'', ''--plus'', ''--noswap'', ''--max-line-length-allowed'',
     ''--maxlinelengthallowed'', ''--number-of-cpus'', ''--numberofcpus'', ''--number-of-sockets'',
     ''--numberofsockets'', ''--number-of-cores'', ''--numberofcores'', ''--number-of-threads'',
     ''--numberofthreads'', ''--use-sockets-instead-of-threads'', ''--usesocketsinsteadofthreads'',
     ''--use-cores-instead-of-threads'', ''--usecoresinsteadofthreads'', ''--use-cpus-instead-of-cores'',
     ''--usecpusinsteadofcores'', ''--shell-quote'', ''--shellquote'', ''--tag'', ''--ctag'', ''--color'',
     ''--colour'', ''--color-failed'', ''--colour-failed'', ''--colorfailed'', ''--colourfailed'',
     ''--cf'', ''--onall'', ''--nonall'', ''--filter-hosts'', ''--filterhosts'', ''--filter-host'',
     ''--controlmaster'', ''--transfer'', ''--cleanup'', ''--compress'', ''--tty'', ''--dry-run'',
     ''--dryrun'', ''--dr'', ''--progress'', ''--eta'', ''--bar'', ''--shuf'', ''--recordenv'',
     ''--record-env'', ''--session'', ''--plain'', ''--tollef'', ''--gnu'', ''--link'', ''--xapply'',
     ''--bibtex'', ''--will-cite'', ''--willcite'', ''--nn'', ''--nonotice'', ''--no-notice'',
     ''--resume'', ''--resume-failed'', ''--resumefailed'', ''--retry-failed'', ''--retryfailed'',
     ''--no-run-if-empty'', ''--csv'', ''--help'', ''--show-limits'', ''--showlimits'', ''--exit'',
     ''--semaphore'', ''--fg'', ''--bg'', ''--wait'', ''--shebang'', ''--hashbang'', ''--shebang-wrap'',
     ''--internal-pipe-means-argfiles'', ''--skip-first-line'', ''--bug'', ''--cat'', ''--fifo'',
     ''--pipe-part'', ''--pipepart'', ''--tee'', ''--hgrp'', ''--hostgrp'', ''--hostgroup'',
     ''--hostgroups'', ''--embed'', ''--pipe'', ''--spreadstdin'', ''--regexp'', ''--regex'',
     ''--remove-rec-sep'', ''--removerecsep'', ''--rrs'', ''--files'', ''--output-as-files'',
     ''--outputasfiles'', ''--files0'', ''--output-as-files0'', ''--outputasfiles0'', ''--round-robin'',
     ''--roundrobin'', ''--round'', ''--keep-timeout'', ''--keeptimeout'', ''--interactive'',
     ''--verbose'', ''--version'']"

definition parallelGrammar :: prefixWrapper where
  "parallelGrammar = zeroWrapper\<lparr>valueFlags := parallelValueOptions,
     optionalFlags := [''-i'', ''--replace'', ''-e'', ''--eof'', ''-l'', ''--max-lines''],
     optionalTakesNext := True,
     longFlags := parallelLongFlags,
     joinsScript := True,
     terminators := ['':::'', ''::::'', '':::+'', ''::::+''],
     argumentTerminators := ['':::'', '':::+''],
     separatorFlags := [(''--arg-sep'', '':::''), (''--argsep'', '':::''),
       (''--arg-file-sep'', ''::::''), (''--argfilesep'', ''::::'')],
     replaceFlags := [''-I'', ''-i'', ''--replace'', ''--extensionreplace'', ''--er'', ''--basenamereplace'',
       ''--bnr'', ''--dirnamereplace'', ''--dnr'', ''--basenameextensionreplace'', ''--bner'', ''--seqreplace'',
       ''--slotreplace''],
     replacesBraces := True\<rparr>"

definition prefixWrappers :: "string \<Rightarrow> prefixWrapper option" where
  "prefixWrappers = map_of [
    (''env'', zeroWrapper\<lparr>valueFlags := [''-u'', ''--unset'', ''-C'', ''--chdir'', ''-S'', ''--split-string'', ''-P'', ''-a'', ''--argv0''],
      optionalFlags := [''--block-signal'', ''--default-signal'', ''--ignore-signal''],
      longFlags := [''--ignore-environment'', ''--null'', ''--debug'', ''--list-signal-handling'', ''--help'',
         ''--version''],
      splitFlags := [''-S'', ''--split-string''],
      pathFlags := [''-P'']\<rparr>),
    (''sudo'', zeroWrapper\<lparr>valueFlags := [''-u'', ''--user'', ''-g'', ''--group'', ''-p'', ''--prompt'', ''-C'', ''--close-from'', ''-r'',
         ''--role'', ''-t'', ''--type'', ''-T'', ''--command-timeout'', ''-U'', ''--other-user'', ''-h'',
         ''--host'', ''-D'', ''--chdir'', ''-R'', ''--chroot'', ''-a'', ''--auth-type'', ''-c'',
         ''--login-class''],
      optionalFlags := [''--preserve-env''],
      longFlags := [''--askpass'', ''--background'', ''--bell'', ''--edit'', ''--set-home'', ''--help'', ''--login'',
         ''--remove-timestamp'', ''--reset-timestamp'', ''--list'', ''--no-update'', ''--non-interactive'',
         ''--preserve-groups'', ''--stdin'', ''--shell'', ''--version'', ''--validate'']\<rparr>),
    (''doas'', zeroWrapper\<lparr>valueFlags := [''-u'', ''-C'', ''-a'']\<rparr>),
    (''xargs'', zeroWrapper\<lparr>valueFlags := [''-n'', ''-I'', ''-J'', ''-R'', ''-S'', ''-P'', ''-L'', ''-s'', ''-d'', ''-E'', ''-a'',
         ''--max-args'', ''--max-procs'', ''--max-chars'', ''--delimiter'', ''--arg-file'',
         ''--process-slot-var''],
      optionalFlags := [''-i'', ''-l'', ''-e'', ''--replace'', ''--max-lines'', ''--eof''],
      longFlags := [''--null'', ''--interactive'', ''--no-run-if-empty'', ''--verbose'', ''--exit'', ''--open-tty'',
         ''--show-limits'', ''--help'', ''--version''],
      replaceFlags := [''-I'', ''-J'', ''-i'', ''--replace'']\<rparr>),
    (''nohup'', zeroWrapper\<lparr>longFlags := [''--help'', ''--version'']\<rparr>),
    (''timeout'', zeroWrapper\<lparr>valueFlags := [''-s'', ''--signal'', ''-k'', ''--kill-after''],
      longFlags := [''--foreground'', ''--preserve-status'', ''--verbose'', ''--help'', ''--version''],
      duration := True\<rparr>),
    (''nice'', zeroWrapper\<lparr>valueFlags := [''-n'', ''--adjustment''],
      longFlags := [''--help'', ''--version'']\<rparr>),
    (''ionice'', zeroWrapper\<lparr>valueFlags := [''-c'', ''--class'', ''-n'', ''--classdata'', ''-p'', ''--pid'', ''-P'', ''--pgid'', ''-u'',
         ''--uid''],
      longFlags := [''--ignore'', ''--help'', ''--version''],
      targetFlags := [''-p'', ''--pid'', ''-P'', ''--pgid'', ''-u'', ''--uid'']\<rparr>),
    (''setsid'', zeroWrapper\<lparr>longFlags := [''--ctty'', ''--fork'', ''--wait'', ''--help'', ''--version'']\<rparr>),
    (''stdbuf'', zeroWrapper\<lparr>valueFlags := [''-i'', ''--input'', ''-o'', ''--output'', ''-e'', ''--error''],
      longFlags := [''--help'', ''--version'']\<rparr>),
    (''command'', zeroWrapper\<lparr>targetFlags := [''-v'', ''-V'']\<rparr>),
    (''builtin'', zeroWrapper\<lparr>bareRunsNothing := True\<rparr>),
    (''exec'', zeroWrapper\<lparr>valueFlags := [''-a''],
      bareRunsNothing := True\<rparr>),
    (''time'', zeroWrapper\<lparr>valueFlags := [''-o'', ''--output'', ''-f'', ''--format''],
      longFlags := [''--append'', ''--portability'', ''--quiet'', ''--verbose'', ''--help'', ''--version''],
      bareRunsNothing := True\<rparr>),
    (''chroot'', zeroWrapper\<lparr>valueFlags := [''--userspec'', ''--groups'', ''-u'', ''-g'', ''-G''],
      longFlags := [''--skip-chdir'', ''--help'', ''--version''],
      operands := 1\<rparr>),
    (''flock'', zeroWrapper\<lparr>valueFlags := [''-w'', ''--wait'', ''--timeout'', ''-E'', ''--conflict-exit-code''],
      longFlags := [''--shared'', ''--exclusive'', ''--unlock'', ''--nonblock'', ''--nonblocking'', ''--nb'',
         ''--close'', ''--no-fork'', ''--verbose'', ''--fcntl'', ''--help'', ''--version''],
      operands := 1,
      scriptFlags := [''-c'', ''--command''],
      bareRunsNothing := True\<rparr>),
    (''watch'', zeroWrapper\<lparr>valueFlags := [''-n'', ''--interval'', ''-q'', ''--equexit'', ''-s'', ''--shotsdir''],
      optionalFlags := [''-d'', ''--differences''],
      longFlags := [''--beep'', ''--color'', ''--no-color'', ''--errexit'', ''--chgexit'', ''--precise'',
         ''--no-rerun'', ''--no-title'', ''--no-wrap'', ''--exec'', ''--help'', ''--version''],
      joinsScript := True\<rparr>),
    (''parallel'', parallelGrammar),
    (''sem'', parallelGrammar\<lparr>bareRunsNothing := True\<rparr>),
    (''pkexec'', zeroWrapper\<lparr>valueFlags := [''-u'', ''--user''],
      longFlags := [''--disable-internal-agent'', ''--keep-cwd'', ''--help'', ''--version'']\<rparr>),
    (''taskset'', zeroWrapper\<lparr>longFlags := [''--all-tasks'', ''--cpu-list'', ''--pid'', ''--help'', ''--version''],
      targetFlags := [''-p'', ''--pid''],
      operands := 1\<rparr>),
    (''nsenter'', zeroWrapper\<lparr>valueFlags := [''-t'', ''--target'', ''-S'', ''--setuid'', ''-G'', ''--setgid'', ''-W'', ''--wdns'', ''-N'',
         ''--net-socket''],
      optionalFlags := [''-m'', ''--mount'', ''-u'', ''--uts'', ''-i'', ''--ipc'', ''-n'', ''--net'', ''-p'', ''--pid'',
         ''-C'', ''--cgroup'', ''-U'', ''--user'', ''-T'', ''--time'', ''-r'', ''--root'', ''-w'', ''--wd''],
      longFlags := [''--all'', ''--user-parent'', ''--preserve-credentials'', ''--keep-caps'', ''--env'',
         ''--no-fork'', ''--join-cgroup'', ''--follow-context'', ''--help'', ''--version'']\<rparr>),
    (''runuser'', zeroWrapper\<lparr>valueFlags := [''-u'', ''--user'', ''-c'', ''--command'', ''--session-command'', ''-g'', ''--group'', ''-G'',
         ''--supp-group'', ''-s'', ''--shell'', ''-w'', ''--whitelist-environment''],
      longFlags := [''--fast'', ''--login'', ''--preserve-environment'', ''--pty'', ''--help'', ''--version'']\<rparr>),
    (''setpriv'', zeroWrapper\<lparr>valueFlags := [''--ambient-caps'', ''--inh-caps'', ''--bounding-set'', ''--groups'', ''--rgid'', ''--egid'',
         ''--regid'', ''--ruid'', ''--euid'', ''--reuid'', ''--securebits'', ''--pdeathsig'',
         ''--selinux-label'', ''--apparmor-profile'', ''--landlock-access'', ''--landlock-rule'',
         ''--seccomp-filter''],
      longFlags := [''--no-new-privs'', ''--keep-groups'', ''--clear-groups'', ''--init-groups'', ''--reset-env'',
         ''--dump'', ''--help'', ''--version''],
      targetFlags := [''-d'', ''--dump'']\<rparr>),
    (''arch'', zeroWrapper\<lparr>valueFlags := [''-arch'', ''-d'', ''-e''],
      assignFlags := [''-e''],
      wholeWords := True,
      bareRunsNothing := True\<rparr>),
    (''caffeinate'', zeroWrapper\<lparr>valueFlags := [''-t'', ''-w''],
      bareRunsNothing := True\<rparr>),
    (''busybox'', zeroWrapper\<lparr>longFlags := [''--install'', ''--list'', ''--list-full'', ''--help''],
      valueFlags := [''--show''],
      ownOptionsRunNothing := True,
      bareRunsNothing := True\<rparr>),
    (''toybox'', zeroWrapper\<lparr>longFlags := [''--long'', ''--help'', ''--version''],
      ownOptionsRunNothing := True,
      bareRunsNothing := True\<rparr>)]"

section \<open>Replacement strings\<close>

record replacementSet =
  rs_words :: "string list"
  rs_braces :: bool

definition noReplacement :: replacementSet where
  "noReplacement = \<lparr>rs_words = [], rs_braces = False\<rparr>"

text \<open>
  The expression for replacement strings: \<^verbatim>\<open>\{[^\s{}]*\}\<close> or \<^verbatim>\<open>\{=.*=\}\<close> anywhere in the word. \<open>closes_group\<close> is
  \<^verbatim>\<open>[^\s{}]*\}\<close> at the start of a string, \<open>perl_group\<close> the second alternative there.
\<close>

definition group_byte :: "char \<Rightarrow> bool" where
  "group_byte c = (c \<notin> {CHR 0x09, CHR 0x0A, CHR 0x0C, CHR 0x0D, SPACE, CHR ''{'', CHR ''}''})"

definition closes_group :: "string \<Rightarrow> bool" where
  "closes_group s = (case dropWhile group_byte s of [] \<Rightarrow> False | c # _ \<Rightarrow> c = CHR ''}'')"

definition perl_group :: "string \<Rightarrow> bool" where
  "perl_group s = (HasPrefix s ''{='' \<and> Contains (takeWhile (\<lambda>c. c \<noteq> NEWLINE) (drop 2 s)) ''=}'')"

fun parallelReplacement :: "string \<Rightarrow> bool" where
  "parallelReplacement [] = False"
| "parallelReplacement (c # s) =
     ((c = CHR ''{'' \<and> closes_group s) \<or> perl_group (c # s) \<or> parallelReplacement s)"

definition rs_empty :: "replacementSet \<Rightarrow> bool" where
  "rs_empty r = (\<not> rs_braces r \<and> rs_words r = [])"

definition replaces :: "replacementSet \<Rightarrow> string \<Rightarrow> bool" where
  "replaces r word = ((rs_braces r \<and> parallelReplacement word)
     \<or> list_ex (\<lambda>replacement. replacement \<noteq> [] \<and> Contains word replacement) (rs_words r))"

definition rs_union :: "replacementSet \<Rightarrow> replacementSet \<Rightarrow> replacementSet" where
  "rs_union r other = (if rs_empty other then r
     else \<lparr>rs_words = rs_words r @ rs_words other, rs_braces = rs_braces r \<or> rs_braces other\<rparr>)"

section \<open>find\<close>

definition findCommandPrimaries :: "string list" where
  "findCommandPrimaries = [''-exec'', ''-execdir'', ''-ok'', ''-okdir'']"

function find_end :: "bool \<Rightarrow> nat \<Rightarrow> string list \<Rightarrow> nat \<Rightarrow> nat" where
  "find_end plusEnds start args i =
     (if i < length args then
        (if HasPrefix (args ! i) '';'' \<or> args ! i = [BACKSLASH] then i
         else if plusEnds \<and> args ! i = ''+'' \<and> start < i \<and> Contains (args ! (i - 1)) ''{}'' then i
         else find_end plusEnds start args (Suc i))
      else length args)"
  by pat_completeness auto
termination
  by (relation "measure (\<lambda>(p, s, args, i). length args - i)") auto

declare find_end.simps [simp del]

definition findCommandEnd :: "string list \<Rightarrow> nat \<Rightarrow> nat" where
  "findCommandEnd args primary =
     find_end (args ! primary = ''-exec'' \<or> args ! primary = ''-execdir'') (Suc primary) args (Suc primary)"

lemma find_end_ge: "i \<le> length args \<Longrightarrow> i \<le> find_end p s args i \<and> find_end p s args i \<le> length args"
proof (induction p s args i rule: find_end.induct)
  case (1 p s args i)
  then show ?case by (subst (1 2) find_end.simps) (auto dest: Suc_leI)
qed

function find_from :: "string list \<Rightarrow> nat \<Rightarrow> string list list" where
  "find_from args i =
     (if i < length args then
        (if args ! i \<notin> set findCommandPrimaries then find_from args (Suc i)
         else (let start = Suc i; e = findCommandEnd args i;
                   command = take (min e (length args) - start) (drop start args)
               in (if command \<noteq> [] then [command] else []) @ find_from args (Suc e)))
      else [])"
  by pat_completeness auto
termination
proof (relation "measure (\<lambda>(args, i). length args - i)", goal_cases)
  case (3 args i start e command)
  then have "Suc i \<le> e" using find_end_ge [of "Suc i" args] by (simp add: findCommandEnd_def)
  with "3" show ?case by simp
qed auto

declare find_from.simps [simp del]

definition findCommands :: "string list \<Rightarrow> string list list" where
  "findCommands args = find_from args 0"

section \<open>Option reading\<close>

record wrapperOption =
  opt_name :: string
  opt_value :: string
  hasValue :: bool

record optionReading =
  r_options :: "wrapperOption list"
  r_rest :: "string list"
  r_at :: "nat list"
  r_complete :: bool
  r_substituted :: "string list"

definition flag :: "string \<Rightarrow> wrapperOption" where
  "flag name = \<lparr>opt_name = name, opt_value = [], hasValue = False\<rparr>"

definition valued :: "string \<Rightarrow> string \<Rightarrow> wrapperOption" where
  "valued name value = \<lparr>opt_name = name, opt_value = value, hasValue = True\<rparr>"

definition option_sets :: "prefixWrapper \<Rightarrow> string list" where
  "option_sets w = valueFlags w @ optionalFlags w @ longFlags w @ scriptFlags w @ pathFlags w"

definition knownOption :: "prefixWrapper \<Rightarrow> string \<Rightarrow> bool" where
  "knownOption w name = (name \<in> set (option_sets w))"

text \<open>The loop of \<^verbatim>\<open>longOption\<close> over the options of all sets; \<open>m\<close> is \<^verbatim>\<open>match\<close>, empty when there is none.\<close>

fun long_match :: "string \<Rightarrow> string list \<Rightarrow> string \<Rightarrow> string" where
  "long_match name [] m = (if m = [] then name else m)"
| "long_match name (option # os) m =
     (if \<not> HasPrefix option ''--'' \<or> \<not> HasPrefix option name \<or> option = m then long_match name os m
      else if m \<noteq> [] then name
      else long_match name os option)"

definition longOption :: "prefixWrapper \<Rightarrow> string \<Rightarrow> string" where
  "longOption w name = (if knownOption w name \<or> length name < 3 then name
                        else long_match name (option_sets w) [])"

text \<open>
  One option word and the words after it: the options it spells and how many of the words after it they take
  as values; \<^const>\<open>None\<close> when a value is missing.
\<close>

definition takes_next :: "prefixWrapper \<Rightarrow> string list \<Rightarrow> bool" where
  "takes_next w after = (optionalTakesNext w \<and> after \<noteq> [] \<and> \<not> HasPrefix (hd after) ''-'')"

definition read_long :: "prefixWrapper \<Rightarrow> string \<Rightarrow> string list \<Rightarrow> wrapperOption list \<times> nat option" where
  "read_long w arg after =
     (case CutByte arg (CHR ''='') of (short, value, attached) \<Rightarrow>
        let name = longOption w short in
        if attached then ([valued name value], Some 0)
        else if name \<in> set (valueFlags w) then
          (case after of [] \<Rightarrow> ([], None) | v # _ \<Rightarrow> ([valued name v], Some 1))
        else if name \<in> set (optionalFlags w) \<and> takes_next w after then ([valued name (hd after)], Some 1)
        else ([flag name], Some 0))"

definition read_whole :: "prefixWrapper \<Rightarrow> string \<Rightarrow> string list \<Rightarrow> wrapperOption list \<times> nat option" where
  "read_whole w arg after =
     (if arg \<in> set (valueFlags w) then
        (case after of [] \<Rightarrow> ([], None) | v # _ \<Rightarrow> ([valued arg v], Some 1))
      else ([flag arg], Some 0))"

fun read_bundle :: "prefixWrapper \<Rightarrow> string \<Rightarrow> string list \<Rightarrow> wrapperOption list \<times> nat option" where
  "read_bundle w [] after = ([], Some 0)"
| "read_bundle w (c # attached) after =
     (let name = ''-'' @ [c];
          takesValue = name \<in> set (valueFlags w);
          optional = name \<in> set (optionalFlags w);
          script = name \<in> set (scriptFlags w);
          path = name \<in> set (pathFlags w)
      in if takesValue \<and> attached \<noteq> [] then ([valued name attached], Some 0)
         else if takesValue then
           (case after of [] \<Rightarrow> ([], None) | v # _ \<Rightarrow> ([valued name v], Some 1))
         else if optional \<and> attached \<noteq> [] then ([valued name attached], Some 0)
         else if optional \<and> takes_next w after then ([valued name (hd after)], Some 1)
         else if (script \<or> path) \<and> attached \<noteq> [] then ([valued name attached], Some 0)
         else (case read_bundle w attached after of (os, n) \<Rightarrow> (flag name # os, n)))"

definition read_word :: "prefixWrapper \<Rightarrow> string \<Rightarrow> string list \<Rightarrow> wrapperOption list \<times> nat option" where
  "read_word w arg after =
     (if arg = ''-'' then ([flag ''-''], Some 0)
      else if HasPrefix arg ''--'' then read_long w arg after
      else if wholeWords w then read_whole w arg after
      else read_bundle w (tl arg) after)"

definition maxSplitStrings :: nat where
  "maxSplitStrings = 8"

text \<open>
  The loop of \<^verbatim>\<open>wrapperOptions\<close> over the arguments that are left and their positions: one turn returns (\<^const>\<open>Inl\<close>) or
  goes on with what is left. The words of a split string take the place of the option, each at the position
  of the argument that held them. The count of split strings starts at zero, so it never passes the bound that
  the code compares it with.
\<close>

record option_loop =
  ol_splits :: nat
  ol_reading :: optionReading
  ol_args :: "string list"
  ol_at :: "nat list"

definition after_option :: "prefixWrapper \<Rightarrow> option_loop \<Rightarrow> optionReading + option_loop" where
  "after_option w s =
     (let r = ol_reading s; option = last (r_options r) in
      if opt_name option \<in> set (scriptFlags w)
        then Inl (r\<lparr>r_rest := tl (ol_args s), r_at := tl (ol_at s), r_complete := True\<rparr>)
      else if opt_name option \<in> set (splitFlags w) then
        (case splitEnvString (opt_value option) of
           None \<Rightarrow> Inl r
         | Some (words, substituted) \<Rightarrow>
             if maxSplitStrings \<le> ol_splits s then Inl r
             else Inr \<lparr>ol_splits = Suc (ol_splits s),
                       ol_reading = r\<lparr>r_substituted := r_substituted r @ substituted\<rparr>,
                       ol_args = words @ tl (ol_args s),
                       ol_at = replicate (length words) (hd (ol_at s)) @ tl (ol_at s)\<rparr>)
      else Inr (s\<lparr>ol_args := tl (ol_args s), ol_at := tl (ol_at s)\<rparr>))"

definition option_step :: "prefixWrapper \<Rightarrow> option_loop \<Rightarrow> optionReading + option_loop" where
  "option_step w s =
     (let r = ol_reading s; arg = hd (ol_args s) in
      if arg = ''--'' then Inl (r\<lparr>r_rest := tl (ol_args s), r_at := tl (ol_at s), r_complete := True\<rparr>)
      else if \<not> HasPrefix arg ''-'' then Inl (r\<lparr>r_rest := ol_args s, r_at := ol_at s, r_complete := True\<rparr>)
      else (case read_word w arg (tl (ol_args s)) of
          (os, None) \<Rightarrow> Inl (r\<lparr>r_options := r_options r @ os\<rparr>)
        | (os, Some n) \<Rightarrow>
            let s' = s\<lparr>ol_reading := r\<lparr>r_options := r_options r @ os\<rparr>,
                       ol_args := drop n (ol_args s), ol_at := drop n (ol_at s)\<rparr> in
            if os = [] \<or> \<not> hasValue (last os)
            then Inr (s'\<lparr>ol_args := tl (ol_args s'), ol_at := tl (ol_at s')\<rparr>)
            else after_option w s'))"

lemma option_step_decreases:
  assumes "option_step w s = Inr s'" "ol_args s \<noteq> []"
  shows "(s', s) \<in> measures [\<lambda>s. maxSplitStrings - ol_splits s, \<lambda>s. length (ol_args s)]"
proof -
  have less: "length (drop n (tl xs)) < length xs" if "xs \<noteq> []" for n and xs :: "string list"
    using that by (cases xs) auto
  from assms show ?thesis
    by (auto simp: option_step_def after_option_def Let_def tl_drop less [simplified]
        split: if_splits prod.splits option.splits)
qed

function options_loop :: "prefixWrapper \<Rightarrow> option_loop \<Rightarrow> optionReading" where
  "options_loop w s =
     (if ol_args s = [] then (ol_reading s)\<lparr>r_complete := True\<rparr>
      else (case option_step w s of Inl r \<Rightarrow> r | Inr s' \<Rightarrow> options_loop w s'))"
  by pat_completeness auto
termination
  by (relation "inv_image (measures [\<lambda>s. maxSplitStrings - ol_splits s, \<lambda>s. length (ol_args s)]) snd")
    (use option_step_decreases in auto)

declare options_loop.simps [simp del]

definition no_reading :: optionReading where
  "no_reading = \<lparr>r_options = [], r_rest = [], r_at = [], r_complete = False, r_substituted = []\<rparr>"

definition wrapperOptions :: "prefixWrapper \<Rightarrow> string list \<Rightarrow> optionReading" where
  "wrapperOptions w args = options_loop w
     \<lparr>ol_splits = 0, ol_reading = no_reading, ol_args = args, ol_at = [0..<length args]\<rparr>"


section \<open>Input sources of parallel\<close>

record inputSource =
  src_words :: "string list"
  src_files :: bool

record wrapperInvocation =
  v_replaced :: replacementSet
  v_terminators :: "string list"
  v_arguments :: "string list"

definition add_source_word :: "string \<Rightarrow> inputSource list \<Rightarrow> inputSource list" where
  "add_source_word word sources =
     (if sources = [] then []
      else butlast sources @ [(last sources)\<lparr>src_words := src_words (last sources) @ [word]\<rparr>])"

definition splitSources :: "string list \<Rightarrow> wrapperInvocation \<Rightarrow> inputSource list" where
  "splitSources words v =
     foldl (\<lambda>sources word.
       if word \<in> set (v_terminators v)
       then sources @ [\<lparr>src_words = [], src_files = word \<notin> set (v_arguments v)\<rparr>]
       else add_source_word word sources) [] words"

definition maxArgumentCommandLines :: nat where
  "maxArgumentCommandLines = 64"

text \<open>The two inner loops of \<^verbatim>\<open>argumentCombinations\<close>, over the pairs in the order the loops meet them.\<close>

definition extend_combinations :: "string list list \<Rightarrow> string list \<Rightarrow> unit + string list list" where
  "extend_combinations combinations args =
     foldm (\<lambda>(combination, argument) next.
       if maxArgumentCommandLines \<le> length next then Inl () else Inr (next @ [combination @ [argument]]))
       (List.product combinations args) []"

definition argumentCombinations :: "inputSource list \<Rightarrow> string list list option" where
  "argumentCombinations sources =
     (if sources = [] then None
      else (case foldm (\<lambda>source combinations.
                if src_files source \<or> src_words source = [] then Inl ()
                else extend_combinations combinations (src_words source)) sources [[]] of
              Inl _ \<Rightarrow> None | Inr combinations \<Rightarrow> Some combinations))"

definition argumentCommandLines :: "inputSource list \<Rightarrow> string list \<times> bool" where
  "argumentCommandLines sources =
     (case argumentCombinations sources of
        None \<Rightarrow> ([], False)
      | Some combinations \<Rightarrow> (map (\<lambda>combination. Join combination '' '') combinations, True))"

text \<open>
  The expression for the strings GNU parallel substitutes: \<^verbatim>\<open>(^|[^$])\{([0-9./#%+:^,][^\s{}]*)?\}\<close> or \<^verbatim>\<open>\{=.*=\}\<close>;
  \<open>prev\<close> is the byte before, if there is one.
\<close>

definition placeholder_byte :: "char \<Rightarrow> bool" where
  "placeholder_byte c = (name_digit c \<or> c \<in> set ''./#%+:^,'')"

definition placeholder_body :: "string \<Rightarrow> bool" where
  "placeholder_body s = (case s of [] \<Rightarrow> False
     | c # cs \<Rightarrow> c = CHR ''}'' \<or> (placeholder_byte c \<and> closes_group cs))"

fun placeholder_from :: "char option \<Rightarrow> string \<Rightarrow> bool" where
  "placeholder_from prev [] = False"
| "placeholder_from prev (c # s) =
     ((c = CHR ''{'' \<and> prev \<noteq> Some (CHR ''$'') \<and> placeholder_body s)
      \<or> perl_group (c # s) \<or> placeholder_from (Some c) s)"

definition parallelPlaceholder :: "string \<Rightarrow> bool" where
  "parallelPlaceholder s = placeholder_from None s"

definition has_placeholders :: "string \<Rightarrow> replacementSet \<Rightarrow> bool" where
  "has_placeholders line replaced = ((rs_braces replaced \<and> parallelPlaceholder line)
     \<or> list_ex (\<lambda>word. word \<noteq> [] \<and> Contains line word) (rs_words replaced))"

definition composed_line :: "string \<Rightarrow> replacementSet \<Rightarrow> string list \<Rightarrow> string" where
  "composed_line line replaced quoted =
     (let all = Join quoted '' '' in
      if has_placeholders line replaced then
        (let composed = foldl (\<lambda>s word. ReplaceAll s word all) line (rs_words replaced) in
         if rs_braces replaced then
           foldl (\<lambda>s (i, word). ReplaceAll s (''{'' @ FormatInt (Suc i) @ ''}'') word)
             (ReplaceAll composed ''{}'' all) (enumerate 0 quoted)
         else composed)
      else line @ '' '' @ all)"

definition templateCommandLines ::
  "shell_syntax \<Rightarrow> string list \<Rightarrow> inputSource list \<Rightarrow> replacementSet \<Rightarrow> string list option" where
  "templateCommandLines P template sources replaced =
     (case argumentCombinations sources of
        None \<Rightarrow> None
      | Some combinations \<Rightarrow>
          (case foldm (\<lambda>combination lines.
               case those (map (Quote P) combination) of
                 None \<Rightarrow> Inl ()
               | Some quoted \<Rightarrow>
                   let composed = composed_line (Join template '' '') replaced quoted in
                   Inr (if Parse P composed \<noteq> None then lines @ [composed] else lines)) combinations [] of
             Inl _ \<Rightarrow> None | Inr lines \<Rightarrow> Some lines))"

section \<open>The command a wrapper runs\<close>

record unwrappedCommand =
  u_inner :: "string list"
  u_innerAt :: "nat list"
  u_script :: string
  u_hasScript :: bool
  u_assigns :: "string list"
  u_runsNothing :: bool
  u_replaced :: replacementSet

definition nothing_unwrapped :: unwrappedCommand where
  "nothing_unwrapped = \<lparr>u_inner = [], u_innerAt = [], u_script = [], u_hasScript = False, u_assigns = [],
     u_runsNothing = False, u_replaced = noReplacement\<rparr>"

definition newInvocation :: "prefixWrapper \<Rightarrow> wrapperInvocation" where
  "newInvocation w = \<lparr>v_replaced = \<lparr>rs_words = [], rs_braces = replacesBraces w\<rparr>,
     v_terminators = terminators w, v_arguments = argumentTerminators w\<rparr>"

definition read_replacement :: "prefixWrapper \<Rightarrow> wrapperOption \<Rightarrow> wrapperInvocation \<Rightarrow> wrapperInvocation" where
  "read_replacement w option v =
     (if opt_name option \<in> set (replaceFlags w) then
        (let replacement = (if \<not> hasValue option \<or> opt_value option = [] then ''{}'' else opt_value option)
         in v\<lparr>v_replaced := (v_replaced v)\<lparr>rs_words := rs_words (v_replaced v) @ [replacement]\<rparr>\<rparr>)
      else v)"

definition read_separator :: "prefixWrapper \<Rightarrow> wrapperOption \<Rightarrow> wrapperInvocation \<Rightarrow> wrapperInvocation" where
  "read_separator w option v =
     (case map_of (separatorFlags w) (opt_name option) of
        None \<Rightarrow> v
      | Some replaced \<Rightarrow>
          if hasValue option \<and> opt_value option \<noteq> [] then
            (let arguments = replaced \<in> set (v_arguments v);
                 old = [replaced, replaced @ ''+''];
                 new = [opt_value option, opt_value option @ ''+''];
                 keep = filter (\<lambda>word. word \<notin> set old)
             in v\<lparr>v_terminators := keep (v_terminators v) @ new,
                  v_arguments := keep (v_arguments v) @ (if arguments then new else [])\<rparr>)
          else v)"

definition invocation_read :: "prefixWrapper \<Rightarrow> wrapperOption \<Rightarrow> wrapperInvocation \<Rightarrow> wrapperInvocation" where
  "invocation_read w option v = read_separator w option (read_replacement w option v)"

text \<open>\<^verbatim>\<open>strtodNumber\<close> and \<^verbatim>\<open>isDurationToken\<close>: the DURATION that \<^verbatim>\<open>timeout\<close> reads before its command.\<close>

definition decimal_digits :: string where
  "decimal_digits = ''0123456789''"

definition mantissa_number :: "string \<Rightarrow> string \<Rightarrow> bool" where
  "mantissa_number digits mantissa =
     (case CutByte mantissa (CHR ''.'') of (whole, fraction, _) \<Rightarrow>
        whole @ fraction \<noteq> [] \<and> trims_to_nothing whole digits \<and> trims_to_nothing fraction digits)"

definition exponent_number :: "string \<Rightarrow> bool" where
  "exponent_number exponent =
     (let e = (if HasPrefix exponent ''+'' \<or> HasPrefix exponent ''-'' then tl exponent else exponent)
      in e \<noteq> [] \<and> trims_to_nothing e decimal_digits)"

definition strtodNumber :: "shell_syntax \<Rightarrow> string \<Rightarrow> bool" where
  "strtodNumber P tok =
     (let s = TrimPrefix tok ''+'' in
      if ToLower (lower_table P) s \<in> {''inf'', ''infinity''} then True
      else (let hex = length s > 2 \<and> s ! 0 = CHR ''0'' \<and> (s ! 1 = CHR ''x'' \<or> s ! 1 = CHR ''X'');
                body = (if hex then drop 2 s else s);
                digits = (if hex then decimal_digits @ ''abcdefABCDEF'' else decimal_digits);
                marks = (if hex then ''pP'' else ''eE'');
                mantissa = takeWhile (\<lambda>c. c \<notin> set marks) body;
                marked = dropWhile (\<lambda>c. c \<notin> set marks) body
            in (marked = [] \<or> exponent_number (tl marked)) \<and> mantissa_number digits mantissa))"

definition isDurationToken :: "shell_syntax \<Rightarrow> string \<Rightarrow> bool" where
  "isDurationToken P tok = (strtodNumber P tok
     \<or> (length tok > 1 \<and> last tok \<in> set ''smhd'' \<and> strtodNumber P (butlast tok)))"

text \<open>\<^verbatim>\<open>assignmentName\<close> of \<^verbatim>\<open>command_identity.go\<close>: the variable that a \<^verbatim>\<open>NAME=value\<close> word assigns.\<close>

definition subscripted_name :: "string \<Rightarrow> string option" where
  "subscripted_name name =
     (case IndexByte name (CHR ''['') of
        None \<Rightarrow> Some name
      | Some i \<Rightarrow> if HasSuffix name '']'' then Some (take i name) else None)"

definition assignmentName :: "string \<Rightarrow> string option" where
  "assignmentName word =
     (case IndexByte word (CHR ''='') of
        None \<Rightarrow> None
      | Some eq \<Rightarrow>
          if eq = 0 then None
          else (case subscripted_name (TrimSuffix (take eq word) ''+'') of
                  None \<Rightarrow> None
                | Some name \<Rightarrow> if name = [] then None else if valid_name name then Some name else None))"

definition joined_script :: "string list \<Rightarrow> inputSource list \<Rightarrow> shell_syntax \<Rightarrow> wrapperInvocation
  \<Rightarrow> unwrappedCommand \<Rightarrow> unwrappedCommand" where
  "joined_script template sources P v out =
     (if template = [] then
        (case argumentCommandLines sources of (lines, ok) \<Rightarrow>
           out\<lparr>u_script := Join lines [NEWLINE], u_hasScript := ok \<and> lines \<noteq> []\<rparr>)
      else
        (let written = [Join template '' ''];
             lines = (case templateCommandLines P template sources (v_replaced v) of
                        None \<Rightarrow> written | Some composed \<Rightarrow> written @ composed)
         in out\<lparr>u_script := Join lines [NEWLINE], u_hasScript := True\<rparr>))"

definition wrapped_command :: "shell_syntax \<Rightarrow> prefixWrapper \<Rightarrow> string list \<Rightarrow> nat list
  \<Rightarrow> wrapperInvocation \<Rightarrow> unwrappedCommand \<Rightarrow> unwrappedCommand" where
  "wrapped_command P w rest at v out =
     (let timed = duration w \<and> rest \<noteq> [] \<and> isDurationToken P (hd rest);
          rest' = (if timed then tl rest else rest);
          at' = (if timed then tl at else at);
          template = takeWhile (\<lambda>word. word \<notin> set (v_terminators v)) rest';
          tail = dropWhile (\<lambda>word. word \<notin> set (v_terminators v)) rest';
          sources = (if tail = [] then [] else splitSources tail v);
          out' = out\<lparr>u_replaced := v_replaced v\<rparr>
      in if \<not> joinsScript w then out'\<lparr>u_inner := template, u_innerAt := take (length template) at'\<rparr>
         else joined_script template sources P v out')"

definition command_of :: "shell_syntax \<Rightarrow> prefixWrapper \<Rightarrow> string list \<Rightarrow> nat list
  \<Rightarrow> unwrappedCommand \<Rightarrow> wrapperInvocation \<Rightarrow> unwrappedCommand" where
  "command_of P w rest at out v =
     (if length rest < operands w then out
      else (let rest' = drop (operands w) rest; at' = drop (operands w) at in
            if operands w > 0 \<and> rest' \<noteq> [] \<and> hd rest' \<in> set (scriptFlags w)
            then out\<lparr>u_script := Join (tl rest') '' '', u_hasScript := length rest' > 1\<rparr>
            else wrapped_command P w rest' at' v out))"

text \<open>
  The loop of \<^verbatim>\<open>unwrap\<close> over the options that were read; the left result is the early return with the
  script of a script option.
\<close>

definition unwrap_option :: "prefixWrapper \<Rightarrow> string list \<Rightarrow> wrapperOption
  \<Rightarrow> unwrappedCommand \<times> wrapperInvocation \<Rightarrow> unwrappedCommand + unwrappedCommand \<times> wrapperInvocation" where
  "unwrap_option w rest option s =
     (case s of (out, v) \<Rightarrow>
        if opt_name option \<in> set (scriptFlags w) \<and> hasValue option then
          Inl (out\<lparr>u_script := Join (opt_value option # rest) '' '', u_hasScript := True\<rparr>)
        else
          (let out1 = (if opt_name option \<in> set (pathFlags w) \<and> hasValue option
                       then out\<lparr>u_assigns := u_assigns out @ [''PATH='' @ opt_value option]\<rparr> else out);
               out2 = (if opt_name option \<in> set (assignFlags w) \<and> hasValue option
                          \<and> assignmentName (opt_value option) \<noteq> None
                       then out1\<lparr>u_assigns := u_assigns out1 @ [opt_value option]\<rparr> else out1);
               out3 = (if opt_name option \<in> set (targetFlags w)
                          \<or> (ownOptionsRunNothing w \<and> opt_name option \<noteq> ''-'')
                       then out2\<lparr>u_runsNothing := True\<rparr> else out2)
           in Inr (out3, invocation_read w option v)))"

definition unwrap :: "shell_syntax \<Rightarrow> prefixWrapper \<Rightarrow> string list \<Rightarrow> unwrappedCommand" where
  "unwrap P w args =
     (let reading = wrapperOptions w args;
          v0 = newInvocation w;
          v = v0\<lparr>v_replaced := (v_replaced v0)\<lparr>rs_words := rs_words (v_replaced v0) @ r_substituted reading\<rparr>\<rparr>
      in case foldm (unwrap_option w (r_rest reading)) (r_options reading) (nothing_unwrapped, v) of
           Inl out \<Rightarrow> out
         | Inr (out, v') \<Rightarrow>
             if \<not> r_complete reading \<or> u_runsNothing out then out
             else command_of P w (r_rest reading) (r_at reading) out v')"


section \<open>Abbreviated options\<close>

definition long_candidates :: "string list \<Rightarrow> string \<Rightarrow> string set" where
  "long_candidates os name = {option \<in> set os. prefix ''--'' option \<and> prefix name option}"

lemma long_candidates_Cons:
  "long_candidates (option # os) name =
     (if prefix ''--'' option \<and> prefix name option then insert option (long_candidates os name)
      else long_candidates os name)"
  by (auto simp: long_candidates_def)

lemma long_match_some:
  "m \<noteq> [] \<Longrightarrow> long_match name os m = (if long_candidates os name \<subseteq> {m} then m else name)"
proof (induction os)
  case Nil
  then show ?case by (simp add: long_candidates_def)
next
  case (Cons option os)
  then show ?case by (auto simp: long_candidates_Cons HasPrefix_iff)
qed

lemma long_candidates_nonempty: "option \<in> long_candidates os name \<Longrightarrow> option \<noteq> []"
  by (auto simp: long_candidates_def)

lemma long_match_none:
  "long_match name os [] = (if \<exists>option. long_candidates os name = {option}
                            then the_elem (long_candidates os name) else name)"
proof (induction os)
  case Nil
  then show ?case by (simp add: long_candidates_def)
next
  case (Cons option os)
  show ?case
  proof (cases "prefix ''--'' option \<and> prefix name option")
    case True
    then have ne: "option \<noteq> []" by auto
    have some: "long_match name (option # os) [] = (if long_candidates os name \<subseteq> {option} then option else name)"
      using True ne by (simp add: HasPrefix_iff long_match_some)
    have cand: "long_candidates (option # os) name = insert option (long_candidates os name)"
      using True by (simp add: long_candidates_Cons)
    show ?thesis
    proof (cases "long_candidates os name \<subseteq> {option}")
      case sub: True
      then have "long_candidates (option # os) name = {option}" using cand by blast
      with sub show ?thesis unfolding some by simp
    next
      case False
      then have "\<nexists>o'. long_candidates (option # os) name = {o'}" unfolding cand by blast
      with False show ?thesis unfolding some by simp
    qed
  next
    case False
    then have "long_match name (option # os) [] = long_match name os []" by (auto simp: HasPrefix_iff)
    moreover have "long_candidates (option # os) name = long_candidates os name"
      unfolding long_candidates_Cons if_not_P [OF False] ..
    ultimately show ?thesis using Cons by simp
  qed
qed

text \<open>A long option that is not known by its full name is resolved to another name exactly when it is an
  abbreviation of that one known option and of no other; so the result does not depend on the order in which
  the option maps are ranged over.\<close>

theorem longOption_unique:
  assumes "\<not> knownOption w name" and "3 \<le> length name"
  shows "longOption w name = full \<and> full \<noteq> name \<longleftrightarrow> long_candidates (option_sets w) name = {full}"
proof -
  define C where "C = long_candidates (option_sets w) name"
  have opt: "longOption w name = (if \<exists>option. C = {option} then the_elem C else name)"
    using assms by (simp add: longOption_def long_match_none C_def)
  have "name \<notin> C" using assms by (simp add: long_candidates_def knownOption_def C_def)
  then have "longOption w name = full \<and> full \<noteq> name \<longleftrightarrow> C = {full}"
    unfolding opt by (cases "\<exists>option. C = {option}") auto
  then show ?thesis by (simp add: C_def)
qed

theorem longOption_unique_witness:
  "longOption (zeroWrapper\<lparr>valueFlags := [''--kill-after'']\<rparr>) ''--kill'' = ''--kill-after''"
proof -
  let ?w = "zeroWrapper\<lparr>valueFlags := [''--kill-after'']\<rparr>"
  have "long_candidates (option_sets ?w) ''--kill'' = {''--kill-after''}"
    by (auto simp: long_candidates_def option_sets_def zeroWrapper_def)
  moreover have "\<not> knownOption ?w ''--kill''" by (simp add: knownOption_def option_sets_def zeroWrapper_def)
  ultimately show ?thesis using longOption_unique [of ?w "''--kill''" "''--kill-after''"] by simp
qed

section \<open>Positions\<close>

text \<open>The positions of a reading are aligned with its words, in order, and inside the arguments.\<close>

definition positioned :: "nat \<Rightarrow> string list \<Rightarrow> nat list \<Rightarrow> bool" where
  "positioned n args at = (length at = length args \<and> sorted at \<and> list_all (\<lambda>a. a < n) at)"

lemma positioned_drop: "positioned n args at \<Longrightarrow> positioned n (drop k args) (drop k at)"
  by (auto simp: positioned_def list_all_iff sorted_wrt_drop dest: in_set_dropD)

lemma positioned_take: "positioned n args at \<Longrightarrow> positioned n (take k args) (take k at)"
  by (auto simp: positioned_def list_all_iff sorted_wrt_take dest: in_set_takeD)

lemma positioned_tl: "positioned n args at \<Longrightarrow> positioned n (tl args) (tl at)"
  using positioned_drop [of n args at 1] by (simp add: drop_Suc)

lemma positioned_split:
  assumes "positioned n args at" "args \<noteq> []"
  shows "positioned n (words @ tl args) (replicate (length words) (hd at) @ tl at)"
  using assms by (cases args; cases at) (auto simp: positioned_def sorted_append list_all_iff)

lemma read_bundle_consumes: "read_bundle w s after = (os, Some n) \<Longrightarrow> n \<le> length after"
  by (induction w s after arbitrary: os rule: read_bundle.induct)
    (auto simp: Let_def takes_next_def Suc_le_eq split: if_splits list.splits prod.splits)

lemma read_word_consumes: "read_word w arg after = (os, Some n) \<Longrightarrow> n \<le> length after"
  by (auto simp: read_word_def read_long_def read_whole_def Let_def takes_next_def Suc_le_eq
      split: if_splits list.splits prod.splits dest: read_bundle_consumes)

text \<open>What every turn of the option loop keeps holds of the loop, and what every way out gives holds at the end.\<close>

lemma options_loop_rule:
  assumes "I s"
    and "\<And>s r. I s \<Longrightarrow> ol_args s \<noteq> [] \<Longrightarrow> option_step w s = Inl r \<Longrightarrow> Q r"
    and "\<And>s s'. I s \<Longrightarrow> ol_args s \<noteq> [] \<Longrightarrow> option_step w s = Inr s' \<Longrightarrow> I s'"
    and "\<And>s. I s \<Longrightarrow> ol_args s = [] \<Longrightarrow> Q ((ol_reading s)\<lparr>r_complete := True\<rparr>)"
  shows "Q (options_loop w s)"
  using assms
proof (induction w s rule: options_loop.induct)
  case (1 w s)
  show ?case
  proof (cases "ol_args s = []")
    case True
    with "1.prems"(1,4) show ?thesis by (simp add: options_loop.simps)
  next
    case False
    show ?thesis
    proof (cases "option_step w s")
      case (Inl r)
      with False "1.prems"(1,2) have "Q r" by blast
      with False Inl show ?thesis by (subst options_loop.simps) simp
    next
      case (Inr s')
      from False Inr "1.prems"(1,3) have "I s'" by blast
      with False Inr "1.prems"(2-4) have "Q (options_loop w s')" by (intro "1.IH") blast+
      with False Inr show ?thesis by (subst options_loop.simps) simp
    qed
  qed
qed

definition loop_positioned :: "nat \<Rightarrow> option_loop \<Rightarrow> bool" where
  "loop_positioned n s = (positioned n (ol_args s) (ol_at s)
     \<and> positioned n (r_rest (ol_reading s)) (r_at (ol_reading s)))"

definition reading_positioned :: "nat \<Rightarrow> optionReading \<Rightarrow> bool" where
  "reading_positioned n r = positioned n (r_rest r) (r_at r)"

definition turn_positioned :: "nat \<Rightarrow> optionReading + option_loop \<Rightarrow> bool" where
  "turn_positioned n t = (case t of Inl r \<Rightarrow> reading_positioned n r | Inr s \<Rightarrow> loop_positioned n s)"

lemma after_option_positioned:
  assumes "loop_positioned n s" "ol_args s \<noteq> []"
  shows "turn_positioned n (after_option w s)"
  using assms positioned_split [of n "ol_args s" "ol_at s"] positioned_tl [of n "ol_args s" "ol_at s"]
  by (auto simp: after_option_def turn_positioned_def loop_positioned_def reading_positioned_def Let_def
      split: option.splits prod.splits)

lemma option_step_positioned:
  assumes "loop_positioned n s" "ol_args s \<noteq> []"
  shows "turn_positioned n (option_step w s)"
proof -
  obtain os k where word: "read_word w (hd (ol_args s)) (tl (ol_args s)) = (os, k)" by fastforce
  show ?thesis
  proof (cases k)
    case None
    with assms word positioned_tl [of n "ol_args s" "ol_at s"] show ?thesis
      by (simp add: option_step_def turn_positioned_def loop_positioned_def reading_positioned_def Let_def)
  next
    case (Some m)
    with word have m: "m \<le> length (tl (ol_args s))" using read_word_consumes by blast
    let ?s = "s\<lparr>ol_reading := (ol_reading s)\<lparr>r_options := r_options (ol_reading s) @ os\<rparr>,
                ol_args := drop m (ol_args s), ol_at := drop m (ol_at s)\<rparr>"
    have "drop m (ol_args s) \<noteq> []" using m assms(2) by (cases "ol_args s") auto
    moreover have "loop_positioned n ?s"
      using assms(1) by (simp add: loop_positioned_def positioned_drop)
    ultimately have "turn_positioned n (after_option w ?s)" by (intro after_option_positioned) simp_all
    moreover have "loop_positioned n (?s\<lparr>ol_args := tl (ol_args ?s), ol_at := tl (ol_at ?s)\<rparr>)"
      using \<open>loop_positioned n ?s\<close> by (simp add: loop_positioned_def positioned_tl)
    ultimately show ?thesis using assms word Some positioned_tl [of n "ol_args s" "ol_at s"]
      by (simp add: option_step_def turn_positioned_def loop_positioned_def reading_positioned_def Let_def)
  qed
qed

text \<open>The words a wrapper's options leave are positioned: each has the position of the argument it came
  from, inside the arguments and in order, also when split strings put other words in place of an option.\<close>

lemma wrapperOptions_positioned:
  "positioned (length args) (r_rest (wrapperOptions w args)) (r_at (wrapperOptions w args))"
proof -
  let ?n = "length args"
  let ?s = "\<lparr>ol_splits = 0, ol_reading = no_reading, ol_args = args, ol_at = [0..<?n]\<rparr>"
  have "reading_positioned ?n (options_loop w ?s)"
  proof (rule options_loop_rule [where I = "loop_positioned ?n"])
    show "loop_positioned ?n ?s" by (auto simp: loop_positioned_def no_reading_def positioned_def list_all_iff)
  next
    fix s r assume "loop_positioned ?n s" "ol_args s \<noteq> []" "option_step w s = Inl r"
    then show "reading_positioned ?n r" using option_step_positioned [of ?n s w] by (simp add: turn_positioned_def)
  next
    fix s s' assume "loop_positioned ?n s" "ol_args s \<noteq> []" "option_step w s = Inr s'"
    then show "loop_positioned ?n s'" using option_step_positioned [of ?n s w] by (simp add: turn_positioned_def)
  qed (simp add: loop_positioned_def reading_positioned_def)
  then show ?thesis by (simp add: reading_positioned_def wrapperOptions_def)
qed


text \<open>A wrapper without split options only skips words: what is left is a suffix of its arguments.\<close>

lemma option_step_suffix:
  assumes "splitFlags w = []" "r_rest (ol_reading s) = []"
  shows "case option_step w s of Inl r \<Rightarrow> suffix (r_rest r) (ol_args s)
    | Inr s' \<Rightarrow> r_rest (ol_reading s') = [] \<and> suffix (ol_args s') (ol_args s)"
proof -
  have drops: "suffix (tl (drop n xs)) xs" "suffix (tl xs) xs" for n and xs :: "string list"
    using suffix_drop [of "Suc n" xs] suffix_drop [of 1 xs] by (simp_all add: drop_Suc tl_drop)
  show ?thesis using assms
    by (auto simp: option_step_def after_option_def Let_def drops split: prod.splits option.splits)
qed

lemma options_loop_suffix:
  assumes "splitFlags w = []" "r_rest (ol_reading s) = []"
  shows "suffix (r_rest (options_loop w s)) (ol_args s)"
proof (rule options_loop_rule [where I = "\<lambda>t. r_rest (ol_reading t) = [] \<and> suffix (ol_args t) (ol_args s)"])
  fix t r assume "r_rest (ol_reading t) = [] \<and> suffix (ol_args t) (ol_args s)" "option_step w t = Inl r"
  then show "suffix (r_rest r) (ol_args s)"
    using option_step_suffix [OF assms(1), of t] suffix_order.order_trans by fastforce
next
  fix t t' assume "r_rest (ol_reading t) = [] \<and> suffix (ol_args t) (ol_args s)" "option_step w t = Inr t'"
  then show "r_rest (ol_reading t') = [] \<and> suffix (ol_args t') (ol_args s)"
    using option_step_suffix [OF assms(1), of t] suffix_order.order_trans by fastforce
qed (use assms in simp_all)

lemma wrapperOptions_suffix: "splitFlags w = [] \<Longrightarrow> suffix (r_rest (wrapperOptions w args)) args"
  using options_loop_suffix [of w "\<lparr>ol_splits = 0, ol_reading = no_reading, ol_args = args, ol_at = [0..<length args]\<rparr>"]
  by (simp add: wrapperOptions_def no_reading_def)

lemma option_step_shorter:
  assumes "splitFlags w = []" "r_rest (ol_reading s) = []" "r_options (ol_reading s) = []" "ol_args s \<noteq> []"
  shows "case option_step w s of Inl r \<Rightarrow> r_options r \<noteq> [] \<longrightarrow> length (r_rest r) < length (ol_args s)
    | Inr s' \<Rightarrow> r_rest (ol_reading s') = [] \<and> length (ol_args s') < length (ol_args s)"
  using assms
  by (auto simp: option_step_def after_option_def Let_def split: prod.splits option.splits)

lemma wrapperOptions_shorter:
  assumes "splitFlags w = []" "r_options (wrapperOptions w args) \<noteq> []"
  shows "length (r_rest (wrapperOptions w args)) < length args"
proof -
  let ?s = "\<lparr>ol_splits = 0, ol_reading = no_reading, ol_args = args, ol_at = [0..<length args]\<rparr>"
  have none: "r_rest (ol_reading ?s) = []" "r_options (ol_reading ?s) = []" by (simp_all add: no_reading_def)
  have ne: "args \<noteq> []" using assms(2)
    by (cases args) (simp_all add: wrapperOptions_def options_loop.simps no_reading_def)
  show ?thesis
  proof (cases "option_step w ?s")
    case (Inl r)
    then have "wrapperOptions w args = r" using ne by (simp add: wrapperOptions_def options_loop.simps [of _ ?s])
    with option_step_shorter [OF assms(1) none] ne Inl assms(2) show ?thesis by simp
  next
    case (Inr s')
    then have "wrapperOptions w args = options_loop w s'"
      using ne by (simp add: wrapperOptions_def options_loop.simps [of _ ?s])
    moreover have "r_rest (ol_reading s') = []" "length (ol_args s') < length args"
      using option_step_shorter [OF assms(1) none] ne Inr by simp_all
    ultimately show ?thesis
      using options_loop_suffix [OF assms(1), of s'] by (metis suffix_length_le le_less_trans)
  qed
qed

definition nothing_inside :: "unwrappedCommand \<Rightarrow> bool" where
  "nothing_inside out = (u_inner out = [] \<and> u_innerAt out = [])"

lemma unwrap_option_inside:
  "nothing_inside out \<Longrightarrow> unwrap_option w rest option (out, v) = t \<Longrightarrow>
   (case t of Inl out' \<Rightarrow> nothing_inside out' | Inr s \<Rightarrow> nothing_inside (fst s))"
  by (auto simp: unwrap_option_def nothing_inside_def Let_def split: if_splits)

lemma unwrap_options_inside:
  "nothing_inside out \<Longrightarrow>
   (case foldm (unwrap_option w rest) os (out, v) of
      Inl out' \<Rightarrow> nothing_inside out' | Inr s \<Rightarrow> nothing_inside (fst s))"
proof (induction os arbitrary: out v)
  case (Cons option os)
  show ?case
  proof (cases "unwrap_option w rest option (out, v)")
    case (Inl e)
    then show ?thesis using unwrap_option_inside [OF Cons.prems Inl] by simp
  next
    case (Inr s)
    then show ?thesis using unwrap_option_inside [OF Cons.prems Inr] Cons.IH [of "fst s" "snd s"] by simp
  qed
qed simp

lemma command_of_positioned:
  assumes "positioned n rest at" "nothing_inside out"
  shows "positioned n (u_inner (command_of P w rest at out v)) (u_innerAt (command_of P w rest at out v))"
proof -
  have nil: "positioned n [] []" by (simp add: positioned_def)
  have cmd: "positioned n (u_inner (wrapped_command P w rest at v out)) (u_innerAt (wrapped_command P w rest at v out))"
    if pos: "positioned n rest at" for rest at
  proof -
    have "positioned n (takeWhile p xs) (take (length (takeWhile p xs)) ys)"
      if "positioned n xs ys" for p xs ys
      using positioned_take [OF that, of "length (takeWhile p xs)"] by (simp add: takeWhile_eq_take [symmetric])
    then show ?thesis using pos positioned_tl [OF pos] assms(2)
      by (auto simp: wrapped_command_def joined_script_def Let_def nothing_inside_def nil split: prod.splits)
  qed
  show ?thesis using assms cmd [OF positioned_drop [OF assms(1), of "operands w"]]
    by (simp add: command_of_def Let_def nothing_inside_def nil)
qed

lemma unwrap_inner_positioned:
  "positioned (length args) (u_inner (unwrap P w args)) (u_innerAt (unwrap P w args))"
proof -
  let ?r = "wrapperOptions w args"
  let ?v = "(newInvocation w)\<lparr>v_replaced := (v_replaced (newInvocation w))
      \<lparr>rs_words := rs_words (v_replaced (newInvocation w)) @ r_substituted ?r\<rparr>\<rparr>"
  have nil: "positioned n (u_inner out) (u_innerAt out)" if "nothing_inside out" for n out
    using that by (simp add: nothing_inside_def positioned_def)
  have start: "nothing_inside nothing_unwrapped" by (simp add: nothing_inside_def nothing_unwrapped_def)
  show ?thesis
  proof (cases "foldm (unwrap_option w (r_rest ?r)) (r_options ?r) (nothing_unwrapped, ?v)")
    case (Inl out)
    with unwrap_options_inside [OF start, of w "r_rest ?r" "r_options ?r" ?v] have "nothing_inside out" by simp
    with Inl nil show ?thesis by (simp add: unwrap_def Let_def)
  next
    case (Inr s)
    obtain out v' where s: "s = (out, v')" by fastforce
    with Inr unwrap_options_inside [OF start, of w "r_rest ?r" "r_options ?r" ?v] have "nothing_inside out" by simp
    with Inr s nil command_of_positioned [OF wrapperOptions_positioned [of args w], of out P w v']
    show ?thesis by (simp add: unwrap_def Let_def)
  qed
qed

text \<open>The command a wrapper is found to run is positioned in the wrapper's arguments: as many positions as
  words, in order and inside the arguments; the command is reported at the words it came from, also when a
  split string put other words in place of an option.\<close>

theorem unwrap_positioned:
  "length (u_innerAt (unwrap P w args)) = length (u_inner (unwrap P w args))
   \<and> sorted (u_innerAt (unwrap P w args)) \<and> list_all (\<lambda>a. a < length args) (u_innerAt (unwrap P w args))"
  using unwrap_inner_positioned [of args P w] by (simp add: positioned_def)

section \<open>The commands of find\<close>

lemma findCommandEnd_ge: "i < length args \<Longrightarrow> Suc i \<le> findCommandEnd args i"
  unfolding findCommandEnd_def by (rule conjunct1 [OF find_end_ge]) simp

lemma find_end_stops:
  "start \<le> j \<Longrightarrow> i \<le> j \<Longrightarrow> j < find_end p start args i \<Longrightarrow> \<not> HasPrefix (args ! j) '';''"
proof (induction p start args i rule: find_end.induct)
  case (1 p start args i)
  show ?case
  proof (cases "j = i")
    case True
    with "1.prems" show ?thesis by (subst (asm) find_end.simps) (auto split: if_splits)
  next
    case False
    then have "Suc i \<le> j" using "1.prems"(2) by simp
    moreover have "i < length args" "\<not> (HasPrefix (args ! i) '';'' \<or> args ! i = [BACKSLASH])"
      "\<not> (p \<and> args ! i = ''+'' \<and> start < i \<and> Contains (args ! (i - 1)) ''{}'')"
      "j < find_end p start args (Suc i)"
      using "1.prems" find_end_ge [of i args p start] False
      by (subst (asm) find_end.simps; force split: if_splits)+
    ultimately show ?thesis using "1.IH" "1.prems"(1) by blast
  qed
qed

definition find_command_at :: "string list \<Rightarrow> nat \<Rightarrow> string list \<Rightarrow> bool" where
  "find_command_at args i command =
     (i < length args \<and> args ! i \<in> set findCommandPrimaries \<and> command \<noteq> []
      \<and> prefix command (drop (Suc i) args) \<and> list_all (\<lambda>word. \<not> HasPrefix word '';'') command)"

lemma find_segment:
  assumes "i < length args" "args ! i \<in> set findCommandPrimaries"
    and "command = take (min (findCommandEnd args i) (length args) - Suc i) (drop (Suc i) args)" "command \<noteq> []"
  shows "find_command_at args i command"
proof -
  have "\<not> HasPrefix word '';''" if word: "word \<in> set command" for word
  proof -
    from word obtain k where k: "k < length command" "command ! k = word" by (auto simp: in_set_conv_nth)
    then have "Suc i + k < findCommandEnd args i" "word = args ! (Suc i + k)" using assms(3) by auto
    then show ?thesis by (auto simp: findCommandEnd_def dest: find_end_stops [rotated 2])
  qed
  with assms show ?thesis by (auto simp: find_command_at_def list_all_iff take_is_prefix)
qed

lemma find_from_sound: "command \<in> set (find_from args i) \<Longrightarrow> \<exists>j \<ge> i. find_command_at args j command"
proof (induction args i rule: find_from.induct)
  case (1 args i)
  have len: "i < length args" using "1.prems" by (subst (asm) find_from.simps) (simp split: if_splits)
  let ?c = "take (min (findCommandEnd args i) (length args) - Suc i) (drop (Suc i) args)"
  show ?case
  proof (cases "args ! i \<in> set findCommandPrimaries")
    case False
    with "1.prems" len have "command \<in> set (find_from args (Suc i))"
      by (subst (asm) find_from.simps) simp
    with "1.IH"(1) [OF len False] show ?thesis using Suc_leD by blast
  next
    case True
    have "i \<le> findCommandEnd args i" using findCommandEnd_ge [OF len] by simp
    with "1.prems" len True have "(command = ?c \<and> ?c \<noteq> []) \<or> command \<in> set (find_from args (Suc (findCommandEnd args i)))"
      by (subst (asm) find_from.simps) (auto simp: Let_def split: if_splits)
    then show ?thesis
    proof
      assume "command = ?c \<and> ?c \<noteq> []"
      with find_segment [OF len True] show ?thesis by blast
    next
      assume "command \<in> set (find_from args (Suc (findCommandEnd args i)))"
      with "1.IH"(2) [OF len _ refl refl refl] True \<open>i \<le> findCommandEnd args i\<close> show ?thesis
        by (meson Suc_leD le_trans)
    qed
  qed
qed

definition ends_find_command :: "string \<Rightarrow> bool" where
  "ends_find_command word = (HasPrefix word '';'' \<or> word = [BACKSLASH])"

lemma findCommandEnd_next:
  assumes "Suc i < length args" "\<not> ends_find_command (args ! Suc i)"
  shows "Suc i < findCommandEnd args i"
proof -
  have "find_end p (Suc i) args (Suc i) = find_end p (Suc i) args (Suc (Suc i))" for p
    using assms by (subst find_end.simps) (simp add: ends_find_command_def)
  moreover have "Suc (Suc i) \<le> find_end p (Suc i) args (Suc (Suc i))" for p
    using find_end_ge [of "Suc (Suc i)" args] assms(1) by simp
  ultimately show ?thesis by (simp add: findCommandEnd_def Suc_le_eq)
qed

lemma primary_no_end: "word \<in> set findCommandPrimaries \<Longrightarrow> \<not> ends_find_command word"
  by (auto simp: findCommandPrimaries_def ends_find_command_def)

lemma find_from_complete:
  assumes "i \<le> j" "Suc j < length args" "args ! j \<in> set findCommandPrimaries" "\<not> ends_find_command (args ! Suc j)"
  shows "find_from args i \<noteq> []"
  using assms
proof (induction args i rule: find_from.induct)
  case (1 args i)
  have len: "i < length args" using "1.prems"(1,2) by simp
  show ?case
  proof (cases "args ! i \<in> set findCommandPrimaries")
    case False
    with "1.prems" have "Suc i \<le> j" by (metis le_neq_implies_less Suc_leI)
    with "1.IH"(1) [OF len False] "1.prems" len False show ?thesis by (subst find_from.simps) simp
  next
    case True
    show ?thesis
    proof (cases "Suc i < findCommandEnd args i \<and> Suc i < length args")
      case True
      with len \<open>args ! i \<in> set findCommandPrimaries\<close> show ?thesis
        by (subst find_from.simps) (auto simp: Let_def min_def)
    next
      case False
      then have e: "findCommandEnd args i = Suc i \<or> length args \<le> Suc i"
        using findCommandEnd_ge [OF len] by linarith
      have "j \<noteq> i" using False findCommandEnd_next [of j args] "1.prems" by auto
      moreover have "j \<noteq> Suc i"
        using False findCommandEnd_next [of i args] primary_no_end [OF "1.prems"(3)] "1.prems"(2) by auto
      ultimately have "Suc (findCommandEnd args i) \<le> j" using e "1.prems"(1,2) by auto
      with "1.IH"(2) [OF len _ refl refl refl] True "1.prems"(2-4)
      have "find_from args (Suc (findCommandEnd args i)) \<noteq> []" by blast
      with len True show ?thesis by (subst find_from.simps) (simp add: Let_def)
    qed
  qed
qed

text \<open>Every command found in the arguments of find is a non-empty run of words right after a primary that
  runs commands, and holds no word that ends a command; and when none is found, no such primary is followed
  by a command word.\<close>

theorem findCommands_spec:
  "list_all (\<lambda>command. \<exists>i. find_command_at args i command) (findCommands args)
   \<and> (findCommands args = [] \<longrightarrow>
        (\<forall>j. Suc j < length args \<and> args ! j \<in> set findCommandPrimaries \<longrightarrow> ends_find_command (args ! Suc j)))"
  unfolding list_all_iff findCommands_def
  using find_from_sound find_from_complete [of 0] by blast

theorem findCommands_spec_witness:
  "findCommands [''.'', ''-exec'', '';''] = []
   \<and> list_all (\<lambda>command. \<exists>i. find_command_at [''.'', ''-exec'', '';''] i command) (findCommands [''.'', ''-exec'', '';''])
   \<and> ends_find_command '';''"
proof -
  have none: "findCommands [''.'', ''-exec'', '';''] = []"
    by (simp add: findCommands_def find_from.simps findCommandPrimaries_def findCommandEnd_def find_end.simps)
  from findCommands_spec [of "[''.'', ''-exec'', '';'']"] none
  have "\<forall>j. Suc j < length [''.'', ''-exec'', '';''] \<and> [''.'', ''-exec'', '';''] ! j \<in> set findCommandPrimaries \<longrightarrow>
      ends_find_command ([''.'', ''-exec'', '';''] ! Suc j)"
    and "list_all (\<lambda>command. \<exists>i. find_command_at [''.'', ''-exec'', '';''] i command) (findCommands [''.'', ''-exec'', '';''])"
    by blast+
  from this(1) [THEN spec, of 1] this(2) none show ?thesis by (simp add: findCommandPrimaries_def)
qed

section \<open>Argument combinations\<close>

lemma extend_foldm:
  "foldm (\<lambda>(combination, argument) next.
      if maxArgumentCommandLines \<le> length next then Inl () else Inr (next @ [combination @ [argument]])) ps acc
   = (if ps = [] \<or> length acc + length ps \<le> maxArgumentCommandLines
      then Inr (acc @ map (\<lambda>(c, a). c @ [a]) ps) else Inl ())"
  by (induction ps arbitrary: acc) (auto split: prod.splits)

lemma extend_combinations_eq:
  "combinations \<noteq> [] \<Longrightarrow> args \<noteq> [] \<Longrightarrow> extend_combinations combinations args =
     (if length combinations * length args \<le> maxArgumentCommandLines
      then Inr (map (\<lambda>(c, a). c @ [a]) (List.product combinations args)) else Inl ())"
  unfolding extend_combinations_def extend_foldm by (cases combinations; cases args) auto

text \<open>One argument of each source, in the order of the nested loops.\<close>

definition combine :: "string list list \<Rightarrow> string list list \<Rightarrow> string list list" where
  "combine combinations sources = concat (map (\<lambda>c. map (\<lambda>p. c @ p) (product_lists sources)) combinations)"

lemma combine_extend:
  "combine (map (\<lambda>(c, a). c @ [a]) (List.product combinations args)) sources = combine combinations (args # sources)"
proof -
  have "(@) (c @ [a]) = (\<lambda>p. c @ a # p)" for c and a :: string by (rule ext) simp
  then show ?thesis by (induction combinations) (simp_all add: combine_def map_concat o_def)
qed

definition combinable :: "inputSource \<Rightarrow> bool" where
  "combinable source = (\<not> src_files source \<and> src_words source \<noteq> [])"

definition combination_count :: "inputSource list \<Rightarrow> nat" where
  "combination_count sources = prod_list (map (\<lambda>source. length (src_words source)) sources)"

lemma combination_count_pos: "list_all combinable sources \<Longrightarrow> 1 \<le> combination_count sources"
  by (induction sources) (auto simp: combination_count_def combinable_def Suc_le_eq)

lemma combinations_foldm:
  assumes "combinations \<noteq> []" "length combinations \<le> maxArgumentCommandLines"
  shows "foldm (\<lambda>source combinations.
      if src_files source \<or> src_words source = [] then Inl ()
      else extend_combinations combinations (src_words source)) sources combinations
   = (if list_all combinable sources \<and> length combinations * combination_count sources \<le> maxArgumentCommandLines
      then Inr (combine combinations (map src_words sources)) else Inl ())"
  using assms
proof (induction sources arbitrary: combinations)
  case Nil
  then show ?case by (simp add: combine_def combination_count_def)
next
  case (Cons source sources)
  let ?next = "map (\<lambda>(c, a). c @ [a]) (List.product combinations (src_words source))"
  let ?n = "length combinations * length (src_words source)"
  show ?case
  proof (cases "combinable source \<and> ?n \<le> maxArgumentCommandLines")
    case True
    then have comb: "combinable source" by simp
    then have ne: "?next \<noteq> []" using Cons.prems by (cases combinations) (auto simp: combinable_def neq_Nil_conv)
    have len: "length ?next = ?n" by (simp add: length_product)
    have "extend_combinations combinations (src_words source) = Inr ?next"
      using True Cons.prems by (simp add: extend_combinations_eq combinable_def)
    with Cons.IH [OF ne] True len comb show ?thesis
      by (simp add: combinable_def combination_count_def combine_extend mult.assoc)
  next
    case False
    have bound: "?n \<le> ?n * combination_count sources" if "list_all combinable sources"
      using combination_count_pos [OF that] by simp
    have count: "length combinations * combination_count (source # sources) = ?n * combination_count sources"
      by (simp add: combination_count_def mult.assoc)
    have over: "\<not> (list_all combinable (source # sources)
        \<and> length combinations * combination_count (source # sources) \<le> maxArgumentCommandLines)"
    proof
      assume all: "list_all combinable (source # sources)
        \<and> length combinations * combination_count (source # sources) \<le> maxArgumentCommandLines"
      then have "list_all combinable sources" "combinable source" by simp_all
      with bound count all have "?n \<le> maxArgumentCommandLines" by (metis le_trans)
      with False \<open>combinable source\<close> show False by simp
    qed
    show ?thesis unfolding if_not_P [OF over]
      using False Cons.prems by (auto simp: extend_combinations_eq combinable_def)
  qed
qed

text \<open>The argument combinations are exactly the product of the sources, one argument from each in the
  order of the sources, when every source lists its arguments and there are at most 64 of them; otherwise
  nothing is listed.\<close>

theorem argumentCombinations_product:
  "argumentCombinations sources =
     (if sources \<noteq> [] \<and> list_all combinable sources \<and> combination_count sources \<le> maxArgumentCommandLines
      then Some (product_lists (map src_words sources)) else None)"
proof -
  have one: "[[]] \<noteq> ([] :: string list list)" "length [[] :: string list] \<le> maxArgumentCommandLines"
    by (simp_all add: maxArgumentCommandLines_def)
  have "(@) [] = (id :: string list \<Rightarrow> string list)" by (rule ext) simp
  then have "combine [[]] xs = product_lists xs" for xs by (simp add: combine_def)
  with combinations_foldm [OF one, of sources] show ?thesis
    unfolding argumentCombinations_def by auto
qed

end
