(* ===== verification/ShellGrammar.thy ===== *)
theory ShellGrammar
  imports Launchers
begin

text \<open>
  \<^verbatim>\<open>shell_grammar.go\<close> and the \<^verbatim>\<open>su\<close> part of \<^verbatim>\<open>command_launchers.go\<close>: which command strings a shell runs. A name such
  as \<^verbatim>\<open>sh\<close> may stand for several shells, so it is read with the grammar of each of them and everything any of
  them would run is reported. The loops of \<^verbatim>\<open>fishShellRun\<close> and \<^verbatim>\<open>suShellRun\<close> end because a reading that finds an
  option leaves fewer words.

  The lemmas show that the merged reading is the union of the grammars' readings, that a command reported as exact
  is all that any of the grammars runs, that the command string is found behind the end of the options,
  and that the command of \<^verbatim>\<open>su -c\<close> is always among those reported.
\<close>

section \<open>POSIX shells\<close>

record shellRun =
  run_commands :: "string list"
  run_opaque :: bool

definition run_script :: "shellRun \<Rightarrow> string \<times> bool" where
  "run_script r = (Join (run_commands r) [NEWLINE], run_commands r \<noteq> [])"

record posixShellGrammar =
  valueLetters :: string
  clusterValue :: bool
  longOptions :: "(string \<times> bool) list"
  leadingLong :: bool
  startupFiles :: "string list"
  breakLetter :: char
  plusEnds :: bool

definition zeroGrammar :: posixShellGrammar where
  "zeroGrammar = \<lparr>valueLetters = [], clusterValue = False, longOptions = [], leadingLong = False,
     startupFiles = [], breakLetter = NO_BYTE, plusEnds = False\<rparr>"

definition bashShellGrammar :: posixShellGrammar where
  "bashShellGrammar = zeroGrammar\<lparr>valueLetters := ''oO'',
     longOptions := [(''debug'', False), (''debugger'', False), (''dump-po-strings'', False),
       (''dump-strings'', False), (''help'', False), (''init-file'', True), (''login'', False), (''noediting'', False),
       (''noprofile'', False), (''norc'', False), (''posix'', False), (''pretty-print'', False), (''protected'', False),
       (''rcfile'', True), (''restricted'', False), (''verbose'', False), (''version'', False), (''wordexp'', False)],
     leadingLong := True,
     startupFiles := [''init-file'', ''rcfile'']\<rparr>"

definition dashShellGrammar :: posixShellGrammar where
  "dashShellGrammar = zeroGrammar\<lparr>valueLetters := ''o''\<rparr>"

definition zshShellGrammar :: posixShellGrammar where
  "zshShellGrammar = zeroGrammar\<lparr>valueLetters := ''o'', clusterValue := True,
     longOptions := [(''emulate'', True)], breakLetter := CHR ''b'', plusEnds := True\<rparr>"

definition zshAsShGrammar :: posixShellGrammar where
  "zshAsShGrammar = zeroGrammar\<lparr>valueLetters := ''o'', clusterValue := True,
     longOptions := [(''emulate'', True)], plusEnds := True\<rparr>"

definition kshShellGrammar :: posixShellGrammar where
  "kshShellGrammar = zeroGrammar\<lparr>valueLetters := ''oRT'', clusterValue := True\<rparr>"

record posixShellOptions =
  so_command :: bool
  so_letters :: string
  so_operands :: "string list"
  so_startup :: bool

definition no_options :: posixShellOptions where
  "no_options = \<lparr>so_command = False, so_letters = [], so_operands = [], so_startup = False\<rparr>"

definition shell_longOption :: "posixShellGrammar \<Rightarrow> string \<Rightarrow> bool \<Rightarrow> string option" where
  "shell_longOption g arg leading =
     (case CutPrefix arg ''--'' of
        Some name \<Rightarrow> Some name
      | None \<Rightarrow> if map_of (longOptions g) (tl arg) \<noteq> None \<and> leadingLong g \<and> leading \<and> hd arg = CHR ''-''
                then Some (tl arg) else None)"

text \<open>
  The inner loop of \<^verbatim>\<open>read\<close> over the letters of one word; \<open>sign\<close> is the first byte of the word and \<open>rest\<close> the words
  after it. \<^const>\<open>Inl\<close> is the return when a value is missing; otherwise the options, \<^verbatim>\<open>stop\<close> and the words that are left.
\<close>

fun read_letters :: "posixShellGrammar \<Rightarrow> char \<Rightarrow> string \<Rightarrow> string list \<Rightarrow> posixShellOptions \<Rightarrow> bool
  \<Rightarrow> posixShellOptions + posixShellOptions \<times> bool \<times> string list" where
  "read_letters g sign [] rest out stop = Inr (out, stop, rest)"
| "read_letters g sign (letter # ls) rest out stop =
     (if letter = CHR ''c'' then read_letters g sign ls rest (out\<lparr>so_command := True\<rparr>) stop
      else if letter \<in> set (valueLetters g) then
        (if clusterValue g \<and> ls \<noteq> [] then Inr (out, stop, rest)
         else (case rest of [] \<Rightarrow> Inl out | _ # rest' \<Rightarrow> read_letters g sign ls rest' out stop))
      else if breakLetter g \<noteq> NO_BYTE \<and> letter = breakLetter g then read_letters g sign ls rest out True
      else if sign = CHR ''-'' then
        read_letters g sign ls rest (out\<lparr>so_letters := so_letters out @ encode_rune (Some (byte letter))\<rparr>) stop
      else read_letters g sign ls rest out stop)"

lemma read_letters_suffix: "read_letters g sign ls rest out stop = Inr (out', stop', rest') \<Longrightarrow> suffix rest' rest"
  by (induction g sign ls rest out stop rule: read_letters.induct)
    (auto split: if_splits list.splits intro: suffix_ConsI)

function read_loop :: "posixShellGrammar \<Rightarrow> posixShellOptions \<Rightarrow> bool \<Rightarrow> string list \<Rightarrow> posixShellOptions" where
  "read_loop g out leading [] = out"
| "read_loop g out leading (arg # rest) =
     (if arg = ''-'' \<or> arg = ''--'' \<or> (arg = ''+'' \<and> plusEnds g) then out\<lparr>so_operands := rest\<rparr>
      else if arg = [] \<or> (hd arg \<noteq> CHR ''-'' \<and> hd arg \<noteq> CHR ''+'') then out\<lparr>so_operands := arg # rest\<rparr>
      else (case shell_longOption g arg leading of
          Some name \<Rightarrow>
            if map_of (longOptions g) name = Some True then
              (case rest of [] \<Rightarrow> out
               | _ # rest' \<Rightarrow> read_loop g (out\<lparr>so_startup := so_startup out \<or> name \<in> set (startupFiles g)\<rparr>) leading rest')
            else read_loop g out leading rest
        | None \<Rightarrow>
            (case read_letters g (hd arg) (tl arg) rest out False of
               Inl out' \<Rightarrow> out'
             | Inr (out', stop, rest') \<Rightarrow>
                 if stop then out'\<lparr>so_operands := rest'\<rparr> else read_loop g out' False rest')))"
  by pat_completeness auto
termination
  by (relation "measure (\<lambda>(g, out, leading, args). length args)")
    (auto dest!: read_letters_suffix suffix_length_le)

declare read_loop.simps [simp del]

definition shell_read :: "posixShellGrammar \<Rightarrow> string list \<Rightarrow> posixShellOptions" where
  "shell_read g args = read_loop g no_options True args"

definition shell_run :: "posixShellGrammar \<Rightarrow> string list \<Rightarrow> shellRun" where
  "shell_run g args = (let options = shell_read g args in
     \<lparr>run_commands = (if so_command options \<and> so_operands options \<noteq> [] then [Join (so_operands options) '' ''] else []),
      run_opaque = so_startup options \<or> \<not> so_command options \<or> so_operands options = []\<rparr>)"

section \<open>csh and fish\<close>

definition opaqueRun :: shellRun where
  "opaqueRun = \<lparr>run_commands = [], run_opaque = True\<rparr>"

fun cshShellRun :: "string list \<Rightarrow> shellRun" where
  "cshShellRun [] = opaqueRun"
| "cshShellRun (arg # rest) =
     (if length arg < 2 \<or> hd arg \<noteq> CHR ''-'' then opaqueRun
      else if CHR ''c'' \<in> set (tl arg) then
        (if rest \<noteq> [] then \<lparr>run_commands = [Join rest '' ''], run_opaque = False\<rparr> else opaqueRun)
      else if CHR ''b'' \<in> set (tl arg) then opaqueRun
      else cshShellRun rest)"

definition fishShellOptions :: prefixWrapper where
  "fishShellOptions = zeroWrapper\<lparr>
     valueFlags := [''-c'', ''--command'', ''-C'', ''--init-command'', ''-d'', ''--debug'', ''-o'', ''--debug-output'',
       ''-f'', ''--features'', ''-p'', ''--profile'', ''--profile-startup'', ''-D'', ''--debug-stack-frames''],
     longFlags := [''--interactive'', ''--login'', ''--no-config'', ''--no-execute'', ''--private'',
       ''--print-rusage-self'', ''--print-debug-categories'', ''--help'', ''--version''],
     scriptFlags := [''-c'', ''--command'', ''-C'', ''--init-command'']\<rparr>"

text \<open>One turn of the loop of \<^verbatim>\<open>fishShellRun\<close>: the last option read, when it runs a command string.\<close>

definition fish_option :: "string list \<Rightarrow> wrapperOption option" where
  "fish_option words =
     (let reading = wrapperOptions fishShellOptions words in
      if r_options reading = [] then None
      else (let option = last (r_options reading) in
            if opt_name option \<in> set (scriptFlags fishShellOptions) \<and> hasValue option then Some option else None))"

lemma fish_option_shorter:
  "fish_option words = Some option \<Longrightarrow> length (r_rest (wrapperOptions fishShellOptions words)) < length words"
  by (rule wrapperOptions_shorter)
    (auto simp: fishShellOptions_def zeroWrapper_def fish_option_def Let_def split: if_splits)

function fish_loop :: "string list \<Rightarrow> shellRun \<Rightarrow> bool \<Rightarrow> shellRun" where
  "fish_loop words run command =
     (case fish_option words of
        None \<Rightarrow> run\<lparr>run_opaque := \<not> command\<rparr>
      | Some option \<Rightarrow>
          let rest = r_rest (wrapperOptions fishShellOptions words) in
          fish_loop rest (run\<lparr>run_commands := run_commands run @ [Join (opt_value option # rest) '' '']\<rparr>)
            (command \<or> opt_name option = ''-c'' \<or> opt_name option = ''--command''))"
  by pat_completeness auto
termination
  by (relation "measure (\<lambda>(words, run, command). length words)") (auto simp: fish_option_shorter)

declare fish_loop.simps [simp del]

definition fishShellRun :: "string list \<Rightarrow> shellRun" where
  "fishShellRun args = fish_loop args \<lparr>run_commands = [], run_opaque = False\<rparr> False"

section \<open>Names and their grammars\<close>

definition posixShellGrammars :: "string \<Rightarrow> posixShellGrammar list" where
  "posixShellGrammars name =
     (case map_of [(''sh'', [bashShellGrammar, dashShellGrammar, zshAsShGrammar, kshShellGrammar]),
        (''bash'', [bashShellGrammar]),
        (''dash'', [dashShellGrammar]), (''ash'', [dashShellGrammar]), (''hush'', [dashShellGrammar]),
        (''zsh'', [zshShellGrammar]),
        (''ksh'', [kshShellGrammar]), (''mksh'', [kshShellGrammar])] name of
        None \<Rightarrow> [] | Some grammars \<Rightarrow> grammars)"

definition shellGrammars :: "string \<Rightarrow> (string list \<Rightarrow> shellRun) list" where
  "shellGrammars name =
     (case map_of [(''csh'', [cshShellRun]), (''tcsh'', [cshShellRun]), (''fish'', [fishShellRun])] name of
        None \<Rightarrow> [] | Some grammars \<Rightarrow> grammars) @ map shell_run (posixShellGrammars name)"

definition loginShellGrammars :: "(string list \<Rightarrow> shellRun) list" where
  "loginShellGrammars = [shell_run bashShellGrammar, shell_run dashShellGrammar, shell_run zshShellGrammar,
     shell_run zshAsShGrammar, shell_run kshShellGrammar, cshShellRun, fishShellRun]"

definition add_command :: "string list \<Rightarrow> string \<Rightarrow> string list" where
  "add_command commands command = (if command \<in> set commands then commands else commands @ [command])"

definition merge_run :: "shellRun \<Rightarrow> shellRun \<Rightarrow> shellRun" where
  "merge_run reading run =
     \<lparr>run_commands = foldl add_command (run_commands reading) (run_commands run),
      run_opaque = run_opaque reading \<or> run_opaque run\<rparr>"

definition readShellGrammars :: "(string list \<Rightarrow> shellRun) list \<Rightarrow> string list \<Rightarrow> shellRun" where
  "readShellGrammars grammars args =
     foldl (\<lambda>reading grammar. merge_run reading (grammar args)) \<lparr>run_commands = [], run_opaque = False\<rparr> grammars"

definition readShell :: "string \<Rightarrow> string list \<Rightarrow> shellRun" where
  "readShell name args = readShellGrammars (shellGrammars name) args"

text \<open>
  \<^verbatim>\<open>exactShellCommand\<close>; \<^const>\<open>None\<close> is the result with \<^verbatim>\<open>false\<close>. The first grammar of the loop has no command to agree with.
\<close>

fun exact_loop :: "posixShellGrammar list \<Rightarrow> string list \<Rightarrow> string option \<Rightarrow> string option option" where
  "exact_loop [] args command = Some command"
| "exact_loop (g # gs) args command =
     (let options = shell_read g args in
      if \<not> so_command options \<or> so_startup options \<or> length (so_operands options) \<noteq> 1
         \<or> (command \<noteq> None \<and> command \<noteq> Some (hd (so_operands options)))
      then None else exact_loop gs args (Some (hd (so_operands options))))"

definition exactShellCommand :: "string \<Rightarrow> string list \<Rightarrow> string option" where
  "exactShellCommand name args =
     (case exact_loop (posixShellGrammars name) args None of
        Some (Some command) \<Rightarrow> if TrimSpace command \<noteq> [] then Some command else None
      | _ \<Rightarrow> None)"

section \<open>su\<close>

definition suOptions :: prefixWrapper where
  "suOptions = zeroWrapper\<lparr>
     valueFlags := [''-c'', ''--command'', ''--session-command'', ''-g'', ''--group'', ''-G'', ''--supp-group'',
       ''-s'', ''--shell'', ''-w'', ''--whitelist-environment''],
     scriptFlags := [''-c'', ''--command'', ''--session-command''],
     longFlags := [''--fast'', ''--login'', ''--preserve-environment'', ''--pty'', ''--help'', ''--version'']\<rparr>"

definition su_script :: "wrapperOption list \<Rightarrow> wrapperOption option" where
  "su_script os = List.find (\<lambda>option. opt_name option \<in> set (scriptFlags suOptions) \<and> hasValue option) os"

definition su_command :: "string \<Rightarrow> string list \<Rightarrow> shellRun" where
  "su_command value rest =
     (let run = readShellGrammars loginShellGrammars (''-c'' # value # rest) in
      run\<lparr>run_commands := add_command (run_commands run) (Join (value # rest) '' '')\<rparr>)"

function su_loop :: "string list \<Rightarrow> shellRun option" where
  "su_loop words =
     (if words = [] then None
      else (let reading = wrapperOptions suOptions words in
            case su_script (r_options reading) of
              Some option \<Rightarrow> Some (su_command (opt_value option) (r_rest reading))
            | None \<Rightarrow> if r_rest reading = [] then None else su_loop (tl (r_rest reading))))"
  by pat_completeness auto
termination
proof (relation "measure length", goal_cases)
  case (2 words reading)
  then have "suffix (r_rest reading) words"
    using wrapperOptions_suffix [of suOptions words] by (simp add: suOptions_def zeroWrapper_def)
  then have "length (r_rest reading) \<le> length words" by (rule suffix_length_le)
  with "2" show ?case by (cases "r_rest reading") auto
qed simp

declare su_loop.simps [simp del]

definition suShellRun :: "string list \<Rightarrow> shellRun" where
  "suShellRun args =
     (case su_loop args of
        Some run \<Rightarrow> run
      | None \<Rightarrow> (let login = r_rest (wrapperOptions suOptions args) in
                 if login = [] then opaqueRun else readShellGrammars loginShellGrammars (tl login)))"

definition runuserRunsCommand :: "string list \<Rightarrow> bool" where
  "runuserRunsCommand args =
     (case prefixWrappers ''runuser'' of
        None \<Rightarrow> False
      | Some w \<Rightarrow> list_ex (\<lambda>option. opt_name option = ''-u'' \<or> opt_name option = ''--user'')
                    (r_options (wrapperOptions w args)))"


section \<open>Merged readings\<close>

lemma set_add_command [simp]: "set (add_command cs c) = insert c (set cs)"
  by (auto simp: add_command_def)

lemma add_command_nonempty [simp]: "add_command cs c \<noteq> []"
  by (auto simp: add_command_def)

lemma set_add_commands [simp]: "set (foldl add_command cs ds) = set cs \<union> set ds"
  by (induction ds arbitrary: cs) auto

lemma distinct_add_commands: "distinct cs \<Longrightarrow> distinct (foldl add_command cs ds)"
  by (induction ds arbitrary: cs) (auto simp: add_command_def)

lemma merge_runs:
  fixes grammars :: "(string list \<Rightarrow> shellRun) list" and r :: shellRun and args :: "string list"
  defines "out \<equiv> foldl (\<lambda>reading grammar. merge_run reading (grammar args)) r grammars"
  shows "set (run_commands out) = set (run_commands r) \<union> (\<Union>g \<in> set grammars. set (run_commands (g args)))
    \<and> (distinct (run_commands r) \<longrightarrow> distinct (run_commands out))
    \<and> run_opaque out = (run_opaque r \<or> (\<exists>g \<in> set grammars. run_opaque (g args)))"
  unfolding out_def
  by (induction grammars arbitrary: r) (auto simp: merge_run_def distinct_add_commands)

text \<open>Reading a shell with several grammars reports exactly the commands that one of them runs, each once,
  and is opaque exactly when one of them is.\<close>

theorem readShellGrammars_union:
  "set (run_commands (readShellGrammars grammars args)) = (\<Union>g \<in> set grammars. set (run_commands (g args)))
   \<and> distinct (run_commands (readShellGrammars grammars args))
   \<and> run_opaque (readShellGrammars grammars args) = (\<exists>g \<in> set grammars. run_opaque (g args))"
  using merge_runs [where grammars = grammars and args = args and r = "\<lparr>run_commands = [], run_opaque = False\<rparr>"]
  by (simp add: readShellGrammars_def)

section \<open>Nothing runs unseen\<close>

text \<open>
  What the users of a grammar rely on: a reading shows a command or says that it does not show everything.
\<close>

definition visible_run :: "shellRun \<Rightarrow> bool" where
  "visible_run r = (run_opaque r \<or> run_commands r \<noteq> [])"

locale shell_grammar =
  fixes run :: "string list \<Rightarrow> shellRun"
  assumes visible: "visible_run (run args)"
begin

lemma not_opaque_shows: "\<not> run_opaque (run args) \<Longrightarrow> run_commands (run args) \<noteq> []"
  using visible by (auto simp: visible_run_def)

lemma merged_visible: "visible_run (merge_run r (run args))"
proof (cases "run_opaque (run args)")
  case False
  then have "set (run_commands (merge_run r (run args))) \<noteq> {}"
    using not_opaque_shows by (auto simp: merge_run_def)
  then show ?thesis by (auto simp: visible_run_def)
qed (simp add: merge_run_def visible_run_def)

lemma in_reading_visible: "run \<in> set grammars \<Longrightarrow> visible_run (readShellGrammars grammars args)"
proof (cases "run_opaque (run args)")
  case True
  moreover assume "run \<in> set grammars"
  ultimately show ?thesis
    using merge_runs [where grammars = grammars and args = args and r = "\<lparr>run_commands = [], run_opaque = False\<rparr>"]
    by (auto simp: visible_run_def readShellGrammars_def)
next
  case False
  moreover assume "run \<in> set grammars"
  ultimately have "set (run_commands (readShellGrammars grammars args)) \<noteq> {}"
    using not_opaque_shows [of args]
      merge_runs [where grammars = grammars and args = args and r = "\<lparr>run_commands = [], run_opaque = False\<rparr>"]
    by (auto simp: readShellGrammars_def)
  then show ?thesis by (auto simp: visible_run_def)
qed

end

lemma opaqueRun_visible [simp]: "visible_run opaqueRun"
  by (simp add: visible_run_def opaqueRun_def)

interpretation posix: shell_grammar "shell_run g" for g
  by unfold_locales (auto simp: visible_run_def shell_run_def Let_def)

lemma csh_visible: "visible_run (cshShellRun args)"
  by (induction args) (auto simp: visible_run_def opaqueRun_def)

interpretation csh: shell_grammar cshShellRun
  by unfold_locales (rule csh_visible)

lemma fish_loop_visible: "(command \<longrightarrow> run_commands run \<noteq> []) \<Longrightarrow> visible_run (fish_loop words run command)"
proof (induction words run command rule: fish_loop.induct)
  case (1 words run command)
  show ?case
  proof (cases "fish_option words")
    case None
    with "1.prems" show ?thesis by (simp add: fish_loop.simps visible_run_def)
  next
    case (Some option)
    then show ?thesis using "1.IH" [OF Some refl] by (subst fish_loop.simps) (simp add: Let_def)
  qed
qed

interpretation fish: shell_grammar fishShellRun
  by unfold_locales (simp add: fishShellRun_def fish_loop_visible)

lemma login_visible: "visible_run (readShellGrammars loginShellGrammars args)"
  by (rule csh.in_reading_visible) (simp add: loginShellGrammars_def)

lemma su_command_visible: "visible_run (su_command value rest)"
  by (simp add: visible_run_def su_command_def Let_def)

lemma su_loop_visible: "su_loop words = Some run \<Longrightarrow> visible_run run"
proof (induction words rule: su_loop.induct)
  case (1 words)
  from "1.prems" have ne: "words \<noteq> []" by (subst (asm) su_loop.simps) (simp split: if_splits)
  show ?case
  proof (cases "su_script (r_options (wrapperOptions suOptions words))")
    case None
    with "1.prems" ne have "r_rest (wrapperOptions suOptions words) \<noteq> []"
      and "su_loop (tl (r_rest (wrapperOptions suOptions words))) = Some run"
      by (subst (asm) su_loop.simps; simp add: Let_def split: if_splits)+
    with "1.IH" [OF ne refl None] show ?thesis by simp
  next
    case (Some option)
    with "1.prems" ne show ?thesis
      by (subst (asm) su_loop.simps) (auto simp: Let_def su_command_visible)
  qed
qed

interpretation su: shell_grammar suShellRun
  by unfold_locales
    (auto simp: suShellRun_def Let_def login_visible dest: su_loop_visible split: option.splits)

lemma shell_reading_visible:
  assumes "shellGrammars name \<noteq> []"
  shows "visible_run (readShellGrammars (shellGrammars name) args)"
proof -
  have grammars: "g = cshShellRun \<or> g = fishShellRun \<or> (\<exists>p. g = shell_run p)" if "g \<in> set (shellGrammars name)" for g
    using that by (auto simp: shellGrammars_def split: if_splits)
  from assms obtain g where g: "g \<in> set (shellGrammars name)" by (cases "shellGrammars name") auto
  with grammars [OF g] show ?thesis
    using csh.in_reading_visible fish.in_reading_visible posix.in_reading_visible by blast
qed

text \<open>A shell never runs anything unseen: whatever its arguments, reading a shell's invocation shows a command
  string or reports that it does not show everything.\<close>

theorem readShell_visible:
  assumes "shellGrammars name \<noteq> []"
  shows "visible_run (readShell name args)"
  unfolding readShell_def using assms by (rule shell_reading_visible)

theorem readShell_visible_witness: "visible_run (readShell ''sh'' [''deploy.sh''])"
  by (rule readShell_visible) (simp add: shellGrammars_def posixShellGrammars_def)

section \<open>Exact commands\<close>

definition exact_options :: "posixShellOptions \<Rightarrow> string \<Rightarrow> bool" where
  "exact_options options command = (so_command options \<and> \<not> so_startup options \<and> so_operands options = [command])"

lemma exact_loop_Some:
  "exact_loop gs args (Some c) = Some r \<Longrightarrow> r = Some c \<and> list_all (\<lambda>g. exact_options (shell_read g args) c) gs"
proof (induction gs)
  case (Cons g gs)
  then have "exact_options (shell_read g args) c" and "exact_loop gs args (Some c) = Some r"
    by (auto simp: Let_def exact_options_def length_Suc_conv split: if_splits)
  with Cons.IH show ?case by simp
qed simp

lemma exact_loop_start:
  "exact_loop gs args None = Some (Some c) \<Longrightarrow> gs \<noteq> [] \<and> list_all (\<lambda>g. exact_options (shell_read g args) c) gs"
proof (cases gs)
  case (Cons g gs')
  assume "exact_loop gs args None = Some (Some c)"
  with Cons obtain d where d: "exact_options (shell_read g args) d" and "exact_loop gs' args (Some d) = Some (Some c)"
    by (auto simp: Let_def exact_options_def length_Suc_conv split: if_splits)
  with exact_loop_Some [of gs' args d "Some c"] Cons show ?thesis by simp
qed simp

lemma exact_run: "exact_options (shell_read g args) c \<Longrightarrow> shell_run g args = \<lparr>run_commands = [c], run_opaque = False\<rparr>"
  by (simp add: exact_options_def shell_run_def Let_def)

lemma merge_same:
  assumes "\<forall>g \<in> set gs. g args = \<lparr>run_commands = [c], run_opaque = False\<rparr>"
  shows "foldl (\<lambda>reading grammar. merge_run reading (grammar args)) \<lparr>run_commands = [c], run_opaque = False\<rparr> gs
    = \<lparr>run_commands = [c], run_opaque = False\<rparr>"
  using assms by (induction gs) (simp_all add: merge_run_def add_command_def)

lemma posix_only:
  "posixShellGrammars name \<noteq> [] \<Longrightarrow> shellGrammars name = map shell_run (posixShellGrammars name)"
  by (auto simp: shellGrammars_def posixShellGrammars_def split: if_splits)

text \<open>C31. A command reported as exact is all that runs: every grammar the shell's name stands for runs that one
  command string and nothing else, so the merged reading is that string, and it is not blank.\<close>

theorem exactShellCommand_sound:
  assumes "exactShellCommand name args = Some command"
  shows "readShell name args = \<lparr>run_commands = [command], run_opaque = False\<rparr> \<and> TrimSpace command \<noteq> []"
proof -
  from assms have loop: "exact_loop (posixShellGrammars name) args None = Some (Some command)"
    and blank: "TrimSpace command \<noteq> []"
    by (auto simp: exactShellCommand_def split: option.splits if_splits)
  from exact_loop_start [OF loop] have ne: "posixShellGrammars name \<noteq> []"
    and all: "\<forall>g \<in> set (posixShellGrammars name). shell_run g args = \<lparr>run_commands = [command], run_opaque = False\<rparr>"
    by (auto simp: list_all_iff exact_run)
  from ne obtain g gs where gs: "posixShellGrammars name = g # gs" by (cases "posixShellGrammars name") auto
  then have "readShell name args = foldl (\<lambda>reading grammar. merge_run reading (grammar args))
      \<lparr>run_commands = [command], run_opaque = False\<rparr> (map shell_run gs)"
    using all by (simp add: readShell_def readShellGrammars_def posix_only [OF ne] merge_run_def add_command_def)
  also have "\<dots> = \<lparr>run_commands = [command], run_opaque = False\<rparr>"
    by (rule merge_same) (use all gs in simp)
  finally show ?thesis using blank by simp
qed

section \<open>The end of the options\<close>

lemma read_dash_c:
  assumes "\<not> leadingLong g \<or> map_of (longOptions g) ''c'' = None"
  shows "read_loop g out leading (''-c'' # rest) = read_loop g (out\<lparr>so_command := True\<rparr>) False rest"
  using assms by (auto simp: read_loop.simps(2) shell_longOption_def CutPrefix_def)

lemma read_end: "read_loop g out leading (''--'' # rest) = out\<lparr>so_operands := rest\<rparr>"
  by (simp add: read_loop.simps(2))

lemma posix_grammar_c:
  "g \<in> set (posixShellGrammars name) \<Longrightarrow> map_of (longOptions g) ''c'' = None"
  by (auto simp: posixShellGrammars_def bashShellGrammar_def dashShellGrammar_def zshShellGrammar_def
      zshAsShGrammar_def kshShellGrammar_def zeroGrammar_def split: if_splits)

lemma exact_loop_all:
  "list_all (\<lambda>g. exact_options (shell_read g args) c) gs \<Longrightarrow> m = None \<or> m = Some c \<Longrightarrow>
   exact_loop gs args m = Some (if gs = [] then m else Some c)"
  by (induction gs arbitrary: m) (auto simp: Let_def exact_options_def)

text \<open>After \<^verbatim>\<open>-c --\<close> every POSIX shell runs the next word, whatever it begins with, and no grammar reads it as
  an option: \<^verbatim>\<open>sh -c -- CMD\<close> is the command string itself.\<close>

theorem command_after_end_of_options:
  assumes "posixShellGrammars name \<noteq> []" and "TrimSpace command \<noteq> []"
  shows "exactShellCommand name [''-c'', ''--'', command] = Some command"
proof -
  have "exact_options (shell_read g [''-c'', ''--'', command]) command" if "g \<in> set (posixShellGrammars name)" for g
    using read_dash_c [of g no_options True "[''--'', command]"] posix_grammar_c [OF that]
    by (simp add: shell_read_def read_end exact_options_def no_options_def)
  then have "list_all (\<lambda>g. exact_options (shell_read g [''-c'', ''--'', command]) command) (posixShellGrammars name)"
    by (simp add: list_all_iff)
  from exact_loop_all [OF this, of None] assms show ?thesis by (simp add: exactShellCommand_def)
qed

theorem command_after_end_of_options_witness:
  "exactShellCommand ''sh'' [''-c'', ''--'', ''-x''] = Some ''-x''"
proof (rule command_after_end_of_options)
  show "TrimSpace ''-x'' \<noteq> []"
    by (rule TrimSpace_ascii_nonempty) (simp_all add: byte_def is_space_def)
qed (simp add: posixShellGrammars_def)

theorem exactShellCommand_sound_witness:
  "readShell ''sh'' [''-c'', ''ls''] = \<lparr>run_commands = [''ls''], run_opaque = False\<rparr> \<and> TrimSpace ''ls'' \<noteq> []"
proof (rule exactShellCommand_sound)
  have "TrimSpace ''ls'' \<noteq> []" by (rule TrimSpace_ascii_nonempty) (simp_all add: byte_def is_space_def)
  then show "exactShellCommand ''sh'' [''-c'', ''ls''] = Some ''ls''"
    by (simp add: exactShellCommand_def posixShellGrammars_def shell_read_def read_loop.simps shell_longOption_def
        CutPrefix_def bashShellGrammar_def dashShellGrammar_def zshAsShGrammar_def kshShellGrammar_def
        zeroGrammar_def no_options_def)
qed

text \<open>The command of \<^verbatim>\<open>su -c\<close> is reported as it is, besides what the login shells make of it.\<close>

lemma su_command_reported: "Join (value # rest) '' '' \<in> set (run_commands (su_command value rest))"
  unfolding su_command_def Let_def by simp

end
