(* ===== verification/CommandIdentity.thy ===== *)
theory CommandIdentity
  imports ShellGrammar
begin

text \<open>
  \<^verbatim>\<open>command_identity.go\<close> and \<^verbatim>\<open>homebrew_gnu.go\<close>: which program a simple command runs, and which commands a payload runs.
  \<open>identify_step\<close> is one turn of the loop of \<^verbatim>\<open>identifyCommand\<close>; the loop ends because a turn that goes on adds a layer
  and layers are bounded. \<open>with_script\<close>, \<open>shellCommands\<close> and \<open>fieldCommands\<close> are the three mutually recursive readers; they
  end because nested scripts are bounded. A reader returns the commands it appends.

  The parsed file is \<^const>\<open>Parse\<close> of the parameter \<open>P\<close>: its statements in the order of the walk, each with the
  words and the files that \<^verbatim>\<open>shellWord\<close>, \<^verbatim>\<open>shellAssignWord\<close> and \<^verbatim>\<open>shellWriteTargets\<close> take from the syntax tree.

  The lemmas show the bounds, that leading assignments and wrappers never hide the program, that a shell always
  shows its script or is opaque, that every segment of a payload and every script below it is read, and that a
  payload that backs a remembered class runs no shell and no program through a wrapper that changes who runs it.
\<close>

section \<open>Program names\<close>

definition gnuCoreutils :: "string list" where
  "gnuCoreutils =
    [''['', ''arch'', ''b2sum'', ''base32'', ''base64'', ''basename'', ''basenc'', ''cat'', ''chcon'',
     ''chgrp'', ''chmod'', ''chown'', ''chroot'', ''cksum'', ''comm'', ''coreutils'', ''cp'', ''csplit'',
     ''cut'', ''date'', ''dd'', ''df'', ''dir'', ''dircolors'', ''dirname'', ''du'', ''echo'', ''env'',
     ''expand'', ''expr'', ''factor'', ''false'', ''fmt'', ''fold'', ''groups'', ''head'', ''hostid'',
     ''hostname'', ''id'', ''install'', ''join'', ''kill'', ''link'', ''ln'', ''logname'', ''ls'',
     ''md5sum'', ''mkdir'', ''mkfifo'', ''mknod'', ''mktemp'', ''mv'', ''nice'', ''nl'', ''nohup'',
     ''nproc'', ''numfmt'', ''od'', ''paste'', ''pathchk'', ''pinky'', ''pr'', ''printenv'', ''printf'',
     ''ptx'', ''pwd'', ''readlink'', ''realpath'', ''rm'', ''rmdir'', ''runcon'', ''seq'', ''sha1sum'',
     ''sha224sum'', ''sha256sum'', ''sha384sum'', ''sha512sum'', ''shred'', ''shuf'', ''sleep'', ''sort'',
     ''split'', ''stat'', ''stdbuf'', ''stty'', ''sum'', ''sync'', ''tac'', ''tail'', ''tee'', ''test'',
     ''timeout'', ''touch'', ''tr'', ''true'', ''truncate'', ''tsort'', ''tty'', ''uname'', ''unexpand'',
     ''uniq'', ''unlink'', ''uptime'', ''users'', ''vdir'', ''wc'', ''who'', ''whoami'', ''yes'']"

definition gnuFindutils :: "string list" where
  "gnuFindutils =
    [''find'', ''xargs'', ''locate'', ''updatedb'']"

definition gnuInetutils :: "string list" where
  "gnuInetutils =
    [''dnsdomainname'', ''ftp'', ''hostname'', ''ifconfig'', ''logger'', ''ping'', ''ping6'', ''rcp'',
     ''rexec'', ''rlogin'', ''rsh'', ''talk'', ''telnet'', ''tftp'', ''traceroute'', ''whois'']"

definition gnuTextutils :: "string list" where
  "gnuTextutils =
    [''sed'', ''tar'', ''grep'', ''egrep'', ''fgrep'', ''make'', ''awk'', ''indent'', ''which'',
     ''libtool'', ''libtoolize'', ''units'', ''ed'', ''red'']"

definition homebrewGNUPrograms :: "string list" where
  "homebrewGNUPrograms = gnuCoreutils @ gnuFindutils @ [''time''] @ gnuInetutils @ gnuTextutils"

definition programName :: "shell_syntax \<Rightarrow> string \<Rightarrow> string" where
  "programName P word0 =
     (let word = ReplaceAll word0 [BACKSLASH] [] in
      if word = [] then []
      else (let name = ToLower (lower_table P) (Base word) in
            case CutPrefix name ''g'' of
              Some gnu \<Rightarrow> if gnu \<in> set homebrewGNUPrograms then gnu else name
            | None \<Rightarrow> name))"

definition is_assignment :: "string \<Rightarrow> bool" where
  "is_assignment word = (assignmentName word \<noteq> None)"

text \<open>\<^verbatim>\<open>segmentProgram\<close>; \<^const>\<open>None\<close> when the segment only assigns.\<close>

definition segmentProgram :: "string list \<Rightarrow> nat option" where
  "segmentProgram seg_words =
     (let i = length (takeWhile is_assignment seg_words) in if i < length seg_words then Some i else None)"

definition declarationBuiltins :: "string list" where
  "declarationBuiltins = [''export'', ''declare'', ''typeset'', ''readonly'', ''local'']"

definition codeInjectionVariables :: "string list" where
  "codeInjectionVariables = [''LD_PRELOAD'', ''LD_LIBRARY_PATH'', ''LD_AUDIT'',
     ''DYLD_INSERT_LIBRARIES'', ''DYLD_LIBRARY_PATH'', ''DYLD_FRAMEWORK_PATH'',
     ''DYLD_FALLBACK_LIBRARY_PATH'', ''DYLD_FALLBACK_FRAMEWORK_PATH'',
     ''NODE_OPTIONS'', ''PYTHONSTARTUP'', ''PERL5OPT'', ''PERL5LIB'', ''RUBYOPT'',
     ''BASH_ENV'', ''ZDOTDIR'', ''GIT_EXEC_PATH'']"

definition pythonPathVariable :: string where
  "pythonPathVariable = ''PYTHONPATH''"

definition shellStartupVariable :: string where
  "shellStartupVariable = ''ENV''"

record injectionReaders =
  ir_python :: bool
  ir_interactiveShell :: bool

definition reads :: "injectionReaders \<Rightarrow> string \<Rightarrow> bool" where
  "reads r variable =
     (if variable = pythonPathVariable then ir_python r
      else if variable = shellStartupVariable then ir_interactiveShell r
      else variable \<in> set codeInjectionVariables)"

definition pythonProgram :: "string \<Rightarrow> bool" where
  "pythonProgram name = (HasPrefix name ''python'' \<or> HasPrefix name ''pypy'')"

definition startupFileShells :: "string list" where
  "startupFileShells = [''sh'', ''dash'', ''ksh'', ''mksh'', ''bash'', ''zsh'', ''ash'']"

definition classNeutralWrappers :: "string list" where
  "classNeutralWrappers = [''exec'', ''time'', ''command'', ''builtin'', ''nice'', ''ionice'', ''nohup'', ''timeout'', ''stdbuf'']"

section \<open>Identification\<close>

record commandLayer =
  Assigns :: "string list"
  Word :: string
  Name :: string
  Args :: "string list"
  Inner :: "string list"
  layer_index :: nat

record commandIdentity =
  Layers :: "commandLayer list"
  Script :: string
  HasScript :: bool
  Nested :: "string list list"
  Opaque :: bool
  Replaced :: replacementSet

definition noLayer :: commandLayer where
  "noLayer = \<lparr>Assigns = [], Word = [], Name = [], Args = [], Inner = [], layer_index = 0\<rparr>"

definition noIdentity :: commandIdentity where
  "noIdentity = \<lparr>Layers = [], Script = [], HasScript = False, Nested = [], Opaque = False, Replaced = noReplacement\<rparr>"

definition argv :: "commandLayer \<Rightarrow> string list" where
  "argv l = (if Word l = [] then [] else Word l # Args l)"

definition program :: "commandIdentity \<Rightarrow> commandLayer" where
  "program i = (if Layers i = [] then noLayer else last (Layers i))"

text \<open>\<^verbatim>\<open>interactiveShell\<close> of \<^verbatim>\<open>shell_grammar.go\<close>.\<close>

definition interactiveShell :: "commandLayer \<Rightarrow> bool" where
  "interactiveShell l = (Name l \<in> set startupFileShells
     \<and> list_ex (\<lambda>g. let options = shell_read g (Args l) in
          list_ex (\<lambda>c. c \<in> set ''is'') (so_letters options) \<or> (\<not> so_command options \<and> so_operands options = []))
        (posixShellGrammars (Name l)))"

definition maxWrapperDepth :: nat where
  "maxWrapperDepth = 8"

definition add_layer :: "commandLayer \<Rightarrow> commandIdentity \<Rightarrow> commandIdentity" where
  "add_layer l i = i\<lparr>Layers := Layers i @ [l]\<rparr>"

text \<open>The shell branch: what a shell, su or runuser without \<^verbatim>\<open>-u\<close> runs.\<close>

definition runs_shell :: "commandLayer \<Rightarrow> bool" where
  "runs_shell l = (shellGrammars (Name l) \<noteq> [] \<or> Name l = ''su'' \<or> (Name l = ''runuser'' \<and> \<not> runuserRunsCommand (Args l)))"

definition identify_shell :: "commandLayer \<Rightarrow> commandIdentity \<Rightarrow> commandIdentity" where
  "identify_shell l i =
     (let run = (if shellGrammars (Name l) \<noteq> [] then readShell (Name l) (Args l) else suShellRun (Args l)) in
      (add_layer l i)\<lparr>Script := fst (run_script run), HasScript := snd (run_script run),
        Opaque := Opaque i \<or> run_opaque run\<rparr>)"

definition identify_eval :: "commandLayer \<Rightarrow> commandIdentity \<Rightarrow> commandIdentity" where
  "identify_eval l i =
     (if Args l \<noteq> [] then (add_layer l i)\<lparr>Script := Join (Args l) '' '', HasScript := True\<rparr> else add_layer l i)"

text \<open>
  The wrapper branch below the depth bound: what the wrapper runs is a script, nothing that is visible, or the words
  the loop goes on with. \<open>base\<close> is the index of the wrapper's first argument.
\<close>

definition identify_wrapper :: "shell_syntax \<Rightarrow> prefixWrapper \<Rightarrow> nat list \<Rightarrow> nat \<Rightarrow> commandLayer \<Rightarrow> commandIdentity
  \<Rightarrow> commandIdentity + commandIdentity \<times> nat list \<times> string list" where
  "identify_wrapper P w at base l i =
     (let u = unwrap P w (Args l);
          l' = l\<lparr>Assigns := Assigns l @ u_assigns u, Inner := u_inner u\<rparr>;
          i' = (add_layer l' i)\<lparr>Replaced := rs_union (Replaced i) (u_replaced u)\<rparr>
      in if u_hasScript u then Inl (i'\<lparr>Script := u_script u, HasScript := True\<rparr>)
         else if u_inner u = [] then Inl (i'\<lparr>Opaque := Opaque i \<or> \<not> (bareRunsNothing w \<or> u_runsNothing u)\<rparr>)
         else Inr (i', map (\<lambda>arg. at ! (base + arg)) (u_innerAt u), u_inner u))"

definition identify_program :: "shell_syntax \<Rightarrow> nat list \<Rightarrow> nat \<Rightarrow> commandLayer \<Rightarrow> commandIdentity
  \<Rightarrow> commandIdentity + commandIdentity \<times> nat list \<times> string list" where
  "identify_program P at base l i =
     (if runs_shell l then Inl (identify_shell l i)
      else if Name l = ''find'' then Inl ((add_layer l i)\<lparr>Nested := findCommands (Args l)\<rparr>)
      else if Name l = ''eval'' then Inl (identify_eval l i)
      else (case prefixWrappers (Name l) of
          None \<Rightarrow> Inl (add_layer l i)
        | Some w \<Rightarrow>
            if maxWrapperDepth \<le> length (Layers i) + 1 then Inl ((add_layer l i)\<lparr>Opaque := True\<rparr>)
            else identify_wrapper P w at base l i))"

definition identify_step :: "shell_syntax \<Rightarrow> nat \<Rightarrow> commandIdentity \<Rightarrow> nat list \<Rightarrow> string list
  \<Rightarrow> commandIdentity + commandIdentity \<times> nat list \<times> string list" where
  "identify_step P end i at words =
     (let k = length (takeWhile is_assignment words) in
      if k = length words then
        Inl (add_layer (noLayer\<lparr>Assigns := words, layer_index := end\<rparr>) i)
      else
        (let l = \<lparr>Assigns = take k words, Word = words ! k, Name = programName P (words ! k),
                  Args = drop (Suc k) words, Inner = [], layer_index = at ! k\<rparr>
         in identify_program P at (Suc k) l (i\<lparr>Opaque := Opaque i \<or> replaces (Replaced i) (words ! k)\<rparr>)))"

lemma identify_step_layers:
  assumes "identify_step P end i at words = Inr (i', at', words')"
  shows "length (Layers i) + 1 < maxWrapperDepth \<and> length (Layers i') = Suc (length (Layers i))"
  using assms
  by (auto simp: identify_step_def identify_program_def identify_wrapper_def add_layer_def Let_def
      split: if_splits option.splits)

function identify_loop :: "shell_syntax \<Rightarrow> nat \<Rightarrow> commandIdentity \<Rightarrow> nat list \<Rightarrow> string list \<Rightarrow> commandIdentity" where
  "identify_loop P end i at words =
     (case identify_step P end i at words of
        Inl i' \<Rightarrow> i' | Inr (i', at', words') \<Rightarrow> identify_loop P end i' at' words')"
  by pat_completeness auto
termination
  by (relation "measure (\<lambda>(P, end, i, at, words). maxWrapperDepth - length (Layers i))")
    (auto dest!: identify_step_layers)

declare identify_loop.simps [simp del]

definition identifyCommand :: "shell_syntax \<Rightarrow> string list \<Rightarrow> commandIdentity" where
  "identifyCommand P words = identify_loop P (length words) noIdentity [0..<length words] words"

section \<open>What an identity says\<close>

text \<open>\<^verbatim>\<open>printfVariable\<close>; \<^const>\<open>None\<close> is the result with \<^verbatim>\<open>false\<close>.\<close>

definition printfVariable :: "string list \<Rightarrow> (string \<times> string) option" where
  "printfVariable args =
     (case args of
        [] \<Rightarrow> None
      | a # rest \<Rightarrow>
          if \<not> HasPrefix a ''-v'' then None
          else (let value_of = (\<lambda>rest. if rest \<noteq> [] then hd rest else []); name = TrimPrefix a ''-v'' in
                if name = [] then
                  (case rest of [] \<Rightarrow> None | n # rest' \<Rightarrow> Some (n, value_of rest'))
                else Some (name, value_of rest)))"

definition assignments :: "commandIdentity \<Rightarrow> string list" where
  "assignments i =
     concat (map Assigns (Layers i))
     @ (if Name (program i) \<in> set declarationBuiltins then filter is_assignment (Args (program i)) else [])
     @ (if Name (program i) = ''printf'' then
          (case printfVariable (Args (program i)) of None \<Rightarrow> [] | Some (name, value) \<Rightarrow> [name @ ''='' @ value])
        else [])"

definition assigned_name :: "string \<Rightarrow> string" where
  "assigned_name word = (case assignmentName word of None \<Rightarrow> [] | Some name \<Rightarrow> name)"

definition codeInjection :: "commandIdentity \<Rightarrow> injectionReaders \<Rightarrow> string" where
  "codeInjection i readers =
     (case List.find (\<lambda>a. reads readers (assigned_name a)) (assignments i) of
        None \<Rightarrow> [] | Some a \<Rightarrow> assigned_name a)"

definition redirectsProgramResolution :: "commandIdentity \<Rightarrow> bool" where
  "redirectsProgramResolution i =
     (list_ex (\<lambda>a. assigned_name a = ''PATH'') (assignments i)
      \<or> codeInjection i \<lparr>ir_python = True, ir_interactiveShell = False\<rparr> \<noteq> [])"

definition boundsNoClass :: "commandIdentity \<Rightarrow> bool" where
  "boundsNoClass i = (HasScript i \<or> Nested i \<noteq> []
     \<or> list_ex (\<lambda>l. Name l \<notin> set classNeutralWrappers) (butlast (Layers i)))"

section \<open>Reading a payload\<close>

record readCommand =
  rc_id :: commandIdentity
  rc_dynamic :: "bool list"
  rc_fallback :: bool
  rc_writes :: "string list"

definition dynamicWord :: "readCommand \<Rightarrow> nat \<Rightarrow> bool" where
  "dynamicWord c k = (k < length (rc_dynamic c) \<and> rc_dynamic c ! k)"

definition anyDynamic :: "readCommand \<Rightarrow> bool" where
  "anyDynamic c = list_ex (\<lambda>d. d) (rc_dynamic c)"

definition raise_opaque :: "bool \<Rightarrow> readCommand \<Rightarrow> readCommand" where
  "raise_opaque b c = c\<lparr>rc_id := (rc_id c)\<lparr>Opaque := Opaque (rc_id c) \<or> b\<rparr>\<rparr>"

definition separator_rune :: "nat option \<Rightarrow> bool" where
  "separator_rune r = (r \<in> {Some 59, Some 124, Some 38, Some 10, Some 96, Some 40, Some 41})"

definition splitTopLevelSegments :: "string \<Rightarrow> string list" where
  "splitTopLevelSegments s = map (\<lambda>r. concat (map snd r)) (runs (\<lambda>x. separator_rune (fst x)) (chunks s))"

text \<open>\<^verbatim>\<open>strings.Map\<close> drops the quotes and writes an invalid byte as U+FFFD.\<close>

definition shellFields :: "string \<Rightarrow> string list" where
  "shellFields seg = Fields (of_runes (filter (\<lambda>r. r \<noteq> Some 39 \<and> r \<noteq> Some 34) (runes seg)))"

definition maxScriptDepth :: nat where
  "maxScriptDepth = 4"

text \<open>A command found in the arguments of another program (\<^verbatim>\<open>find -exec\<close>).\<close>

definition nested_command :: "shell_syntax \<Rightarrow> string list \<Rightarrow> readCommand" where
  "nested_command P words =
     (let i = identifyCommand P words; word = Word (program i) in
      raise_opaque (list_ex (\<lambda>c. c = CHR ''$'' \<or> c = CHR 0x60) word \<or> Contains word ''{}'')
        \<lparr>rc_id = i, rc_dynamic = [], rc_fallback = True, rc_writes = []\<rparr>)"

definition field_command :: "shell_syntax \<Rightarrow> string list \<Rightarrow> readCommand" where
  "field_command P seg_words = \<lparr>rc_id = identifyCommand P seg_words, rc_dynamic = [], rc_fallback = True, rc_writes = []\<rparr>"

definition stmt_command :: "shell_syntax \<Rightarrow> shell_stmt \<Rightarrow> readCommand" where
  "stmt_command P s =
     (let i = identifyCommand P (map fst (stmt_words s));
          c = \<lparr>rc_id = i, rc_dynamic = map snd (stmt_words s), rc_fallback = False, rc_writes = stmt_writes s\<rparr>
      in raise_opaque (dynamicWord c (layer_index (program i))) c)"

definition inherit_replaced :: "replacementSet \<Rightarrow> readCommand \<Rightarrow> readCommand" where
  "inherit_replaced r c =
     (let u = rs_union r (Replaced (rc_id c)) in
      raise_opaque (replaces u (Word (program (rc_id c)))) (c\<lparr>rc_id := (rc_id c)\<lparr>Replaced := u\<rparr>\<rparr>))"

definition too_deep :: "readCommand \<Rightarrow> nat \<Rightarrow> bool" where
  "too_deep c depth = ((HasScript (rc_id c) \<or> Nested (rc_id c) \<noteq> []) \<and> maxScriptDepth \<le> depth)"

text \<open>
  The commands that \<^verbatim>\<open>appendWithScript\<close> appends for one command (\<open>with_script\<close>; the flag says whether scripts are
  parsed as shell first), \<^verbatim>\<open>shellCommands\<close> with \<^const>\<open>None\<close> for a payload that does not parse, and \<^verbatim>\<open>fieldCommands\<close>.
\<close>

function (sequential) with_script :: "shell_syntax \<Rightarrow> readCommand \<Rightarrow> nat \<Rightarrow> bool \<Rightarrow> readCommand list"
  and shellCommands :: "shell_syntax \<Rightarrow> string \<Rightarrow> nat \<Rightarrow> readCommand list option"
  and fieldCommands :: "shell_syntax \<Rightarrow> string \<Rightarrow> nat \<Rightarrow> readCommand list" where
  "with_script P c depth shell =
     (if too_deep c depth then [raise_opaque True c]
      else
        (let nested = concat (map (\<lambda>words. with_script P (nested_command P words) (Suc depth) shell) (Nested (rc_id c)));
             script = (if HasScript (rc_id c) then
                 (case (if shell then shellCommands P (Script (rc_id c)) (Suc depth) else None) of
                    Some commands \<Rightarrow> commands
                  | None \<Rightarrow> fieldCommands P (Script (rc_id c)) (Suc depth))
               else []);
             below = nested @ script
         in c # (if rs_empty (Replaced (rc_id c)) then below
                 else map (inherit_replaced (Replaced (rc_id c))) below)))"
| "shellCommands P payload depth =
     (case Parse P payload of
        None \<Rightarrow> None
      | Some stmts \<Rightarrow> Some (concat (map (\<lambda>s. with_script P (stmt_command P s) depth True)
          (filter (\<lambda>s. stmt_words s \<noteq> [] \<or> stmt_writes s \<noteq> []) stmts))))"
| "fieldCommands P payload depth =
     concat (map (\<lambda>seg_words. with_script P (field_command P seg_words) depth False)
       (filter (\<lambda>seg_words. seg_words \<noteq> []) (map shellFields (splitTopLevelSegments payload))))"
  by pat_completeness auto
termination
  by (relation "measure (\<lambda>x. case x of
        Inl (P, c, depth, shell) \<Rightarrow> 2 * (Suc maxScriptDepth - depth)
      | Inr (Inl (P, payload, depth)) \<Rightarrow> Suc (2 * (Suc maxScriptDepth - depth))
      | Inr (Inr (P, payload, depth)) \<Rightarrow> Suc (2 * (Suc maxScriptDepth - depth)))")
    (auto simp: too_deep_def)

declare with_script.simps [simp del] shellCommands.simps [simp del] fieldCommands.simps [simp del]

definition appendWithScript :: "shell_syntax \<Rightarrow> readCommand list \<Rightarrow> readCommand \<Rightarrow> nat \<Rightarrow> bool \<Rightarrow> readCommand list" where
  "appendWithScript P commands c depth shell = commands @ with_script P c depth shell"

definition parsed_commands :: "shell_syntax \<Rightarrow> string \<Rightarrow> nat \<Rightarrow> readCommand list" where
  "parsed_commands P payload depth = (case shellCommands P payload depth of None \<Rightarrow> [] | Some commands \<Rightarrow> commands)"

definition effectiveCommands :: "shell_syntax \<Rightarrow> string \<Rightarrow> readCommand list" where
  "effectiveCommands P payload = parsed_commands P payload 0 @ fieldCommands P payload 0"

definition preparationCommands :: "shell_syntax \<Rightarrow> string \<Rightarrow> nat \<Rightarrow> readCommand list" where
  "preparationCommands P payload depth =
     (case shellCommands P payload depth of Some commands \<Rightarrow> commands | None \<Rightarrow> fieldCommands P payload depth)"

definition unbounded_command :: "readCommand \<Rightarrow> bool" where
  "unbounded_command c = (Opaque (rc_id c) \<or> redirectsProgramResolution (rc_id c) \<or> boundsNoClass (rc_id c))"

definition expandCommandSegments :: "shell_syntax \<Rightarrow> string \<Rightarrow> nat \<Rightarrow> string list list \<times> bool" where
  "expandCommandSegments P cmd depth =
     (map (\<lambda>c. argv (program (rc_id c)))
        (filter (\<lambda>c. argv (program (rc_id c)) \<noteq> [] \<and> \<not> HasScript (rc_id c)) (fieldCommands P cmd depth)),
      list_ex unbounded_command (fieldCommands P cmd depth) \<or> list_ex unbounded_command (parsed_commands P cmd depth))"


section \<open>Bounds and positions\<close>

lemma identify_program_Inl_layers:
  "identify_program P at base l i = Inl i' \<Longrightarrow> length (Layers i') = Suc (length (Layers i))"
  by (auto simp: identify_program_def identify_wrapper_def identify_shell_def identify_eval_def add_layer_def Let_def
      split: if_splits option.splits)

lemma identify_step_Inl_layers:
  "identify_step P n i at words = Inl i' \<Longrightarrow> length (Layers i') = Suc (length (Layers i))"
  by (auto simp: identify_step_def Let_def add_layer_def dest: identify_program_Inl_layers split: if_splits)

text \<open>What every turn keeps holds when the loop is left.\<close>

lemma identify_loop_rule:
  assumes "I i at words"
    and "\<And>i at words i'. I i at words \<Longrightarrow> identify_step P n i at words = Inl i' \<Longrightarrow> Q i'"
    and "\<And>i at words i' at' words'. I i at words \<Longrightarrow> identify_step P n i at words = Inr (i', at', words') \<Longrightarrow> I i' at' words'"
  shows "Q (identify_loop P n i at words)"
  using assms
proof (induction P n i at words rule: identify_loop.induct)
  case (1 P n i at words)
  show ?case
  proof (cases "identify_step P n i at words")
    case (Inl i')
    with "1.prems"(1,2) have "Q i'" by blast
    with Inl show ?thesis by (subst identify_loop.simps) simp
  next
    case (Inr t)
    obtain i' at' words' where t: "t = (i', at', words')" by (cases t) auto
    with Inr "1.prems"(1,3) have "I i' at' words'" by blast
    with "1.IH" [OF Inr t [symmetric] refl] "1.prems"(2,3) have "Q (identify_loop P n i' at' words')" by blast
    with Inr t show ?thesis by (subst identify_loop.simps) simp
  qed
qed

text \<open>Identification always ends and names a program: the identity of any words has at least one and at most
  eight layers, however the wrappers are nested.\<close>

theorem identifyCommand_bounded:
  "1 \<le> length (Layers (identifyCommand P words)) \<and> length (Layers (identifyCommand P words)) \<le> maxWrapperDepth"
  unfolding identifyCommand_def
proof (rule identify_loop_rule [where I = "\<lambda>i at words. length (Layers i) < maxWrapperDepth"])
  show "length (Layers noIdentity) < maxWrapperDepth" by (simp add: noIdentity_def maxWrapperDepth_def)
qed (auto dest: identify_step_Inl_layers identify_step_layers)

definition indexed :: "nat \<Rightarrow> commandLayer \<Rightarrow> bool" where
  "indexed n l = (layer_index l < n \<or> (Word l = [] \<and> layer_index l = n))"

definition indexed_all :: "nat \<Rightarrow> commandIdentity \<Rightarrow> bool" where
  "indexed_all n i = list_all (indexed n) (Layers i)"

lemma indexed_add_layer: "indexed_all n (add_layer l i) = (indexed_all n i \<and> indexed n l)"
  by (simp add: indexed_all_def add_layer_def)

lemma indexed_Inner: "indexed n (l\<lparr>Assigns := a, Inner := b\<rparr>) = indexed n l"
  by (simp add: indexed_def)

lemma indexed_all_update:
  "indexed_all n (i\<lparr>Opaque := a\<rparr>) = indexed_all n i" "indexed_all n (i\<lparr>Replaced := b\<rparr>) = indexed_all n i"
  "indexed_all n (i\<lparr>Script := c\<rparr>) = indexed_all n i" "indexed_all n (i\<lparr>HasScript := d\<rparr>) = indexed_all n i"
  "indexed_all n (i\<lparr>Nested := e\<rparr>) = indexed_all n i"
  by (simp_all add: indexed_all_def)

lemma unwrapped_positions:
  assumes "positioned n words at" "k < length words"
  shows "positioned n (u_inner (unwrap P w (drop (Suc k) words)))
    (map (\<lambda>arg. at ! (Suc k + arg)) (u_innerAt (unwrap P w (drop (Suc k) words))))"
proof -
  let ?u = "unwrap P w (drop (Suc k) words)"
  have inner: "positioned (length words - Suc k) (u_inner ?u) (u_innerAt ?u)"
    using unwrap_inner_positioned [of "drop (Suc k) words" P w] by simp
  have range: "Suc k + arg < length at" if "arg \<in> set (u_innerAt ?u)" for arg
    using that inner assms by (auto simp: positioned_def list_all_iff)
  have "sorted (map (\<lambda>arg. at ! (Suc k + arg)) (u_innerAt ?u))"
    using inner assms(1) range
    by (auto simp: positioned_def sorted_iff_nth_mono sorted_nth_mono)
  then show ?thesis using inner assms range by (auto simp: positioned_def list_all_iff)
qed

lemma identify_program_indexed:
  assumes "indexed_all n i" "indexed n l"
  shows "case identify_program P at base l i of Inl i' \<Rightarrow> indexed_all n i' | Inr (i', _) \<Rightarrow> indexed_all n i'"
  using assms
  by (auto simp: identify_program_def identify_wrapper_def identify_shell_def identify_eval_def Let_def
      indexed_add_layer indexed_all_update indexed_Inner split: option.splits)

lemma identify_program_words:
  assumes "identify_program P at base l i = Inr (i', at', words')"
  shows "\<exists>w. words' = u_inner (unwrap P w (Args l))
    \<and> at' = map (\<lambda>arg. at ! (base + arg)) (u_innerAt (unwrap P w (Args l)))"
  using assms
  by (auto simp: identify_program_def identify_wrapper_def Let_def split: if_splits option.splits)

lemma identify_step_indexed:
  assumes pos: "positioned n words at" and all: "indexed_all n i"
  shows "case identify_step P n i at words of Inl i' \<Rightarrow> indexed_all n i'
    | Inr (i', at', words') \<Rightarrow> indexed_all n i' \<and> positioned n words' at'"
proof -
  define k where "k = length (takeWhile is_assignment words)"
  show ?thesis
  proof (cases "k = length words")
    case True
    then have "identify_step P n i at words = Inl (add_layer (noLayer\<lparr>Assigns := words, layer_index := n\<rparr>) i)"
      by (simp add: identify_step_def k_def)
    with all show ?thesis by (simp add: indexed_add_layer indexed_def noLayer_def)
  next
    case False
    then have len: "k < length words" using length_takeWhile_le [of is_assignment words] by (simp add: k_def)
    define l where "l = \<lparr>Assigns = take k words, Word = words ! k, Name = programName P (words ! k),
      Args = drop (Suc k) words, Inner = [], layer_index = at ! k\<rparr>"
    define j where "j = i\<lparr>Opaque := Opaque i \<or> replaces (Replaced i) (words ! k)\<rparr>"
    have step: "identify_step P n i at words = identify_program P at (Suc k) l j"
      using False by (simp add: identify_step_def k_def [symmetric] l_def j_def Let_def)
    have "indexed n l" using pos len by (simp add: indexed_def l_def positioned_def list_all_length)
    moreover have "indexed_all n j" using all by (simp add: j_def indexed_all_update)
    ultimately have prog: "case identify_program P at (Suc k) l j of Inl i' \<Rightarrow> indexed_all n i' | Inr (i', _) \<Rightarrow> indexed_all n i'"
      using identify_program_indexed by blast
    have "positioned n words' at'" if "identify_program P at (Suc k) l j = Inr (i', at', words')" for i' at' words'
      using identify_program_words [OF that] unwrapped_positions [OF pos len] by (auto simp: l_def)
    with prog show ?thesis unfolding step by (auto split: sum.splits)
  qed
qed

text \<open>Every program word that identification finds has its place in the words that were given: the index of a
  layer is in range, or is the end for a command that only assigns; so the index arithmetic of nested
  wrappers cannot leave the words, and the run-time marks of the right word are read.\<close>

theorem identifyCommand_indexed:
  "list_all (indexed (length words)) (Layers (identifyCommand P words))"
proof -
  let ?n = "length words"
  have "indexed_all ?n (identifyCommand P words)"
    unfolding identifyCommand_def
  proof (rule identify_loop_rule [where I = "\<lambda>i at ws. indexed_all ?n i \<and> positioned ?n ws at"])
    show "indexed_all ?n noIdentity \<and> positioned ?n words [0..<?n]"
      by (auto simp: indexed_all_def noIdentity_def positioned_def list_all_iff)
  next
    fix i at ws i' assume "indexed_all ?n i \<and> positioned ?n ws at" "identify_step P ?n i at ws = Inl i'"
    then show "indexed_all ?n i'" using identify_step_indexed [of ?n ws at i P] by simp
  next
    fix i at ws i' at' ws'
    assume "indexed_all ?n i \<and> positioned ?n ws at" "identify_step P ?n i at ws = Inr (i', at', ws')"
    then show "indexed_all ?n i' \<and> positioned ?n ws' at'" using identify_step_indexed [of ?n ws at i P] by simp
  qed
  then show ?thesis by (simp add: indexed_all_def)
qed

section \<open>Assignments before the program\<close>

text \<open>What identification says of a command apart from its assignments and positions.\<close>

definition seen :: "commandIdentity \<Rightarrow> (string \<times> string \<times> string list) list \<times> string \<times> bool \<times> string list list \<times> bool \<times> replacementSet" where
  "seen i = (map (\<lambda>l. (Word l, Name l, Args l)) (Layers i), Script i, HasScript i, Nested i, Opaque i, Replaced i)"

definition same_turn :: "commandIdentity + commandIdentity \<times> nat list \<times> string list
  \<Rightarrow> commandIdentity + commandIdentity \<times> nat list \<times> string list \<Rightarrow> bool" where
  "same_turn t t' = (case (t, t') of
     (Inl i, Inl j) \<Rightarrow> seen i = seen j
   | (Inr (i, _, ws), Inr (j, _, ws')) \<Rightarrow> seen i = seen j \<and> ws = ws'
   | _ \<Rightarrow> False)"

lemma seen_add_layer:
  "seen i = seen j \<Longrightarrow> Word l = Word m \<Longrightarrow> Name l = Name m \<Longrightarrow> Args l = Args m \<Longrightarrow>
   seen (add_layer l i) = seen (add_layer m j)"
  by (simp add: seen_def add_layer_def)

lemma seen_update:
  assumes "seen i = seen j"
  shows "seen (i\<lparr>Opaque := a\<rparr>) = seen (j\<lparr>Opaque := a\<rparr>)" "seen (i\<lparr>Replaced := b\<rparr>) = seen (j\<lparr>Replaced := b\<rparr>)"
    "seen (i\<lparr>Script := c\<rparr>) = seen (j\<lparr>Script := c\<rparr>)" "seen (i\<lparr>HasScript := d\<rparr>) = seen (j\<lparr>HasScript := d\<rparr>)"
    "seen (i\<lparr>Nested := e\<rparr>) = seen (j\<lparr>Nested := e\<rparr>)"
  using assms by (simp_all add: seen_def)

lemma seen_parts:
  assumes "seen i = seen j"
  shows "Opaque i = Opaque j" "Replaced i = Replaced j" "length (Layers i) = length (Layers j)"
  using assms map_eq_imp_length_eq by (simp_all add: seen_def) blast

lemma identify_wrapper_same:
  assumes "seen i = seen j" "Word l = Word m" "Name l = Name m" "Args l = Args m"
  shows "same_turn (identify_wrapper P w at base l i) (identify_wrapper P w at' base' m j)"
proof -
  define u where "u = unwrap P w (Args m)"
  define p where "p = (add_layer (l\<lparr>Assigns := Assigns l @ u_assigns u, Inner := u_inner u\<rparr>) i)
      \<lparr>Replaced := rs_union (Replaced j) (u_replaced u)\<rparr>"
  define q where "q = (add_layer (m\<lparr>Assigns := Assigns m @ u_assigns u, Inner := u_inner u\<rparr>) j)
      \<lparr>Replaced := rs_union (Replaced j) (u_replaced u)\<rparr>"
  have pq: "seen p = seen q"
    unfolding p_def q_def by (intro seen_update(2) seen_add_layer) (use assms in simp_all)
  note parts = seen_parts [OF assms(1)]
  show ?thesis
    unfolding identify_wrapper_def assms(4) parts Let_def u_def [symmetric] p_def [symmetric] q_def [symmetric]
    using seen_update(1) [OF pq] seen_update(4) [OF seen_update(3) [OF pq]] pq by (simp add: same_turn_def)
qed

lemma identify_shell_same:
  assumes "seen i = seen j" "Word l = Word m" "Name l = Name m" "Args l = Args m"
  shows "seen (identify_shell l i) = seen (identify_shell m j)"
  unfolding identify_shell_def Let_def assms(3,4) seen_parts [OF assms(1)]
  by (intro seen_update seen_add_layer assms)

lemma identify_eval_same:
  assumes "seen i = seen j" "Word l = Word m" "Name l = Name m" "Args l = Args m"
  shows "seen (identify_eval l i) = seen (identify_eval m j)"
  unfolding identify_eval_def assms(4)
  using seen_update(4) [OF seen_update(3) [OF seen_add_layer [OF assms]]] seen_add_layer [OF assms] by simp

lemma identify_program_same:
  assumes "seen i = seen j" "Word l = Word m" "Name l = Name m" "Args l = Args m"
  shows "same_turn (identify_program P at base l i) (identify_program P at' base' m j)"
proof -
  have shell: "runs_shell l = runs_shell m" using assms by (simp add: runs_shell_def)
  note facts = seen_update(1,5) [OF seen_add_layer [OF assms]] seen_add_layer [OF assms]
    identify_shell_same [OF assms] identify_eval_same [OF assms]
  have Inl: "seen a = seen b \<Longrightarrow> same_turn (Inl a) (Inl b)" for a b by (simp add: same_turn_def)
  show ?thesis
    unfolding identify_program_def shell assms(3,4) seen_parts(3) [OF assms(1)]
    using facts identify_wrapper_same [OF assms] by (auto intro: Inl split: option.splits)
qed

lemma identify_step_same:
  assumes same: "seen i = seen j" and pre: "list_all is_assignment as"
  shows "same_turn (identify_step P n i at (as @ words)) (identify_step P n' j at' words)"
proof -
  let ?k = "length (takeWhile is_assignment words)"
  have tw: "takeWhile is_assignment (as @ words) = as @ takeWhile is_assignment words"
    using pre by (simp add: list_all_iff)
  show ?thesis
  proof (cases "?k = length words")
    case True
    with tw same show ?thesis by (simp add: identify_step_def same_turn_def seen_def add_layer_def noLayer_def)
  next
    case False
    define l where "l = \<lparr>Assigns = take (length as + ?k) (as @ words), Word = words ! ?k, Name = programName P (words ! ?k),
      Args = drop (Suc ?k) words, Inner = [], layer_index = at ! (length as + ?k)\<rparr>"
    define m where "m = \<lparr>Assigns = take ?k words, Word = words ! ?k, Name = programName P (words ! ?k),
      Args = drop (Suc ?k) words, Inner = [], layer_index = at' ! ?k\<rparr>"
    have "identify_step P n i at (as @ words) = identify_program P at (Suc (length as + ?k)) l
        (i\<lparr>Opaque := Opaque i \<or> replaces (Replaced i) (words ! ?k)\<rparr>)"
      using False by (simp add: identify_step_def tw l_def Let_def nth_append Suc_diff_le)
    moreover have "identify_step P n' j at' words = identify_program P at' (Suc ?k) m
        (j\<lparr>Opaque := Opaque j \<or> replaces (Replaced j) (words ! ?k)\<rparr>)"
      using False by (simp add: identify_step_def m_def Let_def)
    moreover have "seen (i\<lparr>Opaque := Opaque i \<or> replaces (Replaced i) (words ! ?k)\<rparr>)
        = seen (j\<lparr>Opaque := Opaque j \<or> replaces (Replaced j) (words ! ?k)\<rparr>)"
      using same by (simp add: seen_def)
    ultimately show ?thesis by (simp add: identify_program_same l_def m_def)
  qed
qed

lemma identify_loop_same:
  "seen i = seen j \<Longrightarrow> list_all is_assignment as \<Longrightarrow>
   seen (identify_loop P n i at (as @ words)) = seen (identify_loop P n' j at' words)"
proof (induction P n' j at' words arbitrary: as i at rule: identify_loop.induct)
  case (1 P n' j at' words)
  have same: "same_turn (identify_step P n i at (as @ words)) (identify_step P n' j at' words)"
    using "1.prems" by (rule identify_step_same)
  show ?case
  proof (cases "identify_step P n' j at' words")
    case (Inl j')
    with same obtain i' where "identify_step P n i at (as @ words) = Inl i'" "seen i' = seen j'"
      by (auto simp: same_turn_def split: sum.splits)
    with Inl show ?thesis by (simp add: identify_loop.simps)
  next
    case (Inr t)
    obtain j' at2 ws where t: "t = (j', at2, ws)" by (cases t) auto
    with same Inr obtain i' at1 where i': "identify_step P n i at (as @ words) = Inr (i', at1, ws)" "seen i' = seen j'"
      by (auto simp: same_turn_def split: sum.splits)
    from "1.IH" [OF Inr t [symmetric] refl i'(2), of "[]"] have
      "seen (identify_loop P n i' at1 ws) = seen (identify_loop P n' j' at2 ws)" by simp
    with Inr t i' show ?thesis by (subst (1 2) identify_loop.simps) simp
  qed
qed

text \<open>C32. Assignments never decide which program a command runs: with any number of \<^verbatim>\<open>NAME=value\<close> words in front, the
  same programs, arguments, script and nested commands are found, and the command is opaque in the same cases.\<close>

theorem assignments_hide_nothing:
  assumes "list_all is_assignment as"
  shows "seen (identifyCommand P (as @ words)) = seen (identifyCommand P words)"
  unfolding identifyCommand_def by (rule identify_loop_same) (use assms in simp_all)


section \<open>Wrappers without options\<close>

text \<open>A wrapper that runs the words after it as they are: no operands, no duration, no joining.\<close>

definition plain_wrapper :: "prefixWrapper \<Rightarrow> bool" where
  "plain_wrapper w = (operands w = 0 \<and> \<not> duration w \<and> \<not> joinsScript w \<and> terminators w = [] \<and> \<not> replacesBraces w)"

lemma wrapperOptions_operand:
  assumes "\<not> HasPrefix c ''-''"
  shows "wrapperOptions w (c # cs) = no_reading\<lparr>r_rest := c # cs, r_at := [0..<length (c # cs)], r_complete := True\<rparr>"
proof -
  have "c \<noteq> ''--''" using assms by auto
  with assms show ?thesis by (simp add: wrapperOptions_def options_loop.simps option_step_def Let_def del: upt_Suc)
qed

lemma unwrap_plain:
  assumes "plain_wrapper w" "\<not> HasPrefix c ''-''"
  shows "unwrap P w (c # cs) = nothing_unwrapped\<lparr>u_inner := c # cs, u_innerAt := [0..<length (c # cs)]\<rparr>"
proof -
  have tw: "takeWhile (\<lambda>word. True) xs = xs" for xs :: "string list" by (induction xs) simp_all
  show ?thesis using assms
    unfolding unwrap_def wrapperOptions_operand [OF assms(2)]
    by (simp add: no_reading_def command_of_def wrapped_command_def newInvocation_def plain_wrapper_def
        nothing_unwrapped_def noReplacement_def Let_def tw del: upt_Suc)
qed

text \<open>A program word that ends identification: not an assignment, and no wrapper by name.\<close>

definition final_word :: "shell_syntax \<Rightarrow> string \<Rightarrow> bool" where
  "final_word P c = (\<not> is_assignment c \<and> prefixWrappers (programName P c) = None)"

lemma program_add_layer [simp]: "program (add_layer l i) = l"
  by (simp add: program_def add_layer_def)

lemma program_update [simp]:
  "program (i\<lparr>Opaque := a\<rparr>) = program i" "program (i\<lparr>Replaced := b\<rparr>) = program i"
  "program (i\<lparr>Script := c\<rparr>) = program i" "program (i\<lparr>HasScript := d\<rparr>) = program i"
  "program (i\<lparr>Nested := e\<rparr>) = program i"
  by (simp_all add: program_def)

lemma identify_program_final:
  assumes "prefixWrappers (Name l) = None"
  shows "\<exists>i'. identify_program P at base l i = Inl i' \<and> program i' = l"
  using assms by (auto simp: identify_program_def identify_shell_def identify_eval_def Let_def)

lemma identify_step_final:
  assumes "list_all is_assignment as" "final_word P c"
  shows "\<exists>i'. identify_step P n i at (as @ c # cs) = Inl i'
    \<and> (Word (program i'), Name (program i'), Args (program i')) = (c, programName P c, cs)"
proof -
  have tw: "takeWhile is_assignment (as @ c # cs) = as" using assms by (simp add: list_all_iff final_word_def)
  define l where "l = \<lparr>Assigns = as, Word = c, Name = programName P c, Args = cs, Inner = [], layer_index = at ! length as\<rparr>"
  have "identify_step P n i at (as @ c # cs)
      = identify_program P at (Suc (length as)) l (i\<lparr>Opaque := Opaque i \<or> replaces (Replaced i) c\<rparr>)"
    by (simp add: identify_step_def tw l_def Let_def)
  moreover obtain i' where "identify_program P at (Suc (length as)) l (i\<lparr>Opaque := Opaque i \<or> replaces (Replaced i) c\<rparr>) = Inl i'"
    and "program i' = l"
    using identify_program_final [of l P at "Suc (length as)"] assms(2) by (auto simp: final_word_def l_def)
  ultimately show ?thesis by (auto simp: l_def)
qed

definition looks_through :: "shell_syntax \<Rightarrow> string \<Rightarrow> bool" where
  "looks_through P word =
     (\<not> is_assignment word \<and> programName P word \<notin> {''su'', ''runuser'', ''find'', ''eval''} \<and> shellGrammars (programName P word) = []
      \<and> (case prefixWrappers (programName P word) of None \<Rightarrow> False | Some w \<Rightarrow> plain_wrapper w))"

lemma assignment_no_option: "is_assignment a \<Longrightarrow> \<not> HasPrefix a ''-''"
proof
  assume "is_assignment a" "HasPrefix a ''-''"
  then obtain s where a: "a = CHR ''-'' # s" by (cases a) auto
  from \<open>is_assignment a\<close> obtain name where "assignmentName a = Some name" by (auto simp: is_assignment_def)
  then obtain eq t where eq: "eq \<noteq> 0" and t: "subscripted_name (TrimSuffix (take eq a) ''+'') = Some t"
    and name: "t \<noteq> []" "valid_name t"
    by (auto simp: assignmentName_def split: option.splits if_splits)
  from t obtain k where k: "t = take k (TrimSuffix (take eq a) ''+'')"
    by (auto simp: subscripted_name_def split: option.splits if_splits) (metis take_all order_refl)
  have "\<exists>m. TrimSuffix x y = take m x" for x y unfolding TrimSuffix_def by (metis take_all order_refl)
  then obtain m where "t = take k (take m (take eq a))" using k by metis
  then have "prefix t a" by (metis take_is_prefix prefix_order.order_trans)
  with a name(1) have "hd t = CHR ''-''" by (cases t) auto
  with name show False by (cases t) (auto simp: valid_name_def name_letter_def byte_def)
qed

text \<open>A wrapper written without options is looked through: the program is the first word after it that is no
  assignment (\<^verbatim>\<open>sudo rm\<close>, \<^verbatim>\<open>env FOO=1 rm\<close>), under its own name and with its own arguments.\<close>

theorem wrapper_looked_through:
  assumes "looks_through P word" and "list_all is_assignment as" and "final_word P c" and "\<not> HasPrefix c ''-''"
  shows "(Word (program (identifyCommand P (word # as @ c # cs))), Name (program (identifyCommand P (word # as @ c # cs))),
      Args (program (identifyCommand P (word # as @ c # cs)))) = (c, programName P c, cs)"
proof -
  let ?ws = "as @ c # cs" and ?n = "length (word # as @ c # cs)"
  obtain w where w: "prefixWrappers (programName P word) = Some w" "plain_wrapper w"
    using assms(1) by (auto simp: looks_through_def split: option.splits)
  obtain d ds where ds: "?ws = d # ds" by (cases ?ws) auto
  have first: "\<not> HasPrefix d ''-''"
    using ds assms(2,4) assignment_no_option by (cases as) auto
  define l where "l = \<lparr>Assigns = [], Word = word, Name = programName P word, Args = ?ws, Inner = [], layer_index = [0..<?n] ! 0\<rparr>"
  define j where "j = noIdentity\<lparr>Opaque := Opaque noIdentity \<or> replaces (Replaced noIdentity) word\<rparr>"
  have "identify_step P ?n noIdentity [0..<?n] (word # ?ws) = identify_program P [0..<?n] (Suc 0) l j"
    using assms(1) by (simp add: identify_step_def looks_through_def l_def j_def Let_def del: upt_Suc)
  also have "\<dots> = identify_wrapper P w [0..<?n] (Suc 0) l j"
    using assms(1) w(1)
    by (simp add: identify_program_def runs_shell_def looks_through_def l_def j_def noIdentity_def maxWrapperDepth_def del: upt_Suc)
  also have "\<exists>i' at'. identify_wrapper P w [0..<?n] (Suc 0) l j = Inr (i', at', ?ws)"
    using unwrap_plain [OF w(2) first, of P ds] ds
    by (simp add: identify_wrapper_def l_def Let_def nothing_unwrapped_def del: upt_Suc)
  finally obtain i' at' where step: "identify_step P ?n noIdentity [0..<?n] (word # ?ws) = Inr (i', at', ?ws)" by blast
  obtain i2 where "identify_step P ?n i' at' ?ws = Inl i2"
    and prog: "(Word (program i2), Name (program i2), Args (program i2)) = (c, programName P c, cs)"
    using identify_step_final [OF assms(2,3)] by blast
  then have "identifyCommand P (word # ?ws) = i2"
    using step by (simp add: identifyCommand_def identify_loop.simps del: upt_Suc)
  with prog show ?thesis by simp
qed

section \<open>Shells\<close>

definition shell_shown :: "commandIdentity \<Rightarrow> bool" where
  "shell_shown i = (runs_shell (program i) \<longrightarrow> Opaque i \<or> HasScript i)"

lemma run_script_visible: "visible_run r \<Longrightarrow> run_opaque r \<or> snd (run_script r)"
  by (auto simp: visible_run_def run_script_def)

lemma identify_shell_shown: "Opaque (identify_shell l i) \<or> HasScript (identify_shell l i)"
proof -
  define run where "run = (if shellGrammars (Name l) \<noteq> [] then readShell (Name l) (Args l) else suShellRun (Args l))"
  have "visible_run run"
    unfolding run_def readShell_def
    by (cases "shellGrammars (Name l) = []")
      (simp_all add: su.visible shell_reading_visible)
  from run_script_visible [OF this] show ?thesis
    by (auto simp: identify_shell_def run_def [symmetric] Let_def)
qed

lemma runs_shell_update: "runs_shell (l\<lparr>Assigns := a, Inner := b\<rparr>) = runs_shell l"
  by (simp add: runs_shell_def)

lemma identify_program_shown: "identify_program P at base l i = Inl i' \<Longrightarrow> shell_shown i'"
  using identify_shell_shown [of l i]
  by (auto simp: identify_program_def identify_wrapper_def identify_eval_def shell_shown_def Let_def
      runs_shell_update split: if_splits option.splits)

lemma identify_step_shown:
  assumes "identify_step P n i at words = Inl i'"
  shows "shell_shown i'"
proof (cases "length (takeWhile is_assignment words) = length words")
  case True
  have "\<not> runs_shell (noLayer\<lparr>Assigns := words, layer_index := n\<rparr>)"
    by (simp add: runs_shell_def noLayer_def shellGrammars_def posixShellGrammars_def)
  with True assms show ?thesis by (auto simp: identify_step_def shell_shown_def)
next
  case False
  with assms show ?thesis by (auto simp: identify_step_def Let_def dest: identify_program_shown)
qed

lemma identifyCommand_shown: "shell_shown (identifyCommand P words)"
  unfolding identifyCommand_def
  by (rule identify_loop_rule [where I = "\<lambda>i at words. True"]) (auto dest: identify_step_shown)

text \<open>Whatever the words are, when the program that is found is a shell, su or runuser in su's form, its script
  is reported or the command is opaque: no shell passes as a plain program.\<close>

theorem shell_never_plain:
  assumes "runs_shell (program (identifyCommand P words))"
  shows "Opaque (identifyCommand P words) \<or> HasScript (identifyCommand P words)"
  using identifyCommand_shown assms by (simp add: shell_shown_def)

section \<open>The readings of a payload\<close>

text \<open>A command of a reading stands for an identity: same program, script and nested commands, opaque at least when it is.\<close>

definition stands_for :: "readCommand \<Rightarrow> commandIdentity \<Rightarrow> bool" where
  "stands_for c i = (Layers (rc_id c) = Layers i \<and> Script (rc_id c) = Script i \<and> HasScript (rc_id c) = HasScript i
     \<and> Nested (rc_id c) = Nested i \<and> (Opaque i \<longrightarrow> Opaque (rc_id c)))"

definition reading_has :: "readCommand list \<Rightarrow> commandIdentity \<Rightarrow> bool" where
  "reading_has cs i = list_ex (\<lambda>c. stands_for c i) cs"

lemma reading_has_append [simp]: "reading_has (cs @ ds) i \<longleftrightarrow> reading_has cs i \<or> reading_has ds i"
  by (simp add: reading_has_def)

lemma stands_for_self [simp]: "stands_for c (rc_id c)"
  by (simp add: stands_for_def)

lemma stands_for_raise: "stands_for c i \<Longrightarrow> stands_for (raise_opaque b c) i"
  by (auto simp: stands_for_def raise_opaque_def)

lemma stands_for_inherit: "stands_for c i \<Longrightarrow> stands_for (inherit_replaced r c) i"
  by (auto simp: stands_for_def inherit_replaced_def raise_opaque_def Let_def)

lemma reading_has_inherit: "reading_has cs i \<Longrightarrow> reading_has (map (inherit_replaced r) cs) i"
  unfolding reading_has_def list_ex_iff using stands_for_inherit by fastforce

lemma with_script_self: "reading_has (with_script P c depth shell) (rc_id c)"
  by (subst with_script.simps) (simp add: reading_has_def Let_def stands_for_raise)

lemma with_script_plain:
  "\<not> HasScript (rc_id c) \<Longrightarrow> Nested (rc_id c) = [] \<Longrightarrow> with_script P c depth shell = [c]"
  by (subst with_script.simps) (simp add: too_deep_def)

definition payload_segments :: "string \<Rightarrow> string list list" where
  "payload_segments payload = filter (\<lambda>words. words \<noteq> []) (map shellFields (splitTopLevelSegments payload))"

lemma fieldCommands_segments:
  "fieldCommands P payload depth = concat (map (\<lambda>words. with_script P (field_command P words) depth False) (payload_segments payload))"
  by (subst fieldCommands.simps) (simp add: payload_segments_def)

lemma with_script_in_fields:
  assumes "words \<in> set (payload_segments payload)"
  shows "set (with_script P (field_command P words) depth False) \<subseteq> set (fieldCommands P payload depth)"
  unfolding fieldCommands_segments using assms by auto

lemma reading_has_mono: "set cs \<subseteq> set ds \<Longrightarrow> reading_has cs i \<Longrightarrow> reading_has ds i"
  by (auto simp: reading_has_def list_ex_iff)

lemma fieldCommands_covers:
  assumes "words \<in> set (payload_segments payload)"
  shows "reading_has (fieldCommands P payload depth) (identifyCommand P words)"
  using reading_has_mono [OF with_script_in_fields [OF assms]] with_script_self [of P "field_command P words" depth False]
  by (simp add: field_command_def)

lemma with_script_fields:
  assumes "HasScript (rc_id c)" "depth < maxScriptDepth"
    and "reading_has (fieldCommands P (Script (rc_id c)) (Suc depth)) i"
  shows "reading_has (with_script P c depth False) i"
proof -
  have "\<not> too_deep c depth" using assms(2) by (simp add: too_deep_def)
  then show ?thesis using assms(1,3) reading_has_inherit
    by (subst with_script.simps) (auto simp: Let_def reading_has_def)
qed

text \<open>
  \<open>runs_below n P payload words\<close>: the field reading of the payload meets the words as a segment, or as a segment of a script
  that a command of such a segment runs, at most \<open>n\<close> scripts deep.
\<close>

fun runs_below :: "nat \<Rightarrow> shell_syntax \<Rightarrow> string \<Rightarrow> string list \<Rightarrow> bool" where
  "runs_below 0 P payload words = (words \<in> set (payload_segments payload))"
| "runs_below (Suc n) P payload words =
     (words \<in> set (payload_segments payload)
      \<or> list_ex (\<lambda>outer. HasScript (identifyCommand P outer) \<and> runs_below n P (Script (identifyCommand P outer)) words)
          (payload_segments payload))"

lemma runs_below_top: "words \<in> set (payload_segments payload) \<Longrightarrow> runs_below n P payload words"
  by (cases n) simp_all

lemma runs_below_covered:
  "runs_below n P payload words \<Longrightarrow> depth + n \<le> maxScriptDepth \<Longrightarrow>
   reading_has (fieldCommands P payload depth) (identifyCommand P words)"
proof (induction n P payload words arbitrary: depth rule: runs_below.induct)
  case (1 P payload words)
  then show ?case by (simp add: fieldCommands_covers)
next
  case (2 n P payload words)
  from "2.prems"(1) consider "words \<in> set (payload_segments payload)"
    | outer where "outer \<in> set (payload_segments payload)" "HasScript (identifyCommand P outer)"
      "runs_below n P (Script (identifyCommand P outer)) words"
    by (auto simp: list_ex_iff)
  then show ?case
  proof cases
    case 1
    then show ?thesis by (rule fieldCommands_covers)
  next
    case (2 outer)
    have "reading_has (fieldCommands P (Script (identifyCommand P outer)) (Suc depth)) (identifyCommand P words)"
      by (rule "2.IH") (use 2 "2.prems"(2) in auto)
    then have "reading_has (with_script P (field_command P outer) depth False) (identifyCommand P words)"
      using 2 "2.prems"(2) by (intro with_script_fields) (simp_all add: field_command_def)
    with reading_has_mono [OF with_script_in_fields [OF 2(1)]] show ?thesis by blast
  qed
qed

text \<open>C23. No command of a payload escapes the safety reading: every segment, and every segment of a script that such
  a segment runs, down to four scripts, is among the effective commands, with the program identification
  finds for it; it may only be marked opaque in addition.\<close>

theorem effectiveCommands_cover:
  assumes "runs_below maxScriptDepth P payload words"
  shows "reading_has (effectiveCommands P payload) (identifyCommand P words)"
  using runs_below_covered [OF assms, of 0] by (simp add: effectiveCommands_def)

section \<open>Backing a remembered class\<close>

lemma opaque_kept:
  "stands_for c i \<Longrightarrow> \<not> unbounded_command c \<Longrightarrow> \<not> Opaque i \<and> \<not> HasScript i \<and> Nested i = []
     \<and> list_all (\<lambda>l. Name l \<in> set classNeutralWrappers) (butlast (Layers i))"
  by (auto simp: stands_for_def unbounded_command_def boundsNoClass_def list_ex_iff list_all_iff)

text \<open>When a payload can back a remembered class, every segment of it, at the top and below scripts, runs its program
  directly or through wrappers that change neither who runs it nor how its words are read, with no script,
  no nested command, nothing hidden, and the program is no shell.\<close>

theorem class_segments_plain:
  assumes "\<not> snd (expandCommandSegments P payload 0)" and "runs_below maxScriptDepth P payload words"
  shows "\<not> Opaque (identifyCommand P words) \<and> \<not> HasScript (identifyCommand P words) \<and> Nested (identifyCommand P words) = []
    \<and> list_all (\<lambda>l. Name l \<in> set classNeutralWrappers) (butlast (Layers (identifyCommand P words)))
    \<and> \<not> runs_shell (program (identifyCommand P words))"
proof -
  from runs_below_covered [OF assms(2), of 0]
  obtain c where c: "c \<in> set (fieldCommands P payload 0)" "stands_for c (identifyCommand P words)"
    by (auto simp: reading_has_def list_ex_iff)
  with assms(1) have "\<not> unbounded_command c" by (auto simp: expandCommandSegments_def list_ex_iff)
  from opaque_kept [OF c(2) this] identifyCommand_shown [of P words] show ?thesis by (auto simp: shell_shown_def)
qed

section \<open>Examples\<close>

text \<open>A parser that accepts nothing, and the case table that changes nothing outside ASCII.\<close>

definition bare_syntax :: shell_syntax where
  "bare_syntax = \<lparr>lower_table = id, Quote = Some, Parse = (\<lambda>_. None)\<rparr>"

lemmas eval_ascii = chunks_ascii byte_def is_space_def lower_rune_def encode_rune_def of_runes_def runes_def ToLower_def

lemma ls_name: "programName bare_syntax ''ls'' = ''ls''"
  by (simp add: programName_def ReplaceAll_def Base_def CutPrefix_def bare_syntax_def eval_ascii char_of_def bit_0)

lemma sudo_name: "programName bare_syntax ''sudo'' = ''sudo''"
  by (simp add: programName_def ReplaceAll_def Base_def CutPrefix_def bare_syntax_def eval_ascii char_of_def bit_0)

lemma sh_name: "programName bare_syntax ''sh'' = ''sh''"
  by (simp add: programName_def ReplaceAll_def Base_def CutPrefix_def bare_syntax_def eval_ascii char_of_def bit_0)

lemma plain_words:
  "\<not> is_assignment ''ls''" "\<not> is_assignment ''sudo''" "\<not> is_assignment ''sh''" "is_assignment ''A=1''"
  by (simp_all add: is_assignment_def assignmentName_def subscripted_name_def TrimSuffix_def HasSuffix_def valid_name_def
      name_letter_def byte_def)

lemma ls_final: "final_word bare_syntax ''ls''"
  by (simp add: final_word_def plain_words ls_name prefixWrappers_def)

theorem assignments_hide_nothing_witness:
  "seen (identifyCommand bare_syntax ([''A=1''] @ [''ls''])) = seen (identifyCommand bare_syntax [''ls''])"
  by (rule assignments_hide_nothing) (simp add: plain_words)

theorem wrapper_looked_through_witness:
  "(Word (program (identifyCommand bare_syntax (''sudo'' # [''A=1''] @ ''ls'' # [''-l'']))),
    Name (program (identifyCommand bare_syntax (''sudo'' # [''A=1''] @ ''ls'' # [''-l'']))),
    Args (program (identifyCommand bare_syntax (''sudo'' # [''A=1''] @ ''ls'' # [''-l''])))) = (''ls'', programName bare_syntax ''ls'', [''-l''])"
proof (rule wrapper_looked_through)
  show "looks_through bare_syntax ''sudo''"
    by (simp add: looks_through_def sudo_name plain_words shellGrammars_def posixShellGrammars_def prefixWrappers_def
        plain_wrapper_def zeroWrapper_def)
qed (simp_all add: plain_words ls_final)

lemma ls_identity:
  "identifyCommand bare_syntax [''ls''] = add_layer \<lparr>Assigns = [], Word = ''ls'', Name = ''ls'', Args = [], Inner = [],
     layer_index = 0\<rparr> noIdentity"
  by (simp add: identifyCommand_def identify_loop.simps identify_step_def plain_words ls_name identify_program_def
      runs_shell_def shellGrammars_def posixShellGrammars_def prefixWrappers_def noIdentity_def noReplacement_def
      replaces_def add_layer_def)

theorem shell_never_plain_witness:
  "Opaque (identifyCommand bare_syntax [''sh'']) \<or> HasScript (identifyCommand bare_syntax [''sh''])"
proof (rule shell_never_plain)
  show "runs_shell (program (identifyCommand bare_syntax [''sh'']))"
    by (simp add: identifyCommand_def identify_loop.simps identify_step_def plain_words sh_name identify_program_def
        runs_shell_def shellGrammars_def posixShellGrammars_def identify_shell_def Let_def)
qed

lemma ls_segments: "payload_segments ''ls'' = [[''ls'']]"
  by (simp add: payload_segments_def splitTopLevelSegments_def shellFields_def Fields_def separator_rune_def
      eval_ascii char_of_def bit_0)

lemma ls_runs: "runs_below maxScriptDepth bare_syntax ''ls'' [''ls'']"
  by (rule runs_below_top) (simp add: ls_segments)

theorem effectiveCommands_cover_witness:
  "reading_has (effectiveCommands bare_syntax ''ls'') (identifyCommand bare_syntax [''ls''])"
  using ls_runs by (rule effectiveCommands_cover)

lemma ls_reading: "fieldCommands bare_syntax ''ls'' 0 = [field_command bare_syntax [''ls'']]"
  by (simp add: fieldCommands_segments ls_segments with_script_plain field_command_def ls_identity add_layer_def noIdentity_def)

lemma ls_parsed: "parsed_commands bare_syntax ''ls'' 0 = []"
  by (simp add: parsed_commands_def shellCommands.simps bare_syntax_def)

lemma ls_bounded: "\<not> snd (expandCommandSegments bare_syntax ''ls'' 0)"
  by (simp add: expandCommandSegments_def ls_reading ls_parsed field_command_def
      ls_identity add_layer_def noIdentity_def unbounded_command_def
      redirectsProgramResolution_def boundsNoClass_def assignments_def program_def declarationBuiltins_def
      codeInjection_def)

theorem class_segments_plain_witness:
  "\<not> Opaque (identifyCommand bare_syntax [''ls'']) \<and> \<not> HasScript (identifyCommand bare_syntax [''ls''])
   \<and> Nested (identifyCommand bare_syntax [''ls'']) = []
   \<and> list_all (\<lambda>l. Name l \<in> set classNeutralWrappers) (butlast (Layers (identifyCommand bare_syntax [''ls''])))
   \<and> \<not> runs_shell (program (identifyCommand bare_syntax [''ls'']))"
  using ls_bounded ls_runs by (rule class_segments_plain)

end
