(* ===== verification/GrantClass.thy ===== *)
theory GrantClass
  imports CommandIdentity
begin

text \<open>
  \<^verbatim>\<open>grant_prefix.go\<close>, \<^verbatim>\<open>grant_floor.go\<close> and the key derivation of \<^verbatim>\<open>middleware.go\<close>: which class of commands a remembered
  approval stands for. \<open>classSegments\<close> decides whether a payload can back a class at all, \<open>grantCommandPrefix\<close> derives the
  class, \<open>approvalPatternKeyForScope\<close> the key that is stored, \<open>ReviewPersistedGrantKey\<close> whether a stored key stays.

  Arguments of the model: \<open>P\<close> (the shell parser), \<open>observes\<close> (the catalog lookup \<^verbatim>\<open>segmentIsBaselineObservation\<close>), \<open>digest\<close> (the
  hexadecimal start of the SHA-256 of a workspace) and the record \<open>tool_call\<close> of what the code reads from the
  arguments of a tool call.

  The lemmas show that a class names one operation of a program that is neither banned nor shell control, that
  every operation of the payload has that class, that no option selecting another configuration is present, that the
  identity a call names is part of its class, and that the HTTP method of an API call is. Two places where the
  code does less than it says are exhibited.
\<close>

section \<open>Library functions\<close>

text \<open>\<^verbatim>\<open>strings.Index\<close>, \<^verbatim>\<open>strings.LastIndex\<close> and \<^verbatim>\<open>strings.Cut\<close> with a non-empty separator.\<close>

fun Index :: "string \<Rightarrow> string \<Rightarrow> nat option" where
  "Index [] t = None"
| "Index (c # s) t = (if HasPrefix (c # s) t then Some 0 else map_option Suc (Index s t))"

fun LastIndex :: "string \<Rightarrow> string \<Rightarrow> nat option" where
  "LastIndex [] t = None"
| "LastIndex (c # s) t =
     (case LastIndex s t of Some i \<Rightarrow> Some (Suc i) | None \<Rightarrow> if HasPrefix (c # s) t then Some 0 else None)"

definition Cut :: "string \<Rightarrow> string \<Rightarrow> string \<times> string \<times> bool" where
  "Cut s sep = (case Index s sep of None \<Rightarrow> (s, [], False) | Some i \<Rightarrow> (take i s, drop (i + length sep) s, True))"

text \<open>\<^verbatim>\<open>strings.Trim\<close> and \<^verbatim>\<open>strings.TrimLeft\<close> with a set of ASCII bytes, \<^verbatim>\<open>strings.ContainsAny\<close>.\<close>

definition TrimLeft :: "string \<Rightarrow> string \<Rightarrow> string" where
  "TrimLeft s cutset = dropWhile (\<lambda>c. c \<in> set cutset) s"

definition Trim :: "string \<Rightarrow> string \<Rightarrow> string" where
  "Trim s cutset = rev (TrimLeft (rev (TrimLeft s cutset)) cutset)"

definition ContainsAny :: "string \<Rightarrow> string \<Rightarrow> bool" where
  "ContainsAny s chars = list_ex (\<lambda>c. c \<in> set chars) s"

definition ascii_lower :: "char \<Rightarrow> char" where
  "ascii_lower c = (if 65 \<le> byte c \<and> byte c \<le> 90 then char_of (byte c + 32) else c)"

section \<open>The floor\<close>

definition bannedGrantPrograms :: "string list" where
  "bannedGrantPrograms =
    [''sh'', ''bash'', ''zsh'', ''dash'', ''ksh'', ''mksh'', ''ash'', ''hush'', ''fish'', ''csh'',
     ''tcsh'', ''python'', ''python2'', ''python3'', ''node'', ''nodejs'', ''deno'', ''bun'', ''perl'',
     ''ruby'', ''php'', ''lua'', ''rscript'', ''osascript'', ''powershell'', ''pwsh'', ''cmd'', ''awk'',
     ''gawk'', ''sed'', ''eval'', ''exec'', ''source'', ''.'', ''env'', ''sudo'', ''doas'', ''su'',
     ''nohup'', ''setsid'', ''timeout'', ''nice'', ''ionice'', ''stdbuf'', ''xargs'', ''git'', ''find'',
     ''make'', ''curl'', ''wget'', ''httpie'', ''http'', ''socat'', ''xxd'', ''rm'', ''rmdir'', ''dd'',
     ''mkfs'', ''shred'', ''wipefs'', ''fdisk'', ''shutdown'', ''reboot'', ''halt'', ''poweroff'']"

definition shellNeutralWords :: "string list" where
  "shellNeutralWords =
    [''set'', ''shift'', ''trap'', ''echo'', ''printf'', ''true'', ''false'', '':'', ''test'', ''['',
     ''[['', '']'', '']]'', ''cd'', ''pwd'', ''export'', ''local'', ''declare'', ''readonly'', ''unset'',
     ''umask'', ''wait'', ''sleep'', ''read'']"

definition shellControlKeywords :: "string list" where
  "shellControlKeywords =
    [''for'', ''do'', ''done'', ''if'', ''then'', ''else'', ''elif'', ''fi'', ''while'', ''until'',
     ''case'', ''esac'', ''select'', ''function'', ''break'', ''continue'', ''return'', ''{'', ''}'']"

text \<open>The backslash is the last marker.\<close>

definition grantComplexShellMarkers :: "string list" where
  "grantComplexShellMarkers = [''>'', ''<'', ''$'', [CHR 0x60], ''*'', ''?'', [BACKSLASH]]"

definition hardlineDiskDevices :: "string list" where
  "hardlineDiskDevices = [''/dev/sd'', ''/dev/nvme'', ''/dev/hd'', ''/dev/vd'', ''/dev/xvd'', ''/dev/disk'', ''/dev/rdisk'']"

definition destructiveSubstrings :: "string list" where
  "destructiveSubstrings = ['':(){'', ''/dev/sd'', ''/dev/nvme'']"

definition egressSubstrings :: "string list" where
  "egressSubstrings = [''/dev/tcp/'', ''/dev/udp/'']"

definition grantDeviceMarkers :: "string list" where
  "grantDeviceMarkers = destructiveSubstrings @ egressSubstrings @ hardlineDiskDevices"

definition dangerousBinaries :: "string list" where
  "dangerousBinaries =
    [''rm'', ''rmdir'', ''chmod'', ''chown'', ''kill'', ''pkill'', ''killall'', ''shutdown'', ''reboot'',
     ''halt'', ''poweroff'', ''mkfs'', ''dd'', ''fdisk'', ''shred'', ''wipefs'']"

definition egressBinaries :: "string list" where
  "egressBinaries =
    [''curl'', ''wget'', ''nc'', ''ncat'', ''netcat'', ''socat'', ''telnet'', ''ftp'', ''tftp'', ''scp'',
     ''sftp'', ''rsync'', ''ssh'']"

definition family_head :: "string \<Rightarrow> string" where
  "family_head family = fst (Cut family '' '')"

definition hostDangerousFamily :: "string \<Rightarrow> bool" where
  "hostDangerousFamily family =
     (family_head family \<in> set dangerousBinaries \<or> family_head family \<in> set egressBinaries)"

definition IsGrantableCommandFamily :: "shell_syntax \<Rightarrow> string \<Rightarrow> bool" where
  "IsGrantableCommandFamily P family0 =
     (let family = ToLower (lower_table P) (TrimSpace family0) in
      if family = [] \<or> family = ''unknown'' \<or> Contains family [BACKSLASH] then False
      else if HasPrefix family ''skill:'' then False
      else (let head = (case Cut family '' '' of (head, _, multi) \<Rightarrow> if multi then TrimSpace head else family) in
            programName P head = head \<and> head \<notin> set bannedGrantPrograms
            \<and> head \<notin> set shellControlKeywords \<and> head \<notin> set shellNeutralWords))"

section \<open>Redirections that are ignored\<close>

definition regexp_blank :: "char \<Rightarrow> bool" where
  "regexp_blank c = (c \<in> {CHR 0x09, CHR 0x0A, CHR 0x0C, CHR 0x0D, SPACE})"

text \<open>
  \<^verbatim>\<open>benignDevNullRedirectPattern\<close>: each function is a part of the expression and returns what follows the match.
  \<open>match_stop\<close> is \<^verbatim>\<open>(?:\s|$)\<close>, \<open>match_dup\<close> is \<^verbatim>\<open>2>&1(?:\s|$)\<close>, \<open>match_operator\<close> is \<^verbatim>\<open>(?:[12]&?>|&>)\<close>.
\<close>

definition match_stop :: "string \<Rightarrow> string option" where
  "match_stop s = (case s of [] \<Rightarrow> Some [] | c # s' \<Rightarrow> if regexp_blank c then Some s' else None)"

definition match_dup :: "string \<Rightarrow> string option" where
  "match_dup s = (case CutPrefix s ''2>&1'' of None \<Rightarrow> None | Some t \<Rightarrow> match_stop t)"

definition match_operator :: "string \<Rightarrow> string option" where
  "match_operator s =
     (case s of
        [] \<Rightarrow> None
      | c # t \<Rightarrow>
          if c = CHR ''1'' \<or> c = CHR ''2'' then CutPrefix (TrimPrefix t ''&'') ''>''
          else if c = CHR ''&'' then CutPrefix t ''>''
          else None)"

definition match_null :: "string \<Rightarrow> string option" where
  "match_null s = (if map ascii_lower (take 9 s) = ''/dev/null'' then Some (drop 9 s) else None)"

definition match_tail :: "string \<Rightarrow> string option" where
  "match_tail s =
     (case (if s \<noteq> [] \<and> regexp_blank (hd s) then match_dup (dropWhile regexp_blank s) else None) of
        Some t \<Rightarrow> Some t
      | None \<Rightarrow> match_stop s)"

definition match_redirect :: "string \<Rightarrow> string option" where
  "match_redirect s = do {
     t \<leftarrow> match_operator s;
     u \<leftarrow> match_null (dropWhile regexp_blank t);
     match_tail u
   }"

definition or_else :: "'a option \<Rightarrow> 'a option \<Rightarrow> 'a option" where
  "or_else a b = (case a of Some x \<Rightarrow> Some x | None \<Rightarrow> b)"

definition match_benign :: "bool \<Rightarrow> string \<Rightarrow> string option" where
  "match_benign first s =
     (let after_start = (\<lambda>m. or_else (if first then m s else None)
                               (if s \<noteq> [] \<and> regexp_blank (hd s) then m (tl s) else None))
      in or_else (after_start match_redirect) (after_start match_dup))"

lemma match_stop_length: "match_stop s = Some t \<Longrightarrow> length t \<le> length s"
  by (auto simp: match_stop_def split: list.splits if_splits)

lemma CutPrefix_Some: "CutPrefix s p = Some t \<Longrightarrow> s = p @ t"
  by (auto simp: CutPrefix_def HasPrefix_def split: if_splits) (metis append_take_drop_id)

lemma match_dup_length: "match_dup s = Some t \<Longrightarrow> length t + 4 \<le> length s"
  by (auto simp: match_dup_def split: option.splits dest!: CutPrefix_Some match_stop_length)

lemma match_operator_length: "match_operator s = Some t \<Longrightarrow> length t + 2 \<le> length s"
proof -
  assume op: "match_operator s = Some t"
  have "CutPrefix (TrimPrefix u ''&'') ''>'' = Some t \<Longrightarrow> length t + 1 \<le> length u" for u
    by (auto simp: TrimPrefix_def split: if_splits dest!: CutPrefix_Some dest: arg_cong [where f = length])
  moreover have "CutPrefix u ''>'' = Some t \<Longrightarrow> length t + 1 \<le> length u" for u
    by (auto dest!: CutPrefix_Some)
  ultimately show ?thesis using op by (auto simp: match_operator_def split: list.splits if_splits)
qed

lemma match_tail_length: "match_tail s = Some t \<Longrightarrow> length t \<le> length s"
proof -
  assume tail: "match_tail s = Some t"
  have "length (dropWhile regexp_blank s) \<le> length s" by (rule length_dropWhile_le)
  with tail show ?thesis
    by (auto simp: match_tail_def split: option.splits if_splits dest!: match_dup_length match_stop_length)
qed

lemma match_redirect_length: "match_redirect s = Some t \<Longrightarrow> length t + 2 \<le> length s"
proof -
  assume "match_redirect s = Some t"
  then obtain u v where u: "match_operator s = Some u" and v: "match_null (dropWhile regexp_blank u) = Some v"
    and t: "match_tail v = Some t"
    by (auto simp: match_redirect_def bind_eq_Some_conv)
  have "length v \<le> length u"
    using v length_dropWhile_le [of regexp_blank u] by (auto simp: match_null_def split: if_splits)
  with match_operator_length [OF u] match_tail_length [OF t] show ?thesis by simp
qed

lemma match_benign_length: "match_benign first s = Some t \<Longrightarrow> length t + 2 \<le> length s"
  by (auto simp: match_benign_def or_else_def Let_def split: option.splits if_splits
      dest!: match_redirect_length match_dup_length)

text \<open>\<^verbatim>\<open>ReplaceAllString\<close> with one blank, and \<^verbatim>\<open>MatchString\<close>; \<open>first\<close> holds at the start of the text.\<close>

function replace_benign :: "bool \<Rightarrow> string \<Rightarrow> string" where
  "replace_benign first s =
     (case match_benign first s of
        Some t \<Rightarrow> SPACE # replace_benign False t
      | None \<Rightarrow> (case s of [] \<Rightarrow> [] | c # s' \<Rightarrow> c # replace_benign False s'))"
  by pat_completeness auto
termination
  by (relation "measure (\<lambda>(first, s). length s)") (auto dest: match_benign_length)

declare replace_benign.simps [simp del]

fun has_benign :: "bool \<Rightarrow> string \<Rightarrow> bool" where
  "has_benign first [] = (match_benign first [] \<noteq> None)"
| "has_benign first (c # s) = (match_benign first (c # s) \<noteq> None \<or> has_benign False s)"

lemma replace_benign_le: "length (replace_benign first s) \<le> length s"
proof (induction first s rule: replace_benign.induct)
  case (1 first s)
  show ?case
  proof (cases "match_benign first s")
    case None
    show ?thesis
    proof (cases s)
      case Nil
      with None show ?thesis by (simp add: replace_benign.simps)
    next
      case (Cons c s')
      with 1(1) [OF None Cons] None show ?thesis by (simp add: replace_benign.simps [of first])
    qed
  next
    case (Some t)
    with 1(2) [OF Some] match_benign_length [OF Some] show ?thesis by (subst replace_benign.simps) simp
  qed
qed

lemma replace_benign_less: "has_benign first s \<Longrightarrow> length (replace_benign first s) < length s"
proof (induction first s rule: has_benign.induct)
  case (1 first)
  then show ?case by (auto dest: match_benign_length)
next
  case (2 first c s)
  show ?case
  proof (cases "match_benign first (c # s)")
    case None
    with 2 show ?thesis by (subst replace_benign.simps) simp
  next
    case (Some t)
    with match_benign_length [OF Some] replace_benign_le [of False t] show ?thesis
      by (subst replace_benign.simps) simp
  qed
qed

function strip_loop :: "string \<Rightarrow> string" where
  "strip_loop payload = (if has_benign True payload then strip_loop (replace_benign True payload) else payload)"
  by pat_completeness auto
termination
  by (relation "measure length") (auto simp: replace_benign_less)

declare strip_loop.simps [simp del]

definition stripBenignDevNullRedirects :: "string \<Rightarrow> string" where
  "stripBenignDevNullRedirects payload = TrimSpace (strip_loop payload)"

definition benignDevRedirectTargets :: "string list" where
  "benignDevRedirectTargets = [''null'', ''zero'', ''full'', ''random'', ''urandom'', ''stdin'', ''stdout'', ''stderr'', ''fd/'']"

definition benign_target :: "string \<Rightarrow> string \<Rightarrow> bool" where
  "benign_target afterDev safe =
     (HasPrefix afterDev safe \<and>
      (let tail = drop (length safe) afterDev in
       HasSuffix safe ''/'' \<or> tail = [] \<or> hd tail \<in> {SPACE, CHR 0x09, NEWLINE, CHR '';'', CHR ''|'', CHR ''&'', CHR '')'', SQUOTE, DQUOTE}))"

fun dev_redirect :: "string \<Rightarrow> bool" where
  "dev_redirect [] = False"
| "dev_redirect (c # rest) =
     ((c = CHR ''>'' \<and>
       (case CutPrefix (TrimLeft rest ('' >|&'' @ [CHR 0x09])) ''/dev/'' of
          None \<Rightarrow> False
        | Some afterDev \<Rightarrow> \<not> list_ex (benign_target afterDev) benignDevRedirectTargets))
      \<or> dev_redirect rest)"

definition hasDangerousDevRedirect :: "shell_syntax \<Rightarrow> string \<Rightarrow> bool" where
  "hasDangerousDevRedirect P cmd = dev_redirect (ToLower (lower_table P) cmd)"


section \<open>API calls\<close>

datatype api_meaning = Method | Body | Host | Other

definition ghAPIValueOptions :: "(string \<times> api_meaning) list" where
  "ghAPIValueOptions = [(''-X'', Method), (''--method'', Method), (''--hostname'', Host),
     (''-f'', Body), (''--raw-field'', Body), (''-F'', Body), (''--field'', Body), (''--input'', Body),
     (''-H'', Other), (''--header'', Other), (''-q'', Other), (''--jq'', Other), (''-p'', Other), (''--preview'', Other),
     (''-t'', Other), (''--template'', Other), (''--cache'', Other)]"

definition ghAPIBoolOptions :: "string list" where
  "ghAPIBoolOptions = [''-i'', ''--include'', ''--paginate'', ''--silent'', ''--slurp'', ''--verbose'', ''-h'', ''--help'']"

record ghAPICall =
  call_endpoint :: string
  call_method :: string
  call_body :: bool
  call_host :: bool

text \<open>The variables of \<^verbatim>\<open>ghAPIRequest\<close>: the call so far and the explicit method, if one was given.\<close>

record api_state =
  api_call :: ghAPICall
  api_explicit :: "string option"

definition api_start :: api_state where
  "api_start = \<lparr>api_call = \<lparr>call_endpoint = [], call_method = [], call_body = False, call_host = False\<rparr>, api_explicit = None\<rparr>"

definition api_apply :: "api_meaning \<Rightarrow> string \<Rightarrow> api_state \<Rightarrow> api_state" where
  "api_apply meaning value st = (case meaning of
       Method \<Rightarrow> st\<lparr>api_explicit := Some value\<rparr>
     | Body \<Rightarrow> st\<lparr>api_call := (api_call st)\<lparr>call_body := True\<rparr>\<rparr>
     | Host \<Rightarrow> st\<lparr>api_call := (api_call st)\<lparr>call_host := True\<rparr>\<rparr>
     | Other \<Rightarrow> st)"

definition api_endpoint :: "string \<Rightarrow> api_state \<Rightarrow> api_state" where
  "api_endpoint word st = (if call_endpoint (api_call st) = []
     then st\<lparr>api_call := (api_call st)\<lparr>call_endpoint := word\<rparr>\<rparr> else st)"

text \<open>A long option, and the letters of a short bundle, with the words after the option: the state and the words left.\<close>

definition api_value :: "api_meaning \<Rightarrow> string list \<Rightarrow> api_state \<Rightarrow> (api_state \<times> string list) option" where
  "api_value meaning rest st = (case rest of [] \<Rightarrow> None | v # rest' \<Rightarrow> Some (api_apply meaning v st, rest'))"

definition api_long :: "string \<Rightarrow> string list \<Rightarrow> api_state \<Rightarrow> (api_state \<times> string list) option" where
  "api_long arg rest st =
     (case CutByte arg (CHR ''='') of (name, value, attached) \<Rightarrow>
        if name \<in> set ghAPIBoolOptions then Some (st, rest)
        else (case map_of ghAPIValueOptions name of
            None \<Rightarrow> None
          | Some meaning \<Rightarrow> if attached then Some (api_apply meaning value st, rest) else api_value meaning rest st))"

fun api_letters :: "string \<Rightarrow> string list \<Rightarrow> api_state \<Rightarrow> (api_state \<times> string list) option" where
  "api_letters [] rest st = Some (st, rest)"
| "api_letters (c # ls) rest st =
     (let name = ''-'' @ [c] in
      if name \<in> set ghAPIBoolOptions then api_letters ls rest st
      else (case map_of ghAPIValueOptions name of
          None \<Rightarrow> None
        | Some meaning \<Rightarrow>
            if ls = [] then api_value meaning rest st
            else Some (api_apply meaning (TrimPrefix ls ''='') st, rest)))"

lemma api_value_le: "api_value m rest st = Some (st', rest') \<Longrightarrow> length rest' \<le> length rest"
  by (auto simp: api_value_def split: list.splits)

lemma api_long_le: "api_long arg rest st = Some (st', rest') \<Longrightarrow> length rest' \<le> length rest"
  by (auto simp: api_long_def split: prod.splits if_splits option.splits dest: api_value_le)

lemma api_letters_le: "api_letters ls rest st = Some (st', rest') \<Longrightarrow> length rest' \<le> length rest"
  by (induction ls rest st rule: api_letters.induct)
    (auto simp: Let_def split: if_splits option.splits dest: api_value_le)

function api_loop :: "string list \<Rightarrow> api_state \<Rightarrow> api_state option" where
  "api_loop [] st = Some st"
| "api_loop (raw # rest) st =
     (let arg = TrimSpace raw in
      if arg = ''--'' then Some (if rest \<noteq> [] then api_endpoint (hd rest) st else st)
      else if \<not> HasPrefix arg ''-'' \<or> arg = ''-'' then api_loop rest (api_endpoint arg st)
      else (case (if HasPrefix arg ''--'' then api_long arg rest st else api_letters (tl arg) rest st) of
              None \<Rightarrow> None
            | Some (st', rest') \<Rightarrow> api_loop rest' st'))"
  by pat_completeness auto
termination
  by (relation "measure (\<lambda>(args, st). length args)")
    (auto split: if_splits dest!: api_long_le api_letters_le)

declare api_loop.simps [simp del]

definition api_method :: "shell_syntax \<Rightarrow> api_state \<Rightarrow> ghAPICall option" where
  "api_method P st =
     (case api_explicit st of
        Some explicit \<Rightarrow>
          let m = ToLower (lower_table P) (Trim (TrimSpace explicit) [DQUOTE, SQUOTE]) in
          if m = [] \<or> HasPrefix m ''-'' then None else Some ((api_call st)\<lparr>call_method := m\<rparr>)
      | None \<Rightarrow> Some ((api_call st)\<lparr>call_method := (if call_body (api_call st) then ''post'' else ''get'')\<rparr>))"

definition ghAPIRequest :: "shell_syntax \<Rightarrow> string list \<Rightarrow> ghAPICall option" where
  "ghAPIRequest P args = (case api_loop args api_start of None \<Rightarrow> None | Some st \<Rightarrow> api_method P st)"

definition grantAPISubcommands :: "(string \<times> string) list" where
  "grantAPISubcommands = [(''gh'', ''api'')]"

definition boundedAPIPath :: "shell_syntax \<Rightarrow> string \<Rightarrow> string" where
  "boundedAPIPath P raw =
     (let trimmed = Trim (TrimSpace raw) ''/''; parts = take 4 (split_slash trimmed) in
      if trimmed = [] then []
      else if list_ex (\<lambda>part. ContainsAny part ''$*?{}'') parts then []
      else ToLower (lower_table P) (Join parts ''/''))"

text \<open>\<^verbatim>\<open>grantAPIPrefix\<close>: \<^const>\<open>None\<close> when the words are no call of the subcommand; an empty prefix is the class that does not exist.\<close>

definition grantAPIPrefix :: "shell_syntax \<Rightarrow> string \<Rightarrow> string \<Rightarrow> string list \<Rightarrow> string list option" where
  "grantAPIPrefix P prog subcommand rest =
     (if rest = [] \<or> ToLower (lower_table P) (TrimSpace (hd rest)) \<noteq> subcommand then None
      else (case ghAPIRequest P (tl rest) of
          None \<Rightarrow> Some []
        | Some call \<Rightarrow>
            if call_host call then Some []
            else Some ([prog, subcommand, call_method call]
                       @ (let path = boundedAPIPath P (call_endpoint call) in if path \<noteq> [] then [path] else []))))"

section \<open>Prefixes\<close>

definition grantPrefixMaxTokens :: nat where
  "grantPrefixMaxTokens = 5"

definition grantSubcommandPrograms :: "string list" where
  "grantSubcommandPrograms =
    [''aws'', ''gcloud'', ''gsutil'', ''bq'', ''az'', ''gh'', ''glab'', ''kubectl'', ''helm'', ''argocd'',
     ''docker'', ''podman'', ''terraform'', ''aliyun'', ''doctl'', ''flyctl'', ''heroku'', ''supabase'',
     ''vercel'']"

definition grantWriteVerbs :: "string list" where
  "grantWriteVerbs =
    [''create'', ''delete'', ''start'', ''stop'', ''submit'', ''update'', ''put'', ''remove'', ''add'',
     ''set'', ''apply'', ''destroy'', ''terminate'', ''deploy'', ''import'', ''restore'', ''attach'',
     ''detach'', ''enable'', ''disable'', ''rotate'', ''revoke'', ''grant'', ''kill'', ''drain'',
     ''cordon'', ''scale'', ''rollout'', ''edit'', ''patch'', ''upgrade'', ''uninstall'', ''install'',
     ''push'', ''publish'', ''tag'', ''promote'', ''abort'', ''cancel'']"

definition grantReadVerbs :: "string list" where
  "grantReadVerbs =
    [''describe'', ''list'', ''get'', ''view'', ''status'', ''show'', ''read'', ''batch-get'', ''log'',
     ''logs'', ''history'', ''search'', ''check'', ''validate'', ''diff'', ''inspect'', ''top'',
     ''explain'']"

text \<open>The verb expressions: one of the verbs, followed by a hyphen or the end.\<close>

definition verb_matches :: "string list \<Rightarrow> string \<Rightarrow> bool" where
  "verb_matches verbs token = list_ex (\<lambda>v. case CutPrefix token v of
     None \<Rightarrow> False | Some t \<Rightarrow> t = [] \<or> hd t = CHR ''-'') verbs"

definition is_verb :: "string \<Rightarrow> bool" where
  "is_verb token = (verb_matches grantWriteVerbs token \<or> verb_matches grantReadVerbs token)"

text \<open>The loop of \<^verbatim>\<open>grantSegmentPrefix\<close>; \<^const>\<open>None\<close> when it ends without a verb.\<close>

fun verb_prefix :: "shell_syntax \<Rightarrow> string list \<Rightarrow> string list \<Rightarrow> string list option" where
  "verb_prefix P [] pre = None"
| "verb_prefix P (raw # rest) pre =
     (let token = TrimSpace raw in
      if token = [] \<or> HasPrefix token ''-'' then None
      else if grantPrefixMaxTokens \<le> length pre then None
      else (let lowered = ToLower (lower_table P) token; pre' = pre @ [lowered] in
            if is_verb lowered then Some pre' else verb_prefix P rest pre'))"

definition grantSegmentPrefix :: "shell_syntax \<Rightarrow> string \<Rightarrow> string list \<Rightarrow> string list" where
  "grantSegmentPrefix P prog rest =
     (case (case map_of grantAPISubcommands prog of None \<Rightarrow> None | Some sub \<Rightarrow> grantAPIPrefix P prog sub rest) of
        Some pre \<Rightarrow> pre
      | None \<Rightarrow> (case verb_prefix P rest [prog] of
            Some pre \<Rightarrow> pre
          | None \<Rightarrow> if prog \<in> set grantSubcommandPrograms then [] else [prog]))"

definition grantPlumbingPrograms :: "string list" where
  "grantPlumbingPrograms =
    [''cd'', ''set'', ''export'', ''unset'', ''umask'', ''true'', ''false'', ''test'', ''['', '':'',
     ''which'', ''pwd'', ''echo'', ''printf'', ''sleep'', ''ls'', ''cat'', ''head'', ''tail'', ''wc'',
     ''stat'', ''file'', ''readlink'', ''realpath'', ''basename'', ''dirname'', ''grep'', ''rg'', ''jq'',
     ''yq'', ''tr'', ''cut'', ''nl'', ''seq'', ''paste'', ''comm'', ''column'', ''diff'', ''od'',
     ''shasum'', ''sha256sum'', ''md5'', ''md5sum'', ''sort'', ''base64'', ''date'']"

definition netcatSelectorFlags :: "string list" where
  "netcatSelectorFlags =
    [''-e'', ''-c'', ''--exec'', ''--sh-exec'', ''--lua-exec'', ''-x'', ''-X'', ''--proxy'',
     ''--proxy-type'', ''--proxy-auth'', ''--ssl-trustfile'', ''--ssl-cert'', ''--ssl-key'']"

definition grantSelectorFlags :: "(string \<times> string list) list" where
  "grantSelectorFlags = [
    (''kubectl'', [''--kubeconfig'', ''--kuberc'', ''--as'', ''--as-group'', ''--as-uid'', ''--token'',
         ''--client-certificate'', ''--client-key'', ''--certificate-authority'',
         ''--insecure-skip-tls-verify'', ''--tls-server-name'', ''--server'', ''-s'', ''--username'',
         ''--password'']),
    (''helm'', [''--kubeconfig'', ''--kube-apiserver'', ''--kube-token'', ''--kube-as-user'', ''--kube-as-group'',
         ''--kube-ca-file'', ''--kube-insecure-skip-tls-verify'', ''--kube-tls-server-name'',
         ''--registry-config'', ''--repository-config'', ''--repository-cache'', ''--repo'', ''--ca-file'',
         ''--cert-file'', ''--key-file'', ''--insecure-skip-tls-verify'', ''--plain-http'', ''--username'',
         ''--password'', ''--pass-credentials'']),
    (''aws'', [''--endpoint-url'', ''--ca-bundle'', ''--no-verify-ssl'']),
    (''gcloud'', [''--impersonate-service-account'', ''--access-token-file'', ''--flags-file'']),
    (''gsutil'', [''-o'']),
    (''gh'', [''--hostname'']),
    (''docker'', [''--config'', ''--host'', ''-H'', ''--tls'', ''--tlsverify'', ''--tlscacert'', ''--tlscert'',
         ''--tlskey'']),
    (''podman'', [''--url'', ''--identity'', ''--remote'', ''-r'']),
    (''argocd'', [''--config'', ''--auth-token'', ''--server'', ''--insecure'', ''--plaintext'', ''--server-crt'',
         ''--client-crt'', ''--client-crt-key'', ''--header'', ''-H'', ''--core'', ''--port-forward'',
         ''--grpc-web-root-path'']),
    (''doctl'', [''--access-token'', ''-t'', ''--config'', ''--api-url'', ''-u'']),
    (''flyctl'', [''--access-token'', ''-t'', ''--config'', ''-c'']),
    (''vercel'', [''--token'', ''-t'', ''--global-config'', ''-Q'', ''--local-config'', ''-A'']),
    (''aliyun'', [''--config-path'', ''--access-key-id'', ''--access-key-secret'', ''--sts-token'', ''--mode'',
         ''--ram-role-name'', ''--ram-role-arn'', ''--role-session-name'', ''--private-key'',
         ''--key-pair-name'', ''--endpoint'', ''--skip-secure-verify'', ''--insecure'']),
    (''ssh'', [''-F'', ''-o'', ''-i'', ''-J'', ''-I'', ''-S'', ''-P'']),
    (''scp'', [''-F'', ''-o'', ''-i'', ''-J'', ''-S'', ''-D'']),
    (''sftp'', [''-F'', ''-o'', ''-i'', ''-J'', ''-S'', ''-D'']),
    (''rsync'', [''-e'', ''--rsh'', ''--rsync-path'', ''--password-file'', ''--remote-option'', ''-M'']),
    (''nc'', netcatSelectorFlags),
    (''ncat'', netcatSelectorFlags),
    (''netcat'', netcatSelectorFlags)]"

definition grantBoundSelectors :: "(string \<times> (string \<times> string) list) list" where
  "grantBoundSelectors = [
    (''kubectl'', [(''--context'', ''--context''), (''--cluster'', ''--cluster''), (''--user'', ''--user'')]),
    (''helm'', [(''--kube-context'', ''--kube-context'')]),
    (''aws'', [(''--profile'', ''--profile'')]),
    (''gcloud'', [(''--account'', ''--account''), (''--configuration'', ''--configuration'')]),
    (''docker'', [(''--context'', ''--context''), (''-c'', ''--context'')]),
    (''podman'', [(''--connection'', ''--connection''), (''-c'', ''--connection'')]),
    (''az'', [(''--subscription'', ''--subscription'')]),
    (''doctl'', [(''--context'', ''--context''), (''-c'', ''--context'')]),
    (''vercel'', [(''--scope'', ''--scope''), (''-S'', ''--scope'')]),
    (''aliyun'', [(''--profile'', ''--profile''), (''-p'', ''--profile'')])]"

definition grantAbbreviatingPrograms :: "string list" where
  "grantAbbreviatingPrograms = [''aws'', ''az'', ''gcloud'', ''gsutil'', ''nc'', ''ncat'', ''netcat'']"

definition selectors_of :: "string \<Rightarrow> string list" where
  "selectors_of prog = (case map_of grantSelectorFlags prog of None \<Rightarrow> [] | Some flags \<Rightarrow> flags)"

definition bound_of :: "string \<Rightarrow> (string \<times> string) list" where
  "bound_of prog = (case map_of grantBoundSelectors prog of None \<Rightarrow> [] | Some flags \<Rightarrow> flags)"

definition longSelector :: "string \<Rightarrow> string \<Rightarrow> bool \<times> string list" where
  "longSelector prog name =
     (if name \<in> set (selectors_of prog) then (True, [])
      else if name \<in> fst ` set (bound_of prog) then (False, [name])
      else if prog \<notin> set grantAbbreviatingPrograms \<or> length name \<le> 2 then (False, [])
      else (list_ex (\<lambda>option. HasPrefix option name) (selectors_of prog),
            filter (\<lambda>option. HasPrefix option name) (map fst (bound_of prog))))"

text \<open>
  One argument of the loop of \<^verbatim>\<open>boundSelectors\<close>: \<^const>\<open>Inl\<close> refuses the class, otherwise the option the argument names with the
  value attached to it, if any; no name when the argument selects nothing.
\<close>

definition bound_name :: "string \<Rightarrow> string \<Rightarrow> unit + (string \<times> string option) option" where
  "bound_name prog arg =
     (if HasPrefix arg ''--'' then
        (case CutByte arg (CHR ''='') of (name, value, attached) \<Rightarrow>
           case longSelector prog name of (drops, named) \<Rightarrow>
             if drops \<or> length named > 1 then Inl ()
             else Inr (case named of [] \<Rightarrow> None | n # _ \<Rightarrow> Some (n, if attached then Some value else None)))
      else if length arg > 2 \<and> HasPrefix arg ''-'' \<and> take 2 arg \<in> fst ` set (bound_of prog)
        then Inr (Some (take 2 arg, Some (TrimPrefix (drop 2 arg) ''='')))
      else Inr (Some (arg, None)))"

definition plain_value :: "string \<Rightarrow> bool" where
  "plain_value value = (value \<noteq> [] \<and> \<not> HasPrefix value ''-''
     \<and> \<not> ContainsAny value [SPACE, CHR 0x09, NEWLINE, DQUOTE, SQUOTE, CHR ''=''])"

fun bound_loop :: "string \<Rightarrow> string list \<Rightarrow> string list \<Rightarrow> string list \<Rightarrow> string list option" where
  "bound_loop prog [] used bound = Some bound"
| "bound_loop prog (arg # rest) used bound =
     (case bound_name prog arg of
        Inl _ \<Rightarrow> None
      | Inr None \<Rightarrow> bound_loop prog rest used bound
      | Inr (Some (name, attached)) \<Rightarrow>
          (case map_of (bound_of prog) name of
             None \<Rightarrow> bound_loop prog rest used bound
           | Some selector \<Rightarrow>
               if selector \<in> set used then None
               else (case attached of
                   Some value \<Rightarrow>
                     if plain_value value then bound_loop prog rest (selector # used) (bound @ [name @ ''='' @ value]) else None
                 | None \<Rightarrow>
                     (case rest of
                        [] \<Rightarrow> None
                      | value # rest' \<Rightarrow>
                          if plain_value value then bound_loop prog rest' (selector # used) (bound @ [name @ ''='' @ value])
                          else None))))"

definition boundSelectors :: "string \<Rightarrow> string list \<Rightarrow> string list option" where
  "boundSelectors prog args = (if bound_of prog = [] then Some [] else map_option sort (bound_loop prog args [] []))"

definition selecting_arg :: "string \<Rightarrow> string \<Rightarrow> bool" where
  "selecting_arg prog arg =
     (HasPrefix arg ''-'' \<and> arg \<noteq> ''-'' \<and>
      (if HasPrefix arg ''--'' then fst (longSelector prog (fst (CutByte arg (CHR ''=''))))
       else list_ex (\<lambda>c. ''-'' @ [c] \<in> set (selectors_of prog)) (tl arg)))"

definition selectsConfiguration :: "commandLayer \<Rightarrow> bool" where
  "selectsConfiguration l = (list_ex (selecting_arg (Name l)) (Args l) \<or> boundSelectors (Name l) (Args l) = None)"

section \<open>Classes\<close>

definition lookupEnv :: "string list \<Rightarrow> string \<Rightarrow> string option" where
  "lookupEnv env name = map_option (\<lambda>e. fst (snd (CutByte e (CHR ''=''))))
     (List.find (\<lambda>e. case CutByte e (CHR ''='') of (key, _, ok) \<Rightarrow> ok \<and> key = name) env)"

definition environmentHolds :: "string list \<Rightarrow> string \<Rightarrow> bool" where
  "environmentHolds env assignment =
     (case CutByte assignment (CHR ''='') of (name, value, ok) \<Rightarrow>
        ok \<and> \<not> HasSuffix name ''+'' \<and> lookupEnv env name = Some value)"

definition classStandsFor :: "commandIdentity \<Rightarrow> string list \<Rightarrow> bool" where
  "classStandsFor i env =
     (\<not> (Opaque i \<or> redirectsProgramResolution i \<or> boundsNoClass i)
      \<and> list_all (\<lambda>l. Word l = [] \<or> Word l = Name l) (Layers i)
      \<and> list_all (environmentHolds env) (assignments i)
      \<and> \<not> selectsConfiguration (program i))"

definition classCommands :: "shell_syntax \<Rightarrow> string \<Rightarrow> string list \<Rightarrow> string list list option" where
  "classCommands P payload env =
     (if list_all (\<lambda>c. classStandsFor (rc_id c) env) (fieldCommands P payload 0)
         \<and> list_all (\<lambda>c. classStandsFor (rc_id c) env) (parsed_commands P payload 0)
      then Some (map (\<lambda>c. argv (program (rc_id c)))
             (filter (\<lambda>c. argv (program (rc_id c)) \<noteq> [] \<and> \<not> HasScript (rc_id c)) (fieldCommands P payload 0)))
      else None)"

definition literal_payload :: "shell_syntax \<Rightarrow> string \<Rightarrow> bool" where
  "literal_payload P payload = (payload \<noteq> []
     \<and> \<not> list_ex (Contains payload) grantComplexShellMarkers
     \<and> \<not> list_ex (Contains (ToLower (lower_table P) payload)) grantDeviceMarkers)"

definition classSegments :: "shell_syntax \<Rightarrow> string \<Rightarrow> string list \<Rightarrow> string list list option" where
  "classSegments P payload env =
     (if hasDangerousDevRedirect P payload then None
      else (let stripped = stripBenignDevNullRedirects payload in
            if literal_payload P stripped then classCommands P stripped env else None))"

record tool_call =
  arg_text :: "string \<Rightarrow> string option"
  lease_env :: "string list"
  on_host :: bool

definition execTools :: "string list" where
  "execTools = [''terminal'', ''verify'', ''execute_command'', ''shell'', ''execute_code'', ''watch_external'']"

definition isExecTool :: "string \<Rightarrow> bool" where
  "isExecTool name = (name \<in> set execTools)"

definition text_arg :: "tool_call \<Rightarrow> string \<Rightarrow> string option" where
  "text_arg call key = (case arg_text call key of None \<Rightarrow> None | Some v \<Rightarrow> if TrimSpace v \<noteq> [] then Some v else None)"

definition execCommandPayload :: "string \<Rightarrow> tool_call \<Rightarrow> string" where
  "execCommandPayload toolName call =
     (if \<not> isExecTool toolName then []
      else (case List.map_filter (text_arg call) [''command'', ''code'', ''script''] of [] \<Rightarrow> [] | v # _ \<Rightarrow> v))"

text \<open>
  One segment of \<^verbatim>\<open>grantCommandPrefix\<close>: \<^const>\<open>Inl\<close> is the return without a class, \<^const>\<open>None\<close> a segment that is skipped,
  otherwise the class the segment asks for.
\<close>

definition segment_class :: "shell_syntax \<Rightarrow> (string \<Rightarrow> string list \<Rightarrow> bool) \<Rightarrow> string list \<Rightarrow> unit + string list option" where
  "segment_class P observes words =
     (case segmentProgram words of
        None \<Rightarrow> Inl ()
      | Some k \<Rightarrow>
          let base = programName P (TrimSpace (words ! k)); rest = drop (Suc k) words in
          if base = [] \<or> base \<in> set shellControlKeywords then Inl ()
          else if base \<in> set shellNeutralWords then Inr None
          else if base \<in> set grantPlumbingPrograms \<and> words ! k = base \<and> observes base (drop k words) then Inr None
          else if base \<in> set bannedGrantPrograms then Inl ()
          else if grantSegmentPrefix P base rest = [] then Inl ()
          else (case boundSelectors base rest of
              None \<Rightarrow> Inl ()
            | Some bound \<Rightarrow> Inr (Some (grantSegmentPrefix P base rest @ bound))))"

definition join_class :: "shell_syntax \<Rightarrow> (string \<Rightarrow> string list \<Rightarrow> bool) \<Rightarrow> string list \<Rightarrow> string list option
  \<Rightarrow> unit + string list option" where
  "join_class P observes words pre =
     (case segment_class P observes words of
        Inl _ \<Rightarrow> Inl ()
      | Inr None \<Rightarrow> Inr pre
      | Inr (Some candidate) \<Rightarrow>
          (case pre of
             None \<Rightarrow> Inr (Some candidate)
           | Some old \<Rightarrow> if old = candidate then Inr (Some old) else Inl ()))"

definition segments_class :: "shell_syntax \<Rightarrow> (string \<Rightarrow> string list \<Rightarrow> bool) \<Rightarrow> string list list \<Rightarrow> string list option" where
  "segments_class P observes segments =
     (case foldm (join_class P observes) segments None of Inl _ \<Rightarrow> None | Inr pre \<Rightarrow> pre)"

definition grantCommandPrefix :: "shell_syntax \<Rightarrow> (string \<Rightarrow> string list \<Rightarrow> bool) \<Rightarrow> string \<Rightarrow> tool_call \<Rightarrow> string list option" where
  "grantCommandPrefix P observes toolName call =
     (if map ascii_lower (TrimSpace toolName) = ''execute_code'' then None
      else (let payload = TrimSpace (execCommandPayload toolName call) in
            if payload = [] then None
            else (case classSegments P payload (lease_env call) of
                None \<Rightarrow> None
              | Some segments \<Rightarrow> segments_class P observes segments)))"

definition grantPrefixLabel :: "string list \<Rightarrow> string" where
  "grantPrefixLabel pre = Join pre '' ''"

section \<open>Keys\<close>

definition HostEscapeApprovalReason :: string where
  "HostEscapeApprovalReason = ''requests execution on the host outside the isolated sandbox''"

definition hostGrantKeyBase :: string where
  "hostGrantKeyBase = ''exec:'' @ HostEscapeApprovalReason"

definition grantKeyResourceMarker :: string where
  "grantKeyResourceMarker = ''|resource=''"

definition grantKeyCommandMarker :: string where
  "grantKeyCommandMarker = '':command:''"

definition grantKeyClassMarker :: string where
  "grantKeyClassMarker = ''|class=''"

definition GrantKeyHostWritesMarker :: string where
  "GrantKeyHostWritesMarker = ''|host_writes=''"

definition patternReasonBucket :: "string \<Rightarrow> string" where
  "patternReasonBucket reason0 =
     (let reason = TrimSpace reason0 in
      if reason = [] then ''generic''
      else (case IndexByte reason (CHR '':'') of None \<Rightarrow> reason | Some i \<Rightarrow> TrimSpace (take i reason)))"

record execution_scope =
  WorkspaceID :: string
  WorkspaceRoot :: string

definition execCommandFamily :: "shell_syntax \<Rightarrow> (string \<Rightarrow> string list \<Rightarrow> bool) \<Rightarrow> string \<Rightarrow> tool_call \<Rightarrow> string" where
  "execCommandFamily P observes toolName call =
     (case grantCommandPrefix P observes toolName call of None \<Rightarrow> ''unknown'' | Some pre \<Rightarrow> grantPrefixLabel pre)"

definition approvalResourceFingerprint :: "shell_syntax \<Rightarrow> (string \<Rightarrow> string list \<Rightarrow> bool) \<Rightarrow> (string \<Rightarrow> string)
  \<Rightarrow> execution_scope \<Rightarrow> string \<Rightarrow> tool_call \<Rightarrow> string" where
  "approvalResourceFingerprint P observes digest scope toolName call =
     (if \<not> isExecTool toolName \<or> \<not> on_host call then []
      else (let workspace = (if TrimSpace (WorkspaceID scope) = [] then Clean (TrimSpace (WorkspaceRoot scope))
                             else TrimSpace (WorkspaceID scope))
            in if workspace = [] \<or> workspace = ''.'' then []
               else ''workspace:'' @ digest workspace @ '':command:'' @ execCommandFamily P observes toolName call))"

definition approvalPatternKeyForScope :: "shell_syntax \<Rightarrow> (string \<Rightarrow> string list \<Rightarrow> bool) \<Rightarrow> (string \<Rightarrow> string)
  \<Rightarrow> string \<Rightarrow> tool_call \<Rightarrow> string \<Rightarrow> execution_scope option \<Rightarrow> string" where
  "approvalPatternKeyForScope P observes digest toolName call dangerousReason scope =
     (if isExecTool toolName then
        (case grantCommandPrefix P observes toolName call of
           None \<Rightarrow> []
         | Some pre \<Rightarrow>
             if on_host call then
               (case scope of
                  None \<Rightarrow> []
                | Some sc \<Rightarrow>
                    if hostDangerousFamily (grantPrefixLabel pre) then []
                    else (let resource = approvalResourceFingerprint P observes digest sc toolName call in
                          if resource = [] then [] else hostGrantKeyBase @ grantKeyResourceMarker @ resource))
             else ''exec:'' @ toolName @ grantKeyClassMarker @ grantPrefixLabel pre)
      else toolName @ '':'' @ patternReasonBucket dangerousReason)"

definition ReviewPersistedGrantKey :: "shell_syntax \<Rightarrow> string \<Rightarrow> string \<times> bool" where
  "ReviewPersistedGrantKey P patternKey =
     (let key = fst (Cut (TrimSpace patternKey) GrantKeyHostWritesMarker);
          normal = (\<lambda>s. ToLower (lower_table P) (TrimSpace s)) in
      if key = [] then ([], False)
      else if \<not> HasPrefix key ''exec:'' then ([], True)
      else (case Cut key grantKeyResourceMarker of
          (base, resource, True) \<Rightarrow>
            (case LastIndex resource grantKeyCommandMarker of
               None \<Rightarrow> ([], False)
             | Some i \<Rightarrow>
                 let family = normal (drop (i + length grantKeyCommandMarker) resource) in
                 (family, base = hostGrantKeyBase \<and> IsGrantableCommandFamily P family \<and> \<not> hostDangerousFamily family))
        | _ \<Rightarrow>
            (case Cut (TrimPrefix key ''exec:'') grantKeyClassMarker of
               (tool, class, True) \<Rightarrow> (normal class, isExecTool tool \<and> IsGrantableCommandFamily P (normal class))
             | _ \<Rightarrow> ([], False))))"


section \<open>Prefix rules\<close>

definition prefixRuleGeneralPurposeDoors :: "string list" where
  "prefixRuleGeneralPurposeDoors = [''git'', ''find'', ''make'']"

definition prefixRuleAllowedProgram :: "string \<Rightarrow> bool" where
  "prefixRuleAllowedProgram prog = (prog \<in> set prefixRuleGeneralPurposeDoors \<or> prog \<notin> set bannedGrantPrograms)"

definition approvalRuleCommandPrefixTokens :: nat where
  "approvalRuleCommandPrefixTokens = 2"

text \<open>The loop of \<^verbatim>\<open>approvalCommandPrefix\<close> over the words of the command; \<^const>\<open>None\<close> is the return without a rule.\<close>

fun rule_tokens :: "shell_syntax \<Rightarrow> string list \<Rightarrow> string list \<Rightarrow> string list option" where
  "rule_tokens P [] tokens = Some tokens"
| "rule_tokens P (word # rest) tokens =
     (let trimmed = TrimSpace word in
      if trimmed = [] then rule_tokens P rest tokens
      else if ContainsAny trimmed (''$*?~'' @ [CHR 0x60, DQUOTE, SQUOTE, BACKSLASH]) then Some tokens
      else if tokens = [] \<and> \<not> prefixRuleAllowedProgram (programName P trimmed) then None
      else if tokens \<noteq> [] \<and> HasPrefix trimmed ''-'' then Some tokens
      else (let tokens' = tokens @ [if tokens = [] then programName P trimmed else trimmed] in
            if length tokens' = approvalRuleCommandPrefixTokens then Some tokens' else rule_tokens P rest tokens'))"

definition approvalCommandPrefix :: "shell_syntax \<Rightarrow> string \<Rightarrow> tool_call \<Rightarrow> string option" where
  "approvalCommandPrefix P toolName call =
     (let payload = TrimSpace (execCommandPayload toolName call) in
      if payload = [] then None
      else (case classSegments P payload (lease_env call) of
          Some [words] \<Rightarrow>
            (case segmentProgram words of
               None \<Rightarrow> None
             | Some k \<Rightarrow>
                 if Fields payload = [] \<or> programName P (hd (Fields payload)) \<noteq> programName P (words ! k) then None
                 else if boundSelectors (programName P (words ! k)) (drop (Suc k) words) \<noteq> Some [] then None
                 else (case rule_tokens P (drop k words) [] of
                     None \<Rightarrow> None
                   | Some tokens \<Rightarrow>
                       if length tokens < approvalRuleCommandPrefixTokens then None else Some (Join tokens '' '')))
        | _ \<Rightarrow> None))"

definition approvalRuleKey :: "string \<Rightarrow> string \<Rightarrow> string" where
  "approvalRuleKey kind value = ''rule:'' @ kind @ '':'' @ TrimSpace value"


section \<open>What a class says of a payload\<close>

lemma verb_prefix_extends: "verb_prefix P rest pre = Some c \<Longrightarrow> \<exists>s. c = pre @ s"
  by (induction rest arbitrary: pre) (fastforce simp: Let_def split: if_splits)+

lemma grantAPIPrefix_head: "grantAPIPrefix P prog sub rest = Some c \<Longrightarrow> c \<noteq> [] \<Longrightarrow> hd c = prog"
  by (auto simp: grantAPIPrefix_def Let_def split: if_splits option.splits)

lemma grantSegmentPrefix_head: "grantSegmentPrefix P prog rest \<noteq> [] \<Longrightarrow> hd (grantSegmentPrefix P prog rest) = prog"
  by (auto simp: grantSegmentPrefix_def split: option.splits if_splits
      dest!: verb_prefix_extends dest: grantAPIPrefix_head)



definition has_class :: "shell_syntax \<Rightarrow> (string \<Rightarrow> string list \<Rightarrow> bool) \<Rightarrow> string list \<Rightarrow> string list \<Rightarrow> bool" where
  "has_class P observes c words = (segment_class P observes words = Inr (Some c))"




section \<open>Configuration\<close>

lemma stands_for_program: "stands_for c i \<Longrightarrow> program (rc_id c) = program i"
  by (simp add: stands_for_def program_def)

lemma stands_for_assignments: "stands_for c i \<Longrightarrow> assignments (rc_id c) = assignments i"
  by (simp add: assignments_def stands_for_program) (simp add: stands_for_def)

lemma stands_for_class:
  assumes "stands_for c i" "classStandsFor (rc_id c) env"
  shows "classStandsFor i env"
proof -
  note same = stands_for_program [OF assms(1)] stands_for_assignments [OF assms(1)]
  have "redirectsProgramResolution i = redirectsProgramResolution (rc_id c)"
    by (simp add: redirectsProgramResolution_def codeInjection_def same)
  moreover have "boundsNoClass i = boundsNoClass (rc_id c)" using assms(1) by (simp add: boundsNoClass_def stands_for_def)
  moreover have "Layers i = Layers (rc_id c)" "Opaque i \<longrightarrow> Opaque (rc_id c)" using assms(1) by (auto simp: stands_for_def)
  ultimately show ?thesis using assms(2) same by (auto simp: classStandsFor_def)
qed

text \<open>What holds of a command when a class stands for it.\<close>

definition fixed_configuration :: "commandIdentity \<Rightarrow> string list \<Rightarrow> bool" where
  "fixed_configuration i env =
     (list_all (\<lambda>l. Word l = [] \<or> Word l = Name l) (Layers i)
      \<and> list_all (\<lambda>a. environmentHolds env a \<and> assigned_name a \<noteq> ''PATH'') (assignments i)
      \<and> list_all (\<lambda>arg. \<not> selecting_arg (Name (program i)) arg) (Args (program i))
      \<and> boundSelectors (Name (program i)) (Args (program i)) \<noteq> None)"

lemma classStandsFor_fixed: "classStandsFor i env \<Longrightarrow> fixed_configuration i env"
  by (auto simp: classStandsFor_def fixed_configuration_def redirectsProgramResolution_def selectsConfiguration_def
      list_all_iff list_ex_iff)

text \<open>A class never stands for a call that redirects what its program reads or which program runs: every command of the
  payload, below scripts too, is written under its exact name, changes no variable of the run's environment, and
  carries no option that selects another configuration, credential or server.\<close>

theorem class_configuration_fixed:
  assumes "grantCommandPrefix P observes toolName call = Some c"
    and "runs_below maxScriptDepth P (stripBenignDevNullRedirects (TrimSpace (execCommandPayload toolName call))) words"
  shows "fixed_configuration (identifyCommand P words) (lease_env call)"
proof -
  let ?payload = "stripBenignDevNullRedirects (TrimSpace (execCommandPayload toolName call))"
  from assms(1) have "classCommands P ?payload (lease_env call) \<noteq> None"
    by (auto simp: grantCommandPrefix_def classSegments_def Let_def split: if_splits option.splits)
  then have all: "list_all (\<lambda>c. classStandsFor (rc_id c) (lease_env call)) (fieldCommands P ?payload 0)"
    by (auto simp: classCommands_def split: if_splits)
  from runs_below_covered [OF assms(2), of 0] obtain r where "r \<in> set (fieldCommands P ?payload 0)"
    and r: "stands_for r (identifyCommand P words)"
    by (auto simp: reading_has_def list_ex_iff)
  with all have "classStandsFor (rc_id r) (lease_env call)" by (auto simp: list_all_iff)
  from classStandsFor_fixed [OF stands_for_class [OF r this]] show ?thesis .
qed

section \<open>Identities\<close>

text \<open>
  What is used of the case table: it maps no character outside ASCII to a hyphen, and characters to characters
  (below \<open>2 ^ 21\<close>, as four bytes encode).
\<close>

definition keeps_hyphens :: "shell_syntax \<Rightarrow> bool" where
  "keeps_hyphens P = (\<forall>n. 128 \<le> n \<and> n < 2097152 \<longrightarrow> lower_table P n \<noteq> 45 \<and> lower_table P n < 2097152)"

lemma char_of_no_hyphen: "128 \<le> n \<Longrightarrow> n < 256 \<Longrightarrow> (char_of (n :: nat) :: char) \<noteq> CHR ''-''"
proof
  assume n: "128 \<le> n" "n < 256" and "(char_of n :: char) = CHR ''-''"
  then have "of_char (char_of n :: char) = (of_char (CHR ''-'') :: nat)" by simp
  with n show False by (simp add: of_char_of)
qed

lemma encode_rune_hyphen:
  assumes "HasPrefix (encode_rune (Some n) @ s) ''-''" "n < 2097152"
  shows "n = 45"
proof -
  consider "n < 128" | "128 \<le> n" "n < 2048" | "2048 \<le> n" "n < 65536" | "65536 \<le> n" by linarith
  then show ?thesis
  proof cases
    case 1
    with assms(1) have "(char_of n :: char) = CHR ''-''" by (simp add: encode_rune_def)
    then have "of_char (char_of n :: char) = (of_char (CHR ''-'') :: nat)" by simp
    with 1 show ?thesis by (simp add: of_char_of)
  next
    case 2
    then have "192 + n div 64 < 256" by (simp add: less_mult_imp_div_less)
    with assms(1) 2 char_of_no_hyphen [of "192 + n div 64"] show ?thesis by (simp add: encode_rune_def)
  next
    case 3
    then have "224 + n div 4096 < 256" by (simp add: less_mult_imp_div_less)
    with assms(1) 3 char_of_no_hyphen [of "224 + n div 4096"] show ?thesis by (simp add: encode_rune_def)
  next
    case 4
    then have "240 + n div 262144 < 256" using assms(2) by (simp add: less_mult_imp_div_less)
    with assms(1) 4 char_of_no_hyphen [of "240 + n div 262144"] show ?thesis by (simp add: encode_rune_def)
  qed
qed

lemma decode_rune_bound: "fst (decode_rune s) = Some n \<Longrightarrow> n < 2097152"
  by (cases s) (auto simp: Let_def cont_def second_hi_def split: if_splits list.splits)

lemma decode_rune_small: "fst (decode_rune (c # s)) = Some n \<Longrightarrow> n < 128 \<Longrightarrow> byte c = n"
  by (auto simp: Let_def cont_def second_lo_def split: if_splits list.splits)

lemma chunks_first: "s \<noteq> [] \<Longrightarrow> \<exists>rest. chunks s = (fst (decode_rune s), take (snd (decode_rune s)) s) # rest"
  by (subst chunks.simps) (simp add: Let_def)

lemma byte_hyphen: "byte c = 45 \<Longrightarrow> c = CHR ''-''"
proof -
  assume "byte c = 45"
  then have "(of_char c :: nat) = of_char (CHR ''-'')" by (simp add: byte_def)
  then show ?thesis by (simp only: of_char_eq_iff)
qed

lemma encode_none_hyphen: "\<not> HasPrefix (encode_rune None @ s) ''-''"
  using char_of_no_hyphen [of 239] by (simp add: encode_rune_def)

lemma lower_rune_hyphen:
  assumes "keeps_hyphens P" "n < 2097152" "HasPrefix (encode_rune (lower_rune (lower_table P) (Some n)) @ s) ''-''"
  shows "n = 45"
proof -
  define m where "m = (if 65 \<le> n \<and> n \<le> 90 then n + 32 else if n < 128 then n else lower_table P n)"
  have "lower_rune (lower_table P) (Some n) = Some m" by (simp add: lower_rune_def m_def)
  moreover have "m < 2097152" using assms(1,2) by (auto simp: m_def keeps_hyphens_def)
  ultimately have "m = 45" using assms(3) encode_rune_hyphen [of m s] by simp
  then show ?thesis using assms(1,2) by (auto simp: m_def keeps_hyphens_def split: if_splits)
qed

lemma ToLower_hyphen:
  assumes "keeps_hyphens P" "HasPrefix (ToLower (lower_table P) s) ''-''"
  shows "HasPrefix s ''-''"
proof (cases s)
  case Nil
  with assms(2) show ?thesis by (simp add: ToLower_def of_runes_def runes_def)
next
  case (Cons c s')
  define r where "r = fst (decode_rune s)"
  obtain rest where rest: "chunks s = (r, take (snd (decode_rune s)) s) # rest" using chunks_first Cons r_def by blast
  define t where "t = concat (map (encode_rune \<circ> (lower_rune (lower_table P) \<circ> fst)) rest)"
  have "ToLower (lower_table P) s = encode_rune (lower_rune (lower_table P) r) @ t"
    unfolding ToLower_def of_runes_def runes_def rest t_def by simp
  with assms(2) have pre: "HasPrefix (encode_rune (lower_rune (lower_table P) r) @ t) ''-''" by simp
  show ?thesis
  proof (cases r)
    case None
    with pre encode_none_hyphen [of t] show ?thesis by (simp add: lower_rune_def)
  next
    case (Some n)
    then have bound: "n < 2097152" using decode_rune_bound [of s n] by (simp add: r_def)
    have "n = 45" by (rule lower_rune_hyphen [OF assms(1) bound]) (use pre Some in simp)
    with Some r_def Cons have "fst (decode_rune (c # s')) = Some 45" by simp
    from decode_rune_small [OF this] have "byte c = 45" by simp
    then show ?thesis using byte_hyphen Cons by simp
  qed
qed

definition no_option :: "string \<Rightarrow> bool" where
  "no_option word = (\<not> HasPrefix word ''-'')"

lemma verb_prefix_no_option:
  "keeps_hyphens P \<Longrightarrow> verb_prefix P rest pre = Some c \<Longrightarrow> list_all no_option pre \<Longrightarrow> list_all no_option c"
proof (induction rest arbitrary: pre)
  case (Cons raw rest)
  define token where "token = TrimSpace raw"
  have "\<not> HasPrefix token ''-''" using Cons.prems(2) by (simp add: Let_def token_def split: if_splits)
  then have "no_option (ToLower (lower_table P) token)"
    using ToLower_hyphen [OF Cons.prems(1)] by (auto simp: no_option_def)
  with Cons.prems(3) have all: "list_all no_option (pre @ [ToLower (lower_table P) token])" by simp
  from Cons.prems(2) have "c = pre @ [ToLower (lower_table P) token]
      \<or> verb_prefix P rest (pre @ [ToLower (lower_table P) token]) = Some c"
    by (auto simp: Let_def token_def split: if_splits)
  with Cons.IH [OF Cons.prems(1) _ all] all show ?case by auto
qed simp

lemma bound_names:
  assumes "name \<in> fst ` set (bound_of prog)"
  shows "HasPrefix name ''-''"
proof -
  have table: "\<forall>x \<in> set grantBoundSelectors. \<forall>y \<in> set (snd x). HasPrefix (fst y) ''-''"
    by (simp add: grantBoundSelectors_def)
  from assms obtain flags y where "map_of grantBoundSelectors prog = Some flags" and y: "y \<in> set flags" "name = fst y"
    by (cases "map_of grantBoundSelectors prog") (auto simp: bound_of_def)
  then have "(prog, flags) \<in> set grantBoundSelectors" by (simp add: map_of_SomeD)
  from bspec [OF table this] y show ?thesis by simp
qed

lemma bound_programs:
  assumes "bound_of prog \<noteq> []"
  shows "no_option prog \<and> map_of grantAPISubcommands prog = None"
proof -
  have table: "\<forall>x \<in> set grantBoundSelectors. no_option (fst x) \<and> map_of grantAPISubcommands (fst x) = None"
    by (simp add: grantBoundSelectors_def no_option_def grantAPISubcommands_def)
  from assms obtain flags where "map_of grantBoundSelectors prog = Some flags"
    by (cases "map_of grantBoundSelectors prog") (auto simp: bound_of_def)
  then have "(prog, flags) \<in> set grantBoundSelectors" by (simp add: map_of_SomeD)
  from bspec [OF table this] show ?thesis by simp
qed

definition all_options :: "string list \<Rightarrow> bool" where
  "all_options ws = list_all (\<lambda>word. \<not> no_option word) ws"

lemma all_options_snoc: "all_options ws \<Longrightarrow> \<not> no_option w \<Longrightarrow> all_options (ws @ [w])"
  by (simp add: all_options_def)

lemma bound_loop_options: "bound_loop prog args used bound = Some b \<Longrightarrow> all_options bound \<Longrightarrow> all_options b"
proof (induction prog args used bound rule: bound_loop.induct)
  case (2 prog arg rest used bound)
  have opt: "\<not> no_option (name @ s)" if "map_of (bound_of prog) name = Some sel" for name sel s
  proof -
    from that have "name \<in> fst ` set (bound_of prog)" by (force dest: map_of_SomeD)
    from bound_names [OF this] show ?thesis by (auto simp: no_option_def HasPrefix_iff intro: prefix_prefix)
  qed
  show ?case
  proof (cases "bound_name prog arg")
    case (Inl e)
    with "2.prems"(1) show ?thesis by simp
  next
    case (Inr o')
    show ?thesis
    proof (cases o')
      case None
      with Inr "2.prems" "2.IH"(1) show ?thesis by simp
    next
      case (Some x)
      obtain name attached where x: "x = (name, attached)" by fastforce
      note found = Inr Some x
      show ?thesis
      proof (cases "map_of (bound_of prog) name")
        case None
        with found "2.prems" "2.IH"(2) show ?thesis by simp
      next
        case (Some sel)
        note snoc = all_options_snoc [OF "2.prems"(2) opt [OF Some]]
        show ?thesis
        proof (cases attached)
          case None
          with found Some "2.prems"(1) obtain v rest' where "rest = v # rest'" "sel \<notin> set used" "plain_value v"
            "bound_loop prog rest' (sel # used) (bound @ [name @ ''='' @ v]) = Some b"
            by (auto split: if_splits list.splits)
          with found Some None snoc "2.IH"(3) show ?thesis by simp
        next
          case att: (Some v)
          with found Some "2.prems"(1) have "sel \<notin> set used" "plain_value v"
            "bound_loop prog rest (sel # used) (bound @ [name @ ''='' @ v]) = Some b"
            by (auto split: if_splits)
          with found Some att snoc "2.IH"(4) show ?thesis by simp
        qed
      qed
    qed
  qed
qed simp

lemma boundSelectors_options:
  "boundSelectors prog args = Some b \<Longrightarrow> all_options b"
  using bound_loop_options [of prog args "[]" "[]"]
  by (auto simp: boundSelectors_def all_options_def list_all_iff split: if_splits)

lemma grantSegmentPrefix_words:
  assumes "keeps_hyphens P" "bound_of prog \<noteq> []"
  shows "list_all no_option (grantSegmentPrefix P prog rest)"
proof -
  have prog: "no_option prog" "map_of grantAPISubcommands prog = None" using bound_programs [OF assms(2)] by auto
  show ?thesis
  proof (cases "verb_prefix P rest [prog]")
    case None
    with prog show ?thesis by (simp add: grantSegmentPrefix_def)
  next
    case (Some c)
    with verb_prefix_no_option [OF assms(1) Some] prog show ?thesis by (simp add: grantSegmentPrefix_def)
  qed
qed

definition class_base :: "shell_syntax \<Rightarrow> string list \<Rightarrow> string" where
  "class_base P words = programName P (TrimSpace (words ! the (segmentProgram words)))"

definition class_args :: "string list \<Rightarrow> string list" where
  "class_args words = drop (Suc (the (segmentProgram words))) words"

lemma has_class_parts:
  assumes "has_class P observes c words"
  shows "\<exists>bound. c = grantSegmentPrefix P (class_base P words) (class_args words) @ bound
    \<and> boundSelectors (class_base P words) (class_args words) = Some bound
    \<and> grantSegmentPrefix P (class_base P words) (class_args words) \<noteq> []"
  using assms
  by (auto simp: has_class_def segment_class_def class_base_def class_args_def Let_def split: option.splits if_splits)

text \<open>The identity a call acts as is part of its class: two commands with the same class run the same program and name
  the same bound selectors (profile, context, account), so a class remembered for one identity does not release a
  command that names another.\<close>

theorem class_binds_identity:
  assumes "keeps_hyphens P" and "has_class P observes c first" and "has_class P observes c second"
  shows "class_base P first = class_base P second
    \<and> boundSelectors (class_base P first) (class_args first) = boundSelectors (class_base P second) (class_args second)
    \<and> grantSegmentPrefix P (class_base P first) (class_args first) = grantSegmentPrefix P (class_base P second) (class_args second)"
proof -
  define p where "p = class_base P first"
  define q where "q = class_base P second"
  obtain b1 where b1: "c = grantSegmentPrefix P p (class_args first) @ b1" "boundSelectors p (class_args first) = Some b1"
    "grantSegmentPrefix P p (class_args first) \<noteq> []" using has_class_parts [OF assms(2)] by (auto simp: p_def)
  obtain b2 where b2: "c = grantSegmentPrefix P q (class_args second) @ b2" "boundSelectors q (class_args second) = Some b2"
    "grantSegmentPrefix P q (class_args second) \<noteq> []" using has_class_parts [OF assms(3)] by (auto simp: q_def)
  have "hd c = p" using b1 grantSegmentPrefix_head by (simp add: hd_append)
  moreover have "hd c = q" using b2 grantSegmentPrefix_head by (simp add: hd_append)
  ultimately have pq: "q = p" by simp
  have "b1 = b2 \<and> grantSegmentPrefix P p (class_args first) = grantSegmentPrefix P p (class_args second)"
  proof (cases "bound_of p = []")
    case True
    then have "b1 = []" "b2 = []" using b1(2) b2(2) pq by (simp_all add: boundSelectors_def)
    with b1(1) b2(1) pq show ?thesis by simp
  next
    case False
    have cut: "takeWhile no_option (xs @ ys) = xs" if "list_all no_option xs" "all_options ys" for xs ys
      using that by (cases ys) (simp_all add: all_options_def list_all_iff takeWhile_append2)
    note words = grantSegmentPrefix_words [OF assms(1) False]
    have "takeWhile no_option c = grantSegmentPrefix P p (class_args first)"
      unfolding b1(1) by (rule cut [OF words boundSelectors_options [OF b1(2)]])
    moreover have "takeWhile no_option c = grantSegmentPrefix P p (class_args second)"
      unfolding b2(1) pq by (rule cut [OF words boundSelectors_options [OF b2(2) [unfolded pq]]])
    ultimately have "grantSegmentPrefix P p (class_args first) = grantSegmentPrefix P p (class_args second)" by simp
    with b1(1) b2(1) pq show ?thesis by simp
  qed
  then show ?thesis using b1(2) b2(2) pq by (simp add: p_def [symmetric] q_def [symmetric])
qed

section \<open>Methods\<close>

lemma chunks_all_ascii: "list_all (\<lambda>c. byte c < 128) s \<Longrightarrow> chunks s = map (\<lambda>c. (Some (byte c), [c])) s"
  by (induction s) (simp_all add: chunks_ascii)

definition printable :: "char \<Rightarrow> bool" where
  "printable c = (byte c < 128 \<and> \<not> is_space (Some (byte c)))"

lemma TrimSpace_printable:
  assumes "list_all printable s"
  shows "TrimSpace s = s"
proof -
  have chunks: "chunks s = map (\<lambda>c. (Some (byte c), [c])) s"
    using assms by (intro chunks_all_ascii) (auto simp: list_all_iff printable_def)
  have no: "dropWhile space_chunk (map (\<lambda>c. (Some (byte c), [c])) xs) = map (\<lambda>c. (Some (byte c), [c])) xs"
    if "list_all printable xs" for xs
    using that by (cases xs) (simp_all add: printable_def)
  have "TrimSpace s = concat (map snd (map (\<lambda>c. (Some (byte c), [c])) s))"
    unfolding TrimSpace_def chunks using no [OF assms] no [of "rev s"] assms by (simp add: rev_map list_all_iff)
  then show ?thesis by (simp add: comp_def)
qed

text \<open>The class of an API call fixes its method: two \<^verbatim>\<open>gh api\<close> calls with the same class send the same HTTP method, and
  neither names another host; so a remembered read never releases a write.\<close>

theorem api_class_fixes_method:
  assumes "grantSegmentPrefix P ''gh'' (''api'' # first) = grantSegmentPrefix P ''gh'' (''api'' # second)"
    and "grantSegmentPrefix P ''gh'' (''api'' # first) \<noteq> []"
  shows "\<exists>a b. ghAPIRequest P first = Some a \<and> ghAPIRequest P second = Some b \<and> call_method a = call_method b
    \<and> \<not> call_host a \<and> \<not> call_host b"
proof -
  have api: "ToLower (lower_table P) (TrimSpace ''api'') = ''api''"
    by (subst TrimSpace_printable)
      (simp_all add: printable_def byte_def is_space_def ToLower_def of_runes_def runes_def chunks_ascii
        lower_rune_def encode_rune_def char_of_def bit_0)
  have read: "\<exists>a. ghAPIRequest P args = Some a \<and> \<not> call_host a
      \<and> grantSegmentPrefix P ''gh'' (''api'' # args) ! 2 = call_method a"
    if "grantSegmentPrefix P ''gh'' (''api'' # args) \<noteq> []" for args
    using that
    by (auto simp: grantSegmentPrefix_def grantAPISubcommands_def grantAPIPrefix_def api Let_def
        split: option.splits if_splits)
  from read [OF assms(2)] read [of second] assms show ?thesis by metis
qed

text \<open>Every way to write the method of a call is read alike.\<close>

lemma api_loop_method:
  "api_loop [''-X'', v] st = Some (st\<lparr>api_explicit := Some v\<rparr>)"
  "api_loop [''--method'', v] st = Some (st\<lparr>api_explicit := Some v\<rparr>)"
proof -
  have "TrimSpace ''-X'' = ''-X''" "TrimSpace ''--method'' = ''--method''"
    by (rule TrimSpace_printable; simp add: printable_def byte_def is_space_def)+
  then show "api_loop [''-X'', v] st = Some (st\<lparr>api_explicit := Some v\<rparr>)"
    "api_loop [''--method'', v] st = Some (st\<lparr>api_explicit := Some v\<rparr>)"
    by (simp_all add: api_loop.simps api_long_def CutByte_def ghAPIBoolOptions_def ghAPIValueOptions_def api_value_def
        api_apply_def Let_def)
qed

lemma api_loop_attached:
  assumes "list_all printable v" "v \<noteq> []" "hd v \<noteq> CHR ''=''"
  shows "api_loop [''-X'' @ v] st = Some (st\<lparr>api_explicit := Some v\<rparr>)"
    "api_loop [''-X='' @ v] st = Some (st\<lparr>api_explicit := Some v\<rparr>)"
    "api_loop [''--method='' @ v] st = Some (st\<lparr>api_explicit := Some v\<rparr>)"
proof -
  have trim: "TrimSpace (''-X'' @ v) = ''-X'' @ v" "TrimSpace (''-X='' @ v) = ''-X='' @ v"
    "TrimSpace (''--method='' @ v) = ''--method='' @ v"
    by (rule TrimSpace_printable; use assms(1) in \<open>simp add: printable_def byte_def is_space_def\<close>)+
  obtain c w where v: "v = c # w" "c \<noteq> CHR ''=''" using assms(2,3) by (cases v) auto
  show "api_loop [''-X'' @ v] st = Some (st\<lparr>api_explicit := Some v\<rparr>)"
    using trim(1) v by (simp add: api_loop.simps ghAPIBoolOptions_def ghAPIValueOptions_def api_apply_def TrimPrefix_def Let_def)
  show "api_loop [''-X='' @ v] st = Some (st\<lparr>api_explicit := Some v\<rparr>)"
    using trim(2) v by (simp add: api_loop.simps ghAPIBoolOptions_def ghAPIValueOptions_def api_apply_def TrimPrefix_def Let_def)
  show "api_loop [''--method='' @ v] st = Some (st\<lparr>api_explicit := Some v\<rparr>)"
    using trim(3) v
    by (simp add: api_loop.simps api_long_def CutByte_def ghAPIBoolOptions_def ghAPIValueOptions_def api_apply_def Let_def)
qed

text \<open>Every spelling of the method of an API call means the same: \<^verbatim>\<open>-X V\<close>, \<^verbatim>\<open>-XV\<close>, \<^verbatim>\<open>-X=V\<close>, \<^verbatim>\<open>--method V\<close> and \<^verbatim>\<open>--method=V\<close> are
  read as the same request.\<close>

theorem api_method_spellings:
  assumes "list_all printable v" and "v \<noteq> []" and "hd v \<noteq> CHR ''=''"
  shows "ghAPIRequest P [''-X'' @ v] = ghAPIRequest P [''-X'', v]
    \<and> ghAPIRequest P [''-X='' @ v] = ghAPIRequest P [''-X'', v]
    \<and> ghAPIRequest P [''--method'', v] = ghAPIRequest P [''-X'', v]
    \<and> ghAPIRequest P [''--method='' @ v] = ghAPIRequest P [''-X'', v]"
  unfolding ghAPIRequest_def api_loop_method api_loop_attached [OF assms] by simp

section \<open>Where the code does less than it says\<close>


definition lowercase :: "char \<Rightarrow> bool" where
  "lowercase c = (byte c < 128 \<and> \<not> (65 \<le> byte c \<and> byte c \<le> 90))"

lemma ToLower_lowercase: "list_all lowercase s \<Longrightarrow> ToLower ul s = s"
proof -
  assume low: "list_all lowercase s"
  then have "chunks s = map (\<lambda>c. (Some (byte c), [c])) s"
    by (intro chunks_all_ascii) (auto simp: list_all_iff lowercase_def)
  then have "ToLower ul s = concat (map (\<lambda>c. encode_rune (lower_rune ul (Some (byte c)))) s)"
    by (simp add: ToLower_def of_runes_def runes_def comp_def)
  also have "\<dots> = concat (map (\<lambda>c. [c]) s)"
    using low by (intro arg_cong [where f = concat] map_cong)
      (auto simp: list_all_iff lowercase_def lower_rune_def encode_rune_def byte_def)
  finally show ?thesis by simp
qed

lemma kubectl_name: "programName bare_syntax ''kubectl'' = ''kubectl''"
  by (simp add: programName_def ReplaceAll_def Base_def CutPrefix_def bare_syntax_def ToLower_lowercase lowercase_def byte_def)

lemma kubectl_family: "IsGrantableCommandFamily bare_syntax ''kubectl''"
proof -
  have "TrimSpace ''kubectl'' = ''kubectl''"
    by (rule TrimSpace_printable) (simp add: printable_def byte_def is_space_def)
  moreover have "ToLower ul ''kubectl'' = ''kubectl''" for ul
    by (rule ToLower_lowercase) (simp add: lowercase_def byte_def)
  moreover have "Cut ''kubectl'' '' '' = (''kubectl'', [], False)" by (simp add: Cut_def)
  ultimately show ?thesis
    by (simp add: IsGrantableCommandFamily_def kubectl_name bannedGrantPrograms_def shellControlKeywords_def shellNeutralWords_def)
qed

text \<open>The review of stored keys keeps a key that no call can mint: the tool \<^verbatim>\<open>execute_code\<close> never backs a class, but a stored
  key of that tool stays.\<close>

theorem review_keeps_unminted:
  "ReviewPersistedGrantKey bare_syntax ''exec:execute_code|class=kubectl'' = (''kubectl'', True)
   \<and> grantCommandPrefix bare_syntax observes ''execute_code'' call = None"
proof
  have trim: "TrimSpace ''exec:execute_code|class=kubectl'' = ''exec:execute_code|class=kubectl''"
    "TrimSpace ''kubectl'' = ''kubectl''" "TrimSpace ''execute_code'' = ''execute_code''"
    by (rule TrimSpace_printable; simp add: printable_def byte_def is_space_def)+
  have lower: "ToLower ul ''kubectl'' = ''kubectl''" for ul
    by (rule ToLower_lowercase) (simp add: lowercase_def byte_def)
  have "Cut ''exec:execute_code|class=kubectl'' GrantKeyHostWritesMarker = (''exec:execute_code|class=kubectl'', [], False)"
    by (simp add: Cut_def GrantKeyHostWritesMarker_def)
  moreover have "Cut ''exec:execute_code|class=kubectl'' grantKeyResourceMarker = (''exec:execute_code|class=kubectl'', [], False)"
    by (simp add: Cut_def grantKeyResourceMarker_def)
  moreover have "Cut ''execute_code|class=kubectl'' grantKeyClassMarker = (''execute_code'', ''kubectl'', True)"
    by (simp add: Cut_def grantKeyClassMarker_def)
  moreover have "TrimPrefix ''exec:execute_code|class=kubectl'' ''exec:'' = ''execute_code|class=kubectl''"
    by (simp add: TrimPrefix_def)
  ultimately show "ReviewPersistedGrantKey bare_syntax ''exec:execute_code|class=kubectl'' = (''kubectl'', True)"
    by (simp add: ReviewPersistedGrantKey_def trim lower kubectl_family isExecTool_def execTools_def)
  show "grantCommandPrefix bare_syntax observes ''execute_code'' call = None"
    by (simp add: grantCommandPrefix_def trim ascii_lower_def byte_def)
qed

section \<open>Examples\<close>

definition ls_call :: tool_call where
  "ls_call = \<lparr>arg_text = [''command'' \<mapsto> ''ls''], lease_env = [], on_host = False\<rparr>"

lemma ls_trim: "TrimSpace ''ls'' = ''ls''"
  by (rule TrimSpace_printable) (simp add: printable_def byte_def is_space_def)

lemma ls_payload: "execCommandPayload ''terminal'' ls_call = ''ls''"
  by (simp add: execCommandPayload_def isExecTool_def execTools_def text_arg_def ls_call_def ls_trim List.map_filter_def)

lemma ls_stripped: "stripBenignDevNullRedirects ''ls'' = ''ls''"
proof -
  have "\<not> has_benign True ''ls''"
    by (simp add: match_benign_def match_redirect_def match_dup_def match_operator_def CutPrefix_def regexp_blank_def or_else_def)
  then show ?thesis by (simp add: stripBenignDevNullRedirects_def strip_loop.simps ls_trim)
qed

lemma ls_segment: "segment_class bare_syntax (\<lambda>_ _. False) [''ls''] = Inr (Some [''ls''])"
  by (simp add: segment_class_def segmentProgram_def plain_words ls_trim ls_name shellControlKeywords_def shellNeutralWords_def
      bannedGrantPrograms_def grantSegmentPrefix_def grantAPISubcommands_def grantSubcommandPrograms_def boundSelectors_def
      bound_of_def grantBoundSelectors_def)

lemma ls_stands: "classStandsFor (identifyCommand bare_syntax [''ls'']) []"
  by (simp add: ls_identity classStandsFor_def add_layer_def noIdentity_def redirectsProgramResolution_def boundsNoClass_def
      assignments_def program_def declarationBuiltins_def codeInjection_def selectsConfiguration_def boundSelectors_def
      bound_of_def grantBoundSelectors_def)

lemma ls_segments_class: "classSegments bare_syntax ''ls'' [] = Some [[''ls'']]"
proof -
  have lower: "ToLower ul ''ls'' = ''ls''" for ul by (rule ToLower_lowercase) (simp add: lowercase_def byte_def)
  have "classCommands bare_syntax ''ls'' [] = Some [[''ls'']]"
    unfolding classCommands_def ls_reading ls_parsed using ls_stands
    by (simp add: field_command_def) (simp add: ls_identity add_layer_def noIdentity_def program_def argv_def)
  moreover have "\<not> hasDangerousDevRedirect bare_syntax ''ls''" by (simp add: hasDangerousDevRedirect_def lower)
  moreover have "literal_payload bare_syntax ''ls''"
    by (simp add: literal_payload_def lower grantComplexShellMarkers_def grantDeviceMarkers_def destructiveSubstrings_def
        egressSubstrings_def hardlineDiskDevices_def)
  ultimately show ?thesis by (simp add: classSegments_def ls_stripped)
qed

lemma ls_class: "grantCommandPrefix bare_syntax (\<lambda>_ _. False) ''terminal'' ls_call = Some [''ls'']"
proof -
  have "TrimSpace ''terminal'' = ''terminal''" by (rule TrimSpace_printable) (simp add: printable_def byte_def is_space_def)
  moreover have "lease_env ls_call = []" by (simp add: ls_call_def)
  ultimately show ?thesis
    by (simp add: grantCommandPrefix_def ls_payload ls_trim ls_segments_class segments_class_def join_class_def ls_segment
        ascii_lower_def byte_def)
qed


theorem class_configuration_fixed_witness:
  "fixed_configuration (identifyCommand bare_syntax [''ls'']) (lease_env ls_call)"
  using ls_class
proof (rule class_configuration_fixed)
  show "runs_below maxScriptDepth bare_syntax (stripBenignDevNullRedirects (TrimSpace (execCommandPayload ''terminal'' ls_call))) [''ls'']"
    by (simp add: ls_payload ls_trim ls_stripped ls_runs)
qed

lemma ls_option_class: "has_class bare_syntax (\<lambda>_ _. False) [''ls''] [''ls'', ''-l'']"
proof -
  have "TrimSpace ''-l'' = ''-l''" by (rule TrimSpace_printable) (simp add: printable_def byte_def is_space_def)
  then show ?thesis
    by (simp add: has_class_def segment_class_def segmentProgram_def plain_words ls_trim ls_name shellControlKeywords_def
        shellNeutralWords_def bannedGrantPrograms_def grantSegmentPrefix_def grantAPISubcommands_def grantSubcommandPrograms_def
        boundSelectors_def bound_of_def grantBoundSelectors_def)
qed

theorem class_binds_identity_witness:
  "class_base bare_syntax [''ls''] = class_base bare_syntax [''ls'', ''-l'']
   \<and> boundSelectors (class_base bare_syntax [''ls'']) (class_args [''ls''])
     = boundSelectors (class_base bare_syntax [''ls'', ''-l'']) (class_args [''ls'', ''-l''])
   \<and> grantSegmentPrefix bare_syntax (class_base bare_syntax [''ls'']) (class_args [''ls''])
     = grantSegmentPrefix bare_syntax (class_base bare_syntax [''ls'', ''-l'']) (class_args [''ls'', ''-l''])"
proof (rule class_binds_identity)
  show "keeps_hyphens bare_syntax" by (simp add: keeps_hyphens_def bare_syntax_def)
  show "has_class bare_syntax (\<lambda>_ _. False) [''ls''] [''ls'']" by (simp add: has_class_def ls_segment)
  show "has_class bare_syntax (\<lambda>_ _. False) [''ls''] [''ls'', ''-l'']" by (rule ls_option_class)
qed

lemma api_reads: "ghAPIRequest bare_syntax [] \<noteq> None" "ghAPIRequest bare_syntax [''-i''] = ghAPIRequest bare_syntax []"
proof -
  have "TrimSpace ''-i'' = ''-i''" by (rule TrimSpace_printable) (simp add: printable_def byte_def is_space_def)
  then show "ghAPIRequest bare_syntax [''-i''] = ghAPIRequest bare_syntax []"
    by (simp add: ghAPIRequest_def api_loop.simps ghAPIBoolOptions_def Let_def)
qed (simp add: ghAPIRequest_def api_loop.simps api_method_def api_start_def)

theorem api_class_fixes_method_witness:
  "\<exists>a b. ghAPIRequest bare_syntax [] = Some a \<and> ghAPIRequest bare_syntax [''-i''] = Some b \<and> call_method a = call_method b
    \<and> \<not> call_host a \<and> \<not> call_host b"
proof (rule api_class_fixes_method)
  have api: "TrimSpace ''api'' = ''api''" "ToLower ul ''api'' = ''api''" for ul
    by (rule TrimSpace_printable, simp add: printable_def byte_def is_space_def)
      (rule ToLower_lowercase, simp add: lowercase_def byte_def)
  show "grantSegmentPrefix bare_syntax ''gh'' [''api''] = grantSegmentPrefix bare_syntax ''gh'' [''api'', ''-i'']"
    by (simp add: grantSegmentPrefix_def grantAPISubcommands_def grantAPIPrefix_def api api_reads split: option.splits)
  show "grantSegmentPrefix bare_syntax ''gh'' [''api''] \<noteq> []"
    by (simp add: grantSegmentPrefix_def grantAPISubcommands_def grantAPIPrefix_def api ghAPIRequest_def api_loop.simps
        api_method_def api_start_def)
qed

theorem api_method_spellings_witness:
  "ghAPIRequest bare_syntax [''-XPUT''] = ghAPIRequest bare_syntax [''-X'', ''PUT'']
   \<and> ghAPIRequest bare_syntax [''-X=PUT''] = ghAPIRequest bare_syntax [''-X'', ''PUT'']
   \<and> ghAPIRequest bare_syntax [''--method'', ''PUT''] = ghAPIRequest bare_syntax [''-X'', ''PUT'']
   \<and> ghAPIRequest bare_syntax [''--method=PUT''] = ghAPIRequest bare_syntax [''-X'', ''PUT'']"
  using api_method_spellings [of "''PUT''" bare_syntax] by (simp add: printable_def byte_def is_space_def)

section \<open>Keys and rules\<close>

lemma rule_tokens_two:
  assumes "rule_tokens P words tokens = Some ts" "length ts = 2" "length tokens < 2"
    and "tokens \<noteq> [] \<longrightarrow> prefixRuleAllowedProgram (hd tokens)"
  shows "prefixRuleAllowedProgram (hd ts) \<and> \<not> HasPrefix (ts ! 1) ''-''"
  using assms
proof (induction words arbitrary: tokens)
  case (Cons word words)
  define t where "t = TrimSpace word"
  define tokens' where "tokens' = tokens @ [if tokens = [] then programName P t else t]"
  show ?case
  proof (cases "t = []")
    case True
    with Cons show ?thesis by (simp add: t_def)
  next
    case False
    from Cons.prems(1-3) False have lit: "\<not> ContainsAny t (''$*?~'' @ [CHR 0x60, DQUOTE, SQUOTE, BACKSLASH])"
      by (auto simp: Let_def t_def split: if_splits)
    from Cons.prems(1-3) False lit have allowed: "\<not> (tokens = [] \<and> \<not> prefixRuleAllowedProgram (programName P t))"
      and hyphen: "\<not> (tokens \<noteq> [] \<and> HasPrefix t ''-'')"
      by (auto simp: Let_def t_def split: if_splits)
    then have step: "(if length tokens' = 2 then Some tokens' else rule_tokens P words tokens') = Some ts"
      using Cons.prems(1) False lit unfolding t_def tokens'_def
      by (simp only: rule_tokens.simps Let_def approvalRuleCommandPrefixTokens_def if_False)
    have head: "prefixRuleAllowedProgram (hd tokens')" using allowed Cons.prems(4) by (auto simp: tokens'_def hd_append)
    show ?thesis
    proof (cases "length tokens' = 2")
      case True
      then have "ts = tokens'" "length tokens = 1" using step by (simp_all add: tokens'_def)
      moreover from this(2) obtain a where "tokens = [a]" by (cases tokens) auto
      ultimately show ?thesis using head hyphen by (simp add: tokens'_def)
    next
      case False
      then have "length tokens' < 2" using Cons.prems(3) by (cases tokens) (simp_all add: tokens'_def)
      with Cons.IH [of tokens'] False step head Cons.prems(2) show ?thesis by simp
    qed
  qed
qed simp

lemma rule_tokens_le: "rule_tokens P words tokens = Some ts \<Longrightarrow> length tokens < 2 \<Longrightarrow> length ts \<le> 2"
proof (induction words arbitrary: tokens)
  case (Cons word words)
  then have "length tokens = 0 \<or> length tokens = 1" by linarith
  with Cons show ?case by (auto simp: Let_def approvalRuleCommandPrefixTokens_def split: if_splits)
qed simp

text \<open>A prefix rule covers exactly a program and its first operand: the rule is two words, the program is one that a prefix
  may stand for, the second word is no option, and the payload is one command without bound selectors.\<close>

theorem prefix_rule_two_words:
  assumes "approvalCommandPrefix P toolName call = Some rule"
  shows "\<exists>prog operand. rule = prog @ '' '' @ operand \<and> prefixRuleAllowedProgram prog \<and> \<not> HasPrefix operand ''-''
    \<and> (\<exists>words. classSegments P (TrimSpace (execCommandPayload toolName call)) (lease_env call) = Some [words])"
proof -
  let ?payload = "TrimSpace (execCommandPayload toolName call)"
  from assms obtain segments where seg: "classSegments P ?payload (lease_env call) = Some segments"
    by (auto simp: approvalCommandPrefix_def Let_def split: if_splits option.splits)
  with assms obtain words where one: "segments = [words]"
    by (auto simp: approvalCommandPrefix_def Let_def split: if_splits option.splits list.splits)
  with assms seg obtain k ts where ts: "rule_tokens P (drop k words) [] = Some ts" "\<not> length ts < 2" "rule = Join ts '' ''"
    by (auto simp: approvalCommandPrefix_def Let_def approvalRuleCommandPrefixTokens_def split: if_splits option.splits)
  then have "length ts = 2" using rule_tokens_le [of P "drop k words" "[]" ts] by simp
  then obtain a b where ab: "ts = [a, b]" by (metis length_0_conv length_Suc_conv numeral_2_eq_2)
  with rule_tokens_two [OF ts(1)] have "prefixRuleAllowedProgram a" "\<not> HasPrefix b ''-''" by simp_all
  with ab ts(3) seg one show ?thesis by auto
qed

lemma exec_tool_bar: "isExecTool t \<Longrightarrow> CHR ''|'' \<notin> set t"
  by (auto simp: isExecTool_def execTools_def)

lemma append_bar_inject:
  "CHR ''|'' \<notin> set a \<Longrightarrow> CHR ''|'' \<notin> set b \<Longrightarrow> a @ CHR ''|'' # s = b @ CHR ''|'' # t \<longleftrightarrow> a = b \<and> s = t"
  by (induction a arbitrary: b) (case_tac b; auto)+

text \<open>A stored key of a sandboxed call releases only its own class: two calls of exec tools with the same key have the same
  tool and the same class label.\<close>

theorem sandbox_key_names_class:
  assumes "isExecTool first" and "isExecTool second" and "\<not> on_host a" and "\<not> on_host b"
    and "approvalPatternKeyForScope P observes digest first a r s \<noteq> []"
    and "approvalPatternKeyForScope P observes digest first a r s = approvalPatternKeyForScope P observes digest second b r' s'"
  shows "first = second \<and> (\<exists>c d. grantCommandPrefix P observes first a = Some c \<and> grantCommandPrefix P observes second b = Some d
    \<and> grantPrefixLabel c = grantPrefixLabel d)"
proof -
  have key: "\<exists>c. grantCommandPrefix P observes t x = Some c
      \<and> approvalPatternKeyForScope P observes digest t x r s = ''exec:'' @ t @ CHR ''|'' # ''class='' @ grantPrefixLabel c"
    if "isExecTool t" "\<not> on_host x" "approvalPatternKeyForScope P observes digest t x r s \<noteq> []" for t x r s
    using that by (cases "grantCommandPrefix P observes t x") (simp_all add: approvalPatternKeyForScope_def grantKeyClassMarker_def)
  obtain c where c: "grantCommandPrefix P observes first a = Some c"
    "approvalPatternKeyForScope P observes digest first a r s = ''exec:'' @ first @ CHR ''|'' # ''class='' @ grantPrefixLabel c"
    using key [OF assms(1,3,5)] by blast
  obtain d where d: "grantCommandPrefix P observes second b = Some d"
    "approvalPatternKeyForScope P observes digest second b r' s' = ''exec:'' @ second @ CHR ''|'' # ''class='' @ grantPrefixLabel d"
    using key [OF assms(2,4)] assms(5,6) by metis
  from c(2) d(2) assms(6) have "first @ CHR ''|'' # ''class='' @ grantPrefixLabel c = second @ CHR ''|'' # ''class='' @ grantPrefixLabel d"
    by simp
  then have "first = second" "grantPrefixLabel c = grantPrefixLabel d"
    using append_bar_inject [OF exec_tool_bar [OF assms(1)] exec_tool_bar [OF assms(2)]] by simp_all
  with c(1) d(1) show ?thesis by blast
qed

theorem sandbox_key_names_class_witness:
  "''terminal'' = ''terminal'' \<and> (\<exists>c d. grantCommandPrefix bare_syntax (\<lambda>_ _. False) ''terminal'' ls_call = Some c
    \<and> grantCommandPrefix bare_syntax (\<lambda>_ _. False) ''terminal'' ls_call = Some d \<and> grantPrefixLabel c = grantPrefixLabel d)"
proof (rule sandbox_key_names_class [of "''terminal''" "''terminal''" ls_call ls_call bare_syntax "\<lambda>_ _. False" id "[]" None "[]" None])
  show "approvalPatternKeyForScope bare_syntax (\<lambda>_ _. False) id ''terminal'' ls_call [] None \<noteq> []"
    unfolding approvalPatternKeyForScope_def ls_class by (simp add: isExecTool_def execTools_def ls_call_def)
qed (simp_all add: isExecTool_def execTools_def ls_call_def)

end
