(* ===== verification/EffectClaims.thy ===== *)
theory EffectClaims
  imports TaskQueue GoStrings
begin

text \<open>
  The ledger of external effects: \<^verbatim>\<open>internal/control/external_effect_claims.go\<close>, \<^verbatim>\<open>external_effect_lifecycle.go\<close>,
  \<^verbatim>\<open>external_effect_observation.go\<close>, \<^verbatim>\<open>external_effect_recovery.go\<close> and \<^verbatim>\<open>external_effect_settlement.go\<close>. A call that may
  change something outside the workspace claims its targets first; the claim is reserved before dispatch, uncertain after
  it, and observed once something shows or settles its outcome.

  The record \<open>effect_store\<close> holds the tables these functions read and write, each a list of rows. An operation is a
  transaction: it returns its result and the store, which an error leaves unchanged. JSON columns are kept as the values
  they encode; an absent field is the empty string. A busy database and failing calls are not modelled, so the retry
  loops around the transactions are not either. New identifiers and the current time in seconds are arguments; the digest
  of a text is the argument \<open>digest\<close>. The checks of an owner-reviewed effect script (\<^verbatim>\<open>ObserveEffectClaimsForWatch\<close>) are
  not modelled; the step \<open>owner_watch\<close> is its statement on the claims, for any group and at any time.
\<close>

section \<open>Rows\<close>

definition UnknownExternalTarget :: string where "UnknownExternalTarget = ''*''"

definition ExternalClaimReserved :: string where "ExternalClaimReserved = ''reserved''"
definition ExternalClaimUncertain :: string where "ExternalClaimUncertain = ''uncertain''"
definition ExternalClaimObserved :: string where "ExternalClaimObserved = ''observed''"

definition ExternalClaimInFlight :: string where "ExternalClaimInFlight = ''in_flight''"
definition ExternalClaimWatched :: string where "ExternalClaimWatched = ''watched''"
definition ExternalClaimLeftUncertain :: string where "ExternalClaimLeftUncertain = ''left_uncertain''"

lemmas claim_states = ExternalClaimReserved_def ExternalClaimUncertain_def ExternalClaimObserved_def

lemmas dispositions = ExternalClaimInFlight_def ExternalClaimWatched_def ExternalClaimLeftUncertain_def

record effect_claim =
  ec_id :: string
  ec_tenant :: string
  ec_person :: string
  ec_run :: string
  ec_effect :: string
  ec_target :: string
  ec_state :: string
  ec_ref :: string
  ec_created :: int
  ec_sequence :: int

record run_row =
  run_tenant :: string
  run_id :: string
  run_person :: string
  run_status :: string
  run_resumes :: string
  run_thread :: string

text \<open>The payloads of the lifecycle events; an event of another kind carries a text.\<close>

record externalEffectDispatchPayload =
  dp_effect :: string
  dp_call :: string
  dp_tool :: string
  dp_summary :: string
  dp_background :: bool
  dp_instance :: string

record externalEffectReturnPayload =
  rp_effect :: string
  rp_call :: string
  rp_outcome :: string
  rp_exit :: "int option"

record externalEffectAcknowledgment =
  ack_claim :: string
  ack_claim_run :: string
  ack_effect :: string
  ack_call :: string
  ack_start :: int

datatype effect_payload =
    DispatchPayload externalEffectDispatchPayload
  | ReturnPayload externalEffectReturnPayload
  | ObservedPayload externalEffectAcknowledgment
  | SpentPayload string string
  | OtherPayload string

record effect_event =
  ev_id :: string
  ev_cursor :: int
  ev_thread :: string
  ev_run :: string
  ev_type :: string
  ev_payload :: effect_payload
  ev_key :: string

record watch_receipt =
  wr_version :: int
  wr_command_hash :: string
  wr_effect_rule :: string
  wr_recovery_claim :: string
  wr_effect :: string
  wr_effect_run :: string

record watch_row =
  w_id :: string
  w_tenant :: string
  w_person :: string
  w_run :: string
  w_status :: string
  w_command :: string
  w_receipt :: watch_receipt
  w_wait_group :: string
  w_finalized :: bool
  w_revision :: nat
  w_sequence :: int
  w_created :: int

record resource_wait =
  rw_tenant :: string
  rw_person :: string
  rw_run :: string
  rw_effect :: string
  rw_targets :: "string list"
  rw_status :: string

record effect_settlement =
  st_id :: string
  st_tenant :: string
  st_person :: string
  st_claim :: string
  st_run :: string
  st_effect :: string
  st_actor :: string
  st_channel :: string
  st_reason :: string
  st_created :: int

record account_row =
  ac_tenant :: string
  ac_id :: string
  ac_person :: string
  ac_status :: string
  ac_user :: string

record effect_store =
  es_claims :: "effect_claim list"
  es_runs :: "run_row list"
  es_events :: "effect_event list"
  es_watches :: "watch_row list"
  es_waits :: "resource_wait list"
  es_settlements :: "effect_settlement list"
  es_accounts :: "account_row list"
  es_cursor :: int

datatype effect_error = OwnerRequired | ClaimIncomplete | InvalidTarget | RunNotActive | TargetSetChanged | ObservationUsed
  | EffectRunMissing | EffectIdentityRequired | ClaimNotIn string | ClaimNotReserved | WrongReference | EffectClaimNotFound
  | AlreadyReleased | NeverDispatched | EffectInFlight | ObserverNotFound | ObserverNotRunning | ObservationTooEarly
  | ObservationIncomplete | WatcherNotFound | BindingRequired | BoundElsewhere | NotLineage | NotTrustedObservation
  | SettlementActor | NotSettleable string

section \<open>Targets\<close>

definition target_char :: "char \<Rightarrow> bool" where
  "target_char c = (let b = byte c in 97 \<le> b \<and> b \<le> 122 \<or> 65 \<le> b \<and> b \<le> 90 \<or> 48 \<le> b \<and> b \<le> 57
     \<or> c = CHR ''.'' \<or> c = CHR ''_'' \<or> c = CHR ''-'' \<or> c = CHR '':'')"

definition validExternalTargetKey :: "string \<Rightarrow> bool" where
  "validExternalTargetKey target = (target = UnknownExternalTarget
     \<or> 3 \<le> length target \<and> length target \<le> 256
       \<and> (case CutByte target (CHR '':'') of (kind, ident, ok) \<Rightarrow> ok \<and> kind \<noteq> [] \<and> ident \<noteq> [])
       \<and> list_all target_char target)"

definition externalTargetsConflict :: "string \<Rightarrow> string \<Rightarrow> bool" where
  "externalTargetsConflict a b = (a = UnknownExternalTarget \<or> b = UnknownExternalTarget \<or> a = b)"

section \<open>Runs and events\<close>

definition owner_run :: "effect_store \<Rightarrow> string \<Rightarrow> string \<Rightarrow> run_row option" where
  "owner_run s tenantID runID = find (\<lambda>r. run_tenant r = tenantID \<and> run_id r = runID) (es_runs s)"

definition resumeChainMaxHops :: nat where
  "resumeChainMaxHops = 64"

text \<open>The recursive query of \<^verbatim>\<open>runLineage\<close>: the run and the runs it resumes, at most the given number of edges up.\<close>

fun lineage_ids :: "nat \<Rightarrow> run_row list \<Rightarrow> string \<Rightarrow> string \<Rightarrow> string \<Rightarrow> string list" where
  "lineage_ids 0 rs tenantID personID ident =
     map run_id (filter (\<lambda>r. run_tenant r = tenantID \<and> run_person r = personID \<and> run_id r = ident) rs)"
| "lineage_ids (Suc k) rs tenantID personID ident =
     concat (map (\<lambda>r. run_id r # lineage_ids k rs tenantID personID (run_resumes r))
       (filter (\<lambda>r. run_tenant r = tenantID \<and> run_person r = personID \<and> run_id r = ident) rs))"

definition runLineage :: "effect_store \<Rightarrow> string \<Rightarrow> string \<Rightarrow> string \<Rightarrow> string list" where
  "runLineage s tenantID personID runID =
     (if TrimSpace runID = [] then [] else runID # lineage_ids resumeChainMaxHops (es_runs s) tenantID personID runID)"

definition externalEffectDispatchKey :: "string \<Rightarrow> string \<Rightarrow> string" where
  "externalEffectDispatchKey runID effectID = ''external-effect-dispatched:'' @ runID @ '':'' @ effectID"

definition externalEffectReturnKey :: "string \<Rightarrow> string \<Rightarrow> string" where
  "externalEffectReturnKey runID effectID = ''external-effect-returned:'' @ runID @ '':'' @ effectID"

definition keyed_event :: "effect_store \<Rightarrow> string \<Rightarrow> effect_event option" where
  "keyed_event s key = find (\<lambda>e. ev_key e = key) (es_events s)"

definition nextEffectSequenceTx :: "effect_store \<Rightarrow> int \<times> effect_store" where
  "nextEffectSequenceTx s = (es_cursor s + 1, s\<lparr>es_cursor := es_cursor s + 1\<rparr>)"

definition AllocateEffectSequence :: "effect_store \<Rightarrow> int \<times> effect_store" where
  "AllocateEffectSequence s = nextEffectSequenceTx s"

text \<open>The events, one per key; a duplicate key keeps the first record.\<close>

definition insertEffectEventTx :: "string \<Rightarrow> string \<Rightarrow> string \<Rightarrow> string \<Rightarrow> effect_payload \<Rightarrow> string \<Rightarrow> effect_store
    \<Rightarrow> effect_error + (bool \<times> int) \<times> effect_store" where
  "insertEffectEventTx uuid tenantID runID eventType payload key s =
     (case owner_run s tenantID runID of
        None \<Rightarrow> Inl EffectRunMissing
      | Some r \<Rightarrow>
          (let (cursor, s') = nextEffectSequenceTx s;
               e = \<lparr>ev_id = ''event_'' @ uuid, ev_cursor = cursor, ev_thread = run_thread r, ev_run = runID,
                    ev_type = eventType, ev_payload = payload, ev_key = key\<rparr>
           in if key \<noteq> [] \<and> keyed_event s key \<noteq> None then Inr ((False, cursor), s')
              else Inr ((True, cursor), s'\<lparr>es_events := es_events s' @ [e]\<rparr>)))"

section \<open>Where a claim stands\<close>

record externalClaimFacts =
  f_claim :: effect_claim
  f_owner :: string
  f_background :: bool
  f_returned :: bool
  f_cursor :: int
  f_watched :: bool
  f_here :: bool

definition group_of :: "effect_claim \<Rightarrow> string \<times> string \<times> string" where
  "group_of c = (ec_tenant c, ec_run c, ec_effect c)"

text \<open>A live watcher bound to the effect of a claim, the \<^verbatim>\<open>EXISTS\<close> of \<^verbatim>\<open>externalClaimFactsSQL\<close>.\<close>

definition watches_effect :: "effect_store \<Rightarrow> effect_claim \<Rightarrow> watch_row \<Rightarrow> bool" where
  "watches_effect s c w = (w_tenant w = ec_tenant c \<and> w_person w = ec_person c
     \<and> w_status w \<in> {''pending'', ''running'', ''succeeded''} \<and> \<not> w_finalized w
     \<and> (wr_effect (w_receipt w) = ec_effect c \<and> wr_effect_rule (w_receipt w) \<noteq> []
          \<and> (if wr_effect_run (w_receipt w) = [] then w_run w else wr_effect_run (w_receipt w)) = ec_run c
        \<or> (\<exists>g \<in> set (es_claims s). group_of g = group_of c \<and> wr_recovery_claim (w_receipt w) = ec_id g)))"

definition dispatch_of :: "effect_store \<Rightarrow> effect_claim \<Rightarrow> externalEffectDispatchPayload option" where
  "dispatch_of s c = (case keyed_event s (externalEffectDispatchKey (ec_run c) (ec_effect c)) of
     Some e \<Rightarrow> (case ev_payload e of DispatchPayload d \<Rightarrow> Some d | _ \<Rightarrow> None)
   | None \<Rightarrow> None)"

definition return_of :: "effect_store \<Rightarrow> effect_claim \<Rightarrow> effect_event option" where
  "return_of s c = keyed_event s (externalEffectReturnKey (ec_run c) (ec_effect c))"

definition scanExternalClaimFacts :: "string \<Rightarrow> effect_store \<Rightarrow> effect_claim \<Rightarrow> externalClaimFacts" where
  "scanExternalClaimFacts inst s c =
     \<lparr>f_claim = c,
      f_owner = (case owner_run s (ec_tenant c) (ec_run c) of None \<Rightarrow> [] | Some r \<Rightarrow> run_status r),
      f_background = (case dispatch_of s c of None \<Rightarrow> False | Some d \<Rightarrow> dp_background d),
      f_returned = (return_of s c \<noteq> None),
      f_cursor = (case return_of s c of None \<Rightarrow> 0 | Some e \<Rightarrow> ev_cursor e),
      f_watched = list_ex (watches_effect s c) (es_watches s),
      f_here = (case dispatch_of s c of None \<Rightarrow> False
                | Some d \<Rightarrow> dp_background d \<and> dp_instance d \<noteq> [] \<and> dp_instance d = inst)\<rparr>"

text \<open>\<^const>\<open>None\<close> is a reservation to skip.\<close>

definition disposition :: "externalClaimFacts \<Rightarrow> bool \<Rightarrow> string option" where
  "disposition f ownChain =
     (let ownerLive = (f_owner f = ''running'') in
      if ec_state (f_claim f) = ExternalClaimReserved then (if ownerLive then Some ExternalClaimInFlight else None)
      else if \<not> f_returned f \<and> f_background f \<and> f_here f then Some ExternalClaimInFlight
      else if \<not> f_returned f \<and> \<not> f_background f \<and> ownerLive \<and> \<not> ownChain then Some ExternalClaimInFlight
      else if f_watched f then Some ExternalClaimWatched
      else Some ExternalClaimLeftUncertain)"

definition observationFollowsEffect :: "int \<Rightarrow> int \<Rightarrow> int \<Rightarrow> int \<Rightarrow> int \<Rightarrow> bool" where
  "observationFollowsEffect claimSeq claimAt returnCursor obsSeq obsAt =
     (if obsSeq = 0 \<and> claimSeq = 0 then obsAt > claimAt
      else if obsSeq = 0 \<or> obsSeq \<le> claimSeq then False
      else returnCursor = 0 \<or> obsSeq > returnCursor)"

definition ExternalEffectObservedEvent :: string where "ExternalEffectObservedEvent = ''external_effect.observed''"
definition ExternalEffectObservationSpent :: string where "ExternalEffectObservationSpent = ''external_effect.observation_consumed''"
definition ExternalEffectDispatchedEvent :: string where "ExternalEffectDispatchedEvent = ''external_effect.dispatched''"
definition ExternalEffectReturnedEvent :: string where "ExternalEffectReturnedEvent = ''external_effect.returned''"

definition spent_key :: "string \<Rightarrow> string" where
  "spent_key eventID = ''external-effect-observation-consumed:'' @ eventID"

text \<open>The unspent observations of a run with their event ids, in the order of their cursors.\<close>

definition externalEffectAcknowledgmentsTx :: "effect_store \<Rightarrow> string \<Rightarrow> string
    \<Rightarrow> (string \<times> externalEffectAcknowledgment) list" where
  "externalEffectAcknowledgmentsTx s tenantID runID =
     List.map_filter (\<lambda>e. case ev_payload e of ObservedPayload a \<Rightarrow> Some (ev_id e, a) | _ \<Rightarrow> None)
       (sort_key ev_cursor (filter (\<lambda>e. owner_run s tenantID runID \<noteq> None \<and> ev_run e = runID
          \<and> ev_type e = ExternalEffectObservedEvent \<and> keyed_event s (spent_key (ev_id e)) = None) (es_events s)))"

definition forClaim :: "(string \<times> externalEffectAcknowledgment) list \<Rightarrow> effect_claim \<Rightarrow> int
    \<Rightarrow> (string \<times> externalEffectAcknowledgment) option" where
  "forClaim acks c returnCursor = find (\<lambda>(_, a). ack_claim_run a = ec_run c \<and> ack_effect a = ec_effect c
     \<and> observationFollowsEffect (ec_sequence c) 0 returnCursor (ack_start a) 0) acks"

text \<open>A conflicting claim as a requesting run sees it, and the groups of them.\<close>

record claim_view =
  v_claim :: effect_claim
  v_disposition :: string
  v_same_chain :: bool
  v_cursor :: int

record ExternalEffectConflicts =
  All :: "claim_view list"
  Own :: "claim_view list"
  Waiting :: "claim_view list"
  Foreign :: "claim_view list"
  Acknowledged :: "(claim_view \<times> string \<times> externalEffectAcknowledgment) list"

definition claim_view_of :: "string \<Rightarrow> effect_store \<Rightarrow> string list \<Rightarrow> effect_claim \<Rightarrow> claim_view option" where
  "claim_view_of inst s lineage c =
     (let f = scanExternalClaimFacts inst s c; ownChain = (ec_run c \<in> set lineage) in
      map_option (\<lambda>d. \<lparr>v_claim = c, v_disposition = d, v_same_chain = ownChain, v_cursor = f_cursor f\<rparr>)
        (disposition f ownChain))"

definition conflicts_with :: "string list \<Rightarrow> effect_claim \<Rightarrow> bool" where
  "conflicts_with targets c = list_ex (\<lambda>t. externalTargetsConflict t (ec_target c)) targets"

definition blockers :: "string \<Rightarrow> effect_store \<Rightarrow> string \<Rightarrow> string \<Rightarrow> string \<Rightarrow> string list \<Rightarrow> claim_view list" where
  "blockers inst s tenantID personID runID targets =
     List.map_filter (claim_view_of inst s (runLineage s tenantID personID runID))
       (filter (conflicts_with targets)
         (sort_key (\<lambda>c. (ec_created c, ec_id c))
           (filter (\<lambda>c. ec_tenant c = tenantID \<and> ec_person c = personID \<and> ec_state c \<noteq> ExternalClaimObserved) (es_claims s))))"

definition classifyExternalBlockers :: "string \<Rightarrow> effect_store \<Rightarrow> string \<Rightarrow> string \<Rightarrow> string \<Rightarrow> string list
    \<Rightarrow> ExternalEffectConflicts" where
  "classifyExternalBlockers inst s tenantID personID runID targets =
     (let acks = (if runID = [] then [] else externalEffectAcknowledgmentsTx s tenantID runID);
          vs = blockers inst s tenantID personID runID targets;
          left = filter (\<lambda>v. v_disposition v \<noteq> ExternalClaimWatched \<and> \<not> v_same_chain v
                   \<and> v_disposition v \<noteq> ExternalClaimInFlight) vs
      in \<lparr>All = vs,
          Own = filter (\<lambda>v. v_disposition v \<noteq> ExternalClaimWatched \<and> v_same_chain v) vs,
          Waiting = filter (\<lambda>v. v_disposition v = ExternalClaimWatched
                      \<or> \<not> v_same_chain v \<and> v_disposition v = ExternalClaimInFlight) vs,
          Foreign = filter (\<lambda>v. forClaim acks (v_claim v) (v_cursor v) = None) left,
          Acknowledged = List.map_filter (\<lambda>v. map_option (Pair v) (forClaim acks (v_claim v) (v_cursor v))) left\<rparr>)"

definition needsDecision :: "ExternalEffectConflicts \<Rightarrow> bool" where
  "needsDecision c = (Own c \<noteq> [] \<or> Waiting c = [] \<and> Foreign c \<noteq> [])"

section \<open>Claiming\<close>

record ExternalEffectClaimRequest =
  q_tenant :: string
  q_person :: string
  q_run :: string
  q_effect :: string
  q_targets :: "string list"
  q_tolerated :: "string list"
  q_defer :: bool

record ExternalEffectClaimDecision =
  Claims :: "effect_claim list"
  Granted :: bool
  AlreadyKnown :: bool
  BlockedByRun :: string
  NeedsObservation :: bool
  NeedsApproval :: bool
  ApprovalClaims :: "claim_view list"
  BlockingClaims :: "claim_view list"
  DecideAfterWait :: "claim_view list"

definition noDecision :: ExternalEffectClaimDecision where
  "noDecision = \<lparr>Claims = [], Granted = False, AlreadyKnown = False, BlockedByRun = [], NeedsObservation = False,
     NeedsApproval = False, ApprovalClaims = [], BlockingClaims = [], DecideAfterWait = []\<rparr>"

definition loadExternalEffectClaimsTx :: "effect_store \<Rightarrow> string \<Rightarrow> string \<Rightarrow> string \<Rightarrow> effect_claim list" where
  "loadExternalEffectClaimsTx s tenantID runID effectID =
     sort_key ec_target (filter (\<lambda>c. group_of c = (tenantID, runID, effectID)) (es_claims s))"

text \<open>One acknowledged blocker of \<^verbatim>\<open>spendExternalEffectAcknowledgmentsTx\<close>; the state is the event ids that are spent and the store.\<close>

definition spend_one :: "(nat \<Rightarrow> string) \<Rightarrow> ExternalEffectClaimRequest \<Rightarrow> string list
    \<Rightarrow> claim_view \<times> string \<times> externalEffectAcknowledgment \<Rightarrow> string list \<times> effect_store
    \<Rightarrow> effect_error + string list \<times> effect_store" where
  "spend_one eventIDs q tolerated b st =
     (case b of (v, eventID, _) \<Rightarrow> (case st of (spent, s) \<Rightarrow>
        if ec_id (v_claim v) \<in> set tolerated \<or> eventID \<in> set spent then Inr (spent, s)
        else (case insertEffectEventTx (eventIDs (length spent)) (q_tenant q) (q_run q) ExternalEffectObservationSpent
                     (SpentPayload eventID (q_effect q)) (spent_key eventID) s of
            Inl e \<Rightarrow> Inl e
          | Inr ((inserted, _), s') \<Rightarrow> if inserted then Inr (eventID # spent, s') else Inl ObservationUsed)))"

definition spendExternalEffectAcknowledgmentsTx :: "(nat \<Rightarrow> string) \<Rightarrow> ExternalEffectClaimRequest \<Rightarrow> ExternalEffectConflicts
    \<Rightarrow> string list \<Rightarrow> effect_store \<Rightarrow> effect_error + effect_store" where
  "spendExternalEffectAcknowledgmentsTx eventIDs q conflicts tolerated s =
     (case foldm (spend_one eventIDs q tolerated) (Acknowledged conflicts) ([], s) of
        Inl e \<Rightarrow> Inl e | Inr (_, s') \<Rightarrow> Inr s')"

definition new_claims :: "(nat \<Rightarrow> string) \<Rightarrow> int \<Rightarrow> ExternalEffectClaimRequest \<Rightarrow> int \<Rightarrow> string list \<Rightarrow> effect_claim list" where
  "new_claims claimIDs now q sequence targets =
     map (\<lambda>(i, target). \<lparr>ec_id = ''effectclaim_'' @ claimIDs i, ec_tenant = q_tenant q, ec_person = q_person q,
       ec_run = q_run q, ec_effect = q_effect q, ec_target = target, ec_state = ExternalClaimReserved, ec_ref = [],
       ec_created = now, ec_sequence = sequence\<rparr>) (List.enumerate 0 targets)"

definition resource_wait_for :: "ExternalEffectClaimRequest \<Rightarrow> string list \<Rightarrow> resource_wait" where
  "resource_wait_for q targets = \<lparr>rw_tenant = q_tenant q, rw_person = q_person q, rw_run = q_run q, rw_effect = q_effect q,
     rw_targets = targets, rw_status = ''pending''\<rparr>"

definition insert_wait :: "resource_wait \<Rightarrow> effect_store \<Rightarrow> effect_store" where
  "insert_wait w s = (if \<exists>x \<in> set (es_waits s). rw_tenant x = rw_tenant w \<and> rw_run x = rw_run w \<and> rw_effect x = rw_effect w
     then s else s\<lparr>es_waits := es_waits s @ [w]\<rparr>)"

text \<open>The part of \<^verbatim>\<open>claimExternalEffectsOnce\<close> after the conflicts are classified.\<close>

definition decide_claim :: "(nat \<Rightarrow> string) \<Rightarrow> (nat \<Rightarrow> string) \<Rightarrow> int \<Rightarrow> ExternalEffectClaimRequest \<Rightarrow> string list
    \<Rightarrow> ExternalEffectConflicts \<Rightarrow> effect_store \<Rightarrow> (effect_error + ExternalEffectClaimDecision) \<times> effect_store" where
  "decide_claim eventIDs claimIDs now q targets conflicts s =
     (let tolerated = map TrimSpace (q_tolerated q);
          unpassed = filter (\<lambda>v. ec_id (v_claim v) \<notin> set tolerated) (Foreign conflicts) in
      if Own conflicts \<noteq> [] then
        (Inr (noDecision\<lparr>BlockedByRun := ec_run (v_claim (hd (Own conflicts))), NeedsObservation := True,
           BlockingClaims := All conflicts\<rparr>), s)
      else if Waiting conflicts \<noteq> [] then
        (Inr (noDecision\<lparr>BlockedByRun := ec_run (v_claim (hd (Waiting conflicts))), BlockingClaims := All conflicts,
           DecideAfterWait := unpassed\<rparr>),
         if q_defer q then s else insert_wait (resource_wait_for q targets) s)
      else if unpassed \<noteq> [] then
        (Inr (noDecision\<lparr>BlockedByRun := ec_run (v_claim (hd unpassed)), NeedsApproval := True,
           ApprovalClaims := unpassed, BlockingClaims := All conflicts\<rparr>), s)
      else (case spendExternalEffectAcknowledgmentsTx eventIDs q conflicts tolerated s of
          Inl e \<Rightarrow> (Inl e, s)
        | Inr s1 \<Rightarrow>
            (let (sequence, s2) = nextEffectSequenceTx s1; claims = new_claims claimIDs now q sequence targets in
             (Inr (noDecision\<lparr>Claims := claims, Granted := True\<rparr>), s2\<lparr>es_claims := es_claims s2 @ claims\<rparr>))))"

definition claimExternalEffectsOnce :: "string \<Rightarrow> (nat \<Rightarrow> string) \<Rightarrow> (nat \<Rightarrow> string) \<Rightarrow> int \<Rightarrow> ExternalEffectClaimRequest
    \<Rightarrow> string list \<Rightarrow> effect_store \<Rightarrow> (effect_error + ExternalEffectClaimDecision) \<times> effect_store" where
  "claimExternalEffectsOnce inst eventIDs claimIDs now q targets s =
     (case owner_run s (q_tenant q) (q_run q) of
        None \<Rightarrow> (Inl RunNotActive, s)
      | Some r \<Rightarrow>
        if run_person r \<noteq> q_person q \<or> run_status r \<noteq> ''running'' then (Inl RunNotActive, s)
        else (let existing = loadExternalEffectClaimsTx s (q_tenant q) (q_run q) (q_effect q) in
          if existing \<noteq> [] then
            (if map ec_target existing \<noteq> targets then (Inl TargetSetChanged, s)
             else (Inr (noDecision\<lparr>Claims := existing, AlreadyKnown := True\<rparr>), s))
          else decide_claim eventIDs claimIDs now q targets
                 (classifyExternalBlockers inst s (q_tenant q) (q_person q) (q_run q) targets) s))"

definition ClaimExternalEffects :: "string \<Rightarrow> (nat \<Rightarrow> string) \<Rightarrow> (nat \<Rightarrow> string) \<Rightarrow> int \<Rightarrow> ExternalEffectClaimRequest
    \<Rightarrow> effect_store \<Rightarrow> (effect_error + ExternalEffectClaimDecision) \<times> effect_store" where
  "ClaimExternalEffects inst eventIDs claimIDs now request s =
     (let q = request\<lparr>q_tenant := normalizeTenant (q_tenant request), q_person := TrimSpace (q_person request),
                q_run := TrimSpace (q_run request), q_effect := TrimSpace (q_effect request)\<rparr>;
          targets = remdups_adj (sort (q_targets q)) in
      if q_person q = [] \<or> q_run q = [] \<or> q_effect q = [] \<or> q_targets q = [] \<or> length (q_targets q) > 16
      then (Inl ClaimIncomplete, s)
      else if \<not> list_all validExternalTargetKey targets then (Inl InvalidTarget, s)
      else claimExternalEffectsOnce inst eventIDs claimIDs now q targets s)"

section \<open>Lifecycle records\<close>

definition set_claims :: "(effect_claim \<Rightarrow> bool) \<Rightarrow> (effect_claim \<Rightarrow> effect_claim) \<Rightarrow> effect_store \<Rightarrow> effect_store" where
  "set_claims guard effect s = s\<lparr>es_claims := map (\<lambda>c. if guard c then effect c else c) (es_claims s)\<rparr>"

definition count_claims :: "(effect_claim \<Rightarrow> bool) \<Rightarrow> effect_store \<Rightarrow> nat" where
  "count_claims guard s = length (filter guard (es_claims s))"

definition observed :: "string \<Rightarrow> effect_claim \<Rightarrow> effect_claim" where
  "observed ref c = c\<lparr>ec_state := ExternalClaimObserved, ec_ref := ref\<rparr>"

definition in_group :: "string \<Rightarrow> string \<Rightarrow> string \<Rightarrow> string \<Rightarrow> effect_claim \<Rightarrow> bool" where
  "in_group tenantID personID runID effectID c = (ec_tenant c = tenantID \<and> ec_person c = personID \<and> ec_run c = runID
     \<and> ec_effect c = effectID)"

definition recordExternalEffectEvent :: "string \<Rightarrow> string \<Rightarrow> string \<Rightarrow> string \<Rightarrow> string \<Rightarrow> string \<Rightarrow> string \<Rightarrow> effect_payload
    \<Rightarrow> string \<Rightarrow> effect_store \<Rightarrow> (effect_error + unit) \<times> effect_store" where
  "recordExternalEffectEvent uuid tenantID personID runID effectID eventType key payload wantState s =
     (if count_claims (\<lambda>c. in_group (normalizeTenant tenantID) personID runID effectID c \<and> ec_state c = wantState) s = 0
      then (Inl (ClaimNotIn wantState), s)
      else (case insertEffectEventTx uuid (normalizeTenant tenantID) runID eventType payload key s of
          Inl e \<Rightarrow> (Inl e, s) | Inr (_, s') \<Rightarrow> (Inr (), s')))"

definition externalEffectSummaryMaxRunes :: nat where
  "externalEffectSummaryMaxRunes = 160"

definition boundEffectSummary :: "string \<Rightarrow> string" where
  "boundEffectSummary txt = (let t = Join (Fields (ToValidUTF8 txt)) '' '' in
     if length (runes t) > externalEffectSummaryMaxRunes
     then of_runes (take (externalEffectSummaryMaxRunes - 1) (runes t)) @ ellipsis else t)"

definition RecordExternalEffectDispatch :: "string \<Rightarrow> string \<Rightarrow> string \<Rightarrow> string \<Rightarrow> string \<Rightarrow> string \<Rightarrow> string \<Rightarrow> string \<Rightarrow> string
    \<Rightarrow> bool \<Rightarrow> effect_store \<Rightarrow> (effect_error + unit) \<times> effect_store" where
  "RecordExternalEffectDispatch inst uuid tenantID personID runID effectID callID tool summary background s =
     (if TrimSpace runID = [] \<or> TrimSpace effectID = [] then (Inl EffectIdentityRequired, s)
      else recordExternalEffectEvent uuid tenantID personID runID effectID ExternalEffectDispatchedEvent
        (externalEffectDispatchKey runID effectID)
        (DispatchPayload \<lparr>dp_effect = effectID, dp_call = callID, dp_tool = tool, dp_summary = boundEffectSummary summary,
           dp_background = background, dp_instance = (if background then inst else [])\<rparr>)
        ExternalClaimReserved s)"

definition RecordExternalEffectReturn :: "string \<Rightarrow> string \<Rightarrow> string \<Rightarrow> string \<Rightarrow> string \<Rightarrow> string \<Rightarrow> string \<Rightarrow> int option
    \<Rightarrow> effect_store \<Rightarrow> (effect_error + unit) \<times> effect_store" where
  "RecordExternalEffectReturn uuid tenantID personID runID effectID callID outcome exitCode s =
     (if TrimSpace runID = [] \<or> TrimSpace effectID = [] then (Inl EffectIdentityRequired, s)
      else recordExternalEffectEvent uuid tenantID personID runID effectID ExternalEffectReturnedEvent
        (externalEffectReturnKey runID effectID)
        (ReturnPayload \<lparr>rp_effect = effectID, rp_call = callID, rp_outcome = boundEffectSummary outcome, rp_exit = exitCode\<rparr>)
        ExternalClaimUncertain s)"

definition abandonedBackgroundOutcome :: string where
  "abandonedBackgroundOutcome = ''background process exit unknown: the daemon that started it stopped''"

text \<open>The background starts of another process without a return, as tenant, person, run, effect and call.\<close>

definition abandoned :: "string \<Rightarrow> effect_store \<Rightarrow> (string \<times> string \<times> string \<times> string \<times> string) list" where
  "abandoned inst s = remdups (List.map_filter (\<lambda>c.
     if ec_state c \<noteq> ExternalClaimUncertain \<or> return_of s c \<noteq> None then None
     else (case dispatch_of s c of
         None \<Rightarrow> None
       | Some d \<Rightarrow> if dp_background d \<and> dp_instance d \<noteq> inst
           then Some (ec_tenant c, ec_person c, ec_run c, ec_effect c, dp_call d) else None)) (es_claims s))"

text \<open>Each return is a transaction of its own; an error ends the loop.\<close>

fun record_returns :: "(nat \<Rightarrow> string) \<Rightarrow> (string \<times> string \<times> string \<times> string \<times> string) list \<Rightarrow> effect_store
    \<Rightarrow> effect_error option \<times> effect_store" where
  "record_returns eventIDs [] s = (None, s)"
| "record_returns eventIDs ((tenantID, personID, runID, effectID, callID) # rest) s =
     (case RecordExternalEffectReturn (eventIDs (length rest)) tenantID personID runID effectID callID
             abandonedBackgroundOutcome None s of
        (Inl e, s') \<Rightarrow> (Some e, s')
      | (Inr _, s') \<Rightarrow> record_returns eventIDs rest s')"

definition RecordAbandonedBackgroundEffects :: "string \<Rightarrow> (nat \<Rightarrow> string) \<Rightarrow> effect_store \<Rightarrow> (effect_error + nat) \<times> effect_store" where
  "RecordAbandonedBackgroundEffects inst eventIDs s =
     (case record_returns eventIDs (abandoned inst s) s of
        (Some e, s') \<Rightarrow> (Inl e, s') | (None, s') \<Rightarrow> (Inr (length (abandoned inst s)), s'))"

definition MarkExternalEffectPossible :: "string \<Rightarrow> string \<Rightarrow> string \<Rightarrow> effect_store \<Rightarrow> (effect_error + unit) \<times> effect_store" where
  "MarkExternalEffectPossible tenantID runID effectID s =
     (if TrimSpace runID = [] \<or> TrimSpace effectID = [] then (Inl EffectIdentityRequired, s)
      else (let own = (\<lambda>c. group_of c = (normalizeTenant tenantID, runID, effectID));
                reserved = (\<lambda>c. own c \<and> ec_state c = ExternalClaimReserved) in
        if count_claims reserved s \<noteq> 0
        then (Inr (), set_claims reserved (\<lambda>c. c\<lparr>ec_state := ExternalClaimUncertain\<rparr>) s)
        else if count_claims (\<lambda>c. own c \<and> ec_state c = ExternalClaimUncertain) s = 0 then (Inl ClaimNotReserved, s)
        else (Inr (), s)))"

section \<open>Releasing\<close>

definition undispatched :: "effect_store \<Rightarrow> effect_claim \<Rightarrow> bool" where
  "undispatched s c = (ec_state c = ExternalClaimReserved
     \<and> list_ex (\<lambda>r. run_tenant r = ec_tenant c \<and> run_id r = ec_run c \<and> run_status r \<noteq> ''running'') (es_runs s))"

definition ObserveUndispatchedExternalEffects :: "effect_store \<Rightarrow> nat \<times> effect_store" where
  "ObserveUndispatchedExternalEffects s =
     (count_claims (undispatched s) s, set_claims (undispatched s) (observed ''recovery:never_dispatched'') s)"

definition ObserveExternalEffect :: "string \<Rightarrow> string \<Rightarrow> string \<Rightarrow> string \<Rightarrow> effect_store \<Rightarrow> (effect_error + unit) \<times> effect_store" where
  "ObserveExternalEffect tenantID personID claimID ref s =
     (if TrimSpace personID = [] \<or> TrimSpace claimID = [] \<or> TrimSpace ref = [] then (Inl EffectIdentityRequired, s)
      else (let own = (\<lambda>c. ec_tenant c = normalizeTenant tenantID \<and> ec_person c = personID \<and> ec_id c = claimID);
                unresolved = (\<lambda>c. own c \<and> ec_state c \<noteq> ExternalClaimObserved) in
        if count_claims unresolved s \<noteq> 0 then (Inr (), set_claims unresolved (observed ref) s)
        else (case find (\<lambda>c. own c \<and> ec_state c = ExternalClaimObserved) (es_claims s) of
            None \<Rightarrow> (Inl WrongReference, s)
          | Some c \<Rightarrow> (if ec_ref c = ref then Inr () else Inl WrongReference, s))))"

text \<open>The release of a whole effect group, shared by the transactions below: none of it may carry another reference.\<close>

definition group_released :: "string \<Rightarrow> string \<Rightarrow> string \<Rightarrow> string \<Rightarrow> string \<Rightarrow> effect_store \<Rightarrow> effect_store" where
  "group_released tenantID personID runID effectID ref =
     set_claims (\<lambda>c. in_group tenantID personID runID effectID c \<and> ec_state c \<noteq> ExternalClaimObserved) (observed ref)"

definition group_releasable :: "string \<Rightarrow> string \<Rightarrow> string \<Rightarrow> string \<Rightarrow> string \<Rightarrow> effect_store \<Rightarrow> bool" where
  "group_releasable tenantID personID runID effectID ref s =
     (count_claims (in_group tenantID personID runID effectID) s \<noteq> 0
      \<and> count_claims (\<lambda>c. in_group tenantID personID runID effectID c \<and> ec_state c = ExternalClaimObserved \<and> ec_ref c \<noteq> ref) s = 0)"

definition ObserveExternalEffectGroup :: "string \<Rightarrow> string \<Rightarrow> string \<Rightarrow> string \<Rightarrow> string \<Rightarrow> effect_store
    \<Rightarrow> (effect_error + unit) \<times> effect_store" where
  "ObserveExternalEffectGroup tenantID personID runID effectID ref s =
     (if TrimSpace personID = [] \<or> TrimSpace runID = [] \<or> TrimSpace effectID = [] \<or> TrimSpace ref = []
      then (Inl EffectIdentityRequired, s)
      else if \<not> group_releasable (normalizeTenant tenantID) personID runID effectID ref s then (Inl WrongReference, s)
      else (Inr (), group_released (normalizeTenant tenantID) personID runID effectID ref s))"

definition externalEffectObservationTargetTx :: "string \<Rightarrow> effect_store \<Rightarrow> string \<Rightarrow> string \<Rightarrow> string \<Rightarrow> string
    \<Rightarrow> effect_error + claim_view" where
  "externalEffectObservationTargetTx inst s tenantID personID observerRun claimID =
     (if TrimSpace personID = [] \<or> TrimSpace observerRun = [] \<or> TrimSpace claimID = [] then Inl EffectIdentityRequired
      else (case filter (\<lambda>c. ec_tenant c = tenantID \<and> ec_person c = personID \<and> ec_id c = claimID) (es_claims s) of
          [c] \<Rightarrow>
            if ec_state c = ExternalClaimObserved then Inl AlreadyReleased
            else (case claim_view_of inst s (runLineage s tenantID personID observerRun) c of
                None \<Rightarrow> Inl NeverDispatched
              | Some v \<Rightarrow> if v_disposition v = ExternalClaimInFlight then Inl EffectInFlight else Inr v)
        | _ \<Rightarrow> Inl EffectClaimNotFound))"

definition ExternalEffectObservationTarget :: "string \<Rightarrow> effect_store \<Rightarrow> string \<Rightarrow> string \<Rightarrow> string \<Rightarrow> string
    \<Rightarrow> effect_error + claim_view" where
  "ExternalEffectObservationTarget inst s tenantID personID observerRun claimID =
     externalEffectObservationTargetTx inst s (normalizeTenant tenantID) personID observerRun claimID"

record ExternalEffectObservation =
  o_tenant :: string
  o_person :: string
  o_observer :: string
  o_claim :: string
  o_call :: string
  o_start :: int

datatype observation_result = Released effect_claim | AcknowledgedOnly effect_claim

definition observed_key :: "(string \<Rightarrow> string) \<Rightarrow> ExternalEffectObservation \<Rightarrow> effect_claim \<Rightarrow> string" where
  "observed_key digest obs c = ''external-effect-observed:'' @ o_observer obs @ '':'' @ o_call obs @ '':''
     @ digest (ec_run c @ NUL @ ec_effect c)"

definition bindExternalEffectObservationOnce :: "(string \<Rightarrow> string) \<Rightarrow> string \<Rightarrow> string \<Rightarrow> int \<Rightarrow> string
    \<Rightarrow> ExternalEffectObservation \<Rightarrow> effect_store \<Rightarrow> (effect_error + observation_result) \<times> effect_store" where
  "bindExternalEffectObservationOnce digest inst uuid now tenantID obs s =
     (case find (\<lambda>r. run_tenant r = tenantID \<and> run_person r = o_person obs \<and> run_id r = o_observer obs) (es_runs s) of
        None \<Rightarrow> (Inl ObserverNotFound, s)
      | Some r \<Rightarrow>
        if run_status r \<noteq> ''running'' then (Inl ObserverNotRunning, s)
        else (case externalEffectObservationTargetTx inst s tenantID (o_person obs) (o_observer obs) (o_claim obs) of
            Inl e \<Rightarrow> (Inl e, s)
          | Inr v \<Rightarrow>
              (let c = v_claim v in
               if \<not> observationFollowsEffect (ec_sequence c) (ec_created c) (v_cursor v) (o_start obs) now
               then (Inl ObservationTooEarly, s)
               else if v_same_chain v then
                 (let ref = ''observation:'' @ o_observer obs @ '':'' @ o_call obs in
                  (Inr (Released (observed ref c)),
                   group_released tenantID (o_person obs) (ec_run c) (ec_effect c) ref s))
               else (case insertEffectEventTx uuid tenantID (o_observer obs) ExternalEffectObservedEvent
                       (ObservedPayload \<lparr>ack_claim = ec_id c, ack_claim_run = ec_run c, ack_effect = ec_effect c,
                          ack_call = o_call obs, ack_start = o_start obs\<rparr>) (observed_key digest obs c) s of
                   Inl e \<Rightarrow> (Inl e, s)
                 | Inr (_, s') \<Rightarrow> (Inr (AcknowledgedOnly c), s')))))"

definition BindExternalEffectObservation :: "(string \<Rightarrow> string) \<Rightarrow> string \<Rightarrow> string \<Rightarrow> int \<Rightarrow> ExternalEffectObservation
    \<Rightarrow> effect_store \<Rightarrow> (effect_error + observation_result) \<times> effect_store" where
  "BindExternalEffectObservation digest inst uuid now obs s =
     (if TrimSpace (o_call obs) = [] \<or> o_start obs \<le> 0 then (Inl ObservationIncomplete, s)
      else bindExternalEffectObservationOnce digest inst uuid now (normalizeTenant (o_tenant obs)) obs s)"

section \<open>Watchers\<close>

definition ExternalWatchSucceeded :: string where "ExternalWatchSucceeded = ''succeeded''"
definition ExternalWatchContinuationReceiptVersion :: int where "ExternalWatchContinuationReceiptVersion = 2"
definition ExternalWatchRecoveryReceiptVersion :: int where "ExternalWatchRecoveryReceiptVersion = 3"

definition watchFollowsEffectTx :: "effect_store \<Rightarrow> string \<Rightarrow> string \<Rightarrow> string \<Rightarrow> int \<Rightarrow> int \<Rightarrow> bool" where
  "watchFollowsEffectTx s tenantID runID effectID watchSequence watchCreated =
     (let g = filter (\<lambda>c. group_of c = (tenantID, runID, effectID)) (es_claims s) in
      g \<noteq> [] \<and> observationFollowsEffect (Max (ec_sequence ` set g)) (Min (ec_created ` set g))
        (case keyed_event s (externalEffectReturnKey runID effectID) of None \<Rightarrow> 0 | Some e \<Rightarrow> ev_cursor e)
        watchSequence watchCreated)"

definition externalEffectForObservationTx :: "effect_store \<Rightarrow> string \<Rightarrow> string \<Rightarrow> string \<Rightarrow> string \<Rightarrow> effect_error + effect_claim" where
  "externalEffectForObservationTx s tenantID personID observerRun claimID =
     (if TrimSpace personID = [] \<or> TrimSpace observerRun = [] \<or> TrimSpace claimID = [] then Inl EffectIdentityRequired
      else (case find (\<lambda>c. ec_tenant c = tenantID \<and> ec_person c = personID \<and> ec_id c = claimID) (es_claims s) of
          None \<Rightarrow> Inl EffectClaimNotFound
        | Some c \<Rightarrow>
            if length (filter (\<lambda>i. i = ec_run c) (lineage_ids resumeChainMaxHops (es_runs s) tenantID personID observerRun)) \<noteq> 1
            then Inl NotLineage else Inr c))"

definition completed_key :: "watch_row \<Rightarrow> string" where
  "completed_key w = ''external-watch:'' @ w_id w @ '':r'' @ FormatInt (w_revision w) @ '':completed''"

definition ReleaseExternalEffectForWatch :: "(string \<Rightarrow> string) \<Rightarrow> string \<Rightarrow> string \<Rightarrow> effect_store \<Rightarrow> effect_claim option \<times> effect_store" where
  "ReleaseExternalEffectForWatch digest tenant watchID s =
     (let tenantID = normalizeTenant tenant in
      if TrimSpace watchID = [] then (None, s)
      else (case find (\<lambda>w. w_tenant w = tenantID \<and> w_id w = watchID) (es_watches s) of
        None \<Rightarrow> (None, s)
      | Some w \<Rightarrow>
          if wr_recovery_claim (w_receipt w) = [] \<or> wr_version (w_receipt w) < ExternalWatchRecoveryReceiptVersion
             \<or> w_wait_group w \<noteq> [] \<or> w_status w \<noteq> ExternalWatchSucceeded
             \<or> wr_command_hash (w_receipt w) \<noteq> digest (w_command w) then (None, s)
          else if \<not> w_finalized w \<and> \<not> list_ex (\<lambda>e. ev_run e = w_run w \<and> ev_key e = completed_key w) (es_events s) then (None, s)
          else (case externalEffectForObservationTx s tenantID (w_person w) (w_run w) (wr_recovery_claim (w_receipt w)) of
              Inl _ \<Rightarrow> (None, s)
            | Inr c \<Rightarrow>
                if \<not> watchFollowsEffectTx s tenantID (ec_run c) (ec_effect c) (w_sequence w) (w_created w) then (None, s)
                else (let ref = ''watch:'' @ watchID @ '':r'' @ FormatInt (w_revision w) @ '':bound'';
                          guard = (\<lambda>x. in_group tenantID (w_person w) (ec_run c) (ec_effect c) x \<and> ec_state x = ExternalClaimUncertain) in
                      if count_claims guard s = 0 then (None, s)
                      else (Some (observed ref c), set_claims guard (observed ref) s)))))"

definition ObserveExternalEffectWithWatch :: "(string \<Rightarrow> string) \<Rightarrow> string \<Rightarrow> string \<Rightarrow> string \<Rightarrow> string \<Rightarrow> effect_store
    \<Rightarrow> (effect_error + effect_claim) \<times> effect_store" where
  "ObserveExternalEffectWithWatch digest tenant personID claimID watchID s =
     (let tenantID = normalizeTenant tenant in
      if TrimSpace personID = [] \<or> TrimSpace claimID = [] \<or> TrimSpace watchID = [] then (Inl EffectIdentityRequired, s)
      else (case find (\<lambda>c. ec_tenant c = tenantID \<and> ec_person c = personID \<and> ec_id c = claimID) (es_claims s) of
        None \<Rightarrow> (Inl EffectClaimNotFound, s)
      | Some c \<Rightarrow> (case find (\<lambda>w. w_tenant w = tenantID \<and> w_person w = personID \<and> w_id w = watchID) (es_watches s) of
          None \<Rightarrow> (Inl WatcherNotFound, s)
        | Some w \<Rightarrow>
            if w_run w \<noteq> ec_run c \<and> (wr_version (w_receipt w) < ExternalWatchRecoveryReceiptVersion
                 \<or> wr_recovery_claim (w_receipt w) \<noteq> ec_id c) then (Inl BindingRequired, s)
            else (case (if w_run w = ec_run c then Inr c
                        else externalEffectForObservationTx s tenantID personID (w_run w) (ec_id c)) of
                Inl e \<Rightarrow> (Inl e, s)
              | Inr _ \<Rightarrow>
                  if wr_recovery_claim (w_receipt w) \<noteq> [] \<and> wr_recovery_claim (w_receipt w) \<noteq> ec_id c then (Inl BoundElsewhere, s)
                  else if \<not> watchFollowsEffectTx s tenantID (ec_run c) (ec_effect c) (w_sequence w) (w_created w)
                     \<or> w_status w \<noteq> ExternalWatchSucceeded \<or> \<not> w_finalized w
                     \<or> wr_version (w_receipt w) < ExternalWatchContinuationReceiptVersion
                     \<or> wr_command_hash (w_receipt w) \<noteq> digest (w_command w) then (Inl NotTrustedObservation, s)
                  else (let ref = ''watch:'' @ watchID @ '':r'' @ FormatInt (w_revision w) in
                        if \<not> group_releasable tenantID personID (ec_run c) (ec_effect c) ref s then (Inl WrongReference, s)
                        else (Inr (observed ref c), group_released tenantID personID (ec_run c) (ec_effect c) ref s))))))"

section \<open>Settlement\<close>

record ExternalEffectSettlementRequest =
  sr_tenant :: string
  sr_person :: string
  sr_claim :: string
  sr_actor :: string
  sr_channel :: string
  sr_reason :: string

record ExternalEffectSettlementResult =
  Settlement :: effect_settlement
  SettledClaims :: "effect_claim list"
  Replayed :: bool

definition externalEffectSettlementReasonMaxRunes :: nat where
  "externalEffectSettlementReasonMaxRunes = 500"

definition externalEffectSettlementChannelMaxBytes :: nat where
  "externalEffectSettlementChannelMaxBytes = 256"

definition externalEffectSettlementRefPrefix :: string where
  "externalEffectSettlementRefPrefix = ''settlement:''"

definition ObservationRef :: "effect_settlement \<Rightarrow> string" where
  "ObservationRef st = externalEffectSettlementRefPrefix @ st_id st"

text \<open>The actor is an active account of the person and the channel is no other account's.\<close>

definition own_endpoint :: "effect_store \<Rightarrow> ExternalEffectSettlementRequest \<Rightarrow> bool" where
  "own_endpoint s q = (case find (\<lambda>a. ac_tenant a = sr_tenant q \<and> ac_id a = sr_actor q) (es_accounts s) of
     None \<Rightarrow> False
   | Some a \<Rightarrow> ac_person a = sr_person q \<and> ac_status a = ''active''
       \<and> (sr_channel q = ac_user a \<or> \<not> list_ex (\<lambda>b. ac_tenant b = sr_tenant q \<and> ac_user b = sr_channel q \<and> ac_id b \<noteq> sr_actor q)
            (es_accounts s)))"

definition externalEffectSettlementTx :: "effect_store \<Rightarrow> string \<Rightarrow> string \<Rightarrow> string \<Rightarrow> effect_settlement option" where
  "externalEffectSettlementTx s tenantID runID effectID =
     find (\<lambda>t. st_tenant t = tenantID \<and> st_run t = runID \<and> st_effect t = effectID) (es_settlements s)"

definition settleExternalEffectOnce :: "string \<Rightarrow> string \<Rightarrow> int \<Rightarrow> ExternalEffectSettlementRequest \<Rightarrow> effect_store
    \<Rightarrow> (effect_error + ExternalEffectSettlementResult) \<times> effect_store" where
  "settleExternalEffectOnce inst uuid now q s =
     (if \<not> own_endpoint s q then (Inl SettlementActor, s)
      else (case find (\<lambda>c. ec_tenant c = sr_tenant q \<and> ec_id c = sr_claim q) (es_claims s) of
        None \<Rightarrow> (Inl EffectClaimNotFound, s)
      | Some c \<Rightarrow>
          if ec_person c \<noteq> sr_person q then (Inl EffectClaimNotFound, s)
          else (case externalEffectSettlementTx s (sr_tenant q) (ec_run c) (ec_effect c) of
              Some t \<Rightarrow>
                if st_person t \<noteq> sr_person q then (Inl EffectClaimNotFound, s)
                else (Inr \<lparr>Settlement = t, SettledClaims = loadExternalEffectClaimsTx s (sr_tenant q) (ec_run c) (ec_effect c),
                        Replayed = True\<rparr>, s)
            | None \<Rightarrow>
                if ec_state c = ExternalClaimUncertain
                   \<and> disposition (scanExternalClaimFacts inst s c) False = Some ExternalClaimInFlight then (Inl EffectInFlight, s)
                else if ec_state c \<noteq> ExternalClaimUncertain then (Inl (NotSettleable (ec_state c)), s)
                else (let t = \<lparr>st_id = ''effectsettle_'' @ uuid, st_tenant = sr_tenant q, st_person = sr_person q,
                               st_claim = ec_id c, st_run = ec_run c, st_effect = ec_effect c, st_actor = sr_actor q,
                               st_channel = sr_channel q, st_reason = sr_reason q, st_created = now\<rparr>;
                          s' = group_released (sr_tenant q) (sr_person q) (ec_run c) (ec_effect c) (ObservationRef t) s;
                          s'' = s'\<lparr>es_settlements := es_settlements s' @ [t]\<rparr>
                      in (Inr \<lparr>Settlement = t, SettledClaims = loadExternalEffectClaimsTx s'' (sr_tenant q) (ec_run c) (ec_effect c),
                            Replayed = False\<rparr>, s'')))))"

definition SettleExternalEffect :: "string \<Rightarrow> string \<Rightarrow> int \<Rightarrow> ExternalEffectSettlementRequest \<Rightarrow> effect_store
    \<Rightarrow> (effect_error + ExternalEffectSettlementResult) \<times> effect_store" where
  "SettleExternalEffect inst uuid now request s =
     (let reason = TrimSpace (ToValidUTF8 (sr_reason request));
          q = \<lparr>sr_tenant = normalizeTenant (sr_tenant request), sr_person = TrimSpace (sr_person request),
               sr_claim = TrimSpace (sr_claim request), sr_actor = TrimSpace (sr_actor request),
               sr_channel = TrimSpace (ToValidUTF8 (sr_channel request)),
               sr_reason = (if length (runes reason) > externalEffectSettlementReasonMaxRunes
                  then of_runes (take externalEffectSettlementReasonMaxRunes (runes reason)) else reason)\<rparr> in
      if sr_person q = [] \<or> sr_claim q = [] then (Inl EffectClaimNotFound, s)
      else if sr_actor q = [] \<or> sr_channel q = [] \<or> length (sr_channel q) > externalEffectSettlementChannelMaxBytes
      then (Inl SettlementActor, s)
      else settleExternalEffectOnce inst uuid now q s)"

section \<open>Queries and waits\<close>

text \<open>Without a requesting run every unreturned call of a live owner counts as in flight; the disposition is the second part.\<close>

definition described_claim :: "string \<Rightarrow> effect_store \<Rightarrow> effect_claim \<Rightarrow> effect_claim \<times> string" where
  "described_claim inst s c = (c, if ec_state c = ExternalClaimObserved then []
     else (case disposition (scanExternalClaimFacts inst s c) False of None \<Rightarrow> [] | Some d \<Rightarrow> d))"

definition ListUnresolvedExternalEffects :: "string \<Rightarrow> string \<Rightarrow> string \<Rightarrow> int \<Rightarrow> effect_store \<Rightarrow> effect_error + (effect_claim \<times> string) list" where
  "ListUnresolvedExternalEffects inst tenantID personID limit s =
     (if TrimSpace personID = [] then Inl OwnerRequired
      else Inr (map (described_claim inst s) (take (if limit \<le> 0 \<or> limit > 100 then 20 else nat limit)
        (sort_key (\<lambda>c. (ec_created c, ec_id c)) (filter (\<lambda>c. ec_tenant c = normalizeTenant tenantID \<and> ec_person c = personID
           \<and> ec_state c \<noteq> ExternalClaimObserved) (es_claims s))))))"

definition ExternalEffectClaimsForEffect :: "string \<Rightarrow> string \<Rightarrow> string \<Rightarrow> string \<Rightarrow> string \<Rightarrow> effect_store
    \<Rightarrow> effect_error + (effect_claim \<times> string) list" where
  "ExternalEffectClaimsForEffect inst tenantID personID runID effectID s =
     (if TrimSpace personID = [] then Inl OwnerRequired
      else Inr (map (described_claim inst s) (sort_key ec_target
        (filter (in_group (normalizeTenant tenantID) personID runID effectID) (es_claims s)))))"

definition ExternalEffectClaimDetail :: "string \<Rightarrow> string \<Rightarrow> string \<Rightarrow> string \<Rightarrow> effect_store \<Rightarrow> effect_error + effect_claim \<times> string" where
  "ExternalEffectClaimDetail inst tenantID personID claimID s =
     (if TrimSpace personID = [] \<or> TrimSpace claimID = [] then Inl EffectClaimNotFound
      else (case filter (\<lambda>c. ec_tenant c = normalizeTenant tenantID \<and> ec_person c = personID \<and> ec_id c = claimID) (es_claims s) of
          [c] \<Rightarrow> Inr (described_claim inst s c) | _ \<Rightarrow> Inl EffectClaimNotFound))"

text \<open>The one group of the chain that is uncertain in every row and has exactly the targets.\<close>

definition FindUnresolvedExternalEffectForTargets :: "effect_store \<Rightarrow> string \<Rightarrow> string \<Rightarrow> string \<Rightarrow> string list \<Rightarrow> (string \<times> string) option" where
  "FindUnresolvedExternalEffectForTargets s tenant personID runID targets =
     (if personID = [] \<or> runID = [] \<or> targets = [] then None
      else (let tenantID = normalizeTenant tenant; lineage = runLineage s tenantID personID runID;
                rows = filter (\<lambda>c. ec_tenant c = tenantID \<and> ec_person c = personID \<and> ec_run c \<in> set lineage) (es_claims s);
                refs = remdups (map (\<lambda>c. (ec_run c, ec_effect c)) rows);
                rows_of = (\<lambda>ref. sort_key ec_target (filter (\<lambda>c. (ec_run c, ec_effect c) = ref) rows)) in
        case filter (\<lambda>ref. list_all (\<lambda>c. ec_state c = ExternalClaimUncertain) (rows_of ref)
                \<and> map ec_target (rows_of ref) = sort targets) refs of
          [ref] \<Rightarrow> Some ref | _ \<Rightarrow> None))"

definition MarkExternalResourceWaitQueued :: "resource_wait \<Rightarrow> effect_store \<Rightarrow> effect_store" where
  "MarkExternalResourceWaitQueued w s = s\<lparr>es_waits := map (\<lambda>x. if rw_tenant x = normalizeTenant (rw_tenant w)
     \<and> rw_person x = rw_person w \<and> rw_run x = rw_run w \<and> rw_effect x = rw_effect w \<and> rw_status x = ''pending''
     then x\<lparr>rw_status := ''queued''\<rparr> else x) (es_waits s)\<rparr>"

definition IsRunExternalResourceWaitPending :: "string \<Rightarrow> string \<Rightarrow> effect_store \<Rightarrow> bool" where
  "IsRunExternalResourceWaitPending tenantID runID s =
     list_ex (\<lambda>x. rw_tenant x = normalizeTenant tenantID \<and> rw_run x = runID \<and> rw_status x = ''pending''
       \<and> list_ex (\<lambda>r. run_tenant r = rw_tenant x \<and> run_id r = rw_run x \<and> run_status r = ''waiting_external'') (es_runs s)) (es_waits s)"

section \<open>The ledger as a state machine\<close>

text \<open>
  Every operation with any arguments, at any time and in any daemon process \<open>inst\<close>, and what the rest of the program
  does to the tables it shares: it starts runs under new ids, ends them, moves them to another thread or parent, appends
  events with keys of its own, and changes watchers and accounts. No statement of the program sets a run that has left
  \<^verbatim>\<open>running\<close> back to it. The reset of a tenant's work history, which deletes its rows, is not a step.
\<close>

definition foreign_key :: "string \<Rightarrow> bool" where
  "foreign_key key = (\<not> HasPrefix key ''external-effect-'')"

inductive effect_step :: "effect_store \<Rightarrow> effect_store \<Rightarrow> bool" where
  claim: "effect_step s (snd (ClaimExternalEffects inst eventIDs claimIDs now q s))"
| allocate: "effect_step s (snd (AllocateEffectSequence s))"
| dispatch: "effect_step s (snd (RecordExternalEffectDispatch inst uuid tenantID personID runID effectID callID tool summary bg s))"
| return: "effect_step s (snd (RecordExternalEffectReturn uuid tenantID personID runID effectID callID outcome exitCode s))"
| abandon: "effect_step s (snd (RecordAbandonedBackgroundEffects inst eventIDs s))"
| mark: "effect_step s (snd (MarkExternalEffectPossible tenantID runID effectID s))"
| undispatched: "effect_step s (snd (ObserveUndispatchedExternalEffects s))"
| observe: "effect_step s (snd (ObserveExternalEffect tenantID personID claimID ref s))"
| observe_group: "effect_step s (snd (ObserveExternalEffectGroup tenantID personID runID effectID ref s))"
| bind: "effect_step s (snd (BindExternalEffectObservation digest inst uuid now obs s))"
| release_watch: "effect_step s (snd (ReleaseExternalEffectForWatch digest tenantID watchID s))"
| observe_watch: "effect_step s (snd (ObserveExternalEffectWithWatch digest tenantID personID claimID watchID s))"
| owner_watch: "effect_step s (set_claims (\<lambda>c. in_group tenantID personID runID effectID c \<and> ec_state c = ExternalClaimUncertain) (observed ref) s)"
| settle: "effect_step s (snd (SettleExternalEffect inst uuid now request s))"
| wait_queued: "effect_step s (MarkExternalResourceWaitQueued w s)"
| start_run: "\<forall>r \<in> set (es_runs s). run_id r \<noteq> run_id row \<Longrightarrow> effect_step s (s\<lparr>es_runs := es_runs s @ [row]\<rparr>)"
| end_run: "status \<noteq> ''running'' \<Longrightarrow> effect_step s (s\<lparr>es_runs := map (\<lambda>r. if run_tenant r = tenantID \<and> run_id r = runID
     then r\<lparr>run_status := status\<rparr> else r) (es_runs s)\<rparr>)"
| relink_run: "effect_step s (s\<lparr>es_runs := map (\<lambda>r. if run_tenant r = tenantID \<and> run_id r = runID
     then r\<lparr>run_thread := thread, run_resumes := parent\<rparr> else r) (es_runs s)\<rparr>)"
| other_event: "foreign_key (ev_key e) \<Longrightarrow> effect_step s (s\<lparr>es_events := es_events s @ [e], es_cursor := es_cursor s + 1\<rparr>)"
| watchers: "effect_step s (s\<lparr>es_watches := ws\<rparr>)"
| accounts: "effect_step s (s\<lparr>es_accounts := accs\<rparr>)"

inductive effect_steps :: "effect_store \<Rightarrow> effect_store \<Rightarrow> bool" where
  refl: "effect_steps s s"
| step: "effect_steps s s' \<Longrightarrow> effect_step s' s'' \<Longrightarrow> effect_steps s s''"

section \<open>How claims, events and runs evolve\<close>

text \<open>The life of a claim: reserved, then possibly uncertain, then observed, and its reference is written once.\<close>

definition claim_evolves :: "effect_claim \<Rightarrow> effect_claim \<Rightarrow> bool" where
  "claim_evolves c c' \<longleftrightarrow> (\<exists>ref. c' = c \<or> ec_state c \<noteq> ExternalClaimObserved \<and> c' = observed ref c
     \<or> ec_state c = ExternalClaimReserved \<and> c' = c\<lparr>ec_state := ExternalClaimUncertain\<rparr>)"

lemma claim_evolves_refl [simp]: "claim_evolves c c"
  by (simp add: claim_evolves_def)

lemma claim_evolves_trans: "claim_evolves a b \<Longrightarrow> claim_evolves b c \<Longrightarrow> claim_evolves a c"
  by (auto simp: claim_evolves_def observed_def claim_states)

lemma claim_evolves_fields:
  "claim_evolves c c' \<Longrightarrow> group_of c' = group_of c \<and> ec_id c' = ec_id c \<and> ec_person c' = ec_person c
     \<and> ec_target c' = ec_target c \<and> ec_tenant c' = ec_tenant c \<and> ec_run c' = ec_run c \<and> ec_effect c' = ec_effect c
     \<and> (ec_state c = ExternalClaimObserved \<longrightarrow> c' = c)"
  by (auto simp: claim_evolves_def observed_def group_of_def claim_states)

definition run_evolves :: "run_row \<Rightarrow> run_row \<Rightarrow> bool" where
  "run_evolves r r' \<longleftrightarrow> run_tenant r' = run_tenant r \<and> run_id r' = run_id r \<and> run_person r' = run_person r
     \<and> (run_status r' = ''running'' \<longrightarrow> run_status r = ''running'')"

lemma run_evolves_refl [simp]: "run_evolves r r"
  by (simp add: run_evolves_def)

text \<open>A store that evolves without new claims, and the order of all stores.\<close>

definition keeps :: "effect_store \<Rightarrow> effect_store \<Rightarrow> bool" where
  "keeps s s' \<longleftrightarrow> (\<exists>new. es_events s' = es_events s @ new)
     \<and> (\<exists>rs new. es_runs s' = rs @ new \<and> list_all2 run_evolves (es_runs s) rs
          \<and> (distinct (map run_id (es_runs s)) \<longrightarrow> distinct (map run_id (es_runs s'))))"

definition settles :: "effect_store \<Rightarrow> effect_store \<Rightarrow> bool" where
  "settles s s' \<longleftrightarrow> keeps s s' \<and> list_all2 claim_evolves (es_claims s) (es_claims s')"

lemma keepsI:
  "es_events s' = es_events s @ new \<Longrightarrow> es_runs s' = rs @ rest \<Longrightarrow> list_all2 run_evolves (es_runs s) rs \<Longrightarrow>
   (distinct (map run_id (es_runs s)) \<Longrightarrow> distinct (map run_id (es_runs s'))) \<Longrightarrow> keeps s s'"
  unfolding keeps_def by blast

lemma keeps_events: "es_events s' = es_events s @ new \<Longrightarrow> es_runs s' = es_runs s \<Longrightarrow> keeps s s'"
  by (rule keepsI [of _ _ new "es_runs s" "[]"]) (simp_all add: list.rel_refl)

lemma keeps_same: "es_events s' = es_events s \<Longrightarrow> es_runs s' = es_runs s \<Longrightarrow> keeps s s'"
  by (rule keeps_events [of _ _ "[]"]) simp_all

lemma run_evolves_trans: "run_evolves a b \<Longrightarrow> run_evolves b c \<Longrightarrow> run_evolves a c"
  by (simp add: run_evolves_def)

lemma list_all2_extend:
  assumes trans: "\<And>a b c. R a b \<Longrightarrow> R b c \<Longrightarrow> R a c"
    and "ys = us @ new" "list_all2 R xs us" "zs = vs @ newer" "list_all2 R ys vs"
  obtains ws rest where "zs = ws @ rest" "list_all2 R xs ws"
proof -
  from assms(2,5) obtain v1 v2 where v: "vs = v1 @ v2" "list_all2 R us v1" by (auto simp: list_all2_append1)
  have "list_all2 R xs v1" by (rule list_all2_trans [OF trans assms(3) v(2)])
  with that [of v1 "v2 @ newer"] assms(4) v(1) show thesis by simp
qed

lemma keeps_trans:
  assumes "keeps s t" and "keeps t u"
  shows "keeps s u"
proof -
  obtain e1 e2 where e: "es_events t = es_events s @ e1" "es_events u = es_events t @ e2" using assms by (auto simp: keeps_def)
  obtain rs new where r: "es_runs t = rs @ new" "list_all2 run_evolves (es_runs s) rs" using assms(1) by (auto simp: keeps_def)
  obtain rs' new' where r': "es_runs u = rs' @ new'" "list_all2 run_evolves (es_runs t) rs'" using assms(2) by (auto simp: keeps_def)
  obtain ws rest where w: "es_runs u = ws @ rest" "list_all2 run_evolves (es_runs s) ws"
    by (rule list_all2_extend [OF run_evolves_trans r r'])
  show ?thesis
  proof (rule keepsI [OF _ w])
    show "es_events u = es_events s @ (e1 @ e2)" using e by simp
    show "distinct (map run_id (es_runs u))" if "distinct (map run_id (es_runs s))" using assms that by (auto simp: keeps_def)
  qed
qed

lemma settlesI: "keeps s s' \<Longrightarrow> list_all2 claim_evolves (es_claims s) (es_claims s') \<Longrightarrow> settles s s'"
  by (simp add: settles_def)

lemma settles_refl [simp]: "settles s s"
  by (rule settlesI) (auto simp: list.rel_refl intro: keeps_same)

lemma settles_trans: "settles s t \<Longrightarrow> settles t u \<Longrightarrow> settles s u"
  using keeps_trans [of s t u] list_all2_trans [of claim_evolves claim_evolves claim_evolves "es_claims s" "es_claims t" "es_claims u"]
    claim_evolves_trans
  by (auto simp: settles_def)

lemma settles_same: "es_claims s' = es_claims s \<Longrightarrow> keeps s s' \<Longrightarrow> settles s s'"
  by (rule settlesI) (simp_all add: list.rel_refl)

section \<open>Statements on claims\<close>

text \<open>
  The contract of a statement that moves claims along: whatever rows its guard names, the effect takes each one step
  further in its life and touches nothing else of the store.
\<close>

locale claim_update =
  fixes guard :: "effect_claim \<Rightarrow> bool" and effect :: "effect_claim \<Rightarrow> effect_claim"
  assumes effect_evolves: "guard c \<Longrightarrow> claim_evolves c (effect c)"
begin

lemma update_settles: "settles s (set_claims guard effect s)"
  by (rule settlesI) (auto simp: set_claims_def list_all2_map2 effect_evolves intro: keeps_same list.rel_refl_strong)

lemma update_exact: "c \<in> set (es_claims s) \<Longrightarrow> (if guard c then effect c else c) \<in> set (es_claims (set_claims guard effect s))"
  by (auto simp: set_claims_def)

lemma update_others: "c \<in> set (es_claims s) \<Longrightarrow> \<not> guard c \<Longrightarrow> c \<in> set (es_claims (set_claims guard effect s))"
  using update_exact [of c s] by simp

end

interpretation cross: claim_update "\<lambda>c. group_of c = g \<and> ec_state c = ExternalClaimReserved" "\<lambda>c. c\<lparr>ec_state := ExternalClaimUncertain\<rparr>"
  for g
  by unfold_locales (auto simp: claim_evolves_def)

interpretation never: claim_update "undispatched s" "observed ref" for s ref
  by unfold_locales (auto simp: claim_evolves_def undispatched_def claim_states)

interpretation one: claim_update "\<lambda>c. P c \<and> ec_state c \<noteq> ExternalClaimObserved" "observed ref" for P ref
  by unfold_locales (auto simp: claim_evolves_def)

interpretation bound: claim_update "\<lambda>c. P c \<and> ec_state c = ExternalClaimUncertain" "observed ref" for P ref
  by unfold_locales (auto simp: claim_evolves_def claim_states)

lemma released_settles: "settles s (group_released tenantID personID runID effectID ref s)"
  unfolding group_released_def by (rule one.update_settles)

lemma insert_event_effect:
  "insertEffectEventTx uuid tenantID runID eventType payload key s = Inr ((inserted, cursor), s') \<Longrightarrow>
   es_claims s' = es_claims s \<and> es_runs s' = es_runs s \<and> es_settlements s' = es_settlements s \<and> (\<exists>new. es_events s' = es_events s @ new)
     \<and> (inserted \<longrightarrow> (\<exists>e. es_events s' = es_events s @ [e] \<and> ev_key e = key))"
  by (auto simp: insertEffectEventTx_def nextEffectSequenceTx_def Let_def split: option.splits if_splits)

lemma insert_event_settles:
  "insertEffectEventTx uuid tenantID runID eventType payload key s = Inr (r, s') \<Longrightarrow> settles s s'"
  by (cases r) (auto dest!: insert_event_effect intro!: settles_same keeps_events)

lemma record_event_settles:
  "settles s (snd (recordExternalEffectEvent uuid tenantID personID runID effectID eventType key payload want s))"
  by (auto simp: recordExternalEffectEvent_def split: sum.splits prod.splits dest: insert_event_settles)

lemma record_returns_settles: "settles s (snd (record_returns eventIDs rs s))"
proof (induction rs arbitrary: s)
  case (Cons r rs)
  obtain tenantID personID runID effectID callID where r: "r = (tenantID, personID, runID, effectID, callID)" by (metis surj_pair)
  let ?ret = "RecordExternalEffectReturn (eventIDs (length rs)) tenantID personID runID effectID callID abandonedBackgroundOutcome None s"
  have "settles s (snd ?ret)" by (simp add: RecordExternalEffectReturn_def record_event_settles)
  with Cons show ?case by (auto simp: r split: sum.splits prod.splits intro: settles_trans)
qed simp

section \<open>Grants\<close>

lemma spend_settles:
  "spendExternalEffectAcknowledgmentsTx eventIDs q conflicts tolerated s = Inr s' \<Longrightarrow> settles s s' \<and> es_claims s' = es_claims s"
proof -
  assume "spendExternalEffectAcknowledgmentsTx eventIDs q conflicts tolerated s = Inr s'"
  then obtain spent where "foldm (spend_one eventIDs q tolerated) (Acknowledged conflicts) ([], s) = Inr (spent, s')"
    by (auto simp: spendExternalEffectAcknowledgmentsTx_def split: sum.splits)
  then have "(\<lambda>(_, t). settles s t \<and> es_claims t = es_claims s) (spent, s')"
  proof (rule foldm_invariant)
    fix x t t'
    assume "case t of (_, u) \<Rightarrow> settles s u \<and> es_claims u = es_claims s" and "spend_one eventIDs q tolerated x t = Inr t'"
    then show "case t' of (_, u) \<Rightarrow> settles s u \<and> es_claims u = es_claims s"
      by (auto simp: spend_one_def split: prod.splits if_splits sum.splits
          dest: insert_event_effect insert_event_settles intro: settles_trans)
  qed simp
  then show ?thesis by simp
qed

lemma map_filter_Some_iff: "y \<in> set (List.map_filter f xs) \<longleftrightarrow> (\<exists>x \<in> set xs. f x = Some y)"
  by (induction xs) (auto simp: List.map_filter_def)

text \<open>What lets a call pass a claim that is in its way.\<close>

definition never_started :: "effect_store \<Rightarrow> effect_claim \<Rightarrow> bool" where
  "never_started s c = (ec_state c = ExternalClaimReserved \<and> f_owner (scanExternalClaimFacts [] s c) \<noteq> ''running'')"

definition passes :: "string \<Rightarrow> effect_store \<Rightarrow> ExternalEffectClaimRequest \<Rightarrow> effect_claim \<Rightarrow> bool" where
  "passes inst s q c = (ec_run c \<notin> set (runLineage s (q_tenant q) (q_person q) (q_run q))
     \<and> disposition (scanExternalClaimFacts inst s c) False = Some ExternalClaimLeftUncertain
     \<and> (ec_id c \<in> set (map TrimSpace (q_tolerated q))
        \<or> (\<exists>(e, a) \<in> set (externalEffectAcknowledgmentsTx s (q_tenant q) (q_run q)).
             ack_claim_run a = ec_run c \<and> ack_effect a = ec_effect c \<and> ec_sequence c < ack_start a
             \<and> (\<forall>r. return_of s c = Some r \<longrightarrow> 0 < ev_cursor r \<longrightarrow> ev_cursor r < ack_start a))))"

definition in_the_way :: "effect_store \<Rightarrow> ExternalEffectClaimRequest \<Rightarrow> string list \<Rightarrow> effect_claim \<Rightarrow> bool" where
  "in_the_way s q targets c = (c \<in> set (es_claims s) \<and> ec_tenant c = q_tenant q \<and> ec_person c = q_person q
     \<and> ec_state c \<noteq> ExternalClaimObserved \<and> conflicts_with targets c)"

lemma facts_instance:
  "f_owner (scanExternalClaimFacts inst s c) = f_owner (scanExternalClaimFacts [] s c)"
  "f_returned (scanExternalClaimFacts inst s c) = f_returned (scanExternalClaimFacts [] s c)"
  "f_background (scanExternalClaimFacts inst s c) = f_background (scanExternalClaimFacts [] s c)"
  "f_claim (scanExternalClaimFacts inst s c) = c"
  "f_cursor (scanExternalClaimFacts inst s c) = (case return_of s c of None \<Rightarrow> 0 | Some e \<Rightarrow> ev_cursor e)"
  by (simp_all add: scanExternalClaimFacts_def)

lemma disposition_None: "disposition f own = None \<longleftrightarrow> ec_state (f_claim f) = ExternalClaimReserved \<and> f_owner f \<noteq> ''running''"
  by (auto simp: disposition_def Let_def)

lemma disposition_cases: "disposition f own = Some d \<Longrightarrow> d \<in> {ExternalClaimInFlight, ExternalClaimWatched, ExternalClaimLeftUncertain}"
  by (auto simp: disposition_def Let_def split: if_splits)

lemma forClaim_ack:
  assumes "forClaim acks c cur = Some (e, a)"
  shows "(e, a) \<in> set acks \<and> ack_claim_run a = ec_run c \<and> ack_effect a = ec_effect c \<and> ec_sequence c < ack_start a
     \<and> (cur \<noteq> 0 \<longrightarrow> cur < ack_start a)"
  using assms by (auto simp: forClaim_def find_Some_iff observationFollowsEffect_def split: if_splits)

lemma classified:
  fixes inst s tenantID personID runID targets
  defines "k \<equiv> classifyExternalBlockers inst s tenantID personID runID targets"
  shows "v \<in> set (Own k) \<longleftrightarrow> v \<in> set (All k) \<and> v_disposition v \<noteq> ExternalClaimWatched \<and> v_same_chain v"
    and "v \<in> set (Waiting k) \<longleftrightarrow> v \<in> set (All k)
      \<and> (v_disposition v = ExternalClaimWatched \<or> \<not> v_same_chain v \<and> v_disposition v = ExternalClaimInFlight)"
    and "runID \<noteq> [] \<Longrightarrow> v \<in> set (Foreign k) \<longleftrightarrow> v \<in> set (All k) \<and> v_disposition v \<noteq> ExternalClaimWatched
      \<and> v_disposition v \<noteq> ExternalClaimInFlight \<and> \<not> v_same_chain v
      \<and> forClaim (externalEffectAcknowledgmentsTx s tenantID runID) (v_claim v) (v_cursor v) = None"
    and "set (All k) = {v. \<exists>c \<in> set (es_claims s). ec_tenant c = tenantID \<and> ec_person c = personID
      \<and> ec_state c \<noteq> ExternalClaimObserved \<and> conflicts_with targets c \<and> claim_view_of inst s (runLineage s tenantID personID runID) c = Some v}"
  unfolding k_def classifyExternalBlockers_def Let_def blockers_def by (auto simp: map_filter_Some_iff)

lemma grant_passes:
  fixes inst s q targets
  defines "k \<equiv> classifyExternalBlockers inst s (q_tenant q) (q_person q) (q_run q) targets"
  assumes way: "in_the_way s q targets c" and own: "Own k = []" and waiting: "Waiting k = []"
    and foreign: "filter (\<lambda>v. ec_id (v_claim v) \<notin> set (map TrimSpace (q_tolerated q))) (Foreign k) = []"
    and run: "q_run q \<noteq> []"
  shows "never_started s c \<or> passes inst s q c"
proof (cases "disposition (scanExternalClaimFacts inst s c) (ec_run c \<in> set (runLineage s (q_tenant q) (q_person q) (q_run q)))")
  case None
  then show ?thesis by (simp add: disposition_None never_started_def facts_instance(1,4) [of inst])
next
  case (Some d)
  let ?lineage = "runLineage s (q_tenant q) (q_person q) (q_run q)"
  let ?acks = "externalEffectAcknowledgmentsTx s (q_tenant q) (q_run q)"
  define v where "v = \<lparr>v_claim = c, v_disposition = d, v_same_chain = (ec_run c \<in> set ?lineage),
    v_cursor = f_cursor (scanExternalClaimFacts inst s c)\<rparr>"
  have "claim_view_of inst s ?lineage c = Some v" using Some by (simp add: claim_view_of_def v_def)
  then have v: "v \<in> set (All k)" using way unfolding k_def classified(4) in_the_way_def by blast
  have "v \<notin> set (Own k)" "v \<notin> set (Waiting k)" using own waiting by simp_all
  then have split: "\<not> v_same_chain v" "v_disposition v \<noteq> ExternalClaimWatched" "v_disposition v \<noteq> ExternalClaimInFlight"
    using v unfolding k_def classified(1,2) by auto
  then have other: "ec_run c \<notin> set ?lineage" and left: "d = ExternalClaimLeftUncertain"
    using disposition_cases [OF Some] by (simp_all add: v_def)
  then have disp: "disposition (scanExternalClaimFacts inst s c) False = Some ExternalClaimLeftUncertain" using Some by simp
  show ?thesis
  proof (cases "forClaim ?acks c (v_cursor v)")
    case None
    then have "v \<in> set (Foreign k)" using v split run unfolding k_def classified(3) [OF run] by (simp add: v_def)
    with foreign have "ec_id c \<in> set (map TrimSpace (q_tolerated q))" by (auto simp: filter_empty_conv v_def)
    then show ?thesis using disp other by (simp add: passes_def)
  next
    case (Some ea)
    obtain e a where ea: "ea = (e, a)" by fastforce
    note ack = forClaim_ack [OF Some [unfolded ea]]
    then have "\<forall>r. return_of s c = Some r \<longrightarrow> 0 < ev_cursor r \<longrightarrow> ev_cursor r < ack_start a"
      by (auto simp: v_def facts_instance)
    with ack disp other show ?thesis unfolding passes_def by blast
  qed
qed

text \<open>The request as the claim gate reads it.\<close>

definition gate_request :: "ExternalEffectClaimRequest \<Rightarrow> ExternalEffectClaimRequest" where
  "gate_request q = q\<lparr>q_tenant := normalizeTenant (q_tenant q), q_person := TrimSpace (q_person q), q_run := TrimSpace (q_run q),
     q_effect := TrimSpace (q_effect q)\<rparr>"

definition gate_targets :: "ExternalEffectClaimRequest \<Rightarrow> string list" where
  "gate_targets q = remdups_adj (sort (q_targets q))"

lemma gate_targets_eq: "gate_targets q = remdups_adj (sort (q_targets (gate_request q)))"
  by (simp add: gate_targets_def gate_request_def)

text \<open>What a grant does, for a request that is already in that form: \<open>s1\<close> is the store after observations are spent.\<close>

definition grants :: "string \<Rightarrow> (nat \<Rightarrow> string) \<Rightarrow> (nat \<Rightarrow> string) \<Rightarrow> int \<Rightarrow> ExternalEffectClaimRequest \<Rightarrow> string list
    \<Rightarrow> effect_store \<Rightarrow> ExternalEffectClaimDecision \<Rightarrow> effect_store \<Rightarrow> bool" where
  "grants inst eventIDs claimIDs now q targets s d s' \<longleftrightarrow> (\<exists>s1 row.
     spendExternalEffectAcknowledgmentsTx eventIDs q (classifyExternalBlockers inst s (q_tenant q) (q_person q) (q_run q) targets)
       (map TrimSpace (q_tolerated q)) s = Inr s1
     \<and> Granted d \<and> Claims d = new_claims claimIDs now q (es_cursor s1 + 1) targets
     \<and> s' = s1\<lparr>es_cursor := es_cursor s1 + 1, es_claims := es_claims s @ Claims d\<rparr>
     \<and> owner_run s (q_tenant q) (q_run q) = Some row \<and> run_person row = q_person q \<and> run_status row = ''running''
     \<and> loadExternalEffectClaimsTx s (q_tenant q) (q_run q) (q_effect q) = []
     \<and> (\<forall>c. in_the_way s q targets c \<longrightarrow> never_started s c \<or> passes inst s q c))"

lemma insert_wait_settles: "settles s (insert_wait w s)"
  by (rule settles_same) (auto simp: insert_wait_def intro: keeps_same)

lemma decide_cases:
  assumes "decide_claim eventIDs claimIDs now q targets k s = (r, s')"
  obtains (refused) "settles s s'" "\<forall>d. r = Inr d \<longrightarrow> \<not> Granted d"
  | (granted) s1 d where "Own k = []" "Waiting k = []"
      "filter (\<lambda>v. ec_id (v_claim v) \<notin> set (map TrimSpace (q_tolerated q))) (Foreign k) = []"
      "spendExternalEffectAcknowledgmentsTx eventIDs q k (map TrimSpace (q_tolerated q)) s = Inr s1"
      "r = Inr d" "Granted d" "Claims d = new_claims claimIDs now q (es_cursor s1 + 1) targets"
      "s' = s1\<lparr>es_cursor := es_cursor s1 + 1, es_claims := es_claims s @ Claims d\<rparr>"
proof -
  consider "Own k \<noteq> []" | "Own k = []" "Waiting k \<noteq> []"
    | "Own k = []" "Waiting k = []" "filter (\<lambda>v. ec_id (v_claim v) \<notin> set (map TrimSpace (q_tolerated q))) (Foreign k) \<noteq> []"
    | (pass) "Own k = []" "Waiting k = []" "filter (\<lambda>v. ec_id (v_claim v) \<notin> set (map TrimSpace (q_tolerated q))) (Foreign k) = []"
    by blast
  then show thesis
  proof cases
    case pass
    show thesis
    proof (cases "spendExternalEffectAcknowledgmentsTx eventIDs q k (map TrimSpace (q_tolerated q)) s")
      case (Inl e)
      with assms pass have "(r, s') = (Inl e, s)" by (simp add: decide_claim_def Let_def)
      then show thesis by (intro refused) simp_all
    next
      case (Inr s1)
      from assms pass Inr spend_settles [OF Inr]
      show thesis by (intro granted [OF pass Inr]) (auto simp: decide_claim_def Let_def nextEffectSequenceTx_def noDecision_def)
    qed
  qed (use assms insert_wait_settles in \<open>auto simp: decide_claim_def Let_def noDecision_def intro!: refused\<close>)
qed

lemma once_cases:
  assumes once: "claimExternalEffectsOnce inst eventIDs claimIDs now q targets s = (r, s')" and run: "q_run q \<noteq> []"
  shows "settles s s' \<and> (\<forall>d. r = Inr d \<longrightarrow> \<not> Granted d) \<or> (\<exists>d. r = Inr d \<and> grants inst eventIDs claimIDs now q targets s d s')"
proof -
  let ?k = "classifyExternalBlockers inst s (q_tenant q) (q_person q) (q_run q) targets"
  let ?load = "loadExternalEffectClaimsTx s (q_tenant q) (q_run q) (q_effect q)"
  consider (same) "s' = s" "\<forall>d. r = Inr d \<longrightarrow> \<not> Granted d"
    | (decide) row where "owner_run s (q_tenant q) (q_run q) = Some row" "run_person row = q_person q" "run_status row = ''running''"
        "?load = []" "decide_claim eventIDs claimIDs now q targets ?k s = (r, s')"
    using once unfolding claimExternalEffectsOnce_def Let_def
    by (cases "owner_run s (q_tenant q) (q_run q)") (auto simp: noDecision_def split: if_splits)
  then show ?thesis
  proof cases
    case decide
    from decide(5) show ?thesis
    proof (cases rule: decide_cases)
      case (granted s1 d)
      have "\<forall>c. in_the_way s q targets c \<longrightarrow> never_started s c \<or> passes inst s q c"
        using grant_passes [OF _ granted(1,2,3) run] by blast
      then have "grants inst eventIDs claimIDs now q targets s d s'"
        unfolding grants_def using granted(4,6-8) decide(1-4) by (intro exI [of _ s1] exI [of _ row]) simp
      with granted(5) show ?thesis by simp
    qed simp
  qed simp
qed

lemma claim_cases:
  assumes claim: "ClaimExternalEffects inst eventIDs claimIDs now q s = (r, s')"
  shows "settles s s' \<and> (\<forall>d. r = Inr d \<longrightarrow> \<not> Granted d)
    \<or> (\<exists>d. r = Inr d \<and> grants inst eventIDs claimIDs now (gate_request q) (gate_targets q) s d s')"
proof -
  consider "r = Inl ClaimIncomplete" "s' = s" | "r = Inl InvalidTarget" "s' = s"
    | (once) "claimExternalEffectsOnce inst eventIDs claimIDs now (gate_request q) (gate_targets q) s = (r, s')" "q_run (gate_request q) \<noteq> []"
    using claim unfolding ClaimExternalEffects_def Let_def gate_request_def [symmetric] gate_targets_eq [symmetric]
    by (metis Pair_inject)
  then show ?thesis
  proof cases
    case once
    then show ?thesis by (rule once_cases)
  qed simp_all
qed

section \<open>Every step\<close>

lemma settles_others [simp]:
  "settles s (s\<lparr>es_waits := x\<rparr>)" "settles s (s\<lparr>es_watches := y\<rparr>)" "settles s (s\<lparr>es_accounts := z\<rparr>)" "settles s (s\<lparr>es_cursor := n\<rparr>)"
  by (rule settles_same; simp add: keeps_same)+

lemma bind_settles: "settles s (snd (BindExternalEffectObservation digest inst uuid now obs s))"
  by (auto simp: BindExternalEffectObservation_def bindExternalEffectObservationOnce_def Let_def
      split: option.splits sum.splits prod.splits intro: released_settles insert_event_settles)

lemma release_watch_settles: "settles s (snd (ReleaseExternalEffectForWatch digest tenantID watchID s))"
  by (auto simp: ReleaseExternalEffectForWatch_def Let_def split: option.splits sum.splits intro: bound.update_settles)

lemma observe_watch_settles: "settles s (snd (ObserveExternalEffectWithWatch digest tenantID personID claimID watchID s))"
  by (simp add: ObserveExternalEffectWithWatch_def Let_def released_settles split: option.split sum.split)

lemma settle_settles: "settles s (snd (SettleExternalEffect inst uuid now request s))"
proof -
  have "settles s (group_released a b c d e s\<lparr>es_settlements := ts\<rparr>)" for a b c d e ts
    using released_settles [of s a b c d e] by (simp add: settles_def keeps_def)
  then show ?thesis
    by (simp add: SettleExternalEffect_def settleExternalEffectOnce_def Let_def split: option.split)
qed

lemma runs_settle:
  assumes "\<And>r. run_evolves r (f r)"
  shows "settles s (s\<lparr>es_runs := map f (es_runs s)\<rparr>)"
proof -
  have "run_id (f r) = run_id r" for r using assms [of r] by (simp add: run_evolves_def)
  then have ids: "run_id \<circ> f = run_id" by (simp add: fun_eq_iff)
  have "keeps s (s\<lparr>es_runs := map f (es_runs s)\<rparr>)"
  proof (rule keepsI [of _ _ "[]" "map f (es_runs s)" "[]"])
    show "list_all2 run_evolves (es_runs s) (map f (es_runs s))" using assms by (simp add: list_all2_map2 list.rel_refl_strong)
  qed (simp, simp, simp add: ids)
  then show ?thesis by (simp add: settles_same)
qed

lemma effect_step_cases:
  assumes "effect_step s s'"
  shows "settles s s' \<or> (\<exists>inst eventIDs claimIDs now q d. grants inst eventIDs claimIDs now (gate_request q) (gate_targets q) s d s')"
  using assms
proof cases
  case (claim inst eventIDs claimIDs now q)
  then have "ClaimExternalEffects inst eventIDs claimIDs now q s = (fst (ClaimExternalEffects inst eventIDs claimIDs now q s), s')"
    by simp
  from claim_cases [OF this] show ?thesis by blast
next
  case allocate
  then show ?thesis by (auto simp: AllocateEffectSequence_def nextEffectSequenceTx_def )
next
  case abandon
  then show ?thesis
    using record_returns_settles [of s] by (auto simp: RecordAbandonedBackgroundEffects_def split: prod.splits option.splits) (metis snd_conv)+
next
  case (mark tenantID runID effectID)
  then show ?thesis using cross.update_settles by (auto simp: MarkExternalEffectPossible_def Let_def)
next
  case owner_watch
  then show ?thesis using bound.update_settles by simp
next
  case undispatched
  then show ?thesis using never.update_settles by (simp add: ObserveUndispatchedExternalEffects_def)
next
  case (observe tenantID personID claimID ref)
  have "settles s s'" unfolding observe
    using one.update_settles [of s "\<lambda>c. ec_tenant c = normalizeTenant tenantID \<and> ec_person c = personID \<and> ec_id c = claimID" ref]
    by (simp add: ObserveExternalEffect_def Let_def split: option.split)
  then show ?thesis ..
next
  case (start_run row)
  have "keeps s s'" unfolding start_run(1) using start_run(2)
    by (intro keepsI [of _ _ "[]" "es_runs s" "[row]"]) (auto simp: list.rel_refl)
  then show ?thesis using start_run(1) by (auto intro: settles_same)
next
  case (end_run status tenantID runID)
  then show ?thesis by (auto intro!: runs_settle simp: run_evolves_def)
next
  case relink_run
  then show ?thesis by (auto intro!: runs_settle simp: run_evolves_def)
next
  case (other_event e)
  then show ?thesis by (auto intro!: settles_same keeps_events [of _ _ "[e]"])
qed (auto simp: RecordExternalEffectDispatch_def RecordExternalEffectReturn_def record_event_settles ObserveExternalEffectGroup_def
      released_settles bind_settles release_watch_settles observe_watch_settles settle_settles MarkExternalResourceWaitQueued_def)

text \<open>The ledger only grows: every row of it stays, in its place, and evolves.\<close>

definition ledger_grows :: "effect_store \<Rightarrow> effect_store \<Rightarrow> bool" where
  "ledger_grows s s' \<longleftrightarrow> keeps s s' \<and> (\<exists>cs new. es_claims s' = cs @ new \<and> list_all2 claim_evolves (es_claims s) cs)"

lemma grants_keeps: "grants inst eventIDs claimIDs now q targets s d s' \<Longrightarrow> keeps s s' \<and> es_claims s' = es_claims s @ Claims d"
  by (auto simp: grants_def dest!: spend_settles) (auto simp: settles_def keeps_def)

lemma settles_grows: "settles s s' \<Longrightarrow> ledger_grows s s'"
  unfolding settles_def ledger_grows_def by (metis append_Nil2)

lemma grants_grows: "grants inst eventIDs claimIDs now q targets s d s' \<Longrightarrow> ledger_grows s s'"
  using grants_keeps [of inst eventIDs claimIDs now q targets s d s'] unfolding ledger_grows_def
  by (metis claim_evolves_refl list_all2_refl)

lemma ledger_grows_trans:
  assumes "ledger_grows s t" and "ledger_grows t u"
  shows "ledger_grows s u"
proof -
  obtain cs new where c: "es_claims t = cs @ new" "list_all2 claim_evolves (es_claims s) cs" using assms(1) by (auto simp: ledger_grows_def)
  obtain cs' new' where c': "es_claims u = cs' @ new'" "list_all2 claim_evolves (es_claims t) cs'" using assms(2) by (auto simp: ledger_grows_def)
  obtain ws rest where "es_claims u = ws @ rest" "list_all2 claim_evolves (es_claims s) ws"
    by (rule list_all2_extend [OF claim_evolves_trans c c'])
  moreover have "keeps s u" using assms keeps_trans unfolding ledger_grows_def by blast
  ultimately show ?thesis unfolding ledger_grows_def by blast
qed

lemma effect_steps_grow: "effect_steps s s' \<Longrightarrow> ledger_grows s s'"
proof (induction rule: effect_steps.induct)
  case (refl s)
  show ?case by (rule settles_grows) simp
next
  case (step s s' s'')
  then show ?case using effect_step_cases [OF step(2)] settles_grows grants_grows ledger_grows_trans by metis
qed

lemma ledger_grows_claim:
  assumes "ledger_grows s s'" and "c \<in> set (es_claims s)"
  obtains c' where "c' \<in> set (es_claims s')" and "claim_evolves c c'"
proof -
  obtain cs new where u: "es_claims s' = cs @ new" "list_all2 claim_evolves (es_claims s) cs" using assms(1) by (auto simp: ledger_grows_def)
  obtain i where i: "i < length (es_claims s)" "c = es_claims s ! i" using assms(2) by (auto simp: in_set_conv_nth)
  with u(2) have "i < length cs" "claim_evolves c (cs ! i)" by (auto simp: list_all2_conv_all_nth)
  with u(1) that [of "cs ! i"] show thesis by auto
qed

section \<open>What the ledger guarantees\<close>

lemma grant_passes_core:
  assumes "ClaimExternalEffects inst eventIDs claimIDs now q s = (Inr d, s')" and "Granted d"
  shows "es_claims s' = es_claims s @ Claims d \<and> map ec_target (Claims d) = gate_targets q
    \<and> (\<forall>c \<in> set (Claims d). group_of c = (q_tenant (gate_request q), q_run (gate_request q), q_effect (gate_request q))
         \<and> ec_state c = ExternalClaimReserved)
    \<and> (\<exists>row. owner_run s (q_tenant (gate_request q)) (q_run (gate_request q)) = Some row
         \<and> run_person row = q_person (gate_request q) \<and> run_status row = ''running'')
    \<and> (\<forall>c \<in> set (es_claims s). group_of c \<noteq> (q_tenant (gate_request q), q_run (gate_request q), q_effect (gate_request q)))
    \<and> (\<forall>c. in_the_way s (gate_request q) (gate_targets q) c \<longrightarrow> never_started s c \<or> passes inst s (gate_request q) c)"
proof -
  from claim_cases [OF assms(1)] assms(2)
  have g: "grants inst eventIDs claimIDs now (gate_request q) (gate_targets q) s d s'" by auto
  then obtain seq where claims: "Claims d = new_claims claimIDs now (gate_request q) seq (gate_targets q)" by (auto simp: grants_def)
  have "map ec_target (Claims d) = gate_targets q"
    unfolding claims new_claims_def by (simp add: comp_def case_prod_beta)
  moreover have "\<forall>c \<in> set (Claims d). group_of c = (q_tenant (gate_request q), q_run (gate_request q), q_effect (gate_request q))
      \<and> ec_state c = ExternalClaimReserved"
    unfolding claims new_claims_def by (auto simp: group_of_def)
  moreover have "\<forall>c \<in> set (es_claims s). group_of c \<noteq> (q_tenant (gate_request q), q_run (gate_request q), q_effect (gate_request q))"
  proof -
    have "sort_key ec_target (filter (\<lambda>c. group_of c = (q_tenant (gate_request q), q_run (gate_request q), q_effect (gate_request q)))
      (es_claims s)) = []" using g by (auto simp: grants_def loadExternalEffectClaimsTx_def)
    then show ?thesis by (metis (mono_tags, lifting) filter_empty_conv set_sort set_empty)
  qed
  ultimately show ?thesis using g grants_keeps [OF g] unfolding grants_def by blast
qed

text \<open>A grant is exclusive: it goes to a run of the person that is running and whose effect has no claim yet, it
  reserves exactly the requested targets, and every unresolved claim of that person on one of them either never started,
  its run being over, or was left uncertain by a run outside the chain and is passed by the person's approval or by an observation
  of this run that began after the effect and its return.\<close>

theorem grant_passes_conflicts:
  assumes "ClaimExternalEffects inst eventIDs claimIDs now q s = (Inr d, s')" and "Granted d"
  shows "es_claims s' = es_claims s @ Claims d \<and> map ec_target (Claims d) = gate_targets q
    \<and> (\<forall>c \<in> set (Claims d). group_of c = (q_tenant (gate_request q), q_run (gate_request q), q_effect (gate_request q))
         \<and> ec_state c = ExternalClaimReserved)
    \<and> (\<exists>row. owner_run s (q_tenant (gate_request q)) (q_run (gate_request q)) = Some row
         \<and> run_person row = q_person (gate_request q) \<and> run_status row = ''running'')
    \<and> (\<forall>c \<in> set (es_claims s). group_of c \<noteq> (q_tenant (gate_request q), q_run (gate_request q), q_effect (gate_request q)))
    \<and> (\<forall>c. in_the_way s (gate_request q) (gate_targets q) c \<longrightarrow> never_started s c \<or> passes inst s (gate_request q) c)"
  by (rule grant_passes_core [OF assms])

text \<open>C5. An effect is dispatched at most once: after a grant, no request for the same run and effect is ever granted again,
  whatever the ledger and the rest of the program do in between.\<close>

theorem effect_granted_once:
  assumes "ClaimExternalEffects inst eventIDs claimIDs now q s = (Inr d, s')" and "Granted d" and "effect_steps s' s''"
    and "ClaimExternalEffects inst2 eventIDs2 claimIDs2 now2 q2 s'' = (Inr d2, s3)"
    and "q_tenant (gate_request q2) = q_tenant (gate_request q)" and "q_run (gate_request q2) = q_run (gate_request q)"
    and "q_effect (gate_request q2) = q_effect (gate_request q)"
  shows "\<not> Granted d2"
proof
  assume "Granted d2"
  note first = grant_passes_core [OF assms(1,2)] and again = grant_passes_core [OF assms(4) \<open>Granted d2\<close>]
  have "q_targets q \<noteq> []" using assms(1,2) by (auto simp: ClaimExternalEffects_def Let_def split: if_splits)
  then have "gate_targets q \<noteq> []" by (metis gate_targets_def remdups_adj_Nil_iff set_empty set_sort)
  then obtain c where c: "c \<in> set (Claims d)" using first by (cases "Claims d") auto
  then have "c \<in> set (es_claims s')" using first by simp
  then obtain c' where "c' \<in> set (es_claims s'')" "claim_evolves c c'"
    by (rule ledger_grows_claim [OF effect_steps_grow [OF assms(3)]])
  moreover have "group_of c = (q_tenant (gate_request q), q_run (gate_request q), q_effect (gate_request q))" using first c by simp
  ultimately show False using claim_evolves_fields [of c c'] again assms(5-7) by simp
qed

text \<open>Evidence is final: a claim that is observed stays in the ledger, row and reference unchanged, through every later
  step, and no claim ever leaves the ledger or moves back in its life.\<close>

theorem observed_claim_final:
  assumes "effect_steps s s'" and "c \<in> set (es_claims s)"
  shows "\<exists>c' \<in> set (es_claims s'). claim_evolves c c' \<and> (ec_state c = ExternalClaimObserved \<longrightarrow> c' = c)"
  using ledger_grows_claim [OF effect_steps_grow [OF assms(1)] assms(2)] claim_evolves_fields by metis

section \<open>Mutual exclusion\<close>




lemma find_append: "find P (xs @ ys) = (case find P xs of None \<Rightarrow> find P ys | Some x \<Rightarrow> Some x)"
  by (induction xs) auto

lemma keyed_event_keeps: "keeps s s' \<Longrightarrow> keyed_event s key = Some e \<Longrightarrow> keyed_event s' key = Some e"
  by (auto simp: keeps_def keyed_event_def find_append)










section \<open>Observations and settlements\<close>

lemma spend_keys:
  assumes "foldm (spend_one eventIDs q tolerated) bs (spent0, s) = Inr (spent, s')"
    and "\<forall>e \<in> set spent0. keyed_event s (spent_key e) \<noteq> None" and "(v, e, a) \<in> set bs" and "ec_id (v_claim v) \<notin> set tolerated"
  shows "keyed_event s' (spent_key e) \<noteq> None"
  using assms
proof (induction bs arbitrary: spent0 s)
  case (Cons b bs)
  obtain spent1 s1 where one: "spend_one eventIDs q tolerated b (spent0, s) = Inr (spent1, s1)"
    and rest: "foldm (spend_one eventIDs q tolerated) bs (spent1, s1) = Inr (spent, s')"
    using Cons.prems(1) by (auto split: sum.splits)
  have keeps: "keeps s1 s'"
  proof -
    from rest have "(\<lambda>(_, t). keeps s1 t) (spent, s')"
    proof (rule foldm_invariant)
      fix x t t'
      assume "case t of (_, u) \<Rightarrow> keeps s1 u" and "spend_one eventIDs q tolerated x t = Inr t'"
      then show "case t' of (_, u) \<Rightarrow> keeps s1 u"
        by (auto simp: spend_one_def settles_def split: prod.splits if_splits sum.splits dest!: insert_event_settles intro: keeps_trans)
    qed (simp add: keeps_same)
    then show ?thesis by simp
  qed
  have mono: "keyed_event s (spent_key x) \<noteq> None \<Longrightarrow> keyed_event s1 (spent_key x) \<noteq> None" for x
  proof -
    have "keeps s s1" using one
      by (auto simp: spend_one_def settles_def split: prod.splits if_splits sum.splits dest!: insert_event_settles intro: keeps_same)
    then show "keyed_event s (spent_key x) \<noteq> None \<Longrightarrow> keyed_event s1 (spent_key x) \<noteq> None" by (auto dest: keyed_event_keeps)
  qed
  have keyed: "keyed_event s1 (spent_key x) \<noteq> None" if "x \<in> set spent1" for x
    using one that Cons.prems(2) mono
    by (auto simp: spend_one_def split: prod.splits if_splits sum.splits dest!: insert_event_effect)
      (auto simp: keyed_event_def find_append split: option.splits)
  show ?case
  proof (cases "b = (v, e, a)")
    case True
    then have "e \<in> set spent1" using one Cons.prems(4) by (auto simp: spend_one_def split: if_splits sum.splits prod.splits)
    then show ?thesis using keyed keyed_event_keeps [OF keeps] by fastforce
  next
    case False
    with Cons.prems(3,4) keyed show ?thesis by (intro Cons.IH [OF rest]) auto
  qed
qed simp

lemma spent_not_listed: "keyed_event s (spent_key e) \<noteq> None \<Longrightarrow> (e, a) \<notin> set (externalEffectAcknowledgmentsTx s tenantID runID)"
  by (auto simp: externalEffectAcknowledgmentsTx_def map_filter_Some_iff split: effect_payload.splits)

text \<open>An observation of another run's effect lets one call pass: once a grant has used it, no run finds it among its unspent
  observations in any later ledger.\<close>

theorem observation_passes_once:
  assumes "ClaimExternalEffects inst eventIDs claimIDs now q s = (Inr d, s')" and "Granted d" and "effect_steps s' s''"
    and "(v, e, a) \<in> set (Acknowledged (classifyExternalBlockers inst s (q_tenant (gate_request q)) (q_person (gate_request q))
      (q_run (gate_request q)) (gate_targets q)))"
    and "ec_id (v_claim v) \<notin> set (map TrimSpace (q_tolerated q))"
  shows "(e, b) \<notin> set (externalEffectAcknowledgmentsTx s'' tenantID runID)"
proof -
  let ?k = "classifyExternalBlockers inst s (q_tenant (gate_request q)) (q_person (gate_request q)) (q_run (gate_request q)) (gate_targets q)"
  have tol: "q_tolerated (gate_request q) = q_tolerated q" by (simp add: gate_request_def)
  from claim_cases [OF assms(1)] assms(2)
  have g: "grants inst eventIDs claimIDs now (gate_request q) (gate_targets q) s d s'" by auto
  then obtain s1 where s1: "spendExternalEffectAcknowledgmentsTx eventIDs (gate_request q) ?k (map TrimSpace (q_tolerated q)) s = Inr s1"
    "es_events s' = es_events s1" unfolding grants_def tol by auto
  then obtain spent where "foldm (spend_one eventIDs (gate_request q) (map TrimSpace (q_tolerated q))) (Acknowledged ?k) ([], s) = Inr (spent, s1)"
    by (auto simp: spendExternalEffectAcknowledgmentsTx_def split: sum.splits)
  from spend_keys [OF this _ assms(4,5)] s1(2) have "keyed_event s' (spent_key e) \<noteq> None" by (simp add: keyed_event_def)
  moreover have "keeps s' s''" using effect_steps_grow [OF assms(3)] by (simp add: ledger_grows_def)
  ultimately have "keyed_event s'' (spent_key e) \<noteq> None" by (auto dest: keyed_event_keeps)
  then show ?thesis by (rule spent_not_listed)
qed

lemma find_map_same: "(\<And>x. P (f x) = P x) \<Longrightarrow> find P (map f xs) = map_option f (find P xs)"
  by (induction xs) auto

lemma released_group:
  "c \<in> set (es_claims (group_released tenantID personID runID effectID ref s)) \<Longrightarrow> in_group tenantID personID runID effectID c \<Longrightarrow>
   ec_state c = ExternalClaimObserved"
proof -
  let ?g = "in_group tenantID personID runID effectID"
  assume "c \<in> set (es_claims (group_released tenantID personID runID effectID ref s))" and in_g: "?g c"
  then have "c \<in> (\<lambda>b. if ?g b \<and> ec_state b \<noteq> ExternalClaimObserved then observed ref b else b) ` set (es_claims s)"
    by (simp add: group_released_def set_claims_def)
  then obtain b where b: "c = (if ?g b \<and> ec_state b \<noteq> ExternalClaimObserved then observed ref b else b)" by (rule imageE)
  show ?thesis
  proof (cases "?g b \<and> ec_state b \<noteq> ExternalClaimObserved")
    case True
    with b have "c = observed ref b" by simp
    then show ?thesis by (simp add: observed_def)
  next
    case False
    with b have "c = b" by simp
    with False in_g show ?thesis by simp
  qed
qed

lemma released_others:
  "c \<in> set (es_claims s) \<Longrightarrow> \<not> in_group tenantID personID runID effectID c \<or> ec_state c = ExternalClaimObserved \<Longrightarrow>
   c \<in> set (es_claims (group_released tenantID personID runID effectID ref s))"
  unfolding group_released_def set_claims_def by (auto intro!: image_eqI [of _ _ c])

text \<open>A bound observation releases only what it can have seen: the observer is a running run of the person in the claim's own
  chain, the claim is dispatched and not in flight, the observation began after the claim and after its recorded return; then the
  whole effect is released, and no other claim changes.\<close>

theorem observation_releases_own_effect:
  assumes "BindExternalEffectObservation digest inst uuid now obs s = (Inr (Released c'), s')"
  shows "\<exists>c \<in> set (es_claims s). ec_id c = o_claim obs \<and> ec_person c = o_person obs \<and> ec_id c' = ec_id c
    \<and> ec_run c \<in> set (runLineage s (ec_tenant c) (o_person obs) (o_observer obs))
    \<and> (\<exists>r \<in> set (es_runs s). run_id r = o_observer obs \<and> run_person r = o_person obs \<and> run_status r = ''running'')
    \<and> disposition (scanExternalClaimFacts inst s c) True \<in> {Some ExternalClaimWatched, Some ExternalClaimLeftUncertain}
    \<and> ec_sequence c < o_start obs \<and> (\<forall>e. return_of s c = Some e \<longrightarrow> 0 < ev_cursor e \<longrightarrow> ev_cursor e < o_start obs)
    \<and> (\<forall>x \<in> set (es_claims s'). in_group (ec_tenant c) (ec_person c) (ec_run c) (ec_effect c) x \<longrightarrow> ec_state x = ExternalClaimObserved)
    \<and> (\<forall>x \<in> set (es_claims s). \<not> in_group (ec_tenant c) (ec_person c) (ec_run c) (ec_effect c) x \<longrightarrow> x \<in> set (es_claims s'))"
proof -
  let ?tenant = "normalizeTenant (o_tenant obs)"
  from assms obtain r v where r: "find (\<lambda>r. run_tenant r = ?tenant \<and> run_person r = o_person obs \<and> run_id r = o_observer obs) (es_runs s) = Some r"
      "run_status r = ''running''"
    and v: "externalEffectObservationTargetTx inst s ?tenant (o_person obs) (o_observer obs) (o_claim obs) = Inr v"
    and after: "observationFollowsEffect (ec_sequence (v_claim v)) (ec_created (v_claim v)) (v_cursor v) (o_start obs) now" "0 < o_start obs"
    and same: "v_same_chain v" "c' = observed (''observation:'' @ o_observer obs @ '':'' @ o_call obs) (v_claim v)"
      "s' = group_released ?tenant (o_person obs) (ec_run (v_claim v)) (ec_effect (v_claim v)) (''observation:'' @ o_observer obs @ '':'' @ o_call obs) s"
    by (auto simp: BindExternalEffectObservation_def bindExternalEffectObservationOnce_def Let_def
        split: if_splits option.splits sum.splits prod.splits)
  from v obtain c where c: "filter (\<lambda>c. ec_tenant c = ?tenant \<and> ec_person c = o_person obs \<and> ec_id c = o_claim obs) (es_claims s) = [c]"
    and view: "claim_view_of inst s (runLineage s ?tenant (o_person obs) (o_observer obs)) c = Some v" "v_disposition v \<noteq> ExternalClaimInFlight"
    by (auto simp: externalEffectObservationTargetTx_def split: if_splits list.splits option.splits)
  from c have "c \<in> set (filter (\<lambda>c. ec_tenant c = ?tenant \<and> ec_person c = o_person obs \<and> ec_id c = o_claim obs) (es_claims s))"
    by (simp only: list.set_intros)
  then have mem: "c \<in> set (es_claims s)" "ec_tenant c = ?tenant" "ec_person c = o_person obs" "ec_id c = o_claim obs" by auto
  from view obtain d where d: "disposition (scanExternalClaimFacts inst s c) (v_same_chain v) = Some d" "v_disposition v = d" "v_claim v = c"
      "v_same_chain v = (ec_run c \<in> set (runLineage s ?tenant (o_person obs) (o_observer obs)))" "v_cursor v = f_cursor (scanExternalClaimFacts inst s c)"
    by (auto simp: claim_view_of_def Let_def)
  have follows: "ec_sequence c < o_start obs" "\<forall>e. return_of s c = Some e \<longrightarrow> 0 < ev_cursor e \<longrightarrow> ev_cursor e < o_start obs"
    using after d(3,5) by (auto simp: observationFollowsEffect_def facts_instance split: if_splits)
  have "r \<in> set (es_runs s) \<and> run_id r = o_observer obs \<and> run_person r = o_person obs"
    using r(1) by (auto simp: find_Some_iff)
  moreover have "disposition (scanExternalClaimFacts inst s c) True \<in> {Some ExternalClaimWatched, Some ExternalClaimLeftUncertain}"
    using d(1,2) same(1) view(2) disposition_cases [of "scanExternalClaimFacts inst s c" True d] by auto
  ultimately show ?thesis
    using mem d(3,4) same r(2) follows released_group released_others
    by (intro bexI [OF _ mem(1)]) (auto simp: observed_def)
qed

text \<open>A settlement is the person's own decision, recorded once: it comes from an active account of the claim's owner, it settles
  only a dispatched effect that is not in flight, it releases the whole effect and no other claim, and settling again returns the
  same record and changes nothing.\<close>

theorem settlement_by_owner:
  assumes "settleExternalEffectOnce inst uuid now q s = (Inr r, s')" and "\<not> Replayed r"
  shows "own_endpoint s q \<and> (\<exists>c \<in> set (es_claims s). ec_id c = sr_claim q \<and> ec_person c = sr_person q \<and> ec_state c = ExternalClaimUncertain
      \<and> disposition (scanExternalClaimFacts inst s c) False \<noteq> Some ExternalClaimInFlight
      \<and> (\<forall>x \<in> set (es_claims s'). in_group (sr_tenant q) (sr_person q) (ec_run c) (ec_effect c) x \<longrightarrow> ec_state x = ExternalClaimObserved)
      \<and> (\<forall>x \<in> set (es_claims s). \<not> in_group (sr_tenant q) (sr_person q) (ec_run c) (ec_effect c) x \<longrightarrow> x \<in> set (es_claims s')))
    \<and> (\<exists>claims. settleExternalEffectOnce inst2 uuid2 now2 q s' = (Inr \<lparr>Settlement = Settlement r, SettledClaims = claims, Replayed = True\<rparr>, s'))"
proof -
  note unfold = settleExternalEffectOnce_def Let_def
  have own: "own_endpoint s q" using assms by (simp add: unfold split: if_splits)
  obtain c where c1: "find (\<lambda>c. ec_tenant c = sr_tenant q \<and> ec_id c = sr_claim q) (es_claims s) = Some c" "ec_person c = sr_person q"
    using assms own by (simp add: unfold split: option.splits if_splits)
  have fresh: "externalEffectSettlementTx s (sr_tenant q) (ec_run c) (ec_effect c) = None"
    using assms own c1 by (auto simp: unfold split: option.splits if_splits)
  have unc: "ec_state c = ExternalClaimUncertain" using assms own c1 fresh by (simp add: unfold split: if_splits)
  have flight: "disposition (scanExternalClaimFacts inst s c) False \<noteq> Some ExternalClaimInFlight"
    using assms own c1 fresh unc by (simp add: unfold split: if_splits)
  note c = c1 unc
  define t where "t = \<lparr>st_id = ''effectsettle_'' @ uuid, st_tenant = sr_tenant q, st_person = sr_person q,
    st_claim = ec_id c, st_run = ec_run c, st_effect = ec_effect c, st_actor = sr_actor q,
    st_channel = sr_channel q, st_reason = sr_reason q, st_created = now\<rparr>"
  have s': "s' = (group_released (sr_tenant q) (sr_person q) (ec_run c) (ec_effect c) (ObservationRef t) s)\<lparr>es_settlements := es_settlements s @ [t]\<rparr>"
    and r: "Settlement r = t"
    using assms own c1 fresh unc flight by (auto simp: unfold t_def group_released_def set_claims_def)
  have t: "st_tenant t = sr_tenant q" "st_run t = ec_run c" "st_effect t = ec_effect c" "st_person t = sr_person q" "Settlement r = t"
    using r by (simp_all add: t_def)
  have mem: "c \<in> set (es_claims s)" "ec_tenant c = sr_tenant q" "ec_id c = sr_claim q" using c(1) by (auto simp: find_Some_iff)
  let ?f = "\<lambda>x. if in_group (sr_tenant q) (sr_person q) (ec_run c) (ec_effect c) x \<and> ec_state x \<noteq> ExternalClaimObserved
    then observed (ObservationRef t) x else x"
  have claims: "es_claims s' = map ?f (es_claims s)" by (simp add: s' group_released_def set_claims_def)
  have again: "find (\<lambda>x. ec_tenant x = sr_tenant q \<and> ec_id x = sr_claim q) (es_claims s') = Some (?f c)"
    using c(1) find_map_same [of "\<lambda>x. ec_tenant x = sr_tenant q \<and> ec_id x = sr_claim q" ?f "es_claims s"] unfolding claims by (simp add: observed_def)
  have keep: "ec_person (?f c) = sr_person q" "ec_run (?f c) = ec_run c" "ec_effect (?f c) = ec_effect c" using c(2) by (auto simp: observed_def)
  have found: "externalEffectSettlementTx s' (sr_tenant q) (ec_run c) (ec_effect c) = Some t"
    using fresh t by (simp add: externalEffectSettlementTx_def s' find_append)
  have "es_accounts s' = es_accounts s" by (simp add: s' group_released_def set_claims_def)
  then have "own_endpoint s' q" using own unfolding own_endpoint_def by (simp only:)
  then have replay: "settleExternalEffectOnce inst2 uuid2 now2 q s' = (Inr \<lparr>Settlement = t,
      SettledClaims = loadExternalEffectClaimsTx s' (sr_tenant q) (ec_run c) (ec_effect c), Replayed = True\<rparr>, s')"
    using again keep found t(4) unfolding settleExternalEffectOnce_def by (simp only: if_False not_not option.case keep) simp
  have group: "\<forall>x \<in> set (es_claims s'). in_group (sr_tenant q) (sr_person q) (ec_run c) (ec_effect c) x \<longrightarrow> ec_state x = ExternalClaimObserved"
    using released_group unfolding s' by simp
  have others: "\<forall>x \<in> set (es_claims s). \<not> in_group (sr_tenant q) (sr_person q) (ec_run c) (ec_effect c) x \<longrightarrow> x \<in> set (es_claims s')"
    using released_others unfolding s' by simp
  show ?thesis using own mem(1,3) c(2,3) flight group others replay t(5) by blast
qed

section \<open>Progress\<close>

lemma clear_claim:
  assumes "q_person (gate_request q) \<noteq> []" and "q_run (gate_request q) \<noteq> []" and "q_effect (gate_request q) \<noteq> []"
    and "q_targets q \<noteq> []" and "length (q_targets q) \<le> 16" and "list_all validExternalTargetKey (q_targets q)"
    and "owner_run s (q_tenant (gate_request q)) (q_run (gate_request q)) = Some r" and "run_person r = q_person (gate_request q)"
    and "run_status r = ''running''"
    and "\<forall>c \<in> set (es_claims s). group_of c \<noteq> (q_tenant (gate_request q), q_run (gate_request q), q_effect (gate_request q))"
    and "\<forall>c. \<not> in_the_way s (gate_request q) (gate_targets q) c"
  shows "ClaimExternalEffects inst eventIDs claimIDs now q s =
    (Inr (noDecision\<lparr>Claims := new_claims claimIDs now (gate_request q) (es_cursor s + 1) (gate_targets q), Granted := True\<rparr>),
     s\<lparr>es_cursor := es_cursor s + 1, es_claims := es_claims s @ new_claims claimIDs now (gate_request q) (es_cursor s + 1) (gate_targets q)\<rparr>)"
proof -
  let ?q = "gate_request q" and ?t = "gate_targets q"
  have none: "filter (conflicts_with ?t) (sort_key (\<lambda>c. (ec_created c, ec_id c)) (filter (\<lambda>c. ec_tenant c = q_tenant ?q
      \<and> ec_person c = q_person ?q \<and> ec_state c \<noteq> ExternalClaimObserved) (es_claims s))) = []"
    using assms(11) by (auto simp: filter_empty_conv in_the_way_def)
  have "blockers inst s (q_tenant ?q) (q_person ?q) (q_run ?q) ?t = []"
    unfolding blockers_def none by (simp add: List.map_filter_def)
  then have k: "Own (classifyExternalBlockers inst s (q_tenant ?q) (q_person ?q) (q_run ?q) ?t) = []"
    "Waiting (classifyExternalBlockers inst s (q_tenant ?q) (q_person ?q) (q_run ?q) ?t) = []"
    "Foreign (classifyExternalBlockers inst s (q_tenant ?q) (q_person ?q) (q_run ?q) ?t) = []"
    "Acknowledged (classifyExternalBlockers inst s (q_tenant ?q) (q_person ?q) (q_run ?q) ?t) = []"
    by (simp_all add: classifyExternalBlockers_def List.map_filter_def)
  have "loadExternalEffectClaimsTx s (q_tenant ?q) (q_run ?q) (q_effect ?q) = []"
  proof -
    have "filter (\<lambda>c. group_of c = (q_tenant ?q, q_run ?q, q_effect ?q)) (es_claims s) = []"
      using assms(10) by (auto simp: filter_empty_conv)
    then show ?thesis by (simp add: loadExternalEffectClaimsTx_def)
  qed
  then have "claimExternalEffectsOnce inst eventIDs claimIDs now ?q ?t s =
    (Inr (noDecision\<lparr>Claims := new_claims claimIDs now ?q (es_cursor s + 1) ?t, Granted := True\<rparr>),
     s\<lparr>es_cursor := es_cursor s + 1, es_claims := es_claims s @ new_claims claimIDs now ?q (es_cursor s + 1) ?t\<rparr>)"
    using assms(7-9) k by (simp add: claimExternalEffectsOnce_def decide_claim_def spendExternalEffectAcknowledgmentsTx_def nextEffectSequenceTx_def Let_def)
  moreover have "list_all validExternalTargetKey ?t" using assms(6) by (simp add: gate_targets_def list_all_iff)
  moreover have "ClaimExternalEffects inst eventIDs claimIDs now q s = claimExternalEffectsOnce inst eventIDs claimIDs now ?q ?t s"
    if "list_all validExternalTargetKey ?t"
    using that assms(1-5) by (simp add: ClaimExternalEffects_def gate_request_def gate_targets_def Let_def)
  ultimately show ?thesis by simp
qed

text \<open>The ledger never blocks a call that conflicts with nothing: a complete request by a running run of the person, for an effect
  without claims and targets that no unresolved claim of the person touches, is granted.\<close>

theorem free_targets_granted:
  assumes "q_person (gate_request q) \<noteq> []" and "q_run (gate_request q) \<noteq> []" and "q_effect (gate_request q) \<noteq> []"
    and "q_targets q \<noteq> []" and "length (q_targets q) \<le> 16" and "list_all validExternalTargetKey (q_targets q)"
    and "owner_run s (q_tenant (gate_request q)) (q_run (gate_request q)) = Some r" and "run_person r = q_person (gate_request q)"
    and "run_status r = ''running''"
    and "\<forall>c \<in> set (es_claims s). group_of c \<noteq> (q_tenant (gate_request q), q_run (gate_request q), q_effect (gate_request q))"
    and "\<forall>c. \<not> in_the_way s (gate_request q) (gate_targets q) c"
  shows "\<exists>d s'. ClaimExternalEffects inst eventIDs claimIDs now q s = (Inr d, s') \<and> Granted d"
  using clear_claim [OF assms] by simp

section \<open>Examples\<close>

text \<open>Two runs of a person; the second one finds a claim that the first left uncertain, and has observed the effect since.\<close>

definition sample_run :: "string \<Rightarrow> string \<Rightarrow> run_row" where
  "sample_run ident status = \<lparr>run_tenant = ''default'', run_id = ident, run_person = ''p'', run_status = status, run_resumes = [],
     run_thread = ''t''\<rparr>"

definition sample_claim :: "string \<Rightarrow> effect_claim" where
  "sample_claim state = \<lparr>ec_id = ''c'', ec_tenant = ''default'', ec_person = ''p'', ec_run = ''a'', ec_effect = ''e'', ec_target = ''db:x'',
     ec_state = state, ec_ref = [], ec_created = 1, ec_sequence = 1\<rparr>"

definition sample_observation :: effect_event where
  "sample_observation = \<lparr>ev_id = ''o'', ev_cursor = 3, ev_thread = ''t'', ev_run = ''b'', ev_type = ExternalEffectObservedEvent,
     ev_payload = ObservedPayload \<lparr>ack_claim = ''c'', ack_claim_run = ''a'', ack_effect = ''e'', ack_call = ''k'', ack_start = 2\<rparr>,
     ev_key = ''external-effect-observed:b:k''\<rparr>"

definition sample_ledger :: "effect_claim list \<Rightarrow> effect_event list \<Rightarrow> effect_store" where
  "sample_ledger cs es = \<lparr>es_claims = cs, es_runs = [sample_run ''a'' ''failed'', sample_run ''b'' ''running''], es_events = es,
     es_watches = [], es_waits = [], es_settlements = [],
     es_accounts = [\<lparr>ac_tenant = ''default'', ac_id = ''acc'', ac_person = ''p'', ac_status = ''active'', ac_user = ''u''\<rparr>], es_cursor = 9\<rparr>"

definition sample_request :: ExternalEffectClaimRequest where
  "sample_request = \<lparr>q_tenant = [], q_person = ''p'', q_run = ''b'', q_effect = ''f'', q_targets = [''db:x''], q_tolerated = [], q_defer = False\<rparr>"

lemma effect_sample_trims: "TrimSpace ''p'' = ''p''" "TrimSpace ''b'' = ''b''" "TrimSpace ''f'' = ''f''"
  by (simp_all add: TrimSpace_def chunks_ascii byte_def is_space_def)

lemma sample_gate:
  "gate_request sample_request = sample_request\<lparr>q_tenant := ''default''\<rparr>" "gate_targets sample_request = [''db:x'']"
  by (simp_all add: gate_request_def gate_targets_def sample_request_def effect_sample_trims normalizeTenant_def normalizeName_def DefaultTenantID_def)

lemma sample_target: "validExternalTargetKey ''db:x''"
  by (simp add: validExternalTargetKey_def UnknownExternalTarget_def CutByte_def target_char_def byte_def Let_def)

lemmas sample_defs = sample_run_def sample_claim_def sample_observation_def sample_ledger_def sample_request_def claim_states dispositions

lemma sample_lineage: "runLineage (sample_ledger cs es) ''default'' ''p'' ''b'' = [''b'', ''b'']"
  by (simp add: runLineage_def effect_sample_trims resumeChainMaxHops_def sample_defs numeral_eq_Suc)


definition sample_granted :: "effect_store \<Rightarrow> effect_store" where
  "sample_granted s = s\<lparr>es_claims := es_claims s @ new_claims (\<lambda>_. ''n'') 5 (gate_request sample_request) (es_cursor s + 1) [''db:x''],
     es_cursor := es_cursor s + 1\<rparr>"

definition sample_spent :: "effect_store \<Rightarrow> effect_store" where
  "sample_spent s = s\<lparr>es_cursor := 10, es_events := es_events s @ [\<lparr>ev_id = ''event_x'', ev_cursor = 10, ev_thread = ''t'', ev_run = ''b'',
     ev_type = ExternalEffectObservationSpent, ev_payload = SpentPayload ''o'' ''f'', ev_key = spent_key ''o''\<rparr>]\<rparr>"

lemma sample_owner: "owner_run (sample_ledger cs es) ''default'' ''b'' = Some (sample_run ''b'' ''running'')"
    "owner_run (sample_ledger cs es) ''default'' ''a'' = Some (sample_run ''a'' ''failed'')"
  by (simp_all add: owner_run_def sample_ledger_def sample_run_def)

lemma sample_facts:
  "scanExternalClaimFacts inst (sample_ledger [sample_claim ExternalClaimUncertain] [sample_observation]) (sample_claim ExternalClaimUncertain) =
     \<lparr>f_claim = sample_claim ExternalClaimUncertain, f_owner = ''failed'', f_background = False, f_returned = False, f_cursor = 0,
      f_watched = False, f_here = False\<rparr>"
  by (simp add: scanExternalClaimFacts_def dispatch_of_def return_of_def keyed_event_def externalEffectDispatchKey_def
      externalEffectReturnKey_def owner_run_def sample_defs)

abbreviation sample_left :: effect_store where
  "sample_left \<equiv> sample_ledger [sample_claim ExternalClaimUncertain] [sample_observation]"

lemma sample_acks:
  "externalEffectAcknowledgmentsTx sample_left ''default'' ''b'' =
     [(''o'', \<lparr>ack_claim = ''c'', ack_claim_run = ''a'', ack_effect = ''e'', ack_call = ''k'', ack_start = 2\<rparr>)]"
  by (simp add: externalEffectAcknowledgmentsTx_def sample_owner)
     (simp add: sample_defs keyed_event_def spent_key_def List.map_filter_def)

abbreviation sample_view :: claim_view where
  "sample_view \<equiv> \<lparr>v_claim = sample_claim ExternalClaimUncertain, v_disposition = ExternalClaimLeftUncertain, v_same_chain = False, v_cursor = 0\<rparr>"

lemma sample_blockers: "blockers inst sample_left ''default'' ''p'' ''b'' [''db:x''] = [sample_view]"
proof -
  have "filter (conflicts_with [''db:x'']) (sort_key (\<lambda>c. (ec_created c, ec_id c))
      (filter (\<lambda>c. ec_tenant c = ''default'' \<and> ec_person c = ''p'' \<and> ec_state c \<noteq> ExternalClaimObserved) (es_claims sample_left)))
    = [sample_claim ExternalClaimUncertain]"
    by (simp add: sample_defs conflicts_with_def externalTargetsConflict_def)
  then show ?thesis
    by (simp add: blockers_def sample_lineage List.map_filter_def claim_view_of_def sample_facts disposition_def)
       (simp add: sample_defs)
qed

lemma sample_conflicts:
  "classifyExternalBlockers inst sample_left ''default'' ''p'' ''b'' [''db:x''] =
     \<lparr>All = [sample_view], Own = [], Waiting = [], Foreign = [], Acknowledged = [(sample_view, ''o'',
        \<lparr>ack_claim = ''c'', ack_claim_run = ''a'', ack_effect = ''e'', ack_call = ''k'', ack_start = 2\<rparr>)]\<rparr>"
  by (simp add: classifyExternalBlockers_def sample_acks sample_blockers)
     (simp add: sample_defs forClaim_def observationFollowsEffect_def List.map_filter_def)

lemma sample_spends:
  "spendExternalEffectAcknowledgmentsTx (\<lambda>_. ''x'') (gate_request sample_request)
      (classifyExternalBlockers inst sample_left ''default'' ''p'' ''b'' [''db:x'']) [] sample_left = Inr (sample_spent sample_left)"
proof -
  have key: "keyed_event sample_left (spent_key ''o'') = None"
    by (simp add: keyed_event_def sample_ledger_def sample_observation_def spent_key_def)
  have "insertEffectEventTx ''x'' ''default'' ''b'' ExternalEffectObservationSpent (SpentPayload ''o'' ''f'') (spent_key ''o'') sample_left
      = Inr ((True, 10), sample_spent sample_left)"
    by (simp add: insertEffectEventTx_def sample_owner key nextEffectSequenceTx_def Let_def sample_spent_def)
       (simp add: sample_run_def sample_ledger_def)
  then show ?thesis
    by (simp add: sample_conflicts spendExternalEffectAcknowledgmentsTx_def spend_one_def sample_gate) (simp add: sample_request_def)
qed

lemma sample_fresh: "loadExternalEffectClaimsTx sample_left ''default'' ''b'' ''f'' = []"
  by (simp add: loadExternalEffectClaimsTx_def sample_ledger_def sample_claim_def group_of_def)

lemma sample_claims_once:
  "ClaimExternalEffects inst eventIDs claimIDs now sample_request s =
     claimExternalEffectsOnce inst eventIDs claimIDs now (gate_request sample_request) [''db:x''] s"
  using sample_gate(2) sample_target
  by (simp add: ClaimExternalEffects_def Let_def gate_targets_def)
     (simp add: gate_request_def sample_request_def effect_sample_trims)

lemma effect_sample_fields:
  "q_tenant (gate_request sample_request) = ''default''" "q_person (gate_request sample_request) = ''p''"
  "q_run (gate_request sample_request) = ''b''" "q_effect (gate_request sample_request) = ''f''"
  "q_tolerated (gate_request sample_request) = []"
  by (simp_all add: sample_gate) (simp_all add: sample_request_def)

lemma sample_grant:
  "ClaimExternalEffects inst (\<lambda>_. ''x'') (\<lambda>_. ''n'') 5 sample_request sample_left =
     (Inr (noDecision\<lparr>Claims := new_claims (\<lambda>_. ''n'') 5 (gate_request sample_request) 11 [''db:x''], Granted := True\<rparr>),
      sample_granted (sample_spent sample_left))"
proof -
  have "es_cursor (sample_spent s) = 10" for s by (simp add: sample_spent_def)
  then have "decide_claim (\<lambda>_. ''x'') (\<lambda>_. ''n'') 5 (gate_request sample_request) [''db:x'']
      (classifyExternalBlockers inst sample_left ''default'' ''p'' ''b'' [''db:x'']) sample_left
    = (Inr (noDecision\<lparr>Claims := new_claims (\<lambda>_. ''n'') 5 (gate_request sample_request) 11 [''db:x''], Granted := True\<rparr>),
        sample_granted (sample_spent sample_left))"
    using sample_spends [of inst]
    by (simp add: decide_claim_def sample_conflicts effect_sample_fields nextEffectSequenceTx_def sample_granted_def Let_def)
  then show ?thesis
    by (simp add: sample_claims_once claimExternalEffectsOnce_def sample_owner sample_fresh effect_sample_fields) (simp add: sample_run_def)
qed

abbreviation sample_after :: effect_store where
  "sample_after \<equiv> sample_granted (sample_spent sample_left)"

theorem grant_passes_conflicts_witness:
  "\<exists>d s'. ClaimExternalEffects ''i'' (\<lambda>_. ''x'') (\<lambda>_. ''n'') 5 sample_request sample_left = (Inr d, s')
     \<and> Granted d \<and> es_claims s' = es_claims sample_left @ Claims d \<and> map ec_target (Claims d) = [''db:x'']"
  using grant_passes_conflicts [OF sample_grant [of "''i''"]] sample_grant [of "''i''"] sample_gate(2) by simp

lemma sample_again:
  "ClaimExternalEffects inst eventIDs claimIDs now sample_request sample_after =
     (Inr (noDecision\<lparr>Claims := new_claims (\<lambda>_. ''n'') 5 (gate_request sample_request) 11 [''db:x''], AlreadyKnown := True\<rparr>), sample_after)"
proof -
  have "owner_run sample_after ''default'' ''b'' = Some (sample_run ''b'' ''running'')"
    using sample_owner(1) by (simp add: owner_run_def sample_granted_def sample_spent_def)
  moreover have "loadExternalEffectClaimsTx sample_after ''default'' ''b'' ''f'' = new_claims (\<lambda>_. ''n'') 5 (gate_request sample_request) 11 [''db:x'']"
    by (simp add: loadExternalEffectClaimsTx_def sample_granted_def sample_spent_def new_claims_def effect_sample_fields group_of_def)
       (simp add: sample_ledger_def sample_claim_def)
  moreover have "map ec_target (new_claims (\<lambda>_. ''n'') 5 (gate_request sample_request) 11 [''db:x'']) = [''db:x'']"
    by (simp add: new_claims_def)
  ultimately show ?thesis
    by (auto simp: sample_claims_once claimExternalEffectsOnce_def effect_sample_fields Let_def sample_run_def)
qed

theorem effect_granted_once_witness:
  "\<exists>d s'. ClaimExternalEffects ''i'' (\<lambda>_. ''y'') (\<lambda>_. ''m'') 6 sample_request sample_after = (Inr d, s') \<and> \<not> Granted d"
  using effect_granted_once [OF sample_grant [of "''i''"] _ effect_steps.refl sample_again [of "''i''" "\<lambda>_. ''y''" "\<lambda>_. ''m''" 6]]
    sample_again [of "''i''" "\<lambda>_. ''y''" "\<lambda>_. ''m''" 6] by simp

theorem observed_claim_final_witness:
  "\<exists>c' \<in> set (es_claims (snd (AllocateEffectSequence (sample_ledger [sample_claim ExternalClaimObserved] [])))).
     claim_evolves (sample_claim ExternalClaimObserved) c' \<and> c' = sample_claim ExternalClaimObserved"
proof -
  let ?s = "sample_ledger [sample_claim ExternalClaimObserved] []"
  have "effect_steps ?s (snd (AllocateEffectSequence ?s))" by (rule effect_steps.step [OF effect_steps.refl effect_step.allocate])
  from observed_claim_final [OF this, of "sample_claim ExternalClaimObserved"]
  show ?thesis by (simp add: sample_ledger_def) (simp add: sample_claim_def)
qed

theorem observation_passes_once_witness:
  "externalEffectAcknowledgmentsTx sample_left ''default'' ''b'' \<noteq> []
   \<and> (\<forall>a. (''o'', a) \<notin> set (externalEffectAcknowledgmentsTx sample_after ''default'' ''b''))"
  using observation_passes_once [OF sample_grant [of "''i''"] _ effect_steps.refl, of sample_view "''o''"]
    sample_acks sample_conflicts [of "''i''"] effect_sample_fields sample_gate(2)
  by (simp add: sample_request_def)

theorem settlement_by_owner_witness:
  "\<exists>r s'. settleExternalEffectOnce ''i'' ''u'' 7 \<lparr>sr_tenant = ''default'', sr_person = ''p'', sr_claim = ''c'', sr_actor = ''acc'',
       sr_channel = ''u'', sr_reason = []\<rparr> sample_left = (Inr r, s') \<and> \<not> Replayed r
     \<and> (\<exists>c \<in> set (es_claims sample_left). ec_id c = ''c'' \<and> ec_state c = ExternalClaimUncertain)"
proof -
  let ?q = "\<lparr>sr_tenant = ''default'', sr_person = ''p'', sr_claim = ''c'', sr_actor = ''acc'', sr_channel = ''u'', sr_reason = []\<rparr>"
  have "own_endpoint sample_left ?q" by (simp add: own_endpoint_def sample_ledger_def)
  moreover have "find (\<lambda>c. ec_tenant c = ''default'' \<and> ec_id c = ''c'') (es_claims sample_left) = Some (sample_claim ExternalClaimUncertain)"
    by (simp add: sample_ledger_def sample_claim_def)
  moreover have "externalEffectSettlementTx sample_left ''default'' ''a'' ''e'' = None"
    by (simp add: externalEffectSettlementTx_def sample_ledger_def)
  moreover have "disposition (scanExternalClaimFacts ''i'' sample_left (sample_claim ExternalClaimUncertain)) False = Some ExternalClaimLeftUncertain"
    by (simp add: sample_facts disposition_def Let_def) (simp add: sample_claim_def claim_states)
  moreover have "ec_person (sample_claim x) = ''p''" "ec_run (sample_claim x) = ''a''" "ec_effect (sample_claim x) = ''e''"
    "ec_state (sample_claim x) = x" "ec_id (sample_claim x) = ''c''" for x
    by (simp_all add: sample_claim_def)
  ultimately obtain r s' where r: "settleExternalEffectOnce ''i'' ''u'' 7 ?q sample_left = (Inr r, s')" "\<not> Replayed r"
    by (simp add: settleExternalEffectOnce_def Let_def dispositions)
  with settlement_by_owner [OF r, of "''i''" "''v''" 8] show ?thesis by auto
qed

text \<open>An observation by the run that owns the claim, and two effects of a run on one target, the first observed before the second.\<close>

definition sample_own :: effect_claim where
  "sample_own = (sample_claim ExternalClaimUncertain)\<lparr>ec_run := ''b''\<rparr>"

definition sample_fetch :: ExternalEffectObservation where
  "sample_fetch = \<lparr>o_tenant = [], o_person = ''p'', o_observer = ''b'', o_claim = ''c'', o_call = ''k'', o_start = 2\<rparr>"

lemma sample_more_trims: "TrimSpace ''k'' = ''k''" "TrimSpace ''c'' = ''c''" "TrimSpace ''g'' = ''g''" "TrimSpace ''r'' = ''r''"
    "normalizeTenant [] = ''default''"
  by (simp_all add: TrimSpace_def chunks_ascii byte_def is_space_def normalizeTenant_def normalizeName_def DefaultTenantID_def)

theorem observation_releases_own_effect_witness:
  "\<exists>c' s'. BindExternalEffectObservation (\<lambda>t. t) ''i'' ''x'' 5 sample_fetch (sample_ledger [sample_own] []) = (Inr (Released c'), s')
     \<and> (\<forall>x \<in> set (es_claims s'). in_group ''default'' ''p'' ''b'' ''e'' x \<longrightarrow> ec_state x = ExternalClaimObserved)"
proof -
  let ?s = "sample_ledger [sample_own] []"
  have facts: "scanExternalClaimFacts ''i'' ?s sample_own = \<lparr>f_claim = sample_own, f_owner = ''running'', f_background = False, f_returned = False,
      f_cursor = 0, f_watched = False, f_here = False\<rparr>"
    by (simp add: scanExternalClaimFacts_def dispatch_of_def return_of_def keyed_event_def owner_run_def sample_defs sample_own_def)
  have view: "claim_view_of ''i'' ?s (runLineage ?s ''default'' ''p'' ''b'') sample_own =
      Some \<lparr>v_claim = sample_own, v_disposition = ExternalClaimLeftUncertain, v_same_chain = True, v_cursor = 0\<rparr>"
    by (simp add: claim_view_of_def sample_lineage facts disposition_def Let_def) (simp add: sample_own_def sample_claim_def claim_states)
  have "externalEffectObservationTargetTx ''i'' ?s ''default'' ''p'' ''b'' ''c'' =
      Inr \<lparr>v_claim = sample_own, v_disposition = ExternalClaimLeftUncertain, v_same_chain = True, v_cursor = 0\<rparr>"
    using view by (simp add: externalEffectObservationTargetTx_def effect_sample_trims sample_more_trims)
      (simp add: sample_ledger_def sample_own_def sample_claim_def claim_states dispositions)
  moreover have "find (\<lambda>r. run_tenant r = ''default'' \<and> run_person r = ''p'' \<and> run_id r = ''b'') (es_runs ?s) = Some (sample_run ''b'' ''running'')"
    by (simp add: sample_ledger_def sample_run_def)
  moreover have "ec_sequence sample_own = 1" "ec_created sample_own = 1" "run_status (sample_run x y) = y" for x y
    by (simp_all add: sample_own_def sample_claim_def sample_run_def)
  ultimately obtain c' s' where r: "BindExternalEffectObservation (\<lambda>t. t) ''i'' ''x'' 5 sample_fetch ?s = (Inr (Released c'), s')"
    by (simp add: BindExternalEffectObservation_def bindExternalEffectObservationOnce_def sample_fetch_def sample_more_trims
        observationFollowsEffect_def Let_def)
  obtain c where "c \<in> set (es_claims ?s)" "\<forall>x \<in> set (es_claims s'). in_group (ec_tenant c) (ec_person c) (ec_run c) (ec_effect c) x
      \<longrightarrow> ec_state x = ExternalClaimObserved"
    using observation_releases_own_effect [OF r] by blast
  with r show ?thesis by (simp add: sample_ledger_def) (simp add: sample_own_def sample_claim_def)
qed





theorem free_targets_granted_witness:
  "\<exists>d s'. ClaimExternalEffects ''i'' (\<lambda>_. ''x'') (\<lambda>_. ''n'') 5 sample_request (sample_ledger [] []) = (Inr d, s') \<and> Granted d"
  by (rule free_targets_granted [where r = "sample_run ''b'' ''running''"])
     (simp_all add: effect_sample_fields sample_target sample_owner in_the_way_def,
      simp_all add: sample_request_def sample_run_def sample_ledger_def sample_target)




end
