(* ===== verification/Approvals.thy ===== *)
theory Approvals
  imports EffectClaims
begin

text \<open>
  Approval requests: \<^verbatim>\<open>internal/control/approvals.go\<close>, with the checkpoint binding of a live wait
  (\<^verbatim>\<open>releaseHumanWait\<close> of \<^verbatim>\<open>human_wait.go\<close>). A request is pending until a person answers it or it expires. The original
  call waits for the answer while it is live; a parked request is answered later, and the answer puts a continuation
  of the run into the task queue and, when it is an approval, leaves an authorization that this continuation may
  use once for the same action.

  The record \<open>human_store\<close> holds the tables of human requests, checkpoints and runs, and the queue of \<open>TaskQueue\<close>. An operation
  is a transaction: an error leaves the store unchanged. A column that a row may lack is read as the code reads
  it: an absent waiter state is \<^verbatim>\<open>live\<close>, an absent text is empty, an absent time is 0. A function that asks for the time
  more than once gets the same answer here. A payload is kept as the two values the code reads from it. Failing
  database calls and the events that announce a transition are not modelled.
\<close>

section \<open>Rows\<close>

record human_run = run_row +
  hr_resumed_by :: string
  hr_admission :: string
  hr_cancel :: bool
  hr_dismissed :: int

record approval_payload =
  pl_tool :: string
  pl_call :: string

record approval =
  ap_id :: string
  ap_tenant :: string
  ap_person :: string
  ap_thread :: string
  ap_run :: string
  ap_action :: string
  ap_payload :: approval_payload
  ap_status :: string
  ap_requested :: string
  ap_channel :: string
  ap_scope :: string
  ap_decision :: string
  ap_grant :: string
  ap_note :: string
  ap_recorded :: int
  ap_waiter :: string
  ap_parked :: "int option"
  ap_reason :: string
  ap_claimed :: int
  ap_claimed_by :: string
  ap_queue :: string
  ap_fingerprint :: string
  ap_auth :: string
  ap_expires :: int
  ap_notified :: "int option"
  ap_created :: int
  ap_updated :: int

record clarification =
  cl_id :: string
  cl_tenant :: string
  cl_person :: string
  cl_thread :: string
  cl_run :: string
  cl_question :: string
  cl_options :: "string list"
  cl_status :: string
  cl_answer :: string
  cl_channel :: string
  cl_parked :: int
  cl_notified :: "int option"
  cl_created :: int

record checkpoint =
  cp_tenant :: string
  cp_person :: string
  cp_thread :: string
  cp_run :: string
  cp_version :: int
  cp_recovery :: string
  cp_iteration :: int
  cp_outcome :: string
  cp_detail :: string
  cp_snapshot :: string
  cp_kind :: string
  cp_ref :: string
  cp_call :: string

record human_store =
  hs_approvals :: "approval list"
  hs_clarifies :: "clarification list"
  hs_checkpoints :: "checkpoint list"
  hs_runs :: "human_run list"
  hs_queue :: table

datatype human_error = PersonMissing | RequestIDMissing | RequestExists | RequestNotFound | AlreadyResolved string
  | ResumedTransactionally string | BadDecision | ResumeIncomplete | ResumeKeyMissing | NotParked | OtherRun
  | AdmissionMismatch | AdmissionInvalid | QueueRefused | WaitIdentityMissing | QuestionMissing | AnswerMissing
  | AnswerIncomplete | OriginUnavailable | NoCheckpoint | UnknownWait | RunChanged | WaitBinding

definition human_run_of :: "human_store \<Rightarrow> string \<Rightarrow> string \<Rightarrow> human_run option" where
  "human_run_of s tenantID runID = find (\<lambda>r. run_tenant r = tenantID \<and> run_id r = runID) (hs_runs s)"

definition threadIDForRun :: "human_store \<Rightarrow> string \<Rightarrow> string \<Rightarrow> string" where
  "threadIDForRun s tenantID runID = (if TrimSpace runID = [] then []
     else (case human_run_of s (normalizeTenant tenantID) (TrimSpace runID) of None \<Rightarrow> [] | Some r \<Rightarrow> TrimSpace (run_thread r)))"

definition set_approvals :: "(approval \<Rightarrow> bool) \<Rightarrow> (approval \<Rightarrow> approval) \<Rightarrow> human_store \<Rightarrow> human_store" where
  "set_approvals guard effect s = s\<lparr>hs_approvals := map (\<lambda>a. if guard a then effect a else a) (hs_approvals s)\<rparr>"

definition approval_keyed :: "string \<Rightarrow> string \<Rightarrow> approval \<Rightarrow> bool" where
  "approval_keyed tenantID ident a = (ap_tenant a = tenantID \<and> ap_id a = ident)"

text \<open>An \<^verbatim>\<open>UPDATE ... RETURNING\<close>: the rows the guard names, as they are after the update.\<close>

definition returning :: "(approval \<Rightarrow> bool) \<Rightarrow> (approval \<Rightarrow> approval) \<Rightarrow> human_store \<Rightarrow> approval list \<times> human_store" where
  "returning guard effect s = (map effect (filter guard (hs_approvals s)), set_approvals guard effect s)"

section \<open>Requests\<close>

definition approval_row :: "string \<Rightarrow> int \<Rightarrow> approval \<Rightarrow> human_store \<Rightarrow> approval" where
  "approval_row uuid now req s =
     (let tenantID = normalizeTenant (ap_tenant req); threadID = threadIDForRun s tenantID (ap_run req) in
      \<lparr>ap_id = (if ap_id req = [] then ''apr_'' @ uuid else ap_id req), ap_tenant = tenantID, ap_person = ap_person req,
       ap_thread = (if threadID \<noteq> [] then threadID else ap_thread req), ap_run = ap_run req,
       ap_action = normalizeName (ap_action req) ''tool_call'', ap_payload = ap_payload req,
       ap_status = (if ap_status req = [] then ''pending'' else ap_status req), ap_requested = ap_requested req,
       ap_channel = ap_channel req, ap_scope = [], ap_decision = [], ap_grant = [], ap_note = [], ap_recorded = 0,
       ap_waiter = (if ap_waiter req = [] then ''live'' else ap_waiter req), ap_parked = None, ap_reason = [], ap_claimed = 0,
       ap_claimed_by = [], ap_queue = [], ap_fingerprint = ap_fingerprint req, ap_auth = [], ap_expires = 0,
       ap_notified = None, ap_created = Unix now, ap_updated = Unix now\<rparr>)"

definition CreateApprovalRequest :: "string \<Rightarrow> int \<Rightarrow> approval \<Rightarrow> human_store \<Rightarrow> (human_error + approval) \<times> human_store" where
  "CreateApprovalRequest uuid now req s =
     (let row = approval_row uuid now req s in
      if ap_person req = [] then (Inl PersonMissing, s)
      else if \<exists>a \<in> set (hs_approvals s). ap_id a = ap_id row then (Inl RequestExists, s)
      else (Inr row, s\<lparr>hs_approvals := hs_approvals s @ [row]\<rparr>))"

definition ListApprovalRequests :: "string \<Rightarrow> string \<Rightarrow> string \<Rightarrow> int \<Rightarrow> human_store \<Rightarrow> human_error + approval list" where
  "ListApprovalRequests tenantID personID status limit s =
     (if personID = [] then Inl PersonMissing
      else Inr (take (if limit \<le> 0 \<or> limit > 100 then 20 else nat limit) (rev (sort_key (\<lambda>a. (ap_created a, ap_id a))
        (filter (\<lambda>a. ap_tenant a = normalizeTenant tenantID \<and> ap_person a = personID
           \<and> ap_status a = normalizeName status ''pending'') (hs_approvals s))))))"

record ApprovalBacklogStats =
  Live :: nat
  Parked :: nat
  OldestParkedAt :: "int option"

definition ApprovalBacklog :: "string \<Rightarrow> string \<Rightarrow> human_store \<Rightarrow> human_error + ApprovalBacklogStats" where
  "ApprovalBacklog tenantID personID s =
     (if TrimSpace personID = [] then Inl PersonMissing
      else (let rows = filter (\<lambda>a. ap_tenant a = normalizeTenant tenantID \<and> ap_person a = TrimSpace personID
                  \<and> ap_status a = ''pending'') (hs_approvals s);
                parked = filter (\<lambda>a. ap_waiter a = ''parked'') rows;
                since = (\<lambda>a. case ap_parked a of Some t \<Rightarrow> t | None \<Rightarrow> ap_created a) in
        Inr \<lparr>Live = length (filter (\<lambda>a. ap_waiter a = ''live'') rows), Parked = length parked,
          OldestParkedAt = (if parked = [] \<or> Min (since ` set parked) \<le> 0 then None else Some (Min (since ` set parked)))\<rparr>))"

record ApprovalDecisionFunnel =
  Requested :: nat
  Statuses :: "string \<Rightarrow> nat"
  DecisionChoices :: "string \<Rightarrow> nat"
  Tools :: "string \<Rightarrow> nat"
  AverageResponseMS :: int
  MeasuredResponses :: nat
  ResponseMS :: int
  ResponseUnavailable :: nat

definition ApprovalDecisionFunnelSince :: "string \<Rightarrow> string \<Rightarrow> int \<Rightarrow> human_store \<Rightarrow> ApprovalDecisionFunnel" where
  "ApprovalDecisionFunnelSince tenantID personID since s =
     (let rows = filter (\<lambda>a. ap_tenant a = normalizeTenant tenantID \<and> ap_person a = TrimSpace personID \<and> ap_created a \<ge> Unix since)
            (hs_approvals s);
          answered = filter (\<lambda>a. ap_status a = ''approved'' \<or> ap_status a = ''rejected'') rows;
          measured = filter (\<lambda>a. ap_recorded a > 0 \<and> ap_recorded a \<ge> ap_created a) answered;
          total = sum_list (map (\<lambda>a. (ap_recorded a - ap_created a) * 1000) measured);
          tool = (\<lambda>a. if pl_tool (ap_payload a) = [] then ''unknown'' else pl_tool (ap_payload a)) in
      \<lparr>Requested = length rows,
       Statuses = (\<lambda>k. length (filter (\<lambda>a. ap_status a = k) rows)),
       DecisionChoices = (\<lambda>k. length (filter (\<lambda>a. ap_decision a \<noteq> [] \<and> ap_decision a = k) rows)),
       Tools = (\<lambda>k. length (filter (\<lambda>a. tool a = k) rows)),
       AverageResponseMS = (if measured = [] then 0 else total div int (length measured)),
       MeasuredResponses = length measured, ResponseMS = total,
       ResponseUnavailable = length answered - length measured\<rparr>)"

definition GetApprovalRequest :: "string \<Rightarrow> string \<Rightarrow> human_store \<Rightarrow> human_error + approval option" where
  "GetApprovalRequest tenantID approvalID s =
     (if TrimSpace approvalID = [] then Inl RequestIDMissing
      else Inr (find (approval_keyed (normalizeTenant tenantID) (TrimSpace approvalID)) (hs_approvals s)))"

definition IsApprovalPending :: "string \<Rightarrow> string \<Rightarrow> string \<Rightarrow> human_store \<Rightarrow> bool" where
  "IsApprovalPending tenantID personID approvalID s =
     (TrimSpace approvalID \<noteq> [] \<and> TrimSpace personID \<noteq> []
      \<and> length (filter (\<lambda>a. approval_keyed (normalizeTenant tenantID) (TrimSpace approvalID) a
           \<and> ap_person a = TrimSpace personID \<and> ap_status a = ''pending'') (hs_approvals s)) = 1)"

text \<open>The common end of the transitions: the row that was changed, or the current row when nothing matched.\<close>

definition transition :: "(approval \<Rightarrow> bool) \<Rightarrow> (approval \<Rightarrow> approval) \<Rightarrow> string \<Rightarrow> string \<Rightarrow> human_store
    \<Rightarrow> (human_error + approval option \<times> bool) \<times> human_store" where
  "transition guard effect tenantID approvalID s =
     (case returning guard effect s of
        (a # _, s') \<Rightarrow> (Inr (Some a, True), s')
      | ([], _) \<Rightarrow> (case GetApprovalRequest tenantID approvalID s of
            Inl e \<Rightarrow> (Inl e, s) | Inr current \<Rightarrow> (Inr (current, False), s)))"

definition ExpireApprovalRequest :: "int \<Rightarrow> string \<Rightarrow> string \<Rightarrow> human_store \<Rightarrow> (human_error + approval option \<times> bool) \<times> human_store" where
  "ExpireApprovalRequest now tenantID approvalID s =
     (if TrimSpace approvalID = [] then (Inl RequestIDMissing, s)
      else transition (\<lambda>a. approval_keyed (normalizeTenant tenantID) (TrimSpace approvalID) a \<and> ap_status a = ''pending'')
        (\<lambda>a. a\<lparr>ap_status := ''expired'', ap_updated := Unix now\<rparr>) tenantID approvalID s)"

definition ParkApprovalRequest :: "int \<Rightarrow> string \<Rightarrow> string \<Rightarrow> string \<Rightarrow> human_store
    \<Rightarrow> (human_error + approval option \<times> bool) \<times> human_store" where
  "ParkApprovalRequest now tenantID approvalID reason s =
     transition (\<lambda>a. approval_keyed (normalizeTenant tenantID) (TrimSpace approvalID) a \<and> ap_status a = ''pending'' \<and> ap_waiter a = ''live'')
       (\<lambda>a. a\<lparr>ap_waiter := ''parked'', ap_parked := Some (Unix now), ap_reason := TrimSpace reason, ap_updated := Unix now\<rparr>)
       tenantID approvalID s"

definition orphaned :: "human_store \<Rightarrow> approval \<Rightarrow> bool" where
  "orphaned s a = (ap_status a = ''pending'' \<and> ap_waiter a = ''live'' \<and> ap_run a \<noteq> []
     \<and> \<not> list_ex (\<lambda>r. run_id r = ap_run a \<and> run_status r = ''running'') (hs_runs s))"

definition ParkOrphanedApprovals :: "int \<Rightarrow> human_store \<Rightarrow> approval list \<times> human_store" where
  "ParkOrphanedApprovals now s = returning (orphaned s)
     (\<lambda>a. a\<lparr>ap_waiter := ''parked'', ap_parked := Some (case ap_parked a of Some t \<Rightarrow> t | None \<Rightarrow> Unix now),
        ap_reason := (if ap_reason a = [] then ''approval waiter was lost during daemon recovery'' else ap_reason a),
        ap_updated := Unix now\<rparr>) s"

section \<open>The binding of a live wait\<close>

definition LoopCheckpointWaitApproval :: string where "LoopCheckpointWaitApproval = ''approval''"
definition LoopCheckpointWaitClarification :: string where "LoopCheckpointWaitClarification = ''clarification''"

definition liveHumanWaitBinding :: "human_store \<Rightarrow> string \<Rightarrow> string \<Rightarrow> string \<Rightarrow> string \<Rightarrow> string \<Rightarrow> checkpoint \<Rightarrow> bool" where
  "liveHumanWaitBinding s tenantID personID runID kind ref c =
     (cp_tenant c = tenantID \<and> cp_person c = personID \<and> cp_run c = runID \<and> cp_outcome c = ''await_human''
      \<and> cp_kind c = kind \<and> cp_ref c = ref
      \<and> list_ex (\<lambda>r. run_tenant r = cp_tenant c \<and> run_id r = cp_run c \<and> run_status r \<noteq> ''waiting_user'') (hs_runs s))"

definition put_back :: "checkpoint \<Rightarrow> checkpoint \<Rightarrow> checkpoint" where
  "put_back prior c = c\<lparr>cp_version := cp_version prior, cp_recovery := cp_recovery prior, cp_iteration := cp_iteration prior,
     cp_outcome := cp_outcome prior, cp_detail := cp_detail prior, cp_snapshot := cp_snapshot prior, cp_kind := cp_kind prior,
     cp_ref := cp_ref prior, cp_call := cp_call prior\<rparr>"

definition releaseHumanWait :: "string \<Rightarrow> string \<Rightarrow> string \<Rightarrow> string \<Rightarrow> string \<Rightarrow> checkpoint option \<Rightarrow> human_store
    \<Rightarrow> human_error + human_store" where
  "releaseHumanWait tenantID personID runID kind ref prior s =
     (let bound = liveHumanWaitBinding s (normalizeTenant tenantID) (TrimSpace personID) (TrimSpace runID) (TrimSpace kind) (TrimSpace ref) in
      if TrimSpace personID = [] \<or> TrimSpace runID = [] \<or> TrimSpace kind = [] \<or> TrimSpace ref = [] then Inl WaitIdentityMissing
      else (case prior of
          None \<Rightarrow> Inr (s\<lparr>hs_checkpoints := filter (\<lambda>c. \<not> bound c) (hs_checkpoints s)\<rparr>)
        | Some p \<Rightarrow> Inr (s\<lparr>hs_checkpoints := map (\<lambda>c. if bound c then put_back p c else c) (hs_checkpoints s)\<rparr>)))"

section \<open>Consuming a decision\<close>

definition live_decision :: "string \<Rightarrow> string \<Rightarrow> approval \<Rightarrow> bool" where
  "live_decision tenantID ident a = (approval_keyed tenantID ident a \<and> ap_status a \<in> {''approved'', ''rejected''}
     \<and> ap_waiter a = ''live'' \<and> ap_claimed a = 0)"

text \<open>The release is absent, or the checkpoint to put back, which may be none.\<close>

definition ClaimApprovalDecisionReleasing :: "int \<Rightarrow> string \<Rightarrow> string \<Rightarrow> string \<Rightarrow> checkpoint option option \<Rightarrow> human_store
    \<Rightarrow> (human_error + approval option \<times> bool) \<times> human_store" where
  "ClaimApprovalDecisionReleasing now tenantID approvalID runID release s =
     (let guard = live_decision (normalizeTenant tenantID) (TrimSpace approvalID);
          effect = (\<lambda>a. a\<lparr>ap_waiter := ''claimed'', ap_claimed := Unix now, ap_claimed_by := TrimSpace runID, ap_updated := Unix now\<rparr>) in
      case transition guard effect tenantID approvalID s of
        (Inr (Some a, True), s') \<Rightarrow>
          (case release of
             None \<Rightarrow> (Inr (Some a, True), s')
           | Some prior \<Rightarrow> (case releaseHumanWait (ap_tenant a) (ap_person a) (ap_run a) LoopCheckpointWaitApproval (ap_id a) prior s' of
               Inl e \<Rightarrow> (Inl e, s)
             | Inr s'' \<Rightarrow> (Inr (Some a, True), s'')))
      | r \<Rightarrow> r)"

definition ClaimApprovalDecision :: "int \<Rightarrow> string \<Rightarrow> string \<Rightarrow> string \<Rightarrow> human_store
    \<Rightarrow> (human_error + approval option \<times> bool) \<times> human_store" where
  "ClaimApprovalDecision now tenantID approvalID runID s = ClaimApprovalDecisionReleasing now tenantID approvalID runID None s"

text \<open>The runs an authorization may name for a claiming run: itself and the one it resumes, read as the empty id when it resumes none.\<close>

definition resume_lineage :: "human_store \<Rightarrow> string \<Rightarrow> string \<Rightarrow> string list" where
  "resume_lineage s tenantID runID = runID # (case human_run_of s tenantID runID of None \<Rightarrow> [] | Some r \<Rightarrow> [run_resumes r])"

definition authorizes :: "int \<Rightarrow> string \<Rightarrow> string \<Rightarrow> string \<Rightarrow> string list \<Rightarrow> approval \<Rightarrow> bool" where
  "authorizes now tenantID personID fingerprint lineage a = (ap_tenant a = tenantID \<and> ap_person a = personID \<and> ap_status a = ''approved''
     \<and> ap_waiter a = ''parked'' \<and> ap_auth a = ''available'' \<and> ap_fingerprint a = fingerprint \<and> ap_expires a \<ge> Unix now
     \<and> ap_run a \<in> set lineage)"

definition ClaimApprovalResumeAuthorization :: "int \<Rightarrow> string \<Rightarrow> string \<Rightarrow> string \<Rightarrow> string \<Rightarrow> human_store
    \<Rightarrow> (string \<times> string \<times> string) option \<times> human_store" where
  "ClaimApprovalResumeAuthorization now tenant person run fp s =
     (let tenantID = normalizeTenant tenant; personID = TrimSpace person; runID = TrimSpace run; fingerprint = TrimSpace fp in
      if personID = [] \<or> runID = [] \<or> fingerprint = [] then (None, s)
      else (case sort_key (\<lambda>a. (ap_created a, ap_id a))
                   (filter (authorizes now tenantID personID fingerprint (resume_lineage s tenantID runID)) (hs_approvals s)) of
          [] \<Rightarrow> (None, s)
        | a # _ \<Rightarrow> (Some (ap_id a, ap_decision a, ap_grant a),
            set_approvals (\<lambda>x. ap_id x = ap_id a \<and> ap_auth x = ''available'')
              (\<lambda>x. x\<lparr>ap_auth := ''consumed'', ap_claimed := Unix now, ap_claimed_by := runID, ap_updated := Unix now\<rparr>) s)))"

definition ParkedApprovalRetention :: int where
  "ParkedApprovalRetention = 7 * 24 * 3600 * second"

definition ArchiveStaleParkedApprovals :: "int \<Rightarrow> int \<Rightarrow> human_store \<Rightarrow> approval list \<times> human_store" where
  "ArchiveStaleParkedApprovals now retention s =
     (let keep = (if retention \<le> 0 then ParkedApprovalRetention else retention) in
      returning (\<lambda>a. ap_status a = ''pending'' \<and> ap_waiter a = ''parked''
          \<and> (case ap_parked a of Some t \<Rightarrow> t | None \<Rightarrow> ap_created a) \<le> Unix (now - keep))
        (\<lambda>a. a\<lparr>ap_status := ''archived'', ap_auth := [], ap_updated := Unix now\<rparr>) s)"

section \<open>Continuations\<close>

text \<open>
  What a continuation stores as its admission: the snapshot of the parked run, which the caller may restate but not
  change. A snapshot is its encoded text, \<^const>\<open>None\<close> when it cannot be encoded and empty when it is the zero
  snapshot; \<open>restates\<close> tells that the second text decodes to the snapshot the first one encodes.
\<close>

definition parkedRunAdmissionJSON :: "(string \<Rightarrow> string \<Rightarrow> bool) \<Rightarrow> string option \<Rightarrow> string \<Rightarrow> human_error + string" where
  "parkedRunAdmissionJSON restates supplied parkedRaw =
     (case supplied of
        None \<Rightarrow> Inl AdmissionInvalid
      | Some raw \<Rightarrow> if raw = [] then Inr parkedRaw else if restates raw parkedRaw then Inr parkedRaw else Inl AdmissionMismatch)"

definition parked_admission :: "human_store \<Rightarrow> string \<Rightarrow> string \<Rightarrow> string \<Rightarrow> string" where
  "parked_admission s tenantID personID runID =
     (case find (\<lambda>r. run_tenant r = tenantID \<and> run_id r = runID \<and> run_person r = personID) (hs_runs s) of
        None \<Rightarrow> [] | Some r \<Rightarrow> hr_admission r)"

text \<open>\<^verbatim>\<open>INSERT ... ON CONFLICT(tenant_id, idempotency_key) DO NOTHING\<close> and the id that then has the key.\<close>

definition insert_continuation :: "task_row \<Rightarrow> table \<Rightarrow> human_error + string \<times> table" where
  "insert_continuation row t =
     (case find (\<lambda>r. t_tenant r = t_tenant row \<and> t_key r = t_key row) t of
        Some r \<Rightarrow> Inr (t_id r, t)
      | None \<Rightarrow> if \<exists>r \<in> set t. t_id r = t_id row then Inl QueueRefused else Inr (t_id row, t @ [row]))"

definition plain_not_before :: "int option \<Rightarrow> int" where
  "plain_not_before nb = (case nb of None \<Rightarrow> 0 | Some t \<Rightarrow> Unix t)"

definition recoverable :: "human_store \<Rightarrow> approval \<Rightarrow> bool" where
  "recoverable s a = (ap_status a \<in> {''approved'', ''rejected''} \<and> ap_queue a = [] \<and> ap_recorded a > 0 \<and> ap_waiter a = ''live''
     \<and> ap_claimed a = 0 \<and> list_ex (\<lambda>r. run_id r = ap_run a \<and> run_status r = ''interrupted'') (hs_runs s))"

definition ListRecoverableApprovalDecisions :: "int \<Rightarrow> human_store \<Rightarrow> approval list" where
  "ListRecoverableApprovalDecisions limit s =
     take (if limit \<le> 0 \<or> limit > 100 then 100 else nat limit)
       (sort_key (\<lambda>a. (ap_updated a, ap_id a)) (filter (\<lambda>a. recoverable s a \<and> ap_run a \<noteq> []) (hs_approvals s)))"

definition authorization_state :: "string \<Rightarrow> string" where
  "authorization_state status = (if status = ''approved'' then ''available'' else [])"

definition authorization_expiry :: "int \<Rightarrow> string \<Rightarrow> int" where
  "authorization_expiry now status = (if status = ''approved'' then Unix (now + ParkedApprovalRetention) else 0)"

definition EnqueueRecoveredApprovalContinuation :: "(string \<Rightarrow> string \<Rightarrow> bool) \<Rightarrow> (nat \<Rightarrow> nat) \<Rightarrow> string \<Rightarrow> int \<Rightarrow> string \<Rightarrow> new_task
    \<Rightarrow> human_store \<Rightarrow> (human_error + string option) \<times> human_store" where
  "EnqueueRecoveredApprovalContinuation restates ul uuid now approval q s =
     (let approvalID = TrimSpace approval; tenantID = normalizeTenant (n_tenant q) in
      if approvalID = [] \<or> TrimSpace (n_content q) = [] \<or> TrimSpace (n_key q) = [] then (Inl ResumeIncomplete, s)
      else (case find (\<lambda>a. approval_keyed tenantID approvalID a \<and> ap_person a = n_person q \<and> ap_thread a = n_thread q \<and> recoverable s a)
                   (hs_approvals s) of
          None \<Rightarrow> (Inr None, s)
        | Some a \<Rightarrow>
            (case parkedRunAdmissionJSON restates (n_admission q) (parked_admission s tenantID (ap_person a) (ap_run a)) of
               Inl e \<Rightarrow> (Inl e, s)
             | Inr admission \<Rightarrow>
                 (let row = (new_row ul uuid now q admission)\<lparr>t_key := n_key q, t_approval := approvalID, t_clarify := [], t_reply_to := [],
                        t_not_before := 0, t_attachments := ''[]''\<rparr> in
                  case insert_continuation row (hs_queue s) of
                    Inl e \<Rightarrow> (Inl e, s)
                  | Inr (queueID, t) \<Rightarrow>
                      (Inr (Some queueID), (set_approvals (\<lambda>x. approval_keyed tenantID approvalID x \<and> ap_queue x = [])
                         (\<lambda>x. x\<lparr>ap_waiter := ''parked'', ap_parked := Some (case ap_parked x of Some p \<Rightarrow> p | None \<Rightarrow> Unix now),
                            ap_reason := ''daemon restarted before the decision was fully consumed'', ap_queue := queueID,
                            ap_auth := authorization_state (ap_status a), ap_expires := authorization_expiry now (ap_status a),
                            ap_updated := Unix now\<rparr>) s)\<lparr>hs_queue := t\<rparr>)))))"

section \<open>Answers\<close>

definition MarkApprovalNotified :: "int \<Rightarrow> string \<Rightarrow> string \<Rightarrow> human_store \<Rightarrow> human_store" where
  "MarkApprovalNotified now tenantID approvalID s =
     set_approvals (\<lambda>a. approval_keyed (normalizeTenant tenantID) approvalID a \<and> ap_status a = ''pending'' \<and> ap_notified a = None)
       (\<lambda>a. a\<lparr>ap_notified := Some (Unix now)\<rparr>) s"

definition ListPendingApprovalsForEscrow :: "int \<Rightarrow> human_store \<Rightarrow> approval list" where
  "ListPendingApprovalsForEscrow createdBefore s = take 100 (sort_key (\<lambda>a. (ap_created a, ap_id a))
     (filter (\<lambda>a. ap_status a = ''pending'' \<and> ap_notified a = None \<and> ap_created a \<le> Unix createdBefore) (hs_approvals s)))"

record ApprovalDecisionInput =
  di_scope :: string
  di_decision :: string
  di_grant :: string
  di_note :: string

definition normalizeGrantScope :: "(nat \<Rightarrow> nat) \<Rightarrow> string \<Rightarrow> string" where
  "normalizeGrantScope ul scope = (let v = ToLower ul (TrimSpace scope) in
     if v = ''run'' then ''run'' else if v = ''workspace'' then ''workspace''
     else if v \<in> {''person'', ''always'', ''persistent''} then ''person'' else [])"

definition normalizeApprovalDecision :: "(nat \<Rightarrow> nat) \<Rightarrow> string \<Rightarrow> human_error + string" where
  "normalizeApprovalDecision ul decision = (let v = ToLower ul (TrimSpace decision) in
     if v \<in> {''approve'', ''approved'', ''yes'', ''allow'', ''ok''} then Inr ''approved''
     else if v \<in> {''reject'', ''rejected'', ''deny'', ''denied'', ''no''} then Inr ''rejected''
     else Inl BadDecision)"

record decision_values =
  dv_status :: string
  dv_scope :: string
  dv_decision :: string
  dv_grant :: string
  dv_note :: string

definition normalizeApprovalDecisionValues :: "(nat \<Rightarrow> nat) \<Rightarrow> string \<Rightarrow> ApprovalDecisionInput \<Rightarrow> human_error + decision_values" where
  "normalizeApprovalDecisionValues ul decision input =
     (case normalizeApprovalDecision ul decision of
        Inl e \<Rightarrow> Inl e
      | Inr status \<Rightarrow>
          (let scope = normalizeGrantScope ul (di_scope input); chosen = TrimSpace (di_decision input); grant = TrimSpace (di_grant input) in
           if status \<noteq> ''approved''
           then Inr \<lparr>dv_status = status, dv_scope = [], dv_decision = (if chosen = [] then ''deny'' else chosen), dv_grant = [],
                  dv_note = TrimSpace (di_note input)\<rparr>
           else Inr \<lparr>dv_status = status, dv_scope = scope,
                  dv_decision = (if chosen \<noteq> [] then chosen else if grant \<noteq> [] then ''rule'' else if scope = ''run'' then ''run''
                    else if scope = ''task'' then ''task'' else if scope = ''person'' then ''person'' else ''once''),
                  dv_grant = grant, dv_note = []\<rparr>))"

definition decided :: "int \<Rightarrow> string \<Rightarrow> decision_values \<Rightarrow> approval \<Rightarrow> approval" where
  "decided now channel v a = a\<lparr>ap_status := dv_status v, ap_channel := channel, ap_scope := dv_scope v, ap_decision := dv_decision v,
     ap_grant := dv_grant v, ap_note := dv_note v, ap_recorded := Unix now, ap_updated := Unix now\<rparr>"

definition RespondApprovalRequest :: "(nat \<Rightarrow> nat) \<Rightarrow> int \<Rightarrow> string \<Rightarrow> string \<Rightarrow> string \<Rightarrow> string \<Rightarrow> string \<Rightarrow> ApprovalDecisionInput
    \<Rightarrow> human_store \<Rightarrow> (human_error + approval option) \<times> human_store" where
  "RespondApprovalRequest ul now tenant personID approval decision channel input s =
     (let tenantID = normalizeTenant tenant; approvalID = TrimSpace approval in
      if personID = [] then (Inl PersonMissing, s)
      else if approvalID = [] then (Inl RequestIDMissing, s)
      else (case normalizeApprovalDecisionValues ul decision input of
          Inl e \<Rightarrow> (Inl e, s)
        | Inr v \<Rightarrow>
            (let guard = (\<lambda>a. approval_keyed tenantID approvalID a \<and> ap_person a = personID \<and> ap_status a = ''pending'' \<and> ap_waiter a = ''live'') in
             if filter guard (hs_approvals s) = [] then
               (case find (approval_keyed tenantID approvalID) (hs_approvals s) of
                  None \<Rightarrow> (Inl RequestNotFound, s)
                | Some a \<Rightarrow>
                    if ap_person a \<noteq> personID then (Inl RequestNotFound, s)
                    else if ap_status a \<noteq> ''pending'' then (Inl (AlreadyResolved (ap_status a)), s)
                    else (Inl (ResumedTransactionally (ap_waiter a)), s))
             else (let s' = set_approvals guard (decided now channel v) s in
                   (Inr (find (approval_keyed tenantID approvalID) (hs_approvals s')), s')))))"

definition parked_answer :: "string \<Rightarrow> string \<Rightarrow> string \<Rightarrow> approval \<Rightarrow> bool" where
  "parked_answer tenantID personID approvalID a = (approval_keyed tenantID approvalID a \<and> ap_person a = personID
     \<and> ap_status a = ''pending'' \<and> ap_waiter a = ''parked'')"

definition RespondParkedApprovalAndEnqueue :: "(string \<Rightarrow> string \<Rightarrow> bool) \<Rightarrow> (nat \<Rightarrow> nat) \<Rightarrow> string \<Rightarrow> int \<Rightarrow> string \<Rightarrow> string \<Rightarrow> string
    \<Rightarrow> string \<Rightarrow> string \<Rightarrow> ApprovalDecisionInput \<Rightarrow> new_task \<Rightarrow> human_store \<Rightarrow> (human_error + approval option \<times> string) \<times> human_store" where
  "RespondParkedApprovalAndEnqueue restates ul uuid now tenant person approval decision channel input q s =
     (let tenantID = normalizeTenant tenant; personID = TrimSpace person; approvalID = TrimSpace approval in
      case normalizeApprovalDecisionValues ul decision input of
        Inl e \<Rightarrow> (Inl e, s)
      | Inr v \<Rightarrow>
        if personID = [] \<or> approvalID = [] \<or> TrimSpace (n_content q) = [] \<or> TrimSpace (n_thread q) = [] then (Inl ResumeIncomplete, s)
        else if TrimSpace (n_key q) = [] then (Inl ResumeKeyMissing, s)
        else (case find (approval_keyed tenantID approvalID) (hs_approvals s) of
            None \<Rightarrow> (Inl RequestNotFound, s)
          | Some a \<Rightarrow>
              if ap_person a \<noteq> personID \<or> ap_status a \<noteq> ''pending'' \<or> ap_waiter a \<noteq> ''parked'' \<or> ap_thread a \<noteq> n_thread q then (Inl NotParked, s)
              else if n_reply_to q \<noteq> [] \<and> n_reply_to q \<noteq> ap_run a then (Inl OtherRun, s)
              else (case parkedRunAdmissionJSON restates (n_admission q) (parked_admission s tenantID (ap_person a) (ap_run a)) of
                  Inl e \<Rightarrow> (Inl e, s)
                | Inr admission \<Rightarrow>
                    (let row = (new_row ul uuid now (q\<lparr>n_tenant := tenant, n_person := personID\<rparr>) admission)
                           \<lparr>t_approval := approvalID, t_clarify := [], t_reply_to := ap_run a, t_not_before := plain_not_before (n_not_before q),
                            t_attachments := ''[]''\<rparr> in
                     case insert_continuation row (hs_queue s) of
                       Inl e \<Rightarrow> (Inl e, s)
                     | Inr (queueID, t) \<Rightarrow>
                         (let s' = (set_approvals (parked_answer tenantID personID approvalID)
                                (\<lambda>x. (decided now channel v x)\<lparr>ap_queue := queueID, ap_auth := authorization_state (dv_status v),
                                   ap_expires := authorization_expiry now (dv_status v)\<rparr>) s)\<lparr>hs_queue := t\<rparr> in
                          (Inr (find (approval_keyed tenantID approvalID) (hs_approvals s'), queueID), s'))))))"

section \<open>How requests evolve\<close>

text \<open>What a person answered, as it is stored.\<close>

definition answer_of :: "approval \<Rightarrow> string \<times> string \<times> string \<times> string \<times> string \<times> string \<times> int" where
  "answer_of a = (ap_status a, ap_channel a, ap_scope a, ap_decision a, ap_grant a, ap_note a, ap_recorded a)"

definition origin_of :: "approval \<Rightarrow> string \<times> string \<times> string \<times> string \<times> string \<times> approval_payload \<times> string \<times> string \<times> int" where
  "origin_of a = (ap_id a, ap_tenant a, ap_person a, ap_run a, ap_action a, ap_payload a, ap_requested a, ap_fingerprint a, ap_created a)"

text \<open>An authorization exists only behind an approval that was given to a parked request.\<close>

definition authorized_by_person :: "approval \<Rightarrow> bool" where
  "authorized_by_person a = (ap_auth a \<in> {''available'', ''consumed''} \<longrightarrow> ap_status a = ''approved'' \<and> ap_waiter a = ''parked'')"

definition approval_evolves :: "approval \<Rightarrow> approval \<Rightarrow> bool" where
  "approval_evolves a b = (origin_of b = origin_of a
     \<and> (ap_status a \<noteq> ''pending'' \<longrightarrow> answer_of b = answer_of a)
     \<and> (ap_waiter a \<noteq> ''live'' \<longrightarrow> ap_waiter b = ap_waiter a)
     \<and> (ap_waiter a = ''claimed'' \<longrightarrow> authorized_by_person a \<longrightarrow> ap_claimed_by b = ap_claimed_by a)
     \<and> (ap_auth a = ''consumed'' \<longrightarrow> authorized_by_person a \<longrightarrow> ap_auth b = ''consumed'' \<and> ap_claimed_by b = ap_claimed_by a)
     \<and> (ap_auth b = ''available'' \<longrightarrow> ap_auth a = ''available'' \<or> ap_status a = ''pending'' \<or> ap_waiter a = ''live'')
     \<and> (authorized_by_person a \<longrightarrow> authorized_by_person b))"

lemmas evolving = approval_evolves_def origin_of_def answer_of_def authorized_by_person_def

lemma approval_evolves_refl [simp]: "approval_evolves a a"
  by (simp add: approval_evolves_def)

lemma answer_of_status: "answer_of b = answer_of a \<Longrightarrow> ap_status b = ap_status a"
  by (simp add: answer_of_def)

lemma approval_evolvesD:
  assumes "approval_evolves a b"
  shows "origin_of b = origin_of a" and "ap_status a \<noteq> ''pending'' \<Longrightarrow> answer_of b = answer_of a"
    and "ap_waiter a \<noteq> ''live'' \<Longrightarrow> ap_waiter b = ap_waiter a"
    and "ap_waiter a = ''claimed'' \<Longrightarrow> authorized_by_person a \<Longrightarrow> ap_claimed_by b = ap_claimed_by a"
    and "ap_auth a = ''consumed'' \<Longrightarrow> authorized_by_person a \<Longrightarrow> ap_auth b = ''consumed'' \<and> ap_claimed_by b = ap_claimed_by a"
    and "ap_auth b = ''available'' \<Longrightarrow> ap_auth a = ''available'' \<or> ap_status a = ''pending'' \<or> ap_waiter a = ''live''"
    and "authorized_by_person a \<Longrightarrow> authorized_by_person b"
  using assms unfolding approval_evolves_def by iprover+

lemma approval_evolves_trans:
  assumes "approval_evolves a b" and "approval_evolves b c"
  shows "approval_evolves a c"
  unfolding approval_evolves_def
proof (intro conjI impI)
  note f = approval_evolvesD [OF assms(1)] and g = approval_evolvesD [OF assms(2)]
  have answer: "answer_of b = answer_of a" "ap_status b \<noteq> ''pending''" if "ap_status a \<noteq> ''pending''"
    using f(2) [OF that] answer_of_status [of b a] that by simp_all
  show "origin_of c = origin_of a" by (simp only: f(1) g(1))
  show "answer_of c = answer_of a" if "ap_status a \<noteq> ''pending''" using g(2) answer [OF that] by (simp only: refl simp_thms)
  show "ap_waiter c = ap_waiter a" if "ap_waiter a \<noteq> ''live''" using f(3) [OF that] g(3) that by (simp only: simp_thms)
  show "ap_claimed_by c = ap_claimed_by a" if "ap_waiter a = ''claimed''" "authorized_by_person a"
  proof -
    have "ap_waiter b = ''claimed''" using f(3) that(1) by simp
    then show ?thesis using g(4) f(4) f(7) that by (simp only: simp_thms)
  qed
  show "ap_auth c = ''consumed''" "ap_claimed_by c = ap_claimed_by a" if "ap_auth a = ''consumed''" "authorized_by_person a"
    using g(5) f(5) [OF that] f(7) [OF that(2)] by (simp_all only: simp_thms)
  show "ap_auth a = ''available'' \<or> ap_status a = ''pending'' \<or> ap_waiter a = ''live''" if "ap_auth c = ''available''"
  proof (rule ccontr)
    assume no: "\<not> (ap_auth a = ''available'' \<or> ap_status a = ''pending'' \<or> ap_waiter a = ''live'')"
    then have "ap_waiter b \<noteq> ''live''" using f(3) by auto
    with no show False using g(6) [OF that] f(6) answer(2) by blast
  qed
  show "authorized_by_person c" if "authorized_by_person a" by (rule g(7) [OF f(7) [OF that]])
qed

interpretation expire: row_statement approval_evolves "\<lambda>a. P a \<and> ap_status a = ''pending''" "\<lambda>a. a\<lparr>ap_status := ''expired'', ap_updated := t\<rparr>" for P t
  by unfold_locales (simp_all add: evolving)

interpretation park: row_statement approval_evolves "\<lambda>a. P a \<and> ap_status a = ''pending'' \<and> ap_waiter a = ''live''"
    "\<lambda>a. a\<lparr>ap_waiter := ''parked'', ap_parked := Some (since a), ap_reason := why a, ap_updated := t\<rparr>" for P since why t
  by unfold_locales (simp_all add: evolving)

interpretation orphan: row_statement approval_evolves "orphaned s"
    "\<lambda>a. a\<lparr>ap_waiter := ''parked'', ap_parked := Some (since a), ap_reason := why a, ap_updated := t\<rparr>" for s since why t
  by unfold_locales (simp_all add: evolving orphaned_def)

interpretation take_live: row_statement approval_evolves "live_decision tenantID ident"
    "\<lambda>a. a\<lparr>ap_waiter := ''claimed'', ap_claimed := t, ap_claimed_by := runID, ap_updated := t\<rparr>" for tenantID ident runID t
  by unfold_locales (simp_all add: evolving live_decision_def)

interpretation take_parked: row_statement approval_evolves
    "\<lambda>x. x = a \<and> authorizes now tenantID personID fingerprint lineage x"
    "\<lambda>x. x\<lparr>ap_auth := ''consumed'', ap_claimed := t, ap_claimed_by := runID, ap_updated := t\<rparr>"
  for a now tenantID personID fingerprint lineage runID t
  by unfold_locales (simp_all add: evolving authorizes_def)

interpretation archive: row_statement approval_evolves "\<lambda>a. ap_status a = ''pending'' \<and> P a"
    "\<lambda>a. a\<lparr>ap_status := ''archived'', ap_auth := [], ap_updated := t\<rparr>" for P t
  by unfold_locales (simp_all add: evolving)

interpretation recover: row_statement approval_evolves "\<lambda>x. x = a \<and> recoverable s x"
    "\<lambda>x. x\<lparr>ap_waiter := ''parked'', ap_parked := Some (since x), ap_reason := why, ap_queue := queueID,
       ap_auth := authorization_state (ap_status a), ap_expires := e, ap_updated := t\<rparr>" for a s since why queueID e t
  by unfold_locales (simp_all add: evolving recoverable_def authorization_state_def)

interpretation notify: row_statement approval_evolves P "\<lambda>a. a\<lparr>ap_notified := t\<rparr>" for P t
  by unfold_locales (simp_all add: evolving)

interpretation respond: row_statement approval_evolves "\<lambda>a. P a \<and> ap_status a = ''pending'' \<and> Q a" "decided now channel v" for P Q now channel v
  by unfold_locales (simp_all add: evolving decided_def)

interpretation respond_parked: row_statement approval_evolves "parked_answer tenantID personID approvalID"
    "\<lambda>x. (decided now channel v x)\<lparr>ap_queue := queueID, ap_auth := authorization_state (dv_status v), ap_expires := e\<rparr>"
  for tenantID personID approvalID now channel v queueID e
  by unfold_locales (simp_all add: evolving decided_def parked_answer_def authorization_state_def)

interpretation withdraw: row_statement approval_evolves "\<lambda>a. P a \<and> ap_auth a \<noteq> ''consumed''"
    "\<lambda>a. a\<lparr>ap_auth := [], ap_expires := 0, ap_updated := t\<rparr>" for P t
  by unfold_locales (simp_all add: evolving)

interpretation move: row_statement approval_evolves P "\<lambda>a. a\<lparr>ap_thread := th\<rparr>" for P th
  by unfold_locales (simp_all add: evolving)

section \<open>Stores\<close>

definition approval_ids_distinct :: "human_store \<Rightarrow> bool" where
  "approval_ids_distinct s = distinct (map ap_id (hs_approvals s))"

definition approvals_grow :: "human_store \<Rightarrow> human_store \<Rightarrow> bool" where
  "approvals_grow s s' = (approval_ids_distinct s \<longrightarrow> approval_ids_distinct s'
     \<and> (\<exists>as new. hs_approvals s' = as @ new \<and> list_all2 approval_evolves (hs_approvals s) as \<and> list_all authorized_by_person new))"

lemma evolves_id: "approval_evolves a b \<Longrightarrow> ap_id b = ap_id a"
  by (simp add: approval_evolves_def origin_of_def)

lemma evolves_ids: "list_all2 approval_evolves as bs \<Longrightarrow> map ap_id bs = map ap_id as"
  by (induction rule: list_all2_induct) (auto dest: evolves_id)

lemma approvals_grow_rows: "list_all2 approval_evolves (hs_approvals s) (hs_approvals s') \<Longrightarrow> approvals_grow s s'"
  using evolves_ids [of "hs_approvals s" "hs_approvals s'"] unfolding approvals_grow_def approval_ids_distinct_def
  by (intro impI conjI exI [of _ "hs_approvals s'"] exI [of _ "[]"]) simp_all

lemma approvals_grow_same: "hs_approvals s' = hs_approvals s \<Longrightarrow> approvals_grow s s'"
  by (rule approvals_grow_rows) (simp add: list.rel_refl)

lemma approvals_grow_refl [simp]: "approvals_grow s s"
  by (rule approvals_grow_same) simp

lemma approvals_grow_trans:
  assumes "approvals_grow s t" and "approvals_grow t u"
  shows "approvals_grow s u"
  unfolding approvals_grow_def
proof
  assume "approval_ids_distinct s"
  then obtain as new bs newer where t: "approval_ids_distinct t" "hs_approvals t = as @ new" "list_all2 approval_evolves (hs_approvals s) as"
      "list_all authorized_by_person new"
    and u: "approval_ids_distinct u" "hs_approvals u = bs @ newer" "list_all2 approval_evolves (hs_approvals t) bs" "list_all authorized_by_person newer"
    using assms unfolding approvals_grow_def by metis
  from t(2) u(3) obtain b1 b2 where b: "bs = b1 @ b2" "list_all2 approval_evolves as b1" "list_all2 approval_evolves new b2"
    by (auto simp: list_all2_append1)
  have "list_all authorized_by_person b2" using t(4) b(3)
    by (auto simp: list_all_length list_all2_conv_all_nth approval_evolves_def)
  moreover have "list_all2 approval_evolves (hs_approvals s) b1" using list_all2_trans [OF approval_evolves_trans t(3) b(2)] .
  ultimately show "approval_ids_distinct u \<and> (\<exists>as new. hs_approvals u = as @ new \<and> list_all2 approval_evolves (hs_approvals s) as
      \<and> list_all authorized_by_person new)"
    using u b(1) by (intro conjI exI [of _ b1] exI [of _ "b2 @ newer"]) auto
qed

lemma set_approvals_grow: "list_all2 approval_evolves (hs_approvals s) (map (\<lambda>a. if guard a then effect a else a) (hs_approvals s)) \<Longrightarrow>
   approvals_grow s (set_approvals guard effect s)"
  by (rule approvals_grow_rows) (simp add: set_approvals_def)

lemma distinct_row: "distinct (map f xs) \<Longrightarrow> x \<in> set xs \<Longrightarrow> y \<in> set xs \<Longrightarrow> f x = f y \<Longrightarrow> x = y"
  by (metis distinct_map inj_onD)

lemma set_approvals_cong: "(\<And>a. a \<in> set (hs_approvals s) \<Longrightarrow> guard a = guard' a) \<Longrightarrow> set_approvals guard effect s = set_approvals guard' effect s"
  by (simp add: set_approvals_def)

lemma approvals_growI: "(approval_ids_distinct s \<Longrightarrow> approvals_grow s s') \<Longrightarrow> approvals_grow s s'"
  by (simp add: approvals_grow_def)

lemma set_approvals_one:
  assumes "approval_ids_distinct s" and "a \<in> set (hs_approvals s)" and "P a" and "\<And>x. guard x \<Longrightarrow> ap_id x = ap_id a" and "guard a"
  shows "set_approvals guard effect s = set_approvals (\<lambda>x. x = a \<and> P x) effect s"
proof (rule set_approvals_cong)
  fix x assume x: "x \<in> set (hs_approvals s)"
  show "guard x = (x = a \<and> P x)"
  proof
    assume "guard x"
    then have "x = a" by (rule distinct_row [OF assms(1) [unfolded approval_ids_distinct_def] x assms(2) assms(4)])
    with assms(3) show "x = a \<and> P x" by simp
  qed (use assms(5) in blast)
qed

lemma approvals_grow_cong: "hs_approvals s' = hs_approvals s'' \<Longrightarrow> approvals_grow s s'' \<Longrightarrow> approvals_grow s s'"
  by (simp add: approvals_grow_def approval_ids_distinct_def)

lemma approvals_grow_new:
  assumes "hs_approvals s' = hs_approvals s @ [a]" and "\<forall>x \<in> set (hs_approvals s). ap_id x \<noteq> ap_id a" and "authorized_by_person a"
  shows "approvals_grow s s'"
  using assms unfolding approvals_grow_def approval_ids_distinct_def
  by (intro impI conjI exI [of _ "hs_approvals s"] exI [of _ "[a]"]) (auto simp: list.rel_refl)

lemma transition_grows:
  "list_all2 approval_evolves (hs_approvals s) (map (\<lambda>a. if guard a then effect a else a) (hs_approvals s)) \<Longrightarrow>
   approvals_grow s (snd (transition guard effect tenantID approvalID s))"
  by (auto simp: transition_def returning_def intro: set_approvals_grow split: list.split sum.split)

lemma create_grows: "approvals_grow s (snd (CreateApprovalRequest uuid now req s))"
proof -
  have "approvals_grow s (s\<lparr>hs_approvals := hs_approvals s @ [approval_row uuid now req s]\<rparr>)"
    if "\<not> (\<exists>a \<in> set (hs_approvals s). ap_id a = ap_id (approval_row uuid now req s))"
    by (rule approvals_grow_new) (use that in \<open>auto simp: authorized_by_person_def approval_row_def Let_def\<close>)
  then show ?thesis by (simp add: CreateApprovalRequest_def Let_def)
qed

lemma expire_grows: "approvals_grow s (snd (ExpireApprovalRequest now tenantID approvalID s))"
  by (simp add: ExpireApprovalRequest_def transition_grows expire.rows_evolve)

lemma park_grows: "approvals_grow s (snd (ParkApprovalRequest now tenantID approvalID reason s))"
  by (simp add: ParkApprovalRequest_def transition_grows park.rows_evolve)

lemma orphans_grow: "approvals_grow s (snd (ParkOrphanedApprovals now s))"
  by (simp add: ParkOrphanedApprovals_def returning_def set_approvals_grow orphan.rows_evolve)

lemma release_keeps: "releaseHumanWait tenantID personID runID kind ref prior s = Inr s' \<Longrightarrow>
   hs_approvals s' = hs_approvals s \<and> hs_clarifies s' = hs_clarifies s \<and> hs_runs s' = hs_runs s \<and> hs_queue s' = hs_queue s"
  by (auto simp: releaseHumanWait_def Let_def split: if_splits option.splits)

text \<open>A live claim is the transition, with the checkpoint put back when a release is given.\<close>

lemma claim_approvals:
  "hs_approvals (snd (ClaimApprovalDecisionReleasing now tenantID approvalID runID release s)) = hs_approvals s
   \<or> hs_approvals (snd (ClaimApprovalDecisionReleasing now tenantID approvalID runID release s)) =
       hs_approvals (snd (transition (live_decision (normalizeTenant tenantID) (TrimSpace approvalID))
         (\<lambda>a. a\<lparr>ap_waiter := ''claimed'', ap_claimed := Unix now, ap_claimed_by := TrimSpace runID, ap_updated := Unix now\<rparr>) tenantID approvalID s))"
  by (auto simp: ClaimApprovalDecisionReleasing_def Let_def split: prod.split sum.split option.split bool.split dest: release_keeps)

lemma claim_grows: "approvals_grow s (snd (ClaimApprovalDecisionReleasing now tenantID approvalID runID release s))"
  using claim_approvals
proof (rule disjE)
  assume "hs_approvals (snd (ClaimApprovalDecisionReleasing now tenantID approvalID runID release s)) =
    hs_approvals (snd (transition (live_decision (normalizeTenant tenantID) (TrimSpace approvalID))
      (\<lambda>a. a\<lparr>ap_waiter := ''claimed'', ap_claimed := Unix now, ap_claimed_by := TrimSpace runID, ap_updated := Unix now\<rparr>) tenantID approvalID s))"
  then show ?thesis by (rule approvals_grow_cong) (rule transition_grows [OF take_live.rows_evolve])
qed (rule approvals_grow_same)

lemma consume_cases:
  assumes "ClaimApprovalResumeAuthorization now tenantID personID runID fingerprint s = (r, s')" and "approval_ids_distinct s"
  shows "r = None \<and> s' = s \<or> (\<exists>a \<in> set (hs_approvals s). r = Some (ap_id a, ap_decision a, ap_grant a)
    \<and> authorizes now (normalizeTenant tenantID) (TrimSpace personID) (TrimSpace fingerprint) (resume_lineage s (normalizeTenant tenantID) (TrimSpace runID)) a
    \<and> s' = set_approvals (\<lambda>x. x = a \<and> authorizes now (normalizeTenant tenantID) (TrimSpace personID) (TrimSpace fingerprint)
          (resume_lineage s (normalizeTenant tenantID) (TrimSpace runID)) x)
        (\<lambda>x. x\<lparr>ap_auth := ''consumed'', ap_claimed := Unix now, ap_claimed_by := TrimSpace runID, ap_updated := Unix now\<rparr>) s)"
proof -
  let ?ok = "authorizes now (normalizeTenant tenantID) (TrimSpace personID) (TrimSpace fingerprint) (resume_lineage s (normalizeTenant tenantID) (TrimSpace runID))"
  let ?rows = "sort_key (\<lambda>a. (ap_created a, ap_id a)) (filter ?ok (hs_approvals s))"
  show ?thesis
  proof (cases "TrimSpace personID = [] \<or> TrimSpace runID = [] \<or> TrimSpace fingerprint = [] \<or> ?rows = []")
    case True
    then have "(r, s') = (None, s)" using assms(1)
      by (cases "TrimSpace personID = [] \<or> TrimSpace runID = [] \<or> TrimSpace fingerprint = []")
         (simp_all add: ClaimApprovalResumeAuthorization_def Let_def)
    then show ?thesis by simp
  next
    case False
    then obtain a rest where rows: "?rows = a # rest" by (meson neq_Nil_conv)
    let ?take = "\<lambda>x. x\<lparr>ap_auth := ''consumed'', ap_claimed := Unix now, ap_claimed_by := TrimSpace runID, ap_updated := Unix now\<rparr>"
    have r: "r = Some (ap_id a, ap_decision a, ap_grant a)" "s' = set_approvals (\<lambda>x. ap_id x = ap_id a \<and> ap_auth x = ''available'') ?take s"
      using assms(1) False by (simp_all add: ClaimApprovalResumeAuthorization_def Let_def rows)
    have "a \<in> set ?rows" unfolding rows by simp
    then have a: "a \<in> set (hs_approvals s)" "?ok a" by simp_all
    have "s' = set_approvals (\<lambda>x. x = a \<and> ?ok x) ?take s"
      unfolding r(2) by (rule set_approvals_one [where a = a and P = ?ok, OF assms(2) a]) (use a(2) in \<open>simp_all add: authorizes_def\<close>)
    with a r(1) show ?thesis by blast
  qed
qed

lemma consume_grows: "approvals_grow s (snd (ClaimApprovalResumeAuthorization now tenantID personID runID fingerprint s))"
proof (rule approvals_growI)
  assume ids: "approval_ids_distinct s"
  obtain r s' where rs: "ClaimApprovalResumeAuthorization now tenantID personID runID fingerprint s = (r, s')" by fastforce
  from consume_cases [OF rs ids] have "approvals_grow s s'"
  proof (elim disjE bexE conjE)
    fix a assume "s' = set_approvals (\<lambda>x. x = a \<and> authorizes now (normalizeTenant tenantID) (TrimSpace personID) (TrimSpace fingerprint)
          (resume_lineage s (normalizeTenant tenantID) (TrimSpace runID)) x)
        (\<lambda>x. x\<lparr>ap_auth := ''consumed'', ap_claimed := Unix now, ap_claimed_by := TrimSpace runID, ap_updated := Unix now\<rparr>) s"
    then show ?thesis by (simp only: set_approvals_grow take_parked.rows_evolve)
  qed (simp only: approvals_grow_refl)
  then show ?thesis by (simp only: rs snd_conv)
qed

lemma archive_grows: "approvals_grow s (snd (ArchiveStaleParkedApprovals now retention s))"
  by (simp add: ArchiveStaleParkedApprovals_def returning_def Let_def set_approvals_grow archive.rows_evolve)

lemma recovered_grows: "approvals_grow s (snd (EnqueueRecoveredApprovalContinuation restates ul uuid now approval q s))"
proof (rule approvals_growI)
  assume ids: "approval_ids_distinct s"
  let ?t = "normalizeTenant (n_tenant q)" and ?i = "TrimSpace approval"
  have one: "approvals_grow s ((set_approvals (\<lambda>x. approval_keyed ?t ?i x \<and> ap_queue x = [])
     (\<lambda>x. x\<lparr>ap_waiter := ''parked'', ap_parked := Some (case ap_parked x of Some p \<Rightarrow> p | None \<Rightarrow> Unix now),
        ap_reason := ''daemon restarted before the decision was fully consumed'', ap_queue := queueID,
        ap_auth := authorization_state (ap_status a), ap_expires := authorization_expiry now (ap_status a),
        ap_updated := Unix now\<rparr>) s)\<lparr>hs_queue := t\<rparr>)" (is "approvals_grow s (set_approvals ?g ?e s\<lparr>hs_queue := t\<rparr>)")
    if "find (\<lambda>a. approval_keyed ?t ?i a \<and> ap_person a = n_person q \<and> ap_thread a = n_thread q \<and> recoverable s a) (hs_approvals s) = Some a"
    for a queueID t
  proof -
    from that have a: "a \<in> set (hs_approvals s)" "approval_keyed ?t ?i a" "recoverable s a" by (auto simp: find_Some_iff)
    have "set_approvals ?g ?e s = set_approvals (\<lambda>x. x = a \<and> recoverable s x) ?e s"
      by (rule set_approvals_one [where a = a and P = "recoverable s", OF ids a(1,3)]) (use a in \<open>auto simp: approval_keyed_def recoverable_def\<close>)
    then show ?thesis
      by (intro approvals_grow_rows) (simp add: set_approvals_def recover.rows_evolve)
  qed
  show ?thesis
    by (auto simp: EnqueueRecoveredApprovalContinuation_def Let_def split: if_splits option.splits sum.splits intro: one)
qed

lemma notify_grows: "approvals_grow s (MarkApprovalNotified now tenantID approvalID s)"
  by (simp add: MarkApprovalNotified_def set_approvals_grow notify.rows_evolve)

lemma respond_grows: "approvals_grow s (snd (RespondApprovalRequest ul now tenantID personID approvalID decision channel input s))"
proof -
  have "approvals_grow s (set_approvals (\<lambda>a. approval_keyed tenant ident a \<and> ap_person a = personID \<and> ap_status a = ''pending'' \<and> ap_waiter a = ''live'')
      (decided now channel v) s)" for tenant ident v
    using respond.rows_evolve [where P = "\<lambda>a. approval_keyed tenant ident a \<and> ap_person a = personID" and Q = "\<lambda>a. ap_waiter a = ''live''"]
    by (intro set_approvals_grow) (simp only: conj_assoc)
  then show ?thesis by (auto simp: RespondApprovalRequest_def Let_def split: sum.split option.split)
qed

lemma respond_parked_grows:
  "approvals_grow s (snd (RespondParkedApprovalAndEnqueue restates ul uuid now tenantID personID approvalID decision channel input q s))"
proof -
  have "approvals_grow s ((set_approvals (parked_answer tenant person ident)
      (\<lambda>x. (decided now channel v x)\<lparr>ap_queue := queueID, ap_auth := authorization_state (dv_status v), ap_expires := e\<rparr>) s)\<lparr>hs_queue := t\<rparr>)"
    for tenant person ident v queueID e t
    by (rule approvals_grow_rows) (simp add: set_approvals_def respond_parked.rows_evolve)
  then show ?thesis by (auto simp: RespondParkedApprovalAndEnqueue_def Let_def split: sum.split option.split if_splits)
qed

end
