(* ===== verification/HumanWait.thy ===== *)
theory HumanWait
  imports Approvals
begin

text \<open>
  Questions, parked waits and stops: \<^verbatim>\<open>internal/control/clarifies.go\<close>, \<^verbatim>\<open>human_wait.go\<close>, \<^verbatim>\<open>loop_checkpoint.go\<close> (saving and
  checking a wait binding), \<^verbatim>\<open>parked_human_cancel.go\<close> and the shared statements of \<^verbatim>\<open>run_cancellation.go\<close> and
  \<^verbatim>\<open>parked_provider_cancel.go\<close>, on the tables of \<open>Approvals\<close>. \<open>human_step\<close> is any operation on human requests with any arguments at any
  time, and what the rest of the program does to the tables it shares.

  The options of a question are the decoded list, empty when it does not decode. Announcing events and the resume
  selections in the settings of a person are not modelled.
\<close>

section \<open>Questions\<close>

definition set_clarifies :: "(clarification \<Rightarrow> bool) \<Rightarrow> (clarification \<Rightarrow> clarification) \<Rightarrow> human_store \<Rightarrow> human_store" where
  "set_clarifies guard effect s = s\<lparr>hs_clarifies := map (\<lambda>c. if guard c then effect c else c) (hs_clarifies s)\<rparr>"

definition clarify_keyed :: "string \<Rightarrow> string \<Rightarrow> clarification \<Rightarrow> bool" where
  "clarify_keyed tenantID ident c = (cl_tenant c = tenantID \<and> cl_id c = ident)"

definition CreateClarifyRequest :: "string \<Rightarrow> int \<Rightarrow> clarification \<Rightarrow> human_store \<Rightarrow> (human_error + clarification) \<times> human_store" where
  "CreateClarifyRequest uuid now req s =
     (let tenantID = normalizeTenant (cl_tenant req); threadID = threadIDForRun s tenantID (cl_run req);
          row = req\<lparr>cl_id := (if cl_id req = [] then ''clr_'' @ uuid else cl_id req), cl_tenant := tenantID,
            cl_thread := (if threadID \<noteq> [] then threadID else cl_thread req),
            cl_status := (if cl_status req = [] then ''pending'' else cl_status req), cl_parked := 0, cl_notified := None,
            cl_created := Unix now\<rparr> in
      if cl_person req = [] then (Inl PersonMissing, s)
      else if TrimSpace (cl_question req) = [] then (Inl QuestionMissing, s)
      else if \<exists>c \<in> set (hs_clarifies s). cl_id c = cl_id row then (Inl RequestExists, s)
      else (Inr row, s\<lparr>hs_clarifies := hs_clarifies s @ [row]\<rparr>))"

definition ListClarifyRequests :: "string \<Rightarrow> string \<Rightarrow> string \<Rightarrow> int \<Rightarrow> human_store \<Rightarrow> human_error + clarification list" where
  "ListClarifyRequests tenantID personID status limit s =
     (if personID = [] then Inl PersonMissing
      else Inr (take (if limit \<le> 0 \<or> limit > 100 then 20 else nat limit) (sort_key (\<lambda>c. (cl_created c, cl_id c))
        (filter (\<lambda>c. cl_tenant c = normalizeTenant tenantID \<and> cl_person c = personID
           \<and> cl_status c = normalizeName status ''pending'') (hs_clarifies s)))))"

definition GetClarifyRequest :: "string \<Rightarrow> string \<Rightarrow> human_store \<Rightarrow> human_error + clarification option" where
  "GetClarifyRequest tenantID clarifyID s =
     (if TrimSpace clarifyID = [] then Inl RequestIDMissing
      else Inr (find (clarify_keyed (normalizeTenant tenantID) (TrimSpace clarifyID)) (hs_clarifies s)))"

definition PendingClarifyForRun :: "string \<Rightarrow> string \<Rightarrow> string \<Rightarrow> human_store \<Rightarrow> clarification option" where
  "PendingClarifyForRun tenantID person run s =
     (let personID = TrimSpace person; runID = TrimSpace run in
      if personID = [] \<or> runID = [] then None
      else (case rev (sort_key (\<lambda>c. (cl_created c, cl_id c)) (filter (\<lambda>c. cl_tenant c = normalizeTenant tenantID \<and> cl_person c = personID
                  \<and> cl_run c = runID \<and> cl_status c = ''pending'') (hs_clarifies s))) of
          [] \<Rightarrow> None | c # _ \<Rightarrow> Some c))"

definition ClarifyChoices :: "string list \<Rightarrow> string list" where
  "ClarifyChoices options = filter (\<lambda>o'. o' \<noteq> []) (map TrimSpace options)"

text \<open>\<^verbatim>\<open>strconv.Atoi\<close>: an optional sign and decimal digits; the range of a 64-bit integer is never reached below a list's length.\<close>

definition decimal_digit :: "char \<Rightarrow> bool" where
  "decimal_digit c = (48 \<le> byte c \<and> byte c \<le> 57)"

definition Atoi :: "string \<Rightarrow> int option" where
  "Atoi t = (let signed = (t \<noteq> [] \<and> (hd t = CHR ''+'' \<or> hd t = CHR ''-'')); digits = (if signed then tl t else t) in
     if digits \<noteq> [] \<and> list_all decimal_digit digits
     then Some (if signed \<and> hd t = CHR ''-'' then - int (decimal_value digits) else int (decimal_value digits)) else None)"

definition ResolveClarifyOption :: "string \<Rightarrow> string list \<Rightarrow> string" where
  "ResolveClarifyOption answer options =
     (let trimmed = TrimSpace answer; choices = ClarifyChoices options in
      if trimmed = [] then answer
      else (case Atoi trimmed of
          Some idx \<Rightarrow> if 1 \<le> idx \<and> idx \<le> int (length choices) then choices ! nat (idx - 1) else trimmed
        | None \<Rightarrow> trimmed))"

definition pending_clarify :: "string \<Rightarrow> string \<Rightarrow> string \<Rightarrow> clarification \<Rightarrow> bool" where
  "pending_clarify tenantID personID clarifyID c = (clarify_keyed tenantID clarifyID c \<and> cl_person c = personID \<and> cl_status c = ''pending'')"

definition answered :: "string \<Rightarrow> string \<Rightarrow> clarification \<Rightarrow> clarification" where
  "answered answer channel c = c\<lparr>cl_status := ''answered'', cl_answer := answer, cl_channel := channel\<rparr>"

definition AnswerClarifyRequest :: "string \<Rightarrow> string \<Rightarrow> string \<Rightarrow> string \<Rightarrow> string \<Rightarrow> human_store
    \<Rightarrow> (human_error + clarification option) \<times> human_store" where
  "AnswerClarifyRequest tenant personID clarify answer channel s =
     (let tenantID = normalizeTenant tenant; clarifyID = TrimSpace clarify in
      if personID = [] then (Inl PersonMissing, s)
      else if clarifyID = [] then (Inl RequestIDMissing, s)
      else if TrimSpace answer = [] then (Inl AnswerMissing, s)
      else (case find (clarify_keyed tenantID clarifyID) (hs_clarifies s) of
          None \<Rightarrow> (Inl RequestNotFound, s)
        | Some c \<Rightarrow>
            if cl_person c \<noteq> personID then (Inl RequestNotFound, s)
            else if cl_status c \<noteq> ''pending'' then (Inl (AlreadyResolved (cl_status c)), s)
            else (let s' = set_clarifies (pending_clarify tenantID personID clarifyID)
                        (answered (ResolveClarifyOption answer (cl_options c)) channel) s in
                  (Inr (find (clarify_keyed tenantID clarifyID) (hs_clarifies s')), s'))))"

definition resumableRunStatus :: "string \<Rightarrow> bool" where
  "resumableRunStatus status = (status \<in> {''interrupted'', ''waiting_user'', ''verification_partial'', ''blocked''})"

definition clarify_expired :: "string \<Rightarrow> string \<Rightarrow> string \<Rightarrow> human_store \<Rightarrow> human_store" where
  "clarify_expired tenantID personID clarifyID = set_clarifies (pending_clarify tenantID personID clarifyID) (\<lambda>c. c\<lparr>cl_status := ''expired''\<rparr>)"

definition resumed :: "human_store \<Rightarrow> string \<Rightarrow> string \<Rightarrow> bool" where
  "resumed s tenantID runID = list_ex (\<lambda>r. run_tenant r = tenantID \<and> run_resumes r = runID) (hs_runs s)"

text \<open>The answer of \<^verbatim>\<open>AnswerClarifyRequestWithResume\<close> once the question is known to be pending; the queue id is that of the continuation.\<close>

definition answer_pending :: "(string \<Rightarrow> string \<Rightarrow> bool) \<Rightarrow> (nat \<Rightarrow> nat) \<Rightarrow> string \<Rightarrow> int \<Rightarrow> string \<Rightarrow> string \<Rightarrow> clarification \<Rightarrow> string
    \<Rightarrow> string \<Rightarrow> new_task \<Rightarrow> human_store \<Rightarrow> (human_error + clarification option \<times> string option) \<times> human_store" where
  "answer_pending restates ul uuid now tenant personID c answer channel q s =
     (let tenantID = normalizeTenant tenant; clarifyID = cl_id c; origin = human_run_of s tenantID (cl_run c);
          refused = (Inl OriginUnavailable, clarify_expired tenantID personID clarifyID s);
          finish = (\<lambda>queueID t. let s' = (set_clarifies (pending_clarify tenantID personID clarifyID) (answered answer channel) s)\<lparr>hs_queue := t\<rparr> in
             (Inr (find (clarify_keyed tenantID clarifyID) (hs_clarifies s'), queueID), s')) in
      if cl_run c \<noteq> [] \<and> (case origin of None \<Rightarrow> True | Some r \<Rightarrow> run_person r \<noteq> personID \<or> cl_thread c = [] \<or> run_thread r \<noteq> cl_thread c)
      then refused
      else (case origin of
          Some r \<Rightarrow>
            if cl_run c = [] \<or> run_status r = ''running'' then finish None (hs_queue s)
            else if \<not> resumableRunStatus (run_status r) then refused
            else if resumed s tenantID (cl_run c) \<or> hr_resumed_by r \<noteq> [] then refused
            else if n_reply_to q \<noteq> [] \<and> n_reply_to q \<noteq> cl_run c then (Inl OtherRun, s)
            else (case parkedRunAdmissionJSON restates (n_admission q) (hr_admission r) of
                Inl e \<Rightarrow> (Inl e, s)
              | Inr admission \<Rightarrow>
                  (let row = (new_row ul uuid now (q\<lparr>n_tenant := tenant, n_person := personID\<rparr>) admission)
                         \<lparr>t_thread := cl_thread c, t_content := answer, t_clarify := clarifyID, t_approval := [], t_reply_to := cl_run c,
                          t_key := (if TrimSpace (n_key q) = [] then ''clarify-resume:'' @ clarifyID else n_key q),
                          t_not_before := plain_not_before (n_not_before q), t_attachments := ''[]''\<rparr> in
                   case insert_continuation row (hs_queue s) of
                     Inl e \<Rightarrow> (Inl e, s) | Inr (queueID, t) \<Rightarrow> finish (Some queueID) t))
        | None \<Rightarrow> finish None (hs_queue s)))"

definition AnswerClarifyRequestWithResume :: "(string \<Rightarrow> string \<Rightarrow> bool) \<Rightarrow> (nat \<Rightarrow> nat) \<Rightarrow> string \<Rightarrow> int \<Rightarrow> string \<Rightarrow> string \<Rightarrow> string
    \<Rightarrow> string \<Rightarrow> string \<Rightarrow> new_task \<Rightarrow> human_store \<Rightarrow> (human_error + clarification option \<times> string option) \<times> human_store" where
  "AnswerClarifyRequestWithResume restates ul uuid now tenant person clarify ans channel q s =
     (let tenantID = normalizeTenant tenant; personID = TrimSpace person; clarifyID = TrimSpace clarify; answer = TrimSpace ans in
      if personID = [] \<or> clarifyID = [] \<or> answer = [] then (Inl AnswerIncomplete, s)
      else (case find (clarify_keyed tenantID clarifyID) (hs_clarifies s) of
          None \<Rightarrow> (Inl RequestNotFound, s)
        | Some c \<Rightarrow>
            if cl_person c \<noteq> personID \<or> cl_status c \<noteq> ''pending'' then (Inl (AlreadyResolved (cl_status c)), s)
            else answer_pending restates ul uuid now tenant personID c (ResolveClarifyOption answer (cl_options c)) channel q s))"

definition MarkClarifyNotified :: "int \<Rightarrow> string \<Rightarrow> string \<Rightarrow> human_store \<Rightarrow> human_store" where
  "MarkClarifyNotified now tenantID clarifyID s =
     set_clarifies (\<lambda>c. clarify_keyed (normalizeTenant tenantID) clarifyID c \<and> cl_status c = ''pending'' \<and> cl_notified c = None)
       (\<lambda>c. c\<lparr>cl_notified := Some (Unix now)\<rparr>) s"

definition ListPendingClarifiesForEscrow :: "int \<Rightarrow> human_store \<Rightarrow> clarification list" where
  "ListPendingClarifiesForEscrow createdBefore s = take 100 (sort_key (\<lambda>c. (cl_created c, cl_id c))
     (filter (\<lambda>c. cl_status c = ''pending'' \<and> cl_notified c = None \<and> cl_created c \<le> Unix createdBefore) (hs_clarifies s)))"

text \<open>The tenant is compared as it is given.\<close>

definition ExpireClarifyRequest :: "string \<Rightarrow> string \<Rightarrow> human_store \<Rightarrow> human_store" where
  "ExpireClarifyRequest tenantID clarifyID s =
     set_clarifies (\<lambda>c. clarify_keyed tenantID clarifyID c \<and> cl_status c = ''pending'') (\<lambda>c. c\<lparr>cl_status := ''expired''\<rparr>) s"

definition clarify_orphaned :: "human_store \<Rightarrow> clarification \<Rightarrow> bool" where
  "clarify_orphaned s c = (cl_status c = ''pending'' \<and> cl_run c \<noteq> []
     \<and> \<not> list_ex (\<lambda>r. run_tenant r = cl_tenant c \<and> run_id r = cl_run c
          \<and> (run_status r = ''running'' \<or> resumableRunStatus (run_status r) \<and> hr_dismissed r = 0 \<and> hr_resumed_by r = []
               \<and> \<not> resumed s (run_tenant r) (run_id r))) (hs_runs s))"

definition ExpireOrphanedClarifies :: "human_store \<Rightarrow> nat \<times> human_store" where
  "ExpireOrphanedClarifies s = (length (filter (clarify_orphaned s) (hs_clarifies s)),
     set_clarifies (clarify_orphaned s) (\<lambda>c. c\<lparr>cl_status := ''expired''\<rparr>) s)"

section \<open>Checkpoints and parking\<close>

definition LoopCheckpointWaitExecutionLane :: string where "LoopCheckpointWaitExecutionLane = ''execution_lane''"
definition LoopCheckpointWaitExecutionHostLane :: string where "LoopCheckpointWaitExecutionHostLane = ''execution_host_lane''"

definition loopCheckpointToolCallMaxBytes :: nat where
  "loopCheckpointToolCallMaxBytes = 256"

text \<open>The query of \<^verbatim>\<open>checkLoopCheckpointWait\<close>: the call the named request records, \<^const>\<open>None\<close> without such a request.\<close>

definition recorded_call :: "human_store \<Rightarrow> string \<Rightarrow> checkpoint \<Rightarrow> string option" where
  "recorded_call s tenantID c =
     (if cp_kind c = LoopCheckpointWaitApproval then
        map_option (\<lambda>a. pl_call (ap_payload a)) (find (\<lambda>a. approval_keyed tenantID (cp_ref c) a \<and> ap_person a = cp_person c \<and> ap_run a = cp_run c)
          (hs_approvals s))
      else if cp_kind c = LoopCheckpointWaitClarification then
        map_option (\<lambda>_. []) (find (\<lambda>a. clarify_keyed tenantID (cp_ref c) a \<and> cl_person a = cp_person c \<and> cl_run a = cp_run c) (hs_clarifies s))
      else map_option (\<lambda>_. []) (find (\<lambda>r. run_tenant r = tenantID \<and> run_id r = cp_ref c \<and> run_person r = cp_person c
          \<and> run_id r = cp_run c \<and> run_status r = ''running'') (hs_runs s)))"

definition checkLoopCheckpointWait :: "human_store \<Rightarrow> string \<Rightarrow> checkpoint \<Rightarrow> bool" where
  "checkLoopCheckpointWait s tenantID c =
     (if cp_kind c = [] \<and> cp_ref c = [] \<and> cp_call c = [] then True
      else if cp_ref c = [] \<or> cp_call c = [] then False
      else if length (cp_call c) > loopCheckpointToolCallMaxBytes then False
      else if cp_kind c \<in> {LoopCheckpointWaitExecutionLane, LoopCheckpointWaitExecutionHostLane}
        \<and> (cp_outcome c \<noteq> ''await_execution'' \<or> cp_ref c \<noteq> cp_run c) then False
      else if cp_kind c \<notin> {LoopCheckpointWaitExecutionLane, LoopCheckpointWaitExecutionHostLane, LoopCheckpointWaitApproval,
        LoopCheckpointWaitClarification} then False
      else (case recorded_call s tenantID c of
          None \<Rightarrow> False | Some call \<Rightarrow> call = [] \<or> call = cp_call c))"

definition SaveLoopCheckpoint :: "checkpoint \<Rightarrow> human_store \<Rightarrow> (human_error + unit) \<times> human_store" where
  "SaveLoopCheckpoint c0 s =
     (let tenantID = normalizeTenant (cp_tenant c0);
          c = c0\<lparr>cp_kind := TrimSpace (cp_kind c0), cp_ref := TrimSpace (cp_ref c0), cp_call := TrimSpace (ToValidUTF8 (cp_call c0))\<rparr> in
      if \<not> checkLoopCheckpointWait s tenantID c then (Inl WaitBinding, s)
      else (Inr (), s\<lparr>hs_checkpoints := (if \<exists>x \<in> set (hs_checkpoints s). cp_run x = cp_run c
           then map (\<lambda>x. if cp_run x = cp_run c then put_back c x else x) (hs_checkpoints s)
           else hs_checkpoints s @ [c\<lparr>cp_tenant := tenantID\<rparr>])\<rparr>))"

definition ReleaseHumanWait :: "string \<Rightarrow> string \<Rightarrow> string \<Rightarrow> string \<Rightarrow> string \<Rightarrow> checkpoint option \<Rightarrow> human_store
    \<Rightarrow> (human_error + unit) \<times> human_store" where
  "ReleaseHumanWait tenantID personID runID kind ref prior s =
     (case releaseHumanWait tenantID personID runID kind ref prior s of Inl e \<Rightarrow> (Inl e, s) | Inr s' \<Rightarrow> (Inr (), s'))"

definition HumanWaitParkGrace :: string where "HumanWaitParkGrace = ''grace''"

definition human_wait_bound :: "human_store \<Rightarrow> string \<Rightarrow> string \<Rightarrow> string \<Rightarrow> string \<Rightarrow> string \<Rightarrow> bool" where
  "human_wait_bound s tenantID personID runID kind ref =
     list_ex (\<lambda>c. cp_tenant c = tenantID \<and> cp_person c = personID \<and> cp_run c = runID \<and> cp_outcome c = ''await_human'' \<and> cp_kind c = kind
       \<and> cp_ref c = ref \<and> cp_call c \<noteq> []
       \<and> list_ex (\<lambda>r. run_id r = cp_run c \<and> run_tenant r = cp_tenant c \<and> run_person r = personID \<and> run_status r = ''running''
            \<and> \<not> hr_cancel r) (hs_runs s)) (hs_checkpoints s)"

definition park_guard :: "string \<Rightarrow> string \<Rightarrow> string \<Rightarrow> string \<Rightarrow> approval \<Rightarrow> bool" where
  "park_guard tenantID personID runID ref a = (approval_keyed tenantID ref a \<and> ap_person a = personID \<and> ap_run a = runID
     \<and> ap_status a = ''pending'' \<and> ap_waiter a = ''live'')"

definition park_question :: "string \<Rightarrow> string \<Rightarrow> string \<Rightarrow> string \<Rightarrow> clarification \<Rightarrow> bool" where
  "park_question tenantID personID runID ref c = (pending_clarify tenantID personID ref c \<and> cl_run c = runID \<and> cl_parked c = 0)"

definition running_here :: "string \<Rightarrow> string \<Rightarrow> string \<Rightarrow> human_run \<Rightarrow> bool" where
  "running_here tenantID personID runID r = (run_tenant r = tenantID \<and> run_person r = personID \<and> run_id r = runID \<and> run_status r = ''running'')"

text \<open>The second statement of a park: without a running run the transaction is rolled back to the store before it.\<close>

definition park_run :: "string \<Rightarrow> string \<Rightarrow> string \<Rightarrow> human_store \<Rightarrow> human_store \<Rightarrow> (human_error + bool) \<times> human_store" where
  "park_run tenantID personID runID before s =
     (if filter (running_here tenantID personID runID) (hs_runs s) = [] then (Inl RunChanged, before)
      else (Inr True, s\<lparr>hs_runs := map (\<lambda>r. if running_here tenantID personID runID r then r\<lparr>run_status := ''waiting_user''\<rparr> else r) (hs_runs s)\<rparr>))"

definition ParkHumanWaitRun :: "int \<Rightarrow> string \<Rightarrow> string \<Rightarrow> string \<Rightarrow> string \<Rightarrow> string \<Rightarrow> string \<Rightarrow> human_store
    \<Rightarrow> (human_error + bool) \<times> human_store" where
  "ParkHumanWaitRun now tenant personID runID kind ref reason s =
     (let tenantID = normalizeTenant tenant; why = (if TrimSpace reason = [] then HumanWaitParkGrace else TrimSpace reason) in
      if \<not> human_wait_bound s tenantID personID runID kind ref then (Inl NoCheckpoint, s)
      else if kind = LoopCheckpointWaitApproval then
        (if filter (park_guard tenantID personID runID ref) (hs_approvals s) = [] then (Inr False, s)
         else park_run tenantID personID runID s (set_approvals (park_guard tenantID personID runID ref)
           (\<lambda>a. a\<lparr>ap_waiter := ''parked'', ap_parked := Some (Unix now), ap_reason := why, ap_updated := Unix now\<rparr>) s))
      else if kind = LoopCheckpointWaitClarification then
        (if filter (park_question tenantID personID runID ref) (hs_clarifies s) = [] then (Inr False, s)
         else park_run tenantID personID runID s (set_clarifies (park_question tenantID personID runID ref) (\<lambda>c. c\<lparr>cl_parked := Unix now\<rparr>) s))
      else (Inl UnknownWait, s))"

section \<open>Stops\<close>

definition expireRunHumanRequestsTx :: "int \<Rightarrow> string \<Rightarrow> string \<Rightarrow> string \<Rightarrow> human_store \<Rightarrow> string list \<times> human_store" where
  "expireRunHumanRequestsTx now tenantID personID runID s =
     (let own = (\<lambda>a. ap_tenant a = tenantID \<and> ap_person a = personID \<and> ap_run a = runID);
          asked = (\<lambda>c. cl_tenant c = tenantID \<and> cl_person c = personID \<and> cl_run c = runID \<and> cl_status c = ''pending'');
          s1 = set_approvals (\<lambda>a. own a \<and> ap_status a = ''pending'') (\<lambda>a. a\<lparr>ap_status := ''expired'', ap_updated := Unix now\<rparr>) s;
          s2 = set_approvals (\<lambda>a. own a \<and> ap_auth a \<noteq> ''consumed'') (\<lambda>a. a\<lparr>ap_auth := [], ap_expires := 0, ap_updated := Unix now\<rparr>) s1;
          s3 = set_clarifies asked (\<lambda>c. c\<lparr>cl_status := ''expired''\<rparr>) s2
      in (map ap_id (filter (\<lambda>a. own a \<and> ap_status a = ''pending'') (hs_approvals s)) @ map cl_id (filter asked (hs_clarifies s)), s3))"

text \<open>The queue statement of \<^verbatim>\<open>cancelUnboundRunContinuationsTx\<close>.\<close>

definition unbound_continuation :: "human_store \<Rightarrow> string \<Rightarrow> string \<Rightarrow> string \<Rightarrow> task_row \<Rightarrow> bool" where
  "unbound_continuation s tenantID personID runID q = (t_tenant q = tenantID \<and> t_person q = personID
     \<and> (t_reply_to q = runID
        \<or> list_ex (\<lambda>a. ap_id a = t_approval q \<and> ap_tenant a = tenantID \<and> ap_person a = personID \<and> ap_run a = runID) (hs_approvals s)
        \<or> list_ex (\<lambda>c. cl_id c = t_clarify q \<and> cl_tenant c = tenantID \<and> cl_person c = personID \<and> cl_run c = runID) (hs_clarifies s))
     \<and> t_status q \<in> {QueueStatusQueued, QueueStatusStarted} \<and> t_run q = [])"

definition cancelUnboundRunContinuationsTx :: "string \<Rightarrow> string \<Rightarrow> string \<Rightarrow> human_store \<Rightarrow> human_store" where
  "cancelUnboundRunContinuationsTx tenantID personID runID s =
     s\<lparr>hs_queue := map (\<lambda>q. if unbound_continuation s tenantID personID runID q
        then q\<lparr>t_status := QueueStatusCancelled, t_token := [], t_lease := 0\<rparr> else q) (hs_queue s)\<rparr>"

definition waits_in_queue :: "human_store \<Rightarrow> human_run \<Rightarrow> (task_row \<Rightarrow> bool) \<Rightarrow> bool" where
  "waits_in_queue s r named = list_ex (\<lambda>q. t_tenant q = run_tenant r \<and> t_person q = run_person r \<and> named q
     \<and> t_status q \<in> {QueueStatusQueued, QueueStatusStarted} \<and> t_run q = []) (hs_queue s)"

definition parkedHumanCondition :: "human_store \<Rightarrow> human_run \<Rightarrow> checkpoint \<Rightarrow> bool" where
  "parkedHumanCondition s r c = (run_status r = ''waiting_user'' \<and> hr_resumed_by r = [] \<and> \<not> resumed s (run_tenant r) (run_id r)
     \<and> cp_outcome c = ''await_human'' \<and> cp_call c \<noteq> []
     \<and> (cp_kind c = LoopCheckpointWaitApproval
          \<and> list_ex (\<lambda>a. approval_keyed (run_tenant r) (cp_ref c) a \<and> ap_person a = run_person r \<and> ap_run a = run_id r
               \<and> (ap_status a \<in> {''pending'', ''archived''} \<or> waits_in_queue s r (\<lambda>q. t_approval q = ap_id a))) (hs_approvals s)
        \<or> cp_kind c = LoopCheckpointWaitClarification
          \<and> list_ex (\<lambda>a. clarify_keyed (run_tenant r) (cp_ref c) a \<and> cl_person a = run_person r \<and> cl_run a = run_id r
               \<and> (cl_status a = ''pending'' \<or> waits_in_queue s r (\<lambda>q. t_clarify q = cl_id a))) (hs_clarifies s)))"

definition parked_human :: "human_store \<Rightarrow> human_run \<Rightarrow> bool" where
  "parked_human s r = list_ex (\<lambda>c. cp_tenant c = run_tenant r \<and> cp_person c = run_person r \<and> cp_run c = run_id r
     \<and> parkedHumanCondition s r c) (hs_checkpoints s)"

definition ParkedHumanRunIDs :: "string \<Rightarrow> string \<Rightarrow> human_store \<Rightarrow> string list" where
  "ParkedHumanRunIDs tenantID personID s =
     map run_id (filter (\<lambda>r. run_tenant r = normalizeTenant tenantID \<and> run_person r = personID \<and> parked_human s r) (hs_runs s))"

definition cancelParkedRunTx :: "string \<Rightarrow> string \<Rightarrow> string \<Rightarrow> human_store \<Rightarrow> human_store" where
  "cancelParkedRunTx tenantID personID runID s = cancelUnboundRunContinuationsTx tenantID personID runID
     (s\<lparr>hs_runs := map (\<lambda>r. if run_tenant r = tenantID \<and> run_person r = personID \<and> run_id r = runID
          then r\<lparr>run_status := ''cancelled'', hr_cancel := True\<rparr> else r) (hs_runs s)\<rparr>)"

definition cancelParkedHumanTx :: "int \<Rightarrow> string \<Rightarrow> string \<Rightarrow> string \<Rightarrow> human_store \<Rightarrow> bool \<times> human_store" where
  "cancelParkedHumanTx now tenantID personID runID s =
     (if \<not> list_ex (\<lambda>r. run_tenant r = tenantID \<and> run_person r = personID \<and> run_id r = runID \<and> parked_human s r) (hs_runs s) then (False, s)
      else (True, cancelParkedRunTx tenantID personID runID (snd (expireRunHumanRequestsTx now tenantID personID runID s))))"

definition CancelParkedHumanRun :: "int \<Rightarrow> string \<Rightarrow> string \<Rightarrow> string \<Rightarrow> human_store \<Rightarrow> (human_error + bool) \<times> human_store" where
  "CancelParkedHumanRun now tenantID personID runID s =
     (if TrimSpace personID = [] \<or> TrimSpace runID = [] then (Inl PersonMissing, s)
      else (case cancelParkedHumanTx now (normalizeTenant tenantID) personID runID s of (done, s') \<Rightarrow> (Inr done, s')))"

text \<open>The stop of \<^verbatim>\<open>RequestRunCancel\<close> for a run that is not parked.\<close>

definition stop_live_run :: "int \<Rightarrow> string \<Rightarrow> string \<Rightarrow> string \<Rightarrow> human_store \<Rightarrow> human_store" where
  "stop_live_run now tenantID personID runID s = cancelUnboundRunContinuationsTx tenantID personID runID
     (snd (expireRunHumanRequestsTx now tenantID personID runID
       (s\<lparr>hs_runs := map (\<lambda>r. if run_tenant r = tenantID \<and> run_id r = runID then r\<lparr>hr_cancel := True\<rparr> else r) (hs_runs s)\<rparr>)))"

section \<open>Any sequence of operations\<close>

text \<open>
  Every operation on human requests, and what the rest of the program does to the shared tables: it changes runs,
  checkpoints and the queue, and moves the requests of a run to another thread. The reset of a tenant's work
  history, which deletes its rows, is not a step.
\<close>

inductive human_step :: "human_store \<Rightarrow> human_store \<Rightarrow> bool" where
  create: "human_step s (snd (CreateApprovalRequest uuid now req s))"
| expire: "human_step s (snd (ExpireApprovalRequest now tenantID approvalID s))"
| park: "human_step s (snd (ParkApprovalRequest now tenantID approvalID reason s))"
| park_orphaned: "human_step s (snd (ParkOrphanedApprovals now s))"
| claim: "human_step s (snd (ClaimApprovalDecisionReleasing now tenantID approvalID runID release s))"
| consume: "human_step s (snd (ClaimApprovalResumeAuthorization now tenantID personID runID fingerprint s))"
| archive: "human_step s (snd (ArchiveStaleParkedApprovals now retention s))"
| recover: "human_step s (snd (EnqueueRecoveredApprovalContinuation restates ul uuid now approvalID q s))"
| notified: "human_step s (MarkApprovalNotified now tenantID approvalID s)"
| respond: "human_step s (snd (RespondApprovalRequest ul now tenantID personID approvalID decision channel input s))"
| respond_parked: "human_step s (snd (RespondParkedApprovalAndEnqueue restates ul uuid now tenantID personID approvalID decision channel input q s))"
| ask: "human_step s (snd (CreateClarifyRequest uuid now question s))"
| answer: "human_step s (snd (AnswerClarifyRequest tenantID personID clarifyID reply channel s))"
| answer_resume: "human_step s (snd (AnswerClarifyRequestWithResume restates ul uuid now tenantID personID clarifyID reply channel q s))"
| clarify_notified: "human_step s (MarkClarifyNotified now tenantID clarifyID s)"
| expire_clarify: "human_step s (ExpireClarifyRequest tenantID clarifyID s)"
| expire_orphaned: "human_step s (snd (ExpireOrphanedClarifies s))"
| checkpoint: "human_step s (snd (SaveLoopCheckpoint c s))"
| release: "human_step s (snd (ReleaseHumanWait tenantID personID runID kind ref prior s))"
| park_run: "human_step s (snd (ParkHumanWaitRun now tenantID personID runID kind ref reason s))"
| cancel_parked: "human_step s (snd (CancelParkedHumanRun now tenantID personID runID s))"
| cancel_wait: "human_step s (snd (cancelParkedHumanTx now tenantID personID runID s))"
| stop: "human_step s (stop_live_run now tenantID personID runID s)"
| move: "human_step s (set_clarifies (\<lambda>c. cl_run c = runID) (\<lambda>c. c\<lparr>cl_thread := th\<rparr>)
     (set_approvals (\<lambda>a. ap_run a = runID) (\<lambda>a. a\<lparr>ap_thread := th\<rparr>) s))"
| other: "human_step s (s\<lparr>hs_runs := rs, hs_checkpoints := cs, hs_queue := t\<rparr>)"

inductive human_steps :: "human_store \<Rightarrow> human_store \<Rightarrow> bool" where
  refl: "human_steps s s"
| step: "human_steps s s' \<Longrightarrow> human_step s' s'' \<Longrightarrow> human_steps s s''"

definition clarify_evolves :: "clarification \<Rightarrow> clarification \<Rightarrow> bool" where
  "clarify_evolves c d = (cl_id d = cl_id c \<and> cl_tenant d = cl_tenant c \<and> cl_person d = cl_person c \<and> cl_run d = cl_run c
     \<and> cl_question d = cl_question c \<and> cl_options d = cl_options c
     \<and> (cl_status c \<noteq> ''pending'' \<longrightarrow> cl_status d = cl_status c \<and> cl_answer d = cl_answer c \<and> cl_channel d = cl_channel c))"

interpretation answers: row_statement clarify_evolves "pending_clarify tenantID personID clarifyID" "answered reply channel"
  for tenantID personID clarifyID reply channel
  by unfold_locales (simp_all add: clarify_evolves_def pending_clarify_def answered_def)

interpretation expires: row_statement clarify_evolves "\<lambda>c. P c \<and> cl_status c = ''pending''" "\<lambda>c. c\<lparr>cl_status := ''expired''\<rparr>" for P
  by unfold_locales (simp_all add: clarify_evolves_def)

interpretation orphans: row_statement clarify_evolves "clarify_orphaned s" "\<lambda>c. c\<lparr>cl_status := ''expired''\<rparr>" for s
  by unfold_locales (simp_all add: clarify_evolves_def clarify_orphaned_def)

interpretation parks: row_statement clarify_evolves P "\<lambda>c. c\<lparr>cl_parked := t\<rparr>" for P t
  by unfold_locales (simp_all add: clarify_evolves_def)

interpretation notifies: row_statement clarify_evolves P "\<lambda>c. c\<lparr>cl_notified := t\<rparr>" for P t
  by unfold_locales (simp_all add: clarify_evolves_def)

interpretation moves: row_statement clarify_evolves P "\<lambda>c. c\<lparr>cl_thread := th\<rparr>" for P th
  by unfold_locales (simp_all add: clarify_evolves_def)

definition clarifies_grow :: "human_store \<Rightarrow> human_store \<Rightarrow> bool" where
  "clarifies_grow s s' = (\<exists>cs new. hs_clarifies s' = cs @ new \<and> list_all2 clarify_evolves (hs_clarifies s) cs)"

lemma clarify_evolves_trans: "clarify_evolves a b \<Longrightarrow> clarify_evolves b c \<Longrightarrow> clarify_evolves a c"
  by (auto simp: clarify_evolves_def)

lemma clarifies_grow_rows: "list_all2 clarify_evolves (hs_clarifies s) (hs_clarifies s') \<Longrightarrow> clarifies_grow s s'"
  unfolding clarifies_grow_def by (intro exI [of _ "hs_clarifies s'"] exI [of _ "[]"]) simp

lemma clarifies_grow_same: "hs_clarifies s' = hs_clarifies s \<Longrightarrow> clarifies_grow s s'"
  by (rule clarifies_grow_rows) (simp add: list.rel_refl clarify_evolves_def)

lemma clarifies_grow_trans:
  assumes "clarifies_grow s t" and "clarifies_grow t u"
  shows "clarifies_grow s u"
proof -
  obtain cs new ds newer where "hs_clarifies t = cs @ new" "list_all2 clarify_evolves (hs_clarifies s) cs"
    "hs_clarifies u = ds @ newer" "list_all2 clarify_evolves (hs_clarifies t) ds" using assms by (auto simp: clarifies_grow_def)
  from list_all2_extend [OF clarify_evolves_trans this] obtain ws rest
    where "hs_clarifies u = ws @ rest" "list_all2 clarify_evolves (hs_clarifies s) ws" .
  then show ?thesis by (auto simp: clarifies_grow_def)
qed

lemma set_clarifies_grow:
  "list_all2 clarify_evolves (hs_clarifies s) (map (\<lambda>c. if guard c then effect c else c) (hs_clarifies s)) \<Longrightarrow>
   clarifies_grow s (set_clarifies guard effect s)"
  by (rule clarifies_grow_rows) (simp add: set_clarifies_def)

definition human_grows :: "human_store \<Rightarrow> human_store \<Rightarrow> bool" where
  "human_grows s s' = (approvals_grow s s' \<and> clarifies_grow s s')"

lemma human_grows_trans: "human_grows s t \<Longrightarrow> human_grows t u \<Longrightarrow> human_grows s u"
  using approvals_grow_trans clarifies_grow_trans by (auto simp: human_grows_def)

lemma human_growsI: "approvals_grow s s' \<Longrightarrow> hs_clarifies s' = hs_clarifies s \<Longrightarrow> human_grows s s'"
  by (simp add: human_grows_def clarifies_grow_same)

lemma clarify_growsI: "clarifies_grow s s' \<Longrightarrow> hs_approvals s' = hs_approvals s \<Longrightarrow> human_grows s s'"
  by (simp add: human_grows_def approvals_grow_same)

lemma human_grows_same: "hs_approvals s' = hs_approvals s \<Longrightarrow> hs_clarifies s' = hs_clarifies s \<Longrightarrow> human_grows s s'"
  by (simp add: human_grows_def approvals_grow_same clarifies_grow_same)

lemma updated_member: "x \<in> set xs \<Longrightarrow> guard x \<Longrightarrow> effect x \<in> set (map (\<lambda>r. if guard r then effect r else r) xs)"
  by (auto simp: image_iff intro!: bexI [of _ x])

lemma set_keeps [simp]: "hs_clarifies (set_approvals guard effect s) = hs_clarifies s" "hs_approvals (set_clarifies g e s) = hs_approvals s"
    "hs_queue (set_approvals guard effect s) = hs_queue s" "hs_queue (set_clarifies g e s) = hs_queue s"
    "hs_runs (set_approvals guard effect s) = hs_runs s" "hs_runs (set_clarifies g e s) = hs_runs s"
    "hs_checkpoints (set_approvals guard effect s) = hs_checkpoints s" "hs_checkpoints (set_clarifies g e s) = hs_checkpoints s"
  by (simp_all add: set_approvals_def set_clarifies_def)

text \<open>The operations on approvals leave the questions alone.\<close>

lemma transition_clarifies [simp]: "hs_clarifies (snd (transition guard effect tenantID approvalID s)) = hs_clarifies s"
  by (auto simp: transition_def returning_def split: list.split sum.split)

lemma claim_clarifies: "hs_clarifies (snd (ClaimApprovalDecisionReleasing now tenantID approvalID runID release s)) = hs_clarifies s"
proof -
  obtain r s' where t: "transition (live_decision (normalizeTenant tenantID) (TrimSpace approvalID))
      (\<lambda>a. a\<lparr>ap_waiter := ''claimed'', ap_claimed := Unix now, ap_claimed_by := TrimSpace runID, ap_updated := Unix now\<rparr>) tenantID approvalID s = (r, s')"
    by fastforce
  then have "hs_clarifies s' = hs_clarifies s" using transition_clarifies by (metis snd_conv)
  then show ?thesis
    by (auto simp: ClaimApprovalDecisionReleasing_def Let_def t split: sum.split option.split bool.split prod.split dest: release_keeps)
qed

lemma approval_steps_clarifies:
  "hs_clarifies (snd (CreateApprovalRequest uuid now req s)) = hs_clarifies s"
  "hs_clarifies (snd (ExpireApprovalRequest now tenantID approvalID s)) = hs_clarifies s"
  "hs_clarifies (snd (ParkApprovalRequest now tenantID approvalID reason s)) = hs_clarifies s"
  "hs_clarifies (snd (ParkOrphanedApprovals now s)) = hs_clarifies s"
  "hs_clarifies (snd (ArchiveStaleParkedApprovals now retention s)) = hs_clarifies s"
  "hs_clarifies (MarkApprovalNotified now tenantID approvalID s) = hs_clarifies s"
  by (simp_all add: CreateApprovalRequest_def ExpireApprovalRequest_def ParkApprovalRequest_def ParkOrphanedApprovals_def
      ArchiveStaleParkedApprovals_def MarkApprovalNotified_def returning_def Let_def)

lemma consume_clarifies: "hs_clarifies (snd (ClaimApprovalResumeAuthorization now tenantID personID runID fingerprint s)) = hs_clarifies s"
  by (auto simp: ClaimApprovalResumeAuthorization_def Let_def split: list.split)

lemma recover_clarifies: "hs_clarifies (snd (EnqueueRecoveredApprovalContinuation restates ul uuid now approvalID q s)) = hs_clarifies s"
  by (auto simp: EnqueueRecoveredApprovalContinuation_def Let_def split: option.split sum.split)

lemma respond_clarifies:
  "hs_clarifies (snd (RespondApprovalRequest ul now tenantID personID approvalID decision channel input s)) = hs_clarifies s"
  by (auto simp: RespondApprovalRequest_def Let_def split: option.split sum.split)

lemma respond_parked_clarifies:
  "hs_clarifies (snd (RespondParkedApprovalAndEnqueue restates ul uuid now tenantID personID approvalID decision channel input q s)) = hs_clarifies s"
  by (auto simp: RespondParkedApprovalAndEnqueue_def Let_def split: option.split sum.split)

lemma ask_grows: "human_grows s (snd (CreateClarifyRequest uuid now question s))"
proof -
  have "clarifies_grow s (s\<lparr>hs_clarifies := hs_clarifies s @ [c]\<rparr>)" for c
    unfolding clarifies_grow_def by (intro exI [of _ "hs_clarifies s"] exI [of _ "[c]"]) (simp add: list.rel_refl clarify_evolves_def)
  then show ?thesis
    unfolding CreateClarifyRequest_def Let_def by (auto intro: clarify_growsI human_grows_same)
qed

lemma answered_grows: "human_grows s (set_clarifies (pending_clarify tenantID personID clarifyID) (answered reply channel) s)"
  by (rule clarify_growsI [OF set_clarifies_grow [OF answers.rows_evolve]]) simp

lemma answer_grows: "human_grows s (snd (AnswerClarifyRequest tenantID personID clarifyID reply channel s))"
  unfolding AnswerClarifyRequest_def Let_def
  by (auto intro: human_grows_same answered_grows split: option.split)

lemma expired_grows: "human_grows s (clarify_expired tenantID personID clarifyID s)"
proof -
  have "list_all2 clarify_evolves (hs_clarifies s) (map (\<lambda>c. if pending_clarify tenantID personID clarifyID c then c\<lparr>cl_status := ''expired''\<rparr> else c)
      (hs_clarifies s))"
    using expires.rows_evolve [where P = "\<lambda>c. clarify_keyed tenantID clarifyID c \<and> cl_person c = personID"]
    by (simp add: pending_clarify_def)
  then show ?thesis unfolding clarify_expired_def by (intro clarify_growsI set_clarifies_grow) simp_all
qed

lemma finish_grows:
  "human_grows s ((set_clarifies (pending_clarify tenantID personID clarifyID) (answered reply channel) s)\<lparr>hs_queue := t\<rparr>)"
  by (rule clarify_growsI, rule clarifies_grow_rows) (simp_all add: set_clarifies_def answers.rows_evolve)

lemma answer_pending_cases:
  "answer_pending restates ul uuid now tenant personID c reply channel q s = (r, s') \<Longrightarrow>
   s' = s \<or> s' = clarify_expired (normalizeTenant tenant) personID (cl_id c) s
   \<or> (\<exists>t. s' = (set_clarifies (pending_clarify (normalizeTenant tenant) personID (cl_id c)) (answered reply channel) s)\<lparr>hs_queue := t\<rparr>)"
  unfolding answer_pending_def Let_def
  by (fastforce split: if_splits option.splits sum.splits prod.splits)

lemma answer_resume_grows:
  "human_grows s (snd (AnswerClarifyRequestWithResume restates ul uuid now tenantID personID clarifyID reply channel q s))"
proof -
  have "human_grows s (snd (answer_pending restates ul uuid now tenant person c ans channel q s))" for tenant person c ans
    using answer_pending_cases [of restates ul uuid now tenant person c ans channel q s] expired_grows finish_grows human_grows_same
    by (metis prod.collapse)
  then show ?thesis
    unfolding AnswerClarifyRequestWithResume_def Let_def by (auto intro: human_grows_same split: option.split)
qed

lemma expire_runs_grows: "human_grows s (snd (expireRunHumanRequestsTx now tenantID personID runID s))"
proof -
  let ?own = "\<lambda>a. ap_tenant a = tenantID \<and> ap_person a = personID \<and> ap_run a = runID"
  let ?s1 = "set_approvals (\<lambda>a. ?own a \<and> ap_status a = ''pending'') (\<lambda>a. a\<lparr>ap_status := ''expired'', ap_updated := Unix now\<rparr>) s"
  let ?s2 = "set_approvals (\<lambda>a. ?own a \<and> ap_auth a \<noteq> ''consumed'') (\<lambda>a. a\<lparr>ap_auth := [], ap_expires := 0, ap_updated := Unix now\<rparr>) ?s1"
  let ?s3 = "set_clarifies (\<lambda>c. (cl_tenant c = tenantID \<and> cl_person c = personID \<and> cl_run c = runID) \<and> cl_status c = ''pending'')
    (\<lambda>c. c\<lparr>cl_status := ''expired''\<rparr>) ?s2"
  have "human_grows s ?s1" by (rule human_growsI [OF set_approvals_grow [OF expire.rows_evolve]]) simp
  moreover have "human_grows ?s1 ?s2" by (rule human_growsI [OF set_approvals_grow [OF withdraw.rows_evolve]]) simp
  moreover have "human_grows ?s2 ?s3" by (rule clarify_growsI [OF set_clarifies_grow [OF expires.rows_evolve]]) simp
  ultimately have "human_grows s ?s3" by (blast intro: human_grows_trans)
  then show ?thesis by (simp add: expireRunHumanRequestsTx_def Let_def)
qed

lemma cancel_queue_keeps [simp]:
  "hs_approvals (cancelUnboundRunContinuationsTx tenantID personID runID s) = hs_approvals s"
  "hs_clarifies (cancelUnboundRunContinuationsTx tenantID personID runID s) = hs_clarifies s"
  by (simp_all add: cancelUnboundRunContinuationsTx_def)

lemma cancel_run_keeps [simp]:
  "hs_approvals (cancelParkedRunTx tenantID personID runID s) = hs_approvals s"
  "hs_clarifies (cancelParkedRunTx tenantID personID runID s) = hs_clarifies s"
  by (simp_all add: cancelParkedRunTx_def)

lemma cancel_wait_grows: "human_grows s (snd (cancelParkedHumanTx now tenantID personID runID s))"
  using human_grows_trans [OF expire_runs_grows human_grows_same]
  by (auto simp: cancelParkedHumanTx_def intro: human_grows_same)

lemma cancel_grows: "human_grows s (snd (CancelParkedHumanRun now tenantID personID runID s))"
  using cancel_wait_grows [of s now "normalizeTenant tenantID" personID runID]
  by (auto simp: CancelParkedHumanRun_def intro: human_grows_same split: prod.splits)

lemma stop_grows: "human_grows s (stop_live_run now tenantID personID runID s)"
  unfolding stop_live_run_def
  by (rule human_grows_trans [OF human_grows_trans [OF human_grows_same expire_runs_grows] human_grows_same]) simp_all

lemma park_run_keeps:
  "human_grows s0 s0 \<Longrightarrow> human_grows s0 s \<Longrightarrow> human_grows s0 (snd (park_run tenantID personID runID s0 s))"
  using human_grows_trans [OF _ human_grows_same, of s0 s] by (simp add: park_run_def)

lemma park_run_grows: "human_grows s (snd (ParkHumanWaitRun now tenantID personID runID kind ref reason s))"
proof -
  let ?t = "normalizeTenant tenantID"
  have a: "human_grows s (set_approvals (park_guard ?t personID runID ref)
      (\<lambda>a. a\<lparr>ap_waiter := ''parked'', ap_parked := Some (Unix now), ap_reason := why, ap_updated := Unix now\<rparr>) s)" for why
    using park.rows_evolve [where P = "\<lambda>a. approval_keyed ?t ref a \<and> ap_person a = personID \<and> ap_run a = runID" and since = "\<lambda>_. Unix now"
      and why = "\<lambda>_. why" and t = "Unix now" and rows = "hs_approvals s"]
    by (intro human_growsI set_approvals_grow) (simp_all add: park_guard_def)
  have c: "human_grows s (set_clarifies (park_question ?t personID runID ref) (\<lambda>c. c\<lparr>cl_parked := Unix now\<rparr>) s)"
    by (rule clarify_growsI [OF set_clarifies_grow [OF parks.rows_evolve]]) simp
  have n: "human_grows s s" by (rule human_grows_same) simp_all
  show ?thesis unfolding ParkHumanWaitRun_def Let_def by (simp add: n park_run_keeps [OF n a] park_run_keeps [OF n c])
qed

lemma human_step_grows:
  assumes "human_step s s'"
  shows "human_grows s s'"
  using assms
proof cases
  case move
  show ?thesis unfolding move
    by (rule human_grows_trans [OF human_growsI [OF set_approvals_grow [OF move.rows_evolve]] clarify_growsI [OF set_clarifies_grow [OF moves.rows_evolve]]])
       simp_all
next
  case release
  then show ?thesis by (auto simp: ReleaseHumanWait_def dest: release_keeps intro!: human_grows_same split: sum.split)
next
  case (expire_clarify tenantID clarifyID)
  have "list_all2 clarify_evolves (hs_clarifies s) (map (\<lambda>c. if clarify_keyed tenantID clarifyID c \<and> cl_status c = ''pending''
      then c\<lparr>cl_status := ''expired''\<rparr> else c) (hs_clarifies s))" by (rule expires.rows_evolve)
  then show ?thesis unfolding expire_clarify ExpireClarifyRequest_def by (intro clarify_growsI set_clarifies_grow) simp_all
next
  case clarify_notified
  show ?thesis unfolding clarify_notified MarkClarifyNotified_def
    by (rule clarify_growsI [OF set_clarifies_grow [OF notifies.rows_evolve]]) simp
next
  case expire_orphaned
  show ?thesis unfolding expire_orphaned ExpireOrphanedClarifies_def snd_conv
    by (rule clarify_growsI [OF set_clarifies_grow [OF orphans.rows_evolve]]) simp
next
  case checkpoint
  then show ?thesis by (auto simp: SaveLoopCheckpoint_def Let_def intro: human_grows_same)
next
  case other
  then show ?thesis by (simp add: human_grows_same)
qed (auto simp: approval_steps_clarifies claim_clarifies consume_clarifies recover_clarifies respond_clarifies respond_parked_clarifies
    ask_grows answer_grows answer_resume_grows park_run_grows cancel_grows cancel_wait_grows stop_grows
    intro: human_growsI create_grows expire_grows park_grows orphans_grow claim_grows consume_grows archive_grows recovered_grows notify_grows
      respond_grows respond_parked_grows)

lemma human_steps_grow: "human_steps s s' \<Longrightarrow> human_grows s s'"
  by (induction rule: human_steps.induct) (auto intro: human_grows_same human_grows_trans dest: human_step_grows)

section \<open>Answers and authorizations\<close>

lemma approvals_grow_member:
  assumes "approvals_grow s s'" and "approval_ids_distinct s" and "a \<in> set (hs_approvals s)"
  obtains a' where "a' \<in> set (hs_approvals s')" and "approval_evolves a a'"
proof -
  from assms(1,2) obtain as new where "hs_approvals s' = as @ new" "list_all2 approval_evolves (hs_approvals s) as"
    unfolding approvals_grow_def by blast
  with assms(3) that show thesis by (fastforce simp: list_all2_conv_all_nth in_set_conv_nth)
qed

lemma steps_member:
  assumes "human_steps s s'" and "approval_ids_distinct s" and "a \<in> set (hs_approvals s)"
  obtains a' where "a' \<in> set (hs_approvals s')" and "approval_evolves a a'"
  using approvals_grow_member [OF _ assms(2,3)] human_steps_grow [OF assms(1)] that unfolding human_grows_def by blast

lemma steps_distinct: "human_steps s s' \<Longrightarrow> approval_ids_distinct s \<Longrightarrow> approval_ids_distinct s'"
  using human_steps_grow [of s s'] unfolding human_grows_def approvals_grow_def by blast

text \<open>A person's answer is final: once a request is resolved, its row stays, with the same action, owner and run, and
  nothing ever changes the decision, its scope, rule, note, channel or time.\<close>

theorem answer_is_final:
  assumes "human_steps s s'" and "approval_ids_distinct s" and "a \<in> set (hs_approvals s)" and "ap_status a \<noteq> ''pending''"
  shows "\<exists>a' \<in> set (hs_approvals s'). origin_of a' = origin_of a \<and> answer_of a' = answer_of a"
proof -
  obtain a' where "a' \<in> set (hs_approvals s')" "approval_evolves a a'" by (rule steps_member [OF assms(1-3)])
  then show ?thesis using approval_evolvesD(1,2) [of a a'] assms(4) by blast
qed

text \<open>A decision is consumed: the original call takes it while it waits, or a later call takes the authorization it left.\<close>

definition consumes :: "human_store \<Rightarrow> string \<Rightarrow> human_store \<Rightarrow> bool" where
  "consumes s ident s' = ((\<exists>now tenantID approvalID runID release a.
       ClaimApprovalDecisionReleasing now tenantID approvalID runID release s = (Inr (Some a, True), s') \<and> ap_id a = ident)
     \<or> (\<exists>now tenantID personID runID fingerprint d g.
       ClaimApprovalResumeAuthorization now tenantID personID runID fingerprint s = (Some (ident, d, g), s')))"

definition consumable :: "approval \<Rightarrow> bool" where
  "consumable a = (ap_waiter a = ''live'' \<or> ap_auth a = ''available'' \<and> ap_waiter a = ''parked'')"

definition spent :: "approval \<Rightarrow> bool" where
  "spent a = (ap_waiter a = ''claimed'' \<or> ap_auth a = ''consumed'' \<and> ap_waiter a = ''parked'' \<and> ap_status a = ''approved'')"

lemma live_claim_row:
  assumes "ClaimApprovalDecisionReleasing now tenantID approvalID runID release s = (Inr (Some a, True), s')"
  shows "\<exists>x \<in> set (hs_approvals s). ap_id x = ap_id a \<and> ap_waiter x = ''live''" and "a \<in> set (hs_approvals s')" and "ap_waiter a = ''claimed''"
proof -
  let ?g = "live_decision (normalizeTenant tenantID) (TrimSpace approvalID)"
  let ?e = "\<lambda>a. a\<lparr>ap_waiter := ''claimed'', ap_claimed := Unix now, ap_claimed_by := TrimSpace runID, ap_updated := Unix now\<rparr>"
  obtain s1 where t: "transition ?g ?e tenantID approvalID s = (Inr (Some a, True), s1)" and s': "hs_approvals s' = hs_approvals s1"
    using assms unfolding ClaimApprovalDecisionReleasing_def Let_def
    by (auto split: prod.splits sum.splits option.splits bool.splits dest: release_keeps)
  from t obtain x xs where x: "filter ?g (hs_approvals s) = x # xs" "a = ?e x" "s1 = set_approvals ?g ?e s"
    by (auto simp: transition_def returning_def split: list.splits sum.splits)
  then have m: "x \<in> set (hs_approvals s)" "?g x" by (auto dest: filter_eq_ConsD)
  then show "\<exists>x \<in> set (hs_approvals s). ap_id x = ap_id a \<and> ap_waiter x = ''live''" using x(2) by (auto simp: live_decision_def)
  show "ap_waiter a = ''claimed''" by (simp add: x(2))
  show "a \<in> set (hs_approvals s')" using m unfolding s' x(2,3) set_approvals_def by (auto simp: image_iff intro!: bexI [of _ x])
qed

lemma parked_claim_row:
  assumes "ClaimApprovalResumeAuthorization now tenantID personID runID fingerprint s = (Some (ident, d, g), s')" and "approval_ids_distinct s"
  shows "\<exists>x \<in> set (hs_approvals s). ap_id x = ident \<and> ap_auth x = ''available'' \<and> ap_waiter x = ''parked''"
    and "\<exists>y \<in> set (hs_approvals s'). ap_id y = ident \<and> spent y"
proof -
  let ?ok = "authorizes now (normalizeTenant tenantID) (TrimSpace personID) (TrimSpace fingerprint) (resume_lineage s (normalizeTenant tenantID) (TrimSpace runID))"
  let ?take = "\<lambda>x. x\<lparr>ap_auth := ''consumed'', ap_claimed := Unix now, ap_claimed_by := TrimSpace runID, ap_updated := Unix now\<rparr>"
  obtain a where a: "a \<in> set (hs_approvals s)" "ident = ap_id a" "?ok a" and s': "s' = set_approvals (\<lambda>x. x = a \<and> ?ok x) ?take s"
    using consume_cases [OF assms] by blast
  note ok = a(3) [unfolded authorizes_def]
  show "\<exists>x \<in> set (hs_approvals s). ap_id x = ident \<and> ap_auth x = ''available'' \<and> ap_waiter x = ''parked''"
    using a(1,2) ok by blast
  have "?take a \<in> set (hs_approvals s')" unfolding s' set_approvals_def using a(1,3) by (auto simp: image_iff intro!: bexI [of _ a])
  moreover have "spent (?take a)" using ok by (simp add: spent_def)
  ultimately show "\<exists>y \<in> set (hs_approvals s'). ap_id y = ident \<and> spent y" using a(2) by (intro bexI [of _ "?take a"]) simp_all
qed

lemma consumes_rows:
  assumes "consumes s ident s'" and "approval_ids_distinct s"
  shows "\<exists>x \<in> set (hs_approvals s). ap_id x = ident \<and> consumable x" and "\<exists>y \<in> set (hs_approvals s'). ap_id y = ident \<and> spent y"
proof -
  have "(\<exists>x \<in> set (hs_approvals s). ap_id x = ident \<and> consumable x) \<and> (\<exists>y \<in> set (hs_approvals s'). ap_id y = ident \<and> spent y)"
    using assms(1) unfolding consumes_def
  proof (elim disjE exE conjE)
    fix now tenantID approvalID runID release a
    assume c: "ClaimApprovalDecisionReleasing now tenantID approvalID runID release s = (Inr (Some a, True), s')" "ap_id a = ident"
    from live_claim_row [OF c(1)] c(2) show ?thesis unfolding consumable_def spent_def by blast
  next
    fix now tenantID personID runID fingerprint d g
    assume "ClaimApprovalResumeAuthorization now tenantID personID runID fingerprint s = (Some (ident, d, g), s')"
    from parked_claim_row [OF this assms(2)] show ?thesis unfolding consumable_def by blast
  qed
  then show "\<exists>x \<in> set (hs_approvals s). ap_id x = ident \<and> consumable x" and "\<exists>y \<in> set (hs_approvals s'). ap_id y = ident \<and> spent y"
    by blast+
qed

lemma consumes_step: "consumes s ident s' \<Longrightarrow> human_step s s'"
  unfolding consumes_def by (metis human_step.claim human_step.consume snd_conv)

lemma spent_stays:
  assumes "approval_evolves a b" and "spent a"
  shows "\<not> consumable b"
  using assms(2) unfolding spent_def
proof
  assume "ap_waiter a = ''claimed''"
  then have "ap_waiter b = ''claimed''" using approval_evolvesD(3) [OF assms(1)] by simp
  then show ?thesis by (simp add: consumable_def)
next
  assume a: "ap_auth a = ''consumed'' \<and> ap_waiter a = ''parked'' \<and> ap_status a = ''approved''"
  then have "authorized_by_person a" by (simp add: authorized_by_person_def)
  with a have "ap_auth b = ''consumed''" "ap_waiter b = ''parked''"
    using approval_evolvesD(3,5) [OF assms(1)] by simp_all
  then show ?thesis by (simp add: consumable_def)
qed

lemma never_consumed_again:
  assumes "human_steps s s'" and "approval_ids_distinct s" and "a \<in> set (hs_approvals s)" and "\<And>b. approval_evolves a b \<Longrightarrow> \<not> consumable b"
  shows "\<not> consumes s' (ap_id a) s''"
proof
  assume "consumes s' (ap_id a) s''"
  from consumes_rows(1) [OF this steps_distinct [OF assms(1,2)]] obtain x where
    x: "x \<in> set (hs_approvals s')" "ap_id x = ap_id a" "consumable x" by blast
  obtain b where b: "b \<in> set (hs_approvals s')" "approval_evolves a b" by (rule steps_member [OF assms(1-3)])
  have "x = b" using distinct_row [of ap_id "hs_approvals s'" x b] steps_distinct [OF assms(1,2)] x b evolves_id [OF b(2)]
    by (simp add: approval_ids_distinct_def)
  with assms(4) [OF b(2)] x(3) show False by simp
qed

text \<open>C10. A decision is used at most once: after the waiting call has taken it, or a later call its authorization, no call ever
  takes either of them again, in any later store.\<close>

theorem decision_consumed_once:
  assumes "consumes s ident s'" and "approval_ids_distinct s" and "human_steps s' s''"
  shows "\<not> consumes s'' ident s3"
proof -
  have ids: "approval_ids_distinct s'"
    using steps_distinct [OF human_steps.step [OF human_steps.refl consumes_step [OF assms(1)]] assms(2)] .
  obtain y where y: "y \<in> set (hs_approvals s')" "ap_id y = ident" "spent y" using consumes_rows(2) [OF assms(1,2)] by blast
  from never_consumed_again [OF assms(3) ids y(1) spent_stays [OF _ y(3)]] y(2) show ?thesis by simp
qed


text \<open>No authorization without a person: in every reachable store, a request whose authorization is available or used was
  approved by its person while it was parked.\<close>

theorem authorization_from_person:
  assumes "human_steps s s'" and "hs_approvals s = []" and "a \<in> set (hs_approvals s')" and "ap_auth a \<in> {''available'', ''consumed''}"
  shows "ap_status a = ''approved'' \<and> ap_waiter a = ''parked''"
proof -
  have "approval_ids_distinct s" using assms(2) by (simp add: approval_ids_distinct_def)
  with human_steps_grow [OF assms(1)] assms(2) have "list_all authorized_by_person (hs_approvals s')"
    unfolding human_grows_def approvals_grow_def by auto
  with assms(3,4) show ?thesis unfolding list_all_iff authorized_by_person_def by blast
qed

section \<open>Continuations\<close>

lemma insert_continuation_cases:
  assumes "insert_continuation row t = Inr (queueID, t')"
  shows "(t' = t \<and> (\<exists>r \<in> set t. t_id r = queueID \<and> t_tenant r = t_tenant row \<and> t_key r = t_key row)) \<or> (t' = t @ [row] \<and> queueID = t_id row)"
  using assms unfolding insert_continuation_def by (auto simp: find_Some_iff split: option.splits if_splits)



section \<open>Stops and parking\<close>

definition owned_by_run :: "string \<Rightarrow> string \<Rightarrow> string \<Rightarrow> approval \<Rightarrow> bool" where
  "owned_by_run tenantID personID runID a = (ap_tenant a = tenantID \<and> ap_person a = personID \<and> ap_run a = runID)"

lemma map_elemE: "y \<in> set (map f xs) \<Longrightarrow> (\<And>x. x \<in> set xs \<Longrightarrow> y = f x \<Longrightarrow> thesis) \<Longrightarrow> thesis"
  by auto

lemma set_rows:
  "hs_approvals (set_approvals guard effect s) = map (\<lambda>a. if guard a then effect a else a) (hs_approvals s)"
  "hs_clarifies (set_clarifies g e s) = map (\<lambda>c. if g c then e c else c) (hs_clarifies s)"
  by (simp_all add: set_approvals_def set_clarifies_def)

lemma updated_some:
  assumes "filter guard xs \<noteq> []" and "\<And>x. guard x \<Longrightarrow> Q (effect x)"
  shows "\<exists>y \<in> set (map (\<lambda>r. if guard r then effect r else r) xs). Q y"
proof -
  from assms(1) obtain x where "x \<in> set xs" "guard x" by (auto simp: filter_empty_conv)
  then show ?thesis using assms(2) updated_member [of x xs guard effect] by blast
qed

lemma expired_requests:
  assumes "a \<in> set (hs_approvals (snd (expireRunHumanRequestsTx now tenantID personID runID s)))" and "owned_by_run tenantID personID runID a"
  shows "ap_status a \<noteq> ''pending'' \<and> ap_auth a \<noteq> ''available''"
proof -
  let ?own = "\<lambda>a. ap_tenant a = tenantID \<and> ap_person a = personID \<and> ap_run a = runID"
  let ?f = "\<lambda>a. if ?own a \<and> ap_status a = ''pending'' then a\<lparr>ap_status := ''expired'', ap_updated := Unix now\<rparr> else a"
  let ?g = "\<lambda>a. if ?own a \<and> ap_auth a \<noteq> ''consumed'' then a\<lparr>ap_auth := [], ap_expires := 0, ap_updated := Unix now\<rparr> else a"
  have rows: "hs_approvals (snd (expireRunHumanRequestsTx now tenantID personID runID s)) = map (\<lambda>a. ?g (?f a)) (hs_approvals s)"
    by (simp add: expireRunHumanRequestsTx_def Let_def set_approvals_def set_clarifies_def)
  from assms(1) [unfolded rows] obtain x where x: "a = ?g (?f x)" by (rule map_elemE)
  have "?own (?f x)" using assms(2) unfolding x owned_by_run_def by (simp split: if_splits)
  moreover have "ap_status (?f x) \<noteq> ''pending''" using \<open>?own (?f x)\<close> by (simp split: if_splits)
  ultimately show ?thesis unfolding x by simp
qed

lemma expired_questions:
  assumes "c \<in> set (hs_clarifies (snd (expireRunHumanRequestsTx now tenantID personID runID s)))"
    and "cl_tenant c = tenantID" and "cl_person c = personID" and "cl_run c = runID"
  shows "cl_status c \<noteq> ''pending''"
proof -
  let ?f = "\<lambda>c. if cl_tenant c = tenantID \<and> cl_person c = personID \<and> cl_run c = runID \<and> cl_status c = ''pending'' then c\<lparr>cl_status := ''expired''\<rparr> else c"
  have rows: "hs_clarifies (snd (expireRunHumanRequestsTx now tenantID personID runID s)) = map ?f (hs_clarifies s)"
    by (simp add: expireRunHumanRequestsTx_def Let_def set_approvals_def set_clarifies_def)
  from assms(1) [unfolded rows] obtain x where "c = ?f x" by (rule map_elemE)
  with assms(2-4) show ?thesis by (simp split: if_splits)
qed

lemma no_unbound_left:
  assumes "q \<in> set (hs_queue (cancelUnboundRunContinuationsTx tenantID personID runID s))"
  shows "\<not> unbound_continuation (cancelUnboundRunContinuationsTx tenantID personID runID s) tenantID personID runID q"
proof -
  let ?g = "unbound_continuation s tenantID personID runID" and ?e = "\<lambda>q. q\<lparr>t_status := QueueStatusCancelled, t_token := [], t_lease := 0\<rparr>"
  have rows: "hs_queue (cancelUnboundRunContinuationsTx tenantID personID runID s) = map (\<lambda>q. if ?g q then ?e q else q) (hs_queue s)"
    by (simp add: cancelUnboundRunContinuationsTx_def)
  from assms [unfolded rows] obtain x where x: "q = (if ?g x then ?e x else x)" by (rule map_elemE)
  have same: "unbound_continuation (cancelUnboundRunContinuationsTx tenantID personID runID s) tenantID personID runID y = ?g y" for y
    by (simp add: unbound_continuation_def)
  have "t_status (?e x) \<notin> {QueueStatusQueued, QueueStatusStarted}"
    by (simp add: QueueStatusQueued_def QueueStatusStarted_def QueueStatusCancelled_def)
  then have "\<not> ?g (?e x)" unfolding unbound_continuation_def by blast
  then show ?thesis unfolding x same by simp
qed

text \<open>A stop of a parked run is final: its requests and questions are closed, its run is cancelled and no unstarted
  continuation of it is left in the queue; and whatever follows, no request of it that was parked is ever used again to
  authorize a call, nor answered.\<close>

theorem cancelled_wait_final:
  assumes "CancelParkedHumanRun now tenantID personID runID s = (Inr True, s')" and "approval_ids_distinct s"
  shows "(\<forall>a \<in> set (hs_approvals s'). owned_by_run (normalizeTenant tenantID) personID runID a \<longrightarrow> ap_status a \<noteq> ''pending'' \<and> ap_auth a \<noteq> ''available'')
    \<and> (\<forall>c \<in> set (hs_clarifies s'). cl_tenant c = normalizeTenant tenantID \<longrightarrow> cl_person c = personID \<longrightarrow> cl_run c = runID \<longrightarrow> cl_status c \<noteq> ''pending'')
    \<and> (\<forall>r \<in> set (hs_runs s'). run_tenant r = normalizeTenant tenantID \<longrightarrow> run_person r = personID \<longrightarrow> run_id r = runID \<longrightarrow> run_status r = ''cancelled'')
    \<and> (\<forall>q \<in> set (hs_queue s'). \<not> unbound_continuation s' (normalizeTenant tenantID) personID runID q)
    \<and> (\<forall>s'' s3. \<forall>a \<in> set (hs_approvals s'). human_steps s' s'' \<longrightarrow> owned_by_run (normalizeTenant tenantID) personID runID a \<longrightarrow> ap_waiter a = ''parked''
         \<longrightarrow> \<not> consumes s'' (ap_id a) s3 \<and> (\<exists>a' \<in> set (hs_approvals s''). ap_id a' = ap_id a \<and> answer_of a' = answer_of a))"
proof -
  let ?t = "normalizeTenant tenantID"
  let ?s1 = "snd (expireRunHumanRequestsTx now ?t personID runID s)"
  have s': "s' = cancelParkedRunTx ?t personID runID ?s1"
    using assms(1) unfolding CancelParkedHumanRun_def cancelParkedHumanTx_def by (auto split: if_splits)
  have ids: "approval_ids_distinct s'"
    using steps_distinct [OF human_steps.step [OF human_steps.refl human_step.cancel_parked] assms(2)] assms(1) by (metis snd_conv)
  have closed: "ap_status a \<noteq> ''pending''" "ap_auth a \<noteq> ''available''"
    if "a \<in> set (hs_approvals s')" "owned_by_run ?t personID runID a" for a
    using expired_requests [of a now ?t personID runID s] that by (simp_all add: s')
  have never: "\<not> consumes s'' (ap_id a) s3"
    if "a \<in> set (hs_approvals s')" "human_steps s' s''" "owned_by_run ?t personID runID a" "ap_waiter a = ''parked''" for a s'' s3
  proof (rule never_consumed_again [OF that(2) ids that(1)])
    fix b assume b: "approval_evolves a b"
    have "ap_waiter b = ''parked''" using approval_evolvesD(3) [OF b] that(4) by simp
    moreover have "ap_auth b \<noteq> ''available''" using approval_evolvesD(6) [OF b] closed [OF that(1,3)] that(4) by auto
    ultimately show "\<not> consumable b" by (simp add: consumable_def)
  qed
  have kept: "\<exists>a' \<in> set (hs_approvals s''). ap_id a' = ap_id a \<and> answer_of a' = answer_of a"
    if a: "a \<in> set (hs_approvals s')" "human_steps s' s''" "owned_by_run ?t personID runID a" for a s''
  proof -
    obtain a' where "a' \<in> set (hs_approvals s'')" "approval_evolves a a'" by (rule steps_member [OF a(2) ids a(1)])
    then show ?thesis using approval_evolvesD(2) [of a a'] closed(1) [OF a(1,3)] evolves_id by blast
  qed
  have "\<forall>c \<in> set (hs_clarifies s'). cl_tenant c = ?t \<longrightarrow> cl_person c = personID \<longrightarrow> cl_run c = runID \<longrightarrow> cl_status c \<noteq> ''pending''"
    using expired_questions [of _ now ?t personID runID s] by (simp add: s')
  moreover have "\<forall>r \<in> set (hs_runs s'). run_tenant r = ?t \<longrightarrow> run_person r = personID \<longrightarrow> run_id r = runID \<longrightarrow> run_status r = ''cancelled''"
  proof (intro ballI impI)
    let ?f = "\<lambda>r. if run_tenant r = ?t \<and> run_person r = personID \<and> run_id r = runID then r\<lparr>run_status := ''cancelled'', hr_cancel := True\<rparr> else r"
    have runs: "hs_runs s' = map ?f (hs_runs ?s1)" by (simp add: s' cancelParkedRunTx_def cancelUnboundRunContinuationsTx_def)
    fix r assume r: "r \<in> set (hs_runs s')" "run_tenant r = ?t" "run_person r = personID" "run_id r = runID"
    from r(1) [unfolded runs] obtain x where "r = ?f x" by (rule map_elemE)
    with r(2-4) show "run_status r = ''cancelled''" by (simp split: if_splits)
  qed
  moreover have "\<forall>q \<in> set (hs_queue s'). \<not> unbound_continuation s' ?t personID runID q"
    unfolding s' cancelParkedRunTx_def using no_unbound_left by blast
  ultimately show ?thesis using closed never kept by (intro conjI ballI allI impI) simp_all
qed

lemma parked_run:
  assumes "park_run tenantID personID runID s0 s = (r, s')"
  shows "r \<noteq> Inr True \<and> s' = s0 \<or> r = Inr True \<and> hs_approvals s' = hs_approvals s \<and> hs_clarifies s' = hs_clarifies s
    \<and> (\<exists>x \<in> set (hs_runs s'). run_tenant x = tenantID \<and> run_person x = personID \<and> run_id x = runID \<and> run_status x = ''waiting_user'')"
proof (cases "filter (running_here tenantID personID runID) (hs_runs s) = []")
  case False
  have "\<exists>x \<in> set (map (\<lambda>r. if running_here tenantID personID runID r then r\<lparr>run_status := ''waiting_user''\<rparr> else r) (hs_runs s)).
      run_tenant x = tenantID \<and> run_person x = personID \<and> run_id x = runID \<and> run_status x = ''waiting_user''"
    by (rule updated_some [OF False]) (simp add: running_here_def)
  with assms False show ?thesis by (auto simp: park_run_def)
qed (use assms in \<open>auto simp: park_run_def\<close>)

text \<open>Parking is atomic: a park either moves the pending request and its running run together, the request to parked and the run
  to waiting for the person, or changes nothing.\<close>

theorem park_moves_both:
  assumes "ParkHumanWaitRun now tenantID personID runID kind ref reason s = (r, s')"
  shows "if r = Inr True
    then (\<exists>x \<in> set (hs_runs s'). run_tenant x = normalizeTenant tenantID \<and> run_person x = personID \<and> run_id x = runID \<and> run_status x = ''waiting_user'')
      \<and> (kind = LoopCheckpointWaitApproval \<and> (\<exists>a \<in> set (hs_approvals s'). approval_keyed (normalizeTenant tenantID) ref a \<and> ap_run a = runID
             \<and> ap_person a = personID \<and> ap_status a = ''pending'' \<and> ap_waiter a = ''parked'')
         \<or> kind = LoopCheckpointWaitClarification \<and> (\<exists>c \<in> set (hs_clarifies s'). pending_clarify (normalizeTenant tenantID) personID ref c
             \<and> cl_run c = runID \<and> cl_parked c = Unix now))
    else s' = s"
proof -
  let ?t = "normalizeTenant tenantID"
  let ?park = "\<lambda>c :: clarification. c\<lparr>cl_parked := Unix now\<rparr>"
  let ?wait = "\<lambda>a. a\<lparr>ap_waiter := ''parked'', ap_parked := Some (Unix now),
    ap_reason := (if TrimSpace reason = [] then HumanWaitParkGrace else TrimSpace reason), ap_updated := Unix now\<rparr> :: approval"
  have request: "\<exists>a \<in> set (hs_approvals (set_approvals (park_guard ?t personID runID ref) ?wait s)).
      approval_keyed ?t ref a \<and> ap_run a = runID \<and> ap_person a = personID \<and> ap_status a = ''pending'' \<and> ap_waiter a = ''parked''"
    if "filter (park_guard ?t personID runID ref) (hs_approvals s) \<noteq> []"
    unfolding set_rows by (rule updated_some [OF that]) (simp add: park_guard_def approval_keyed_def)
  have question: "\<exists>c \<in> set (hs_clarifies (set_clarifies (park_question ?t personID runID ref) ?park s)).
      pending_clarify ?t personID ref c \<and> cl_run c = runID \<and> cl_parked c = Unix now"
    if "filter (park_question ?t personID runID ref) (hs_clarifies s) \<noteq> []"
    unfolding set_rows by (rule updated_some [OF that]) (simp add: park_question_def pending_clarify_def clarify_keyed_def)
  consider (no) "s' = s" "r \<noteq> Inr True"
    | (approval) "kind = LoopCheckpointWaitApproval" "filter (park_guard ?t personID runID ref) (hs_approvals s) \<noteq> []"
        "park_run ?t personID runID s (set_approvals (park_guard ?t personID runID ref) ?wait s) = (r, s')"
    | (clarification) "kind = LoopCheckpointWaitClarification" "filter (park_question ?t personID runID ref) (hs_clarifies s) \<noteq> []"
        "park_run ?t personID runID s (set_clarifies (park_question ?t personID runID ref) ?park s) = (r, s')"
    using assms unfolding ParkHumanWaitRun_def Let_def by (auto split: if_split_asm)
  then show ?thesis
  proof cases
    case approval
    show ?thesis using parked_run [OF approval(3)] request [OF approval(2)] approval(1) by auto
  next
    case clarification
    show ?thesis using parked_run [OF clarification(3)] question [OF clarification(2)] clarification(1) by auto
  qed simp
qed

section \<open>Questions and their answers\<close>

lemma pending_found:
  assumes "find (clarify_keyed tenantID ident) (hs_clarifies s) = Some c" and "cl_person c = personID" and "cl_status c = ''pending''"
  shows "cl_id c = ident" and "find (clarify_keyed tenantID ident) (hs_clarifies (set_clarifies (pending_clarify tenantID personID ident)
    (answered reply channel) s)) = Some (answered reply channel c)"
proof -
  show "cl_id c = ident" using assms(1) by (auto simp: find_Some_iff clarify_keyed_def)
  let ?f = "\<lambda>x. if pending_clarify tenantID personID ident x then answered reply channel x else x"
  have "clarify_keyed tenantID ident (?f x) = clarify_keyed tenantID ident x" for x by (simp add: clarify_keyed_def answered_def)
  moreover have "pending_clarify tenantID personID ident c" using assms by (auto simp: find_Some_iff pending_clarify_def)
  ultimately show "find (clarify_keyed tenantID ident) (hs_clarifies (set_clarifies (pending_clarify tenantID personID ident)
      (answered reply channel) s)) = Some (answered reply channel c)"
    unfolding set_rows using find_map_same [of "clarify_keyed tenantID ident" ?f] assms(1) by simp
qed

lemma answer_pending_result:
  assumes "answer_pending restates ul uuid now tenant personID c reply channel q s = (Inr (r, queueID), s')"
    and "find (clarify_keyed (normalizeTenant tenant) (cl_id c)) (hs_clarifies s) = Some c" and "cl_person c = personID" and "cl_status c = ''pending''"
  shows "r = Some (answered reply channel c)
    \<and> (case queueID of
         None \<Rightarrow> hs_queue s' = hs_queue s \<and> (cl_run c = [] \<or> (\<exists>o'. human_run_of s (normalizeTenant tenant) (cl_run c) = Some o' \<and> run_status o' = ''running''))
       | Some i \<Rightarrow> \<exists>o'. human_run_of s (normalizeTenant tenant) (cl_run c) = Some o' \<and> run_person o' = personID \<and> run_thread o' = cl_thread c
           \<and> resumableRunStatus (run_status o') \<and> \<not> resumed s (normalizeTenant tenant) (cl_run c) \<and> hr_resumed_by o' = []
           \<and> (hs_queue s' = hs_queue s \<and> (\<exists>row \<in> set (hs_queue s). t_id row = i)
              \<or> (\<exists>row. hs_queue s' = hs_queue s @ [row] \<and> t_id row = i \<and> t_content row = reply \<and> t_clarify row = cl_id c \<and> t_reply_to row = cl_run c
                   \<and> t_thread row = cl_thread c \<and> t_person row = personID \<and> t_admission row = hr_admission o')))"
proof -
  let ?t = "normalizeTenant tenant"
  let ?ans = "set_clarifies (pending_clarify ?t personID (cl_id c)) (answered reply channel) s"
  have found: "find (clarify_keyed ?t (cl_id c)) (hs_clarifies ?ans) = Some (answered reply channel c)"
    by (rule pending_found(2) [OF assms(2-4)])
  show ?thesis
  proof (cases "cl_run c = [] \<or> (\<exists>o'. human_run_of s ?t (cl_run c) = Some o' \<and> run_status o' = ''running'')")
    case True
    then show ?thesis using assms(1) found unfolding answer_pending_def Let_def by (auto split: option.splits if_splits)
  next
    case False
    then obtain o' admission row i t where o': "human_run_of s ?t (cl_run c) = Some o'" "run_person o' = personID" "run_thread o' = cl_thread c"
        "resumableRunStatus (run_status o')" "\<not> resumed s ?t (cl_run c)" "hr_resumed_by o' = []"
      and adm: "parkedRunAdmissionJSON restates (n_admission q) (hr_admission o') = Inr admission"
      and row: "row = (new_row ul uuid now (q\<lparr>n_tenant := tenant, n_person := personID\<rparr>) admission)
         \<lparr>t_thread := cl_thread c, t_content := reply, t_clarify := cl_id c, t_approval := [], t_reply_to := cl_run c,
          t_key := (if TrimSpace (n_key q) = [] then ''clarify-resume:'' @ cl_id c else n_key q),
          t_not_before := plain_not_before (n_not_before q), t_attachments := ''[]''\<rparr>"
      and ins: "insert_continuation row (hs_queue s) = Inr (i, t)" and res: "queueID = Some i" "s' = ?ans\<lparr>hs_queue := t\<rparr>"
        "r = find (clarify_keyed ?t (cl_id c)) (hs_clarifies ?ans)"
      using assms(1) unfolding answer_pending_def Let_def by (simp split: option.splits sum.splits prod.splits if_splits)
    have "admission = hr_admission o'" using adm by (auto simp: parkedRunAdmissionJSON_def split: option.splits if_splits)
    moreover have "t_person row = personID" "t_admission row = admission" by (simp_all add: row new_row_def Let_def)
    ultimately show ?thesis
      using insert_continuation_cases [OF ins] o' res found by (auto simp: row)
  qed
qed

text \<open>Answering a question resumes exactly its run: the person's answer is recorded on the pending question; a live run finds it there,
  and for a parked run, resumable and resumed by nobody, one continuation that carries the answer to that run
  with its own admission is queued in the same transaction.\<close>

theorem clarify_answer_continues:
  assumes "AnswerClarifyRequestWithResume restates ul uuid now tenant person clarify reply channel q s = (Inr (r, queueID), s')"
  shows "\<exists>c. find (clarify_keyed (normalizeTenant tenant) (TrimSpace clarify)) (hs_clarifies s) = Some c \<and> cl_person c = TrimSpace person
    \<and> cl_status c = ''pending'' \<and> r = Some (answered (ResolveClarifyOption (TrimSpace reply) (cl_options c)) channel c)
    \<and> (case queueID of
         None \<Rightarrow> hs_queue s' = hs_queue s \<and> (cl_run c = [] \<or> (\<exists>o'. human_run_of s (normalizeTenant tenant) (cl_run c) = Some o' \<and> run_status o' = ''running''))
       | Some i \<Rightarrow> \<exists>o'. human_run_of s (normalizeTenant tenant) (cl_run c) = Some o' \<and> run_person o' = TrimSpace person \<and> run_thread o' = cl_thread c
           \<and> resumableRunStatus (run_status o') \<and> \<not> resumed s (normalizeTenant tenant) (cl_run c) \<and> hr_resumed_by o' = []
           \<and> (hs_queue s' = hs_queue s \<and> (\<exists>row \<in> set (hs_queue s). t_id row = i)
              \<or> (\<exists>row. hs_queue s' = hs_queue s @ [row] \<and> t_id row = i \<and> t_content row = ResolveClarifyOption (TrimSpace reply) (cl_options c)
                   \<and> t_clarify row = cl_id c \<and> t_reply_to row = cl_run c
                   \<and> t_thread row = cl_thread c \<and> t_person row = TrimSpace person \<and> t_admission row = hr_admission o')))"
proof -
  obtain c where c: "find (clarify_keyed (normalizeTenant tenant) (TrimSpace clarify)) (hs_clarifies s) = Some c" "cl_person c = TrimSpace person"
      "cl_status c = ''pending''"
    and a: "answer_pending restates ul uuid now tenant (TrimSpace person) c (ResolveClarifyOption (TrimSpace reply) (cl_options c)) channel q s = (Inr (r, queueID), s')"
    using assms unfolding AnswerClarifyRequestWithResume_def Let_def by (auto split: option.splits if_splits)
  have "cl_id c = TrimSpace clarify" using c(1) by (auto simp: find_Some_iff clarify_keyed_def)
  with answer_pending_result [OF a _ c(2,3)] c show ?thesis by auto
qed

lemma digit_byte: "d < 10 \<Longrightarrow> byte (char_of (48 + d)) = 48 + d"
  by (simp add: byte_def)

lemma FormatInt_digits: "FormatInt n \<noteq> [] \<and> list_all decimal_digit (FormatInt n)"
proof (induction n rule: FormatInt.induct)
  case (1 n)
  then show ?case by (cases "n < 10") (auto simp: FormatInt.simps [of n] decimal_digit_def digit_byte)
qed

lemma chunks_digits: "list_all decimal_digit t \<Longrightarrow> chunks t = map (\<lambda>c. (Some (byte c), [c])) t"
  by (induction t) (auto simp: decimal_digit_def chunks_ascii)

lemma TrimSpace_digits: "list_all decimal_digit t \<Longrightarrow> TrimSpace t = t"
proof -
  assume t: "list_all decimal_digit t"
  then have "\<forall>c \<in> set t. \<not> space_chunk (Some (byte c), [c])" by (auto simp: list_all_iff decimal_digit_def is_space_def)
  then have "\<forall>x \<in> set (chunks t). \<not> space_chunk x" using chunks_digits [OF t] by auto
  moreover have keep: "dropWhile space_chunk xs = xs" if "\<forall>x \<in> set xs. \<not> space_chunk x" for xs using that by (cases xs) auto
  ultimately have "dropWhile space_chunk (chunks t) = chunks t" "dropWhile space_chunk (rev (chunks t)) = rev (chunks t)"
    using keep [of "rev (chunks t)"] by simp_all
  then show ?thesis by (simp add: TrimSpace_def)
qed

text \<open>Numbered answers name their option: answering with the number of an option records that option's text, and every other
  answer is recorded as it was typed, without surrounding space.\<close>

theorem ResolveClarifyOption_ordinal:
  "(1 \<le> n \<and> n \<le> length (ClarifyChoices options) \<longrightarrow> ResolveClarifyOption (FormatInt n) options = ClarifyChoices options ! (n - 1))
   \<and> (ResolveClarifyOption answer options \<in> set (ClarifyChoices options) \<or> ResolveClarifyOption answer options = TrimSpace answer
      \<or> TrimSpace answer = [] \<and> ResolveClarifyOption answer options = answer)"
proof (intro conjI impI)
  assume n: "1 \<le> n \<and> n \<le> length (ClarifyChoices options)"
  have digits: "list_all decimal_digit (FormatInt n)" "FormatInt n \<noteq> []" using FormatInt_digits by simp_all
  then have "hd (FormatInt n) \<noteq> CHR ''+'' \<and> hd (FormatInt n) \<noteq> CHR ''-''"
    by (cases "FormatInt n") (auto simp: decimal_digit_def byte_def)
  then have "Atoi (FormatInt n) = Some (int n)" using digits by (simp add: Atoi_def Let_def decimal_value_FormatInt)
  then show "ResolveClarifyOption (FormatInt n) options = ClarifyChoices options ! (n - 1)"
    using n digits TrimSpace_digits [OF digits(1)] by (simp add: ResolveClarifyOption_def Let_def nat_diff_distrib)
next
  have "choices ! nat (idx - 1) \<in> set choices" if "1 \<le> idx" "idx \<le> int (length choices)" for idx and choices :: "string list"
    using that by (intro nth_mem) linarith
  then show "ResolveClarifyOption answer options \<in> set (ClarifyChoices options) \<or> ResolveClarifyOption answer options = TrimSpace answer
      \<or> TrimSpace answer = [] \<and> ResolveClarifyOption answer options = answer"
    by (auto simp: ResolveClarifyOption_def Let_def split: option.split)
qed

section \<open>Examples\<close>

definition sample_human_run :: "string \<Rightarrow> string \<Rightarrow> human_run" where
  "sample_human_run ident status = \<lparr>run_tenant = ''default'', run_id = ident, run_person = ''p'', run_status = status, run_resumes = [],
     run_thread = ''t'', hr_resumed_by = [], hr_admission = ''m'', hr_cancel = False, hr_dismissed = 0\<rparr>"

definition sample_approval :: "string \<Rightarrow> string \<Rightarrow> string \<Rightarrow> string \<Rightarrow> approval" where
  "sample_approval run status waiter auth = \<lparr>ap_id = ''a'', ap_tenant = ''default'', ap_person = ''p'', ap_thread = ''t'', ap_run = run,
     ap_action = ''tool_call'', ap_payload = \<lparr>pl_tool = [], pl_call = []\<rparr>, ap_status = status, ap_requested = [], ap_channel = [], ap_scope = [],
     ap_decision = [], ap_grant = [], ap_note = [], ap_recorded = 0, ap_waiter = waiter, ap_parked = None, ap_reason = [], ap_claimed = 0,
     ap_claimed_by = [], ap_queue = [], ap_fingerprint = ''f'', ap_auth = auth, ap_expires = 9, ap_notified = None, ap_created = 0,
     ap_updated = 0\<rparr>"

definition sample_question :: clarification where
  "sample_question = \<lparr>cl_id = ''c'', cl_tenant = ''default'', cl_person = ''p'', cl_thread = ''t'', cl_run = ''r'', cl_question = ''q'',
     cl_options = [''x'', ''g''], cl_status = ''pending'', cl_answer = [], cl_channel = [], cl_parked = 0, cl_notified = None, cl_created = 0\<rparr>"

definition sample_checkpoint :: checkpoint where
  "sample_checkpoint = \<lparr>cp_tenant = ''default'', cp_person = ''p'', cp_thread = ''t'', cp_run = ''r'', cp_version = 1, cp_recovery = [],
     cp_iteration = 0, cp_outcome = ''await_human'', cp_detail = [], cp_snapshot = [], cp_kind = LoopCheckpointWaitApproval, cp_ref = ''a'',
     cp_call = ''k''\<rparr>"

definition sample_humans :: "approval list \<Rightarrow> string \<Rightarrow> human_store" where
  "sample_humans as status = \<lparr>hs_approvals = as, hs_clarifies = [sample_question], hs_checkpoints = [sample_checkpoint],
     hs_runs = [sample_human_run ''r'' status], hs_queue = []\<rparr>"

definition human_task :: new_task where
  "human_task = \<lparr>n_id = ''n'', n_tenant = [], n_person = ''p'', n_channel = [], n_platform = [], n_user = [], n_content = ''x'', n_approval_mode = [],
     n_workspace = [], n_roots = [], n_thread = ''t'', n_reply_to = [], n_approval = [], n_clarify = [], n_key = ''k'', n_class = [], n_priority = 1,
     n_not_before = None, n_attachments = [], n_admission = Some []\<rparr>"

definition human_input :: ApprovalDecisionInput where
  "human_input = \<lparr>di_scope = [], di_decision = ''d'', di_grant = [], di_note = []\<rparr>"

lemmas human_samples = sample_human_run_def sample_approval_def sample_question_def sample_checkpoint_def sample_humans_def

lemma human_trims: "TrimSpace ''p'' = ''p''" "TrimSpace ''r'' = ''r''" "TrimSpace ''f'' = ''f''" "TrimSpace ''a'' = ''a''" "TrimSpace ''t'' = ''t''"
    "TrimSpace ''x'' = ''x''" "TrimSpace ''k'' = ''k''" "TrimSpace ''c'' = ''c''" "TrimSpace ''z'' = ''z''" "TrimSpace ''d'' = ''d''"
    "TrimSpace ''ok'' = ''ok''" "normalizeTenant [] = ''default''" "normalizeTenant ''default'' = ''default''" "Unix 0 = 0"
    "ToLower id ''ok'' = ''ok''"
  by (simp_all add: TrimSpace_def chunks_ascii byte_def is_space_def normalizeTenant_def normalizeName_def DefaultTenantID_def Unix_def second_def
      ToLower_def runes_def of_runes_def lower_rune_def
      encode_rune_def char_of_def bit_0)

abbreviation sample_authorized :: human_store where
  "sample_authorized \<equiv> sample_humans [sample_approval ''r'' ''approved'' ''parked'' ''available''] ''interrupted''"

lemma sample_authorized_distinct: "approval_ids_distinct sample_authorized"
  by (simp add: approval_ids_distinct_def sample_humans_def)

lemma sample_consumed:
  "\<exists>s'. ClaimApprovalResumeAuthorization 0 [] ''p'' ''r'' ''f'' sample_authorized = (Some (''a'', [], []), s')"
  by (simp add: ClaimApprovalResumeAuthorization_def human_trims Let_def)
     (simp add: authorizes_def resume_lineage_def human_run_of_def human_samples human_trims)

theorem answer_is_final_witness:
  "\<exists>a' \<in> set (hs_approvals (MarkApprovalNotified 0 [] ''a'' sample_authorized)).
     answer_of a' = answer_of (sample_approval ''r'' ''approved'' ''parked'' ''available'')"
proof -
  have "human_steps sample_authorized (MarkApprovalNotified 0 [] ''a'' sample_authorized)"
    by (rule human_steps.step [OF human_steps.refl human_step.notified])
  from answer_is_final [OF this sample_authorized_distinct, of "sample_approval ''r'' ''approved'' ''parked'' ''available''"]
  show ?thesis by (auto simp: sample_humans_def sample_approval_def)
qed

theorem decision_consumed_once_witness:
  "\<exists>s'. consumes sample_authorized ''a'' s' \<and> \<not> (\<exists>s3. consumes s' ''a'' s3)"
proof -
  obtain s' where "ClaimApprovalResumeAuthorization 0 [] ''p'' ''r'' ''f'' sample_authorized = (Some (''a'', [], []), s')"
    using sample_consumed by blast
  then have c: "consumes sample_authorized ''a'' s'" unfolding consumes_def by blast
  from decision_consumed_once [OF this sample_authorized_distinct human_steps.refl] c show ?thesis by blast
qed


text \<open>An authorization that names no run: it can be taken by a run that resumes nothing and is not the one that asked.\<close>

theorem runless_authorization_shared:
  "\<exists>s'. ClaimApprovalResumeAuthorization 0 [] ''p'' ''r'' ''f'' (sample_humans [sample_approval [] ''approved'' ''parked'' ''available''] ''running'')
     = (Some (''a'', [], []), s')"
  by (simp add: ClaimApprovalResumeAuthorization_def human_trims Let_def)
     (simp add: authorizes_def resume_lineage_def human_run_of_def human_samples human_trims)

abbreviation sample_parked :: human_store where
  "sample_parked \<equiv> sample_humans [sample_approval ''r'' ''pending'' ''parked'' []] ''waiting_user''"

lemma empty_texts: "TrimSpace [] = []" "ToLower ul [] = []"
  by (simp_all add: TrimSpace_def ToLower_def runes_def of_runes_def)

lemma sample_values:
  "normalizeApprovalDecisionValues id ''ok'' human_input =
     Inr \<lparr>dv_status = ''approved'', dv_scope = [], dv_decision = ''d'', dv_grant = [], dv_note = []\<rparr>"
  by (simp add: normalizeApprovalDecisionValues_def normalizeApprovalDecision_def normalizeGrantScope_def human_input_def human_trims empty_texts Let_def)



lemma tool_call_trim: "TrimSpace ''tool_call'' = ''tool_call''"
  by (simp add: TrimSpace_def chunks_ascii byte_def is_space_def)

lemma sample_created:
  "snd (CreateApprovalRequest [] 0 (sample_approval ''r'' [] ''parked'' []) (sample_humans [] ''waiting_user'')) =
     sample_humans [(sample_approval ''r'' ''pending'' ''parked'' [])\<lparr>ap_expires := 0\<rparr>] ''waiting_user''"
  by (simp add: CreateApprovalRequest_def approval_row_def threadIDForRun_def human_run_of_def human_samples human_trims tool_call_trim normalizeName_def Let_def)

lemma sample_created_answer:
  "\<exists>r s'. RespondParkedApprovalAndEnqueue (\<lambda>_ _. True) id [] 0 [] ''p'' ''a'' ''ok'' [] human_input human_task
       (sample_humans [(sample_approval ''r'' ''pending'' ''parked'' [])\<lparr>ap_expires := 0\<rparr>] ''waiting_user'') = (r, s')
     \<and> (\<exists>a \<in> set (hs_approvals s'). ap_auth a = ''available'')"
  by (simp add: RespondParkedApprovalAndEnqueue_def sample_values human_trims Let_def human_task_def)
     (simp add: human_samples human_trims approval_keyed_def parkedRunAdmissionJSON_def parked_admission_def insert_continuation_def new_row_def
      set_approvals_def parked_answer_def decided_def authorization_state_def Let_def)

theorem authorization_from_person_witness:
  "\<exists>s'. human_steps (sample_humans [] ''waiting_user'') s'
     \<and> (\<exists>a \<in> set (hs_approvals s'). ap_auth a = ''available'' \<and> ap_status a = ''approved'' \<and> ap_waiter a = ''parked'')"
proof -
  let ?s0 = "sample_humans [] ''waiting_user''"
  let ?s1 = "snd (CreateApprovalRequest [] 0 (sample_approval ''r'' [] ''parked'' []) ?s0)"
  obtain r s' where c: "RespondParkedApprovalAndEnqueue (\<lambda>_ _. True) id [] 0 [] ''p'' ''a'' ''ok'' [] human_input human_task ?s1 = (r, s')"
    and a: "\<exists>a \<in> set (hs_approvals s'). ap_auth a = ''available''" using sample_created_answer unfolding sample_created by blast
  have "human_step ?s1 s'"
    using human_step.respond_parked [of ?s1 "\<lambda>_ _. True" id "[]" 0 "[]" "''p''" "''a''" "''ok''" "[]" human_input human_task] by (simp only: c snd_conv)
  with human_step.create have steps: "human_steps ?s0 s'" by (blast intro: human_steps.intros)
  from a obtain a where "a \<in> set (hs_approvals s')" "ap_auth a = ''available''" by blast
  with authorization_from_person [OF steps, of a] steps show ?thesis by (auto simp: sample_humans_def)
qed

lemma sample_cancel: "\<exists>s'. CancelParkedHumanRun 0 [] ''p'' ''r'' sample_parked = (Inr True, s')"
  by (simp add: CancelParkedHumanRun_def cancelParkedHumanTx_def human_trims)
     (simp add: parked_human_def parkedHumanCondition_def human_samples human_trims approval_keyed_def resumed_def)

theorem cancelled_wait_final_witness:
  "\<exists>s'. CancelParkedHumanRun 0 [] ''p'' ''r'' sample_parked = (Inr True, s')
     \<and> (\<forall>r \<in> set (hs_runs s'). run_tenant r = ''default'' \<longrightarrow> run_person r = ''p'' \<longrightarrow> run_id r = ''r'' \<longrightarrow> run_status r = ''cancelled'')"
proof -
  obtain s' where c: "CancelParkedHumanRun 0 [] ''p'' ''r'' sample_parked = (Inr True, s')" using sample_cancel by blast
  have "approval_ids_distinct sample_parked" by (simp add: approval_ids_distinct_def sample_humans_def)
  from cancelled_wait_final [OF c this] c show ?thesis by (simp add: human_trims)
qed

lemma sample_reply:
  "\<exists>r s'. AnswerClarifyRequestWithResume (\<lambda>_ _. True) id [] 0 [] ''p'' ''c'' ''x'' [] human_task sample_parked = (Inr (r, Some ''n''), s')"
  by (simp add: AnswerClarifyRequestWithResume_def human_trims Let_def)
     (simp add: answer_pending_def human_run_of_def human_samples human_trims clarify_keyed_def human_task_def resumableRunStatus_def resumed_def
      parkedRunAdmissionJSON_def insert_continuation_def new_row_def Let_def)

theorem clarify_answer_continues_witness:
  "\<exists>r s'. AnswerClarifyRequestWithResume (\<lambda>_ _. True) id [] 0 [] ''p'' ''c'' ''x'' [] human_task sample_parked = (Inr (r, Some ''n''), s')
     \<and> (\<exists>c. r = Some (answered (ResolveClarifyOption ''x'' (cl_options c)) [] c) \<and> cl_status c = ''pending'')"
proof -
  obtain r s' where c: "AnswerClarifyRequestWithResume (\<lambda>_ _. True) id [] 0 [] ''p'' ''c'' ''x'' [] human_task sample_parked = (Inr (r, Some ''n''), s')"
    using sample_reply by blast
  from clarify_answer_continues [OF c] c show ?thesis by (auto simp: human_trims)
qed

abbreviation sample_waiting :: human_store where
  "sample_waiting \<equiv> sample_humans [sample_approval ''r'' ''pending'' ''live'' []] ''running''"

lemma sample_park: "\<exists>s'. ParkHumanWaitRun 0 [] ''p'' ''r'' LoopCheckpointWaitApproval ''a'' [] sample_waiting = (Inr True, s')"
  by (simp add: ParkHumanWaitRun_def human_wait_bound_def park_guard_def park_run_def running_here_def human_samples human_trims approval_keyed_def
      set_approvals_def Let_def)

theorem park_moves_both_witness:
  "\<exists>s'. ParkHumanWaitRun 0 [] ''p'' ''r'' LoopCheckpointWaitApproval ''a'' [] sample_waiting = (Inr True, s')
     \<and> (\<exists>x \<in> set (hs_runs s'). run_id x = ''r'' \<and> run_status x = ''waiting_user'')"
proof -
  obtain s' where c: "ParkHumanWaitRun 0 [] ''p'' ''r'' LoopCheckpointWaitApproval ''a'' [] sample_waiting = (Inr True, s')" using sample_park by blast
  from park_moves_both [OF c] c show ?thesis by (auto simp: human_trims)
qed

theorem ResolveClarifyOption_ordinal_witness:
  "ResolveClarifyOption (FormatInt 2) [''x'', ''z''] = ''z''"
proof -
  have choices: "ClarifyChoices [''x'', ''z''] = [''x'', ''z'']" by (simp add: ClarifyChoices_def human_trims)
  from ResolveClarifyOption_ordinal [of 2 "[''x'', ''z'']" "''x''", unfolded choices] show ?thesis by simp
qed

end
