(* ===== verification/WorkCancel.thy ===== *)
theory WorkCancel
  imports HumanWait
begin

text \<open>
  Cancelling work: \<^verbatim>\<open>internal/control/parked_provider_cancel.go\<close>, \<^verbatim>\<open>external_resource_cancel.go\<close>, \<^verbatim>\<open>RequestRunCancel\<close> of
  \<^verbatim>\<open>run_cancellation.go\<close>, \<^verbatim>\<open>queuedHumanParentTx\<close> of \<^verbatim>\<open>parked_human_cancel.go\<close>, \<^verbatim>\<open>ClearQueued\<close> of \<^verbatim>\<open>queue.go\<close> and the reads of
  \<^verbatim>\<open>loop_checkpoint.go\<close>. A run that waits for a provider, a lane or a resource is parked with a queue row that will wake it;
  cancelling the row, the queue or the run closes the run and the row together.

  The record \<open>work_store\<close> adds to the tables of \<open>HumanWait\<close> the watches and the resource waits of \<open>EffectClaims\<close>. A query that may
  return several rows returns the first in the order of the runs. Go visits the entries of a map in no
  particular order: \<open>order\<close> is the order in which the parked parents are visited.
\<close>

section \<open>Parked automatic waits\<close>

record work_store =
  ws_human :: human_store
  ws_watches :: "watch_row list"
  ws_waits :: "resource_wait list"

definition unbound_row :: "task_row \<Rightarrow> bool" where
  "unbound_row q = (t_status q \<in> {QueueStatusQueued, QueueStatusStarted} \<and> t_run q = [])"

definition resourceWakeQueueCondition :: "work_store \<Rightarrow> human_run \<Rightarrow> task_row \<Rightarrow> bool" where
  "resourceWakeQueueCondition s r q = (t_class q = ''finalization''
     \<and> list_ex (\<lambda>w. rw_tenant w = run_tenant r \<and> rw_person w = run_person r \<and> rw_run w = run_id r \<and> rw_status w = ''queued''
          \<and> t_key q = ''external-resource:'' @ run_id r @ '':'' @ rw_effect w) (ws_waits s))"

definition parkedProviderCondition :: "work_store \<Rightarrow> human_run \<Rightarrow> bool" where
  "parkedProviderCondition s r = (let h = ws_human s in
     run_status r = ''waiting_external'' \<and> hr_resumed_by r = [] \<and> \<not> resumed h (run_tenant r) (run_id r)
     \<and> \<not> list_ex (\<lambda>a. ap_tenant a = run_tenant r \<and> ap_run a = run_id r \<and> ap_status a = ''pending'') (hs_approvals h)
     \<and> \<not> list_ex (\<lambda>c. cl_tenant c = run_tenant r \<and> cl_run c = run_id r \<and> cl_status c = ''pending'') (hs_clarifies h)
     \<and> \<not> list_ex (\<lambda>w. w_tenant w = run_tenant r \<and> w_run w = run_id r \<and> w_status w \<in> {''pending'', ''running''}) (ws_watches s)
     \<and> list_ex (\<lambda>q. t_tenant q = run_tenant r \<and> t_person q = run_person r \<and> t_reply_to q = run_id r
          \<and> (t_key q = ''provider-wait:'' @ run_id r \<or> t_key q = ''execution-lane:'' @ run_id r \<or> resourceWakeQueueCondition s r q)
          \<and> unbound_row q) (hs_queue h))"

definition ParkedProviderRunIDs :: "string \<Rightarrow> string \<Rightarrow> work_store \<Rightarrow> string list" where
  "ParkedProviderRunIDs tenantID personID s = map run_id (filter (\<lambda>r. run_tenant r = normalizeTenant tenantID \<and> run_person r = personID
     \<and> parkedProviderCondition s r) (hs_runs (ws_human s)))"

definition cancelParkedProviderTx :: "string \<Rightarrow> string \<Rightarrow> string \<Rightarrow> work_store \<Rightarrow> bool \<times> work_store" where
  "cancelParkedProviderTx tenantID personID runID s =
     (if \<not> list_ex (\<lambda>r. run_tenant r = tenantID \<and> run_person r = personID \<and> run_id r = runID \<and> parkedProviderCondition s r) (hs_runs (ws_human s))
      then (False, s)
      else (True, s\<lparr>ws_human := cancelParkedRunTx tenantID personID runID (ws_human s)\<rparr>))"


section \<open>Parents of a queue row\<close>

definition first_run :: "(human_run \<Rightarrow> bool) \<Rightarrow> work_store \<Rightarrow> string" where
  "first_run P s = (case find P (hs_runs (ws_human s)) of None \<Rightarrow> [] | Some r \<Rightarrow> run_id r)"

definition queue_row :: "string \<Rightarrow> string \<Rightarrow> string \<Rightarrow> task_row \<Rightarrow> bool" where
  "queue_row tenantID personID queueID q = (t_tenant q = tenantID \<and> t_person q = personID \<and> t_id q = queueID \<and> unbound_row q)"

definition queuedResourceWaitParentTx :: "work_store \<Rightarrow> string \<Rightarrow> string \<Rightarrow> string \<Rightarrow> string" where
  "queuedResourceWaitParentTx s tenantID personID queueID = first_run (\<lambda>r.
     list_ex (\<lambda>q. t_tenant q = run_tenant r \<and> t_person q = run_person r \<and> t_reply_to q = run_id r \<and> queue_row tenantID personID queueID q
        \<and> resourceWakeQueueCondition s r q) (hs_queue (ws_human s)) \<and> parkedProviderCondition s r) s"

definition human_parent :: "work_store \<Rightarrow> string \<Rightarrow> string \<Rightarrow> string \<Rightarrow> human_run \<Rightarrow> bool" where
  "human_parent s tenantID personID queueID r = list_ex (\<lambda>c. cp_tenant c = run_tenant r \<and> cp_person c = run_person r \<and> cp_run c = run_id r
     \<and> list_ex (\<lambda>q. t_tenant q = run_tenant r \<and> t_person q = run_person r
          \<and> (cp_kind c = LoopCheckpointWaitApproval \<and> t_approval q = cp_ref c \<or> cp_kind c = LoopCheckpointWaitClarification \<and> t_clarify q = cp_ref c)
          \<and> queue_row tenantID personID queueID q) (hs_queue (ws_human s))
     \<and> parkedHumanCondition (ws_human s) r c) (hs_checkpoints (ws_human s))"

definition queuedHumanParentTx :: "work_store \<Rightarrow> string \<Rightarrow> string \<Rightarrow> string \<Rightarrow> string" where
  "queuedHumanParentTx s tenantID personID queueID = first_run (human_parent s tenantID personID queueID) s"

definition provider_wait :: "work_store \<Rightarrow> string \<Rightarrow> string \<Rightarrow> task_row \<Rightarrow> bool" where
  "provider_wait s tenantID personID q = (t_reply_to q \<noteq> [] \<and> (t_key q = ''provider-wait:'' @ t_reply_to q \<or> t_key q = ''execution-lane:'' @ t_reply_to q
     \<or> queuedResourceWaitParentTx s tenantID personID (t_id q) = t_reply_to q))"

section \<open>Cancelling a row, the queue, a run\<close>

definition cancelled_row :: "task_row \<Rightarrow> task_row" where
  "cancelled_row q = q\<lparr>t_status := QueueStatusCancelled, t_token := [], t_lease := 0\<rparr>"

definition close_human :: "int \<Rightarrow> string \<Rightarrow> string \<Rightarrow> string \<Rightarrow> work_store \<Rightarrow> work_store" where
  "close_human now tenantID personID runID s = s\<lparr>ws_human := snd (cancelParkedHumanTx now tenantID personID runID (ws_human s))\<rparr>"

definition drop_rows :: "(task_row \<Rightarrow> bool) \<Rightarrow> work_store \<Rightarrow> work_store" where
  "drop_rows P s = s\<lparr>ws_human := (ws_human s)\<lparr>hs_queue := map (\<lambda>q. if P q then cancelled_row q else q) (hs_queue (ws_human s))\<rparr>\<rparr>"

definition CancelQueued :: "int \<Rightarrow> string \<Rightarrow> string \<Rightarrow> string \<Rightarrow> work_store \<Rightarrow> (human_error + bool) \<times> work_store" where
  "CancelQueued now tenant personID queueID s =
     (let tenantID = normalizeTenant tenant in
      if TrimSpace personID = [] \<or> TrimSpace queueID = [] then (Inl PersonMissing, s)
      else (case find (queue_row tenantID personID queueID) (hs_queue (ws_human s)) of
          None \<Rightarrow> (Inr False, s)
        | Some q \<Rightarrow>
            (let humanParent = queuedHumanParentTx s tenantID personID queueID; providerWait = provider_wait s tenantID personID q in
             if t_status q = QueueStatusStarted \<and> \<not> providerWait \<and> humanParent = [] then (Inr False, s)
             else (let s1 = (if providerWait then snd (cancelParkedProviderTx tenantID personID (t_reply_to q) s) else s);
                       s2 = (if humanParent \<noteq> [] then close_human now tenantID personID humanParent s1 else s1) in
                   (Inr True, drop_rows (\<lambda>x. t_tenant x = tenantID \<and> t_person x = personID \<and> t_id x = queueID) s2)))))"

definition clearable :: "work_store \<Rightarrow> string \<Rightarrow> string \<Rightarrow> task_row list" where
  "clearable s tenantID personID = filter (\<lambda>q. t_tenant q = tenantID \<and> t_person q = personID \<and> unbound_row q
     \<and> \<not> (t_status q = QueueStatusStarted \<and> \<not> provider_wait s tenantID personID q \<and> queuedHumanParentTx s tenantID personID (t_id q) = []))
     (hs_queue (ws_human s))"

definition clearQueuedAndParkedRuns :: "(string list \<Rightarrow> string list) \<Rightarrow> int \<Rightarrow> string \<Rightarrow> string \<Rightarrow> work_store \<Rightarrow> nat \<times> work_store" where
  "clearQueuedAndParkedRuns order now tenant personID s =
     (let tenantID = normalizeTenant tenant; rows = clearable s tenantID personID; ids = map t_id rows;
          parents = remdups (map t_reply_to (filter (provider_wait s tenantID personID) rows));
          humanParents = remdups (filter (\<lambda>p. p \<noteq> []) (map (\<lambda>q. queuedHumanParentTx s tenantID personID (t_id q)) rows));
          s1 = fold (\<lambda>p s. snd (cancelParkedProviderTx tenantID personID p s)) (order parents) s;
          s2 = fold (close_human now tenantID personID) (order humanParents) s1 in
      (length ids, drop_rows (\<lambda>x. t_id x \<in> set ids) s2))"

definition ClearQueued :: "(string list \<Rightarrow> string list) \<Rightarrow> int \<Rightarrow> string \<Rightarrow> string \<Rightarrow> work_store \<Rightarrow> (human_error + nat) \<times> work_store" where
  "ClearQueued order now tenantID personID s =
     (if TrimSpace personID = [] then (Inl PersonMissing, s)
      else (case clearQueuedAndParkedRuns order now tenantID personID s of (n, s') \<Rightarrow> (Inr n, s')))"


section \<open>Reading a checkpoint\<close>

definition IncompleteLoopCheckpointForRun :: "string \<Rightarrow> string \<Rightarrow> human_store \<Rightarrow> checkpoint option" where
  "IncompleteLoopCheckpointForRun tenantID runID h =
     (if runID = [] then None
      else find (\<lambda>c. cp_tenant c = normalizeTenant tenantID \<and> cp_run c = runID \<and> cp_outcome c \<noteq> ''complete_turn'') (hs_checkpoints h))"

definition CompletedLoopCheckpointForRun :: "string \<Rightarrow> string \<Rightarrow> string \<Rightarrow> human_store \<Rightarrow> checkpoint option" where
  "CompletedLoopCheckpointForRun tenantID personID runID h =
     (if runID = [] \<or> personID = [] then None
      else find (\<lambda>c. cp_tenant c = normalizeTenant tenantID \<and> cp_person c = personID \<and> cp_run c = runID \<and> cp_outcome c = ''complete_turn'')
        (hs_checkpoints h))"



section \<open>Cancellations are steps on the human requests\<close>













section \<open>What a cancellation leaves behind\<close>

text \<open>Nothing of a run can still be asked, answered or continued, and its stop is recorded.\<close>

definition withdrawn :: "human_store \<Rightarrow> string \<Rightarrow> string \<Rightarrow> string \<Rightarrow> bool" where
  "withdrawn h tenantID personID runID =
     ((\<forall>a \<in> set (hs_approvals h). owned_by_run tenantID personID runID a \<longrightarrow> ap_status a \<noteq> ''pending'')
      \<and> (\<forall>c \<in> set (hs_clarifies h). cl_tenant c = tenantID \<and> cl_person c = personID \<and> cl_run c = runID \<longrightarrow> cl_status c \<noteq> ''pending'')
      \<and> (\<forall>q \<in> set (hs_queue h). \<not> unbound_continuation h tenantID personID runID q)
      \<and> (\<forall>r \<in> set (hs_runs h). run_tenant r = tenantID \<and> run_person r = personID \<and> run_id r = runID \<longrightarrow> hr_cancel r))"

definition run_closed :: "human_store \<Rightarrow> string \<Rightarrow> string \<Rightarrow> string \<Rightarrow> bool" where
  "run_closed h tenantID personID runID =
     (\<forall>r \<in> set (hs_runs h). run_tenant r = tenantID \<and> run_person r = personID \<and> run_id r = runID \<longrightarrow> run_status r = ''cancelled'' \<and> hr_cancel r)"

lemma runs_of_cancel:
  "hs_runs (cancelParkedRunTx tenantID personID runID h) = map (\<lambda>r. if run_tenant r = tenantID \<and> run_person r = personID \<and> run_id r = runID
     then r\<lparr>run_status := ''cancelled'', hr_cancel := True\<rparr> else r) (hs_runs h)"
  by (simp add: cancelParkedRunTx_def cancelUnboundRunContinuationsTx_def)

lemma cancel_closes: "run_closed (cancelParkedRunTx tenantID personID runID h) tenantID personID runID"
  unfolding run_closed_def runs_of_cancel
proof (intro ballI impI)
  fix r assume "r \<in> set (map (\<lambda>r. if run_tenant r = tenantID \<and> run_person r = personID \<and> run_id r = runID
     then r\<lparr>run_status := ''cancelled'', hr_cancel := True\<rparr> else r) (hs_runs h))" and r: "run_tenant r = tenantID \<and> run_person r = personID \<and> run_id r = runID"
  then obtain x where "r = (if run_tenant x = tenantID \<and> run_person x = personID \<and> run_id x = runID
     then x\<lparr>run_status := ''cancelled'', hr_cancel := True\<rparr> else x)" by (elim map_elemE)
  with r show "run_status r = ''cancelled'' \<and> hr_cancel r" by (simp split: if_splits)
qed

lemma closed_stays: "run_closed h t p run \<Longrightarrow> run_closed (cancelParkedRunTx tenantID personID runID h) t p run"
  unfolding run_closed_def runs_of_cancel by auto

lemma no_unbound_cancel:
  "q \<in> set (hs_queue (cancelParkedRunTx tenantID personID runID h)) \<Longrightarrow> \<not> unbound_continuation (cancelParkedRunTx tenantID personID runID h) tenantID personID runID q"
  unfolding cancelParkedRunTx_def using no_unbound_left by blast

lemma withdrawn_cancel:
  assumes "\<forall>a \<in> set (hs_approvals h). owned_by_run tenantID personID runID a \<longrightarrow> ap_status a \<noteq> ''pending''"
    and "\<forall>c \<in> set (hs_clarifies h). cl_tenant c = tenantID \<and> cl_person c = personID \<and> cl_run c = runID \<longrightarrow> cl_status c \<noteq> ''pending''"
  shows "withdrawn (cancelParkedRunTx tenantID personID runID h) tenantID personID runID"
  using assms cancel_closes [of tenantID personID runID h] no_unbound_cancel [of _ tenantID personID runID h]
  by (simp add: withdrawn_def run_closed_def)

lemma expire_runs_same [simp]: "hs_runs (snd (expireRunHumanRequestsTx now tenantID personID runID h)) = hs_runs h"
  by (simp add: expireRunHumanRequestsTx_def Let_def)

lemma withdrawn_human:
  assumes "cancelParkedHumanTx now tenantID personID runID h = (True, h')"
  shows "withdrawn h' tenantID personID runID" and "run_closed h' tenantID personID runID"
proof -
  have h': "h' = cancelParkedRunTx tenantID personID runID (snd (expireRunHumanRequestsTx now tenantID personID runID h))"
    using assms by (auto simp: cancelParkedHumanTx_def split: if_splits)
  show "withdrawn h' tenantID personID runID" unfolding h'
    by (rule withdrawn_cancel) (use expired_requests expired_questions in blast)+
  show "run_closed h' tenantID personID runID" unfolding h' by (rule cancel_closes)
qed


lemma withdrawn_provider:
  assumes "cancelParkedProviderTx tenantID personID runID s = (True, s')"
  shows "withdrawn (ws_human s') tenantID personID runID" and "run_closed (ws_human s') tenantID personID runID"
proof -
  have s': "ws_human s' = cancelParkedRunTx tenantID personID runID (ws_human s)" using assms by (auto simp: cancelParkedProviderTx_def split: if_splits)
  from assms obtain r where "run_tenant r = tenantID" "run_id r = runID" "parkedProviderCondition s r"
    by (auto simp: cancelParkedProviderTx_def list_ex_iff split: if_splits)
  then show "withdrawn (ws_human s') tenantID personID runID" unfolding s'
    by (intro withdrawn_cancel) (auto simp: parkedProviderCondition_def Let_def list_ex_iff owned_by_run_def)
  show "run_closed (ws_human s') tenantID personID runID" unfolding s' by (rule cancel_closes)
qed


section \<open>The queue under cancellations\<close>

text \<open>What may happen to a row: nothing, or an unbound row of the person is cancelled.\<close>

definition row_dropped :: "string \<Rightarrow> string \<Rightarrow> task_row \<Rightarrow> task_row \<Rightarrow> bool" where
  "row_dropped tenantID personID q q' = (q' = q \<or> t_tenant q = tenantID \<and> t_person q = personID \<and> unbound_row q \<and> q' = cancelled_row q)"

lemma cancelled_row_idem [simp]: "cancelled_row (cancelled_row q) = cancelled_row q"
  by (simp add: cancelled_row_def)

lemma cancelled_row_simps [simp]: "t_id (cancelled_row q) = t_id q" "t_tenant (cancelled_row q) = t_tenant q" "t_person (cancelled_row q) = t_person q"
    "t_status (cancelled_row q) = QueueStatusCancelled" "t_run (cancelled_row q) = t_run q"
  by (simp_all add: cancelled_row_def)

lemma cancelled_not_unbound [simp]: "\<not> unbound_row (cancelled_row q)"
  by (simp add: unbound_row_def QueueStatusQueued_def QueueStatusStarted_def QueueStatusCancelled_def)

lemma row_dropped_refl: "row_dropped tenantID personID q q"
  by (simp add: row_dropped_def)

lemma row_dropped_trans: "row_dropped tenantID personID a b \<Longrightarrow> row_dropped tenantID personID b c \<Longrightarrow> row_dropped tenantID personID a c"
  by (auto simp: row_dropped_def)

abbreviation rows_dropped :: "string \<Rightarrow> string \<Rightarrow> work_store \<Rightarrow> work_store \<Rightarrow> bool" where
  "rows_dropped tenantID personID s s' \<equiv> list_all2 (row_dropped tenantID personID) (hs_queue (ws_human s)) (hs_queue (ws_human s'))"

lemma rows_dropped_trans: "rows_dropped tenantID personID s t \<Longrightarrow> rows_dropped tenantID personID t u \<Longrightarrow> rows_dropped tenantID personID s u"
  by (rule list_all2_trans [of "row_dropped tenantID personID" "row_dropped tenantID personID"]) (rule row_dropped_trans)

lemma rows_dropped_refl: "rows_dropped tenantID personID s s"
  by (rule list.rel_refl) (rule row_dropped_refl)

lemma list_all2_mapped: "(\<And>x. R x (f x)) \<Longrightarrow> list_all2 R xs (map f xs)"
  by (induction xs) simp_all

lemma list_all2_map_right: "list_all2 R xs ys \<Longrightarrow> (\<And>x y. x \<in> set xs \<Longrightarrow> R x y \<Longrightarrow> R x (f y)) \<Longrightarrow> list_all2 R xs (map f ys)"
  by (induction rule: list_all2_induct) simp_all

lemma cancel_run_rows:
  "list_all2 (row_dropped tenantID personID) (hs_queue h) (hs_queue (cancelParkedRunTx tenantID personID runID h))"
proof -
  have "row_dropped tenantID personID q (if unbound_continuation h' tenantID personID runID q then cancelled_row q else q)" for h' q
    by (auto simp: row_dropped_def unbound_continuation_def unbound_row_def)
  then show ?thesis
    unfolding cancelParkedRunTx_def cancelUnboundRunContinuationsTx_def cancelled_row_def by (simp add: list_all2_mapped del: if_split)
qed

lemma provider_rows: "rows_dropped tenantID personID s (snd (cancelParkedProviderTx tenantID personID runID s))"
  by (auto simp: cancelParkedProviderTx_def cancel_run_rows rows_dropped_refl)

lemma human_rows: "rows_dropped tenantID personID s (close_human now tenantID personID runID s)"
proof -
  have "hs_queue (snd (expireRunHumanRequestsTx now tenantID personID runID h)) = hs_queue h" for h
    by (simp add: expireRunHumanRequestsTx_def Let_def)
  then show ?thesis using cancel_run_rows [of tenantID personID "snd (expireRunHumanRequestsTx now tenantID personID runID (ws_human s))" runID]
    by (auto simp: close_human_def cancelParkedHumanTx_def rows_dropped_refl)
qed

lemma fold_rows:
  assumes "\<And>x s. rows_dropped tenantID personID s (f x s)"
  shows "rows_dropped tenantID personID s (fold f xs s)"
proof (induction xs arbitrary: s)
  case (Cons x xs)
  show ?case using rows_dropped_trans [OF assms [of s x] Cons.IH] by simp
qed (simp add: rows_dropped_refl)

lemma drop_marked:
  assumes "rows_dropped tenantID personID s t" and "distinct (map t_id (hs_queue (ws_human s)))"
    and own: "\<And>q. q \<in> set rows \<Longrightarrow> q \<in> set (hs_queue (ws_human s)) \<and> t_tenant q = tenantID \<and> t_person q = personID \<and> unbound_row q"
  shows "rows_dropped tenantID personID s (drop_rows (\<lambda>x. t_id x \<in> set (map t_id rows)) t)"
proof -
  have "row_dropped tenantID personID q (if t_id q' \<in> set (map t_id rows) then cancelled_row q' else q')"
    if q: "q \<in> set (hs_queue (ws_human s))" and d: "row_dropped tenantID personID q q'" for q q'
  proof (cases "t_id q' \<in> set (map t_id rows)")
    case True
    have "t_id q' = t_id q" using d by (auto simp: row_dropped_def)
    with True obtain x where "x \<in> set rows" "t_id x = t_id q" by auto
    then have "q \<in> set rows" using own [of x] q assms(2) by (metis distinct_row)
    with d own show ?thesis by (auto simp: row_dropped_def True)
  qed (use d in simp)
  then show ?thesis using list_all2_map_right [OF assms(1)] by (simp add: drop_rows_def del: if_split set_map)
qed

lemma filter_length_le: "(\<And>x. P x \<Longrightarrow> Q x) \<Longrightarrow> length (filter P xs) \<le> length (filter Q xs)"
  by (induction xs) (auto simp: le_SucI)

lemma clearable_own:
  "q \<in> set (clearable s tenantID personID) \<Longrightarrow> q \<in> set (hs_queue (ws_human s)) \<and> t_tenant q = tenantID \<and> t_person q = personID \<and> unbound_row q"
  by (simp add: clearable_def)

text \<open>C14. Clearing the queue is exact: of the rows only unbound ones of this person are cancelled and every other row is untouched, and
  no row of the person is left queued without a run, whatever the order in which the parked parents are closed. The count
  returned is at least that of the queued rows.\<close>

theorem clear_drops_all_queued:
  assumes "ClearQueued order now tenantID personID s = (Inr n, s')" and "distinct (map t_id (hs_queue (ws_human s)))"
  shows "rows_dropped (normalizeTenant tenantID) personID s s'
    \<and> (\<forall>q \<in> set (hs_queue (ws_human s')). t_tenant q = normalizeTenant tenantID \<and> t_person q = personID \<and> t_run q = [] \<longrightarrow> t_status q \<noteq> QueueStatusQueued)
    \<and> length (filter (\<lambda>q. t_tenant q = normalizeTenant tenantID \<and> t_person q = personID \<and> t_run q = [] \<and> t_status q = QueueStatusQueued) (hs_queue (ws_human s))) \<le> n"
proof -
  let ?t = "normalizeTenant tenantID"
  let ?rows = "clearable s ?t personID"
  have open_rows: "q \<in> set ?rows" if "q \<in> set (hs_queue (ws_human s))" "t_tenant q = ?t" "t_person q = personID" "t_run q = []"
      "t_status q = QueueStatusQueued" for q
    using that by (simp add: clearable_def unbound_row_def QueueStatusQueued_def QueueStatusStarted_def)
  obtain s2 where s2: "rows_dropped ?t personID s s2" and s': "s' = drop_rows (\<lambda>x. t_id x \<in> set (map t_id ?rows)) s2" and n: "n = length ?rows"
  proof -
    have "rows_dropped ?t personID s (fold (close_human now ?t personID) hs (fold (\<lambda>p s. snd (cancelParkedProviderTx ?t personID p s)) ps s))" for hs ps
      by (rule rows_dropped_trans [OF fold_rows [OF provider_rows] fold_rows [OF human_rows]])
    with assms(1) that show ?thesis by (auto simp: ClearQueued_def clearQueuedAndParkedRuns_def Let_def split: if_splits)
  qed
  have rows: "rows_dropped ?t personID s s'" unfolding s' by (rule drop_marked [OF s2 assms(2) clearable_own])
  have "t_status q' \<noteq> QueueStatusQueued" if q': "q' \<in> set (hs_queue (ws_human s'))" "t_tenant q' = ?t \<and> t_person q' = personID \<and> t_run q' = []" for q'
  proof
    assume st: "t_status q' = QueueStatusQueued"
    from q'(1) rows obtain q where q: "q \<in> set (hs_queue (ws_human s))" "row_dropped ?t personID q q'"
      by (metis in_set_conv_nth list_all2_conv_all_nth)
    have "q = q'" using q(2) st by (auto simp: row_dropped_def QueueStatusQueued_def QueueStatusCancelled_def)
    then have "t_id q' \<in> set (map t_id ?rows)" using open_rows [of q] q(1) q'(2) st by auto
    moreover obtain x where "q' = (if t_id x \<in> set (map t_id ?rows) then cancelled_row x else x)"
      using q'(1) unfolding s' drop_rows_def by (simp del: set_map if_split) (erule map_elemE)
    ultimately show False using st by (auto simp: QueueStatusQueued_def QueueStatusCancelled_def split: if_splits)
  qed
  moreover have "length (filter (\<lambda>q. t_tenant q = ?t \<and> t_person q = personID \<and> t_run q = [] \<and> t_status q = QueueStatusQueued) (hs_queue (ws_human s))) \<le> n"
    unfolding n clearable_def by (rule filter_length_le) (simp add: unbound_row_def QueueStatusQueued_def QueueStatusStarted_def)
  ultimately show ?thesis using rows by blast
qed

section \<open>Dropping one row\<close>

lemma drop_keeps [simp]: "hs_approvals (ws_human (drop_rows P s)) = hs_approvals (ws_human s)" "hs_clarifies (ws_human (drop_rows P s)) = hs_clarifies (ws_human s)"
    "hs_runs (ws_human (drop_rows P s)) = hs_runs (ws_human s)"
  by (simp_all add: drop_rows_def)

lemma drop_queue: "hs_queue (ws_human (drop_rows P s)) = map (\<lambda>q. if P q then cancelled_row q else q) (hs_queue (ws_human s))"
  by (simp add: drop_rows_def)

lemma drop_closed: "run_closed (ws_human s) t p run \<Longrightarrow> run_closed (ws_human (drop_rows P s)) t p run"
  by (simp add: run_closed_def)

lemma drop_withdrawn:
  assumes "withdrawn (ws_human s) tenantID personID runID"
  shows "withdrawn (ws_human (drop_rows P s)) tenantID personID runID"
proof -
  have "\<not> unbound_continuation (ws_human (drop_rows P s)) tenantID personID runID q" if "q \<in> set (hs_queue (ws_human (drop_rows P s)))" for q
  proof -
    have same: "unbound_continuation (ws_human (drop_rows P s)) tenantID personID runID x = unbound_continuation (ws_human s) tenantID personID runID x" for x
      by (simp add: unbound_continuation_def)
    from that [unfolded drop_queue] obtain x where x: "x \<in> set (hs_queue (ws_human s))" "q = (if P x then cancelled_row x else x)" by (rule map_elemE)
    have "\<not> unbound_continuation (ws_human s) tenantID personID runID (cancelled_row x)"
      using cancelled_not_unbound [of x] by (simp add: unbound_continuation_def unbound_row_def)
    with x assms show ?thesis by (simp add: same withdrawn_def)
  qed
  with assms show ?thesis by (simp add: withdrawn_def)
qed

lemma close_human_closed: "run_closed (ws_human s) t p run \<Longrightarrow> run_closed (ws_human (close_human now tenantID personID runID s)) t p run"
  by (auto simp: close_human_def cancelParkedHumanTx_def run_closed_def runs_of_cancel)

lemma first_runE:
  assumes "first_run P s \<noteq> []"
  obtains r where "r \<in> set (hs_runs (ws_human s))" and "P r" and "first_run P s = run_id r"
proof (cases "find P (hs_runs (ws_human s))")
  case (Some r)
  then have "r \<in> set (hs_runs (ws_human s))" "P r" by (auto simp: find_Some_iff)
  then show ?thesis using that Some by (simp add: first_run_def)
qed (use assms in \<open>simp add: first_run_def\<close>)

lemma human_parent_closes:
  assumes "queuedHumanParentTx s tenantID personID queueID \<noteq> []"
  shows "withdrawn (ws_human (close_human now tenantID personID (queuedHumanParentTx s tenantID personID queueID) s)) tenantID personID
      (queuedHumanParentTx s tenantID personID queueID)"
    and "run_closed (ws_human (close_human now tenantID personID (queuedHumanParentTx s tenantID personID queueID) s)) tenantID personID
      (queuedHumanParentTx s tenantID personID queueID)"
proof -
  let ?run = "queuedHumanParentTx s tenantID personID queueID"
  obtain r where r: "r \<in> set (hs_runs (ws_human s))" "human_parent s tenantID personID queueID r" "?run = run_id r"
    using assms unfolding queuedHumanParentTx_def by (rule first_runE)
  from r(2) have "run_tenant r = tenantID" "run_person r = personID" "parked_human (ws_human s) r"
    by (auto simp: human_parent_def parked_human_def list_ex_iff queue_row_def)
  with r have "fst (cancelParkedHumanTx now tenantID personID ?run (ws_human s))" by (auto simp: cancelParkedHumanTx_def list_ex_iff)
  then obtain h' where "cancelParkedHumanTx now tenantID personID ?run (ws_human s) = (True, h')"
    by (cases "cancelParkedHumanTx now tenantID personID ?run (ws_human s)") simp
  with withdrawn_human [OF this] show "withdrawn (ws_human (close_human now tenantID personID ?run s)) tenantID personID ?run"
    and "run_closed (ws_human (close_human now tenantID personID ?run s)) tenantID personID ?run" by (simp_all add: close_human_def)
qed

text \<open>Dropping a queue row closes the wait it would have ended: the row is cancelled; the parked run that a person's answer would have
  continued is closed with its requests; and the run that waited for its provider is closed too.\<close>

theorem dropped_row_closes_wait:
  assumes "CancelQueued now tenant personID queueID s = (Inr True, s')"
    and "find (queue_row (normalizeTenant tenant) personID queueID) (hs_queue (ws_human s)) = Some q"
  shows "(\<forall>x \<in> set (hs_queue (ws_human s')). t_tenant x = normalizeTenant tenant \<and> t_person x = personID \<and> t_id x = queueID \<longrightarrow> t_status x = QueueStatusCancelled)
    \<and> (\<not> provider_wait s (normalizeTenant tenant) personID q \<and> queuedHumanParentTx s (normalizeTenant tenant) personID queueID \<noteq> []
        \<longrightarrow> withdrawn (ws_human s') (normalizeTenant tenant) personID (queuedHumanParentTx s (normalizeTenant tenant) personID queueID)
          \<and> run_closed (ws_human s') (normalizeTenant tenant) personID (queuedHumanParentTx s (normalizeTenant tenant) personID queueID))
    \<and> (provider_wait s (normalizeTenant tenant) personID q \<and> fst (cancelParkedProviderTx (normalizeTenant tenant) personID (t_reply_to q) s)
        \<longrightarrow> run_closed (ws_human s') (normalizeTenant tenant) personID (t_reply_to q))"
proof -
  let ?t = "normalizeTenant tenant"
  let ?h = "queuedHumanParentTx s ?t personID queueID"
  let ?s1 = "if provider_wait s ?t personID q then snd (cancelParkedProviderTx ?t personID (t_reply_to q) s) else s"
  let ?s2 = "if ?h \<noteq> [] then close_human now ?t personID ?h ?s1 else ?s1"
  let ?P = "\<lambda>x. t_tenant x = ?t \<and> t_person x = personID \<and> t_id x = queueID"
  have s': "s' = drop_rows ?P ?s2" using assms by (auto simp: CancelQueued_def Let_def split: if_splits)
  have "t_status x = QueueStatusCancelled" if "x \<in> set (hs_queue (ws_human s'))" "?P x" for x
  proof -
    from that(1) [unfolded s' drop_queue] obtain y where "x = (if ?P y then cancelled_row y else y)" by (rule map_elemE)
    with that(2) show ?thesis by (simp split: if_splits)
  qed
  moreover have "withdrawn (ws_human s') ?t personID ?h \<and> run_closed (ws_human s') ?t personID ?h" if "\<not> provider_wait s ?t personID q" "?h \<noteq> []"
    unfolding s' using that human_parent_closes [OF that(2), of now] by (simp add: drop_withdrawn drop_closed)
  moreover have "run_closed (ws_human s') ?t personID (t_reply_to q)"
    if w: "provider_wait s ?t personID q" and c: "fst (cancelParkedProviderTx ?t personID (t_reply_to q) s)"
  proof -
    obtain s1 where "cancelParkedProviderTx ?t personID (t_reply_to q) s = (True, s1)" using c by (cases "cancelParkedProviderTx ?t personID (t_reply_to q) s") simp
    with withdrawn_provider(2) [OF this] w have "run_closed (ws_human ?s1) ?t personID (t_reply_to q)" by simp
    then show ?thesis unfolding s' using close_human_closed drop_closed by (cases "?h = []") simp_all
  qed
  ultimately show ?thesis by blast
qed

section \<open>Examples\<close>

definition sample_wake :: "string \<Rightarrow> task_row" where
  "sample_wake approval = (new_row id [] 0 human_task [])\<lparr>t_tenant := ''default'', t_reply_to := ''r'', t_approval := approval,
     t_key := (if approval = [] then ''provider-wait:r'' else ''k'')\<rparr>"

definition sample_work :: "string \<Rightarrow> string \<Rightarrow> work_store" where
  "sample_work status approval = \<lparr>ws_human = (sample_humans (if approval = [] then [] else [sample_approval ''r'' ''approved'' ''parked'' ''available'']) status)
     \<lparr>hs_queue := [sample_wake approval], hs_clarifies := []\<rparr>, ws_watches = [], ws_waits = []\<rparr>"

lemma sample_wake_simps: "t_id (sample_wake a) = ''n''" "t_tenant (sample_wake a) = ''default''" "t_person (sample_wake a) = ''p''" "t_status (sample_wake a) = QueueStatusQueued"
    "t_run (sample_wake a) = []" "t_reply_to (sample_wake a) = ''r''" "t_approval (sample_wake a) = a" "t_key (sample_wake []) = ''provider-wait:r''" "t_key (sample_wake ''a'') = ''k''"
  by (simp_all add: sample_wake_def new_row_def human_task_def Let_def)

lemma sample_wake_unbound: "unbound_row (sample_wake a)"
  by (simp add: unbound_row_def sample_wake_simps)



theorem clear_drops_all_queued_witness:
  "\<exists>n s'. ClearQueued id 0 [] ''p'' (sample_work ''waiting_external'' []) = (Inr n, s') \<and> 1 \<le> n"
proof -
  obtain n s' where c: "ClearQueued id 0 [] ''p'' (sample_work ''waiting_external'' []) = (Inr n, s')"
    by (cases "clearQueuedAndParkedRuns id 0 [] ''p'' (sample_work ''waiting_external'' [])") (simp add: ClearQueued_def human_trims)
  have "distinct (map t_id (hs_queue (ws_human (sample_work ''waiting_external'' []))))" by (simp add: sample_work_def)
  from clear_drops_all_queued [OF c this] have "length [sample_wake []] \<le> n"
    by (simp add: sample_work_def sample_wake_simps human_trims)
  with c show ?thesis by auto
qed

lemma sample_parent: "queuedHumanParentTx (sample_work ''waiting_user'' ''a'') ''default'' ''p'' ''n'' = ''r''"
  by (simp add: queuedHumanParentTx_def first_run_def human_parent_def sample_work_def human_samples)
     (simp add: sample_wake_simps queue_row_def sample_wake_unbound parkedHumanCondition_def resumed_def approval_keyed_def waits_in_queue_def human_samples)

theorem dropped_row_closes_wait_witness:
  "\<exists>s'. CancelQueued 0 [] ''p'' ''n'' (sample_work ''waiting_user'' ''a'') = (Inr True, s') \<and> run_closed (ws_human s') ''default'' ''p'' ''r''"
proof -
  let ?s = "sample_work ''waiting_user'' ''a''"
  have q: "find (queue_row (normalizeTenant []) ''p'' ''n'') (hs_queue (ws_human ?s)) = Some (sample_wake ''a'')"
    by (simp add: sample_work_def queue_row_def sample_wake_simps sample_wake_unbound human_trims)
  have t: "TrimSpace ''n'' = ''n''" by (simp add: TrimSpace_def chunks_ascii byte_def is_space_def)
  obtain s' where c: "CancelQueued 0 [] ''p'' ''n'' ?s = (Inr True, s')"
    using q by (simp add: CancelQueued_def human_trims t Let_def sample_parent)
  have "queuedResourceWaitParentTx ?s ''default'' ''p'' ''n'' = []"
    by (simp add: queuedResourceWaitParentTx_def first_run_def sample_work_def human_samples parkedProviderCondition_def)
  then have "\<not> provider_wait ?s ''default'' ''p'' (sample_wake ''a'')" by (simp add: provider_wait_def sample_wake_simps)
  with dropped_row_closes_wait [OF c q] c show ?thesis by (simp add: human_trims sample_parent)
qed

end
