(* ===== verification/InboundReceipts.thy ===== *)
theory InboundReceipts
  imports TaskQueue
begin

text \<open>
  Receipts of inbound messages: \<^verbatim>\<open>internal/control/inbound_dedup.go\<close>. A message of a platform is saved as a pending receipt before the
  adapter acknowledges it. A dispatcher claims the receipt, which numbers the claim, and settles or releases it by that
  number; a receipt whose dispatcher died stays dispatching and is never dispatched again by itself.

  The table \<^verbatim>\<open>inbound_dedup\<close> is a list of rows with distinct keys, an operation is a function on it. \<open>essential\<close> is what an
  adapter keeps of a raw payload, \<^const>\<open>None\<close> when it does not decode it. The pinned connection of \<^verbatim>\<open>exactReceiptWrite\<close> only
  makes a statement atomic, which every statement is here.
\<close>

section \<open>Receipts\<close>

definition inboundDedupRetention :: int where
  "inboundDedupRetention = 48 * 3600 * second"

definition InboundPending :: string where "InboundPending = ''pending''"
definition InboundDispatching :: string where "InboundDispatching = ''dispatching''"
definition InboundAccepted :: string where "InboundAccepted = ''accepted''"

record InboundOwner =
  io_tenant :: string
  io_person :: string
  io_preview :: string

record receipt =
  rc_platform :: string
  rc_message :: string
  rc_created :: int
  rc_state :: string
  rc_payload :: string
  rc_updated :: int
  rc_error :: string
  rc_tenant :: string
  rc_person :: string
  rc_preview :: string
  rc_generation :: int

datatype inbound_error = InboundIncomplete | ErrInboundConflict | ErrInboundNotOwned | NoReceipt

definition receipt_keyed :: "string \<Rightarrow> string \<Rightarrow> receipt \<Rightarrow> bool" where
  "receipt_keyed platform messageID r = (rc_platform r = platform \<and> rc_message r = messageID)"

definition sameInboundMessage :: "(string \<Rightarrow> string option) option \<Rightarrow> string \<Rightarrow> string \<Rightarrow> bool" where
  "sameInboundMessage essential stored incoming =
     (stored = incoming \<or> (case essential of
        None \<Rightarrow> False
      | Some f \<Rightarrow> (case f stored of None \<Rightarrow> False | Some saved \<Rightarrow> f incoming = Some saved)))"

definition expired_receipt :: "int \<Rightarrow> receipt \<Rightarrow> bool" where
  "expired_receipt now r = (rc_state r = InboundAccepted \<and> rc_created r < Unix now - inboundDedupRetention div second)"

definition new_receipt :: "int \<Rightarrow> string \<Rightarrow> string \<Rightarrow> string \<Rightarrow> InboundOwner \<Rightarrow> receipt" where
  "new_receipt now platform messageID payload owner = \<lparr>rc_platform = platform, rc_message = messageID, rc_created = Unix now,
     rc_state = InboundPending, rc_payload = payload, rc_updated = Unix now, rc_error = [], rc_tenant = io_tenant owner,
     rc_person = io_person owner, rc_preview = of_runes (take 120 (runes (TrimSpace (io_preview owner)))), rc_generation = 0\<rparr>"

text \<open>\<^verbatim>\<open>DELETE\<close> of what is past its retention, then \<^verbatim>\<open>INSERT OR IGNORE\<close>.\<close>

definition saved_receipts :: "int \<Rightarrow> receipt \<Rightarrow> receipt list \<Rightarrow> receipt list" where
  "saved_receipts now r rows =
     (let kept = filter (\<lambda>x. \<not> expired_receipt now x) rows in
      if \<exists>x \<in> set kept. receipt_keyed (rc_platform r) (rc_message r) x then kept else kept @ [r])"

definition rejected_redelivery :: "int \<Rightarrow> string \<Rightarrow> string \<Rightarrow> receipt list \<Rightarrow> receipt list" where
  "rejected_redelivery now platform messageID = map (\<lambda>r. if receipt_keyed platform messageID r \<and> rc_state r = InboundPending
     then r\<lparr>rc_error := ''redelivery rejected: content changed'', rc_updated := Unix now\<rparr> else r)"

definition BeginInboundMatching :: "(string \<Rightarrow> string option) option \<Rightarrow> int \<Rightarrow> string \<Rightarrow> string \<Rightarrow> string \<Rightarrow> InboundOwner \<Rightarrow> receipt list
    \<Rightarrow> (inbound_error + string) \<times> receipt list" where
  "BeginInboundMatching essential now rawPlatform rawMessage payload owner rows =
     (let platform = TrimSpace rawPlatform; messageID = TrimSpace rawMessage in
      if platform = [] \<or> messageID = [] \<or> payload = [] \<or> io_tenant owner = [] \<or> io_person owner = [] then (Inl InboundIncomplete, rows)
      else (let saved = saved_receipts now (new_receipt now platform messageID payload owner) rows in
        case find (receipt_keyed platform messageID) saved of
          None \<Rightarrow> (Inl NoReceipt, saved)
        | Some r \<Rightarrow>
            if rc_tenant r \<noteq> [] \<and> (rc_tenant r \<noteq> io_tenant owner \<or> rc_person r \<noteq> io_person owner) then (Inl ErrInboundConflict, saved)
            else if rc_state r \<noteq> InboundPending \<or> rc_payload r = [] \<or> sameInboundMessage essential (rc_payload r) payload then (Inr (rc_state r), saved)
            else (Inl ErrInboundConflict, rejected_redelivery now platform messageID saved)))"

definition BeginInbound :: "int \<Rightarrow> string \<Rightarrow> string \<Rightarrow> string \<Rightarrow> InboundOwner \<Rightarrow> receipt list \<Rightarrow> (inbound_error + string) \<times> receipt list" where
  "BeginInbound now platform messageID payload owner rows = BeginInboundMatching None now platform messageID payload owner rows"

definition ListUncertainInboundForPerson :: "string \<Rightarrow> string \<Rightarrow> int \<Rightarrow> receipt list \<Rightarrow> inbound_error + receipt list" where
  "ListUncertainInboundForPerson tenantID personID limit rows =
     (if tenantID = [] \<or> personID = [] then Inl InboundIncomplete
      else Inr (take (if limit \<le> 0 \<or> limit > 20 then 20 else nat limit) (sort_key (\<lambda>r. (- rc_updated r, rc_platform r, rc_message r))
        (filter (\<lambda>r. rc_tenant r = tenantID \<and> rc_person r = personID \<and> rc_state r \<noteq> InboundAccepted) rows))))"

section \<open>Claims\<close>

definition unclaimed :: "string \<Rightarrow> string \<Rightarrow> receipt \<Rightarrow> bool" where
  "unclaimed platform messageID r = (receipt_keyed platform messageID r \<and> rc_state r = InboundPending)"

definition claimed_receipt :: "int \<Rightarrow> receipt \<Rightarrow> receipt" where
  "claimed_receipt now r = r\<lparr>rc_state := InboundDispatching, rc_updated := Unix now, rc_generation := rc_generation r + 1\<rparr>"

definition ClaimInbound :: "int \<Rightarrow> string \<Rightarrow> string \<Rightarrow> receipt list \<Rightarrow> int \<times> receipt list" where
  "ClaimInbound now platform messageID rows =
     (case filter (unclaimed platform messageID) rows of
        [] \<Rightarrow> (0, rows)
      | r # _ \<Rightarrow> (rc_generation (claimed_receipt now r),
          map (\<lambda>r. if unclaimed platform messageID r then claimed_receipt now r else r) rows))"

definition InboundReceiptClaim :: "string \<Rightarrow> string \<Rightarrow> receipt list \<Rightarrow> (string \<times> int) option" where
  "InboundReceiptClaim platform messageID rows = map_option (\<lambda>r. (rc_state r, rc_generation r)) (find (receipt_keyed platform messageID) rows)"

definition InboundReceipt :: "string \<Rightarrow> string \<Rightarrow> receipt list \<Rightarrow> (string \<times> string) option" where
  "InboundReceipt platform messageID rows = map_option (\<lambda>r. (rc_state r, rc_payload r)) (find (receipt_keyed platform messageID) rows)"

definition inboundClaimHolds :: "string \<Rightarrow> string \<Rightarrow> int \<Rightarrow> receipt \<Rightarrow> bool" where
  "inboundClaimHolds platform messageID generation r =
     (receipt_keyed platform messageID r \<and> rc_state r = InboundDispatching \<and> rc_generation r = generation)"

definition transitionInboundClaim :: "(receipt \<Rightarrow> receipt) \<Rightarrow> string \<Rightarrow> string \<Rightarrow> int \<Rightarrow> receipt list \<Rightarrow> (inbound_error + unit) \<times> receipt list" where
  "transitionInboundClaim update platform messageID generation rows =
     (if generation \<le> 0 then (Inl ErrInboundNotOwned, rows)
      else (let holds = inboundClaimHolds platform messageID generation in
        (if length (filter holds rows) \<noteq> 1 then Inl ErrInboundNotOwned else Inr (),
         map (\<lambda>r. if holds r then update r else r) rows)))"

definition AcceptInbound :: "int \<Rightarrow> string \<Rightarrow> string \<Rightarrow> int \<Rightarrow> receipt list \<Rightarrow> (inbound_error + unit) \<times> receipt list" where
  "AcceptInbound now = transitionInboundClaim (\<lambda>r. r\<lparr>rc_state := InboundAccepted, rc_error := [], rc_updated := Unix now\<rparr>)"

definition ReleaseInbound :: "int \<Rightarrow> string \<Rightarrow> string \<Rightarrow> int \<Rightarrow> string \<Rightarrow> receipt list \<Rightarrow> (inbound_error + unit) \<times> receipt list" where
  "ReleaseInbound now platform messageID generation reason =
     transitionInboundClaim (\<lambda>r. r\<lparr>rc_state := InboundPending, rc_error := of_runes (take 240 (runes (TrimSpace reason))), rc_updated := Unix now\<rparr>)
       platform messageID generation"

definition inboundReason :: "string \<Rightarrow> string" where
  "inboundReason message = take 240 message"

definition NoteInboundFailure :: "int \<Rightarrow> string \<Rightarrow> string \<Rightarrow> int \<Rightarrow> string option \<Rightarrow> receipt list \<Rightarrow> (inbound_error + unit) \<times> receipt list" where
  "NoteInboundFailure now platform messageID generation failure rows =
     (case failure of
        None \<Rightarrow> (Inr (), rows)
      | Some message \<Rightarrow> transitionInboundClaim (\<lambda>r. r\<lparr>rc_error := inboundReason message, rc_updated := Unix now\<rparr>) platform messageID generation rows)"

definition NoteUnexplainedInbound :: "int \<Rightarrow> string \<Rightarrow> string \<Rightarrow> int \<Rightarrow> string option \<Rightarrow> receipt list \<Rightarrow> receipt list" where
  "NoteUnexplainedInbound now platform messageID generation failure rows =
     (case failure of
        None \<Rightarrow> rows
      | Some message \<Rightarrow>
          if generation \<le> 0 then rows
          else map (\<lambda>r. if inboundClaimHolds platform messageID generation r \<and> rc_error r = []
            then r\<lparr>rc_error := inboundReason message, rc_updated := Unix now\<rparr> else r) rows)"

text \<open>
  Any operation at any time up to \<open>limit\<close>, in seconds; \<open>may_release\<close> tells which claims their holders may give back.
\<close>

inductive inbound_step :: "(string \<Rightarrow> string \<Rightarrow> int \<Rightarrow> bool) \<Rightarrow> int \<Rightarrow> receipt list \<Rightarrow> receipt list \<Rightarrow> bool"
  for may_release :: "string \<Rightarrow> string \<Rightarrow> int \<Rightarrow> bool" and limit :: int where
  save: "Unix now \<le> limit \<Longrightarrow> inbound_step may_release limit rows (snd (BeginInboundMatching essential now platform messageID payload owner rows))"
| claim: "inbound_step may_release limit rows (snd (ClaimInbound now platform messageID rows))"
| accept: "inbound_step may_release limit rows (snd (AcceptInbound now platform messageID generation rows))"
| give_back: "may_release platform messageID generation \<Longrightarrow> inbound_step may_release limit rows (snd (ReleaseInbound now platform messageID generation reason rows))"
| note_failure: "inbound_step may_release limit rows (snd (NoteInboundFailure now platform messageID generation failure rows))"
| note_unexplained: "inbound_step may_release limit rows (NoteUnexplainedInbound now platform messageID generation failure rows)"

inductive inbound_steps :: "(string \<Rightarrow> string \<Rightarrow> int \<Rightarrow> bool) \<Rightarrow> int \<Rightarrow> receipt list \<Rightarrow> receipt list \<Rightarrow> bool"
  for may_release :: "string \<Rightarrow> string \<Rightarrow> int \<Rightarrow> bool" and limit :: int where
  none: "inbound_steps may_release limit rows rows"
| more: "inbound_steps may_release limit rows rows' \<Longrightarrow> inbound_step may_release limit rows' rows'' \<Longrightarrow> inbound_steps may_release limit rows rows''"

section \<open>The life of a receipt\<close>

definition receipts_ok :: "receipt list \<Rightarrow> bool" where
  "receipts_ok rows = (distinct (map (\<lambda>r. (rc_platform r, rc_message r)) rows) \<and> list_all (\<lambda>r. 0 \<le> rc_generation r) rows)"

definition receipt_evolves :: "receipt \<Rightarrow> receipt \<Rightarrow> bool" where
  "receipt_evolves r r' = (rc_platform r' = rc_platform r \<and> rc_message r' = rc_message r \<and> rc_created r' = rc_created r \<and> rc_payload r' = rc_payload r
     \<and> rc_tenant r' = rc_tenant r \<and> rc_person r' = rc_person r \<and> rc_preview r' = rc_preview r \<and> rc_generation r \<le> rc_generation r'
     \<and> (rc_generation r' = rc_generation r \<and> rc_state r = InboundPending \<longrightarrow> rc_state r' = InboundPending)
     \<and> (rc_state r = InboundAccepted \<longrightarrow> rc_state r' = InboundAccepted \<and> rc_generation r' = rc_generation r))"

lemmas inbound_states = InboundPending_def InboundDispatching_def InboundAccepted_def

lemma receipt_evolves_refl: "receipt_evolves r r"
  by (simp add: receipt_evolves_def)

lemma receipt_evolves_trans: "receipt_evolves a b \<Longrightarrow> receipt_evolves b c \<Longrightarrow> receipt_evolves a c"
  by (auto simp: receipt_evolves_def)

interpretation claiming: row_statement receipt_evolves "unclaimed platform messageID" "claimed_receipt now" for platform messageID now
  by unfold_locales (simp_all add: receipt_evolves_def unclaimed_def claimed_receipt_def inbound_states)

interpretation accepting: row_statement receipt_evolves "inboundClaimHolds platform messageID generation"
    "\<lambda>r. r\<lparr>rc_state := InboundAccepted, rc_error := [], rc_updated := t\<rparr>" for platform messageID generation t
  by unfold_locales (simp_all add: receipt_evolves_def inboundClaimHolds_def inbound_states)

interpretation releasing: row_statement receipt_evolves "inboundClaimHolds platform messageID generation"
    "\<lambda>r. r\<lparr>rc_state := InboundPending, rc_error := why, rc_updated := t\<rparr>" for platform messageID generation why t
  by unfold_locales (simp_all add: receipt_evolves_def inboundClaimHolds_def inbound_states)

interpretation noting: row_statement receipt_evolves P "\<lambda>r. r\<lparr>rc_error := why, rc_updated := t\<rparr>" for P why t
  by unfold_locales (simp_all add: receipt_evolves_def)

text \<open>What a sequence of operations may do to the table: receipts evolve, new ones are added, and only accepted ones are forgotten,
  once they are older than the retention.\<close>

definition receipts_grow :: "int \<Rightarrow> receipt list \<Rightarrow> receipt list \<Rightarrow> bool" where
  "receipts_grow limit rows rows' = (receipts_ok rows \<longrightarrow> receipts_ok rows' \<and> (\<forall>r \<in> set rows. \<exists>r'. receipt_evolves r r'
     \<and> (r' \<in> set rows' \<or> rc_state r' = InboundAccepted \<and> rc_created r + 172800 < limit)))"

lemma retention_seconds: "inboundDedupRetention div second = 172800"
  by (simp add: inboundDedupRetention_def second_def)

lemma update_ok:
  assumes "list_all2 receipt_evolves rows rows'" and "receipts_ok rows"
  shows "receipts_ok rows'"
proof -
  have "map (\<lambda>r. (rc_platform r, rc_message r)) rows' = map (\<lambda>r. (rc_platform r, rc_message r)) rows"
    using assms(1) by (induction rule: list_all2_induct) (simp_all add: receipt_evolves_def)
  moreover have "list_all (\<lambda>r. 0 \<le> rc_generation r) rows \<Longrightarrow> list_all (\<lambda>r. 0 \<le> rc_generation r) rows'"
    using assms(1) by (induction rule: list_all2_induct) (simp_all add: receipt_evolves_def)
  ultimately show ?thesis using assms(2) by (simp add: receipts_ok_def)
qed

lemma update_grows:
  assumes "list_all2 receipt_evolves rows rows'"
  shows "receipts_grow limit rows rows'"
proof -
  have "\<exists>r'. receipt_evolves r r' \<and> r' \<in> set rows'" if "r \<in> set rows" for r
    using assms that by (metis in_set_conv_nth list_all2_conv_all_nth)
  then show ?thesis using update_ok [OF assms] by (auto simp: receipts_grow_def)
qed

lemma receipts_grow_trans:
  assumes "receipts_grow limit a b" and "receipts_grow limit b c"
  shows "receipts_grow limit a c"
  unfolding receipts_grow_def
proof (intro impI conjI ballI)
  assume ok: "receipts_ok a"
  then show "receipts_ok c" using assms by (simp add: receipts_grow_def)
  fix r assume "r \<in> set a"
  then obtain r' where r': "receipt_evolves r r'" "r' \<in> set b \<or> rc_state r' = InboundAccepted \<and> rc_created r + 172800 < limit"
    using assms(1) ok by (auto simp: receipts_grow_def)
  show "\<exists>r''. receipt_evolves r r'' \<and> (r'' \<in> set c \<or> rc_state r'' = InboundAccepted \<and> rc_created r + 172800 < limit)"
  proof (cases "r' \<in> set b")
    case True
    then obtain r'' where "receipt_evolves r' r''" "r'' \<in> set c \<or> rc_state r'' = InboundAccepted \<and> rc_created r' + 172800 < limit"
      using assms ok by (auto simp: receipts_grow_def)
    moreover have "rc_created r' = rc_created r" using r'(1) by (simp add: receipt_evolves_def)
    ultimately show ?thesis using receipt_evolves_trans [OF r'(1)] by auto
  qed (use r' in blast)
qed

lemma saved_ok: "receipts_ok rows \<Longrightarrow> 0 \<le> rc_generation r \<Longrightarrow> receipts_ok (saved_receipts now r rows)"
  by (auto simp: saved_receipts_def receipts_ok_def Let_def receipt_keyed_def distinct_map_filter list_all_iff)

lemma saved_grows:
  assumes "Unix now \<le> limit" and "0 \<le> rc_generation new"
  shows "receipts_grow limit rows (saved_receipts now new rows)"
proof -
  have "\<exists>r'. receipt_evolves r r' \<and> (r' \<in> set (saved_receipts now new rows) \<or> rc_state r' = InboundAccepted \<and> rc_created r + 172800 < limit)"
    if "r \<in> set rows" for r
  proof (intro exI [of _ r] conjI receipt_evolves_refl)
    show "r \<in> set (saved_receipts now new rows) \<or> rc_state r = InboundAccepted \<and> rc_created r + 172800 < limit"
      using that assms by (cases "expired_receipt now r") (auto simp: saved_receipts_def Let_def expired_receipt_def retention_seconds)
  qed
  then show ?thesis using saved_ok [OF _ assms(2)] by (auto simp: receipts_grow_def)
qed

lemma receipts_grow_refl: "receipts_grow limit rows rows"
  by (rule update_grows) (simp add: list.rel_refl receipt_evolves_refl)

lemma begin_grows:
  assumes "Unix now \<le> limit"
  shows "receipts_grow limit rows (snd (BeginInboundMatching essential now platform messageID payload owner rows))"
proof -
  let ?new = "new_receipt now (TrimSpace platform) (TrimSpace messageID) payload owner"
  have saved: "receipts_grow limit rows (saved_receipts now ?new rows)" by (rule saved_grows [OF assms]) (simp add: new_receipt_def)
  moreover have "receipts_grow limit x (rejected_redelivery now p m x)" for p m x
    unfolding rejected_redelivery_def by (rule update_grows [OF noting.rows_evolve])
  ultimately show ?thesis
    by (auto simp: BeginInboundMatching_def Let_def intro: receipts_grow_refl receipts_grow_trans split: option.split)
qed

lemma claim_transition_grows:
  assumes "list_all2 receipt_evolves rows (map (\<lambda>r. if inboundClaimHolds platform messageID generation r then update r else r) rows)"
  shows "receipts_grow limit rows (snd (transitionInboundClaim update platform messageID generation rows))"
  using update_grows [OF assms] receipts_grow_refl by (simp add: transitionInboundClaim_def Let_def)

lemma inbound_step_grows:
  assumes "inbound_step may_release limit rows rows'"
  shows "receipts_grow limit rows rows'"
  using assms
proof cases
  case save
  then show ?thesis by (simp add: begin_grows)
next
  case claim
  then show ?thesis using update_grows [OF claiming.rows_evolve] receipts_grow_refl by (auto simp: ClaimInbound_def split: list.split)
next
  case accept
  then show ?thesis by (simp add: AcceptInbound_def claim_transition_grows accepting.rows_evolve)
next
  case give_back
  then show ?thesis by (simp add: ReleaseInbound_def claim_transition_grows releasing.rows_evolve)
next
  case note_failure
  then show ?thesis by (auto simp: NoteInboundFailure_def claim_transition_grows noting.rows_evolve receipts_grow_refl split: option.split)
next
  case note_unexplained
  then show ?thesis using update_grows [OF noting.rows_evolve] receipts_grow_refl by (auto simp: NoteUnexplainedInbound_def split: option.split)
qed

lemma inbound_steps_grow: "inbound_steps may_release limit rows rows' \<Longrightarrow> receipts_grow limit rows rows'"
  by (induction rule: inbound_steps.induct) (auto intro: receipts_grow_refl receipts_grow_trans dest: inbound_step_grows)

section \<open>One dispatcher per message\<close>

lemma same_receipt:
  assumes "receipts_ok rows" and "r \<in> set rows" and "r' \<in> set rows" and "receipt_keyed platform messageID r" and "receipt_keyed platform messageID r'"
  shows "r = r'"
proof -
  have "inj_on (\<lambda>r. (rc_platform r, rc_message r)) (set rows)" using assms(1) by (simp add: receipts_ok_def distinct_map)
  from inj_onD [OF this _ assms(2,3)] assms(4,5) show ?thesis by (simp add: receipt_keyed_def)
qed

lemma claim_row:
  assumes "ClaimInbound now platform messageID rows = (g, rows')" and "g \<noteq> 0"
  obtains r where "r \<in> set rows" and "unclaimed platform messageID r" and "g = rc_generation r + 1" and "claimed_receipt now r \<in> set rows'"
proof -
  from assms obtain r rest where f: "filter (unclaimed platform messageID) rows = r # rest" and g: "g = rc_generation (claimed_receipt now r)"
    and rows': "rows' = map (\<lambda>r. if unclaimed platform messageID r then claimed_receipt now r else r) rows"
    by (auto simp: ClaimInbound_def split: list.splits)
  from f have r: "r \<in> set rows" "unclaimed platform messageID r" by (auto dest: filter_eq_ConsD)
  then have "claimed_receipt now r \<in> set rows'" unfolding rows' by (auto simp: image_iff intro!: bexI [of _ r])
  with r g show ?thesis using that by (simp add: claimed_receipt_def)
qed








lemma claim_ok: "receipts_ok rows \<Longrightarrow> ClaimInbound now platform messageID rows = (g, rows') \<Longrightarrow> receipts_ok rows'"
  using inbound_step_grows [OF inbound_step.claim [of "\<lambda>_ _ _. True" 0 rows now platform messageID]] by (simp add: receipts_grow_def)


lemma evolved_receipt:
  assumes "inbound_steps may_release limit rows rows'" and "receipts_ok rows" and "r \<in> set rows" and "limit \<le> rc_created r + 172800"
  obtains r' where "r' \<in> set rows'" and "receipt_evolves r r'"
  using inbound_steps_grow [OF assms(1)] assms(2-4) that by (force simp: receipts_grow_def)

lemma steps_ok: "inbound_steps may_release limit rows rows' \<Longrightarrow> receipts_ok rows \<Longrightarrow> receipts_ok rows'"
  using inbound_steps_grow by (auto simp: receipts_grow_def)

text \<open>A late dispatcher is powerless: when a receipt was given back and claimed again, the later claim has a larger number, and nothing
  an earlier claim sends from then on, at any time within the retention, changes the receipt; it is told that it does not hold it.\<close>

theorem stale_dispatcher_powerless:
  assumes "ClaimInbound now platform messageID rows = (g, rows1)" and "g \<noteq> 0" and "receipts_ok rows"
    and "inbound_steps may_release limit rows1 rows2"
    and "ClaimInbound later platform messageID rows2 = (g', rows3)" and "g' \<noteq> 0"
    and "inbound_steps may_release limit rows3 rows4"
    and "\<forall>r \<in> set rows. receipt_keyed platform messageID r \<longrightarrow> limit \<le> rc_created r + 172800"
  shows "g < g' \<and> transitionInboundClaim update platform messageID g rows4 = (Inl ErrInboundNotOwned, rows4)"
proof -
  obtain r where r: "r \<in> set rows" "unclaimed platform messageID r" "g = rc_generation r + 1" "claimed_receipt now r \<in> set rows1"
    by (rule claim_row [OF assms(1,2)])
  have limit: "limit \<le> rc_created r + 172800" using assms(8) r(1,2) by (simp add: unclaimed_def)
  note ok1 = claim_ok [OF assms(3,1)]
  note ok2 = steps_ok [OF assms(4) ok1]
  note ok3 = claim_ok [OF ok2 assms(5)]
  note ok4 = steps_ok [OF assms(7) ok3]
  obtain r2 where r2: "r2 \<in> set rows2" "receipt_evolves (claimed_receipt now r) r2"
    by (rule evolved_receipt [OF assms(4) ok1 r(4)]) (use limit in \<open>simp add: claimed_receipt_def\<close>)
  obtain x where x: "x \<in> set rows2" "unclaimed platform messageID x" "g' = rc_generation x + 1" "claimed_receipt later x \<in> set rows3"
    by (rule claim_row [OF assms(5,6)])
  have "receipt_keyed platform messageID r2" using r2(2) r(2) by (simp add: receipt_evolves_def claimed_receipt_def receipt_keyed_def unclaimed_def)
  then have "x = r2" using same_receipt [OF ok2 x(1) r2(1), of platform messageID] x(2) by (simp add: unclaimed_def)
  then have g': "g < g'" "rc_created x = rc_created r" using r2(2) r(3) x(3) by (simp_all add: receipt_evolves_def claimed_receipt_def)
  obtain r4 where r4: "r4 \<in> set rows4" "receipt_evolves (claimed_receipt later x) r4"
    by (rule evolved_receipt [OF assms(7) ok3 x(4)]) (use limit g' in \<open>simp add: claimed_receipt_def\<close>)
  have gen4: "g' \<le> rc_generation r4" "receipt_keyed platform messageID r4"
    using r4(2) x(2,3) by (simp_all add: receipt_evolves_def claimed_receipt_def receipt_keyed_def unclaimed_def)
  have none: "\<not> inboundClaimHolds platform messageID g y" if "y \<in> set rows4" for y
    using same_receipt [OF ok4 that r4(1), of platform messageID] gen4 g'(1) by (auto simp: inboundClaimHolds_def)
  then have "filter (inboundClaimHolds platform messageID g) rows4 = []" by (simp add: filter_empty_conv)
  moreover have "map (\<lambda>r. if inboundClaimHolds platform messageID g r then update r else r) rows4 = rows4" by (rule map_idI) (simp add: none)
  ultimately show ?thesis using g'(1) by (simp add: transitionInboundClaim_def Let_def)
qed


section \<open>Examples\<close>

definition sample_owner :: InboundOwner where
  "sample_owner = \<lparr>io_tenant = ''t'', io_person = ''p'', io_preview = []\<rparr>"

abbreviation sample_receipts :: "receipt list" where
  "sample_receipts \<equiv> [new_receipt 0 ''tg'' ''1'' ''x'' sample_owner]"

lemma sample_receipts_ok: "receipts_ok sample_receipts"
  by (simp add: receipts_ok_def new_receipt_def)

lemma sample_claimed: "ClaimInbound 0 ''tg'' ''1'' sample_receipts = (1, [claimed_receipt 0 (new_receipt 0 ''tg'' ''1'' ''x'' sample_owner)])"
  by (simp add: ClaimInbound_def unclaimed_def receipt_keyed_def new_receipt_def claimed_receipt_def)

lemma sample_limit: "\<forall>r \<in> set sample_receipts. receipt_keyed ''tg'' ''1'' r \<longrightarrow> 100 \<le> rc_created r + 172800"
  by (simp add: new_receipt_def Unix_def)


theorem stale_dispatcher_powerless_witness:
  "\<exists>rows. transitionInboundClaim id ''tg'' ''1'' 1 rows = (Inl ErrInboundNotOwned, rows) \<and> rows \<noteq> []"
proof -
  let ?r = "claimed_receipt 0 (new_receipt 0 ''tg'' ''1'' ''x'' sample_owner)"
  let ?rows2 = "snd (ReleaseInbound 0 ''tg'' ''1'' 1 [] [?r])"
  have s: "inbound_steps (\<lambda>_ _ _. True) 100 [?r] ?rows2"
    by (rule inbound_steps.more [OF inbound_steps.none inbound_step.give_back]) simp
  obtain rows3 where c: "ClaimInbound 0 ''tg'' ''1'' ?rows2 = (2, rows3)" "rows3 \<noteq> []"
    by (simp add: ReleaseInbound_def transitionInboundClaim_def inboundClaimHolds_def ClaimInbound_def unclaimed_def receipt_keyed_def new_receipt_def
        claimed_receipt_def)
  from stale_dispatcher_powerless [OF sample_claimed _ sample_receipts_ok s c(1) _ inbound_steps.none sample_limit, of id] c(2) show ?thesis by auto
qed


end
