(* ===== verification/TextBounds.thy ===== *)
theory TextBounds
  imports GoStrings
begin

text \<open>
  Bounded text: \<^verbatim>\<open>internal/platform/textutil/truncate.go\<close>. Texts that are stored, shown or sent to a model are cut to a number of
  bytes without splitting a character. \<open>valid_utf8\<close> is \<^verbatim>\<open>utf8.ValidString\<close>. The product \<^verbatim>\<open>keepBytes*2\<close> is computed in 64 bits, as
  Go computes it on the supported platforms.
\<close>

section \<open>Valid text\<close>

definition valid_utf8 :: "string \<Rightarrow> bool" where
  "valid_utf8 s = list_all (\<lambda>c. fst c \<noteq> None) (chunks s)"

definition replacement :: string where
  "replacement = map char_of [239, 191, 189 :: nat]"

definition CleanUTF8 :: "string \<Rightarrow> string" where
  "CleanUTF8 s = ReplaceAll (ToValidUTF8 s) replacement []"

primrec cut_valid :: "string \<Rightarrow> nat \<Rightarrow> nat" where
  "cut_valid s 0 = 0"
| "cut_valid s (Suc n) = (if \<not> valid_utf8 (take (Suc n) s) then cut_valid s n else Suc n)"

definition TruncateBytes :: "string \<Rightarrow> int \<Rightarrow> string" where
  "TruncateBytes s0 limit =
     (let s = CleanUTF8 s0 in
      if limit \<le> 0 then [] else if int (length s) \<le> limit then s else take (cut_valid s (nat limit)) s)"

text \<open>\<^verbatim>\<open>utf8.RuneStart\<close> is the negation of \<open>cont\<close>.\<close>

primrec rune_back :: "string \<Rightarrow> nat \<Rightarrow> nat" where
  "rune_back s 0 = 0"
| "rune_back s (Suc n) = (if cont (byte (s ! Suc n)) then rune_back s n else Suc n)"

definition RuneBoundary :: "string \<Rightarrow> int \<Rightarrow> nat" where
  "RuneBoundary s i = (if i \<le> 0 then 0 else if int (length s) \<le> i then length s else rune_back s (nat i))"

definition Truncate :: "string \<Rightarrow> int \<Rightarrow> string" where
  "Truncate s0 limit =
     (if limit \<le> 0 then []
      else (let s = CleanUTF8 s0 in if int (length s) \<le> limit then s else TruncateBytes s limit @ ''...''))"

function tail_start :: "string \<Rightarrow> nat \<Rightarrow> nat" where
  "tail_start s start = (if start < length s \<and> \<not> valid_utf8 (drop start s) then tail_start s (Suc start) else start)"
  by pat_completeness auto
termination by (relation "measure (\<lambda>(s, start). length s - start)") auto

declare tail_start.simps [simp del]

definition TailBytes :: "string \<Rightarrow> int \<Rightarrow> string" where
  "TailBytes s0 limit =
     (let s = CleanUTF8 s0 in
      if limit \<le> 0 then [] else if int (length s) \<le> limit then s else drop (tail_start s (length s - nat limit)) s)"

definition HeadTail :: "string \<Rightarrow> int \<Rightarrow> string \<Rightarrow> string" where
  "HeadTail s0 keepBytes marker =
     (let s = CleanUTF8 s0 in
      if keepBytes \<le> 0 \<or> int (length s) \<le> signed_take_bit 63 (keepBytes * 2) then s
      else TruncateBytes s keepBytes @ marker @ TailBytes s keepBytes)"

section \<open>Decoding is self-synchronizing\<close>

text \<open>A chunk that decodes to a code point decodes to it whatever follows.\<close>

definition decodes :: "chunk \<Rightarrow> bool" where
  "decodes c = (snd c \<noteq> [] \<and> fst c \<noteq> None \<and> length (snd c) \<le> 4 \<and> list_all (\<lambda>b. cont (byte b)) (tl (snd c)) \<and> \<not> cont (byte (hd (snd c)))
     \<and> (\<forall>t. decode_rune (snd c @ t) = (fst c, length (snd c))))"

lemma decode_Some_width: "decode_rune s = (Some r, n) \<Longrightarrow> 1 \<le> n \<and> n \<le> 4 \<and> n \<le> length s"
  by (cases s) (auto simp: Let_def split: if_splits list.splits)

lemma decode_Some_bytes: "decode_rune s = (Some r, n) \<Longrightarrow> list_all (\<lambda>b. cont (byte b)) (tl (take n s)) \<and> \<not> cont (byte (hd s))"
  by (cases s) (auto simp: Let_def cont_def second_lo_def second_hi_def split: if_splits list.splits)

lemma decode_Some_extend: "decode_rune s = (Some r, n) \<Longrightarrow> decode_rune (take n s @ t) = (Some r, n)"
  by (cases s) (auto simp: Let_def split: if_splits list.splits)

lemma decode_decodes: "decode_rune s = (Some r, n) \<Longrightarrow> decodes (Some r, take n s)"
  using decode_Some_width [of s r n] decode_Some_bytes [of s r n] decode_Some_extend [of s r n]
  by (cases s) (auto simp: decodes_def min_def hd_take)

lemma chunks_decodes: "c \<in> set (chunks s) \<Longrightarrow> fst c \<noteq> None \<Longrightarrow> decodes c"
proof (induction s rule: chunks.induct)
  case (1 s)
  show ?case
  proof (cases "s = []")
    case False
    obtain d n where d: "decode_rune s = (d, n)" by fastforce
    have "chunks s = (d, take n s) # chunks (drop n s)" using False by (subst chunks.simps) (simp add: Let_def d)
    with "1.prems" "1.IH" [OF False refl] show ?thesis using decode_decodes [of s _ n] d by auto
  qed (use "1.prems" in simp)
qed

lemma chunks_step: "decodes c \<Longrightarrow> chunks (snd c @ t) = c # chunks t"
  by (subst chunks.simps) (auto simp: decodes_def Let_def)

lemma chunks_concat: "list_all decodes cs \<Longrightarrow> chunks (concat (map snd cs)) = cs"
  by (induction cs) (simp_all add: chunks_step)

lemma valid_decodes: "valid_utf8 s \<Longrightarrow> list_all decodes (chunks s)"
  using chunks_decodes by (auto simp: valid_utf8_def list_all_iff)

lemma valid_concat: "list_all decodes cs \<Longrightarrow> valid_utf8 (concat (map snd cs))"
  by (auto simp: valid_utf8_def chunks_concat list_all_iff decodes_def)

lemma valid_Nil [simp]: "valid_utf8 []"
  by (simp add: valid_utf8_def)

lemma valid_append: "valid_utf8 s \<Longrightarrow> valid_utf8 t \<Longrightarrow> valid_utf8 (s @ t)"
  using valid_concat [of "chunks s @ chunks t"] by (simp add: valid_decodes)

lemma ToValidUTF8_chunks: "chunks (ToValidUTF8 s) = filter (\<lambda>c. fst c \<noteq> None) (chunks s)"
  unfolding ToValidUTF8_def by (rule chunks_concat) (auto simp: list_all_iff chunks_decodes)

section \<open>Cleaning\<close>

lemma nth_tl_mem: "Suc i < length w \<Longrightarrow> w ! Suc i \<in> set (tl w)"
  by (cases w) simp_all

lemma replace_skip:
  "(\<And>i. i < length w \<Longrightarrow> \<not> HasPrefix (drop i w @ rest) old) \<Longrightarrow> replace_from (w @ rest) old [] = w @ replace_from rest old []"
proof (induction w)
  case (Cons c w)
  have "\<not> HasPrefix (drop i w @ rest) old" if "i < length w" for i using Cons.prems [of "Suc i"] that by simp
  moreover have "\<not> HasPrefix (c # w @ rest) old" using Cons.prems [of 0] by simp
  ultimately show ?case using Cons.IH by simp
qed simp

lemma replacement_decodes: "decode_rune (replacement @ t) = (Some 65533, 3)"
  by (simp add: replacement_def byte_def cont_def second_lo_def second_hi_def Let_def)

lemma cons_of_bytes: "byte c = n \<Longrightarrow> c = char_of n"
  by (auto simp: byte_def)

lemma decodes_replacement:
  assumes "decodes (Some 65533, w)"
  shows "w = replacement"
proof -
  have d: "decode_rune w = (Some 65533, length w)" using assms by (auto simp: decodes_def dest: spec [of _ "[]"])
  then obtain a b c where w: "w = [a, b, c]" and n: "224 \<le> byte a" "byte a < 240" "128 \<le> byte b" "byte b \<le> 191" "128 \<le> byte c" "byte c \<le> 191"
      "(byte a - 224) * 4096 + (byte b - 128) * 64 + (byte c - 128) = 65533"
    by (cases w) (auto simp: Let_def cont_def second_lo_def second_hi_def split: if_splits list.splits)
  obtain x y z where xyz: "byte a = x + 224" "byte b = y + 128" "byte c = z + 128" using n le_Suc_ex by (metis add.commute)
  with n have e: "x < 16" "y < 64" "z < 64" "x * 4096 + y * 64 + z = 65533" by simp_all
  then have x: "x = 15" by linarith
  have y: "y = 63" using e unfolding x by linarith
  have z: "z = 61" using e unfolding x y by linarith
  have "byte a = 239" "byte b = 191" "byte c = 189" using xyz x y z by simp_all
  from this [THEN cons_of_bytes] show ?thesis by (simp add: w replacement_def)
qed

lemma cont_not_lead: "cont (byte c) \<Longrightarrow> \<not> HasPrefix (c # s) replacement"
  by (auto simp: replacement_def cont_def byte_def)

lemma replace_chunk:
  assumes "decodes c" and "fst c \<noteq> Some 65533"
  shows "replace_from (snd c @ rest) replacement [] = snd c @ replace_from rest replacement []"
proof (rule replace_skip)
  fix i assume i: "i < length (snd c)"
  show "\<not> HasPrefix (drop i (snd c) @ rest) replacement"
  proof (cases i)
    case 0
    have "decode_rune (snd c @ rest) \<noteq> (Some 65533, 3)" using assms by (simp add: decodes_def)
    then show ?thesis using replacement_decodes 0 by (auto simp: HasPrefix_iff prefix_def)
  next
    case (Suc j)
    have "drop i (snd c) = snd c ! i # drop (Suc i) (snd c)" using i by (simp add: Cons_nth_drop_Suc)
    moreover have "snd c ! i \<in> set (tl (snd c))" using i Suc nth_tl_mem by simp
    ultimately show ?thesis using cont_not_lead [of "snd c ! i"] assms(1) by (auto simp: decodes_def list_all_iff)
  qed
qed

lemma replace_chunks:
  "list_all decodes cs \<Longrightarrow> replace_from (concat (map snd cs)) replacement [] = concat (map snd (filter (\<lambda>c. fst c \<noteq> Some 65533) cs))"
proof (induction cs)
  case (Cons c cs)
  show ?case
  proof (cases "fst c = Some 65533")
    case True
    have w: "snd c = replacement" using Cons.prems decodes_replacement [of "snd c"] True by (cases c) simp
    have "replace_from (replacement @ t) replacement [] = replace_from t replacement []" for t
      by (simp add: replacement_def)
    then show ?thesis using Cons True by (simp add: w)
  qed (use Cons replace_chunk in simp)
qed simp

lemma clean_chunks:
  "CleanUTF8 s = concat (map snd (filter (\<lambda>c. fst c \<noteq> None \<and> fst c \<noteq> Some 65533) (chunks s)))
   \<and> chunks (CleanUTF8 s) = filter (\<lambda>c. fst c \<noteq> None \<and> fst c \<noteq> Some 65533) (chunks s)
   \<and> valid_utf8 (CleanUTF8 s) \<and> CleanUTF8 (CleanUTF8 s) = CleanUTF8 s"
proof -
  let ?cs = "filter (\<lambda>c. fst c \<noteq> None \<and> fst c \<noteq> Some 65533)"
  have eq: "CleanUTF8 t = concat (map snd (?cs (chunks t)))" for t
  proof -
    have v: "list_all decodes (filter (\<lambda>c. fst c \<noteq> None) (chunks t))" by (auto simp: list_all_iff chunks_decodes)
    have "replacement \<noteq> []" by (simp add: replacement_def)
    then have "CleanUTF8 t = replace_from (concat (map snd (filter (\<lambda>c. fst c \<noteq> None) (chunks t)))) replacement []"
      by (simp add: CleanUTF8_def ReplaceAll_def ToValidUTF8_def)
    also have "\<dots> = concat (map snd (?cs (chunks t)))" by (simp only: replace_chunks [OF v] filter_filter)
    finally show ?thesis .
  qed
  have "list_all decodes (?cs (chunks s))" by (auto simp: list_all_iff chunks_decodes)
  then have "chunks (CleanUTF8 s) = ?cs (chunks s)" "valid_utf8 (CleanUTF8 s)" unfolding eq by (simp_all add: chunks_concat valid_concat)
  then show ?thesis using eq by simp
qed

text \<open>Cleaning a text is what it is meant to be: the bytes of its characters stay, in order, and exactly the invalid bytes and the
  replacement characters are gone; so the result is valid, has none of them, and cleaning again changes nothing.\<close>

theorem CleanUTF8_characters:
  "CleanUTF8 s = concat (map snd (filter (\<lambda>c. fst c \<noteq> None \<and> fst c \<noteq> Some 65533) (chunks s)))
   \<and> chunks (CleanUTF8 s) = filter (\<lambda>c. fst c \<noteq> None \<and> fst c \<noteq> Some 65533) (chunks s)
   \<and> valid_utf8 (CleanUTF8 s) \<and> CleanUTF8 (CleanUTF8 s) = CleanUTF8 s"
  by (rule clean_chunks)

section \<open>Cutting\<close>

lemma clean_valid: "valid_utf8 (CleanUTF8 s)" and clean_idem: "CleanUTF8 (CleanUTF8 s) = CleanUTF8 s"
  using clean_chunks [of s] by blast+

lemma cut_valid_le: "cut_valid s n \<le> n"
  by (induction n) auto

lemma cut_valid_valid: "valid_utf8 (take (cut_valid s n) s)"
  by (induction n) auto

lemma cut_valid_longest: "m \<le> n \<Longrightarrow> valid_utf8 (take m s) \<Longrightarrow> m \<le> cut_valid s n"
  by (induction n) (auto simp: le_Suc_eq)

lemma tail_start_bounds: "n \<le> tail_start s n \<and> (n \<le> length s \<longrightarrow> tail_start s n \<le> length s)"
proof (induction s n rule: tail_start.induct)
  case (1 s n)
  then show ?case by (subst tail_start.simps, subst (2) tail_start.simps) (auto simp: Suc_le_eq)
qed

lemma tail_start_valid: "valid_utf8 (drop (tail_start s n) s)"
proof (induction s n rule: tail_start.induct)
  case (1 s n)
  then show ?case by (subst tail_start.simps) auto
qed

lemma tail_start_longest: "n \<le> m \<Longrightarrow> valid_utf8 (drop m s) \<Longrightarrow> tail_start s n \<le> m \<or> length s \<le> m"
proof (induction s n rule: tail_start.induct)
  case (1 s n)
  show ?case
  proof (cases "n < length s \<and> \<not> valid_utf8 (drop n s)")
    case True
    with "1.prems" have "Suc n \<le> m" by (cases "m = n") auto
    from "1.IH" [OF True this "1.prems"(2)] True show ?thesis by (subst tail_start.simps) simp
  next
    case False
    then show ?thesis using "1.prems"(1) by (subst tail_start.simps) auto
  qed
qed

text \<open>A character has at most four bytes, so a boundary is at most three bytes away on either side.\<close>

lemma boundary_before: "list_all decodes cs \<Longrightarrow> n \<le> length (concat (map snd cs)) \<Longrightarrow>
  \<exists>k. n \<le> k + 3 \<and> k \<le> n \<and> valid_utf8 (take k (concat (map snd cs)))"
proof (induction cs arbitrary: n)
  case (Cons c cs)
  show ?case
  proof (cases "n < length (snd c)")
    case True
    with Cons.prems have "n \<le> 3" by (simp add: decodes_def)
    then show ?thesis by (intro exI [of _ 0]) simp
  next
    case False
    have "n - length (snd c) \<le> length (concat (map snd cs))" using Cons.prems(2) by simp
    with Cons.prems(1) Cons.IH [of "n - length (snd c)"] obtain k where
      k: "n - length (snd c) \<le> k + 3" "k \<le> n - length (snd c)" "valid_utf8 (take k (concat (map snd cs)))" by auto
    moreover have "valid_utf8 (snd c)" using valid_concat [of "[c]"] Cons.prems by simp
    ultimately show ?thesis using False
      by (intro exI [of _ "length (snd c) + k"]) (auto intro!: valid_append)
  qed
qed simp

lemma boundary_after: "list_all decodes cs \<Longrightarrow> n \<le> length (concat (map snd cs)) \<Longrightarrow>
  \<exists>k. n \<le> k \<and> k \<le> n + 3 \<and> k \<le> length (concat (map snd cs)) \<and> valid_utf8 (drop k (concat (map snd cs)))"
proof (induction cs arbitrary: n)
  case (Cons c cs)
  have all: "valid_utf8 (concat (map snd (c # cs)))" "valid_utf8 (concat (map snd cs))" using valid_concat [of "c # cs"] valid_concat [of cs] Cons.prems by simp_all
  show ?case
  proof (cases "n \<le> length (snd c)")
    case True
    show ?thesis
    proof (cases "n = 0")
      case False
      with Cons.prems(1) have "length (snd c) \<le> n + 3" by (simp add: decodes_def)
      then show ?thesis using all True by (intro exI [of _ "length (snd c)"]) simp
    qed (use all in \<open>auto intro!: exI [of _ 0]\<close>)
  next
    case False
    have "n - length (snd c) \<le> length (concat (map snd cs))" using Cons.prems(2) by simp
    with Cons.prems(1) Cons.IH [of "n - length (snd c)"] obtain k where
      "n - length (snd c) \<le> k" "k \<le> n - length (snd c) + 3" "k \<le> length (concat (map snd cs))" "valid_utf8 (drop k (concat (map snd cs)))" by auto
    then show ?thesis using False by (intro exI [of _ "length (snd c) + k"]) auto
  qed
qed simp

lemma valid_boundary:
  assumes "valid_utf8 s" and "n \<le> length s"
  shows "\<exists>k. n \<le> k + 3 \<and> k \<le> n \<and> valid_utf8 (take k s)" and "\<exists>k. n \<le> k \<and> k \<le> n + 3 \<and> k \<le> length s \<and> valid_utf8 (drop k s)"
  using boundary_before [OF valid_decodes [OF assms(1)], of n] boundary_after [OF valid_decodes [OF assms(1)], of n] assms(2) by simp_all

lemma cut_valid_close: "valid_utf8 s \<Longrightarrow> n \<le> length s \<Longrightarrow> n \<le> cut_valid s n + 3"
  using valid_boundary(1) cut_valid_longest by (meson add_le_mono1 order_trans)

lemma TruncateBytes_facts:
  assumes "0 \<le> limit"
  shows "valid_utf8 (TruncateBytes s limit) \<and> prefix (TruncateBytes s limit) (CleanUTF8 s) \<and> int (length (TruncateBytes s limit)) \<le> limit
    \<and> (\<forall>p. prefix p (CleanUTF8 s) \<and> valid_utf8 p \<and> int (length p) \<le> limit \<longrightarrow> length p \<le> length (TruncateBytes s limit))
    \<and> min (int (length (CleanUTF8 s))) (limit - 3) \<le> int (length (TruncateBytes s limit))"
proof (cases "limit \<le> 0 \<or> int (length (CleanUTF8 s)) \<le> limit")
  case True
  then show ?thesis using assms clean_valid by (auto simp: TruncateBytes_def Let_def prefix_length_le)
next
  case False
  let ?s = "CleanUTF8 s" and ?n = "nat limit"
  have t: "TruncateBytes s limit = take (cut_valid ?s ?n) ?s" using False by (simp add: TruncateBytes_def Let_def)
  have n: "?n \<le> length ?s" "int ?n = limit" using False by linarith+
  have len: "length (TruncateBytes s limit) = cut_valid ?s ?n" unfolding t using cut_valid_le [of ?s ?n] n(1) by simp
  have "length p \<le> cut_valid ?s ?n" if "prefix p ?s" "valid_utf8 p" "int (length p) \<le> limit" for p
    using cut_valid_longest [of "length p" ?n ?s] that n by (auto simp: prefix_def)
  moreover have "limit - 3 \<le> int (cut_valid ?s ?n)" using cut_valid_close [OF clean_valid n(1)] n(2) by linarith
  moreover have "int (cut_valid ?s ?n) \<le> limit" using cut_valid_le [of ?s ?n] n(2) by linarith
  moreover have "valid_utf8 (TruncateBytes s limit)" "prefix (TruncateBytes s limit) ?s" unfolding t using cut_valid_valid take_is_prefix by blast+
  ultimately show ?thesis unfolding len by auto
qed

text \<open>C26. Truncation is the best cut: the result is valid text, a prefix of the cleaned text within the limit, no valid prefix within the
  limit is longer, and at most three bytes of the room are left unused.\<close>

theorem TruncateBytes_best_cut:
  assumes "0 \<le> limit"
  shows "valid_utf8 (TruncateBytes s limit) \<and> prefix (TruncateBytes s limit) (CleanUTF8 s) \<and> int (length (TruncateBytes s limit)) \<le> limit
    \<and> (\<forall>p. prefix p (CleanUTF8 s) \<and> valid_utf8 p \<and> int (length p) \<le> limit \<longrightarrow> length p \<le> length (TruncateBytes s limit))
    \<and> min (int (length (CleanUTF8 s))) (limit - 3) \<le> int (length (TruncateBytes s limit))"
  using assms by (rule TruncateBytes_facts)

lemma TailBytes_facts:
  "valid_utf8 (TailBytes s limit) \<and> suffix (TailBytes s limit) (CleanUTF8 s) \<and> (0 \<le> limit \<longrightarrow> int (length (TailBytes s limit)) \<le> limit)"
proof (cases "limit \<le> 0 \<or> int (length (CleanUTF8 s)) \<le> limit")
  case True
  then show ?thesis using clean_valid by (auto simp: TailBytes_def Let_def)
next
  case False
  let ?s = "CleanUTF8 s"
  let ?k = "tail_start ?s (length ?s - nat limit)"
  have "length ?s - nat limit \<le> ?k" using tail_start_bounds by blast
  then show ?thesis using False tail_start_valid by (auto simp: TailBytes_def Let_def suffix_drop)
qed

text \<open>A text shown by its head and tail stays bounded and readable: for every sensible budget the result is the cleaned text, or a valid prefix
  of it, the marker and a valid suffix of it, each of at most the budget, and never longer than twice the budget and the marker.\<close>

theorem HeadTail_bounded:
  assumes "0 < keep" and "keep < 2 ^ 62"
  shows "HeadTail s keep marker = CleanUTF8 s \<and> int (length (CleanUTF8 s)) \<le> 2 * keep
    \<or> (\<exists>h t. HeadTail s keep marker = h @ marker @ t \<and> prefix h (CleanUTF8 s) \<and> suffix t (CleanUTF8 s) \<and> valid_utf8 h \<and> valid_utf8 t
         \<and> int (length h) \<le> keep \<and> int (length t) \<le> keep \<and> int (length h) + int (length t) < int (length (CleanUTF8 s)))"
proof -
  let ?s = "CleanUTF8 s"
  have twice: "signed_take_bit 63 (keep * 2) = keep * 2" using assms by (intro signed_take_bit_int_eq_self) simp_all
  show ?thesis
  proof (cases "int (length ?s) \<le> keep * 2")
    case True
    then show ?thesis using assms by (simp add: HeadTail_def Let_def twice)
  next
    case False
    let ?h = "TruncateBytes ?s keep" and ?t = "TailBytes ?s keep"
    have "HeadTail s keep marker = ?h @ marker @ ?t" using False assms by (simp add: HeadTail_def Let_def twice)
    moreover have "valid_utf8 ?h" "prefix ?h ?s" "int (length ?h) \<le> keep" using TruncateBytes_facts [of keep ?s] assms by (simp_all add: clean_idem)
    moreover have "valid_utf8 ?t" "suffix ?t ?s" "int (length ?t) \<le> keep" using TailBytes_facts [of ?s keep] assms by (simp_all add: clean_idem)
    ultimately show ?thesis using False by (intro disjI2 exI [of _ ?h] exI [of _ ?t]) auto
  qed
qed

section \<open>Boundaries\<close>

lemma rune_back_le: "rune_back s n \<le> n"
  by (induction n) auto

lemma rune_back_decodes:
  "list_all decodes cs \<Longrightarrow> n < length (concat (map snd cs)) \<Longrightarrow>
   \<exists>k. rune_back (pre @ concat (map snd cs)) (length pre + n) = length pre + length (concat (map snd (take k cs))) \<and> k < length cs
     \<and> length (concat (map snd (take k cs))) \<le> n \<and> n < length (concat (map snd (take (Suc k) cs)))"
proof (induction cs arbitrary: pre n)
  case (Cons c cs)
  have c: "decodes c" and cs: "list_all decodes cs" using Cons.prems by simp_all
  show ?case
  proof (cases "n < length (snd c)")
    case True
    have "rune_back (pre @ snd c @ rest) (length pre + n) = length pre" for rest
      using True
    proof (induction n)
      case 0
      have "\<not> cont (byte (hd (snd c)))" using c by (simp add: decodes_def)
      then have "\<not> cont (byte ((pre @ snd c @ rest) ! length pre))" using 0 by (simp add: nth_append hd_conv_nth)
      then show ?case by (cases "length pre") simp_all
    next
      case (Suc m)
      have "snd c ! Suc m \<in> set (tl (snd c))" using Suc.prems by (rule nth_tl_mem)
      then have "cont (byte ((pre @ snd c @ rest) ! Suc (length pre + m)))" using c Suc.prems by (auto simp: decodes_def list_all_iff nth_append)
      with Suc show ?case by simp
    qed
    then show ?thesis using True by (intro exI [of _ 0]) simp
  next
    case False
    then have "n - length (snd c) < length (concat (map snd cs))" using Cons.prems(2) by simp
    from Cons.IH [OF cs this, of "pre @ snd c"] False show ?thesis
      by (elim exE) (rule_tac x = "Suc k" in exI, auto)
  qed
qed simp

text \<open>The boundary of a byte is the start of its character: in valid text, the text up to it is valid, it is not past the byte, and
  the byte lies within the next character.\<close>

theorem RuneBoundary_start:
  assumes "valid_utf8 s" and "0 \<le> i" and "i < int (length s)"
  shows "\<exists>k < length (chunks s). RuneBoundary s i = length (concat (map snd (take k (chunks s))))
    \<and> int (RuneBoundary s i) \<le> i \<and> i < int (RuneBoundary s i + length (snd (chunks s ! k))) \<and> valid_utf8 (take (RuneBoundary s i) s)"
proof -
  let ?cs = "chunks s"
  have "RuneBoundary s i = rune_back s (nat i)" using assms by (cases "i = 0") (simp_all add: RuneBoundary_def)
  moreover obtain k where k: "rune_back s (nat i) = length (concat (map snd (take k ?cs)))" "k < length ?cs"
      "length (concat (map snd (take k ?cs))) \<le> nat i" "nat i < length (concat (map snd (take (Suc k) ?cs)))"
    using rune_back_decodes [OF valid_decodes [OF assms(1)], of "nat i" "[]"] assms(2,3) by (auto simp: nat_less_iff)
  moreover have "take (length (concat (map snd (take k ?cs)))) s = concat (map snd (take k ?cs))"
    by (metis append_eq_conv_conj append_take_drop_id concat_append concat_chunks map_append)
  moreover have "valid_utf8 (concat (map snd (take k ?cs)))"
    using valid_decodes [OF assms(1)] by (intro valid_concat) (auto simp: list_all_iff dest: in_set_takeD)
  ultimately show ?thesis using assms(2) by (intro exI [of _ k]) (auto simp: take_Suc_conv_app_nth)
qed

section \<open>Examples\<close>

text \<open>Three letters, the second of two bytes; cut after the first byte of the second.\<close>

definition sample_text :: string where
  "sample_text = [CHR ''a'', char_of (195 :: nat), char_of (169 :: nat), CHR ''b'']"

lemma sample_text_chunks: "chunks sample_text = [(Some 97, [CHR ''a'']), (Some 233, [char_of (195 :: nat), char_of (169 :: nat)]), (Some 98, [CHR ''b''])]"
  by (simp add: sample_text_def chunks.simps byte_def cont_def Let_def)

lemma sample_text_clean: "CleanUTF8 sample_text = sample_text" "valid_utf8 sample_text"
  using clean_chunks [of sample_text] by (simp_all add: sample_text_chunks valid_utf8_def) (simp add: sample_text_def)

theorem TruncateBytes_best_cut_witness:
  "int (length (TruncateBytes sample_text 2)) \<le> 2 \<and> valid_utf8 (TruncateBytes sample_text 2) \<and> prefix (TruncateBytes sample_text 2) sample_text"
  using TruncateBytes_best_cut [of 2 sample_text] by (simp add: sample_text_clean)

theorem HeadTail_bounded_witness:
  "HeadTail sample_text 1 ''~'' = sample_text \<or> (\<exists>h t. HeadTail sample_text 1 ''~'' = h @ ''~'' @ t \<and> prefix h sample_text \<and> suffix t sample_text)"
  using HeadTail_bounded [of 1 sample_text "''~''"] by (auto simp: sample_text_clean)

theorem RuneBoundary_start_witness: "RuneBoundary sample_text 2 \<le> 2 \<and> valid_utf8 (take (RuneBoundary sample_text 2) sample_text)"
  using RuneBoundary_start [OF sample_text_clean(2), of 2] by (auto simp: sample_text_def)

end
