(* ===== verification/RedactionSpans.thy ===== *)
theory RedactionSpans
  imports TextBounds "HOL-Library.Multiset"
begin

text \<open>
  Masking of text: \<^verbatim>\<open>internal/tools/redaction_spans.go\<close>. A detector reports byte ranges of a text; their union is masked once.
  Some detectors work on a view of the text, in which terminal sequences and invisible characters are left out and
  escapes decoded, and map what they find back to the text.

  Offsets are natural numbers: no detector reports a negative one. A slice or an index out of range panics, which is \<^const>\<open>None\<close>.
  The argument \<open>cf\<close> is the table \<^verbatim>\<open>unicode.Cf\<close> of the format characters. \<^verbatim>\<open>sort.Slice\<close> is not stable; here it is
  \<^const>\<open>sort_key\<close>, and \<open>mergeSpans_sort\<close> shows that any other sort gives the same result.
\<close>

section \<open>Spans\<close>

record maskSpan =
  sp_start :: nat
  sp_end :: nat

definition span :: "nat \<Rightarrow> nat \<Rightarrow> maskSpan" where
  "span i j = \<lparr>sp_start = i, sp_end = j\<rparr>"

text \<open>The loop of \<^verbatim>\<open>mergeSpans\<close>; \<open>merged\<close> is kept with its last range first.\<close>

fun merge_loop :: "maskSpan list \<Rightarrow> maskSpan list \<Rightarrow> maskSpan list" where
  "merge_loop merged [] = rev merged"
| "merge_loop merged (s # spans) =
     (if sp_end s \<le> sp_start s then merge_loop merged spans
      else (case merged of
          m # rest \<Rightarrow>
            if sp_start s \<le> sp_end m then merge_loop (m\<lparr>sp_end := max (sp_end m) (sp_end s)\<rparr> # rest) spans
            else merge_loop (s # merged) spans
        | [] \<Rightarrow> merge_loop [s] spans))"

definition mergeSpans :: "maskSpan list \<Rightarrow> maskSpan list" where
  "mergeSpans spans = merge_loop [] (sort_key sp_start spans)"

definition redacted :: string where
  "redacted = ''[REDACTED]''"

text \<open>A slice \<^verbatim>\<open>text[i:j]\<close>.\<close>

definition text_slice :: "string \<Rightarrow> nat \<Rightarrow> nat \<Rightarrow> string option" where
  "text_slice text i j = (if i \<le> j \<and> j \<le> length text then Some (drop i (take j text)) else None)"

fun mask_loop :: "string \<Rightarrow> nat \<Rightarrow> maskSpan list \<Rightarrow> string option" where
  "mask_loop text pos [] = text_slice text pos (length text)"
| "mask_loop text pos (s # spans) =
     do { before \<leftarrow> text_slice text pos (sp_start s); rest \<leftarrow> mask_loop text (sp_end s) spans; Some (before @ redacted @ rest) }"

definition applyMasks :: "string \<Rightarrow> maskSpan list \<Rightarrow> string option" where
  "applyMasks text spans = (let merged = mergeSpans spans in if merged = [] then Some text else mask_loop text 0 merged)"

text \<open>\<^verbatim>\<open>sort.Search\<close>: binary search for the first index at which \<open>f\<close> holds.\<close>

function search_loop :: "(nat \<Rightarrow> bool) \<Rightarrow> nat \<Rightarrow> nat \<Rightarrow> nat" where
  "search_loop f i j =
     (if i < j then (let h = (i + j) div 2 in if \<not> f h then search_loop f (h + 1) j else search_loop f i h) else i)"
  by pat_completeness auto
termination
  by (relation "measure (\<lambda>(f, i, j). j - i)") auto

declare search_loop.simps [simp del]

definition Search :: "nat \<Rightarrow> (nat \<Rightarrow> bool) \<Rightarrow> nat" where
  "Search n f = search_loop f 0 n"

definition covered :: "maskSpan list \<Rightarrow> nat \<Rightarrow> bool" where
  "covered merged offset =
     (let i = Search (length merged) (\<lambda>i. sp_end (merged ! i) > offset) in i < length merged \<and> sp_start (merged ! i) \<le> offset)"

section \<open>Facts about spans\<close>

text \<open>The positions that spans cover, and the shape of merged spans: non-empty, ascending and apart.\<close>

definition positions :: "maskSpan list \<Rightarrow> nat set" where
  "positions spans = (\<Union>s \<in> set spans. {sp_start s..<sp_end s})"

definition apart :: "maskSpan list \<Rightarrow> bool" where
  "apart spans = (sorted_wrt (\<lambda>s t. sp_end s < sp_start t) spans \<and> (\<forall>s \<in> set spans. sp_start s < sp_end s))"

lemma positions_simps [simp]:
  "positions [] = {}" "positions (s # spans) = {sp_start s..<sp_end s} \<union> positions spans"
  "positions (xs @ ys) = positions xs \<union> positions ys" "positions (rev xs) = positions xs"
  by (auto simp: positions_def)

lemma positions_iff: "k \<in> positions spans \<longleftrightarrow> (\<exists>s \<in> set spans. sp_start s \<le> k \<and> k < sp_end s)"
  by (auto simp: positions_def)

lemma positions_mset: "mset xs = mset ys \<Longrightarrow> positions xs = positions ys"
  by (metis positions_def set_mset_mset)

lemma positions_sort [simp]: "positions (sort_key k xs) = positions xs"
  by (simp add: positions_def)

lemma spans_apart_Cons [simp]: "apart (s # spans) \<longleftrightarrow> sp_start s < sp_end s \<and> (\<forall>t \<in> set spans. sp_end s < sp_start t) \<and> apart spans"
  by (auto simp: apart_def)

lemma spans_apart_Nil [simp]: "apart []"
  by (simp add: apart_def)

lemma apart_snoc: "apart (xs @ [m]) \<longleftrightarrow> apart xs \<and> sp_start m < sp_end m \<and> (\<forall>t \<in> set xs. sp_end t < sp_start m)"
  by (auto simp: apart_def sorted_wrt_append)

lemma merge_loop_positions:
  assumes "sorted (map sp_start spans)" and "\<forall>m \<in> set merged. \<forall>s \<in> set spans. sp_start m \<le> sp_start s"
  shows "positions (merge_loop merged spans) = positions merged \<union> positions spans"
  using assms
proof (induction merged spans rule: merge_loop.induct)
  case (2 merged s spans)
  show ?case
  proof (cases "sp_end s \<le> sp_start s")
    case True
    then show ?thesis using 2 by simp
  next
    case False
    then show ?thesis using 2 by (cases merged) (auto simp: max_def)
  qed
qed simp

lemma merge_loop_apart: "apart (rev merged) \<Longrightarrow> sorted (map sp_start spans)
    \<Longrightarrow> \<forall>m \<in> set merged. \<forall>s \<in> set spans. sp_start m \<le> sp_start s \<Longrightarrow> apart (merge_loop merged spans)"
proof (induction merged spans rule: merge_loop.induct)
  case (2 merged s spans)
  show ?case
  proof (cases "sp_end s \<le> sp_start s")
    case True
    then show ?thesis using 2 by simp
  next
    case False
    show ?thesis
    proof (cases merged)
      case Nil
      then show ?thesis using 2 False by (simp add: apart_snoc)
    next
      case (Cons m rest)
      have new: "apart (rev (m\<lparr>sp_end := max (sp_end m) (sp_end s)\<rparr> # rest))" using "2.prems"(1) False
        by (auto simp: Cons apart_snoc max_def)
      have next_one: "apart (rev (s # merged))" if "\<not> sp_start s \<le> sp_end m" using "2.prems"(1) False that
        by (force simp: Cons apart_snoc simp del: append_assoc)
      have "apart (merge_loop (m\<lparr>sp_end := max (sp_end m) (sp_end s)\<rparr> # rest) spans)" if "sp_start s \<le> sp_end m"
        by (rule "2.IH"(3) [OF False Cons that new]) (use "2.prems"(2,3) in \<open>auto simp: Cons\<close>)
      moreover have "apart (merge_loop (s # merged) spans)" if "\<not> sp_start s \<le> sp_end m"
        by (rule "2.IH"(4) [OF False Cons that next_one [OF that]]) (use "2.prems"(2,3) in \<open>auto simp: Cons\<close>)
      ultimately show ?thesis using False by (simp add: Cons)
    qed
  qed
qed simp

lemma merge_sorted:
  assumes "sorted (map sp_start spans)"
  shows "apart (merge_loop [] spans)" and "positions (merge_loop [] spans) = positions spans"
  using merge_loop_apart [of "[]" spans] merge_loop_positions [of spans "[]"] assms by simp_all

lemma mergeSpans_apart [simp]: "apart (mergeSpans spans)"
  by (simp add: mergeSpans_def merge_sorted)

lemma mergeSpans_positions [simp]: "positions (mergeSpans spans) = positions spans"
  by (simp add: mergeSpans_def merge_sorted)

text \<open>Apart spans are determined by their positions.\<close>

lemma apart_min:
  assumes "apart (s # spans)"
  shows "sp_start s \<in> positions (s # spans)" and "\<forall>i \<in> positions (s # spans). sp_start s \<le> i" and "sp_end s \<notin> positions (s # spans)"
    and "positions spans = {i \<in> positions (s # spans). sp_end s < i}"
  using assms by (fastforce simp: positions_def)+

lemma apart_first_eq:
  assumes "apart (s # xs)" "apart (t # ys)" "positions (s # xs) = positions (t # ys)"
  shows "sp_start s = sp_start t" and "sp_end s = sp_end t"
proof -
  show st: "sp_start s = sp_start t" 
    using apart_min(1,2) [OF assms(1)] apart_min(1,2) [OF assms(2)] unfolding assms(3) by (blast intro: le_antisym)
  have *: "sp_end a \<le> sp_end b" if "apart (a # us)" "apart (b # vs)" "positions (a # us) = positions (b # vs)" "sp_start a = sp_start b"
    for a b us vs
  proof (rule ccontr)
    assume "\<not> sp_end a \<le> sp_end b"
    then have "sp_end b \<in> positions (a # us)" using that(2,4) by simp
    then show False using apart_min(3) [OF that(2)] unfolding that(3) by contradiction
  qed
  show "sp_end s = sp_end t" using * [OF assms st] * [OF assms(2,1) assms(3) [symmetric] st [symmetric]] by simp
qed

lemma apart_unique: "apart xs \<Longrightarrow> apart ys \<Longrightarrow> positions xs = positions ys \<Longrightarrow> xs = ys"
proof (induction xs arbitrary: ys)
  case Nil
  then show ?case by (cases ys) (auto dest: apart_min(1))
next
  case (Cons s xs)
  then obtain t ys' where ys: "ys = t # ys'" using apart_min(1) by (cases ys) fastforce+
  have eq: "sp_start s = sp_start t" "sp_end s = sp_end t" using apart_first_eq Cons.prems unfolding ys by blast+
  have "positions xs = positions ys'"
    unfolding apart_min(4) [OF Cons.prems(1)] apart_min(4) [OF Cons.prems(2) [unfolded ys]] Cons.prems(3) [unfolded ys] eq ..
  then have "xs = ys'" using Cons ys by simp
  then show ?case using eq ys by simp
qed

text \<open>Merging is canonical: the result covers exactly the positions of the reported spans with non-empty ranges in ascending order
  that neither overlap nor touch, and it is the only such list; so the order in which the spans are reported and the way they
  are sorted do not matter.\<close>

theorem mergeSpans_canonical: "apart ys \<and> positions ys = positions spans \<longleftrightarrow> ys = mergeSpans spans"
  by (auto intro: apart_unique)

lemma mergeSpans_sort:
  assumes "mset sorted_spans = mset spans" and "sorted (map sp_start sorted_spans)"
  shows "merge_loop [] sorted_spans = mergeSpans spans"
  using merge_sorted [OF assms(2)] positions_mset [OF assms(1)] by (simp add: apart_unique)

section \<open>Masking\<close>

text \<open>What masking a set of positions means, byte by byte: bytes outside stay, each maximal run of bytes inside becomes one mask.\<close>

primrec masked_from :: "nat set \<Rightarrow> nat \<Rightarrow> bool \<Rightarrow> string \<Rightarrow> string" where
  "masked_from S i inside [] = []"
| "masked_from S i inside (c # text) =
     (if i \<in> S then (if inside then [] else redacted) else [c]) @ masked_from S (Suc i) (i \<in> S) text"

definition masked :: "nat set \<Rightarrow> string \<Rightarrow> string" where
  "masked S text = masked_from S 0 False text"

lemma masked_flag: "i \<notin> S \<Longrightarrow> masked_from S i b text = masked_from S i False text"
  by (cases "text") simp_all

lemma masked_outside: "\<forall>k < length u. i + k \<notin> S \<Longrightarrow> masked_from S i False (u @ v) = u @ masked_from S (i + length u) False v"
proof (induction u arbitrary: i)
  case (Cons c u)
  have "i \<notin> S" using Cons.prems [rule_format, of 0] by simp
  moreover have "Suc i + k \<notin> S" if "k < length u" for k using Cons.prems [rule_format, of "Suc k"] that by simp
  ultimately show ?case using Cons.IH by simp
qed simp

lemma masked_inside: "\<forall>k < length w. i + k \<in> S \<Longrightarrow> masked_from S i True (w @ v) = masked_from S (i + length w) True v"
proof (induction w arbitrary: i)
  case (Cons c w)
  have "i \<in> S" using Cons.prems [rule_format, of 0] by simp
  moreover have "Suc i + k \<in> S" if "k < length w" for k using Cons.prems [rule_format, of "Suc k"] that by simp
  ultimately show ?case using Cons.IH by simp
qed simp

lemma masked_run:
  assumes "w \<noteq> []" and "\<forall>k < length w. i + k \<in> S"
  shows "masked_from S i False (w @ v) = redacted @ masked_from S (i + length w) True v"
proof -
  obtain c u where w: "w = c # u" using assms(1) by (cases w) auto
  have "i \<in> S" using assms(2) [rule_format, of 0] by (simp add: w)
  moreover have "Suc i + k \<in> S" if "k < length u" for k using assms(2) [rule_format, of "Suc k"] that by (simp add: w)
  ultimately show ?thesis using masked_inside [of u "Suc i" S v] by (simp add: w)
qed

lemma slice_Some: "i \<le> j \<Longrightarrow> j \<le> length text \<Longrightarrow> text_slice text i j = Some (drop i (take j text))"
  by (simp add: text_slice_def)

lemma drop_split: "i \<le> j \<Longrightarrow> drop i text = drop i (take j text) @ drop j text"
  by (metis append_take_drop_id drop_append drop_drop drop_take le_add_diff_inverse2)

lemma mask_loop_masked:
  assumes "apart spans" and "\<forall>s \<in> set spans. pos \<le> sp_start s \<and> sp_end s \<le> length text" and "pos \<le> length text"
    and "\<forall>i. pos \<le> i \<longrightarrow> (i \<in> S \<longleftrightarrow> i \<in> positions spans)"
  shows "mask_loop text pos spans = Some (masked_from S pos False (drop pos text))"
  using assms
proof (induction spans arbitrary: pos)
  case Nil
  then show ?case using masked_outside [of "drop pos text" pos S "[]"] by (simp add: slice_Some)
next
  case (Cons s spans)
  let ?u = "drop pos (take (sp_start s) text)" and ?w = "drop (sp_start s) (take (sp_end s) text)"
  have b: "pos \<le> sp_start s" "sp_start s < sp_end s" "sp_end s \<le> length text" and later: "\<forall>t \<in> set spans. sp_end s < sp_start t"
    using Cons.prems(1,2) by auto
  have rest: "mask_loop text (sp_end s) spans = Some (masked_from S (sp_end s) False (drop (sp_end s) text))"
  proof (rule Cons.IH)
    show "\<forall>i. sp_end s \<le> i \<longrightarrow> (i \<in> S \<longleftrightarrow> i \<in> positions spans)" using Cons.prems(4) b by auto
  qed (use Cons.prems b later in \<open>auto intro: less_imp_le\<close>)
  have cut: "drop pos text = ?u @ ?w @ drop (sp_end s) text"
    using drop_split [OF b(1), of "text"] drop_split [of "sp_start s" "sp_end s" "text"] b by simp
  have lens: "length ?u = sp_start s - pos" "length ?w = sp_end s - sp_start s" using b by simp_all
  have gap: "i \<notin> S" if "pos \<le> i" "i < sp_start s" for i using that Cons.prems(4) b later by (fastforce simp: positions_def)
  have inside: "i \<in> S" if "sp_start s \<le> i" "i < sp_end s" for i using that Cons.prems(4) b by auto
  have after: "sp_end s \<notin> S" using Cons.prems(4) b apart_min(3) [OF Cons.prems(1)] by auto
  have "masked_from S pos False (drop pos text) = ?u @ redacted @ masked_from S (sp_end s) True (drop (sp_end s) text)"
    unfolding cut using masked_outside [of ?u pos S] masked_run [of ?w "sp_start s" S] gap inside b lens by auto
  then show ?case using rest b masked_flag [OF after, of True] by (simp add: slice_Some)
qed

lemma mask_loop_beyond: "length text < pos \<Longrightarrow> mask_loop text pos spans = None"
  by (cases spans) (auto simp: text_slice_def)

lemma mask_loop_None: "s \<in> set spans \<Longrightarrow> length text < sp_end s \<Longrightarrow> mask_loop text pos spans = None"
  by (induction spans arbitrary: pos) (auto simp: mask_loop_beyond bind_eq_None_conv)

lemma apart_bounded: "apart spans \<Longrightarrow> positions spans \<subseteq> {..<n} \<longleftrightarrow> (\<forall>s \<in> set spans. sp_end s \<le> n)"
proof (induction spans)
  case (Cons s spans)
  have "sp_end s \<le> n" if "{sp_start s..<sp_end s} \<subseteq> {..<n}"
  proof -
    have "sp_end s - 1 \<in> {sp_start s..<sp_end s}" using Cons.prems by auto
    then have "sp_end s - 1 < n" using that by blast
    then show ?thesis by simp
  qed
  then have "{sp_start s..<sp_end s} \<subseteq> {..<n} \<longleftrightarrow> sp_end s \<le> n" by auto
  then show ?case using Cons by simp
qed simp

text \<open>C33. Masking is exact: the text comes back with every byte outside the reported spans in place and every maximal run of bytes inside
  replaced by one mask, in whatever order and however overlapping the spans were reported; a span that reaches past the end of the text
  panics.\<close>

theorem applyMasks_masks:
  "applyMasks text spans = (if positions spans \<subseteq> {..<length text} then Some (masked (positions spans) text) else None)"
proof -
  let ?m = "mergeSpans spans"
  have bounded: "positions spans \<subseteq> {..<length text} \<longleftrightarrow> (\<forall>s \<in> set ?m. sp_end s \<le> length text)"
    using apart_bounded [of ?m "length text"] by simp
  have "mask_loop text 0 ?m = Some (masked (positions spans) text)" if "\<forall>s \<in> set ?m. sp_end s \<le> length text"
    using mask_loop_masked [of ?m 0 "text" "positions spans"] that by (simp add: masked_def)
  moreover have "mask_loop text 0 ?m = None" if "\<not> (\<forall>s \<in> set ?m. sp_end s \<le> length text)"
    using that by (auto intro: mask_loop_None)
  moreover have "masked (positions spans) text = text" if "?m = []"
    using masked_outside [of "text" 0 "positions spans" "[]"] mergeSpans_positions [of spans] that by (simp add: masked_def)
  ultimately show ?thesis unfolding applyMasks_def Let_def bounded by auto
qed

text \<open>Masked positions leave no byte behind.\<close>

lemma masked_Nil_iff: "masked S text = [] \<longleftrightarrow> text = []"
  by (cases "text") (auto simp: masked_def redacted_def)

section \<open>Binary search\<close>

definition splits :: "(nat \<Rightarrow> bool) \<Rightarrow> nat \<Rightarrow> nat \<Rightarrow> nat \<Rightarrow> bool" where
  "splits f i j r = (i \<le> r \<and> r \<le> j \<and> (\<forall>h. i \<le> h \<and> h < r \<longrightarrow> \<not> f h) \<and> (\<forall>h. r \<le> h \<and> h < j \<longrightarrow> f h))"

lemma splits_below: "splits f i h r \<Longrightarrow> h \<le> j \<Longrightarrow> \<forall>k. h \<le> k \<and> k < j \<longrightarrow> f k \<Longrightarrow> splits f i j r"
  unfolding splits_def by (meson le_trans not_less)

lemma splits_above: "splits f (h + 1) j r \<Longrightarrow> i \<le> h \<Longrightarrow> \<forall>k. i \<le> k \<and> k \<le> h \<longrightarrow> \<not> f k \<Longrightarrow> splits f i j r"
  unfolding splits_def by (metis Suc_eq_plus1 Suc_leI le_SucI le_trans not_less)

lemma search_loop_split:
  assumes "i \<le> j" and "\<And>h k. i \<le> h \<Longrightarrow> h \<le> k \<Longrightarrow> k < j \<Longrightarrow> f h \<Longrightarrow> f k"
  shows "splits f i j (search_loop f i j)"
  using assms
proof (induction f i j rule: search_loop.induct)
  case (1 f i j)
  show ?case
  proof (cases "i < j")
    case True
    define h where "h = (i + j) div 2"
    have h: "i \<le> h" "h < j" using True by (simp_all add: h_def)
    have step: "search_loop f i j = (if f h then search_loop f i h else search_loop f (h + 1) j)"
      using True unfolding h_def by (subst search_loop.simps) simp
    have below: "splits f i h (search_loop f i h)" if "f h"
      
    proof (rule "1.IH"(2) [OF True h_def])
      show "f k" if "i \<le> g" "g \<le> k" "k < h" "f g" for g k using "1.prems"(2) [of g k] that h(2) by simp
    qed (use that h in simp_all)
    have above: "splits f (h + 1) j (search_loop f (h + 1) j)" if "\<not> f h"
      
    proof (rule "1.IH"(1) [OF True h_def])
      show "f k" if "h + 1 \<le> g" "g \<le> k" "k < j" "f g" for g k using "1.prems"(2) [of g k] that h(1) by simp
    qed (use that h in simp_all)
    show ?thesis
    proof (cases "f h")
      case yes: True
      have "\<forall>k. h \<le> k \<and> k < j \<longrightarrow> f k" using "1.prems"(2) h(1) yes by blast
      then show ?thesis using splits_below [OF below [OF yes]] h yes step by simp
    next
      case no: False
      have "\<forall>k. i \<le> k \<and> k \<le> h \<longrightarrow> \<not> f k" using "1.prems"(2) h(2) no by blast
      then show ?thesis using splits_above [OF above [OF no]] h no step by simp
    qed
  next
    case False
    then have "search_loop f i j = i" by (subst search_loop.simps) simp
    then show ?thesis using False "1.prems"(1) by (auto simp: splits_def)
  qed
qed

lemma apart_nth: "apart xs \<Longrightarrow> i < j \<Longrightarrow> j < length xs \<Longrightarrow> sp_end (xs ! i) < sp_start (xs ! j)"
  by (auto simp: apart_def sorted_wrt_iff_nth_less)

lemma apart_nth_range: "apart xs \<Longrightarrow> i < length xs \<Longrightarrow> sp_start (xs ! i) < sp_end (xs ! i)"
  by (auto simp: apart_def)

lemma splits_unique: "splits f i j r \<Longrightarrow> i \<le> k \<Longrightarrow> k < j \<Longrightarrow> f k \<Longrightarrow> \<forall>h. i \<le> h \<and> h < k \<longrightarrow> \<not> f h \<Longrightarrow> r = k"
  unfolding splits_def by (metis le_less_trans less_le_trans linorder_neqE_nat le_refl)

lemma apart_hit:
  assumes "apart merged" and "k < length merged" and "sp_start (merged ! k) \<le> offset" and "h < k"
  shows "sp_end (merged ! h) \<le> offset"
  using apart_nth [OF assms(1,4,2)] assms(3) by simp

lemma covered_positions:
  assumes "apart merged"
  shows "covered merged offset \<longleftrightarrow> offset \<in> positions merged"
proof -
  let ?n = "length merged" and ?f = "\<lambda>i. sp_end (merged ! i) > offset"
  define r where "r = search_loop ?f 0 ?n"
  have mono: "?f k" if "h \<le> k" "k < ?n" "?f h" for h k
    using that apart_nth [OF assms, of h k] apart_nth_range [OF assms, of k] by (cases "h = k") auto
  have found: "splits ?f 0 ?n r" unfolding r_def by (rule search_loop_split) (use mono in auto)
  have hit: "r = k" if "k < ?n" "sp_start (merged ! k) \<le> offset" "?f k" for k
    by (rule splits_unique [OF found]) (use that apart_hit [OF assms that(1,2)] in \<open>auto simp: not_less\<close>)
  have "offset \<in> positions merged \<longleftrightarrow> (\<exists>k < ?n. sp_start (merged ! k) \<le> offset \<and> ?f k)"
    unfolding positions_def by (force simp: in_set_conv_nth)
  also have "\<dots> \<longleftrightarrow> r < ?n \<and> sp_start (merged ! r) \<le> offset"
    using hit found unfolding splits_def by blast
  finally show ?thesis by (simp add: covered_def Search_def Let_def r_def)
qed

text \<open>The binary search over merged spans answers membership: an offset is covered exactly when some reported span contains it.\<close>

theorem covered_iff: "covered (mergeSpans spans) offset \<longleftrightarrow> (\<exists>s \<in> set spans. sp_start s \<le> offset \<and> offset < sp_end s)"
proof -
  have "offset \<in> positions spans \<longleftrightarrow> (\<exists>s \<in> set spans. sp_start s \<le> offset \<and> offset < sp_end s)" by (auto simp: positions_def)
  then show ?thesis by (simp add: covered_positions)
qed

section \<open>Views\<close>

text \<open>\<^verbatim>\<open>strings.Index\<close>.\<close>

fun StringIndex :: "string \<Rightarrow> string \<Rightarrow> nat option" where
  "StringIndex [] t = (if t = [] then Some 0 else None)"
| "StringIndex (c # s) t = (if HasPrefix (c # s) t then Some 0 else map_option Suc (StringIndex s t))"

text \<open>A view and the builder of one hold the same three parts.\<close>

record textView =
  v_text :: string
  v_start :: "nat list"
  v_end :: "nat list"

definition empty_view :: textView where
  "empty_view = \<lparr>v_text = [], v_start = [], v_end = []\<rparr>"

definition original :: "textView \<Rightarrow> maskSpan \<Rightarrow> maskSpan option" where
  "original v s =
     (if sp_start s < length (v_start v) \<and> 0 < sp_end s \<and> sp_end s - 1 < length (v_end v)
      then Some (span (v_start v ! sp_start s) (v_end v ! (sp_end s - 1))) else None)"

definition keep :: "string \<Rightarrow> nat \<Rightarrow> nat \<Rightarrow> textView \<Rightarrow> textView" where
  "keep orig at n b = \<lparr>v_text = v_text b @ take n (drop at orig), v_start = v_start b @ [at..<at + n], v_end = v_end b @ map Suc [at..<at + n]\<rparr>"

definition decoded :: "char \<Rightarrow> nat \<Rightarrow> nat \<Rightarrow> textView \<Rightarrow> textView" where
  "decoded c at n b = \<lparr>v_text = v_text b @ [c], v_start = v_start b @ [at], v_end = v_end b @ [at + n]\<rparr>"

definition isIdentifierByte :: "char \<Rightarrow> bool" where
  "isIdentifierByte c = ((97 \<le> byte c \<and> byte c \<le> 122) \<or> (65 \<le> byte c \<and> byte c \<le> 90) \<or> (48 \<le> byte c \<and> byte c \<le> 57) \<or> c = CHR ''_'' \<or> c = CHR ''-'')"

definition hexDigit :: "char \<Rightarrow> nat option" where
  "hexDigit c = (if 48 \<le> byte c \<and> byte c \<le> 57 then Some (byte c - 48)
     else if 97 \<le> byte c \<and> byte c \<le> 102 then Some (byte c - 97 + 10)
     else if 65 \<le> byte c \<and> byte c \<le> 70 then Some (byte c - 65 + 10) else None)"

definition hexByte :: "char \<Rightarrow> char \<Rightarrow> char option" where
  "hexByte high low = do { h \<leftarrow> hexDigit high; l \<leftarrow> hexDigit low; Some (char_of (h * 16 + l)) }"

text \<open>The number of backslashes that end at \<open>j\<close>.\<close>

primrec backslashes :: "string \<Rightarrow> nat \<Rightarrow> nat" where
  "backslashes s 0 = (if s ! 0 = BACKSLASH then 1 else 0)"
| "backslashes s (Suc j) = (if s ! Suc j = BACKSLASH then Suc (backslashes s j) else 0)"

definition identifierEscapeAt :: "string \<Rightarrow> nat \<Rightarrow> char option" where
  "identifierEscapeAt s i =
     (if i + 6 > length s \<or> s ! i \<noteq> BACKSLASH \<or> s ! (i + 1) \<noteq> CHR ''u'' \<or> s ! (i + 2) \<noteq> CHR ''0'' \<or> s ! (i + 3) \<noteq> CHR ''0'' then None
      else case hexByte (s ! (i + 4)) (s ! (i + 5)) of
          None \<Rightarrow> None
        | Some c \<Rightarrow> if isIdentifierByte c \<and> odd (backslashes s i) then Some c else None)"

function csi_end :: "string \<Rightarrow> nat \<Rightarrow> nat" where
  "csi_end s j = (if j < length s then (let c = byte (s ! j) in
     if 64 \<le> c \<and> c \<le> 126 then j + 1 else if c < 32 \<or> c > 126 then 0 else csi_end s (j + 1)) else 0)"
  by pat_completeness auto
termination
  by (relation "measure (\<lambda>(s, j). length s - j)") auto

function osc_end :: "string \<Rightarrow> nat \<Rightarrow> nat" where
  "osc_end s j = (if j < length s then
     (if byte (s ! j) = 7 then j + 1
      else if byte (s ! j) = 27 \<and> j + 1 < length s \<and> s ! (j + 1) = BACKSLASH then j + 2
      else if s ! j = NEWLINE then 0 else osc_end s (j + 1)) else 0)"
  by pat_completeness auto
termination
  by (relation "measure (\<lambda>(s, j). length s - j)") auto

declare csi_end.simps [simp del] osc_end.simps [simp del]

text \<open>The loops return the end of the sequence, or 0; its length is counted from \<open>i\<close>.\<close>

definition terminalSequenceAt :: "string \<Rightarrow> nat \<Rightarrow> nat" where
  "terminalSequenceAt s i =
     (if byte (s ! i) \<noteq> 27 \<or> i + 1 \<ge> length s then 0
      else if s ! (i + 1) = CHR ''['' then csi_end s (i + 2) - i
      else if s ! (i + 1) = CHR '']'' then osc_end s (i + 2) - i
      else if 64 \<le> byte (s ! (i + 1)) \<and> byte (s ! (i + 1)) \<le> 95 then 2 else 0)"

definition format_rune :: "(nat \<Rightarrow> bool) \<Rightarrow> nat option \<Rightarrow> bool" where
  "format_rune cf r = (let n = (case r of None \<Rightarrow> 65533 | Some n \<Rightarrow> n) in 128 \<le> n \<and> cf n)"

fun hasFormatCharacter :: "(nat \<Rightarrow> bool) \<Rightarrow> string \<Rightarrow> bool" where
  "hasFormatCharacter cf [] = False"
| "hasFormatCharacter cf (c # s) =
     (if byte c < 128 then hasFormatCharacter cf s else list_ex (\<lambda>x. format_rune cf (fst x)) (chunks (c # s)))"

function escape_from :: "string \<Rightarrow> nat \<Rightarrow> bool" where
  "escape_from s at = (case StringIndex (drop at s) [BACKSLASH, CHR ''u''] of
       None \<Rightarrow> False
     | Some i \<Rightarrow> identifierEscapeAt s (at + i) \<noteq> None \<or> escape_from s (at + i + 2))"
  by pat_completeness auto

lemma StringIndex_Some: "StringIndex s t = Some i \<Longrightarrow> i \<le> length s \<and> HasPrefix (drop i s) t \<and> (\<forall>j < i. \<not> HasPrefix (drop j s) t)"
proof (induction s arbitrary: i)
  case (Cons c s)
  show ?case
  proof (cases "HasPrefix (c # s) t")
    case False
    then obtain k where k: "i = Suc k" "StringIndex s t = Some k" using Cons.prems by auto
    have "\<not> HasPrefix (drop j (c # s)) t" if "j < i" for j
      using that False Cons.IH [OF k(2)] k(1) by (cases j) auto
    then show ?thesis using Cons.IH [OF k(2)] k(1) by simp
  qed (use Cons.prems in simp)
qed (auto split: if_splits)

lemma StringIndex_None: "StringIndex s t = None \<Longrightarrow> \<not> HasPrefix (drop j s) t"
proof (induction s arbitrary: j)
  case Nil
  then show ?case by (cases t) auto
next
  case (Cons c s)
  then show ?case by (cases j; cases t) (auto split: if_splits)
qed

termination escape_from
proof (relation "measure (\<lambda>(s, at). length s - at)")
  fix s at i assume "StringIndex (drop at s) [BACKSLASH, CHR ''u''] = Some i"
  then have "HasPrefix (drop i (drop at s)) [BACKSLASH, CHR ''u'']" using StringIndex_Some by blast
  then have "at < length s" by (cases "at < length s") (simp_all add: HasPrefix_def)
  then show "((s, at + i + 2), s, at) \<in> measure (\<lambda>(s, at). length s - at)" by simp
qed simp

declare escape_from.simps [simp del]

definition hasIdentifierEscape :: "string \<Rightarrow> bool" where
  "hasIdentifierEscape s = escape_from s 0"

function view_loop :: "(nat \<Rightarrow> bool) \<Rightarrow> string \<Rightarrow> nat \<Rightarrow> textView \<Rightarrow> textView" where
  "view_loop cf s i b =
     (if i < length s then
        (let n = terminalSequenceAt s i in
         if n > 0 then view_loop cf s (i + n) b
         else (case identifierEscapeAt s i of
             Some c \<Rightarrow> view_loop cf s (i + 6) (decoded c i 6 b)
           | None \<Rightarrow>
               (let d = decode_rune (drop i s) in
                if format_rune cf (fst d) then view_loop cf s (i + snd d) b
                else view_loop cf s (i + snd d) (keep s i (snd d) b))))
      else b)"
  by pat_completeness auto
termination
proof (relation "measure (\<lambda>(cf, s, i, b). length s - i)")
  fix cf s i b n d assume "i < length s" "d = decode_rune (drop i s)"
  then have "0 < snd d" using decode_rune_width [of "drop i s"] by simp
  then show "((cf, s, i + snd d, b), cf, s, i, b) \<in> measure (\<lambda>(cf, s, i, b). length s - i)"
    "((cf, s, i + snd d, keep s i (snd d) b), cf, s, i, b) \<in> measure (\<lambda>(cf, s, i, b). length s - i)" using \<open>i < length s\<close> by auto
qed auto

declare view_loop.simps [simp del]

definition detectionView :: "(nat \<Rightarrow> bool) \<Rightarrow> string \<Rightarrow> textView option" where
  "detectionView cf s =
     (if IndexByte s (CHR 0x1B) = None \<and> \<not> hasFormatCharacter cf s \<and> \<not> hasIdentifierEscape s then None
      else Some (view_loop cf s 0 empty_view))"

definition isJSONSpace :: "char \<Rightarrow> bool" where
  "isJSONSpace c = (c \<in> {CHR '' '', CHR 0x09, CHR 0x0A, CHR 0x0D})"

definition whitespaceFreeView :: "string \<Rightarrow> textView" where
  "whitespaceFreeView s = fold (\<lambda>i b. if isJSONSpace (s ! i) then b else keep s i 1 b) [0..<length s] empty_view"

text \<open>\<^verbatim>\<open>strings.Map\<close> writes an invalid byte it keeps as the replacement character.\<close>

definition withoutWhitespace :: "string \<Rightarrow> string" where
  "withoutWhitespace s =
     of_runes (filter (\<lambda>r. \<not> (case r of None \<Rightarrow> False | Some n \<Rightarrow> n < 128 \<and> isJSONSpace (char_of n))) (runes s))"

definition upper_rune :: "nat option \<Rightarrow> bool" where
  "upper_rune r = (case r of None \<Rightarrow> False | Some n \<Rightarrow> 65 \<le> n \<and> n \<le> 90)"

definition lower_byte :: "char \<Rightarrow> char" where
  "lower_byte c = (if 65 \<le> byte c \<and> byte c \<le> 90 then char_of (byte c + 32) else c)"

definition asciiLower :: "string \<Rightarrow> string" where
  "asciiLower s =
     (let before = concat (map snd (takeWhile (\<lambda>x. \<not> upper_rune (fst x)) (chunks s))) in
      if length before = length s then s else take (length before) s @ map lower_byte (drop (length before) s))"

section \<open>What a view shows\<close>

text \<open>A byte of a view stands for one byte of the text, or for an escape of six; the ranges ascend and do not overlap.\<close>

definition unit_ok :: "string \<Rightarrow> char \<Rightarrow> nat \<Rightarrow> nat \<Rightarrow> bool" where
  "unit_ok s c a e = (e = a + 1 \<and> a < length s \<and> s ! a = c \<or> e = a + 6 \<and> identifierEscapeAt s a = Some c)"

definition view_upto :: "string \<Rightarrow> nat \<Rightarrow> textView \<Rightarrow> bool" where
  "view_upto s n v = (length (v_start v) = length (v_text v) \<and> length (v_end v) = length (v_text v)
     \<and> (\<forall>k < length (v_text v). unit_ok s (v_text v ! k) (v_start v ! k) (v_end v ! k) \<and> v_end v ! k \<le> n)
     \<and> (\<forall>k l. k < l \<and> l < length (v_text v) \<longrightarrow> v_end v ! k \<le> v_start v ! l))"

abbreviation view_ok :: "string \<Rightarrow> textView \<Rightarrow> bool" where
  "view_ok s v \<equiv> view_upto s (length s) v"

lemma escape_bound: "identifierEscapeAt s i = Some c \<Longrightarrow> i + 6 \<le> length s"
  by (auto simp: identifierEscapeAt_def split: if_splits)

lemma unit_ok_bound: "unit_ok s c a e \<Longrightarrow> a < e \<and> e \<le> length s"
  by (auto simp: unit_ok_def dest: escape_bound)

lemma view_upto_mono: "view_upto s n v \<Longrightarrow> n \<le> m \<Longrightarrow> view_upto s m v"
  unfolding view_upto_def by (meson le_trans)

lemma view_push:
  assumes "view_upto s n v" and "unit_ok s c a e" and "n \<le> a"
  shows "view_upto s e \<lparr>v_text = v_text v @ [c], v_start = v_start v @ [a], v_end = v_end v @ [e]\<rparr>"
  using assms unit_ok_bound [OF assms(2)] by (fastforce simp: view_upto_def nth_append less_Suc_eq)

lemma view_decoded: "view_upto s i v \<Longrightarrow> identifierEscapeAt s i = Some c \<Longrightarrow> view_upto s (i + 6) (decoded c i 6 v)"
  unfolding decoded_def by (rule view_push) (auto simp: unit_ok_def)

lemma keep_Suc: "i + n < length s \<Longrightarrow> keep s i (Suc n) v =
    \<lparr>v_text = v_text (keep s i n v) @ [s ! (i + n)], v_start = v_start (keep s i n v) @ [i + n], v_end = v_end (keep s i n v) @ [i + n + 1]\<rparr>"
  by (simp add: keep_def take_Suc_conv_app_nth)

lemma view_keep: "view_upto s i v \<Longrightarrow> i + n \<le> length s \<Longrightarrow> view_upto s (i + n) (keep s i n v)"
proof (induction n)
  case (Suc n)
  have "unit_ok s (s ! (i + n)) (i + n) (i + n + 1)" using Suc.prems by (simp add: unit_ok_def)
  then show ?case using view_push [of s "i + n" "keep s i n v"] Suc by (simp add: keep_Suc)
next
  case 0
  have "keep s i 0 v = v" by (cases v) (simp add: keep_def)
  then show ?case using 0 by simp
qed

lemma decode_width_le: "s \<noteq> [] \<Longrightarrow> snd (decode_rune s) \<le> length s"
  by (cases s) (auto simp: Let_def split: list.splits)

lemma view_loop_ok: "view_upto s i v \<Longrightarrow> i \<le> length s \<Longrightarrow> view_ok s (view_loop cf s i v)"
proof (induction cf s i v rule: view_loop.induct)
  case (1 cf s i v)
  show ?case
  proof (cases "i < length s")
    case True
    let ?n = "terminalSequenceAt s i" and ?d = "decode_rune (drop i s)"
    have width: "i + snd ?d \<le> length s" using decode_width_le [of "drop i s"] True by simp
    show ?thesis
    proof (cases "?n > 0")
      case seq: True
      show ?thesis
      proof (cases "i + ?n \<le> length s")
        case True
        then show ?thesis using "1.IH"(1) [OF \<open>i < length s\<close> refl seq] "1.prems" \<open>i < length s\<close> seq view_upto_mono [of s i v "i + ?n"]
          by (subst view_loop.simps) simp
      next
        case False
        have "view_loop cf s (i + ?n) v = v" using False by (subst view_loop.simps) simp
        then show ?thesis using "1.prems" \<open>i < length s\<close> seq view_upto_mono [of s i v "length s"]
          by (subst view_loop.simps) simp
      qed
    next
      case seq: False
      show ?thesis
      proof (cases "identifierEscapeAt s i")
        case (Some c)
        have "view_ok s (view_loop cf s (i + 6) (decoded c i 6 v))"
          using "1.IH"(4) [OF True refl _ Some] seq "1.prems" Some escape_bound [OF Some] view_decoded by simp
        then show ?thesis using True seq Some by (subst view_loop.simps) simp
      next
        case None
        have "view_ok s (view_loop cf s (i + snd ?d) v)" if "format_rune cf (fst ?d)"
          using "1.IH"(2) [OF True refl _ None refl that] seq "1.prems" width view_upto_mono [of s i v] by simp
        moreover have "view_ok s (view_loop cf s (i + snd ?d) (keep s i (snd ?d) v))" if "\<not> format_rune cf (fst ?d)"
          using "1.IH"(3) [OF True refl _ None refl that] seq "1.prems" width view_keep by simp
        ultimately show ?thesis using True seq None by (subst view_loop.simps) (simp add: Let_def)
      qed
    qed
  next
    case False
    then show ?thesis using "1.prems" by (subst view_loop.simps) simp
  qed
qed

lemma view_empty: "view_upto s n empty_view"
  by (simp add: view_upto_def empty_view_def)

lemma detectionView_ok: "detectionView cf s = Some v \<Longrightarrow> view_ok s v"
  using view_loop_ok [OF view_empty, of 0 s cf] by (auto simp: detectionView_def split: if_splits)

lemma whitespaceFree_upto:
  "n \<le> length s \<Longrightarrow> view_upto s n (fold (\<lambda>i b. if isJSONSpace (s ! i) then b else keep s i 1 b) [0..<n] empty_view)
     \<and> v_text (fold (\<lambda>i b. if isJSONSpace (s ! i) then b else keep s i 1 b) [0..<n] empty_view) = filter (\<lambda>c. \<not> isJSONSpace c) (take n s)
     \<and> v_start (fold (\<lambda>i b. if isJSONSpace (s ! i) then b else keep s i 1 b) [0..<n] empty_view) = filter (\<lambda>i. \<not> isJSONSpace (s ! i)) [0..<n]
     \<and> v_end (fold (\<lambda>i b. if isJSONSpace (s ! i) then b else keep s i 1 b) [0..<n] empty_view) = map Suc (filter (\<lambda>i. \<not> isJSONSpace (s ! i)) [0..<n])"
proof (induction n)
  case 0
  then show ?case by (simp add: view_empty) (simp add: empty_view_def)
next
  case (Suc n)
  let ?v = "fold (\<lambda>i b. if isJSONSpace (s ! i) then b else keep s i 1 b) [0..<n] empty_view"
  have IH: "view_upto s n ?v" "v_text ?v = filter (\<lambda>c. \<not> isJSONSpace c) (take n s)" "v_start ?v = filter (\<lambda>i. \<not> isJSONSpace (s ! i)) [0..<n]"
    "v_end ?v = map Suc (filter (\<lambda>i. \<not> isJSONSpace (s ! i)) [0..<n])"
    using Suc by simp_all
  have one: "take (Suc n) s = take n s @ [s ! n]" using Suc.prems by (simp add: take_Suc_conv_app_nth)
  have kept: "take (Suc 0) (drop n s) = [s ! n]" using Suc.prems by (simp add: take_Suc_conv_app_nth)
  show ?case using IH view_upto_mono [OF IH(1), of "Suc n"] view_keep [OF IH(1), of 1] Suc.prems by (simp add: one) (simp add: keep_def kept)
qed

lemma whitespaceFreeView_ok: "view_ok s (whitespaceFreeView s)"
  and whitespaceFreeView_text: "v_text (whitespaceFreeView s) = filter (\<lambda>c. \<not> isJSONSpace c) s"
  and whitespaceFreeView_start: "v_start (whitespaceFreeView s) = filter (\<lambda>i. \<not> isJSONSpace (s ! i)) [0..<length s]"
  and whitespaceFreeView_end: "v_end (whitespaceFreeView s) = map Suc (filter (\<lambda>i. \<not> isJSONSpace (s ! i)) [0..<length s])"
  using whitespaceFree_upto [of "length s" s] by (simp_all add: whitespaceFreeView_def)

text \<open>A span of a view, mapped back: its range in the text, which takes every unit of the view whole or not at all.\<close>

definition whole_units :: "textView \<Rightarrow> nat \<Rightarrow> nat \<Rightarrow> maskSpan \<Rightarrow> bool" where
  "whole_units v i j r = (\<forall>k < length (v_text v).
     if i \<le> k \<and> k < j then {v_start v ! k..<v_end v ! k} \<subseteq> {sp_start r..<sp_end r}
     else {v_start v ! k..<v_end v ! k} \<inter> {sp_start r..<sp_end r} = {})"

lemma original_whole:
  assumes "view_ok s v" and "i < j" and "j \<le> length (v_text v)"
  shows "\<exists>r. original v (span i j) = Some r \<and> sp_start r < sp_end r \<and> sp_end r \<le> length s \<and> whole_units v i j r"
proof -
  let ?a = "\<lambda>k. v_start v ! k" and ?e = "\<lambda>k. v_end v ! k"
  have len: "length (v_start v) = length (v_text v)" "length (v_end v) = length (v_text v)" using assms(1) by (simp_all add: view_upto_def)
  have unit: "?a k < ?e k" "?e k \<le> length s" if "k < length (v_text v)" for k
    using assms(1) unit_ok_bound that by (auto simp: view_upto_def)
  have order: "?e k \<le> ?a l" if "k < l" "l < length (v_text v)" for k l using assms(1) that by (auto simp: view_upto_def)
  have starts: "?a k \<le> ?a l" if "k \<le> l" "l < length (v_text v)" for k l
    using that order [of k l] unit [of k] by (cases "k = l") auto
  have ends: "?e k \<le> ?e l" if "k \<le> l" "l < length (v_text v)" for k l
    using that order [of k l] unit [of l] by (cases "k = l") auto
  let ?r = "span (?a i) (?e (j - 1))"
  have last: "j - 1 < length (v_text v)" "i \<le> j - 1" using assms(2,3) by linarith+
  have "original v (span i j) = Some ?r" using assms(2,3) len by (simp add: original_def span_def)
  moreover have "?a i < ?e (j - 1)" using starts [OF last(2,1)] unit(1) [OF last(1)] by simp
  moreover have "whole_units v i j ?r"
    unfolding whole_units_def
  proof (intro allI impI)
    fix k assume k: "k < length (v_text v)"
    show "if i \<le> k \<and> k < j then {?a k..<?e k} \<subseteq> {sp_start ?r..<sp_end ?r} else {?a k..<?e k} \<inter> {sp_start ?r..<sp_end ?r} = {}"
    proof (cases "i \<le> k \<and> k < j")
      case True
      then have "k \<le> j - 1" by linarith
      then have "?a i \<le> ?a k" "?e k \<le> ?e (j - 1)" using True starts [of i k] ends [of k "j - 1"] k last by simp_all
      then show ?thesis using True by (auto simp: span_def)
    next
      case False
      then consider "k < i" | "j \<le> k" by linarith
      then show ?thesis
      proof cases
        case 1
        then have "?e k \<le> ?a i" using order assms(2,3) by simp
        then show ?thesis using False by (auto simp: span_def)
      next
        case 2
        then have "?e (j - 1) \<le> ?a k" using order [of "j - 1" k] k assms(2) by simp
        then show ?thesis using False 2 by (auto simp: span_def)
      qed
    qed
  qed
  ultimately show ?thesis using unit(2) [OF last(1)] by (intro exI [of _ ?r]) (simp add: span_def)
qed

text \<open>A match on the reader's view is masked in whole units: the range it is mapped back to lies inside the text, and it takes
  every byte of the view, with the escape or the byte it stands for, completely or leaves it completely alone.\<close>

theorem detection_masks_whole_units:
  assumes "detectionView cf s = Some v" and "i < j" and "j \<le> length (v_text v)"
  shows "\<exists>r. original v (span i j) = Some r \<and> sp_start r < sp_end r \<and> sp_end r \<le> length s \<and> whole_units v i j r"
  using original_whole [OF detectionView_ok [OF assms(1)] assms(2,3)] .

section \<open>Texts without anything to decode\<close>

definition plain_view :: "string \<Rightarrow> textView" where
  "plain_view s = \<lparr>v_text = s, v_start = [0..<length s], v_end = map Suc [0..<length s]\<rparr>"

lemma format_ascii: "byte c < 128 \<Longrightarrow> \<not> format_rune cf (Some (byte c))"
  by (simp add: format_rune_def)

lemma hasFormatCharacter_iff: "hasFormatCharacter cf s \<longleftrightarrow> list_ex (\<lambda>x. format_rune cf (fst x)) (chunks s)"
  by (induction s) (simp_all add: chunks_ascii format_ascii)

lemma HasPrefix_nth: "HasPrefix (drop j s) p \<longleftrightarrow> length p \<le> length s - j \<and> (\<forall>k < length p. s ! (j + k) = p ! k)"
proof -
  have "HasPrefix (drop j s) p \<longleftrightarrow> length (take (length p) (drop j s)) = length p \<and> (\<forall>k < length p. take (length p) (drop j s) ! k = p ! k)"
    unfolding HasPrefix_def list_eq_iff_nth_eq by auto
  also have "\<dots> \<longleftrightarrow> length p \<le> length s - j \<and> (\<forall>k < length p. s ! (j + k) = p ! k)" by (auto simp: min_def split: if_splits)
  finally show ?thesis .
qed

lemma escape_prefix: "identifierEscapeAt s i = Some c \<Longrightarrow> HasPrefix (drop i s) [BACKSLASH, CHR ''u'']"
  by (auto simp: identifierEscapeAt_def HasPrefix_nth less_Suc_eq split: if_splits)

lemma all_less_two: "(\<forall>k < Suc (Suc 0). P k) \<longleftrightarrow> P 0 \<and> P (Suc 0)"
  by (auto simp: less_Suc_eq)

lemma escape_from_False: "\<not> escape_from s at \<Longrightarrow> at \<le> i \<Longrightarrow> identifierEscapeAt s i = None"
proof (induction s at rule: escape_from.induct)
  case (1 s at)
  show ?case
  proof (rule ccontr)
    assume "identifierEscapeAt s i \<noteq> None"
    then have found: "HasPrefix (drop i s) [BACKSLASH, CHR ''u'']" using escape_prefix by blast
    then have here: "HasPrefix (drop (i - at) (drop at s)) [BACKSLASH, CHR ''u'']" using "1.prems"(2) by simp
    then obtain k where k: "StringIndex (drop at s) [BACKSLASH, CHR ''u''] = Some k" using StringIndex_None by fastforce
    have first: "identifierEscapeAt s (at + k) = None" "\<not> escape_from s (at + k + 2)"
      using "1.prems"(1) by (subst (asm) escape_from.simps, simp add: k)+
    have "k \<le> i - at" using StringIndex_Some [OF k] here by (meson not_less)
    then consider "i = at + k" | "i = at + k + 1" | "at + k + 2 \<le> i" using "1.prems"(2) by linarith
    then show False
    proof cases
      case 1
      then show False using first(1) \<open>identifierEscapeAt s i \<noteq> None\<close> by simp
    next
      case 2
      have "HasPrefix (drop (at + k) s) [BACKSLASH, CHR ''u'']" using StringIndex_Some [OF k] by (simp add: add.commute)
      then have "s ! (at + k + 1) = CHR ''u''" by (simp add: HasPrefix_nth all_less_two)
      then show False using 2 \<open>identifierEscapeAt s i \<noteq> None\<close> by (simp add: identifierEscapeAt_def)
    next
      case 3
      then show False using "1.IH" [OF k first(2) 3] \<open>identifierEscapeAt s i \<noteq> None\<close> by simp
    qed
  qed
qed

lemma no_sequence: "CHR 0x1B \<notin> set s \<Longrightarrow> i < length s \<Longrightarrow> terminalSequenceAt s i = 0"
proof -
  assume "CHR 0x1B \<notin> set s" "i < length s"
  then have "s ! i \<noteq> CHR 0x1B" by (metis nth_mem)
  moreover have "char_of (27 :: nat) = CHR 0x1B" by code_simp
  ultimately have "byte (s ! i) \<noteq> 27" by (metis byte_def char_of_char)
  then show ?thesis by (simp add: terminalSequenceAt_def)
qed

lemma keep_plain:
  "i + n \<le> length s \<Longrightarrow> keep s i n \<lparr>v_text = take i s, v_start = [0..<i], v_end = map Suc [0..<i]\<rparr>
     = \<lparr>v_text = take (i + n) s, v_start = [0..<i + n], v_end = map Suc [0..<i + n]\<rparr>"
  by (simp add: keep_def take_add upt_add_eq_append [of 0 i n])

lemma view_loop_plain:
  assumes "CHR 0x1B \<notin> set s" and "\<forall>i. identifierEscapeAt s i = None" and "\<not> list_ex (\<lambda>x. format_rune cf (fst x)) (chunks (drop i s))"
    and "i \<le> length s" and "v = \<lparr>v_text = take i s, v_start = [0..<i], v_end = map Suc [0..<i]\<rparr>"
  shows "view_loop cf s i v = plain_view s"
  using assms
proof (induction cf s i v rule: view_loop.induct)
  case (1 cf s i v)
  show ?case
  proof (cases "i < length s")
    case True
    let ?d = "decode_rune (drop i s)"
    have chunk: "chunks (drop i s) = (fst ?d, take (snd ?d) (drop i s)) # chunks (drop (i + snd ?d) s)"
      using True by (subst chunks.simps) (simp add: Let_def add.commute)
    have seq: "terminalSequenceAt s i = 0" using no_sequence "1.prems"(1) True by blast
    have visible: "\<not> format_rune cf (fst ?d)" and rest: "\<not> list_ex (\<lambda>x. format_rune cf (fst x)) (chunks (drop (i + snd ?d) s))"
      using "1.prems"(3) unfolding chunk by simp_all
    have width: "i + snd ?d \<le> length s" using decode_width_le [of "drop i s"] True by simp
    have "view_loop cf s (i + snd ?d) (keep s i (snd ?d) v) = plain_view s"
      by (rule "1.IH"(3) [OF True refl _ _ refl visible "1.prems"(1,2) rest width])
         (use seq "1.prems"(2,5) keep_plain [OF width] in simp_all)
    then show ?thesis using True seq visible "1.prems"(2) by (subst view_loop.simps) (simp add: Let_def)
  next
    case False
    then show ?thesis using "1.prems" by (subst view_loop.simps) (simp add: plain_view_def)
  qed
qed

text \<open>The shortcut of detection is sound: when no view is returned, the view would have been the text itself, so looking at the
  text directly is looking at what a reader sees.\<close>

theorem detectionView_shortcut:
  "(case detectionView cf s of None \<Rightarrow> plain_view s | Some v \<Rightarrow> v) = view_loop cf s 0 empty_view"
proof (cases "detectionView cf s")
  case None
  then have "CHR 0x1B \<notin> set s" "\<not> hasFormatCharacter cf s" "\<not> hasIdentifierEscape s"
    by (auto simp: detectionView_def split: if_splits)
  then have "view_loop cf s 0 empty_view = plain_view s"
    by (intro view_loop_plain) (auto simp: hasFormatCharacter_iff hasIdentifierEscape_def empty_view_def escape_from_False)
  then show ?thesis by (simp add: None)
qed (auto simp: detectionView_def split: if_splits)

section \<open>Lower case\<close>

lemma chunk_bytes: "s \<noteq> [] \<Longrightarrow> decode_rune s = (r, n) \<Longrightarrow> c \<in> set (take n s) \<Longrightarrow> byte c < 128 \<Longrightarrow> r = Some (byte c) \<and> take n s = [c]"
  by (cases s) (auto simp: Let_def cont_def second_lo_def second_hi_def split: if_splits list.splits)

lemma ascii_chunk: "x \<in> set (chunks s) \<Longrightarrow> c \<in> set (snd x) \<Longrightarrow> byte c < 128 \<Longrightarrow> x = (Some (byte c), [c])"
proof (induction s rule: chunks.induct)
  case (1 s)
  show ?case
  proof (cases "s = []")
    case False
    then consider "x = (fst (decode_rune s), take (snd (decode_rune s)) s)" | "x \<in> set (chunks (drop (snd (decode_rune s)) s))"
      using "1.prems"(1) by (subst (asm) chunks.simps) (auto simp: Let_def)
    then show ?thesis
    proof cases
      case 1
      then show ?thesis using chunk_bytes [OF False _ _ "1.prems"(3), of "fst (decode_rune s)" "snd (decode_rune s)"] "1.prems"(2) by simp
    next
      case 2
      then show ?thesis using "1.IH" [OF False refl] "1.prems"(2,3) by simp
    qed
  qed (use "1.prems" in simp)
qed

lemma lower_unchanged: "\<not> upper_rune (fst x) \<Longrightarrow> x \<in> set (chunks s) \<Longrightarrow> map lower_byte (snd x) = snd x"
proof (rule map_idI)
  fix c assume x: "\<not> upper_rune (fst x)" "x \<in> set (chunks s)" "c \<in> set (snd x)"
  show "lower_byte c = c"
  proof (cases "65 \<le> byte c \<and> byte c \<le> 90")
    case True
    then have "x = (Some (byte c), [c])" using ascii_chunk [OF x(2,3)] by simp
    then show ?thesis using x(1) True by (simp add: upper_rune_def)
  qed (auto simp: lower_byte_def)
qed

text \<open>Lowering changes nothing but ASCII letters, byte for byte, so every offset into the lowered text is an offset into the text.\<close>

theorem asciiLower_bytewise: "asciiLower s = map lower_byte s \<and> length (asciiLower s) = length s"
proof -
  let ?p = "\<lambda>x. \<not> upper_rune (fst x)"
  let ?before = "concat (map snd (takeWhile ?p (chunks s)))"
  have "s = concat (map snd (takeWhile ?p (chunks s) @ dropWhile ?p (chunks s)))" by simp
  then have split: "s = ?before @ concat (map snd (dropWhile ?p (chunks s)))" unfolding map_append concat_append .
  then have take: "take (length ?before) s = ?before" by (metis append_eq_conv_conj)
  have "map lower_byte ?before = ?before"
    unfolding map_concat map_map by (rule arg_cong [where f = concat], rule map_cong [OF refl]) (auto dest!: set_takeWhileD intro: lower_unchanged)
  then have "map lower_byte s = take (length ?before) s @ map lower_byte (drop (length ?before) s)"
    by (metis append_take_drop_id map_append take)
  moreover have "map lower_byte s = s" if "length ?before = length s"
    using \<open>map lower_byte ?before = ?before\<close> that take by simp
  ultimately have "asciiLower s = map lower_byte s" by (simp add: asciiLower_def Let_def del: length_concat)
  then show ?thesis by simp
qed

section \<open>Examples\<close>

text \<open>An escape for a letter inside a word.\<close>

definition sample_escape :: string where
  "sample_escape = ''k='' @ BACKSLASH # ''u0061bc''"

lemma sample_escape_view:
  "detectionView (\<lambda>_. False) sample_escape
     = Some \<lparr>v_text = ''k=abc'', v_start = [0, 1, 2, 8, 9], v_end = [1, 2, 8, 9, 10]\<rparr>"
  by code_simp

theorem detection_masks_whole_units_witness:
  "\<exists>v r. detectionView (\<lambda>_. False) sample_escape = Some v \<and> original v (span 2 5) = Some r \<and> sp_end r \<le> length sample_escape
     \<and> whole_units v 2 5 r"
  using detection_masks_whole_units [OF sample_escape_view, of 2 5] sample_escape_view by auto

end
