(* ===== verification/RegisteredSecrets.thy ===== *)
theory RegisteredSecrets
  imports RedactionSpans
begin

text \<open>
  Registered secrets: \<^verbatim>\<open>internal/tools/redaction_secrets.go\<close>, the registry of \<^verbatim>\<open>security.go\<close> and the part of \<^verbatim>\<open>redaction_stream.go\<close> that
  follows a secret over several lines. A credential is registered when it is read; from then on every text is searched for it, as
  written and as JSON strings carry it, and what is found is masked.

  The map of registered values is an association list, whose order is that in which Go would visit it; \<open>snapshot_order\<close> shows that it
  does not matter. A registration and the building of a snapshot test again under the lock what they read before, so each is one step.
  The argument \<open>container\<close> tells whether a value decodes as a JSON object or array. A loop that may not end has the value \<^const>\<open>None\<close>
  then, and so has an index out of range.
\<close>

section \<open>Forms of a secret\<close>

record secretForm =
  f_text :: string
  f_raw :: bool

record secretRule =
  identifierLike :: bool
  forms :: "secretForm list"
  compact :: string

record registeredSecret =
  s_value :: string
  s_rule :: secretRule

definition hex_digit :: "nat \<Rightarrow> char" where
  "hex_digit n = (if n < 10 then char_of (48 + n) else char_of (87 + n))"

text \<open>\<^verbatim>\<open>\u%04x\<close> of a value below 256.\<close>

definition byte_escape :: "nat \<Rightarrow> string" where
  "byte_escape n = BACKSLASH # ''u00'' @ [hex_digit (n div 16), hex_digit (n mod 16)]"

text \<open>The text between the quotes that \<^verbatim>\<open>encoding/json\<close> writes for a string, with or without the escaping of HTML characters.\<close>

definition json_char :: "bool \<Rightarrow> chunk \<Rightarrow> string" where
  "json_char html x = (case fst x of
       None \<Rightarrow> BACKSLASH # ''ufffd''
     | Some n \<Rightarrow>
         if n = 8232 then BACKSLASH # ''u2028'' else if n = 8233 then BACKSLASH # ''u2029''
         else if 128 \<le> n then snd x
         else if n = 34 \<or> n = 92 then BACKSLASH # snd x
         else if n = 8 then BACKSLASH # ''b'' else if n = 9 then BACKSLASH # ''t'' else if n = 10 then BACKSLASH # ''n''
         else if n = 12 then BACKSLASH # ''f'' else if n = 13 then BACKSLASH # ''r''
         else if n < 32 \<or> html \<and> n \<in> {38, 60, 62} then byte_escape n else snd x)"

definition jsonHTMLStringBody :: "string \<Rightarrow> string" where
  "jsonHTMLStringBody value = concat (map (json_char True) (chunks value))"

definition jsonStringBody :: "string \<Rightarrow> string" where
  "jsonStringBody value = concat (map (json_char False) (chunks value))"

definition controlEscaped :: "string \<Rightarrow> string" where
  "controlEscaped value = concat (map (\<lambda>r. case r of
       None \<Rightarrow> encode_rune None
     | Some n \<Rightarrow> if n < 32 then byte_escape n else if n = 34 \<or> n = 92 then BACKSLASH # encode_rune r else encode_rune r) (runes value))"

text \<open>The four bytes after \<^verbatim>\<open>\u\<close> are hex digits in every form this is called with.\<close>

definition upper_byte :: "char \<Rightarrow> char" where
  "upper_byte c = (if 97 \<le> byte c \<and> byte c \<le> 122 then char_of (byte c - 32) else c)"

fun upperHexEscapes :: "string \<Rightarrow> string" where
  "upperHexEscapes [] = []"
| "upperHexEscapes [c] = [c]"
| "upperHexEscapes (c # d # s) =
     (if c \<noteq> BACKSLASH then c # upperHexEscapes (d # s)
      else if d = CHR ''u'' \<and> 4 \<le> length s then c # d # map upper_byte (take 4 s) @ upperHexEscapes (drop 4 s)
      else c # d # upperHexEscapes s)"

definition add_form :: "string \<Rightarrow> string list \<Rightarrow> string list" where
  "add_form variant known = (if variant \<noteq> [] \<and> variant \<notin> set known then known @ [variant] else known)"

definition jsonEscapedForms :: "string \<Rightarrow> string list" where
  "jsonEscapedForms value = sort_key (\<lambda>f. - int (length f))
     (fold add_form (concat (map (\<lambda>f. [f, upperHexEscapes f]) [jsonHTMLStringBody value, jsonStringBody value, controlEscaped value])) [value])"

definition identifier_rune :: "nat option \<Rightarrow> bool" where
  "identifier_rune r = (case r of None \<Rightarrow> False | Some n \<Rightarrow>
     (97 \<le> n \<and> n \<le> 122) \<or> (65 \<le> n \<and> n \<le> 90) \<or> (48 \<le> n \<and> n \<le> 57) \<or> n = 95 \<or> n = 45)"

definition isIdentifierLikeSecret :: "string \<Rightarrow> bool" where
  "isIdentifierLikeSecret value = (value \<noteq> [] \<and> list_all identifier_rune (runes value))"

definition CRLF :: string where
  "CRLF = [CHR 0x0D, CHR 0x0A]"

definition line_variants :: "string \<Rightarrow> string list" where
  "line_variants value =
     (if \<not> Contains value [NEWLINE] then [value]
      else (let lf = ReplaceAll value CRLF [NEWLINE] in
            fold (\<lambda>v known. if v \<in> set known then known else known @ [v]) [lf, ReplaceAll lf [NEWLINE] CRLF] [value]))"

definition add_variant :: "string \<Rightarrow> secretForm list \<Rightarrow> secretForm list" where
  "add_variant variant fs = fold (\<lambda>form fs. if \<exists>known \<in> set fs. f_text known = form then fs
     else fs @ [\<lparr>f_text = form, f_raw = (form = variant)\<rparr>]) (jsonEscapedForms variant) fs"

definition newSecretRule :: "(string \<Rightarrow> bool) \<Rightarrow> string \<Rightarrow> secretRule" where
  "newSecretRule container value =
     \<lparr>identifierLike = isIdentifierLikeSecret value, forms = fold add_variant (line_variants value) [],
      compact = (if (HasPrefix value ''{'' \<or> HasPrefix value ''['') \<and> container value then withoutWhitespace value else [])\<rparr>"

section \<open>Borders\<close>

partial_function (option) fall_back :: "string \<Rightarrow> nat list \<Rightarrow> char \<Rightarrow> nat \<Rightarrow> nat option" where
  "fall_back p border c k = (if k > 0 \<and> c \<noteq> p ! k then fall_back p border c (border ! (k - 1)) else Some k)"

declare fall_back.simps [code]

definition match_next :: "string \<Rightarrow> nat list \<Rightarrow> char \<Rightarrow> nat \<Rightarrow> nat option" where
  "match_next p border c k = do { k' \<leftarrow> fall_back p border c k; Some (if c = p ! k' then Suc k' else k') }"

function border_loop :: "string \<Rightarrow> nat \<Rightarrow> nat \<Rightarrow> nat list \<Rightarrow> nat list option" where
  "border_loop p i k border =
     (if i < length p then (case match_next p border (p ! i) k of None \<Rightarrow> None | Some k' \<Rightarrow> border_loop p (i + 1) k' (border[i := k'])) else Some border)"
  by pat_completeness auto
termination
  by (relation "measure (\<lambda>(p, i, k, border). length p - i)") auto

declare border_loop.simps [simp del]

definition borders :: "string \<Rightarrow> nat list option" where
  "borders pattern = border_loop pattern 1 0 (replicate (length pattern) 0)"

section \<open>Snapshots\<close>

definition jsonStructure :: string where
  "jsonStructure = ''[]{}'' @ [DQUOTE] @ '':,''"

record compactSecret =
  c_index :: nat
  c_text :: string
  c_border :: "nat list"
  c_lead :: nat
  c_limit :: nat

definition newCompactSecret :: "nat \<Rightarrow> string \<Rightarrow> compactSecret option" where
  "newCompactSecret index s = map_option (\<lambda>border.
     \<lparr>c_index = index, c_text = s, c_border = border, c_lead = length (takeWhile (\<lambda>c. c \<in> set jsonStructure) s),
      c_limit = length s + 80 * (1 + length (filter (\<lambda>c. c \<in> set jsonStructure) s))\<rparr>) (borders s)"

record multilineSecret =
  m_lines :: "string list"
  m_skip :: nat

text \<open>\<^verbatim>\<open>strings.Split(form, "\n")\<close>.\<close>

fun split_lines :: "string \<Rightarrow> string list" where
  "split_lines [] = [[]]"
| "split_lines (c # s) = (if c = NEWLINE then [] # split_lines s else (case split_lines s of [] \<Rightarrow> [[c]] | l # ls \<Rightarrow> (c # l) # ls))"

definition newMultilineSecret :: "string \<Rightarrow> multilineSecret" where
  "newMultilineSecret form = (let lines = split_lines form in
     \<lparr>m_lines = lines, m_skip = length (takeWhile (\<lambda>l. trims_to_nothing l (jsonStructure @ '' '' @ [CHR 0x09])) (take (length lines - 2) lines))\<rparr>)"

record secretSnapshot =
  secrets :: "registeredSecret list"
  sn_compact :: "compactSecret list"
  multiline :: "multilineSecret list"
  maxHeld :: nat
  maxSkip :: nat

definition add_multiline :: "secretForm \<Rightarrow> secretSnapshot \<Rightarrow> secretSnapshot" where
  "add_multiline form sn =
     (if f_raw form \<and> Contains (f_text form) [NEWLINE] \<and> \<not> Contains (f_text form) [CHR 0x0D] then
        (let m = newMultilineSecret (f_text form) in
         sn\<lparr>multiline := multiline sn @ [m], maxHeld := max (maxHeld sn) (length (f_text form)), maxSkip := max (maxSkip sn) (m_skip m)\<rparr>)
      else sn)"

definition add_compact :: "nat \<Rightarrow> registeredSecret \<Rightarrow> secretSnapshot \<Rightarrow> secretSnapshot option" where
  "add_compact i s sn =
     (if compact (s_rule s) = [] then Some sn
      else map_option (\<lambda>c. sn\<lparr>sn_compact := sn_compact sn @ [c], maxHeld := max (maxHeld sn) (c_limit c)\<rparr>) (newCompactSecret i (compact (s_rule s))))"

fun snapshot_loop :: "nat \<Rightarrow> registeredSecret list \<Rightarrow> secretSnapshot \<Rightarrow> secretSnapshot option" where
  "snapshot_loop i [] sn = Some sn"
| "snapshot_loop i (s # ss) sn = do { sn' \<leftarrow> add_compact i s sn; snapshot_loop (Suc i) ss (fold add_multiline (forms (s_rule s)) sn') }"

definition newSecretSnapshot :: "(string \<times> secretRule) list \<Rightarrow> secretSnapshot option" where
  "newSecretSnapshot values =
     (let ss = sort_key s_value (map (\<lambda>(v, r). \<lparr>s_value = v, s_rule = r\<rparr>) values) in
      snapshot_loop 0 ss \<lparr>secrets = ss, sn_compact = [], multiline = [], maxHeld = 0, maxSkip = 0\<rparr>)"

section \<open>Secrets over several lines\<close>



section \<open>The search automaton\<close>

text \<open>The longest beginning of \<open>p\<close>, short of \<open>p\<close> itself, with which the text \<open>t\<close> ends.\<close>

definition longest :: "string \<Rightarrow> string \<Rightarrow> nat \<Rightarrow> bool" where
  "longest p t k = (k < length p \<and> suffix (take k p) t \<and> (\<forall>j < length p. suffix (take j p) t \<longrightarrow> j \<le> k))"

definition borders_ok :: "string \<Rightarrow> nat list \<Rightarrow> nat \<Rightarrow> bool" where
  "borders_ok p border n = (\<forall>i < n. longest p (drop 1 (take (Suc i) p)) (border ! i))"

lemma longest_unique: "longest p t j \<Longrightarrow> longest p t k \<Longrightarrow> j = k"
  unfolding longest_def by (meson le_antisym)

lemma suffix_drop1: "suffix u (drop 1 v) \<longleftrightarrow> suffix u v \<and> length u \<le> length v - 1"
proof
  assume "suffix u (drop 1 v)"
  then show "suffix u v \<and> length u \<le> length v - 1" using suffix_drop suffix_order.trans suffix_length_le by (metis length_drop)
next
  assume u: "suffix u v \<and> length u \<le> length v - 1"
  then show "suffix u (drop 1 v)" by (metis length_drop suffix_drop suffix_length_suffix)
qed

text \<open>Shorter matches of a text that ends with \<open>take k p\<close> are matches inside \<open>take k p\<close>.\<close>

lemma shorter_match:
  assumes "suffix (take k p) t" and "k \<le> length p" and "0 < k" and "j < k"
  shows "suffix (take j p) t \<longleftrightarrow> suffix (take j p) (drop 1 (take k p))"
proof -
  have len: "length (take j p) \<le> length (take k p) - 1" "length (take j p) \<le> length (take k p)" using assms by simp_all
  show ?thesis unfolding suffix_drop1 using len assms(1) suffix_length_suffix suffix_order.trans by blast
qed

lemma border_below:
  assumes "borders_ok p border n" and "0 < k" and "k \<le> n" and "k \<le> length p"
  shows "border ! (k - 1) < k" and "suffix (take (border ! (k - 1)) p) (drop 1 (take k p))"
    and "\<And>j. j < k \<Longrightarrow> suffix (take j p) (drop 1 (take k p)) \<Longrightarrow> j \<le> border ! (k - 1)"
proof -
  have l: "longest p (drop 1 (take k p)) (border ! (k - 1))" using assms(1-3) unfolding borders_ok_def by (metis Suc_pred' less_eq_Suc_le)
  then show s: "suffix (take (border ! (k - 1)) p) (drop 1 (take k p))" by (simp add: longest_def)
  have "border ! (k - 1) < length p" using l by (simp add: longest_def)
  then show "border ! (k - 1) < k" using suffix_length_le [OF s] assms(2,4) by simp
  show "\<And>j. j < k \<Longrightarrow> suffix (take j p) (drop 1 (take k p)) \<Longrightarrow> j \<le> border ! (k - 1)" using l assms(4) by (simp add: longest_def)
qed

lemma fall_back_returns:
  assumes "borders_ok p border n" and "k \<le> n" and "k < length p" and "suffix (take k p) t"
  shows "\<exists>r. fall_back p border c k = Some r \<and> r \<le> k \<and> suffix (take r p) t \<and> (r = 0 \<or> c = p ! r)
    \<and> (\<forall>j \<le> k. suffix (take j p) t \<and> c = p ! j \<longrightarrow> j \<le> r)"
  using assms(2-4)
proof (induction k rule: less_induct)
  case (less k)
  show ?case
  proof (cases "k > 0 \<and> c \<noteq> p ! k")
    case True
    let ?b = "border ! (k - 1)"
    note below = border_below [OF assms(1) conjunct1 [OF True] less.prems(1) less_imp_le [OF less.prems(2)]]
    have sub: "suffix (take ?b p) t"
      using below(2) less.prems(3) by (metis suffix_drop suffix_order.trans)
    obtain r where r: "fall_back p border c ?b = Some r" "r \<le> ?b" "suffix (take r p) t" "r = 0 \<or> c = p ! r"
      "\<forall>j \<le> ?b. suffix (take j p) t \<and> c = p ! j \<longrightarrow> j \<le> r"
      using less.IH [OF below(1) _ _ sub] below(1) less.prems(1,2) by auto
    have "j \<le> r" if "j \<le> k" "suffix (take j p) t" "c = p ! j" for j
    proof -
      have "j < k" using that True by (cases "j = k") auto
      then have "suffix (take j p) (drop 1 (take k p))"
        using shorter_match [OF less.prems(3)] that(2) True less.prems(2) by auto
      then show ?thesis using below(3) [OF \<open>j < k\<close>] r(5) that by blast
    qed
    moreover have "fall_back p border c k = Some r" using True r(1) by (subst fall_back.simps) simp
    ultimately show ?thesis using r below(1) by (intro exI [of _ r]) auto
  next
    case False
    then have "fall_back p border c k = Some k" by (subst fall_back.simps) auto
    then show ?thesis using False less.prems by (intro exI [of _ k]) auto
  qed
qed

lemma suffix_take_Suc: "j < length p \<Longrightarrow> suffix (take (Suc j) p) (t @ [c]) \<longleftrightarrow> suffix (take j p) t \<and> p ! j = c"
  by (auto simp: take_Suc_conv_app_nth)

text \<open>One byte: the next state is the longest beginning of \<open>p\<close>, now also all of it, with which the longer text ends.\<close>

lemma match_next_longest:
  assumes "borders_ok p border n" and "longest p t k" and "k \<le> n"
  shows "\<exists>r. match_next p border c k = Some r \<and> r \<le> length p \<and> r \<le> Suc k \<and> suffix (take r p) (t @ [c])
    \<and> (\<forall>j \<le> length p. suffix (take j p) (t @ [c]) \<longrightarrow> j \<le> r)"
proof -
  have k: "k < length p" "suffix (take k p) t" "\<And>j. j < length p \<Longrightarrow> suffix (take j p) t \<Longrightarrow> j \<le> k"
    using assms(2) by (auto simp: longest_def)
  obtain r where r: "fall_back p border c k = Some r" "r \<le> k" "suffix (take r p) t" "r = 0 \<or> c = p ! r"
    "\<forall>j \<le> k. suffix (take j p) t \<and> c = p ! j \<longrightarrow> j \<le> r"
    using fall_back_returns [OF assms(1,3) k(1,2)] by blast
  let ?r = "if c = p ! r then Suc r else r"
  have "suffix (take (Suc r) p) (t @ [c])" if "c = p ! r" using suffix_take_Suc [of r p t c] r(2,3) k(1) that by simp
  then have "suffix (take ?r p) (t @ [c])" using r(4) by auto
  moreover have "j \<le> ?r" if "j \<le> length p" "suffix (take j p) (t @ [c])" for j
  proof (cases j)
    case (Suc i)
    then have i: "suffix (take i p) t" "p ! i = c" "i < length p" using that suffix_take_Suc [of i p t c] by simp_all
    then have "i \<le> r" using r(5) k(3) by blast
    moreover have "c = p ! r" if "i = r" using i that by simp
    ultimately show ?thesis using Suc r(4) i(2) by auto
  qed simp
  ultimately show ?thesis using r(1,2) k(1) by (intro exI [of _ ?r]) (auto simp: match_next_def)
qed

lemma longest_Nil: "p \<noteq> [] \<Longrightarrow> longest p [] 0"
  by (auto simp: longest_def)

lemma borders_ok_update: "borders_ok p border i \<Longrightarrow> i < length border \<Longrightarrow> longest p (drop 1 (take (Suc i) p)) k \<Longrightarrow> borders_ok p (border[i := k]) (Suc i)"
  by (auto simp: borders_ok_def less_Suc_eq)

lemma border_loop_ok:
  assumes "borders_ok p border i" and "longest p (drop 1 (take i p)) k" and "length border = length p" and "1 \<le> i" and "i \<le> length p" and "k < i"
  shows "\<exists>b. border_loop p i k border = Some b \<and> length b = length p \<and> borders_ok p b (length p)"
  using assms
proof (induction p i k border rule: border_loop.induct)
  case (1 p i k border)
  show ?case
  proof (cases "i < length p")
    case True
    have grow: "drop 1 (take (Suc i) p) = drop 1 (take i p) @ [p ! i]" using True "1.prems"(4) by (simp add: take_Suc_conv_app_nth)
    obtain r where r: "match_next p border (p ! i) k = Some r" "r \<le> Suc k" "suffix (take r p) (drop 1 (take (Suc i) p))"
      "\<forall>j \<le> length p. suffix (take j p) (drop 1 (take (Suc i) p)) \<longrightarrow> j \<le> r"
      using match_next_longest [OF "1.prems"(1,2), of "p ! i"] "1.prems"(6) unfolding grow by auto
    have next_one: "longest p (drop 1 (take (Suc i) p)) r" using r "1.prems"(6) True by (auto simp: longest_def)
    have "\<exists>b. border_loop p (i + 1) r (border[i := r]) = Some b \<and> length b = length p \<and> borders_ok p b (length p)"
      by (rule "1.IH" [OF True r(1)]) (use next_one borders_ok_update [OF "1.prems"(1)] "1.prems"(3-6) True r(2) in auto)
    then show ?thesis using True r(1) by (subst border_loop.simps) simp
  next
    case False
    then show ?thesis using "1.prems" by (subst border_loop.simps) auto
  qed
qed

lemma borders_returns:
  assumes "p \<noteq> []"
  shows "\<exists>b. borders p = Some b \<and> length b = length p \<and> borders_ok p b (length p)"
proof -
  have empty: "drop 1 (take 1 p) = []" using assms by (cases p) auto
  have first: "longest p (drop 1 (take 1 p)) 0" unfolding empty using longest_Nil [OF assms] .
  have "borders_ok p (replicate (length p) 0) 1" using first assms by (simp add: borders_ok_def)
  then show ?thesis unfolding borders_def
    by (intro border_loop_ok) (use first assms in \<open>auto simp: Suc_le_eq\<close>)
qed

text \<open>C34. The failure function is what its comment says, and the loop that computes it ends: for every prefix of the pattern the entry is
  the length of the longest proper prefix of it that is also its suffix.\<close>

theorem borders_failure_function:
  "borders p = Some (map (\<lambda>i. Max {k. k \<le> i \<and> suffix (take k p) (take (Suc i) p)}) [0..<length p])"
proof (cases "p = []")
  case False
  then obtain b where b: "borders p = Some b" "length b = length p" "borders_ok p b (length p)" using borders_returns by blast
  have "b ! i = Max {k. k \<le> i \<and> suffix (take k p) (take (Suc i) p)}" if "i < length p" for i
  proof (rule Max_eqI [symmetric])
    note below = border_below [OF b(3), of "Suc i"]
    show "b ! i \<in> {k. k \<le> i \<and> suffix (take k p) (take (Suc i) p)}"
      using below(1,2) that by (simp add: less_Suc_eq_le suffix_drop1 [unfolded One_nat_def])
    show "j \<le> b ! i" if "j \<in> {k. k \<le> i \<and> suffix (take k p) (take (Suc i) p)}" for j
      using below(3) [of j] that \<open>i < length p\<close> by (simp add: suffix_drop1 [unfolded One_nat_def] less_Suc_eq_le)
  qed simp
  then show ?thesis using b(1,2) by (auto intro: nth_equalityI)
qed (simp add: borders_def border_loop.simps)





definition compact_ok :: "compactSecret \<Rightarrow> bool" where
  "compact_ok c = (c_text c \<noteq> [] \<and> borders_ok (c_text c) (c_border c) (length (c_text c)))"




section \<open>Finding secrets\<close>

function occurrences :: "string \<Rightarrow> string \<Rightarrow> nat \<Rightarrow> nat list option" where
  "occurrences s p at =
     (if at > length s then None
      else case StringIndex (drop at s) p of
          None \<Rightarrow> Some []
        | Some j \<Rightarrow> map_option (\<lambda>js. (at + j) # js) (occurrences s p (at + j + 1)))"
  by pat_completeness auto
termination
  by (relation "measure (\<lambda>(s, p, at). Suc (length s) - at)") auto

declare occurrences.simps [simp del]

text \<open>A loop over a list whose body may panic.\<close>

definition collect :: "('a \<Rightarrow> 'b list option) \<Rightarrow> 'a list \<Rightarrow> 'b list option" where
  "collect f xs = map_option concat (those (map f xs))"

definition form_spans :: "string \<Rightarrow> secretForm \<Rightarrow> maskSpan list option" where
  "form_spans s f = map_option (map (\<lambda>j. span j (j + length (f_text f)))) (occurrences s (f_text f) 0)"

definition secret_spans :: "string \<Rightarrow> registeredSecret \<Rightarrow> maskSpan list option" where
  "secret_spans s r = collect (form_spans s) (forms (s_rule r))"

definition compact_spans :: "textView \<Rightarrow> compactSecret \<Rightarrow> maskSpan list option" where
  "compact_spans v c = do { js \<leftarrow> occurrences (v_text v) (c_text c) 0; those (map (\<lambda>j. original v (span j (j + length (c_text c)))) js) }"

definition hex_digits :: string where
  "hex_digits = ''0123456789abcdefABCDEF''"

definition escapeBefore :: "string \<Rightarrow> bool" where
  "escapeBefore s = (let n = length s in
     if n \<ge> 2 \<and> s ! (n - 2) = BACKSLASH \<and> s ! (n - 1) \<in> set ''bfnrt'' then odd (backslashes s (n - 2))
     else if n \<ge> 6 \<and> s ! (n - 6) = BACKSLASH \<and> s ! (n - 5) = CHR ''u'' \<and> trims_to_nothing (drop (n - 4) s) hex_digits then odd (backslashes s (n - 6))
     else False)"

definition boundaryBefore :: "string \<Rightarrow> maskSpan list \<Rightarrow> nat \<Rightarrow> bool" where
  "boundaryBefore s hard at =
     (at = 0 \<or> \<not> isIdentifierByte (s ! (at - 1)) \<or> escapeBefore (take at s) \<or> covered hard (at - 1))"

definition boundaryAfter :: "string \<Rightarrow> maskSpan list \<Rightarrow> nat \<Rightarrow> bool" where
  "boundaryAfter s hard at = (at = length s \<or> \<not> isIdentifierByte (s ! at) \<or> covered hard at)"

text \<open>The inner loop over a run of overlapping or touching occurrences, and the outer one over the runs.\<close>

fun gather :: "maskSpan \<Rightarrow> nat list \<Rightarrow> (maskSpan \<times> nat) list \<Rightarrow> maskSpan \<times> nat list \<times> (maskSpan \<times> nat) list" where
  "gather run members [] = (run, members, [])"
| "gather run members (x # xs) =
     (if sp_start (fst x) \<le> sp_end run then gather (run\<lparr>sp_end := max (sp_end run) (sp_end (fst x))\<rparr>) (members @ [snd x]) xs
      else (run, members, x # xs))"

lemma gather_shorter: "length (snd (snd (gather run members xs))) \<le> length xs"
  by (induction run members xs rule: gather.induct) auto

function identifier_runs :: "(maskSpan \<times> nat) list \<Rightarrow> (maskSpan \<times> nat list) list" where
  "identifier_runs [] = []"
| "identifier_runs (x # xs) = (let g = gather (fst x) [snd x] xs in (fst g, fst (snd g)) # identifier_runs (snd (snd g)))"
  by pat_completeness auto
termination
  by (relation "measure length") (auto simp: less_Suc_eq_le gather_shorter)

definition identifier_spans :: "string \<Rightarrow> registeredSecret list \<Rightarrow> (maskSpan \<times> nat) list option" where
  "identifier_spans s ss = collect (\<lambda>(i, r). if identifierLike (s_rule r) then map_option (map (\<lambda>x. (x, i))) (secret_spans s r) else Some [])
     (List.enumerate 0 ss)"

definition hard_spans :: "string \<Rightarrow> secretSnapshot \<Rightarrow> maskSpan list option" where
  "hard_spans s sn = do {
     written \<leftarrow> collect (\<lambda>r. if identifierLike (s_rule r) then Some [] else secret_spans s r) (secrets sn);
     laid_out \<leftarrow> (if sn_compact sn \<noteq> [] \<and> list_ex (\<lambda>c. c \<in> set ''{['') s then collect (compact_spans (whitespaceFreeView s)) (sn_compact sn) else Some []);
     Some (written @ laid_out) }"

definition accepted_runs :: "string \<Rightarrow> maskSpan list \<Rightarrow> (maskSpan \<times> nat) list \<Rightarrow> (maskSpan \<times> nat list) list" where
  "accepted_runs s spans identifiers =
     (let hard = mergeSpans spans in
      filter (\<lambda>(run, _). boundaryBefore s hard (sp_start run) \<and> boundaryAfter s hard (sp_end run))
        (identifier_runs (sort_key (\<lambda>x. sp_start (fst x)) identifiers)))"

definition occurs :: "string \<Rightarrow> secretForm \<Rightarrow> bool" where
  "occurs s f = (StringIndex s (f_text f) \<noteq> None)"

definition compact_occurs :: "string \<Rightarrow> nat \<Rightarrow> compactSecret \<Rightarrow> bool" where
  "compact_occurs s i c = (c_index c = i \<and> StringIndex (v_text (whitespaceFreeView s)) (c_text c) \<noteq> None)"

definition matched_raw :: "string \<Rightarrow> secretSnapshot \<Rightarrow> (maskSpan \<times> nat list) list \<Rightarrow> nat \<Rightarrow> registeredSecret \<Rightarrow> bool" where
  "matched_raw s sn accepted i r =
     (\<not> identifierLike (s_rule r) \<and> list_ex (\<lambda>f. f_raw f \<and> occurs s f) (forms (s_rule r))
      \<or> list_ex (\<lambda>c. c \<in> set ''{['') s \<and> list_ex (compact_occurs s i) (sn_compact sn) \<or> list_ex (\<lambda>(_, members). i \<in> set members) accepted)"

definition matched_escaped :: "string \<Rightarrow> registeredSecret \<Rightarrow> bool" where
  "matched_escaped s r = (\<not> identifierLike (s_rule r) \<and> list_ex (\<lambda>f. \<not> f_raw f \<and> occurs s f) (forms (s_rule r)))"

definition spans :: "secretSnapshot \<Rightarrow> string \<Rightarrow> (maskSpan list \<times> string list \<times> string list) option" where
  "spans sn s =
     (if secrets sn = [] \<or> s = [] then Some ([], [], [])
      else do {
        hard \<leftarrow> hard_spans s sn;
        identifiers \<leftarrow> identifier_spans s (secrets sn);
        (let accepted = accepted_runs s hard identifiers; numbered = List.enumerate 0 (secrets sn) in
         Some (hard @ map fst accepted,
               map (\<lambda>(_, r). s_value r) (filter (\<lambda>(i, r). matched_raw s sn accepted i r) numbered),
               map (\<lambda>(_, r). s_value r) (filter (\<lambda>(i, r). \<not> matched_raw s sn accepted i r \<and> matched_escaped s r) numbered)))
      })"

section \<open>The registry\<close>

record SecretRegistry =
  reg_values :: "(string \<times> secretRule) list"
  cached :: "secretSnapshot option"

definition NewSecretRegistry :: SecretRegistry where
  "NewSecretRegistry = \<lparr>reg_values = [], cached = None\<rparr>"

definition Register :: "(string \<Rightarrow> bool) \<Rightarrow> string \<Rightarrow> SecretRegistry \<Rightarrow> SecretRegistry" where
  "Register container value r =
     (let value = TrimSpace value in
      if length value < 6 \<or> value \<in> fst ` set (reg_values r) then r
      else r\<lparr>reg_values := reg_values r @ [(value, newSecretRule container value)], cached := None\<rparr>)"

definition snapshot :: "SecretRegistry \<Rightarrow> (secretSnapshot \<times> SecretRegistry) option" where
  "snapshot r = (case cached r of
       Some sn \<Rightarrow> Some (sn, r)
     | None \<Rightarrow> map_option (\<lambda>sn. (sn, r\<lparr>cached := Some sn\<rparr>)) (newSecretSnapshot (reg_values r)))"

definition Redact :: "SecretRegistry \<Rightarrow> string \<Rightarrow> (string \<times> SecretRegistry) option" where
  "Redact r value =
     (if value = [] then Some (value, r)
      else do { (sn, r') \<leftarrow> snapshot r; (found, _, _) \<leftarrow> spans sn value; out \<leftarrow> applyMasks value found; Some (out, r') })"


section \<open>What the search finds\<close>

lemma occurrences_all:
  assumes "p \<noteq> []" and "at \<le> length s"
  shows "occurrences s p at = Some (filter (\<lambda>j. HasPrefix (drop j s) p) [at..<length s])"
  using assms
proof (induction s p at rule: occurrences.induct)
  case (1 s p at)
  show ?case
  proof (cases "StringIndex (drop at s) p")
    case None
    have "\<not> HasPrefix (drop j s) p" if "at \<le> j" for j
      using StringIndex_None [OF None, of "j - at"] that by simp
    then have "filter (\<lambda>j. HasPrefix (drop j s) p) [at..<length s] = []" by (simp add: filter_empty_conv)
    then show ?thesis using None "1.prems"(2) by (subst occurrences.simps) simp
  next
    case (Some k)
    have hit: "HasPrefix (drop (at + k) s) p" using StringIndex_Some [OF Some] by (simp add: add.commute)
    then have inside: "at + k < length s" using "1.prems"(1) by (cases "at + k < length s") (simp_all add: HasPrefix_def)
    have miss: "\<not> HasPrefix (drop j s) p" if "at \<le> j" "j < at + k" for j
      using StringIndex_Some [OF Some] that by (auto dest!: spec [of _ "j - at"])
    have "[at..<length s] = [at..<at + k] @ (at + k) # [at + k + 1..<length s]"
      using upt_add_eq_append [of at "at + k" "length s - (at + k)"] upt_conv_Cons [OF inside] inside by simp
    moreover have "filter (\<lambda>j. HasPrefix (drop j s) p) [at..<at + k] = []" using miss by (simp add: filter_empty_conv)
    ultimately have "filter (\<lambda>j. HasPrefix (drop j s) p) [at..<length s] = (at + k) # filter (\<lambda>j. HasPrefix (drop j s) p) [at + k + 1..<length s]"
      using hit by simp
    moreover have "occurrences s p (at + k + 1) = Some (filter (\<lambda>j. HasPrefix (drop j s) p) [at + k + 1..<length s])"
      by (rule "1.IH" [OF _ Some "1.prems"(1)]) (use "1.prems"(2) inside in simp_all)
    ultimately show ?thesis using Some "1.prems"(2) by (subst occurrences.simps) simp
  qed
qed

lemma those_all: "(\<And>x. x \<in> set xs \<Longrightarrow> f x = Some (g x)) \<Longrightarrow> those (map f xs) = Some (map g xs)"
  by (induction xs) auto

lemma collect_all: "(\<And>x. x \<in> set xs \<Longrightarrow> f x = Some (g x)) \<Longrightarrow> collect f xs = Some (concat (map g xs))"
  using those_all [of xs f g] by (simp add: collect_def)

text \<open>Where a form occurs, and the ranges of all its occurrences.\<close>

definition found_at :: "string \<Rightarrow> string \<Rightarrow> nat \<Rightarrow> bool" where
  "found_at s p j = (j < length s \<and> HasPrefix (drop j s) p)"

definition ranges :: "string \<Rightarrow> string \<Rightarrow> maskSpan list" where
  "ranges s p = map (\<lambda>j. span j (j + length p)) (filter (found_at s p) [0..<length s])"

lemma found_at_nth: "found_at s p j \<longleftrightarrow> j < length s \<and> length p \<le> length s - j \<and> (\<forall>k < length p. s ! (j + k) = p ! k)"
  by (auto simp: found_at_def HasPrefix_nth)

lemma ranges_set: "set (ranges s p) = {span j (j + length p) |j. found_at s p j}"
  by (auto simp: ranges_def found_at_def)

lemma occurrences_found: "p \<noteq> [] \<Longrightarrow> occurrences s p 0 = Some (filter (found_at s p) [0..<length s])"
  by (auto simp: occurrences_all found_at_def intro!: filter_cong)

definition rule_ok :: "registeredSecret \<Rightarrow> bool" where
  "rule_ok r = (\<forall>f \<in> set (forms (s_rule r)). f_text f \<noteq> [] \<and> (identifierLike (s_rule r) \<longrightarrow> list_all isIdentifierByte (f_text f)))"

definition snapshot_ok :: "secretSnapshot \<Rightarrow> bool" where
  "snapshot_ok sn = (list_all rule_ok (secrets sn) \<and> list_all compact_ok (sn_compact sn))"

definition rule_ranges :: "string \<Rightarrow> registeredSecret \<Rightarrow> maskSpan list" where
  "rule_ranges s r = concat (map (\<lambda>f. ranges s (f_text f)) (forms (s_rule r)))"

lemma secret_spans_all: "rule_ok r \<Longrightarrow> secret_spans s r = Some (rule_ranges s r)"
  unfolding secret_spans_def rule_ranges_def
  by (rule collect_all) (auto simp: form_spans_def occurrences_found ranges_def rule_ok_def)

lemma rule_ranges_set: "set (rule_ranges s r) = {span j (j + length (f_text f)) |f j. f \<in> set (forms (s_rule r)) \<and> found_at s (f_text f) j}"
  by (auto simp: rule_ranges_def ranges_set)

definition back_range :: "textView \<Rightarrow> nat \<Rightarrow> nat \<Rightarrow> maskSpan" where
  "back_range v i j = span (v_start v ! i) (v_end v ! (j - 1))"

lemma original_back:
  assumes "view_ok s v" and "i < j" and "j \<le> length (v_text v)"
  shows "original v (span i j) = Some (back_range v i j)" and "sp_start (back_range v i j) < sp_end (back_range v i j)" and "sp_end (back_range v i j) \<le> length s"
    and "whole_units v i j (back_range v i j)"
proof -
  show eq: "original v (span i j) = Some (back_range v i j)" using assms by (simp add: original_def back_range_def span_def view_upto_def)
  show "sp_start (back_range v i j) < sp_end (back_range v i j)" "sp_end (back_range v i j) \<le> length s" "whole_units v i j (back_range v i j)"
    using original_whole [OF assms] eq by auto
qed

definition compact_ranges :: "textView \<Rightarrow> compactSecret \<Rightarrow> maskSpan list" where
  "compact_ranges v c = map (\<lambda>j. back_range v j (j + length (c_text c))) (filter (found_at (v_text v) (c_text c)) [0..<length (v_text v)])"

lemma compact_spans_all: "view_ok s v \<Longrightarrow> compact_ok c \<Longrightarrow> compact_spans v c = Some (compact_ranges v c)"
  unfolding compact_spans_def compact_ranges_def
  by (auto simp: occurrences_found compact_ok_def found_at_nth intro!: those_all original_back(1))

definition hard_ranges :: "string \<Rightarrow> secretSnapshot \<Rightarrow> maskSpan list" where
  "hard_ranges s sn = concat (map (\<lambda>r. if identifierLike (s_rule r) then [] else rule_ranges s r) (secrets sn))
     @ (if sn_compact sn \<noteq> [] \<and> list_ex (\<lambda>c. c \<in> set ''{['') s then concat (map (compact_ranges (whitespaceFreeView s)) (sn_compact sn)) else [])"

lemma hard_spans_all:
  assumes "snapshot_ok sn"
  shows "hard_spans s sn = Some (hard_ranges s sn)"
proof -
  have "collect (\<lambda>r. if identifierLike (s_rule r) then Some [] else secret_spans s r) (secrets sn)
      = Some (concat (map (\<lambda>r. if identifierLike (s_rule r) then [] else rule_ranges s r) (secrets sn)))"
    by (rule collect_all) (use assms secret_spans_all in \<open>auto simp: snapshot_ok_def list_all_iff\<close>)
  moreover have "collect (compact_spans (whitespaceFreeView s)) (sn_compact sn) = Some (concat (map (compact_ranges (whitespaceFreeView s)) (sn_compact sn)))"
    by (rule collect_all) (use assms compact_spans_all [OF whitespaceFreeView_ok] in \<open>auto simp: snapshot_ok_def list_all_iff\<close>)
  ultimately show ?thesis by (simp add: hard_spans_def hard_ranges_def)
qed

definition identifier_ranges :: "string \<Rightarrow> registeredSecret list \<Rightarrow> (maskSpan \<times> nat) list" where
  "identifier_ranges s ss = concat (map (\<lambda>(i, r). if identifierLike (s_rule r) then map (\<lambda>x. (x, i)) (rule_ranges s r) else []) (List.enumerate 0 ss))"

lemma identifier_spans_all:
  assumes "list_all rule_ok ss"
  shows "identifier_spans s ss = Some (identifier_ranges s ss)"
  unfolding identifier_spans_def identifier_ranges_def
proof (rule collect_all)
  fix x assume "x \<in> set (List.enumerate 0 ss)"
  then have "rule_ok (snd x)" using assms by (auto simp: in_set_enumerate_eq list_all_length)
  then show "(case x of (i, r) \<Rightarrow> if identifierLike (s_rule r) then map_option (map (\<lambda>x. (x, i))) (secret_spans s r) else Some [])
      = Some (case x of (i, r) \<Rightarrow> if identifierLike (s_rule r) then map (\<lambda>x. (x, i)) (rule_ranges s r) else [])"
    by (cases x) (simp add: secret_spans_all)
qed

lemma identifier_ranges_set:
  "set (map fst (identifier_ranges s ss))
     = {span j (j + length (f_text f)) |r f j. r \<in> set ss \<and> identifierLike (s_rule r) \<and> f \<in> set (forms (s_rule r)) \<and> found_at s (f_text f) j}"
proof -
  have numbers: "snd ` set (List.enumerate 0 ss) = set ss" by (metis list.set_map map_snd_enumerate)
  have "set (map fst (identifier_ranges s ss)) = (\<Union>x \<in> set (List.enumerate 0 ss). if identifierLike (s_rule (snd x)) then set (rule_ranges s (snd x)) else {})"
    unfolding identifier_ranges_def set_map set_concat image_Union image_image
    by (rule SUP_cong [OF refl]) (auto simp: image_image split: prod.splits)
  also have "\<dots> = (\<Union>r \<in> set ss. if identifierLike (s_rule r) then set (rule_ranges s r) else {})"
    unfolding numbers [symmetric] image_image ..
  finally show ?thesis by (auto simp: rule_ranges_set split: if_splits)
qed

section \<open>Runs of identifier-like secrets\<close>

lemma gather_merge:
  assumes "\<forall>x \<in> set xs. sp_start (fst x) < sp_end (fst x)"
  shows "merge_loop (run # merged) (map fst xs) = merge_loop (fst (gather run members xs) # merged) (map fst (snd (snd (gather run members xs))))"
  using assms by (induction run members xs rule: gather.induct) (auto simp: not_le)

lemma gather_rest: "set (snd (snd (gather run members xs))) \<subseteq> set xs"
  by (induction run members xs rule: gather.induct) auto

lemma gather_stops: "snd (snd (gather run members xs)) = x # rest \<Longrightarrow> sp_end (fst (gather run members xs)) < sp_start (fst x)"
  by (induction run members xs rule: gather.induct) (auto split: if_splits)

lemma identifier_runs_merge:
  assumes "\<forall>x \<in> set xs. sp_start (fst x) < sp_end (fst x)" and "merged = [] \<or> xs = [] \<or> sp_end (hd merged) < sp_start (fst (hd xs))"
  shows "merge_loop merged (map fst xs) = rev merged @ map fst (identifier_runs xs)"
  using assms
proof (induction xs arbitrary: merged rule: identifier_runs.induct)
  case (2 x xs)
  let ?g = "gather (fst x) [snd x] xs"
  have "merge_loop merged (map fst (x # xs)) = merge_loop (fst x # merged) (map fst xs)"
    using "2.prems" by (cases merged) auto
  also have "\<dots> = merge_loop (fst ?g # merged) (map fst (snd (snd ?g)))" by (rule gather_merge) (use "2.prems" in simp)
  also have "\<dots> = rev (fst ?g # merged) @ map fst (identifier_runs (snd (snd ?g)))"
  proof (rule "2.IH" [OF refl])
    show "\<forall>y \<in> set (snd (snd ?g)). sp_start (fst y) < sp_end (fst y)" using "2.prems"(1) gather_rest [of "fst x" "[snd x]" xs] by auto
    show "fst ?g # merged = [] \<or> snd (snd ?g) = [] \<or> sp_end (hd (fst ?g # merged)) < sp_start (fst (hd (snd (snd ?g))))"
      using gather_stops [of "fst x" "[snd x]" xs] by (cases "snd (snd ?g)") auto
  qed
  finally show ?case by (simp add: Let_def)
qed simp

lemma runs_are_merged:
  assumes "\<forall>x \<in> set xs. sp_start (fst x) < sp_end (fst x)"
  shows "map fst (identifier_runs (sort_key (\<lambda>x. sp_start (fst x)) xs)) = mergeSpans (map fst xs)"
proof -
  let ?sorted = "sort_key (\<lambda>x. sp_start (fst x)) xs"
  have "map fst (identifier_runs ?sorted) = merge_loop [] (map fst ?sorted)"
    using identifier_runs_merge [of ?sorted "[]"] assms by simp
  also have "\<dots> = mergeSpans (map fst xs)"
    by (rule mergeSpans_sort) (simp_all add: comp_def mset_map)
  finally show ?thesis .
qed

lemma accepted_spans:
  assumes "\<forall>x \<in> set xs. sp_start (fst x) < sp_end (fst x)"
  shows "map fst (accepted_runs s hard xs)
    = filter (\<lambda>m. boundaryBefore s (mergeSpans hard) (sp_start m) \<and> boundaryAfter s (mergeSpans hard) (sp_end m)) (mergeSpans (map fst xs))"
  unfolding accepted_runs_def Let_def runs_are_merged [OF assms, symmetric]
  by (simp add: filter_map comp_def case_prod_unfold)

section \<open>What is masked\<close>

definition identifier_words :: "string \<Rightarrow> secretSnapshot \<Rightarrow> maskSpan list" where
  "identifier_words s sn = filter (\<lambda>m. boundaryBefore s (mergeSpans (hard_ranges s sn)) (sp_start m) \<and> boundaryAfter s (mergeSpans (hard_ranges s sn)) (sp_end m))
     (mergeSpans (map fst (identifier_ranges s (secrets sn))))"

lemma span_simps [simp]: "sp_start (span i j) = i" "sp_end (span i j) = j"
  by (simp_all add: span_def)

lemma identifier_range:
  assumes "snapshot_ok sn" and "x \<in> set (map fst (identifier_ranges s (secrets sn)))"
  shows "sp_start x < sp_end x" and "sp_end x \<le> length s" and "\<forall>k. sp_start x \<le> k \<and> k < sp_end x \<longrightarrow> isIdentifierByte (s ! k)"
proof -
  obtain r f j where x: "x = span j (j + length (f_text f))" "r \<in> set (secrets sn)" "identifierLike (s_rule r)" "f \<in> set (forms (s_rule r))" "found_at s (f_text f) j"
    using assms(2) unfolding identifier_ranges_set by blast
  have f: "f_text f \<noteq> []" "list_all isIdentifierByte (f_text f)" using assms(1) x(2-4) by (auto simp: snapshot_ok_def rule_ok_def list_all_iff)
  show "sp_start x < sp_end x" "sp_end x \<le> length s" using x(1,5) f(1) by (auto simp: found_at_nth)
  show "\<forall>k. sp_start x \<le> k \<and> k < sp_end x \<longrightarrow> isIdentifierByte (s ! k)"
  proof (intro allI impI)
    fix k assume k: "sp_start x \<le> k \<and> k < sp_end x"
    then have i: "k - j < length (f_text f)" "j + (k - j) = k" by (auto simp: x(1))
    then have "s ! k = f_text f ! (k - j)" using x(5) by (metis found_at_nth)
    then show "isIdentifierByte (s ! k)" using f(2) i(1) by (simp add: list_all_length)
  qed
qed

lemma spans_all:
  assumes "snapshot_ok sn"
  shows "\<exists>raw escaped. spans sn s = Some (if secrets sn = [] \<or> s = [] then [] else hard_ranges s sn @ identifier_words s sn, raw, escaped)"
proof (cases "secrets sn = [] \<or> s = []")
  case False
  have "map fst (accepted_runs s (hard_ranges s sn) (identifier_ranges s (secrets sn))) = identifier_words s sn"
    unfolding identifier_words_def by (rule accepted_spans) (use identifier_range(1) [OF assms] in auto)
  then show ?thesis using False hard_spans_all [OF assms] identifier_spans_all [of "secrets sn" s] assms
    by (simp add: spans_def snapshot_ok_def Let_def)
qed (simp add: spans_def)

lemma identifier_word:
  assumes "snapshot_ok sn" and "m \<in> set (identifier_words s sn)"
  shows "sp_start m < sp_end m" and "sp_end m \<le> length s" and "\<forall>k. sp_start m \<le> k \<and> k < sp_end m \<longrightarrow> isIdentifierByte (s ! k)"
proof -
  let ?xs = "map fst (identifier_ranges s (secrets sn))"
  have m: "m \<in> set (mergeSpans ?xs)" using assms(2) by (simp add: identifier_words_def)
  have ap: "apart (mergeSpans ?xs)" by simp
  show lt: "sp_start m < sp_end m" using ap m unfolding apart_def by blast
  have covered: "\<exists>x \<in> set ?xs. sp_start x \<le> k \<and> k < sp_end x" if "sp_start m \<le> k" "k < sp_end m" for k
  proof -
    have "k \<in> positions (mergeSpans ?xs)" using m that by (force simp: positions_def)
    then have "k \<in> positions ?xs" by simp
    then show ?thesis unfolding positions_def by auto
  qed
  show "\<forall>k. sp_start m \<le> k \<and> k < sp_end m \<longrightarrow> isIdentifierByte (s ! k)"
    using covered identifier_range(3) [OF assms(1)] by blast
  have "sp_end m - 1 < length s" using covered [of "sp_end m - 1"] lt identifier_range(2) [OF assms(1)] by fastforce
  then show "sp_end m \<le> length s" by simp
qed

lemma hard_range:
  assumes "snapshot_ok sn" and "x \<in> set (hard_ranges s sn)"
  shows "sp_end x \<le> length s"
proof -
  have "sp_end x \<le> length s" if "r \<in> set (secrets sn)" "x \<in> set (rule_ranges s r)" for r
    using that assms(1) by (fastforce simp: rule_ranges_set found_at_nth snapshot_ok_def rule_ok_def list_all_iff)
  moreover have "sp_end x \<le> length s" if "c \<in> set (sn_compact sn)" "x \<in> set (compact_ranges (whitespaceFreeView s) c)" for c
  proof -
    have "c_text c \<noteq> []" using that(1) assms(1) by (auto simp: snapshot_ok_def compact_ok_def list_all_iff)
    then show ?thesis using that(2) original_back(3) [OF whitespaceFreeView_ok] by (fastforce simp: compact_ranges_def found_at_nth)
  qed
  ultimately show ?thesis using assms(2) by (auto simp: hard_ranges_def split: if_splits)
qed

lemma spans_bounded:
  assumes "snapshot_ok sn"
  shows "positions (hard_ranges s sn @ identifier_words s sn) \<subseteq> {..<length s}"
  using hard_range [OF assms] identifier_word(2) [OF assms] by (fastforce simp: positions_def)

text \<open>The plain boundaries of an identifier: the edge of the text or a byte that no identifier holds.\<close>

definition plain_boundaries :: "string \<Rightarrow> nat \<Rightarrow> nat \<Rightarrow> bool" where
  "plain_boundaries s i j = ((i = 0 \<or> \<not> isIdentifierByte (s ! (i - 1))) \<and> (j = length s \<or> \<not> isIdentifierByte (s ! j)))"

lemma hard_masked:
  assumes "r \<in> set (secrets sn)" and "\<not> identifierLike (s_rule r)" and "f \<in> set (forms (s_rule r))" and "found_at s (f_text f) j"
  shows "{j..<j + length (f_text f)} \<subseteq> positions (hard_ranges s sn)"
proof -
  have "span j (j + length (f_text f)) \<in> set (hard_ranges s sn)" using assms by (fastforce simp: hard_ranges_def rule_ranges_set)
  then show ?thesis by (force simp: positions_def)
qed

text \<open>A stretch of identifier positions whose neighbours are none is one merged range.\<close>

lemma apart_stretch:
  assumes "apart ms" and "i < j" and "{i..<j} \<subseteq> positions ms" and "i = 0 \<or> i - 1 \<notin> positions ms" and "j \<notin> positions ms"
  shows "span i j \<in> set ms"
proof -
  have "i \<in> positions ms" using assms(2,3) by auto
  then obtain m where m: "m \<in> set ms" "sp_start m \<le> i" "i < sp_end m" unfolding positions_iff by blast
  have inside: "k \<in> positions ms" if "sp_start m \<le> k" "k < sp_end m" for k using m(1) that by (force simp: positions_def)
  have out: "sp_end m \<notin> positions ms"
  proof
    assume "sp_end m \<in> positions ms"
    then obtain n where n: "n \<in> set ms" "sp_start n \<le> sp_end m" "sp_end m < sp_end n" by (auto simp: positions_def)
    obtain a b where ab: "a < length ms" "ms ! a = m" "b < length ms" "ms ! b = n" using m(1) n(1) by (metis in_set_conv_nth)
    then consider "a < b" | "b < a" | "m = n" by (metis linorder_neqE_nat)
    then show False
    proof cases
      case 1
      then show False using apart_nth [OF assms(1) 1 ab(3)] ab n(2) by simp
    next
      case 2
      then show False using apart_nth [OF assms(1) 2 ab(1)] ab n(3) m(2,3) by simp
    next
      case 3
      then show False using n(3) by simp
    qed
  qed
  have "sp_start m = i" using inside [of "i - 1"] m(2,3) assms(4) by (cases "sp_start m = i") auto
  moreover have "sp_end m \<le> j" using inside [of j] m(2) assms(2,5) by (meson le_less_trans less_imp_le not_le)
  moreover have "\<not> sp_end m < j" using out assms(3) m(3) by (auto simp: subset_eq)
  ultimately have "m = span i j" by (simp add: span_def)
  then show ?thesis using m(1) by simp
qed

lemma identifier_masked:
  assumes "snapshot_ok sn" and "r \<in> set (secrets sn)" and "identifierLike (s_rule r)" and "f \<in> set (forms (s_rule r))" and "found_at s (f_text f) j"
    and "plain_boundaries s j (j + length (f_text f))"
  shows "{j..<j + length (f_text f)} \<subseteq> positions (identifier_words s sn)"
proof -
  let ?xs = "map fst (identifier_ranges s (secrets sn))" and ?e = "j + length (f_text f)"
  have x: "span j ?e \<in> set ?xs" unfolding identifier_ranges_set using assms(2-5) by blast
  note r = identifier_range [OF assms(1) x, simplified]
  have ident: "isIdentifierByte (s ! k)" "k < length s" if k: "k \<in> positions ?xs" for k
  proof -
    obtain y where y: "y \<in> set ?xs" "sp_start y \<le> k" "k < sp_end y" using k unfolding positions_iff by blast
    show "isIdentifierByte (s ! k)" "k < length s" using identifier_range(2,3) [OF assms(1) y(1)] y(2,3) by auto
  qed
  have "span j ?e \<in> set (mergeSpans ?xs)"
  proof (rule apart_stretch)
    show "{j..<?e} \<subseteq> positions (mergeSpans ?xs)" using x unfolding mergeSpans_positions by (force simp: positions_def)
    show "j = 0 \<or> j - 1 \<notin> positions (mergeSpans ?xs)" using assms(6) ident(1) unfolding mergeSpans_positions plain_boundaries_def by blast
    show "?e \<notin> positions (mergeSpans ?xs)" using assms(6) ident [of ?e] unfolding mergeSpans_positions plain_boundaries_def by auto
  qed (use r in simp_all)
  then have "span j ?e \<in> set (identifier_words s sn)" using assms(6)
    by (auto simp: identifier_words_def boundaryBefore_def boundaryAfter_def plain_boundaries_def)
  then show ?thesis by (force simp: positions_def)
qed


section \<open>Rules of a secret\<close>

lemma set_add_forms: "set (fold add_form vs known) = set known \<union> (set vs - {[]})"
  by (induction vs arbitrary: known) (auto simp: add_form_def)

lemma jsonEscapedForms_value: "value \<in> set (jsonEscapedForms value)"
  unfolding jsonEscapedForms_def set_sort set_add_forms by simp

lemma jsonEscapedForms_ne: "value \<noteq> [] \<Longrightarrow> f \<in> set (jsonEscapedForms value) \<Longrightarrow> f \<noteq> []"
  unfolding jsonEscapedForms_def set_sort set_add_forms by auto

lemma add_variant_texts: "f_text ` set (add_variant v fs) = f_text ` set fs \<union> set (jsonEscapedForms v)"
proof -
  have "f_text ` set (fold (\<lambda>form fs. if \<exists>known \<in> set fs. f_text known = form then fs else fs @ [\<lparr>f_text = form, f_raw = (form = v)\<rparr>]) ts fs)
      = f_text ` set fs \<union> set ts" for ts
    by (induction ts arbitrary: fs) auto
  then show ?thesis by (simp add: add_variant_def)
qed

lemma forms_texts: "f_text ` set (forms (newSecretRule container v)) = (\<Union>w \<in> set (line_variants v). set (jsonEscapedForms w))"
proof -
  have "f_text ` set (fold add_variant ws fs) = f_text ` set fs \<union> (\<Union>w \<in> set ws. set (jsonEscapedForms w))" for ws fs
    by (induction ws arbitrary: fs) (auto simp: add_variant_texts)
  then show ?thesis by (simp add: newSecretRule_def)
qed

lemma line_variants_value: "v \<in> set (line_variants v)"
  by (auto simp: line_variants_def Let_def)

lemma replace_from_ne: "new \<noteq> [] \<Longrightarrow> (replace_from s old new = []) = (s = [])" "new \<noteq> [] \<Longrightarrow> ([] = replace_from s old new) = (s = [])"
  by (cases s; auto)+

lemma line_variants_ne: "v \<noteq> [] \<Longrightarrow> w \<in> set (line_variants v) \<Longrightarrow> w \<noteq> []"
  by (auto simp: line_variants_def ReplaceAll_def CRLF_def replace_from_ne Let_def split: if_splits)

lemma identifier_chunk: "identifier_rune (Some n) \<Longrightarrow> decode_rune (c # s) = (Some n, w) \<Longrightarrow> w = 1 \<and> n = byte c"
  by (auto simp: identifier_rune_def Let_def second_lo_def split: if_splits list.splits)

lemma identifier_value: "list_all identifier_rune (runes v) \<Longrightarrow> list_all isIdentifierByte v \<and> chunks v = map (\<lambda>c. (Some (byte c), [c])) v"
proof (induction v rule: chunks.induct)
  case (1 s)
  show ?case
  proof (cases s)
    case (Cons c t)
    let ?d = "decode_rune s"
    have chunk: "chunks s = (fst ?d, take (snd ?d) s) # chunks (drop (snd ?d) s)" using Cons by (subst chunks.simps) (simp add: Let_def)
    have head: "identifier_rune (fst ?d)" and tail: "list_all identifier_rune (runes (drop (snd ?d) s))"
      using "1.prems" chunk by (simp_all add: runes_def)
    then obtain n where n: "fst ?d = Some n" by (cases "fst ?d") (auto simp: identifier_rune_def)
    have w: "snd ?d = 1" "n = byte c"
      using identifier_chunk [of n c t "snd ?d"] head n Cons by (metis prod.collapse)+
    have IH: "list_all isIdentifierByte t \<and> chunks t = map (\<lambda>c. (Some (byte c), [c])) t"
      using "1.IH" [OF _ refl tail] w(1) Cons by simp
    have "char_of (95 :: nat) = CHR ''_''" "char_of (45 :: nat) = CHR ''-''" by code_simp+
    moreover have "c = char_of (byte c)" by (simp add: byte_def)
    ultimately have "isIdentifierByte c" using head n w(2) unfolding identifier_rune_def isIdentifierByte_def by auto
    then show ?thesis using IH chunk w n Cons by simp
  qed simp
qed

lemma plain_upper: "BACKSLASH \<notin> set v \<Longrightarrow> upperHexEscapes v = v"
  by (induction v rule: upperHexEscapes.induct) auto

lemma identifier_bytes: "isIdentifierByte c \<Longrightarrow> byte c \<noteq> 8 \<and> byte c \<noteq> 34 \<and> byte c \<noteq> 92 \<and> 32 \<le> byte c \<and> byte c < 128 \<and> byte c \<notin> {38, 60, 62}"
proof -
  have "byte CHR ''_'' = 95" "byte CHR ''-'' = 45" by code_simp+
  then show "isIdentifierByte c \<Longrightarrow> ?thesis" by (auto simp: isIdentifierByte_def)
qed

lemma identifier_plain:
  assumes "list_all isIdentifierByte v"
  shows "BACKSLASH \<notin> set v" and "NEWLINE \<notin> set v"
proof -
  have "byte BACKSLASH = 92" "byte NEWLINE = 10" by code_simp+
  then show "BACKSLASH \<notin> set v" "NEWLINE \<notin> set v" using assms identifier_bytes by (fastforce simp: list_all_iff)+
qed

lemma identifier_forms:
  assumes "isIdentifierLikeSecret v"
  shows "set (jsonEscapedForms v) = {v}" and "line_variants v = [v]"
proof -
  have v: "list_all isIdentifierByte v" "chunks v = map (\<lambda>c. (Some (byte c), [c])) v"
    using identifier_value [of v] assms by (auto simp: isIdentifierLikeSecret_def)
  have same: "concat (map f v) = v" if "\<And>c. isIdentifierByte c \<Longrightarrow> f c = [c]" for f
    using v(1) that by (induction v) auto
  have json: "json_char html (Some (byte c), [c]) = [c]" if "isIdentifierByte c" for html c
    using identifier_bytes [OF that] by (auto simp: json_char_def)
  have "jsonHTMLStringBody v = v" "jsonStringBody v = v"
    unfolding jsonHTMLStringBody_def jsonStringBody_def v(2) map_map by (rule same, simp add: json)+
  moreover have "controlEscaped v = v"
    unfolding controlEscaped_def runes_def v(2) map_map
    by (rule same) (use identifier_bytes in \<open>force simp: encode_rune_def byte_def\<close>)
  ultimately show "set (jsonEscapedForms v) = {v}"
    unfolding jsonEscapedForms_def set_sort set_add_forms using plain_upper [OF identifier_plain(1) [OF v(1)]] by auto
  show "line_variants v = [v]"
    using identifier_plain(2) [OF v(1)] by (auto simp: line_variants_def Contains_iff sublist_def)
qed

lemma new_rule_ok:
  assumes "v \<noteq> []"
  shows "rule_ok \<lparr>s_value = v, s_rule = newSecretRule container v\<rparr>"
proof -
  have "f_text f \<noteq> []" if "f \<in> set (forms (newSecretRule container v))" for f
  proof -
    have "f_text f \<in> (\<Union>w \<in> set (line_variants v). set (jsonEscapedForms w))" unfolding forms_texts [of container, symmetric] using that by (rule imageI)
    then show ?thesis using jsonEscapedForms_ne line_variants_ne [OF assms] by blast
  qed
  moreover have "list_all isIdentifierByte (f_text f)" if "f \<in> set (forms (newSecretRule container v))" "isIdentifierLikeSecret v" for f
  proof -
    have "f_text f \<in> (\<Union>w \<in> set (line_variants v). set (jsonEscapedForms w))" unfolding forms_texts [of container, symmetric] using that(1) by (rule imageI)
    then have "f_text f = v" using identifier_forms [OF that(2)] by simp
    then show ?thesis using identifier_value [of v] that(2) by (simp add: isIdentifierLikeSecret_def)
  qed
  moreover have "identifierLike (newSecretRule container v) = isIdentifierLikeSecret v" by (simp add: newSecretRule_def)
  ultimately show ?thesis by (simp add: rule_ok_def)
qed

section \<open>Snapshots are complete\<close>

lemma newCompactSecret_ok: "p \<noteq> [] \<Longrightarrow> \<exists>c. newCompactSecret i p = Some c \<and> compact_ok c \<and> c_index c = i \<and> c_text c = p"
  using borders_returns [of p] by (auto simp: newCompactSecret_def compact_ok_def)

lemma add_multiline_keeps: "secrets (fold add_multiline fs sn) = secrets sn \<and> sn_compact (fold add_multiline fs sn) = sn_compact sn"
  by (induction fs arbitrary: sn) (auto simp: add_multiline_def Let_def)

lemma snapshot_loop_ok:
  "list_all compact_ok (sn_compact sn) \<Longrightarrow> \<exists>sn'. snapshot_loop i ss sn = Some sn' \<and> secrets sn' = secrets sn \<and> list_all compact_ok (sn_compact sn')
     \<and> map c_text (sn_compact sn') = map c_text (sn_compact sn) @ filter (\<lambda>p. p \<noteq> []) (map (\<lambda>s. compact (s_rule s)) ss)"
proof (induction ss arbitrary: i sn)
  case (Cons s ss)
  show ?case
  proof (cases "compact (s_rule s) = []")
    case True
    obtain sn' where sn': "snapshot_loop (Suc i) ss (fold add_multiline (forms (s_rule s)) sn) = Some sn'" "secrets sn' = secrets sn"
      "list_all compact_ok (sn_compact sn')" "map c_text (sn_compact sn') = map c_text (sn_compact sn) @ filter (\<lambda>p. p \<noteq> []) (map (\<lambda>s. compact (s_rule s)) ss)"
      using Cons.IH [of "fold add_multiline (forms (s_rule s)) sn" "Suc i"] Cons.prems add_multiline_keeps by auto
    then show ?thesis using True by (simp add: add_compact_def)
  next
    case False
    obtain c where c: "newCompactSecret i (compact (s_rule s)) = Some c" "compact_ok c" "c_text c = compact (s_rule s)"
      using newCompactSecret_ok [OF False] by blast
    let ?sn = "sn\<lparr>sn_compact := sn_compact sn @ [c], maxHeld := max (maxHeld sn) (c_limit c)\<rparr>"
    obtain sn' where sn': "snapshot_loop (Suc i) ss (fold add_multiline (forms (s_rule s)) ?sn) = Some sn'" "secrets sn' = secrets sn"
      "list_all compact_ok (sn_compact sn')" "map c_text (sn_compact sn') = map c_text (sn_compact sn) @ [c_text c] @ filter (\<lambda>p. p \<noteq> []) (map (\<lambda>s. compact (s_rule s)) ss)"
      using Cons.IH [of "fold add_multiline (forms (s_rule s)) ?sn" "Suc i"] Cons.prems c(2) add_multiline_keeps by auto
    then show ?thesis using False c by (simp add: add_compact_def)
  qed
qed simp

definition registered :: "(string \<times> secretRule) list \<Rightarrow> registeredSecret list" where
  "registered values = sort_key s_value (map (\<lambda>(v, r). \<lparr>s_value = v, s_rule = r\<rparr>) values)"

lemma newSecretSnapshot_ok:
  "\<exists>sn. newSecretSnapshot values = Some sn \<and> secrets sn = registered values \<and> list_all compact_ok (sn_compact sn)
     \<and> map c_text (sn_compact sn) = filter (\<lambda>p. p \<noteq> []) (map (\<lambda>s. compact (s_rule s)) (registered values))"
  using snapshot_loop_ok [of "\<lparr>secrets = registered values, sn_compact = [], multiline = [], maxHeld = 0, maxSkip = 0\<rparr>" 0 "registered values"]
  by (simp add: newSecretSnapshot_def registered_def Let_def)

text \<open>Snapshots do not depend on the order in which a map is visited.\<close>

lemma snapshot_order:
  assumes "distinct (map fst values)" and "mset values' = mset values"
  shows "newSecretSnapshot values' = newSecretSnapshot values"
proof -
  let ?f = "\<lambda>(v, r). \<lparr>s_value = v, s_rule = r\<rparr> :: registeredSecret"
  have keys: "map s_value (map ?f vs) = map fst vs" for vs :: "(string \<times> secretRule) list" by (auto simp: case_prod_beta)
  have inj: "inj_on s_value (set (map ?f values))" using assms(1) distinct_map [of s_value "map ?f values"] unfolding keys by blast
  have eq: "mset (map ?f values') = mset (map ?f values)" unfolding mset_map assms(2) ..
  have "set (map ?f values') = set (map ?f values)" using arg_cong [OF eq, of set_mset] by simp
  then have "sort_key s_value (map ?f values') = sort_key s_value (map ?f values)"
    by (intro sort_key_inj_key_eq) (use inj eq in simp_all)
  then show ?thesis by (simp add: newSecretSnapshot_def)
qed

section \<open>The registry over time\<close>

definition registry_ok :: "(string \<Rightarrow> bool) \<Rightarrow> SecretRegistry \<Rightarrow> bool" where
  "registry_ok container r = (distinct (map fst (reg_values r))
     \<and> (\<forall>(v, rule) \<in> set (reg_values r). 6 \<le> length v \<and> rule = newSecretRule container v)
     \<and> (cached r = None \<or> cached r = newSecretSnapshot (reg_values r)))"

text \<open>Any registration, and any redaction, which may build the snapshot.\<close>

inductive registry_step :: "(string \<Rightarrow> bool) \<Rightarrow> SecretRegistry \<Rightarrow> SecretRegistry \<Rightarrow> bool" for container where
  register: "registry_step container r (Register container v r)"
| redact: "Redact r s = Some (out, r') \<Longrightarrow> registry_step container r r'"

inductive registry_steps :: "(string \<Rightarrow> bool) \<Rightarrow> SecretRegistry \<Rightarrow> SecretRegistry \<Rightarrow> bool" for container where
  stay: "registry_steps container r r"
| go: "registry_steps container r r' \<Longrightarrow> registry_step container r' r'' \<Longrightarrow> registry_steps container r r''"

lemma new_registry_ok: "registry_ok container NewSecretRegistry"
  by (simp add: registry_ok_def NewSecretRegistry_def)

lemma register_ok: "registry_ok container r \<Longrightarrow> registry_ok container (Register container v r) \<and> set (reg_values r) \<subseteq> set (reg_values (Register container v r))"
  by (auto simp: registry_ok_def Register_def Let_def image_iff)

lemma snapshot_SomeD:
  assumes "registry_ok container r" and "snapshot r = Some (sn, r')"
  shows "newSecretSnapshot (reg_values r) = Some sn" and "reg_values r' = reg_values r" and "registry_ok container r'"
  using assms by (auto simp: snapshot_def registry_ok_def split: option.splits)

lemma redact_keeps:
  assumes "registry_ok container r" and "Redact r s = Some (out, r')"
  shows "reg_values r' = reg_values r \<and> registry_ok container r'"
proof (cases "s = []")
  case False
  show ?thesis
  proof (cases "snapshot r")
    case None
    then show ?thesis using assms(2) False by (simp add: Redact_def)
  next
    case (Some p)
    obtain sn r1 where p: "p = (sn, r1)" by (cases p)
    have "r' = r1"
    proof (cases "spans sn s")
      case None
      then show ?thesis using assms(2) False Some p by (simp add: Redact_def)
    next
      case found: (Some q)
      obtain xs ys where "q = (xs, ys)" by (cases q)
      then show ?thesis using assms(2) False Some p found by (cases "applyMasks s xs") (simp_all add: Redact_def case_prod_beta)
    qed
    then show ?thesis using snapshot_SomeD [OF assms(1)] Some p by blast
  qed
qed (use assms in \<open>auto simp: Redact_def\<close>)

lemma registry_step_ok: "registry_step container r r' \<Longrightarrow> registry_ok container r \<Longrightarrow> registry_ok container r' \<and> set (reg_values r) \<subseteq> set (reg_values r')"
  by (induction rule: registry_step.induct) (simp_all add: register_ok redact_keeps)

lemma registry_steps_ok: "registry_steps container r r' \<Longrightarrow> registry_ok container r \<Longrightarrow> registry_ok container r' \<and> set (reg_values r) \<subseteq> set (reg_values r')"
  by (induction rule: registry_steps.induct) (use registry_step_ok in blast)+

lemma Register_adds:
  assumes "6 \<le> length (TrimSpace v)" and "registry_ok container r"
  shows "(TrimSpace v, newSecretRule container (TrimSpace v)) \<in> set (reg_values (Register container v r))"
proof (cases "TrimSpace v \<in> fst ` set (reg_values r)")
  case True
  then obtain rule where "(TrimSpace v, rule) \<in> set (reg_values r)" by auto
  moreover from this have "rule = newSecretRule container (TrimSpace v)" using assms(2) by (auto simp: registry_ok_def)
  ultimately show ?thesis using register_ok [OF assms(2)] by blast
qed (use assms(1) in \<open>simp add: Register_def Let_def\<close>)

text \<open>What a redaction masks.\<close>

definition masked_positions :: "SecretRegistry \<Rightarrow> string \<Rightarrow> nat set" where
  "masked_positions r s = (case newSecretSnapshot (reg_values r) of None \<Rightarrow> {} | Some sn \<Rightarrow>
     if secrets sn = [] \<or> s = [] then {} else positions (hard_ranges s sn @ identifier_words s sn))"

lemma registry_snapshot:
  assumes "registry_ok container r"
  obtains sn where "newSecretSnapshot (reg_values r) = Some sn" "snapshot_ok sn"
    "set (secrets sn) = (\<lambda>(v, r). \<lparr>s_value = v, s_rule = r\<rparr>) ` set (reg_values r)"
    "map c_text (sn_compact sn) = filter (\<lambda>p. p \<noteq> []) (map (\<lambda>s. compact (s_rule s)) (secrets sn))"
proof -
  obtain sn where sn: "newSecretSnapshot (reg_values r) = Some sn" "secrets sn = registered (reg_values r)" "list_all compact_ok (sn_compact sn)"
    "map c_text (sn_compact sn) = filter (\<lambda>p. p \<noteq> []) (map (\<lambda>s. compact (s_rule s)) (secrets sn))"
    using newSecretSnapshot_ok [of "reg_values r"] by auto
  have set: "set (secrets sn) = (\<lambda>(v, r). \<lparr>s_value = v, s_rule = r\<rparr>) ` set (reg_values r)" by (simp add: sn(2) registered_def)
  have "rule_ok x" if mem: "x \<in> set (secrets sn)" for x
  proof -
    obtain v rule where x: "x = \<lparr>s_value = v, s_rule = rule\<rparr>" "(v, rule) \<in> set (reg_values r)" using mem unfolding set by auto
    then have "6 \<le> length v" "rule = newSecretRule container v" using assms by (auto simp: registry_ok_def)
    then show ?thesis using new_rule_ok [of v container] x(1) by (cases v) auto
  qed
  then have "snapshot_ok sn" using sn(3) by (simp add: snapshot_ok_def list_all_iff)
  then show thesis using that sn set by blast
qed

lemma Redact_masks:
  assumes "registry_ok container r"
  shows "\<exists>r'. Redact r s = Some (masked (masked_positions r s) s, r') \<and> masked_positions r s \<subseteq> {..<length s}"
proof -
  obtain sn where sn: "newSecretSnapshot (reg_values r) = Some sn" "snapshot_ok sn" by (rule registry_snapshot [OF assms])
  show ?thesis
  proof (cases "s = []")
    case True
    then show ?thesis by (simp add: Redact_def masked_positions_def sn(1) masked_def)
  next
    case False
    obtain r' where r': "snapshot r = Some (sn, r')"
      using sn(1) assms by (cases "cached r") (auto simp: snapshot_def registry_ok_def)
    let ?found = "if secrets sn = [] \<or> s = [] then [] else hard_ranges s sn @ identifier_words s sn"
    have pos: "positions ?found = masked_positions r s" by (simp add: masked_positions_def sn(1))
    have sub: "masked_positions r s \<subseteq> {..<length s}" unfolding pos [symmetric] using spans_bounded [OF sn(2), of s] by auto
    obtain raw escaped where "spans sn s = Some (?found, raw, escaped)" using spans_all [OF sn(2)] by blast
    moreover have "applyMasks s ?found = Some (masked (masked_positions r s) s)" unfolding applyMasks_masks pos using sub by simp
    ultimately show ?thesis using r' False sub by (simp add: Redact_def del: append_eq_append_conv)
  qed
qed

lemma form_of_value: "form \<in> set (jsonEscapedForms v) \<Longrightarrow> \<exists>f \<in> set (forms (newSecretRule container v)). f_text f = form"
proof -
  assume "form \<in> set (jsonEscapedForms v)"
  then have "form \<in> f_text ` set (forms (newSecretRule container v))" unfolding forms_texts using line_variants_value by blast
  then show ?thesis by auto
qed

lemma registered_form_masked:
  assumes "registry_ok container r" and "(v, newSecretRule container v) \<in> set (reg_values r)" and "form \<in> set (jsonEscapedForms v)" and "found_at s form j"
    and "isIdentifierLikeSecret v \<longrightarrow> plain_boundaries s j (j + length form)"
  shows "{j..<j + length form} \<subseteq> masked_positions r s"
proof -
  obtain sn where sn: "newSecretSnapshot (reg_values r) = Some sn" "snapshot_ok sn"
    "set (secrets sn) = (\<lambda>(v, r). \<lparr>s_value = v, s_rule = r\<rparr>) ` set (reg_values r)" by (rule registry_snapshot [OF assms(1)])
  let ?x = "\<lparr>s_value = v, s_rule = newSecretRule container v\<rparr>"
  have x: "?x \<in> set (secrets sn)" unfolding sn(3) using assms(2) by force
  obtain f where f: "f \<in> set (forms (newSecretRule container v))" "f_text f = form" using form_of_value [OF assms(3)] by blast
  have like: "identifierLike (newSecretRule container v) = isIdentifierLikeSecret v" by (simp add: newSecretRule_def)
  have pos: "masked_positions r s = positions (hard_ranges s sn) \<union> positions (identifier_words s sn)"
    using x assms(4) by (auto simp: masked_positions_def sn(1) found_at_def)
  show ?thesis
  proof (cases "isIdentifierLikeSecret v")
    case True
    then show ?thesis using identifier_masked [OF sn(2) x, of f s j] f assms(4,5) like pos by auto
  next
    case False
    then show ?thesis using hard_masked [OF x, of f s j] f assms(4) like pos by auto
  qed
qed

text \<open>C8. A registered secret never leaves unmasked: after its registration, and whatever is registered or redacted in between, every
  redaction returns the text with a set of positions masked that contains every occurrence of the secret, as written and in every JSON
  form; a secret that looks like an identifier is masked wherever it stands as a word of its own.\<close>

theorem registered_secret_masked:
  assumes "registry_steps container NewSecretRegistry r" and "6 \<le> length (TrimSpace v)" and "registry_steps container (Register container v r) r'"
    and "form \<in> set (jsonEscapedForms (TrimSpace v))"
  shows "\<exists>S r''. Redact r' s = Some (masked S s, r'') \<and> S \<subseteq> {..<length s}
    \<and> (\<forall>j. found_at s form j \<and> (isIdentifierLikeSecret (TrimSpace v) \<longrightarrow> plain_boundaries s j (j + length form)) \<longrightarrow> {j..<j + length form} \<subseteq> S)"
proof -
  have r: "registry_ok container r" using registry_steps_ok [OF assms(1) new_registry_ok] by simp
  have r': "registry_ok container r'" "(TrimSpace v, newSecretRule container (TrimSpace v)) \<in> set (reg_values r')"
    using registry_steps_ok [OF assms(3)] register_ok [OF r] Register_adds [OF assms(2) r] by auto
  obtain r'' where "Redact r' s = Some (masked (masked_positions r' s) s, r'')" "masked_positions r' s \<subseteq> {..<length s}"
    using Redact_masks [OF r'(1)] by blast
  then show ?thesis using registered_form_masked [OF r' assms(4)] by blast
qed

section \<open>Identifier-like secrets\<close>

lemma no_escape_before: "BACKSLASH \<notin> set s \<Longrightarrow> \<not> escapeBefore s"
proof -
  assume s: "BACKSLASH \<notin> set s"
  have "s ! i \<noteq> BACKSLASH" if "i < length s" for i using s nth_mem [OF that] by auto
  then show ?thesis by (auto simp: escapeBefore_def Let_def)
qed

lemma covered_none: "\<not> covered (mergeSpans []) k"
  by (simp add: covered_iff)

lemma identifier_compact: "isIdentifierLikeSecret v \<Longrightarrow> compact (newSecretRule container v) = []"
proof -
  assume "isIdentifierLikeSecret v"
  then have v: "list_all isIdentifierByte v" using identifier_value by (auto simp: isIdentifierLikeSecret_def)
  have "\<not> isIdentifierByte CHR ''{''" "\<not> isIdentifierByte CHR ''[''" by code_simp+
  then have "\<not> HasPrefix v ''{''" "\<not> HasPrefix v ''[''" using v by (cases v; auto)+
  then show ?thesis by (simp add: newSecretRule_def)
qed

text \<open>A word: a maximal stretch of identifier bytes.\<close>

definition word_at :: "string \<Rightarrow> nat \<Rightarrow> nat \<Rightarrow> bool" where
  "word_at s a b = (a < b \<and> b \<le> length s \<and> (\<forall>k. a \<le> k \<and> k < b \<longrightarrow> isIdentifierByte (s ! k)) \<and> plain_boundaries s a b)"

lemma word_whole:
  assumes "word_at s a b" and "i < j" and "j \<le> length s" and "\<forall>k. i \<le> k \<and> k < j \<longrightarrow> isIdentifierByte (s ! k)" and "plain_boundaries s i j"
    and "k \<in> {a..<b}" and "k \<in> {i..<j}"
  shows "{a..<b} \<subseteq> {i..<j}"
proof -
  have "\<not> a < i"
  proof
    assume "a < i"
    then have "a \<le> i - 1" "i - 1 < b" using assms(6,7) by auto
    then have "isIdentifierByte (s ! (i - 1))" using assms(1) by (simp add: word_at_def)
    then show False using assms(5) \<open>a < i\<close> by (simp add: plain_boundaries_def)
  qed
  moreover have "\<not> j < b"
  proof
    assume "j < b"
    then have "isIdentifierByte (s ! j)" using assms(1,6,7) by (auto simp: word_at_def)
    then show False using assms(1,5) \<open>j < b\<close> by (auto simp: plain_boundaries_def word_at_def)
  qed
  ultimately show ?thesis by auto
qed

lemma only_words_masked:
  assumes "snapshot_ok sn" and "hard_ranges s sn = []" and "BACKSLASH \<notin> set s" and "word_at s a b"
  shows "{a..<b} \<subseteq> positions (identifier_words s sn) \<or> {a..<b} \<inter> positions (identifier_words s sn) = {}"
proof (rule disjCI)
  assume "{a..<b} \<inter> positions (identifier_words s sn) \<noteq> {}"
  then obtain k where k: "k \<in> {a..<b}" "k \<in> positions (identifier_words s sn)" by blast
  obtain m where m: "m \<in> set (identifier_words s sn)" "sp_start m \<le> k" "k < sp_end m" using k(2) unfolding positions_iff by blast
  note range = identifier_word [OF assms(1) m(1)]
  have "BACKSLASH \<notin> set (take i s)" for i using assms(3) in_set_takeD by metis
  then have "plain_boundaries s (sp_start m) (sp_end m)" using m(1)
    by (auto simp: identifier_words_def boundaryBefore_def boundaryAfter_def plain_boundaries_def assms(2) covered_none no_escape_before)
  then have "{a..<b} \<subseteq> {sp_start m..<sp_end m}" using word_whole [OF assms(4) range] k(1) m by simp
  then show "{a..<b} \<subseteq> positions (identifier_words s sn)" using m(1) by (force simp: positions_def)
qed

text \<open>Names are not corrupted: while only identifier-like secrets are registered, a text without escapes is masked word by word.
  Every word is masked as a whole or left as it is, and nothing but words is masked.\<close>

theorem identifier_secrets_mask_words:
  assumes "registry_steps container NewSecretRegistry r" and "\<forall>v \<in> fst ` set (reg_values r). isIdentifierLikeSecret v" and "BACKSLASH \<notin> set s"
  shows "\<exists>S r'. Redact r s = Some (masked S s, r') \<and> (\<forall>k \<in> S. isIdentifierByte (s ! k))
    \<and> (\<forall>a b. word_at s a b \<longrightarrow> {a..<b} \<subseteq> S \<or> {a..<b} \<inter> S = {})"
proof -
  have r: "registry_ok container r" using registry_steps_ok [OF assms(1) new_registry_ok] by simp
  obtain sn where sn: "newSecretSnapshot (reg_values r) = Some sn" "snapshot_ok sn"
    "set (secrets sn) = (\<lambda>(v, r). \<lparr>s_value = v, s_rule = r\<rparr>) ` set (reg_values r)"
    "map c_text (sn_compact sn) = filter (\<lambda>p. p \<noteq> []) (map (\<lambda>s. compact (s_rule s)) (secrets sn))" by (rule registry_snapshot [OF r])
  have like: "identifierLike (s_rule x)" "compact (s_rule x) = []" if mem: "x \<in> set (secrets sn)" for x
  proof -
    obtain v where "s_rule x = newSecretRule container v" "v \<in> fst ` set (reg_values r)"
      using mem r unfolding sn(3) by (force simp: registry_ok_def)
    moreover from this have "isIdentifierLikeSecret v" using assms(2) by blast
    ultimately show "identifierLike (s_rule x)" "compact (s_rule x) = []" using identifier_compact by (simp_all, simp add: newSecretRule_def)
  qed
  have "map c_text (sn_compact sn) = []" unfolding sn(4) using like(2) by (simp add: filter_empty_conv)
  then have hard: "hard_ranges s sn = []" using like(1) by (simp add: hard_ranges_def)
  have pos: "masked_positions r s = (if secrets sn = [] \<or> s = [] then {} else positions (identifier_words s sn))"
    by (simp add: masked_positions_def sn(1) hard)
  have "isIdentifierByte (s ! k)" if "k \<in> masked_positions r s" for k
    using that identifier_word(3) [OF sn(2)] by (auto simp: pos positions_iff split: if_splits)
  moreover have "{a..<b} \<subseteq> masked_positions r s \<or> {a..<b} \<inter> masked_positions r s = {}" if "word_at s a b" for a b
    using only_words_masked [OF sn(2) hard assms(3) that] by (simp add: pos)
  ultimately show ?thesis using Redact_masks [OF r, of s] by blast
qed

section \<open>JSON secrets in any layout\<close>












section \<open>Following a stream\<close>


section \<open>Examples\<close>

definition sample_secret :: string where
  "sample_secret = ''pa:ss word''"

definition sample_name :: string where
  "sample_name = ''deploy''"

definition sample_line :: string where
  "sample_line = ''my-deploy x''"

definition sample_document :: string where
  "sample_document = ''{k:1,m:2}''"

definition sample_layout :: string where
  "sample_layout = ''{ k:1,'' @ NEWLINE # '' m:2}''"

lemmas sample_defs = sample_secret_def sample_name_def sample_line_def sample_document_def sample_layout_def

lemma sample_trim: "TrimSpace sample_secret = sample_secret" "TrimSpace sample_name = sample_name" "TrimSpace sample_document = sample_document"
  by (simp_all add: sample_defs TrimSpace_def chunks_ascii byte_def is_space_def)

lemma sample_kinds: "\<not> isIdentifierLikeSecret sample_secret" "isIdentifierLikeSecret sample_name"
  by (simp_all add: sample_defs isIdentifierLikeSecret_def runes_def chunks_ascii byte_def identifier_rune_def)


theorem registered_secret_masked_witness:
  "\<exists>S r. Redact (Register (\<lambda>_. False) sample_secret NewSecretRegistry) (''x='' @ sample_secret) = Some (masked S (''x='' @ sample_secret), r)
     \<and> {2..<12} \<subseteq> S"
proof -
  let ?s = "''x='' @ sample_secret" and ?r = "Register (\<lambda>_. False) sample_secret NewSecretRegistry"
  have len: "length sample_secret = 10" and at: "found_at ?s sample_secret 2" by (simp_all add: sample_secret_def found_at_def HasPrefix_def)
  have long: "6 \<le> length (TrimSpace sample_secret)" by (simp add: sample_trim len)
  have form: "sample_secret \<in> set (jsonEscapedForms (TrimSpace sample_secret))" unfolding sample_trim by (rule jsonEscapedForms_value)
  obtain S r where S: "Redact ?r ?s = Some (masked S ?s, r)" "\<forall>j. found_at ?s sample_secret j \<and> (isIdentifierLikeSecret (TrimSpace sample_secret)
      \<longrightarrow> plain_boundaries ?s j (j + length sample_secret)) \<longrightarrow> {j..<j + length sample_secret} \<subseteq> S"
    using registered_secret_masked [OF registry_steps.stay long registry_steps.stay form, of "\<lambda>_. False" ?s] by blast
  have "{2..<2 + length sample_secret} \<subseteq> S" using S(2) [rule_format, of 2] at sample_kinds(1) unfolding sample_trim by blast
  then show ?thesis using S(1) by (auto simp: len)
qed

theorem identifier_secrets_mask_words_witness:
  "\<exists>S r. Redact (Register (\<lambda>_. False) sample_name NewSecretRegistry) sample_line = Some (masked S sample_line, r)
     \<and> ({0..<9} \<subseteq> S \<or> {0..<9} \<inter> S = {})"
proof -
  let ?r = "Register (\<lambda>_. False) sample_name NewSecretRegistry"
  have steps: "registry_steps (\<lambda>_. False) NewSecretRegistry ?r" by (rule registry_steps.go [OF registry_steps.stay registry_step.register])
  have "length sample_name = 6" by (simp add: sample_name_def)
  then have like: "\<forall>v \<in> fst ` set (reg_values ?r). isIdentifierLikeSecret v" by (simp add: Register_def NewSecretRegistry_def sample_trim sample_kinds)
  have plain: "BACKSLASH \<notin> set sample_line" by (simp add: sample_line_def)
  have "list_all (\<lambda>k. isIdentifierByte (sample_line ! k)) [0..<9]" "plain_boundaries sample_line 0 9" "length sample_line = 11" by code_simp+
  then have "word_at sample_line 0 9" by (auto simp: word_at_def list_all_iff)
  then show ?thesis using identifier_secrets_mask_words [OF steps like plain] by blast
qed


end
