(* ===== verification/ExecutionLane.thy ===== *)
theory ExecutionLane
  imports Prelude
begin

text \<open>
  The execution lane of a person: \<^verbatim>\<open>internal/tools/execution_lane.go\<close>. A call on the host runs alone; isolated commands and file
  edits share the lane until a host call waits. A host call that was parked keeps its place through the reference of its run, in
  the order of the durable queue.

  \<^verbatim>\<open>acquire\<close> holds the mutex of the lane from its beginning, or from a wake-up, to the next wait; these sections are the steps of the
  machine, and \<open>lane_step\<close> lets any number of calls take them in any order, beside cancellations and changes of the durable queue.
  The channel \<^verbatim>\<open>changed\<close>, closed and replaced by \<^verbatim>\<open>notify\<close>, is a counter: a waiter that remembers an older value has been woken.
\<close>

section \<open>The lane\<close>

record executionLane =
  readers :: int
  writers :: int
  host :: bool
  changed :: nat
  queuedHosts :: "string set"
  queuedOrder :: "string list"
  yieldedHosts :: "string set"

definition new_lane :: executionLane where
  "new_lane = \<lparr>readers = 0, writers = 0, host = False, changed = 0, queuedHosts = {}, queuedOrder = [], yieldedHosts = {}\<rparr>"

definition notifyLane :: "executionLane \<Rightarrow> executionLane" where
  "notifyLane l = l\<lparr>changed := Suc (changed l)\<rparr>"

definition firstQueuedHost :: "executionLane \<Rightarrow> string" where
  "firstQueuedHost l = (case find (\<lambda>ref. ref \<in> queuedHosts l) (queuedOrder l) of None \<Rightarrow> [] | Some ref \<Rightarrow> ref)"

definition yieldHost :: "string \<Rightarrow> executionLane \<Rightarrow> executionLane" where
  "yieldHost ref l = (if ref = [] then l
     else l\<lparr>queuedHosts := queuedHosts l - {ref}, yieldedHosts := insert ref (yieldedHosts l)\<rparr>)"

definition hostTurn :: "string \<Rightarrow> executionLane \<Rightarrow> bool" where
  "hostTurn ref l = (queuedHosts l = {} \<or> ref \<noteq> [] \<and> ref = firstQueuedHost l)"

definition admissible :: "bool \<Rightarrow> string \<Rightarrow> executionLane \<Rightarrow> bool" where
  "admissible h ref l = (\<not> host l \<and> (\<not> h \<and> writers l = 0 \<and> queuedHosts l = {} \<or> h \<and> readers l = 0 \<and> hostTurn ref l))"

definition admit :: "bool \<Rightarrow> string \<Rightarrow> executionLane \<Rightarrow> executionLane" where
  "admit h ref l = (if h then yieldHost ref (l\<lparr>writers := writers l - 1, host := True\<rparr>) else l\<lparr>readers := readers l + 1\<rparr>)"

definition withdraw :: "bool \<Rightarrow> executionLane \<Rightarrow> executionLane" where
  "withdraw h l = (if h then notifyLane (l\<lparr>writers := writers l - 1\<rparr>) else l)"

definition release :: "bool \<Rightarrow> executionLane \<Rightarrow> executionLane" where
  "release h l = notifyLane (if h then l\<lparr>host := False\<rparr> else l\<lparr>readers := readers l - 1\<rparr>)"

definition ExecutionLaneReady :: "string \<Rightarrow> executionLane \<Rightarrow> bool" where
  "ExecutionLaneReady hostRef l =
     (if hostRef \<noteq> [] then \<not> host l \<and> readers l = 0 \<and> (firstQueuedHost l = [] \<or> firstQueuedHost l = hostRef)
      else \<not> host l \<and> readers l = 0 \<and> writers l = 0 \<and> queuedHosts l = {})"

definition PreserveQueuedHostExecution :: "string \<Rightarrow> executionLane \<Rightarrow> executionLane" where
  "PreserveQueuedHostExecution ref l = (if ref = [] then l
     else notifyLane (l\<lparr>queuedOrder := (if ref \<in> queuedHosts l then queuedOrder l else queuedOrder l @ [ref]),
                   queuedHosts := insert ref (queuedHosts l)\<rparr>))"

definition YieldQueuedHostExecution :: "string \<Rightarrow> executionLane \<Rightarrow> executionLane" where
  "YieldQueuedHostExecution ref l = (if ref = [] then l else notifyLane (yieldHost ref l))"

definition ReconcileQueuedHostExecution :: "string list \<Rightarrow> executionLane \<Rightarrow> executionLane" where
  "ReconcileQueuedHostExecution refs l =
     (let yielded = yieldedHosts l \<inter> set refs; queued = set refs - yielded;
          l' = l\<lparr>yieldedHosts := yielded, queuedHosts := queued, queuedOrder := refs\<rparr> in
      if card queued \<noteq> card (queuedHosts l) \<or> (\<exists>ref \<in> queued. ref \<notin> queuedHosts l) then notifyLane l' else l')"

section \<open>Calls\<close>

datatype lane_pc = Entering | Locking | Waiting | Waking | Relocking bool | Holding | Released | Refused

record lane_call =
  lc_host :: bool
  lc_ref :: string
  lc_refresh :: bool
  lc_cancelled :: bool
  lc_seen :: nat
  lc_pc :: lane_pc

text \<open>One pass of the loop under the mutex.\<close>

definition attempt :: "lane_call \<Rightarrow> executionLane \<Rightarrow> lane_call \<times> executionLane" where
  "attempt c l =
     (if lc_cancelled c then (c\<lparr>lc_pc := Refused\<rparr>, withdraw (lc_host c) l)
      else if admissible (lc_host c) (lc_ref c) l then (c\<lparr>lc_pc := Holding\<rparr>, admit (lc_host c) (lc_ref c) l)
      else (c\<lparr>lc_pc := Waiting, lc_seen := changed l\<rparr>, l))"

inductive lane_call_step :: "lane_call \<times> executionLane \<Rightarrow> lane_call \<times> executionLane \<Rightarrow> bool" where
  inspect: "lc_pc c = Entering \<Longrightarrow> lane_call_step (c, l) (c\<lparr>lc_pc := Locking\<rparr>, l)"
| inspect_failed: "lc_pc c = Entering \<Longrightarrow> lc_refresh c \<Longrightarrow> lane_call_step (c, l) (c\<lparr>lc_pc := Refused\<rparr>, l)"
| lock: "lc_pc c = Locking \<Longrightarrow> lane_call_step (c, l) (attempt c (if lc_host c then l\<lparr>writers := writers l + 1\<rparr> else l))"
| wake: "lc_pc c = Waiting \<Longrightarrow> lc_cancelled c \<or> lc_seen c \<noteq> changed l \<or> lc_refresh c \<Longrightarrow> lane_call_step (c, l) (c\<lparr>lc_pc := Waking\<rparr>, l)"
| refreshed: "lc_pc c = Waking \<Longrightarrow> lane_call_step (c, l) (c\<lparr>lc_pc := Relocking False\<rparr>, l)"
| refresh_failed: "lc_pc c = Waking \<Longrightarrow> \<not> lc_cancelled c \<Longrightarrow> lc_refresh c \<Longrightarrow> lane_call_step (c, l) (c\<lparr>lc_pc := Relocking True\<rparr>, l)"
| retry: "lc_pc c = Relocking False \<Longrightarrow> lane_call_step (c, l) (attempt c l)"
| give_up: "lc_pc c = Relocking True \<Longrightarrow> lane_call_step (c, l) (c\<lparr>lc_pc := Refused\<rparr>, withdraw (lc_host c) l)"
| finish: "lc_pc c = Holding \<Longrightarrow> lane_call_step (c, l) (c\<lparr>lc_pc := Released\<rparr>, release (lc_host c) l)"

text \<open>A step of the system: a call moves, arrives or is cancelled, or the durable queue changes.\<close>

inductive lane_step :: "executionLane \<times> lane_call list \<Rightarrow> executionLane \<times> lane_call list \<Rightarrow> bool" where
  move: "i < length cs \<Longrightarrow> lane_call_step (cs ! i, l) (c', l') \<Longrightarrow> lane_step (l, cs) (l', cs[i := c'])"
| arrive: "lc_pc c = Entering \<Longrightarrow> lane_step (l, cs) (l, cs @ [c])"
| cancel: "i < length cs \<Longrightarrow> lane_step (l, cs) (l, cs[i := (cs ! i)\<lparr>lc_cancelled := True\<rparr>])"
| preserve: "lane_step (l, cs) (PreserveQueuedHostExecution ref l, cs)"
| yield: "lane_step (l, cs) (YieldQueuedHostExecution ref l, cs)"
| reconcile: "lane_step (l, cs) (ReconcileQueuedHostExecution refs l, cs)"

inductive lane_reachable :: "executionLane \<times> lane_call list \<Rightarrow> bool" where
  begin_empty: "lane_reachable (new_lane, [])"
| go_on: "lane_reachable s \<Longrightarrow> lane_step s s' \<Longrightarrow> lane_reachable s'"

section \<open>The invariant\<close>

definition reading :: "lane_call \<Rightarrow> bool" where
  "reading c = (lc_pc c = Holding \<and> \<not> lc_host c)"

definition hosts :: "lane_call \<Rightarrow> bool" where
  "hosts c = (lc_pc c = Holding \<and> lc_host c)"

definition in_loop :: "lane_call \<Rightarrow> bool" where
  "in_loop c = (lc_pc c \<in> {Waiting, Waking, Relocking False, Relocking True})"

definition waits :: "lane_call \<Rightarrow> bool" where
  "waits c = (lc_host c \<and> in_loop c)"

text \<open>A call sleeps that waits and has not been woken. Only the calls that follow the durable queue may sleep through their turn, and
  only while the queue holds a reference: its order changes without a wake-up, and they look again on their own.\<close>

definition asleep :: "executionLane \<Rightarrow> lane_call \<Rightarrow> bool" where
  "asleep l c = (lc_pc c = Waiting \<and> lc_seen c = changed l)"

definition rests :: "executionLane \<Rightarrow> lane_call \<Rightarrow> bool" where
  "rests l c = (lc_pc c = Waiting \<longrightarrow> lc_seen c \<le> changed l
     \<and> (lc_seen c = changed l \<and> (lc_ref c = [] \<or> queuedHosts l = {}) \<longrightarrow> \<not> admissible (lc_host c) (lc_ref c) l))"

definition lane_inv :: "executionLane \<times> lane_call list \<Rightarrow> bool" where
  "lane_inv s = (case s of (l, cs) \<Rightarrow>
     readers l = int (jcount reading cs) \<and> of_bool (host l) = int (jcount hosts cs) \<and> writers l = int (jcount waits cs)
     \<and> (host l \<longrightarrow> readers l = 0) \<and> finite (queuedHosts l) \<and> queuedHosts l \<subseteq> set (queuedOrder l) \<and> (\<forall>c \<in> set cs. rests l c))"

lemmas lane_ops = attempt_def admit_def withdraw_def release_def notifyLane_def yieldHost_def
lemmas call_kinds = reading_def hosts_def waits_def in_loop_def

inductive_cases lane_call_stepE: "lane_call_step (c, l) (c', l')"

lemma attempt_counts:
  assumes "attempt c l = (c', l')"
  shows "readers l' = readers l + of_bool (reading c')" and "of_bool (host l') = of_bool (host l) + (of_bool (hosts c') :: int)"
    and "writers l' = writers l - of_bool (lc_host c) + of_bool (waits c')" and "host l \<longrightarrow> readers l = 0 \<Longrightarrow> host l' \<longrightarrow> readers l' = 0"
  using assms by (auto simp: lane_ops call_kinds admissible_def split: if_splits)

lemma lane_call_counts:
  assumes "lane_call_step (c, l) (c', l')" and "hosts c \<longrightarrow> host l"
  shows "readers l' = readers l - of_bool (reading c) + of_bool (reading c')
    \<and> of_bool (host l') = of_bool (host l) - of_bool (hosts c) + (of_bool (hosts c') :: int)
    \<and> writers l' = writers l - of_bool (waits c) + of_bool (waits c')"
  using assms(1)
proof cases
  case lock
  then show ?thesis using attempt_counts(1-3) [OF lock(1) [symmetric]] by (simp add: call_kinds)
next
  case retry
  then show ?thesis using attempt_counts(1-3) [OF retry(1) [symmetric]] by (simp add: call_kinds)
next
  case give_up
  then show ?thesis by (simp add: call_kinds withdraw_def notifyLane_def)
next
  case finish
  then show ?thesis using assms(2) by (simp add: call_kinds release_def notifyLane_def)
qed (simp_all add: call_kinds)

lemma lane_call_excludes:
  assumes "lane_call_step (c, l) (c', l')" and "host l \<longrightarrow> readers l = 0" and "hosts c \<longrightarrow> host l" and "reading c \<longrightarrow> 0 < readers l"
  shows "host l' \<longrightarrow> readers l' = 0"
  using assms(1)
proof cases
  case lock
  then show ?thesis using attempt_counts(4) [OF lock(1) [symmetric]] assms(2) by simp
next
  case retry
  then show ?thesis using attempt_counts(4) [OF retry(1) [symmetric]] assms(2) by simp
next
  case finish
  then show ?thesis using assms(2-4) by (auto simp: call_kinds release_def notifyLane_def)
qed (use assms(2) in \<open>simp_all add: withdraw_def notifyLane_def\<close>)

lemma lane_call_queue:
  assumes "lane_call_step (c, l) (c', l')" and "finite (queuedHosts l)" and "queuedHosts l \<subseteq> set (queuedOrder l)"
  shows "finite (queuedHosts l')" and "queuedHosts l' \<subseteq> set (queuedOrder l')" and "changed l \<le> changed l'"
  using assms by (auto elim!: lane_call_stepE simp: lane_ops split: if_splits)

text \<open>A step without a wake-up opens the lane to nobody.\<close>

lemma attempt_quiet:
  assumes "attempt c l = (c', l')" and "changed l' = changed l" and "0 \<le> readers l" and "admissible h ref l'"
  shows "admissible h ref l \<and> queuedHosts l' = queuedHosts l"
proof -
  consider "lc_cancelled c" "l' = withdraw (lc_host c) l" | "\<not> lc_cancelled c" "l' = admit (lc_host c) (lc_ref c) l" | "l' = l"
    using assms(1) by (auto simp: attempt_def split: if_splits)
  then show ?thesis
  proof cases
    case 1
    then have "l' = l" using assms(2) by (simp add: withdraw_def notifyLane_def split: if_splits)
    then show ?thesis using assms(4) by simp
  next
    case 2
    then have "\<not> lc_host c" using assms(4) by (auto simp: admit_def yieldHost_def admissible_def split: if_splits)
    then show ?thesis using 2 assms(3,4) by (auto simp: admit_def admissible_def hostTurn_def firstQueuedHost_def)
  qed (use assms(4) in simp)
qed

lemma more_writers: "0 \<le> writers l \<Longrightarrow> admissible h ref (l\<lparr>writers := writers l + 1\<rparr>) \<Longrightarrow> admissible h ref l"
  by (auto simp: admissible_def hostTurn_def firstQueuedHost_def)

lemma quiet_step:
  assumes "lane_call_step (c, l) (c', l')" and "changed l' = changed l" and "0 \<le> readers l" and "0 \<le> writers l" and "admissible h ref l'"
  shows "admissible h ref l \<and> queuedHosts l' = queuedHosts l"
  using assms(1)
proof cases
  case lock
  let ?l = "if lc_host c then l\<lparr>writers := writers l + 1\<rparr> else l"
  have same: "changed l' = changed ?l" "0 \<le> readers ?l" "queuedHosts ?l = queuedHosts l" using assms(2,3) by simp_all
  have "admissible h ref ?l" "queuedHosts l' = queuedHosts ?l" using attempt_quiet [OF lock(1) [symmetric] same(1,2) assms(5)] by simp_all
  then show ?thesis using more_writers [OF assms(4)] same(3) by (cases "lc_host c") simp_all
next
  case retry
  then show ?thesis using attempt_quiet [OF retry(1) [symmetric]] assms(2,3,5) by blast
next
  case give_up
  then show ?thesis using assms(2,5) by (auto simp: withdraw_def notifyLane_def split: if_splits)
next
  case finish
  then show ?thesis using assms(2) by (simp add: release_def notifyLane_def split: if_splits)
qed (use assms(5) in simp_all)

lemma attempt_rests: "attempt c l = (c', l') \<Longrightarrow> rests l' c'"
  by (auto simp: attempt_def rests_def split: if_splits)

lemma moved_rests: "lane_call_step (c, l) (c', l') \<Longrightarrow> rests l' c'"
  by (erule lane_call_stepE) (auto dest!: sym [of "(c', l')"] attempt_rests simp: rests_def)

lemma others_rest:
  assumes "lane_call_step (c, l) (c', l')" and "0 \<le> readers l" and "0 \<le> writers l" and "finite (queuedHosts l)" and "queuedHosts l \<subseteq> set (queuedOrder l)"
    and "rests l d"
  shows "rests l' d"
proof (cases "changed l' = changed l")
  case True
  then show ?thesis using quiet_step [OF assms(1) True assms(2,3), of "lc_host d" "lc_ref d"] assms(6) unfolding rests_def by metis
next
  case False
  then have "changed l < changed l'" using lane_call_queue(3) [OF assms(1,4,5)] by simp
  then show ?thesis using assms(6) by (auto simp: rests_def)
qed

lemma lane_inv_move:
  assumes "lane_inv (l, cs)" and "i < length cs" and "lane_call_step (cs ! i, l) (c', l')"
  shows "lane_inv (l', cs[i := c'])"
proof -
  have inv: "readers l = int (jcount reading cs)" "of_bool (host l) = int (jcount hosts cs)" "writers l = int (jcount waits cs)"
    "host l \<longrightarrow> readers l = 0" "finite (queuedHosts l)" "queuedHosts l \<subseteq> set (queuedOrder l)" "\<forall>c \<in> set cs. rests l c"
    using assms(1) unfolding lane_inv_def prod.case by blast+
  have h: "hosts (cs ! i) \<longrightarrow> host l" using inv(2) jcount_pos [of hosts cs] assms(2) by (cases "host l") auto
  have r: "reading (cs ! i) \<longrightarrow> 0 < readers l" using inv(1) jcount_pos [of reading cs] assms(2) by auto
  note counts = lane_call_counts [OF assms(3) h]
  have "rests l' c" if "c \<in> set (cs[i := c'])" for c
  proof -
    have "c = c' \<or> c \<in> set cs" using that set_update_subset_insert by fastforce
    then show ?thesis using moved_rests [OF assms(3)] others_rest [OF assms(3) _ _ inv(5,6)] inv(1,3,7) by auto
  qed
  then show ?thesis
    using counts inv lane_call_excludes [OF assms(3) inv(4) h r] lane_call_queue [OF assms(3) inv(5,6)] jcount_update [OF assms(2)]
    unfolding lane_inv_def by simp
qed

lemma lane_inv_same:
  assumes "lane_inv (l, cs)" and "readers l' = readers l" and "writers l' = writers l" and "host l' = host l" and "finite (queuedHosts l')"
    and "queuedHosts l' \<subseteq> set (queuedOrder l')" and "changed l' = Suc (changed l) \<or> changed l' = changed l \<and> queuedHosts l' = queuedHosts l"
  shows "lane_inv (l', cs)"
proof -
  have "rests l' c" if "rests l c" for c
    using assms(7) that by (auto simp: rests_def admissible_def hostTurn_def assms(2-4))
  then show ?thesis using assms by (auto simp: lane_inv_def)
qed

lemma preserve_inv:
  assumes "lane_inv (l, cs)"
  shows "lane_inv (PreserveQueuedHostExecution ref l, cs)"
  by (rule lane_inv_same [OF assms]) (use assms in \<open>auto simp: PreserveQueuedHostExecution_def notifyLane_def lane_inv_def\<close>)

lemma yield_inv:
  assumes "lane_inv (l, cs)"
  shows "lane_inv (YieldQueuedHostExecution ref l, cs)"
  by (rule lane_inv_same [OF assms]) (use assms in \<open>auto simp: YieldQueuedHostExecution_def yieldHost_def notifyLane_def lane_inv_def\<close>)

lemma reconcile_inv:
  assumes "lane_inv (l, cs)"
  shows "lane_inv (ReconcileQueuedHostExecution refs l, cs)"
proof -
  let ?q = "set refs - (yieldedHosts l \<inter> set refs)"
  have "?q = queuedHosts l" if "card ?q = card (queuedHosts l)" "\<forall>ref \<in> ?q. ref \<in> queuedHosts l"
    using that assms by (intro card_subset_eq) (auto simp: lane_inv_def)
  then show ?thesis
    by (intro lane_inv_same [OF assms]) (auto simp: ReconcileQueuedHostExecution_def notifyLane_def Let_def)
qed

lemma lane_inv_arrive: "lane_inv (l, cs) \<Longrightarrow> lc_pc c = Entering \<Longrightarrow> lane_inv (l, cs @ [c])"
  by (auto simp: lane_inv_def jcount_def call_kinds rests_def)

lemma lane_inv_cancel:
  assumes "lane_inv (l, cs)" and "i < length cs"
  shows "lane_inv (l, cs[i := (cs ! i)\<lparr>lc_cancelled := True\<rparr>])"
proof -
  let ?c = "(cs ! i)\<lparr>lc_cancelled := True\<rparr>"
  have same: "reading ?c = reading (cs ! i)" "hosts ?c = hosts (cs ! i)" "waits ?c = waits (cs ! i)" "rests l ?c = rests l (cs ! i)"
    by (simp_all add: call_kinds rests_def)
  have "rests l c" if "c \<in> set (cs[i := ?c])" for c
  proof -
    have "c = ?c \<or> c \<in> set cs" using that set_update_subset_insert by fastforce
    then show ?thesis using assms same(4) by (auto simp: lane_inv_def)
  qed
  moreover have "int (jcount P (cs[i := ?c])) = int (jcount P cs)" if "P ?c = P (cs ! i)" for P
    using jcount_update [OF assms(2), of P ?c] that by simp
  ultimately show ?thesis using assms(1) same(1-3) unfolding lane_inv_def prod.case by metis
qed

lemma lane_step_inv: "lane_step s s' \<Longrightarrow> lane_inv s \<Longrightarrow> lane_inv s'"
  by (induction rule: lane_step.induct)
     (auto intro: lane_inv_move lane_inv_arrive lane_inv_cancel preserve_inv yield_inv reconcile_inv)

lemma lane_reachable_inv: "lane_reachable s \<Longrightarrow> lane_inv s"
proof (induction rule: lane_reachable.induct)
  case begin_empty
  then show ?case by (simp add: lane_inv_def new_lane_def jcount_def)
qed (rule lane_step_inv)

section \<open>What the lane promises\<close>

text \<open>C19. A host call runs alone: whatever calls arrive, wait, are cancelled and finish, and however the durable queue changes, while a host
  call holds the lane no other call holds it.\<close>

theorem host_runs_alone:
  assumes "lane_reachable (l, cs)" and "i < length cs" and "k < length cs" and "i \<noteq> k" and "lc_pc (cs ! i) = Holding" and "lc_host (cs ! i)"
  shows "lc_pc (cs ! k) \<noteq> Holding"
proof
  assume k: "lc_pc (cs ! k) = Holding"
  have inv: "readers l = int (jcount reading cs)" "of_bool (host l) = int (jcount hosts cs)" "host l \<longrightarrow> readers l = 0"
    using lane_reachable_inv [OF assms(1)] unfolding lane_inv_def prod.case by blast+
  have i: "hosts (cs ! i)" using assms(5,6) by (simp add: hosts_def)
  then have "host l" using inv(2) jcount_pos [of hosts cs] assms(2) by (cases "host l") auto
  then have "jcount reading cs = 0" "jcount hosts cs = 1" using inv by simp_all
  moreover have "reading (cs ! k) \<or> hosts (cs ! k)" using k by (simp add: reading_def hosts_def)
  ultimately show False using jcount_pos [of reading cs] jcount_two [OF assms(2-4), of hosts] i assms(3) by fastforce
qed

lemma attempt_admits:
  assumes "attempt c l = (c', l')" and "lc_pc c' = Holding"
  shows "\<not> lc_cancelled c" and "admissible (lc_host c) (lc_ref c) l"
  using assms by (auto simp: attempt_def split: if_splits)

lemma step_admits:
  assumes "lane_call_step (c, l) (c', l')" and "lc_pc c \<noteq> Holding" and "lc_pc c' = Holding"
  shows "\<not> host l" and "lc_host c \<Longrightarrow> readers l = 0 \<and> hostTurn (lc_ref c) l" and "\<not> lc_host c \<Longrightarrow> writers l = 0 \<and> queuedHosts l = {}"
proof -
  obtain l0 where l0: "attempt c l0 = (c', l')" "l0 = l \<or> lc_host c \<and> l0 = l\<lparr>writers := writers l + 1\<rparr>"
    using assms by (cases rule: lane_call_step.cases) (auto split: if_splits)
  have "admissible (lc_host c) (lc_ref c) l0" using attempt_admits(2) [OF l0(1) assms(3)] .
  then show "\<not> host l" "lc_host c \<Longrightarrow> readers l = 0 \<and> hostTurn (lc_ref c) l" "\<not> lc_host c \<Longrightarrow> writers l = 0 \<and> queuedHosts l = {}"
    using l0(2) by (auto simp: admissible_def hostTurn_def firstQueuedHost_def)
qed

text \<open>Nobody overtakes a host call: an isolated call enters only when no host call waits and no parked one is queued, and a host call
  enters past the durable queue only as its first reference.\<close>

theorem host_not_overtaken:
  assumes "lane_reachable (l, cs)" and "i < length cs" and "lane_call_step (cs ! i, l) (c', l')" and "lc_pc (cs ! i) \<noteq> Holding" and "lc_pc c' = Holding"
  shows "if lc_host (cs ! i) then queuedHosts l = {} \<or> lc_ref (cs ! i) = firstQueuedHost l
    else queuedHosts l = {} \<and> (\<forall>c \<in> set cs. \<not> waits c)"
proof (cases "lc_host (cs ! i)")
  case True
  then show ?thesis using step_admits(2) [OF assms(3-5)] by (auto simp: hostTurn_def)
next
  case False
  then have free: "writers l = 0" "queuedHosts l = {}" using step_admits(3) [OF assms(3-5)] by simp_all
  have "writers l = int (jcount waits cs)" using lane_reachable_inv [OF assms(1)] unfolding lane_inv_def prod.case by blast
  then have "\<forall>c \<in> set cs. \<not> waits c" using free(1) jcount_pos [of waits cs] by (auto simp: in_set_conv_nth)
  then show ?thesis using False free(2) by simp
qed

text \<open>C29. The lane does not get stuck: when no call holds it and no parked call is queued, then as long as a call waits, some call of the
  loop may take the lane, and it is not asleep: no wake-up is lost.\<close>

theorem lane_not_stuck:
  assumes "lane_reachable (l, cs)" and "queuedHosts l = {}" and "\<forall>c \<in> set cs. lc_pc c \<noteq> Holding" and "c \<in> set cs" and "lc_pc c = Waiting"
  shows "\<exists>d \<in> set cs. in_loop d \<and> admissible (lc_host d) (lc_ref d) l \<and> \<not> asleep l d"
proof -
  have inv: "readers l = int (jcount reading cs)" "of_bool (host l) = int (jcount hosts cs)" "writers l = int (jcount waits cs)" "\<forall>c \<in> set cs. rests l c"
    using lane_reachable_inv [OF assms(1)] unfolding lane_inv_def prod.case by blast+
  have "\<forall>c \<in> set cs. \<not> reading c \<and> \<not> hosts c" using assms(3) by (simp add: reading_def hosts_def)
  then have "jcount reading cs = 0" "jcount hosts cs = 0" by (auto simp: jcount_def filter_empty_conv)
  then have free: "readers l = 0" "\<not> host l" using inv(1,2) by (auto split: if_splits)
  have awake: "\<not> asleep l d" if "d \<in> set cs" "admissible (lc_host d) (lc_ref d) l" for d
    using inv(4) that assms(2) by (auto simp: rests_def asleep_def)
  show ?thesis
  proof (cases "\<exists>d \<in> set cs. waits d")
    case True
    then obtain d where d: "d \<in> set cs" "waits d" by blast
    then have "admissible (lc_host d) (lc_ref d) l" using free assms(2) by (simp add: admissible_def hostTurn_def waits_def)
    then show ?thesis using d awake [OF d(1)] by (auto simp: waits_def)
  next
    case False
    then have "writers l = 0" using inv(3) by (auto simp: jcount_def filter_empty_conv)
    moreover have "\<not> lc_host c" using False assms(4,5) by (auto simp: waits_def in_loop_def)
    ultimately have "admissible (lc_host c) (lc_ref c) l" using free assms(2) by (simp add: admissible_def)
    then show ?thesis using awake [OF assms(4)] assms(4,5) by (auto simp: in_loop_def)
  qed
qed

lemma firstQueuedHost_queued:
  assumes "queuedHosts l \<subseteq> set (queuedOrder l)" and "queuedHosts l \<noteq> {}"
  shows "firstQueuedHost l \<in> queuedHosts l"
proof -
  obtain r where "find (\<lambda>ref. ref \<in> queuedHosts l) (queuedOrder l) = Some r" using assms by (cases "find (\<lambda>ref. ref \<in> queuedHosts l) (queuedOrder l)") (auto simp: find_None_iff)
  moreover from this have "r \<in> queuedHosts l" by (auto simp: find_Some_iff)
  ultimately show ?thesis by (simp add: firstQueuedHost_def)
qed

text \<open>Readiness tells what an acquisition would find: a reference is ready exactly when a host call that carries it would be admitted
  at once, and without a reference the lane is ready exactly when both kinds of call would be.\<close>

theorem ready_means_admitted:
  assumes "lane_reachable (l, cs)" and "[] \<notin> queuedHosts l"
  shows "ExecutionLaneReady ref l \<longleftrightarrow> admissible True ref l \<and> (ref = [] \<longrightarrow> admissible False ref l)"
proof -
  have sub: "queuedHosts l \<subseteq> set (queuedOrder l)" using lane_reachable_inv [OF assms(1)] unfolding lane_inv_def prod.case by blast
  have none: "firstQueuedHost l = []" if "queuedHosts l = {}"
  proof -
    have "find (\<lambda>ref. ref \<in> queuedHosts l) (queuedOrder l) = None" using that by (simp add: find_None_iff)
    then show ?thesis by (simp add: firstQueuedHost_def)
  qed
  have "firstQueuedHost l = [] \<longleftrightarrow> queuedHosts l = {}"
  proof
    assume "firstQueuedHost l = []"
    then show "queuedHosts l = {}" using firstQueuedHost_queued [OF sub] assms(2) by (cases "queuedHosts l = {}") auto
  qed (rule none)
  then show ?thesis by (auto simp: ExecutionLaneReady_def admissible_def hostTurn_def)
qed

section \<open>Examples\<close>

text \<open>A host call holds the lane while an isolated one waits.\<close>

definition sample_call :: "bool \<Rightarrow> lane_call" where
  "sample_call h = \<lparr>lc_host = h, lc_ref = [], lc_refresh = False, lc_cancelled = False, lc_seen = 0, lc_pc = Entering\<rparr>"

lemma sample_inspect: "lane_call_step (sample_call h, l) ((sample_call h)\<lparr>lc_pc := Locking\<rparr>, l)"
  by (rule inspect) (simp add: sample_call_def)

lemma sample_enters:
  assumes "lane_reachable (l, cs)" and "attempt ((sample_call h)\<lparr>lc_pc := Locking\<rparr>) (if h then l\<lparr>writers := writers l + 1\<rparr> else l) = (c', l')"
  shows "lane_reachable (l', cs @ [c'])"
proof -
  let ?n = "length cs" and ?c = "(sample_call h)\<lparr>lc_pc := Locking\<rparr>"
  have here: "lane_reachable (l, cs @ [sample_call h])" by (rule go_on [OF assms(1) arrive]) (simp add: sample_call_def)
  have "lane_step (l, cs @ [sample_call h]) (l, (cs @ [sample_call h])[?n := ?c])"
    by (rule move) (simp_all add: sample_inspect)
  then have locked: "lane_reachable (l, cs @ [?c])" using go_on [OF here] by simp
  have "lane_call_step (?c, l) (attempt ?c (if lc_host ?c then l\<lparr>writers := writers l + 1\<rparr> else l))" by (rule lock) simp
  then have "lane_call_step (?c, l) (c', l')" using assms(2) by (simp add: sample_call_def)
  then have "lane_step (l, cs @ [?c]) (l', (cs @ [?c])[?n := c'])" by (intro move) simp_all
  then show ?thesis using go_on [OF locked] by simp
qed

definition sample_holder :: lane_call where
  "sample_holder = (sample_call True)\<lparr>lc_pc := Holding\<rparr>"

definition sample_waiter :: lane_call where
  "sample_waiter = (sample_call False)\<lparr>lc_pc := Waiting\<rparr>"

lemma sample_lane: "lane_reachable (new_lane\<lparr>host := True\<rparr>, [sample_holder])"
  using sample_enters [OF begin_empty, of True] by (simp add: attempt_def admissible_def hostTurn_def admit_def yieldHost_def new_lane_def sample_call_def sample_holder_def)

lemma sample_lane_two: "lane_reachable (new_lane\<lparr>host := True\<rparr>, [sample_holder, sample_waiter])"
  using sample_enters [OF sample_lane, of False] by (simp add: attempt_def admissible_def new_lane_def sample_call_def sample_waiter_def)

lemma sample_lane_free: "lane_reachable (new_lane\<lparr>changed := 1\<rparr>, [sample_holder\<lparr>lc_pc := Released\<rparr>, sample_waiter])"
proof -
  have "lane_call_step (sample_holder, new_lane\<lparr>host := True\<rparr>) (sample_holder\<lparr>lc_pc := Released\<rparr>, release True (new_lane\<lparr>host := True\<rparr>))"
    using finish [of sample_holder "new_lane\<lparr>host := True\<rparr>"] by (simp add: sample_holder_def sample_call_def)
  then have "lane_call_step (sample_holder, new_lane\<lparr>host := True\<rparr>) (sample_holder\<lparr>lc_pc := Released\<rparr>, new_lane\<lparr>changed := 1\<rparr>)"
    by (simp add: release_def notifyLane_def new_lane_def)
  then show ?thesis
    using go_on [OF sample_lane_two move [of 0 "[sample_holder, sample_waiter]"]] by simp
qed

theorem host_runs_alone_witness: "lc_pc ([sample_holder, sample_waiter] ! 1) \<noteq> Holding"
  by (rule host_runs_alone [OF sample_lane_two, of 0 1]) (simp_all add: sample_holder_def sample_call_def)

theorem lane_not_stuck_witness:
  "\<exists>d \<in> set [sample_holder\<lparr>lc_pc := Released\<rparr>, sample_waiter]. in_loop d \<and> admissible (lc_host d) (lc_ref d) (new_lane\<lparr>changed := 1\<rparr>)
     \<and> \<not> asleep (new_lane\<lparr>changed := 1\<rparr>) d"
  by (rule lane_not_stuck [OF sample_lane_free, of sample_waiter]) (simp_all add: sample_holder_def sample_waiter_def sample_call_def new_lane_def)

theorem ready_means_admitted_witness: "ExecutionLaneReady ''r'' (new_lane\<lparr>changed := 1\<rparr>)"
  using ready_means_admitted [OF sample_lane_free, of "''r''"] by (simp add: new_lane_def admissible_def hostTurn_def)

theorem host_not_overtaken_witness: "filter waits [sample_holder\<lparr>lc_pc := Released\<rparr>, sample_waiter, (sample_call False)\<lparr>lc_pc := Locking\<rparr>] = []"
proof -
  let ?cs = "[sample_holder\<lparr>lc_pc := Released\<rparr>, sample_waiter, (sample_call False)\<lparr>lc_pc := Locking\<rparr>]" and ?l = "new_lane\<lparr>changed := 1\<rparr>"
  have here: "lane_reachable (?l, [sample_holder\<lparr>lc_pc := Released\<rparr>, sample_waiter, sample_call False])"
    using go_on [OF sample_lane_free arrive [of "sample_call False"]] by (simp add: sample_call_def)
  have "lane_step (?l, [sample_holder\<lparr>lc_pc := Released\<rparr>, sample_waiter, sample_call False]) (?l, [sample_holder\<lparr>lc_pc := Released\<rparr>, sample_waiter, sample_call False]
      [2 := (sample_call False)\<lparr>lc_pc := Locking\<rparr>])" by (rule move) (simp_all add: sample_inspect)
  then have reach: "lane_reachable (?l, ?cs)" using go_on [OF here] by (simp add: numeral_2_eq_2)
  have step: "lane_call_step (?cs ! 2, ?l) ((sample_call False)\<lparr>lc_pc := Holding\<rparr>, ?l\<lparr>readers := 1\<rparr>)"
    using lock [of "(sample_call False)\<lparr>lc_pc := Locking\<rparr>" ?l] by (simp add: attempt_def admissible_def admit_def new_lane_def sample_call_def)
  have "\<forall>c \<in> set ?cs. \<not> waits c" using host_not_overtaken [OF reach _ step] by (simp add: sample_call_def)
  then show ?thesis unfolding filter_empty_conv .
qed

end
