(* ===== verification/RequestGate.thy ===== *)
theory RequestGate
  imports Prelude "HOL-Library.AList"
begin

text \<open>
  The gate in front of a model provider: \<^verbatim>\<open>internal/kernel/llm/request_gate.go\<close>, \<^verbatim>\<open>request_admission.go\<close> and \<^verbatim>\<open>provider_wait.go\<close>. All requests
  of the daemon to one physical route share a bounded number of permits and a cooldown that a rate limit starts.

  A route is a record. The buffered channel \<^verbatim>\<open>sem\<close> is the number of its elements beside its capacity; the channel \<^verbatim>\<open>changed\<close>, closed and
  replaced at every change, is a counter: a request that remembers an older value has been woken. The map \<^verbatim>\<open>activeRoles\<close> is an association list
  with distinct keys. The sections under the mutex of the route are the steps of the machine, each at one instant of the clock;
  \<open>gate_step\<close> lets any number of requests take them in any order while time passes. Times are nanoseconds since the zero time.
  What a provider error says, a rate limit and the delay it asks for, is an argument of the step that observes it.
\<close>

section \<open>A route\<close>

definition Second :: int where
  "Second = 1000000000"

definition maxRetryAfter :: int where
  "maxRetryAfter = 600 * Second"

definition providerCapacityGrace :: int where
  "providerCapacityGrace = 250000000"

record requestRoute =
  rt_capacity :: nat
  sem :: nat
  cooldownUntil :: int
  rateFailures :: nat
  activeRoles :: "(string \<times> int) list"
  rt_changed :: nat

definition clampConcurrent :: "int \<Rightarrow> nat" where
  "clampConcurrent maxConcurrent = (if maxConcurrent < 1 then 1 else nat maxConcurrent)"

definition new_route :: "nat \<Rightarrow> requestRoute" where
  "new_route maxConcurrent = \<lparr>rt_capacity = maxConcurrent, sem = 0, cooldownUntil = 0, rateFailures = 0, activeRoles = [], rt_changed = 0\<rparr>"

text \<open>A gate: the routes by their identifiers. A provider without a route is left as it is.\<close>

record requestGate =
  gate_routes :: "(string \<times> requestRoute) list"
  maxConcurrent :: nat

definition NewRequestGate :: "int \<Rightarrow> requestGate" where
  "NewRequestGate concurrent = \<lparr>gate_routes = [], maxConcurrent = clampConcurrent concurrent\<rparr>"

definition Wrap :: "string \<Rightarrow> requestGate \<Rightarrow> requestRoute option \<times> requestGate" where
  "Wrap routeID g =
     (if routeID = [] then (None, g)
      else case map_of (gate_routes g) routeID of
        Some route \<Rightarrow> (Some route, g)
      | None \<Rightarrow> (let route = new_route (maxConcurrent g) in (Some route, g\<lparr>gate_routes := AList.update routeID route (gate_routes g)\<rparr>)))"

definition role_count :: "(string \<times> int) list \<Rightarrow> string \<Rightarrow> int" where
  "role_count roles role = (case map_of roles role of None \<Rightarrow> 0 | Some n \<Rightarrow> n)"

definition take_permit :: "string \<Rightarrow> requestRoute \<Rightarrow> requestRoute" where
  "take_permit role r = r\<lparr>sem := sem r + 1, activeRoles := AList.update role (role_count (activeRoles r) role + 1) (activeRoles r)\<rparr>"

definition release_permit :: "string \<Rightarrow> requestRoute \<Rightarrow> requestRoute" where
  "release_permit role r =
     r\<lparr>activeRoles := (if role_count (activeRoles r) role \<le> 1 then AList.delete role (activeRoles r)
                      else AList.update role (role_count (activeRoles r) role - 1) (activeRoles r)),
       sem := sem r - 1, rt_changed := Suc (rt_changed r)\<rparr>"

text \<open>The cooldown after a rate limit: it doubles with every failure in a row, up to 32 seconds, unless the provider asks for more.\<close>

definition cooldown_delay :: "nat \<Rightarrow> int option \<Rightarrow> int" where
  "cooldown_delay failures advertised =
     (let delay = Second * 2 ^ min (failures - 1) 5;
          delay = (case advertised of Some a \<Rightarrow> if a > delay then a else delay | None \<Rightarrow> delay) in
      if delay > maxRetryAfter then maxRetryAfter else delay)"

datatype observed_error = Succeeded | RateLimited "int option" | OtherError

definition observe :: "int \<Rightarrow> observed_error \<Rightarrow> requestRoute \<Rightarrow> requestRoute" where
  "observe now e r = (case e of
       Succeeded \<Rightarrow> r\<lparr>rateFailures := 0\<rparr>
     | OtherError \<Rightarrow> r
     | RateLimited advertised \<Rightarrow>
         (let failures = rateFailures r + 1; until = now + cooldown_delay failures advertised; r' = r\<lparr>rateFailures := failures\<rparr> in
          if until > cooldownUntil r then r'\<lparr>cooldownUntil := until, rt_changed := Suc (rt_changed r)\<rparr> else r'))"

record ProviderWait =
  pw_reason :: string
  pw_notBefore :: int
  pw_dispatched :: bool

definition DeferRateLimit :: "int \<Rightarrow> bool \<Rightarrow> observed_error \<Rightarrow> int \<Rightarrow> ProviderWait option" where
  "DeferRateLimit now deferrable e backoff =
     (if \<not> deferrable then None
      else case e of
        RateLimited advertised \<Rightarrow>
          (let backoff = (case advertised of Some a \<Rightarrow> if a > backoff then a else backoff | None \<Rightarrow> backoff);
               backoff = (if backoff < Second then Second else backoff);
               backoff = (if backoff > maxRetryAfter then maxRetryAfter else backoff) in
           Some \<lparr>pw_reason = ''rate_limit'', pw_notBefore = now + backoff, pw_dispatched = True\<rparr>)
      | _ \<Rightarrow> None)"

text \<open>What \<^verbatim>\<open>observeAdmission\<close> reports: the permits in use, by role; those that no role accounts for are put under a role of their own.\<close>

record RequestAdmission =
  adm_capacity :: nat
  adm_active :: nat
  adm_roles :: "(string \<times> int) list"

definition observeAdmission :: "requestRoute \<Rightarrow> RequestAdmission" where
  "observeAdmission r =
     (let missing = int (sem r) - sum_list (map snd (activeRoles r)) in
      \<lparr>adm_capacity = rt_capacity r, adm_active = sem r,
       adm_roles = (if missing > 0 then AList.update ''unattributed'' (role_count (activeRoles r) ''unattributed'' + missing) (activeRoles r)
                    else activeRoles r)\<rparr>)"

section \<open>Requests\<close>

datatype request_pc = Trying | Sleeping "int option" | Admitted | Deferred ProviderWait | Canceled | Done

record model_request =
  rq_role :: string
  rq_deferrable :: bool
  rq_cancelled :: bool
  rq_deadline :: int
  rq_reason :: string
  rq_seen :: nat
  rq_pc :: request_pc

definition admissionRole :: "string \<Rightarrow> string" where
  "admissionRole role = (if role = [] then ''unattributed'' else role)"

definition local_wait :: "string \<Rightarrow> int \<Rightarrow> ProviderWait" where
  "local_wait reason notBefore = \<lparr>pw_reason = reason, pw_notBefore = notBefore, pw_dispatched = False\<rparr>"

text \<open>One pass of the loop of \<^verbatim>\<open>acquire\<close>, up to the point where it returns or waits.\<close>

definition acquire_pass :: "int \<Rightarrow> model_request \<Rightarrow> requestRoute \<Rightarrow> model_request \<times> requestRoute" where
  "acquire_pass now q r =
     (let until = cooldownUntil r; cooling = now < until; q' = q\<lparr>rq_seen := rt_changed r\<rparr> in
      if rq_cancelled q then (q\<lparr>rq_pc := Canceled\<rparr>, r)
      else if \<not> cooling \<and> sem r < rt_capacity r then (q\<lparr>rq_pc := Admitted\<rparr>, take_permit (admissionRole (rq_role q)) r)
      else if cooling then
        (q'\<lparr>rq_reason := ''rate_limit'', rq_pc := (if rq_deferrable q then Deferred (local_wait ''rate_limit'' until) else Sleeping (Some until))\<rparr>, r)
      else
        (q'\<lparr>rq_reason := ''capacity'',
            rq_pc := (if rq_deferrable q then
                        (if now > rq_deadline q then Deferred (local_wait ''capacity'' (now + Second)) else Sleeping (Some (rq_deadline q)))
                      else Sleeping None)\<rparr>, r))"

definition due :: "int \<Rightarrow> int option \<Rightarrow> bool" where
  "due now timer = (case timer of None \<Rightarrow> False | Some t \<Rightarrow> t \<le> now)"

text \<open>The wait ends when the channel it remembers is closed, or at its timer.\<close>

definition woken :: "int \<Rightarrow> requestRoute \<Rightarrow> model_request \<Rightarrow> int option \<Rightarrow> bool" where
  "woken now r q timer = (rq_seen q \<noteq> rt_changed r \<or> due now timer)"

text \<open>An admitted request that finds itself cancelled gives the permit back; otherwise it sees the errors of its answer, if any,
  and gives the permit back at the end.\<close>

inductive request_step :: "int \<Rightarrow> model_request \<times> requestRoute \<Rightarrow> model_request \<times> requestRoute \<Rightarrow> bool" for now where
  one_pass: "rq_pc q = Trying \<Longrightarrow> acquire_pass now q r = (q', r') \<Longrightarrow> request_step now (q, r) (q', r')"
| awake: "rq_pc q = Sleeping timer \<Longrightarrow> woken now r q timer \<Longrightarrow> request_step now (q, r) (q\<lparr>rq_pc := Trying\<rparr>, r)"
| give_up: "rq_pc q = Sleeping timer \<Longrightarrow> rq_cancelled q \<Longrightarrow> request_step now (q, r) (q\<lparr>rq_pc := Canceled\<rparr>, r)"
| withdrawn: "rq_pc q = Admitted \<Longrightarrow> rq_cancelled q \<Longrightarrow> request_step now (q, r) (q\<lparr>rq_pc := Canceled\<rparr>, release_permit (admissionRole (rq_role q)) r)"
| answered: "rq_pc q = Admitted \<Longrightarrow> request_step now (q, r) (q, observe now e r)"
| leave: "rq_pc q = Admitted \<Longrightarrow> request_step now (q, r) (q\<lparr>rq_pc := Done\<rparr>, release_permit (admissionRole (rq_role q)) r)"

text \<open>The clock, the route and the requests.\<close>

inductive gate_step :: "int \<times> requestRoute \<times> model_request list \<Rightarrow> int \<times> requestRoute \<times> model_request list \<Rightarrow> bool" where
  serve: "i < length qs \<Longrightarrow> request_step now (qs ! i, r) (q', r') \<Longrightarrow> gate_step (now, r, qs) (now, r', qs[i := q'])"
| enter: "rq_pc q = Trying \<Longrightarrow> rq_deadline q = now + providerCapacityGrace \<Longrightarrow> gate_step (now, r, qs) (now, r, qs @ [q])"
| abandon: "i < length qs \<Longrightarrow> gate_step (now, r, qs) (now, r, qs[i := (qs ! i)\<lparr>rq_cancelled := True\<rparr>])"
| elapse: "now \<le> later \<Longrightarrow> gate_step (now, r, qs) (later, r, qs)"

inductive gate_steps :: "int \<times> requestRoute \<times> model_request list \<Rightarrow> int \<times> requestRoute \<times> model_request list \<Rightarrow> bool" where
  no_more: "gate_steps s s"
| one_more: "gate_steps s s' \<Longrightarrow> gate_step s' s'' \<Longrightarrow> gate_steps s s''"

definition gate_start :: "int \<Rightarrow> int \<Rightarrow> int \<times> requestRoute \<times> model_request list" where
  "gate_start now concurrent = (now, new_route (clampConcurrent concurrent), [])"

section \<open>The invariant\<close>

definition holds_permit :: "model_request \<Rightarrow> bool" where
  "holds_permit q = (rq_pc q = Admitted)"

definition holds_as :: "string \<Rightarrow> model_request \<Rightarrow> bool" where
  "holds_as role q = (holds_permit q \<and> admissionRole (rq_role q) = role)"

text \<open>The permits by role: every count is positive, each is the number of admitted requests with the role, and together they are all permits.\<close>

definition roles_agree :: "requestRoute \<Rightarrow> model_request list \<Rightarrow> bool" where
  "roles_agree r qs = (distinct (map fst (activeRoles r)) \<and> sum_list (map snd (activeRoles r)) = int (sem r)
     \<and> (\<forall>role. role_count (activeRoles r) role = int (jcount (holds_as role) qs)))"

text \<open>A sleeping request that nobody has woken sleeps until the end of the cooldown, or the route is full.\<close>

definition sleeps_well :: "requestRoute \<Rightarrow> model_request \<Rightarrow> bool" where
  "sleeps_well r q = (case rq_pc q of
       Sleeping timer \<Rightarrow> rq_seen q \<le> rt_changed r \<and> (rq_seen q = rt_changed r \<longrightarrow> timer = Some (cooldownUntil r) \<or> sem r = rt_capacity r)
     | _ \<Rightarrow> True)"

definition gate_inv :: "int \<times> requestRoute \<times> model_request list \<Rightarrow> bool" where
  "gate_inv s = (case s of (now, r, qs) \<Rightarrow>
     1 \<le> rt_capacity r \<and> sem r \<le> rt_capacity r \<and> sem r = jcount holds_permit qs \<and> roles_agree r qs \<and> (\<forall>q \<in> set qs. sleeps_well r q))"

lemma jcount_snoc: "jcount P (js @ [j]) = jcount P js + of_bool (P j)"
  by (simp add: jcount_def)

lemma role_count_update: "role_count (AList.update k v roles) role = (if role = k then v else role_count roles role)"
  by (simp add: role_count_def update_conv')

lemma role_count_delete: "role_count (AList.delete k roles) role = (if role = k then 0 else role_count roles role)"
  by (simp add: role_count_def delete_conv')

lemma role_count_absent: "k \<notin> fst ` set roles \<Longrightarrow> role_count roles k = 0"
  by (simp add: role_count_def map_of_eq_None_iff [THEN iffD2])

lemma role_count_Cons: "role_count ((k, v) # roles) role = (if role = k then v else role_count roles role)"
  by (simp add: role_count_def)

lemma sum_update: "distinct (map fst roles) \<Longrightarrow> sum_list (map snd (AList.update k v roles)) = sum_list (map snd roles) - role_count roles k + v"
  by (induction roles) (auto simp: role_count_Cons role_count_def)

lemma sum_delete: "distinct (map fst roles) \<Longrightarrow> sum_list (map snd (AList.delete k roles)) = sum_list (map snd roles) - role_count roles k"
proof (induction roles)
  case (Cons e roles)
  obtain k' v where e: "e = (k', v)" by (cases e)
  show ?case
  proof (cases "k' = k")
    case True
    then have "k \<notin> fst ` set roles" using Cons.prems e by simp
    then show ?thesis using True by (simp add: e role_count_Cons delete_id)
  next
    case False
    then show ?thesis using Cons by (simp add: e role_count_Cons)
  qed
qed (simp add: role_count_def)

lemmas role_simps = role_count_update role_count_delete sum_update sum_delete distinct_update distinct_delete

text \<open>One permit more or less, for the request at one place.\<close>

lemma roles_agree_take:
  assumes "roles_agree r qs" and "i < length qs" and "\<not> holds_permit (qs ! i)" and "holds_permit q'" and "rq_role q' = role"
  shows "roles_agree (take_permit (admissionRole role) r) (qs[i := q'])"
proof -
  have eq: "int (jcount (holds_as k) (qs[i := q'])) = role_count (activeRoles r) k + of_bool (admissionRole role = k)" for k
    using assms by (simp add: roles_agree_def jcount_update holds_as_def)
  have "role_count (activeRoles (take_permit (admissionRole role) r)) k = int (jcount (holds_as k) (qs[i := q']))" for k
    by (simp add: eq take_permit_def role_simps)
  moreover have "distinct (map fst (activeRoles r))" "sum_list (map snd (activeRoles r)) = int (sem r)" using assms(1) by (simp_all add: roles_agree_def)
  ultimately show ?thesis unfolding roles_agree_def by (simp add: take_permit_def role_simps)
qed

lemma roles_agree_release:
  assumes "roles_agree r qs" and "i < length qs" and "holds_permit (qs ! i)" and "\<not> holds_permit q'" and "rq_role (qs ! i) = role" and "0 < sem r"
  shows "roles_agree (release_permit (admissionRole role) r) (qs[i := q'])"
proof -
  let ?a = "admissionRole role"
  have counts: "role_count (activeRoles r) k = int (jcount (holds_as k) qs)" for k using assms(1) by (simp add: roles_agree_def)
  have "0 < jcount (holds_as ?a) qs" unfolding jcount_pos using assms by (auto simp: holds_as_def)
  then have one: "1 \<le> role_count (activeRoles r) ?a" by (simp add: counts)
  have "int (jcount (holds_as k) (qs[i := q'])) = role_count (activeRoles r) k - of_bool (?a = k)" for k
    using assms by (simp add: counts jcount_update holds_as_def)
  then have "role_count (activeRoles (release_permit ?a r)) k = int (jcount (holds_as k) (qs[i := q']))" for k
    using one by (auto simp: release_permit_def role_simps)
  moreover have "distinct (map fst (activeRoles r))" "sum_list (map snd (activeRoles r)) = int (sem r)" using assms(1) by (simp_all add: roles_agree_def)
  ultimately show ?thesis unfolding roles_agree_def using assms(6) one by (simp add: release_permit_def role_simps)
qed

lemma roles_agree_same:
  assumes "roles_agree r qs" and "i < length qs" and "holds_permit q' = holds_permit (qs ! i)" and "rq_role q' = rq_role (qs ! i)"
    and "activeRoles r' = activeRoles r" and "sem r' = sem r"
  shows "roles_agree r' (qs[i := q'])"
  using assms by (simp add: roles_agree_def jcount_update holds_as_def)

lemma observe_keeps [simp]:
  "activeRoles (observe now e r) = activeRoles r" "sem (observe now e r) = sem r" "rt_capacity (observe now e r) = rt_capacity r"
  by (simp_all add: observe_def Let_def split: observed_error.split)

lemma observe_changes: "cooldownUntil (observe now e r) = cooldownUntil r \<and> rt_changed (observe now e r) = rt_changed r \<or> rt_changed (observe now e r) = Suc (rt_changed r)"
  by (simp add: observe_def Let_def split: observed_error.split)

lemma sleeps_well_observe: "sleeps_well r q \<Longrightarrow> sleeps_well (observe now e r) q"
  using observe_changes [of now e r] by (auto simp: sleeps_well_def split: request_pc.splits)

lemma sleeps_well_release: "sleeps_well r q \<Longrightarrow> sleeps_well (release_permit role r) q"
  by (auto simp: sleeps_well_def release_permit_def split: request_pc.splits)

lemma sleeps_well_take: "sleeps_well r q \<Longrightarrow> sem r < rt_capacity r \<Longrightarrow> sleeps_well (take_permit role r) q"
  by (auto simp: sleeps_well_def take_permit_def split: request_pc.splits)

lemma sleeps_well_awake: "(\<And>t. rq_pc q \<noteq> Sleeping t) \<Longrightarrow> sleeps_well r q"
  by (simp add: sleeps_well_def split: request_pc.split)

lemmas sleeps_keep = sleeps_well_observe sleeps_well_release sleeps_well_take

text \<open>What one pass does to the request and to the route.\<close>

lemma acquire_pass_cases:
  assumes "acquire_pass now q r = (q', r')"
  obtains (admit) "\<not> rq_cancelled q" "cooldownUntil r \<le> now" "sem r < rt_capacity r" "q' = q\<lparr>rq_pc := Admitted\<rparr>" "r' = take_permit (admissionRole (rq_role q)) r"
    | (stay) "r' = r" "rq_role q' = rq_role q" "rq_pc q' \<noteq> Admitted" "sem r \<le> rt_capacity r \<Longrightarrow> sleeps_well r q'"
proof (cases "\<not> rq_cancelled q \<and> cooldownUntil r \<le> now \<and> sem r < rt_capacity r")
  case True
  then show ?thesis using assms admit by (auto simp: acquire_pass_def)
next
  case False
  then show ?thesis using assms stay by (auto simp: acquire_pass_def Let_def sleeps_well_def split: if_splits request_pc.splits)
qed

text \<open>The steps of a request, by their effect on the permits.\<close>

lemma request_step_cases:
  assumes "request_step now (q, r) (q', r')"
  obtains (takes) "rq_pc q = Trying" "\<not> rq_cancelled q" "cooldownUntil r \<le> now" "sem r < rt_capacity r" "rq_pc q' = Admitted" "rq_role q' = rq_role q"
      "r' = take_permit (admissionRole (rq_role q)) r"
    | (gives) "rq_pc q = Admitted" "rq_pc q' \<in> {Canceled, Done}" "rq_role q' = rq_role q" "r' = release_permit (admissionRole (rq_role q)) r"
    | (sees) e where "rq_pc q = Admitted" "q' = q" "r' = observe now e r"
    | (holds) "rq_pc q \<noteq> Admitted" "rq_pc q' \<noteq> Admitted" "rq_role q' = rq_role q" "r' = r" "sem r \<le> rt_capacity r \<Longrightarrow> sleeps_well r q'"
  using assms
proof (cases rule: request_step.cases)
  case one_pass
  from one_pass(2) show ?thesis
  proof (cases rule: acquire_pass_cases)
    case admit
    show ?thesis by (rule takes) (simp_all add: admit one_pass(1))
  next
    case stay
    show ?thesis by (rule holds) (simp_all add: stay one_pass(1))
  qed
next
  case (awake timer)
  show ?thesis by (rule holds) (simp_all add: awake sleeps_well_def)
next
  case (give_up timer)
  show ?thesis by (rule holds) (simp_all add: give_up sleeps_well_def)
next
  case withdrawn
  show ?thesis by (rule gives) (simp_all add: withdrawn)
next
  case (answered e)
  show ?thesis by (rule sees) (rule answered)+
next
  case leave
  show ?thesis by (rule gives) (simp_all add: leave)
qed

lemma sleeps_all_update: "\<forall>q \<in> set qs. sleeps_well r q \<Longrightarrow> sleeps_well r q' \<Longrightarrow> \<forall>q \<in> set (qs[i := q']). sleeps_well r q"
  using set_update_subset_insert [of qs i q'] by blast

lemma gate_inv_serve:
  assumes "gate_inv (now, r, qs)" and "i < length qs" and "request_step now (qs ! i, r) (q', r')"
  shows "gate_inv (now, r', qs[i := q'])"
proof -
  have inv: "1 \<le> rt_capacity r" "sem r \<le> rt_capacity r" "sem r = jcount holds_permit qs" "roles_agree r qs" "\<forall>q \<in> set qs. sleeps_well r q"
    using assms(1) by (simp_all add: gate_inv_def)
  note count = jcount_update [OF assms(2), of holds_permit q']
  from assms(3) show ?thesis
  proof (cases rule: request_step_cases)
    case takes
    then have "sem r' = jcount holds_permit (qs[i := q'])" using count inv(3) by (simp add: holds_permit_def take_permit_def)
    moreover have "roles_agree r' (qs[i := q'])" unfolding takes(7) by (rule roles_agree_take [OF inv(4) assms(2)]) (simp_all add: takes holds_permit_def)
    moreover have "\<forall>q \<in> set (qs[i := q']). sleeps_well r' q"
      using inv(5) takes by (intro sleeps_all_update) (auto simp: takes(5) intro: sleeps_keep sleeps_well_awake)
    moreover have "sem r' \<le> rt_capacity r'" "1 \<le> rt_capacity r'" using inv(1) takes(4) by (simp_all add: takes(7) take_permit_def)
    ultimately show ?thesis unfolding gate_inv_def prod.case by blast
  next
    case gives
    have pos: "0 < sem r" using jcount_pos [of holds_permit qs] assms(2) gives(1) inv(3) by (auto simp: holds_permit_def)
    have "sem r' = jcount holds_permit (qs[i := q'])" using count inv(3) pos gives by (auto simp: holds_permit_def release_permit_def)
    moreover have "roles_agree r' (qs[i := q'])" unfolding gives(4) by (rule roles_agree_release [OF inv(4) assms(2)]) (use gives pos in \<open>auto simp: holds_permit_def\<close>)
    moreover have "\<forall>q \<in> set (qs[i := q']). sleeps_well r' q"
      using inv(5) gives by (intro sleeps_all_update) (auto intro: sleeps_keep sleeps_well_awake)
    moreover have "sem r' \<le> rt_capacity r'" "1 \<le> rt_capacity r'" using inv(1,2) by (simp_all add: gives(4) release_permit_def)
    ultimately show ?thesis unfolding gate_inv_def prod.case by blast
  next
    case (sees e)
    have "\<forall>q \<in> set qs. sleeps_well r' q" using inv(5) sees(3) sleeps_well_observe by blast
    then show ?thesis using inv sees by (simp add: gate_inv_def roles_agree_def)
  next
    case holds
    have "roles_agree r' (qs[i := q'])" by (rule roles_agree_same [OF inv(4) assms(2)]) (simp_all add: holds holds_permit_def)
    moreover have "\<forall>q \<in> set (qs[i := q']). sleeps_well r' q" using sleeps_all_update [OF inv(5) holds(5) [OF inv(2)]] by (simp add: holds(4))
    moreover have "sem r' = jcount holds_permit (qs[i := q'])" using count inv(3) holds by (simp add: holds_permit_def)
    ultimately show ?thesis unfolding gate_inv_def prod.case using inv(1,2) holds(4) by blast
  qed
qed

lemma gate_inv_abandon:
  assumes "gate_inv (now, r, qs)" and "i < length qs"
  shows "gate_inv (now, r, qs[i := (qs ! i)\<lparr>rq_cancelled := True\<rparr>])"
proof -
  let ?q = "(qs ! i)\<lparr>rq_cancelled := True\<rparr>"
  have inv: "roles_agree r qs" "\<forall>q \<in> set qs. sleeps_well r q" using assms(1) by (simp_all add: gate_inv_def)
  have "roles_agree r (qs[i := ?q])" by (rule roles_agree_same [OF inv(1) assms(2)]) (simp_all add: holds_permit_def)
  moreover have "sleeps_well r ?q" using inv(2) nth_mem [OF assms(2)] by (simp add: sleeps_well_def split: request_pc.splits)
  moreover have "jcount holds_permit (qs[i := ?q]) = jcount holds_permit qs" using jcount_update [OF assms(2), of holds_permit ?q] by (simp add: holds_permit_def)
  ultimately show ?thesis using assms(1) sleeps_all_update [OF inv(2), of ?q i] by (simp add: gate_inv_def)
qed

lemma gate_inv_step: "gate_step s s' \<Longrightarrow> gate_inv s \<Longrightarrow> gate_inv s'"
proof (induction rule: gate_step.induct)
  case (enter q now r qs)
  then show ?case by (simp add: gate_inv_def roles_agree_def jcount_snoc holds_permit_def holds_as_def sleeps_well_def)
qed (simp_all add: gate_inv_serve gate_inv_abandon, simp add: gate_inv_def)

lemma gate_inv_start: "gate_inv (gate_start now concurrent)"
  by (simp add: gate_inv_def gate_start_def new_route_def clampConcurrent_def roles_agree_def role_count_def jcount_def Suc_le_eq)

lemma gate_reachable_inv: "gate_steps (gate_start now0 concurrent) s \<Longrightarrow> gate_inv s"
  by (induction "gate_start now0 concurrent" s rule: gate_steps.induct) (auto intro: gate_inv_start gate_inv_step)

section \<open>Properties\<close>

lemma gate_step_capacity: "gate_step s s' \<Longrightarrow> rt_capacity (fst (snd s')) = rt_capacity (fst (snd s))"
proof (induction rule: gate_step.induct)
  case (serve i qs now r q' r')
  from serve(2) show ?case by (cases rule: request_step_cases) (simp_all add: take_permit_def release_permit_def)
qed simp_all

lemma gate_capacity: "gate_steps (gate_start now0 concurrent) s \<Longrightarrow> rt_capacity (fst (snd s)) = clampConcurrent concurrent"
  by (induction "gate_start now0 concurrent" s rule: gate_steps.induct) (simp_all add: gate_start_def new_route_def gate_step_capacity)

text \<open>C20. A route never has more requests in flight than the gate allows (at least one), and what it reports is exact: the permits in use
  are the admitted requests, and the count of every role is the number of admitted requests that run under it.\<close>

theorem permits_bounded:
  assumes "gate_steps (gate_start now0 concurrent) (now, r, qs)"
  shows "length (filter holds_permit qs) \<le> nat (max 1 concurrent) \<and> adm_active (observeAdmission r) = length (filter holds_permit qs)
    \<and> role_count (adm_roles (observeAdmission r)) role = int (length (filter (holds_as role) qs))"
proof -
  have inv: "sem r \<le> rt_capacity r" "sem r = jcount holds_permit qs" "roles_agree r qs"
    using gate_reachable_inv [OF assms] by (simp_all add: gate_inv_def)
  have "rt_capacity r = nat (max 1 concurrent)" using gate_capacity [OF assms] by (simp add: clampConcurrent_def)
  then have "length (filter holds_permit qs) \<le> nat (max 1 concurrent)" using inv(1,2) by (simp add: jcount_def)
  moreover have "adm_active (observeAdmission r) = length (filter holds_permit qs)" using inv(2) by (simp add: observeAdmission_def Let_def jcount_def)
  moreover have "role_count (adm_roles (observeAdmission r)) role = int (length (filter (holds_as role) qs))"
    using inv(3) by (simp add: observeAdmission_def Let_def roles_agree_def jcount_def)
  ultimately show ?thesis by blast
qed

text \<open>The clock and the cooldown only move forward.\<close>

lemma observe_cooldown: "cooldownUntil r \<le> cooldownUntil (observe now e r)"
  by (simp add: observe_def Let_def split: observed_error.split)

lemma gate_step_forward: "gate_step s s' \<Longrightarrow> cooldownUntil (fst (snd s)) \<le> cooldownUntil (fst (snd s'))"
proof (induction rule: gate_step.induct)
  case (serve i qs now r q' r')
  from serve(2) show ?case by (cases rule: request_step_cases) (simp_all add: take_permit_def release_permit_def observe_cooldown)
qed simp_all

lemma gate_steps_forward: "gate_steps s s' \<Longrightarrow> cooldownUntil (fst (snd s)) \<le> cooldownUntil (fst (snd s'))"
  by (induction rule: gate_steps.induct) (auto dest: gate_step_forward)

lemma cooldown_delay_bounds:
  "Second \<le> cooldown_delay failures advertised" "cooldown_delay failures advertised \<le> maxRetryAfter"
  "min d maxRetryAfter \<le> cooldown_delay failures (Some d)"
proof -
  define base where "base = Second * 2 ^ min (failures - 1) 5"
  have "Second * 1 \<le> base" unfolding base_def by (rule mult_left_mono) (simp_all add: Second_def)
  then show "Second \<le> cooldown_delay failures advertised" "cooldown_delay failures advertised \<le> maxRetryAfter"
    "min d maxRetryAfter \<le> cooldown_delay failures (Some d)"
    unfolding cooldown_delay_def Let_def base_def [symmetric] by (auto simp: maxRetryAfter_def Second_def split: option.split)
qed

lemma observe_cools: "t + cooldown_delay (rateFailures r + 1) advertised \<le> cooldownUntil (observe t (RateLimited advertised) r)"
  by (simp add: observe_def Let_def)

text \<open>C17. A rate limit holds for every request of the route: after one is seen, no request is admitted for a second, nor before the time the
  provider asked for, up to ten minutes.\<close>

theorem rate_limit_respected:
  assumes "gate_steps (t, observe t (RateLimited advertised) r0, qs0) (now, r, qs)" and "i < length qs"
    and "request_step now (qs ! i, r) (q', r')" and "rq_pc (qs ! i) \<noteq> Admitted" and "rq_pc q' = Admitted"
  shows "t + max Second (min (case advertised of Some d \<Rightarrow> d | None \<Rightarrow> 0) maxRetryAfter) \<le> now"
proof -
  have "cooldownUntil r \<le> now" using assms(3) by (cases rule: request_step_cases) (use assms(4,5) in simp_all)
  then have "t + cooldown_delay (rateFailures r0 + 1) advertised \<le> now"
    using gate_steps_forward [OF assms(1)] observe_cools [of t r0 advertised] by simp
  moreover have "max Second (min (case advertised of Some d \<Rightarrow> d | None \<Rightarrow> 0) maxRetryAfter) \<le> cooldown_delay (rateFailures r0 + 1) advertised"
    using cooldown_delay_bounds(1) [of "rateFailures r0 + 1" advertised] cooldown_delay_bounds(3) [of "the advertised" "rateFailures r0 + 1"]
    by (cases advertised) (simp_all add: Second_def maxRetryAfter_def)
  ultimately show ?thesis by linarith
qed

text \<open>Nobody sleeps at an open gate: when the cooldown is over and no request holds a permit, every request that waits has been woken,
  and its next pass admits it unless its context is cancelled.\<close>

theorem gate_not_stuck:
  assumes "gate_steps (gate_start now0 concurrent) (now, r, qs)" and "filter holds_permit qs = []" and "cooldownUntil r \<le> now"
    and "q \<in> set qs" and "rq_pc q = Sleeping timer" and "\<not> rq_cancelled q"
  shows "request_step now (q, r) (q\<lparr>rq_pc := Trying\<rparr>, r)
    \<and> request_step now (q\<lparr>rq_pc := Trying\<rparr>, r) (q\<lparr>rq_pc := Admitted\<rparr>, take_permit (admissionRole (rq_role q)) r)"
proof -
  have inv: "1 \<le> rt_capacity r" "sem r = jcount holds_permit qs" "sleeps_well r q"
    using gate_reachable_inv [OF assms(1)] assms(4) by (simp_all add: gate_inv_def)
  then have free: "sem r < rt_capacity r" using assms(2) by (simp add: jcount_def)
  then have "woken now r q timer" using inv(3) assms(3,5) by (auto simp: sleeps_well_def woken_def due_def)
  then have "request_step now (q, r) (q\<lparr>rq_pc := Trying\<rparr>, r)" by (rule awake [OF assms(5)])
  moreover have "request_step now (q\<lparr>rq_pc := Trying\<rparr>, r) (q\<lparr>rq_pc := Admitted\<rparr>, take_permit (admissionRole (rq_role q)) r)"
    by (rule one_pass) (use assms(3,6) free in \<open>simp_all add: acquire_pass_def Let_def\<close>)
  ultimately show ?thesis by blast
qed

text \<open>A deferred request waits for a bounded time: what it is told is no earlier than a second and no later than ten minutes after the error.\<close>

lemma DeferRateLimit_bounds:
  assumes "DeferRateLimit now deferrable e backoff = Some w"
  shows "deferrable" and "e \<in> range RateLimited" and "now + Second \<le> pw_notBefore w" and "pw_notBefore w \<le> now + maxRetryAfter"
  using assms by (auto simp: DeferRateLimit_def Let_def Second_def maxRetryAfter_def split: if_splits observed_error.splits option.splits)

text \<open>All providers of one route share it: a second one finds what the first one made.\<close>

lemma Wrap_shares: "Wrap routeID g = (Some route, g') \<Longrightarrow> Wrap routeID g' = (Some route, g')"
  by (auto simp: Wrap_def Let_def update_conv' split: if_splits option.splits)

section \<open>Witnesses\<close>

definition sample_model_request :: model_request where
  "sample_model_request = \<lparr>rq_role = ''main'', rq_deferrable = False, rq_cancelled = False, rq_deadline = 10 + providerCapacityGrace, rq_reason = [], rq_seen = 0, rq_pc = Trying\<rparr>"

lemma sample_gate_admitted:
  "gate_steps (gate_start 10 1) (10, take_permit ''main'' (new_route 1), [sample_model_request\<lparr>rq_pc := Admitted\<rparr>])"
proof -
  have first: "gate_steps (gate_start 10 1) (10, new_route 1, [sample_model_request])"
    using one_more [OF no_more enter [of sample_model_request 10 "new_route 1" "[]"]] by (simp add: gate_start_def clampConcurrent_def sample_model_request_def)
  have "request_step 10 ([sample_model_request] ! 0, new_route 1) (sample_model_request\<lparr>rq_pc := Admitted\<rparr>, take_permit ''main'' (new_route 1))"
    by (rule one_pass) (simp_all add: sample_model_request_def acquire_pass_def new_route_def admissionRole_def)
  then have "gate_step (10, new_route 1, [sample_model_request]) (10, take_permit ''main'' (new_route 1), [sample_model_request][0 := sample_model_request\<lparr>rq_pc := Admitted\<rparr>])"
    by (intro serve) simp_all
  then show ?thesis using one_more [OF first] by simp
qed

definition sample_sleeper :: model_request where
  "sample_sleeper = sample_model_request\<lparr>rq_reason := ''capacity'', rq_pc := Sleeping None\<rparr>"

lemma sample_gate_full:
  "gate_steps (gate_start 10 1) (10, take_permit ''main'' (new_route 1), [sample_model_request\<lparr>rq_pc := Admitted\<rparr>, sample_sleeper])"
proof -
  let ?r = "take_permit ''main'' (new_route 1)" and ?a = "sample_model_request\<lparr>rq_pc := Admitted\<rparr>"
  have first: "gate_steps (gate_start 10 1) (10, ?r, [?a, sample_model_request])"
    using one_more [OF sample_gate_admitted enter [of sample_model_request 10]] by (simp add: sample_model_request_def)
  have "request_step 10 ([?a, sample_model_request] ! 1, ?r) (sample_sleeper, ?r)"
    by (rule one_pass) (simp_all add: sample_sleeper_def sample_model_request_def acquire_pass_def take_permit_def new_route_def)
  then have "gate_step (10, ?r, [?a, sample_model_request]) (10, ?r, [?a, sample_model_request][1 := sample_sleeper])" by (intro serve) simp_all
  then show ?thesis using one_more [OF first] by simp
qed

theorem permits_bounded_witness:
  "length (filter holds_permit [sample_model_request\<lparr>rq_pc := Admitted\<rparr>, sample_sleeper]) \<le> 1
   \<and> role_count (adm_roles (observeAdmission (take_permit ''main'' (new_route 1)))) ''main''
     = int (length (filter (holds_as ''main'') [sample_model_request\<lparr>rq_pc := Admitted\<rparr>, sample_sleeper]))"
  using permits_bounded [OF sample_gate_full, of "''main''"] by simp

theorem gate_not_stuck_witness:
  "request_step 10 (sample_sleeper, release_permit ''main'' (take_permit ''main'' (new_route 1)))
     (sample_model_request\<lparr>rq_reason := ''capacity''\<rparr>, release_permit ''main'' (take_permit ''main'' (new_route 1)))"
proof -
  let ?r = "take_permit ''main'' (new_route 1)" and ?a = "sample_model_request\<lparr>rq_pc := Admitted\<rparr>"
  have "request_step 10 ([?a, sample_sleeper] ! 0, ?r) (?a\<lparr>rq_pc := Done\<rparr>, release_permit (admissionRole (rq_role ?a)) ?r)"
    using leave [of ?a 10 ?r] by simp
  then have "gate_step (10, ?r, [?a, sample_sleeper]) (10, release_permit ''main'' ?r, [?a, sample_sleeper][0 := ?a\<lparr>rq_pc := Done\<rparr>])"
    by (intro serve) (simp_all add: sample_model_request_def admissionRole_def)
  then have reach: "gate_steps (gate_start 10 1) (10, release_permit ''main'' ?r, [sample_model_request\<lparr>rq_pc := Done\<rparr>, sample_sleeper])"
    using one_more [OF sample_gate_full] by simp
  show ?thesis using gate_not_stuck [OF reach, of sample_sleeper None]
    by (simp add: sample_sleeper_def sample_model_request_def holds_permit_def release_permit_def take_permit_def new_route_def)
qed

theorem rate_limit_respected_witness: "0 + max Second (min 2 maxRetryAfter) \<le> Second"
proof -
  let ?r = "observe 0 (RateLimited (Some 2)) (new_route 1)"
  have reach: "gate_steps (0, ?r, [sample_model_request]) (Second, ?r, [sample_model_request])"
    by (rule one_more [OF no_more elapse]) (simp add: Second_def)
  have "request_step Second ([sample_model_request] ! 0, ?r) (sample_model_request\<lparr>rq_pc := Admitted\<rparr>, take_permit ''main'' ?r)"
    by (rule one_pass) (simp_all add: sample_model_request_def acquire_pass_def observe_def Let_def cooldown_delay_def new_route_def admissionRole_def Second_def maxRetryAfter_def)
  from rate_limit_respected [OF reach _ this] show ?thesis by (simp add: sample_model_request_def)
qed

end
