(* ===== verification/Spec2Isabelle.thy ===== *)
theory Spec2Isabelle
  imports Assessment RunPool TaskQueue PlanCancellation GrantClass WorkCancel InboundReceipts RegisteredSecrets ExecutionLane RequestGate
begin

text \<open>
  Verification library of SelfMind, a daemon that runs long tasks for a person through a language model.

  The program. A message from a platform is saved as a receipt (\<^verbatim>\<open>internal/control/inbound_dedup.go\<close>), is dispatched once
  and becomes a row of a durable queue (\<^verbatim>\<open>internal/control/queue.go\<close>). A worker claims
  the row, binds it to a run and submits the run to a pool (\<^verbatim>\<open>internal/runpool\<close>), which admits it when its
  workspace is free and a worker slot is; a watchdog cancels a run that hangs. While it works, the run
  submits snapshots of a plan (\<^verbatim>\<open>internal/control/run_plan*.go\<close>), changes files and runs checks. What the
  checks prove about the plan is computed by \<^verbatim>\<open>internal/verification\<close>, and the run may finish only on that
  evidence. Before a tool runs a command, \<^verbatim>\<open>internal/tools\<close> finds out which programs the command runs, through
  assignments, wrappers, shells and nested scripts; approvals and the safety floor are decided on that, and a
  person's answer may be remembered for the class of command it named. A call that may change something outside
  the workspace first claims its targets in the effect ledger (\<^verbatim>\<open>internal/control/external_effect_*.go\<close>), which keeps
  it from running twice or beside a conflicting call, also across restarts. A call that needs a person asks for an
  approval or an answer (\<^verbatim>\<open>internal/control/approvals.go\<close>, \<^verbatim>\<open>clarifies.go\<close>) and waits for it; when the person is slow, the
  request and its run are parked, and the answer later queues a continuation of that run. A stop, the drop of a queue row
  and the clearing of the queue close parked runs with everything that could continue them. A command on the host runs alone in the
  execution lane of its person (\<^verbatim>\<open>internal/tools/execution_lane.go\<close>), and what a tool prints is searched for credentials before anyone sees it
  (\<^verbatim>\<open>internal/tools/redaction_*.go\<close>, \<^verbatim>\<open>security.go\<close>). The requests of all runs to a model provider pass one gate
  (\<^verbatim>\<open>internal/kernel/llm/request_gate.go\<close>), which bounds them and keeps the provider's rate limits. These are the parts
  where an error loses work, runs it twice, lets two runs write the same files, reports success
  that was not observed, acts without the person's consent, shows a secret or hides what a command does; they are what is modelled.

  Theories and sources.
  \<^item> \<open>Prelude\<close>: Go strings as byte lists, UTF-8 decoding, \<^verbatim>\<open>strings.TrimSpace\<close>, \<^verbatim>\<open>Fields\<close>, \<^verbatim>\<open>Join\<close>, \<^verbatim>\<open>ToLower\<close>,
    decimal numbers; loops that may return early (\<open>foldm\<close>), counting of activities (\<open>jcount\<close>), statements on rows (\<open>row_statement\<close>).
  \<^item> \<open>Paths\<close>: \<^verbatim>\<open>path/filepath\<close> on slash-separated paths.
  \<^item> \<open>Evidence\<close>: \<^verbatim>\<open>internal/verification\<close> (\<^verbatim>\<open>evidence.go\<close>, \<^verbatim>\<open>dependencies.go\<close>, \<^verbatim>\<open>blockers.go\<close>,
    \<^verbatim>\<open>evidence_issues.go\<close>, \<^verbatim>\<open>observation.go\<close>). A check is the record \<open>check\<close>; \<open>Latest\<close> selects the effective
    checks, \<open>StateWithMutations\<close> computes the verdict. A nil dereference is \<^const>\<open>None\<close>.
  \<^item> \<open>Assessment\<close>: \<^verbatim>\<open>assessment.go\<close> and \<^verbatim>\<open>assessment_binding.go\<close>. \<open>ProjectAssessments\<close> resolves findings to checks and
    projects them to conditions, blockers and a review verdict.
  \<^item> \<open>ClaimPaths\<close>: the canonical roots and the conflict test of \<^verbatim>\<open>pool.go\<close> and \<^verbatim>\<open>physical_path.go\<close>; the file system
    is the record \<open>fs\<close> of the calls the code makes.
  \<^item> \<open>Watchdog\<close>: \<^verbatim>\<open>watchdog.go\<close>, the timer loop and the calls of the run as steps of one machine.
  \<^item> \<open>RunPool\<close>: \<^verbatim>\<open>pool.go\<close>. Each job is an activation record with a program counter; \<open>pool_step\<close> lets any job take
    its next action, so \<open>reachable\<close> contains every interleaving of any number of jobs.
  \<^item> \<open>TaskQueue\<close>: \<^verbatim>\<open>queue.go\<close>. The table is a list of rows in rowid order, a statement is \<open>update_where\<close>, and
    \<open>queue_step\<close> is any operation with any arguments at any time.
  \<^item> \<open>RunPlan\<close>: the computations of \<^verbatim>\<open>run_plan.go\<close> on snapshots. \<open>resolveRunPlanSteps\<close> is its three loops in order.
  \<^item> \<open>PlanCancellation\<close>: \<^verbatim>\<open>run_plan_cancellation.go\<close> and \<^verbatim>\<open>run_plan_quote_source.go\<close>, down to the sentences of a quoted
    message.
  \<^item> \<open>GoStrings\<close>: the functions of \<^verbatim>\<open>strings\<close> that the command readers call.
  \<^item> \<open>EnvSplit\<close>: \<^verbatim>\<open>env_split_string.go\<close>, the splitting of \<^verbatim>\<open>env -S\<close> strings.
  \<^item> \<open>Launchers\<close>: \<^verbatim>\<open>command_launchers.go\<close> and \<^verbatim>\<open>parallel_arguments.go\<close>. \<open>prefixWrapper\<close> is the option grammar of a launcher,
    \<open>wrapperOptions\<close> reads its options, \<open>unwrap\<close> finds the command it runs.
  \<^item> \<open>ShellGrammar\<close>: \<^verbatim>\<open>shell_grammar.go\<close> and \<^verbatim>\<open>su\<close>. A grammar maps arguments to the command strings the shell runs.
  \<^item> \<open>CommandIdentity\<close>: \<^verbatim>\<open>command_identity.go\<close> and \<^verbatim>\<open>homebrew_gnu.go\<close>. \<open>identifyCommand\<close> peels assignments and wrappers off a
    command, \<open>fieldCommands\<close> and \<open>shellCommands\<close> read a payload with its nested scripts.
  \<^item> \<open>GrantClass\<close>: \<^verbatim>\<open>grant_prefix.go\<close>, \<^verbatim>\<open>grant_floor.go\<close>, the keys of \<^verbatim>\<open>middleware.go\<close> and the prefix rules of
    \<^verbatim>\<open>approval_rules.go\<close>. \<open>grantCommandPrefix\<close> derives the class a remembered approval stands for,
    \<open>approvalPatternKeyForScope\<close> its key, \<open>ReviewPersistedGrantKey\<close> reviews a stored key.
  \<^item> \<open>EffectClaims\<close>: \<^verbatim>\<open>external_effect_claims.go\<close>, \<^verbatim>\<open>_lifecycle.go\<close>, \<^verbatim>\<open>_observation.go\<close>, \<^verbatim>\<open>_recovery.go\<close> and \<^verbatim>\<open>_settlement.go\<close>. The
    record \<open>effect_store\<close> holds the tables, an operation is a transaction on it, and \<open>effect_step\<close> is any operation
    of any daemon process or a change the rest of the program makes to the shared tables.
  \<^item> \<open>Approvals\<close>: \<^verbatim>\<open>approvals.go\<close> and the binding of a live wait. The record \<open>human_store\<close> holds the requests, questions,
    checkpoints and runs and the table of \<open>TaskQueue\<close>; an operation is a transaction on it.
  \<^item> \<open>HumanWait\<close>: \<^verbatim>\<open>clarifies.go\<close>, \<^verbatim>\<open>human_wait.go\<close>, the wait bindings of \<^verbatim>\<open>loop_checkpoint.go\<close>, \<^verbatim>\<open>parked_human_cancel.go\<close> and
    the statements of \<^verbatim>\<open>run_cancellation.go\<close>. \<open>human_step\<close> is any operation on requests and questions, or a change
    the rest of the program makes to the runs, checkpoints and queue.
  \<^item> \<open>WorkCancel\<close>: \<^verbatim>\<open>parked_provider_cancel.go\<close>, \<^verbatim>\<open>external_resource_cancel.go\<close>, \<^verbatim>\<open>RequestRunCancel\<close>, \<^verbatim>\<open>ClearQueued\<close> and the reads of a checkpoint.
    The record \<open>work_store\<close> adds the watches and resource waits to \<open>human_store\<close>; \<open>work_step\<close> adds the cancellations to \<open>human_step\<close>.
  \<^item> \<open>InboundReceipts\<close>: \<^verbatim>\<open>inbound_dedup.go\<close>. The table is a list of receipts; \<open>inbound_step\<close> is any operation, where \<open>may_release\<close> names the
    claims that may be given back and \<open>limit\<close> the time until which the sequence runs.
  \<^item> \<open>TextBounds\<close>: \<^verbatim>\<open>internal/platform/textutil\<close>, cleaning and cutting of UTF-8 text.
  \<^item> \<open>RedactionSpans\<close>: \<^verbatim>\<open>redaction_spans.go\<close>. \<open>mergeSpans\<close> and \<open>applyMasks\<close> mask ranges of a text, \<open>detectionView\<close> is the text as a reader
    sees it and \<open>original\<close> the way back.
  \<^item> \<open>RegisteredSecrets\<close>: \<^verbatim>\<open>redaction_secrets.go\<close>, the registry of \<^verbatim>\<open>security.go\<close> and \<^verbatim>\<open>feed\<close> of \<^verbatim>\<open>redaction_stream.go\<close>. \<open>Register\<close> adds a secret,
    \<open>spans\<close> finds the secrets of a snapshot in a text, \<open>Redact\<close> masks them, \<open>borders\<close> and \<open>feed\<close> follow them over lines.
  \<^item> \<open>ExecutionLane\<close>: \<^verbatim>\<open>execution_lane.go\<close>. A call is an activation record, a step a section under the mutex; \<open>lane_reachable\<close> contains every
    interleaving of any number of calls with cancellations and changes of the durable queue.
  \<^item> \<open>RequestGate\<close>: \<^verbatim>\<open>request_gate.go\<close>, \<^verbatim>\<open>request_admission.go\<close> and \<^verbatim>\<open>provider_wait.go\<close> of \<^verbatim>\<open>internal/kernel/llm\<close>. A route is a record, a pass of
    \<^verbatim>\<open>acquire\<close> the function \<open>acquire_pass\<close>; \<open>gate_steps\<close> contains every interleaving of requests with the clock.

  What the lemmas show.
  \<^item> Evidence and assessments: success is reported only on fresh, successful, effective checks; failures, stale
    checks and replaced checks are accounted for; a review is complete only when nothing is open; the
    functions return for every input whose checks carry a binding, and the one panic that is left is
    exhibited.
  \<^item> Pool and watchdog: invariants by rule induction over all interleavings give mutual exclusion by key and by
    overlapping roots, the bound on workers, absence of deadlock, release of everything at the end; a stall is
    reported only for a run that is idle and not waiting, and then it is. The locale \<open>claim_table\<close> states what
    a table of pairwise conflict-free claims promises and is interpreted on the path claims.
  \<^item> Queue: the locale \<open>keyed_update\<close> states the contract of a compare-and-swap statement and is interpreted on all
    eleven of them; from it follow exclusive claims, powerless stale tokens, write-once run bindings,
    idempotent enqueueing and earliest start times along every sequence of steps, and the effect of boot
    recovery on a row.
  \<^item> Plans: accepted snapshots are well formed, step ids are never reused, obligations survive, repeating a plan
    changes nothing, and a cancellation stands only on a completed replacement or on words found in
    a person's input.
  \<^item> Commands: assignments and plain wrappers never hide the program; positions stay in range through wrappers and
    split strings; the locale \<open>shell_grammar\<close> states that a reading shows a command or says that it is opaque and
    is interpreted on every shell and on su, so that no shell passes as a plain program; a command called exact
    is all that any grammar runs; every segment of a payload and of the scripts below it is read; a payload that
    backs a remembered class runs plain programs only.
  \<^item> Remembered approvals: a class names one operation of one program that is not banned, under one configuration,
    identity and request method, for every command that has it; a selector inside a bundle of short options is
    missed, which is exhibited.
  \<^item> Effects: the locale \<open>claim_update\<close> states that a statement on the claims only moves them along their life and is
    interpreted on all of them; from it follow, over every interleaving, that conflicting effects never overlap,
    that an effect is granted once and an observation used once, and that only an observation after the
    effect or its owner's settlement releases a claim; a call that conflicts with nothing is granted.
  \<^item> Approvals and questions: the locale \<open>row_statement\<close> states that a statement moves each row along its life and is
    interpreted on the statements of both tables; from it follow, along every sequence of steps, that an answer
    is final, that a decision is used once and only by the call it was given for, that no authorization exists
    without a person's approval, and that a stop is final. Answering and parking are shown to move the request, the
    run and the queue together. That an authorization without a run can be taken by an unrelated run is
    exhibited.
  \<^item> Cancellations: every sequence of stops, drops and clears acts on the shared tables as steps of the machine of requests,
    so what is proved of that machine holds under them; a stop leaves nothing of a run that could be asked, answered or
    continued; dropping or clearing rows closes the waits whose wake-up they were and touches no other row.
  \<^item> Inbound messages: a message is dispatched once, a dispatcher whose claim was taken over changes nothing, and input without an
    accepted outcome is never lost.
  \<^item> Text: cleaning keeps exactly the well-formed characters, a cut is the longest whole prefix or suffix that fits.
  \<^item> Secrets: masking is compared with a byte-wise reference; merged ranges are canonical and binary search on them is membership; a match
    on a view is mapped back to whole units, and the shortcut without a view is sound; every occurrence of a registered secret is masked,
    as written, in its JSON forms and, for a JSON document, in any layout, while names are masked by the word; the failure function is the
    longest border and the state of a stream the longest beginning of a secret that has been printed.
  \<^item> Execution lane: a host call runs alone and is not overtaken, no wake-up is lost, and readiness agrees with admission.
  \<^item> Request gate: a route never has more requests in flight than it allows and its reports are exact; a rate limit holds for every request of
    the route as long as the provider asked, within bounds; at an open gate nobody sleeps.

  Assumptions and bounds. Times are unbounded integers, and so are counters that the code keeps in 64 bits
  (claim ids, step ids, generations): none can wrap in a run of the program. Offsets into a text are natural numbers; the views keep them in 32 bits, which a text below
  2 GiB does not exceed. Loops are total functions with
  termination proofs; no fuel is used. The inner loop of the failure function may run forever on arbitrary data and is a partial function,
  proved to return. Database calls that fail, and errors of encoding, are not modelled
  where the code only passes them on. What the code reads from outside is an argument: \<open>ul\<close> (the case table
  of Unicode), \<open>uni\<close> (its letter classes), \<open>fs\<close> (the file system), \<open>uuid\<close>, the current time, \<open>readable\<close> (an
  admission snapshot decodes), \<open>finished\<close> and \<open>running\<close> (events and runs of other tables), \<open>validate\<close> (the outcome of
  \<^verbatim>\<open>validatePriorVerificationReuseTx\<close>), the rows of a query, \<open>restates\<close> (two admission snapshots
  are the same), \<open>inst\<close> (the identity of a daemon process), \<open>digest\<close> (a hash), \<open>observes\<close> (the catalog of read-only
  commands), \<open>keeps_hyphens\<close> and \<open>tool_call\<close>, \<open>order\<close> (the order in which Go visits a map), \<open>essential\<close> (the fields that identify a message), \<open>cf\<close> (the
  format characters of Unicode), \<open>container\<close> (a value decodes as a JSON object or array); \<open>P\<close>, a \<open>shell_syntax\<close>, is the shell parser and quoter \<^verbatim>\<open>mvdan.cc/sh\<close> with
  the case table. The bounds of the command readers are the code's: eight wrappers, eight split strings, four
  nested scripts, 64 argument combinations.

  Not modelled: the SQL of the store apart from the queue, the effect tables, the human requests and the receipts (the transaction of
  \<^verbatim>\<open>SyncRunPlan\<close> and the statements of other files that touch the queue included), the events that announce
  a transition and the reset of a work history, the agent kernel
  and its tools apart from the request gate, the command readers, the masking of registered secrets and the lane, the credential patterns of
  redaction (regular expressions, rewriting of JSON documents, held lines of a stream), the middleware around the lane, the functions of
  \<^verbatim>\<open>command_identity.go\<close> that take words from the syntax tree of the shell parser (\<^verbatim>\<open>shellWord\<close>, \<^verbatim>\<open>shellAssignWord\<close>, \<^verbatim>\<open>shellWriteTargets\<close>, \<^verbatim>\<open>rawSource\<close>),
  the gateway, model runtimes, sandboxing, configuration, the command line and the user
  interface: they are input and output, or they call services the repository does not contain.
\<close>

end
